(* ===== verification/Prelude.thy ===== *)
theory Prelude
  imports Main "HOL-Library.Word" "HOL-Library.Monad_Syntax" "HOL-Library.Multiset"
begin

unbundle bit_operations_syntax

text \<open>
  Shared vocabulary of the development: the machine integers of the C++ sources, the
  \<open>Result<T>\<close> class of \<^verbatim>\<open>include/utreexo/result.h\<close>, the 32-byte value type \<open>Hash256\<close> of
  \<^verbatim>\<open>include/utreexo/hash.h\<close>, the bit-counting functions of \<^verbatim>\<open><bit>\<close>, and the generic
  lemmas on words and lists that the component theories share.
\<close>

section \<open>Machine integers\<close>

type_synonym byte = "8 word"
type_synonym u8 = "8 word"
type_synonym u16 = "16 word"
type_synonym u32 = "32 word"
type_synonym u64 = "64 word"

named_theorems result_simps \<open>unfolding of the Result combinators\<close>
named_theorems codec_simps \<open>byte-level encodings and readers\<close>
named_theorems pos_simps \<open>row and offset coordinates of forest positions\<close>

lemma unat_ucast_u32_u64 [simp]: "unat (ucast (x :: u32) :: u64) = unat x"
proof -
  have "unat x < 2 ^ 64" by (rule less_le_trans [OF unsigned_less]) simp
  then show ?thesis by (simp add: unsigned_ucast_eq take_bit_nat_eq_self)
qed

lemma unat_ucast_u16_u64 [simp]: "unat (ucast (x :: u16) :: u64) = unat x"
proof -
  have "unat x < 2 ^ 64" by (rule less_le_trans [OF unsigned_less]) simp
  then show ?thesis by (simp add: unsigned_ucast_eq take_bit_nat_eq_self)
qed

lemma unat_ucast_u8_u64 [simp]: "unat (ucast (x :: u8) :: u64) = unat x"
proof -
  have "unat x < 2 ^ 64" by (rule less_le_trans [OF unsigned_less]) simp
  then show ?thesis by (simp add: unsigned_ucast_eq take_bit_nat_eq_self)
qed

lemma unat_u8_less: "unat (x :: u8) < 2 ^ 8"
  by (rule less_le_trans [OF unsigned_less]) simp

lemma unat_u16_less: "unat (x :: u16) < 2 ^ 16"
  by (rule less_le_trans [OF unsigned_less]) simp

lemma unat_u32_less: "unat (x :: u32) < 2 ^ 32"
  by (rule less_le_trans [OF unsigned_less]) simp

lemma unat_u64_less: "unat (x :: u64) < 2 ^ 64"
  by (rule less_le_trans [OF unsigned_less]) simp

lemma unat_plus_one: "m \<noteq> - 1 \<Longrightarrow> unat (m + 1 :: 'a::len word) = unat m + 1"
proof -
  assume "m \<noteq> - 1"
  then have "m + 1 \<noteq> 0" by (metis add.commute add_diff_cancel_left' diff_0)
  then show ?thesis by (metis add_diff_cancel_right' unat_gt_0 unat_minus_one Suc_eq_plus1 Suc_pred')
qed

lemma word_less_plus_one: "m \<noteq> - 1 \<Longrightarrow> n < m + 1 \<longleftrightarrow> n < m \<or> n = (m :: 'a::len word)"
  by (auto simp: word_less_nat_alt unat_plus_one less_Suc_eq word_unat_eq_iff)

section \<open>Results\<close>

text \<open>
  The outcome of a call: \<open>Result<T>\<close> carries a value or an error message (\<open>Result<void>\<close> is
  \<open>unit Result\<close>); a C++ exception that leaves the call is the third outcome, with the text of
  \<open>what()\<close>.
\<close>

datatype 'a Result = Ok 'a | Err string | Throw string

primrec HasValue :: "'a Result \<Rightarrow> bool" where
  "HasValue (Ok _) = True"
| "HasValue (Err _) = False"
| "HasValue (Throw _) = False"

primrec and_then :: "'a Result \<Rightarrow> ('a \<Rightarrow> 'b Result) \<Rightarrow> 'b Result" where
  "and_then (Ok a) f = f a"
| "and_then (Err e) f = Err e"
| "and_then (Throw e) f = Throw e"

lemma and_then_Ok_iff [result_simps]:
  "and_then r f = Ok b \<longleftrightarrow> (\<exists>a. r = Ok a \<and> f a = Ok b)"
  by (cases r) auto

lemma HasValue_iff [result_simps]: "HasValue r \<longleftrightarrow> (\<exists>a. r = Ok a)"
  by (cases r) auto

section \<open>256-bit hashes\<close>

text \<open>\<open>Hash256\<close> stores \<open>std::array<std::byte, 32>\<close>; its \<open><=>\<close> compares the bytes
  lexicographically.\<close>

typedef hash256 = "{bs :: byte list. length bs = 32}"
  morphisms Bytes Hash256
  by (rule exI [of _ "replicate 32 0"]) simp

lemma length_Bytes [simp]: "length (Bytes h) = 32"
  using Bytes [of h] by simp

lemma Bytes_Hash256 [simp]: "length bs = 32 \<Longrightarrow> Bytes (Hash256 bs) = bs"
  by (simp add: Hash256_inverse)

lemma Hash256_Bytes [simp]: "Hash256 (Bytes h) = h"
  by (rule Bytes_inverse)

lemma Bytes_inj [simp]: "Bytes a = Bytes b \<longleftrightarrow> a = b"
  by (rule Bytes_inject)

lemma Hash256_eq_iff [simp]:
  "length a = 32 \<Longrightarrow> length b = 32 \<Longrightarrow> Hash256 a = Hash256 b \<longleftrightarrow> a = b"
  by (simp add: Hash256_inject)

instantiation hash256 :: equal
begin

definition equal_hash256 :: "hash256 \<Rightarrow> hash256 \<Rightarrow> bool" where
  "equal_hash256 a b \<longleftrightarrow> Bytes a = Bytes b"

instance
  by standard (simp add: equal_hash256_def)

end

instantiation hash256 :: linorder
begin

definition less_eq_hash256 :: "hash256 \<Rightarrow> hash256 \<Rightarrow> bool" where
  "a \<le> b \<longleftrightarrow> lexordp_eq (Bytes a) (Bytes b)"

definition less_hash256 :: "hash256 \<Rightarrow> hash256 \<Rightarrow> bool" where
  "a < b \<longleftrightarrow> ord_class.lexordp (Bytes a) (Bytes b)"

instance
proof
  fix a b c :: hash256
  show "a < b \<longleftrightarrow> a \<le> b \<and> \<not> b \<le> a"
    unfolding less_eq_hash256_def less_hash256_def
    by (metis lexordp_conv_lexordp_eq lexordp_eq_linear lexordp_eq_antisym lexordp_eq_refl)
  show "a \<le> a"
    by (simp add: less_eq_hash256_def lexordp_eq_refl)
  show "a \<le> b \<Longrightarrow> b \<le> c \<Longrightarrow> a \<le> c"
    unfolding less_eq_hash256_def by (rule lexordp_eq_trans)
  show "a \<le> b \<Longrightarrow> b \<le> a \<Longrightarrow> a = b"
    unfolding less_eq_hash256_def by (metis Bytes_inj lexordp_eq_antisym)
  show "a \<le> b \<or> b \<le> a"
    unfolding less_eq_hash256_def by (rule lexordp_eq_linear)
qed

end

text \<open>The default-constructed hash (all bytes zero) and \<open>Hash256::IsNull\<close>.\<close>

definition null_hash :: hash256 where
  "null_hash = Hash256 (replicate 32 0)"

definition IsNull :: "hash256 \<Rightarrow> bool" where
  "IsNull h \<longleftrightarrow> (\<forall>b \<in> set (Bytes h). b = 0)"

lemma IsNull_iff: "IsNull h \<longleftrightarrow> h = null_hash"
proof
  assume "IsNull h"
  then have "Bytes h = replicate 32 0"
    by (intro replicate_eqI) (auto simp: IsNull_def)
  then show "h = null_hash"
    by (metis Hash256_Bytes null_hash_def)
qed (simp add: IsNull_def null_hash_def)

section \<open>Bit counting (the header bit)\<close>

definition countl_zero :: "u64 \<Rightarrow> nat" where
  "countl_zero w = length (takeWhile (\<lambda>i. \<not> bit w i) (rev [0..<64]))"

definition countl_one :: "u64 \<Rightarrow> nat" where
  "countl_one w = length (takeWhile (\<lambda>i. bit w i) (rev [0..<64]))"

definition countr_one :: "u64 \<Rightarrow> nat" where
  "countr_one w = length (takeWhile (\<lambda>i. bit w i) [0..<64])"

definition popcount :: "u64 \<Rightarrow> nat" where
  "popcount w = length (filter (\<lambda>i. bit w i) [0..<64])"

definition bit_width :: "u64 \<Rightarrow> nat" where
  "bit_width w = 64 - countl_zero w"

end
