(* ===== verification/Bytes.thy ===== *)
theory Bytes
  imports Prelude
begin

unbundle bit_operations_syntax

text \<open>
  Fixed-width integers as bytes. The sources write an integer byte by byte, lowest byte first
  (\<open>AppendLE\<close>, \<open>WriteLE32\<close>) or filling the buffer from its end (\<open>WriteBE64\<close>, \<open>WriteBE32\<close>), and read it
  back by shifting bytes in. The loops differ in the width and in the file they are in, so they are
  stated once for a width of \<open>n\<close> bytes and a word of any length.
\<close>

section \<open>Loops\<close>

primrec write_le :: "nat \<Rightarrow> 'a::len word \<Rightarrow> byte list" where
  "write_le 0 value = []"
| "write_le (Suc n) value = ucast (value AND 0xff) # write_le n (drop_bit 8 value)"

definition write_be :: "nat \<Rightarrow> 'a::len word \<Rightarrow> byte list" where
  "write_be n value = rev (write_le n value)"

definition shift_in :: "'a::len word \<Rightarrow> byte \<Rightarrow> 'a word" where
  "shift_in value b = push_bit 8 value OR ucast b"

definition read_be :: "byte list \<Rightarrow> 'a::len word" where
  "read_be bs = foldl shift_in 0 bs"

definition read_le :: "byte list \<Rightarrow> 'a::len word" where
  "read_le bs = foldl shift_in 0 (rev bs)"

section \<open>Bits of the encodings\<close>

lemma length_write_le [simp]: "length (write_le n v) = n"
  by (induction n arbitrary: v) auto

lemma length_write_be [simp]: "length (write_be n v) = n"
  by (simp add: write_be_def)

lemma bit_low_byte: "bit (ucast ((v :: 'a::len word) AND 0xff) :: byte) j \<longleftrightarrow> j < 8 \<and> bit v j"
proof -
  have "(0xff :: 'a word) = mask 8" by (simp add: mask_eq_exp_minus_1)
  then have "v AND 0xff = take_bit 8 v" by (simp only: take_bit_eq_mask)
  then show ?thesis
    using bit_imp_le_length [of v j] by (auto simp: bit_ucast_iff bit_take_bit_iff)
qed

lemma bit_nth_write_le:
  "i < n \<Longrightarrow> bit (write_le n v ! i) j \<longleftrightarrow> j < 8 \<and> bit v (8 * i + j)"
proof (induction n arbitrary: i v)
  case (Suc n)
  then show ?case
    by (cases i) (auto simp: bit_low_byte bit_drop_bit_eq add.assoc)
qed simp

lemma read_le_Nil [simp]: "read_le [] = 0"
  by (simp add: read_le_def)

lemma read_le_Cons [simp]: "read_le (b # bs) = shift_in (read_le bs) b"
  by (simp add: read_le_def)

lemma read_be_rev: "read_be bs = read_le (rev bs)"
  by (simp add: read_be_def read_le_def)

lemma bit_shift_in:
  "bit (shift_in (v :: 'a::len word) b) k \<longleftrightarrow> k < LENGTH('a) \<and> (if k < 8 then bit b k else bit v (k - 8))"
  using bit_imp_le_length [of b k]
  by (auto simp: shift_in_def bit_or_iff bit_push_bit_iff bit_ucast_iff)

lemma bit_read_le:
  "bit (read_le bs :: 'a::len word) k \<longleftrightarrow> k < LENGTH('a) \<and> k < 8 * length bs \<and> bit (bs ! (k div 8)) (k mod 8)"
proof (induction bs arbitrary: k)
  case (Cons b bs)
  show ?case
  proof (cases "k < 8")
    case False
    then have "k div 8 = Suc ((k - 8) div 8)" "k mod 8 = (k - 8) mod 8"
      by (simp_all add: le_div_geq le_mod_geq not_less)
    with False show ?thesis using Cons.IH [of "k - 8"] by (auto simp: bit_shift_in)
  qed (auto simp: bit_shift_in)
qed simp

section \<open>Round trips\<close>

lemma read_le_write_le [codec_simps]: "read_le (write_le n v) = take_bit (8 * n) (v :: 'a::len word)"
proof (rule bit_word_eqI)
  fix k
  assume k: "k < LENGTH('a)"
  show "bit (read_le (write_le n v) :: 'a word) k = bit (take_bit (8 * n) v) k"
  proof (cases "k < 8 * n")
    case True
    then have "k div 8 < n" by (simp add: less_mult_imp_div_less mult.commute)
    with True k show ?thesis
      by (simp add: bit_read_le bit_take_bit_iff bit_nth_write_le)
  qed (simp add: bit_read_le bit_take_bit_iff)
qed

lemma read_be_write_be [codec_simps]: "read_be (write_be n v) = take_bit (8 * n) v"
  by (simp add: read_be_rev write_be_def read_le_write_le)

lemma write_le_read_le [codec_simps]:
  assumes "length bs = n" "8 * n \<le> LENGTH('a)"
  shows "write_le n (read_le bs :: 'a::len word) = bs"
proof (rule nth_equalityI)
  fix i
  assume i: "i < length (write_le n (read_le bs :: 'a word))"
  show "write_le n (read_le bs :: 'a word) ! i = bs ! i"
  proof (rule bit_word_eqI)
    fix j
    assume j: "j < LENGTH(8)"
    then have "8 * i + j < 8 * n" using i by simp
    then show "bit (write_le n (read_le bs :: 'a word) ! i) j = bit (bs ! i) j"
      using i j assms by (simp add: bit_nth_write_le bit_read_le)
  qed
qed (simp add: assms)

lemma write_be_read_be [codec_simps]:
  "length bs = n \<Longrightarrow> 8 * n \<le> LENGTH('a) \<Longrightarrow> write_be n (read_be bs :: 'a::len word) = bs"
  by (simp add: write_be_def read_be_rev write_le_read_le)

lemma write_le_inject:
  "LENGTH('a) \<le> 8 * n \<Longrightarrow> write_le n v = write_le n w \<longleftrightarrow> v = (w :: 'a::len word)"
  by (metis read_le_write_le take_bit_word_eq_self)

end
