(* ===== verification/Hash.thy ===== *)
theory Hash
  imports Bytes
begin

unbundle bit_operations_syntax

text \<open>
  The hash functions of \<^verbatim>\<open>src/src/hash.cpp\<close>: SHA-512/256 (node and leaf hashes), SHA-256 and
  RIPEMD-160 (script hashes), the parent hash of two nodes, and the textual form of a hash. The
  streaming code (whole blocks first, then a zeroed tail buffer with the terminator and the
  bit length) is compared with the padding rule of FIPS 180-4, and the round functions in the form
  the code computes them with the standard's choice and majority functions.
\<close>

section \<open>Constants\<close>

definition K512 :: "u64 list" where
  "K512 = concat [
     [0x428a2f98d728ae22, 0x7137449123ef65cd, 0xb5c0fbcfec4d3b2f, 0xe9b5dba58189dbbc],
     [0x3956c25bf348b538, 0x59f111f1b605d019, 0x923f82a4af194f9b, 0xab1c5ed5da6d8118],
     [0xd807aa98a3030242, 0x12835b0145706fbe, 0x243185be4ee4b28c, 0x550c7dc3d5ffb4e2],
     [0x72be5d74f27b896f, 0x80deb1fe3b1696b1, 0x9bdc06a725c71235, 0xc19bf174cf692694],
     [0xe49b69c19ef14ad2, 0xefbe4786384f25e3, 0x0fc19dc68b8cd5b5, 0x240ca1cc77ac9c65],
     [0x2de92c6f592b0275, 0x4a7484aa6ea6e483, 0x5cb0a9dcbd41fbd4, 0x76f988da831153b5],
     [0x983e5152ee66dfab, 0xa831c66d2db43210, 0xb00327c898fb213f, 0xbf597fc7beef0ee4],
     [0xc6e00bf33da88fc2, 0xd5a79147930aa725, 0x06ca6351e003826f, 0x142929670a0e6e70],
     [0x27b70a8546d22ffc, 0x2e1b21385c26c926, 0x4d2c6dfc5ac42aed, 0x53380d139d95b3df],
     [0x650a73548baf63de, 0x766a0abb3c77b2a8, 0x81c2c92e47edaee6, 0x92722c851482353b],
     [0xa2bfe8a14cf10364, 0xa81a664bbc423001, 0xc24b8b70d0f89791, 0xc76c51a30654be30],
     [0xd192e819d6ef5218, 0xd69906245565a910, 0xf40e35855771202a, 0x106aa07032bbd1b8],
     [0x19a4c116b8d2d0c8, 0x1e376c085141ab53, 0x2748774cdf8eeb99, 0x34b0bcb5e19b48a8],
     [0x391c0cb3c5c95a63, 0x4ed8aa4ae3418acb, 0x5b9cca4f7763e373, 0x682e6ff3d6b2b8a3],
     [0x748f82ee5defb2fc, 0x78a5636f43172f60, 0x84c87814a1f0ab72, 0x8cc702081a6439ec],
     [0x90befffa23631e28, 0xa4506cebde82bde9, 0xbef9a3f7b2c67915, 0xc67178f2e372532b],
     [0xca273eceea26619c, 0xd186b8c721c0c207, 0xeada7dd6cde0eb1e, 0xf57d4f7fee6ed178],
     [0x06f067aa72176fba, 0x0a637dc5a2c898a6, 0x113f9804bef90dae, 0x1b710b35131c471b],
     [0x28db77f523047d84, 0x32caab7b40c72493, 0x3c9ebe0a15c9bebc, 0x431d67c49c100d4c],
     [0x4cc5d4becb3e42b6, 0x597f299cfc657e2a, 0x5fcb6fab3ad6faec, 0x6c44198c4a475817]]"

definition SHA256_K :: "u32 list" where
  "SHA256_K = concat [
     [0x428a2f98, 0x71374491, 0xb5c0fbcf, 0xe9b5dba5],
     [0x3956c25b, 0x59f111f1, 0x923f82a4, 0xab1c5ed5],
     [0xd807aa98, 0x12835b01, 0x243185be, 0x550c7dc3],
     [0x72be5d74, 0x80deb1fe, 0x9bdc06a7, 0xc19bf174],
     [0xe49b69c1, 0xefbe4786, 0x0fc19dc6, 0x240ca1cc],
     [0x2de92c6f, 0x4a7484aa, 0x5cb0a9dc, 0x76f988da],
     [0x983e5152, 0xa831c66d, 0xb00327c8, 0xbf597fc7],
     [0xc6e00bf3, 0xd5a79147, 0x06ca6351, 0x14292967],
     [0x27b70a85, 0x2e1b2138, 0x4d2c6dfc, 0x53380d13],
     [0x650a7354, 0x766a0abb, 0x81c2c92e, 0x92722c85],
     [0xa2bfe8a1, 0xa81a664b, 0xc24b8b70, 0xc76c51a3],
     [0xd192e819, 0xd6990624, 0xf40e3585, 0x106aa070],
     [0x19a4c116, 0x1e376c08, 0x2748774c, 0x34b0bcb5],
     [0x391c0cb3, 0x4ed8aa4a, 0x5b9cca4f, 0x682e6ff3],
     [0x748f82ee, 0x78a5636f, 0x84c87814, 0x8cc70208],
     [0x90befffa, 0xa4506ceb, 0xbef9a3f7, 0xc67178f2]]"

definition RIPEMD_R_LEFT :: "nat list" where
  "RIPEMD_R_LEFT = concat [
     [0, 1, 2, 3, 4, 5, 6, 7, 8, 9, 10, 11, 12, 13, 14, 15],
     [7, 4, 13, 1, 10, 6, 15, 3, 12, 0, 9, 5, 2, 14, 11, 8],
     [3, 10, 14, 4, 9, 15, 8, 1, 2, 7, 0, 6, 13, 11, 5, 12],
     [1, 9, 11, 10, 0, 8, 12, 4, 13, 3, 7, 15, 14, 5, 6, 2],
     [4, 0, 5, 9, 7, 12, 2, 10, 14, 1, 3, 8, 11, 6, 15, 13]]"

definition RIPEMD_R_RIGHT :: "nat list" where
  "RIPEMD_R_RIGHT = concat [
     [5, 14, 7, 0, 9, 2, 11, 4, 13, 6, 15, 8, 1, 10, 3, 12],
     [6, 11, 3, 7, 0, 13, 5, 10, 14, 15, 8, 12, 4, 9, 1, 2],
     [15, 5, 1, 3, 7, 14, 6, 9, 11, 8, 12, 2, 10, 0, 4, 13],
     [8, 6, 4, 1, 3, 11, 15, 0, 5, 12, 2, 13, 9, 7, 10, 14],
     [12, 15, 10, 4, 1, 5, 8, 7, 6, 2, 13, 14, 0, 3, 9, 11]]"

definition RIPEMD_S_LEFT :: "nat list" where
  "RIPEMD_S_LEFT = concat [
     [11, 14, 15, 12, 5, 8, 7, 9, 11, 13, 14, 15, 6, 7, 9, 8],
     [7, 6, 8, 13, 11, 9, 7, 15, 7, 12, 15, 9, 11, 7, 13, 12],
     [11, 13, 6, 7, 14, 9, 13, 15, 14, 8, 13, 6, 5, 12, 7, 5],
     [11, 12, 14, 15, 14, 15, 9, 8, 9, 14, 5, 6, 8, 6, 5, 12],
     [9, 15, 5, 11, 6, 8, 13, 12, 5, 12, 13, 14, 11, 8, 5, 6]]"

definition RIPEMD_S_RIGHT :: "nat list" where
  "RIPEMD_S_RIGHT = concat [
     [8, 9, 9, 11, 13, 15, 15, 5, 7, 7, 8, 11, 14, 14, 12, 6],
     [9, 13, 15, 7, 12, 8, 9, 11, 7, 7, 12, 7, 6, 15, 13, 11],
     [9, 7, 15, 11, 8, 6, 6, 14, 12, 13, 5, 14, 13, 13, 7, 5],
     [15, 5, 8, 11, 14, 14, 6, 14, 6, 9, 12, 9, 12, 5, 15, 8],
     [8, 5, 12, 9, 12, 5, 14, 6, 8, 13, 6, 5, 15, 13, 11, 11]]"

section \<open>Big- and little-endian words\<close>

definition ReadBE64 :: "byte list \<Rightarrow> u64" where
  "ReadBE64 input = read_be (take 8 input)"

definition WriteBE64 :: "u64 \<Rightarrow> byte list" where
  "WriteBE64 value = write_be 8 value"

definition ReadBE32 :: "byte list \<Rightarrow> u32" where
  "ReadBE32 input = read_be (take 4 input)"

definition ReadLE32 :: "byte list \<Rightarrow> u32" where
  "ReadLE32 input = read_le (take 4 input)"

definition WriteBE32 :: "u32 \<Rightarrow> byte list" where
  "WriteBE32 value = write_be 4 value"

definition WriteLE32 :: "u32 \<Rightarrow> byte list" where
  "WriteLE32 value = write_le 4 value"

text \<open>Writing bytes into a buffer at an offset.\<close>

definition overwrite :: "byte list \<Rightarrow> nat \<Rightarrow> byte list \<Rightarrow> byte list" where
  "overwrite buffer pos bytes = take pos buffer @ bytes @ drop (pos + length bytes) buffer"

section \<open>SHA-512\<close>

type_synonym 'w state8 = "'w \<times> 'w \<times> 'w \<times> 'w \<times> 'w \<times> 'w \<times> 'w \<times> 'w"

primrec expand512 :: "nat \<Rightarrow> u64 list \<Rightarrow> u64 list" where
  "expand512 0 words = words"
| "expand512 (Suc n) words =
     (let i = length words;
          w15 = words ! (i - 15); w2 = words ! (i - 2);
          s0 = word_rotr 1 w15 XOR word_rotr 8 w15 XOR drop_bit 7 w15;
          s1 = word_rotr 19 w2 XOR word_rotr 61 w2 XOR drop_bit 6 w2
      in expand512 n (words @ [words ! (i - 16) + s0 + words ! (i - 7) + s1]))"

definition round512 :: "u64 state8 \<Rightarrow> u64 \<times> u64 \<Rightarrow> u64 state8" where
  "round512 = (\<lambda>(a, b, c, d, e, f, g, h) (k, w).
     (let big1 = word_rotr 14 e XOR word_rotr 18 e XOR word_rotr 41 e;
          chosen = g XOR (e AND (f XOR g));
          t1 = h + big1 + chosen + k + w;
          big0 = word_rotr 28 a XOR word_rotr 34 a XOR word_rotr 39 a;
          majority = (a AND b) OR (c AND (a OR b));
          t2 = big0 + majority
      in (t1 + t2, a, b, c, d + t1, e, f, g)))"

definition add_state :: "'a::plus state8 \<Rightarrow> 'a state8 \<Rightarrow> 'a state8" where
  "add_state = (\<lambda>(a, b, c, d, e, f, g, h) (a', b', c', d', e', f', g', h').
     (a + a', b + b', c + c', d + d', e + e', f + f', g + g', h + h'))"

definition Transform :: "u64 state8 \<Rightarrow> byte list \<Rightarrow> u64 state8" where
  "Transform state chunk =
     (let words = expand512 64 (map (\<lambda>i. ReadBE64 (drop (i * 8) chunk)) [0..<16])
      in add_state state (foldl round512 state (zip K512 words)))"

section \<open>SHA-256\<close>

primrec expand256 :: "nat \<Rightarrow> u32 list \<Rightarrow> u32 list" where
  "expand256 0 words = words"
| "expand256 (Suc n) words =
     (let i = length words;
          w15 = words ! (i - 15); w2 = words ! (i - 2);
          s0 = word_rotr 7 w15 XOR word_rotr 18 w15 XOR drop_bit 3 w15;
          s1 = word_rotr 17 w2 XOR word_rotr 19 w2 XOR drop_bit 10 w2
      in expand256 n (words @ [words ! (i - 16) + s0 + words ! (i - 7) + s1]))"

definition round256 :: "u32 state8 \<Rightarrow> u32 \<times> u32 \<Rightarrow> u32 state8" where
  "round256 = (\<lambda>(a, b, c, d, e, f, g, h) (k, w).
     (let sum1 = word_rotr 6 e XOR word_rotr 11 e XOR word_rotr 25 e;
          chosen = g XOR (e AND (f XOR g));
          t1 = h + sum1 + chosen + k + w;
          sum0 = word_rotr 2 a XOR word_rotr 13 a XOR word_rotr 22 a;
          majority = (a AND b) OR (c AND (a OR b));
          t2 = sum0 + majority
      in (t1 + t2, a, b, c, d + t1, e, f, g)))"

definition Sha256Transform :: "u32 state8 \<Rightarrow> byte list \<Rightarrow> u32 state8" where
  "Sha256Transform state chunk =
     (let words = expand256 48 (map (\<lambda>i. ReadBE32 (drop (i * 4) chunk)) [0..<16])
      in add_state state (foldl round256 state (zip SHA256_K words)))"

section \<open>RIPEMD-160\<close>

definition RipemdFunction :: "nat \<Rightarrow> u32 \<Rightarrow> u32 \<Rightarrow> u32 \<Rightarrow> u32" where
  "RipemdFunction round x y z =
     (if round < 16 then x XOR y XOR z
      else if round < 32 then (x AND y) OR (NOT x AND z)
      else if round < 48 then (x OR NOT y) XOR z
      else if round < 64 then (x AND z) OR (y AND NOT z)
      else x XOR (y OR NOT z))"

definition RipemdLeftConstant :: "nat \<Rightarrow> u32" where
  "RipemdLeftConstant round =
     (if round < 16 then 0x00000000 else if round < 32 then 0x5a827999
      else if round < 48 then 0x6ed9eba1 else if round < 64 then 0x8f1bbcdc else 0xa953fd4e)"

definition RipemdRightConstant :: "nat \<Rightarrow> u32" where
  "RipemdRightConstant round =
     (if round < 16 then 0x50a28be6 else if round < 32 then 0x5c4dd124
      else if round < 48 then 0x6d703ef3 else if round < 64 then 0x7a6d76e9 else 0x00000000)"

type_synonym state5 = "u32 \<times> u32 \<times> u32 \<times> u32 \<times> u32"

definition ripemd_step :: "u32 list \<Rightarrow> state5 \<times> state5 \<Rightarrow> nat \<Rightarrow> state5 \<times> state5" where
  "ripemd_step words = (\<lambda>((al, bl, cl, dl, el), (ar, br, cr, dr, er)) i.
     (let left = word_rotl (RIPEMD_S_LEFT ! i)
                   (al + RipemdFunction i bl cl dl + words ! (RIPEMD_R_LEFT ! i) + RipemdLeftConstant i) + el;
          right = word_rotl (RIPEMD_S_RIGHT ! i)
                   (ar + RipemdFunction (79 - i) br cr dr + words ! (RIPEMD_R_RIGHT ! i) + RipemdRightConstant i) + er
      in ((el, left, bl, word_rotl 10 cl, dl), (er, right, br, word_rotl 10 cr, dr))))"

definition Ripemd160Transform :: "state5 \<Rightarrow> byte list \<Rightarrow> state5" where
  "Ripemd160Transform state chunk =
     (let words = map (\<lambda>i. ReadLE32 (drop (i * 4) chunk)) [0..<16];
          (s0, s1, s2, s3, s4) = state;
          ((al, bl, cl, dl, el), (ar, br, cr, dr, er)) = foldl (ripemd_step words) (state, state) [0..<80]
      in (s1 + cl + dr, s2 + dl + er, s3 + el + ar, s4 + al + br, s0 + bl + cr))"

section \<open>Messages\<close>

text \<open>The loop over the whole blocks of the input: the state after them and the remaining bytes.\<close>

function absorb :: "nat \<Rightarrow> ('s \<Rightarrow> byte list \<Rightarrow> 's) \<Rightarrow> 's \<Rightarrow> byte list \<Rightarrow> 's \<times> byte list" where
  "absorb chunk transform state input =
     (if 0 < chunk \<and> length input \<ge> chunk
      then absorb chunk transform (transform state (take chunk input)) (drop chunk input)
      else (state, input))"
  by pat_completeness auto
termination
  by (relation "measure (\<lambda>(chunk, transform, state, input). length input)") auto

declare absorb.simps [simp del]

definition sha512_256_iv :: "u64 state8" where
  "sha512_256_iv = (0x22312194fc2bf72c, 0x9f555fa3c84c64c2, 0x2393b86b6f53b151, 0x963877195940eabd,
     0x96283ee2a88effe3, 0xbe5e1e2553863992, 0x2b0199fc2c85b8aa, 0x0eb72ddc81c52ca2)"

definition sha512_output :: "u64 state8 \<Rightarrow> hash256" where
  "sha512_output = (\<lambda>(a, b, c, d, e, f, g, h).
     Hash256 (WriteBE64 a @ WriteBE64 b @ WriteBE64 c @ WriteBE64 d))"

definition Sha512_256 :: "byte list \<Rightarrow> hash256" where
  "Sha512_256 input =
     (let (state, rest) = absorb 128 Transform sha512_256_iv input;
          remaining = length rest;
          tail0 = overwrite (replicate 256 0) 0 rest;
          tail1 = tail0[remaining := 0x80];
          padded_size = (if remaining < 112 then 128 else 256);
          bit_length_low = of_nat (length input) * 8;
          tail2 = overwrite tail1 (padded_size - 16) (WriteBE64 0);
          tail3 = overwrite tail2 (padded_size - 8) (WriteBE64 bit_length_low);
          state1 = Transform state (take 128 tail3);
          state2 = (if padded_size = 256 then Transform state1 (take 128 (drop 128 tail3)) else state1)
      in sha512_output state2)"

definition sha256_iv :: "u32 state8" where
  "sha256_iv = (0x6a09e667, 0xbb67ae85, 0x3c6ef372, 0xa54ff53a,
     0x510e527f, 0x9b05688c, 0x1f83d9ab, 0x5be0cd19)"

definition sha256_output :: "u32 state8 \<Rightarrow> hash256" where
  "sha256_output = (\<lambda>(a, b, c, d, e, f, g, h).
     Hash256 (WriteBE32 a @ WriteBE32 b @ WriteBE32 c @ WriteBE32 d @
              WriteBE32 e @ WriteBE32 f @ WriteBE32 g @ WriteBE32 h))"

definition Sha256 :: "byte list \<Rightarrow> hash256" where
  "Sha256 input =
     (let (state, rest) = absorb 64 Sha256Transform sha256_iv input;
          remaining = length rest;
          tail0 = overwrite (replicate 128 0) 0 rest;
          tail1 = tail0[remaining := 0x80];
          padded_size = (if remaining < 56 then 64 else 128);
          tail2 = overwrite tail1 (padded_size - 8) (WriteBE64 (of_nat (length input) * 8));
          state1 = Sha256Transform state (take 64 tail2);
          state2 = (if padded_size = 128 then Sha256Transform state1 (take 64 (drop 64 tail2)) else state1)
      in sha256_output state2)"

definition Hash160 :: "byte list \<Rightarrow> byte list" where
  "Hash160 input =
     (let sha = Sha256 input;
          block0 = overwrite (replicate 64 0) 0 (Bytes sha);
          block = block0[32 := 0x80, 56 := 0x00, 57 := 0x01];
          (a, b, c, d, e) = Ripemd160Transform
             (0x67452301, 0xefcdab89, 0x98badcfe, 0x10325476, 0xc3d2e1f0) block
      in WriteLE32 a @ WriteLE32 b @ WriteLE32 c @ WriteLE32 d @ WriteLE32 e)"

definition ParentHash :: "hash256 \<Rightarrow> hash256 \<Rightarrow> hash256" where
  "ParentHash left right = Sha512_256 (Bytes left @ Bytes right)"

section \<open>Hexadecimal text\<close>

definition HEXMAP :: string where
  "HEXMAP = ''0123456789abcdef''"

definition HexDigit :: "char \<Rightarrow> int" where
  "HexDigit value =
     (if of_char CHR ''0'' \<le> (of_char value :: int) \<and> of_char value \<le> (of_char CHR ''9'' :: int)
      then of_char value - of_char CHR ''0''
      else if of_char CHR ''a'' \<le> (of_char value :: int) \<and> of_char value \<le> (of_char CHR ''f'' :: int)
      then of_char value - of_char CHR ''a'' + 10
      else if of_char CHR ''A'' \<le> (of_char value :: int) \<and> of_char value \<le> (of_char CHR ''F'' :: int)
      then of_char value - of_char CHR ''A'' + 10
      else -1)"

fun hex_bytes :: "string \<Rightarrow> byte list Result" where
  "hex_bytes (c1 # c2 # hex) =
     (let high = HexDigit c1; low = HexDigit c2
      in if high < 0 \<or> low < 0 then Err ''hash contains a non-hex character''
         else and_then (hex_bytes hex) (\<lambda>out. Ok (of_int (push_bit 4 high OR low) # out)))"
| "hex_bytes _ = Ok []"

definition FromHex :: "string \<Rightarrow> hash256 Result" where
  "FromHex hex =
     (if length hex \<noteq> 32 * 2 then Err ''hash must contain exactly 64 hex digits''
      else and_then (hex_bytes hex) (\<lambda>out. Ok (Hash256 out)))"

definition FromBitcoinHex :: "string \<Rightarrow> hash256 Result" where
  "FromBitcoinHex hex = and_then (FromHex hex) (\<lambda>parsed. Ok (Hash256 (rev (Bytes parsed))))"

definition hex_of_byte :: "byte \<Rightarrow> string" where
  "hex_of_byte value = [HEXMAP ! unat (drop_bit 4 value), HEXMAP ! unat (value AND 15)]"

definition ToHex :: "hash256 \<Rightarrow> string" where
  "ToHex hash = concat (map hex_of_byte (Bytes hash))"

definition ToBitcoinHex :: "hash256 \<Rightarrow> string" where
  "ToBitcoinHex hash = ToHex (Hash256 (rev (Bytes hash)))"

definition Hash256Hasher :: "hash256 \<Rightarrow> u64" where
  "Hash256Hasher hash =
     (let v0 = read_le (take 8 (Bytes hash));
          v1 = v0 XOR drop_bit 33 v0;
          v2 = v1 * 0xff51afd7ed558ccd;
          v3 = v2 XOR drop_bit 33 v2;
          v4 = v3 * 0xc4ceb9fe1a85ec53
      in v4 XOR drop_bit 33 v4)"

section \<open>The standard\<close>

text \<open>FIPS 180-4: choice and majority, the message schedule as a recurrence, one compression, the
  padded message cut into blocks.\<close>

definition fips_Ch :: "'a::len word \<Rightarrow> 'a word \<Rightarrow> 'a word \<Rightarrow> 'a word" where
  "fips_Ch x y z = (x AND y) XOR (NOT x AND z)"

definition fips_Maj :: "'a::len word \<Rightarrow> 'a word \<Rightarrow> 'a word \<Rightarrow> 'a word" where
  "fips_Maj x y z = (x AND y) XOR (x AND z) XOR (y AND z)"

definition fips_rounds ::
    "('a::len word \<Rightarrow> 'a word) \<Rightarrow> ('a word \<Rightarrow> 'a word) \<Rightarrow> 'a word state8 \<Rightarrow> ('a word \<times> 'a word) list \<Rightarrow> 'a word state8" where
  "fips_rounds Sigma0 Sigma1 state kws =
     foldl (\<lambda>(a, b, c, d, e, f, g, h) (k, w).
        let T1 = h + Sigma1 e + fips_Ch e f g + k + w; T2 = Sigma0 a + fips_Maj a b c
        in (T1 + T2, a, b, c, d + T1, e, f, g)) state kws"

fun fips_schedule ::
    "('a::len word \<Rightarrow> 'a word) \<Rightarrow> ('a word \<Rightarrow> 'a word) \<Rightarrow> (nat \<Rightarrow> 'a word) \<Rightarrow> nat \<Rightarrow> 'a word" where
  "fips_schedule sigma0 sigma1 M t =
     (if t < 16 then M t
      else sigma1 (fips_schedule sigma0 sigma1 M (t - 2)) + fips_schedule sigma0 sigma1 M (t - 7) +
           sigma0 (fips_schedule sigma0 sigma1 M (t - 15)) + fips_schedule sigma0 sigma1 M (t - 16))"

declare fips_schedule.simps [simp del]

definition fips_compress512 :: "u64 state8 \<Rightarrow> byte list \<Rightarrow> u64 state8" where
  "fips_compress512 state block =
     (let M = (\<lambda>t. read_be (take 8 (drop (8 * t) block)));
          W = fips_schedule (\<lambda>x. word_rotr 1 x XOR word_rotr 8 x XOR drop_bit 7 x)
                            (\<lambda>x. word_rotr 19 x XOR word_rotr 61 x XOR drop_bit 6 x) M
      in add_state (fips_rounds (\<lambda>x. word_rotr 28 x XOR word_rotr 34 x XOR word_rotr 39 x)
                                (\<lambda>x. word_rotr 14 x XOR word_rotr 18 x XOR word_rotr 41 x)
                                state (map (\<lambda>t. (K512 ! t, W t)) [0..<80])) state)"

definition fips_compress256 :: "u32 state8 \<Rightarrow> byte list \<Rightarrow> u32 state8" where
  "fips_compress256 state block =
     (let M = (\<lambda>t. read_be (take 4 (drop (4 * t) block)));
          W = fips_schedule (\<lambda>x. word_rotr 7 x XOR word_rotr 18 x XOR drop_bit 3 x)
                            (\<lambda>x. word_rotr 17 x XOR word_rotr 19 x XOR drop_bit 10 x) M
      in add_state (fips_rounds (\<lambda>x. word_rotr 2 x XOR word_rotr 13 x XOR word_rotr 22 x)
                                (\<lambda>x. word_rotr 6 x XOR word_rotr 11 x XOR word_rotr 25 x)
                                state (map (\<lambda>t. (SHA256_K ! t, W t)) [0..<64])) state)"

primrec be_nat :: "nat \<Rightarrow> nat \<Rightarrow> byte list" where
  "be_nat 0 x = []"
| "be_nat (Suc n) x = be_nat n (x div 256) @ [of_nat (x mod 256)]"

definition fips_pad :: "nat \<Rightarrow> nat \<Rightarrow> byte list \<Rightarrow> byte list" where
  "fips_pad B F msg =
     msg @ [0x80] @ replicate ((B - (length msg + 1 + F) mod B) mod B) 0 @ be_nat F (8 * length msg)"

function blocks :: "nat \<Rightarrow> byte list \<Rightarrow> byte list list" where
  "blocks B xs = (if 0 < B \<and> xs \<noteq> [] then take B xs # blocks B (drop B xs) else [])"
  by pat_completeness auto
termination
  by (relation "measure (\<lambda>(B, xs). length xs)") auto

declare blocks.simps [simp del]

section \<open>The compression functions\<close>

lemma choose_eq: "g XOR (e AND (f XOR g)) = fips_Ch e f (g :: 'a::len word)"
  by (rule bit_word_eqI) (auto simp: fips_Ch_def bit_and_iff bit_xor_iff bit_not_iff)

lemma majority_eq: "(a AND b) OR (c AND (a OR b)) = fips_Maj a b (c :: 'a::len word)"
  by (rule bit_word_eqI) (auto simp: fips_Maj_def bit_and_iff bit_xor_iff bit_or_iff)

lemma expand512_schedule:
  assumes "words = map (fips_schedule (\<lambda>x. word_rotr 1 x XOR word_rotr 8 x XOR drop_bit 7 x)
      (\<lambda>x. word_rotr 19 x XOR word_rotr 61 x XOR drop_bit 6 x) M) [0..<m]" "16 \<le> m"
  shows "expand512 n words = map (fips_schedule (\<lambda>x. word_rotr 1 x XOR word_rotr 8 x XOR drop_bit 7 x)
      (\<lambda>x. word_rotr 19 x XOR word_rotr 61 x XOR drop_bit 6 x) M) [0..<m + n]"
  using assms
proof (induction n arbitrary: words m)
  case (Suc n)
  let ?W = "fips_schedule (\<lambda>x. word_rotr 1 x XOR word_rotr 8 x XOR drop_bit 7 x)
      (\<lambda>x. word_rotr 19 x XOR word_rotr 61 x XOR drop_bit 6 x) M"
  have "expand512 (Suc n) words = expand512 n (words @ [?W m])"
    using Suc.prems by (subst fips_schedule.simps) (simp add: Let_def add_ac)
  also have "words @ [?W m] = map ?W [0..<Suc m]" using Suc.prems by simp
  also have "expand512 n \<dots> = map ?W [0..<Suc m + n]" using Suc.prems(2) by (intro Suc.IH) simp_all
  finally show ?case by (simp only: add_Suc_right add_Suc)
qed simp

lemma expand256_schedule:
  assumes "words = map (fips_schedule (\<lambda>x. word_rotr 7 x XOR word_rotr 18 x XOR drop_bit 3 x)
      (\<lambda>x. word_rotr 17 x XOR word_rotr 19 x XOR drop_bit 10 x) M) [0..<m]" "16 \<le> m"
  shows "expand256 n words = map (fips_schedule (\<lambda>x. word_rotr 7 x XOR word_rotr 18 x XOR drop_bit 3 x)
      (\<lambda>x. word_rotr 17 x XOR word_rotr 19 x XOR drop_bit 10 x) M) [0..<m + n]"
  using assms
proof (induction n arbitrary: words m)
  case (Suc n)
  let ?W = "fips_schedule (\<lambda>x. word_rotr 7 x XOR word_rotr 18 x XOR drop_bit 3 x)
      (\<lambda>x. word_rotr 17 x XOR word_rotr 19 x XOR drop_bit 10 x) M"
  have "expand256 (Suc n) words = expand256 n (words @ [?W m])"
    using Suc.prems by (subst fips_schedule.simps) (simp add: Let_def add_ac)
  also have "words @ [?W m] = map ?W [0..<Suc m]" using Suc.prems by simp
  also have "expand256 n \<dots> = map ?W [0..<Suc m + n]" using Suc.prems(2) by (intro Suc.IH) simp_all
  finally show ?case by (simp only: add_Suc_right add_Suc)
qed simp

lemma schedule_start: "map M [0..<16] = map (fips_schedule s0 s1 M) [0..<16]"
  by (intro map_cong) (auto simp: fips_schedule.simps)

lemma zip_map_upt: "length ks = n \<Longrightarrow> zip ks (map W [0..<n]) = map (\<lambda>t. (ks ! t, W t)) [0..<n]"
  by (auto simp: list_eq_iff_nth_eq)

lemma length_K512: "length K512 = 80"
  by (simp add: K512_def)

lemma length_SHA256_K: "length SHA256_K = 64"
  by (simp add: SHA256_K_def)

lemma add_state_commute: "add_state s t = add_state t (s :: 'a::ab_semigroup_add state8)"
  by (auto simp: add_state_def add.commute split: prod.splits)

lemma Transform_fips: "Transform = fips_compress512"
proof (intro ext)
  fix state chunk
  let ?M = "\<lambda>t. read_be (take 8 (drop (8 * t) chunk)) :: u64"
  let ?W = "fips_schedule (\<lambda>x. word_rotr 1 x XOR word_rotr 8 x XOR drop_bit 7 x)
      (\<lambda>x. word_rotr 19 x XOR word_rotr 61 x XOR drop_bit 6 x) ?M"
  have "map (\<lambda>i. ReadBE64 (drop (i * 8) chunk)) [0..<16] = map ?W [0..<16]"
    using schedule_start [of ?M] by (simp add: ReadBE64_def mult.commute)
  then have "expand512 64 (map (\<lambda>i. ReadBE64 (drop (i * 8) chunk)) [0..<16]) = map ?W [0..<16 + 64]"
    by (rule expand512_schedule) simp
  then have w: "zip K512 (expand512 64 (map (\<lambda>i. ReadBE64 (drop (i * 8) chunk)) [0..<16])) =
      map (\<lambda>t. (K512 ! t, ?W t)) [0..<80]"
    using zip_map_upt [OF length_K512, of ?W] by simp
  show "Transform state chunk = fips_compress512 state chunk"
    unfolding Transform_def fips_compress512_def Let_def w
    by (simp only: add_state_commute [of state] fips_rounds_def round512_def Let_def choose_eq majority_eq)
qed

lemma Sha256Transform_fips: "Sha256Transform = fips_compress256"
proof (intro ext)
  fix state chunk
  let ?M = "\<lambda>t. read_be (take 4 (drop (4 * t) chunk)) :: u32"
  let ?W = "fips_schedule (\<lambda>x. word_rotr 7 x XOR word_rotr 18 x XOR drop_bit 3 x)
      (\<lambda>x. word_rotr 17 x XOR word_rotr 19 x XOR drop_bit 10 x) ?M"
  have "map (\<lambda>i. ReadBE32 (drop (i * 4) chunk)) [0..<16] = map ?W [0..<16]"
    using schedule_start [of ?M] by (simp add: ReadBE32_def mult.commute)
  then have "expand256 48 (map (\<lambda>i. ReadBE32 (drop (i * 4) chunk)) [0..<16]) = map ?W [0..<16 + 48]"
    by (rule expand256_schedule) simp
  then have w: "zip SHA256_K (expand256 48 (map (\<lambda>i. ReadBE32 (drop (i * 4) chunk)) [0..<16])) =
      map (\<lambda>t. (SHA256_K ! t, ?W t)) [0..<64]"
    using zip_map_upt [OF length_SHA256_K, of ?W] by simp
  show "Sha256Transform state chunk = fips_compress256 state chunk"
    unfolding Sha256Transform_def fips_compress256_def Let_def w
    by (simp only: add_state_commute [of state] fips_rounds_def round256_def Let_def choose_eq majority_eq)
qed

section \<open>Streaming and padding\<close>

lemma of_nat_low_byte: "ucast ((of_nat x :: 'a::len word) AND 0xff) = (of_nat (x mod 256) :: byte)" if "8 \<le> LENGTH('a)"
proof (rule bit_word_eqI)
  fix k
  assume k: "k < LENGTH(8)"
  have "bit (of_nat (x mod 256) :: byte) k = bit (take_bit 8 x) k"
    using k by (simp add: bit_of_nat_iff take_bit_eq_mod)
  then show "bit (ucast ((of_nat x :: 'a word) AND 0xff) :: byte) k = bit (of_nat (x mod 256) :: byte) k"
    using k that by (simp add: bit_low_byte bit_of_nat_iff bit_take_bit_iff)
qed

lemma write_be_of_nat:
  assumes "8 * n \<le> LENGTH('a::len)" "x < 2 ^ LENGTH('a)"
  shows "write_be n (of_nat x :: 'a word) = be_nat n x"
  using assms
proof (induction n arbitrary: x)
  case (Suc n)
  have "take_bit LENGTH('a) x = x" using Suc.prems(2) by (simp add: take_bit_nat_eq_self)
  then have hi: "k < LENGTH('a)" if "bit x k" for k
    using that by (metis bit_take_bit_iff)
  have "drop_bit 8 (of_nat x :: 'a word) = of_nat (drop_bit 8 x)"
    by (rule bit_word_eqI) (use hi in \<open>auto simp: bit_drop_bit_eq bit_of_nat_iff\<close>)
  then have "drop_bit 8 (of_nat x :: 'a word) = of_nat (x div 256)" by (simp add: drop_bit_eq_div)
  moreover have "x div 256 < 2 ^ LENGTH('a)" using Suc.prems(2) by (meson div_le_dividend le_less_trans)
  ultimately show ?case using Suc.IH [of "x div 256"] Suc.prems(1) by (simp add: write_be_def of_nat_low_byte)
qed (simp add: write_be_def)

lemma be_nat_zeros: "x < 256 ^ m \<Longrightarrow> be_nat (n + m) x = replicate n 0 @ be_nat m x"
proof (induction m arbitrary: x)
  case 0
  have "be_nat n 0 = replicate n 0" by (induction n) (simp_all add: replicate_append_same)
  with 0 show ?case by simp
next
  case (Suc m)
  then have "x div 256 < 256 ^ m" by (simp add: less_mult_imp_div_less mult.commute)
  then show ?case using Suc.IH by simp
qed

lemma length_be_nat [simp]: "length (be_nat n x) = n"
  by (induction n arbitrary: x) auto

lemma absorb_blocks:
  assumes "0 < B" "absorb B f s input = (s', rest)"
  shows "length rest = length input mod B \<and>
    foldl f s (blocks B (input @ more)) = foldl f s' (blocks B (rest @ more))"
  using assms(2)
proof (induction "length input" arbitrary: s input rule: less_induct)
  case less
  show ?case
  proof (cases "B \<le> length input")
    case True
    then have a: "absorb B f (f s (take B input)) (drop B input) = (s', rest)"
      using less.prems assms(1) by (simp add: absorb.simps [of B f s])
    have ne: "input @ more \<noteq> []" using True assms(1) by auto
    have "blocks B (input @ more) = take B input # blocks B (drop B input @ more)"
      using True assms(1) ne by (subst blocks.simps) simp
    moreover have "length (drop B input) < length input" using True assms(1) by simp
    note less.hyps [OF this a]
    ultimately show ?thesis using True by (simp add: le_mod_geq)
  next
    case False
    then show ?thesis using less.prems by (simp add: absorb.simps [of B f s])
  qed
qed

lemma pad_count:
  assumes "r = n mod B" "(F :: nat) < B"
  shows "(B - (n + 1 + F) mod B) mod B = (if r < B - F then B - F - 1 - r else 2 * B - F - 1 - r)"
proof -
  have r: "r < B" using assms by (metis mod_less_divisor gr_zeroI not_less0)
  have e: "(n + 1 + F) mod B = (r + 1 + F) mod B"
    unfolding assms(1) by (metis mod_add_left_eq)
  show ?thesis
  proof (cases "r < B - F")
    case True
    then consider "r + 1 + F = B" | "r + 1 + F < B" by linarith
    then show ?thesis using True assms(2) unfolding e by cases auto
  next
    case False
    then have "(r + 1 + F) mod B = r + 1 + F - B" using r assms(2) by (simp add: le_mod_geq)
    then show ?thesis using False r assms(2) unfolding e by simp
  qed
qed

lemma blocks_one: "length xs = B \<Longrightarrow> 0 < B \<Longrightarrow> blocks B xs = [xs]"
  by (subst blocks.simps) (auto simp: blocks.simps [of B "[]"])

lemma blocks_two:
  assumes "length xs = 2 * B" "0 < B"
  shows "blocks B xs = [take B xs, drop B xs]"
proof -
  have "blocks B xs = take B xs # blocks B (drop B xs)"
    using assms by (subst blocks.simps) auto
  then show ?thesis using assms by (simp add: blocks_one)
qed

text \<open>
  A block hash with blocks of \<open>B\<close> bytes and a length field of \<open>F\<close> bytes. The tail buffer of the code
  holds two blocks: the remaining bytes, the terminator, zeros, and the length field at the end of
  its first or second block.
\<close>

locale block_hash =
  fixes B F :: nat and f :: "'s \<Rightarrow> byte list \<Rightarrow> 's"
  assumes field: "8 \<le> F" "F < B"
begin

definition tail_block :: "byte list \<Rightarrow> nat \<Rightarrow> byte list" where
  "tail_block rest n = rest @ [0x80] @
     replicate ((if length rest < B - F then B else 2 * B) - length rest - 1 - 8) 0 @ be_nat 8 (8 * n)"

lemma pad_tail:
  assumes "absorb B f s input = (s', rest)" "8 * length input < 256 ^ 8"
  shows "foldl f s (blocks B (fips_pad B F input)) =
    (if length rest < B - F then f s' (tail_block rest (length input))
     else f (f s' (take B (tail_block rest (length input)))) (drop B (tail_block rest (length input))))"
proof -
  let ?n = "length input" and ?r = "length rest"
  have B: "0 < B" using field by simp
  note a = absorb_blocks [OF B assms(1)]
  have r: "?r < B" using a B by simp
  have "be_nat F (8 * ?n) = replicate (F - 8) 0 @ be_nat 8 (8 * ?n)"
    using be_nat_zeros [OF assms(2), of "F - 8"] field by simp
  moreover have "(if ?r < B - F then B - F - 1 - ?r else 2 * B - F - 1 - ?r) + (F - 8) =
      (if ?r < B - F then B else 2 * B) - ?r - 1 - 8"
    using field r by auto
  ultimately have pad: "fips_pad B F input = input @ drop ?r (tail_block rest ?n)"
    using pad_count [of ?r ?n B F] a field
    by (simp add: fips_pad_def tail_block_def append_assoc [symmetric] replicate_add [symmetric] del: append_assoc)
  have take: "take ?r (tail_block rest ?n) = rest" by (simp add: tail_block_def)
  have t: "foldl f s (blocks B (fips_pad B F input)) = foldl f s' (blocks B (tail_block rest ?n))"
    using conjunct2 [OF absorb_blocks [OF B assms(1), of "drop ?r (tail_block rest ?n)"]]
      append_take_drop_id [of ?r "tail_block rest ?n"] unfolding pad take by simp
  have len: "length (tail_block rest ?n) = (if ?r < B - F then B else 2 * B)"
    using field r by (simp add: tail_block_def)
  show ?thesis unfolding t using len B by (simp add: blocks_one blocks_two split: if_splits)
qed

end

lemma terminated_tail:
  assumes "length rest < T"
  shows "(overwrite (replicate T 0) 0 rest)[length rest := 0x80] = rest @ [0x80] @ replicate (T - length rest - 1) 0"
proof -
  have "replicate (T - length rest) 0 = 0 # replicate (T - length rest - 1) (0 :: byte)"
    using assms by (metis Suc_diff_1 diff_is_0_eq not_less replicate_Suc zero_less_diff)
  then show ?thesis by (simp add: overwrite_def list_update_append)
qed

lemma overwrite_mid: "length Y = length X \<Longrightarrow> pos = length A \<Longrightarrow> overwrite (A @ X @ C) pos Y = A @ Y @ C"
  by (simp add: overwrite_def)

lemma tail_split:
  assumes "length rest + 1 \<le> pos" "pos + m \<le> length rest + 1 + z"
  shows "rest @ [0x80] @ replicate z 0 = (rest @ [0x80] @ replicate (pos - length rest - 1) 0) @
    replicate m 0 @ replicate (z - (pos - length rest - 1) - m) (0 :: byte)"
proof -
  have "z = (pos - length rest - 1) + (m + (z - (pos - length rest - 1) - m))" using assms by simp
  then have "replicate z (0 :: byte) = replicate (pos - length rest - 1) 0 @ replicate m 0 @
      replicate (z - (pos - length rest - 1) - m) 0"
    by (metis replicate_add)
  then show ?thesis by simp
qed

lemma overwrite_zeros:
  assumes "length rest + 1 \<le> pos" "pos + m \<le> length rest + 1 + z"
  shows "overwrite (rest @ [0x80] @ replicate z 0) pos (replicate m 0) = rest @ [0x80] @ replicate z 0"
  unfolding tail_split [OF assms] using assms by (intro overwrite_mid) auto

lemma overwrite_field:
  assumes "length rest + 1 \<le> pos" "pos + length bytes \<le> length rest + 1 + z"
  shows "take (pos + length bytes) (overwrite (rest @ [0x80] @ replicate z 0) pos bytes) =
    rest @ [0x80] @ replicate (pos - length rest - 1) 0 @ bytes"
proof -
  have "overwrite (rest @ [0x80] @ replicate z 0) pos bytes =
      (rest @ [0x80] @ replicate (pos - length rest - 1) 0) @ bytes @
      replicate (z - (pos - length rest - 1) - length bytes) 0"
    unfolding tail_split [OF assms] using assms by (intro overwrite_mid) auto
  moreover have "pos = length (rest @ [0x80] @ replicate (pos - length rest - 1) 0)" using assms by simp
  ultimately show ?thesis by (metis append.assoc append_eq_conv_conj length_append)
qed

lemma WriteBE64_zero: "WriteBE64 0 = replicate 8 0"
  by (simp add: WriteBE64_def write_be_def numeral_eq_Suc)

lemma WriteBE64_length:
  assumes "8 * n < 2 ^ 64"
  shows "WriteBE64 (of_nat n * 8) = be_nat 8 (8 * n)"
proof -
  have "(of_nat n * 8 :: u64) = of_nat (8 * n)" by (simp add: mult.commute)
  then show ?thesis unfolding WriteBE64_def using assms by (simp only:) (intro write_be_of_nat, simp_all)
qed

interpretation sha512: block_hash 128 16 Transform
  by unfold_locales simp_all

interpretation sha256: block_hash 64 8 Sha256Transform
  by unfold_locales simp_all

lemma Sha512_256_padded:
  assumes "8 * length input < 2 ^ 64"
  shows "Sha512_256 input = sha512_output (foldl Transform sha512_256_iv (blocks 128 (fips_pad 128 16 input)))"
proof -
  obtain state rest where a: "absorb 128 Transform sha512_256_iv input = (state, rest)"
    by (cases "absorb 128 Transform sha512_256_iv input")
  have r: "length rest < 128" using conjunct1 [OF absorb_blocks [OF _ a]] by simp
  define padded :: nat where "padded = (if length rest < 112 then 128 else 256)"
  define tail1 where "tail1 = (overwrite (replicate 256 0) 0 rest)[length rest := 0x80]"
  have tail1: "tail1 = rest @ [0x80] @ replicate (256 - length rest - 1) 0"
    unfolding tail1_def using r by (intro terminated_tail) simp
  define tail where "tail = overwrite tail1 (padded - 8) (be_nat 8 (8 * length input))"
  have z: "overwrite tail1 (padded - 16) (WriteBE64 0) = tail1"
    unfolding tail1 WriteBE64_zero using r by (intro overwrite_zeros) (auto simp: padded_def)
  have code: "Sha512_256 input = sha512_output (let state1 = Transform state (take 128 tail) in
      if padded = 256 then Transform state1 (take 128 (drop 128 tail)) else state1)"
    unfolding Sha512_256_def a Let_def prod.case tail1_def [symmetric] padded_def [symmetric] z
      WriteBE64_length [OF assms] tail_def [symmetric] ..
  have len: "take padded tail = sha512.tail_block rest (length input)"
    using overwrite_field [of rest "padded - 8" "be_nat 8 (8 * length input)" "256 - length rest - 1"] r
    by (auto simp: tail_def tail1 padded_def sha512.tail_block_def)
  show ?thesis
    unfolding code sha512.pad_tail [OF a, simplified, OF assms [simplified]] len [symmetric]
    by (simp add: padded_def Let_def drop_take)
qed

lemma Sha256_padded:
  assumes "8 * length input < 2 ^ 64"
  shows "Sha256 input = sha256_output (foldl Sha256Transform sha256_iv (blocks 64 (fips_pad 64 8 input)))"
proof -
  obtain state rest where a: "absorb 64 Sha256Transform sha256_iv input = (state, rest)"
    by (cases "absorb 64 Sha256Transform sha256_iv input")
  have r: "length rest < 64" using conjunct1 [OF absorb_blocks [OF _ a]] by simp
  define padded :: nat where "padded = (if length rest < 56 then 64 else 128)"
  define tail1 where "tail1 = (overwrite (replicate 128 0) 0 rest)[length rest := 0x80]"
  have tail1: "tail1 = rest @ [0x80] @ replicate (128 - length rest - 1) 0"
    unfolding tail1_def using r by (intro terminated_tail) simp
  define tail where "tail = overwrite tail1 (padded - 8) (be_nat 8 (8 * length input))"
  have code: "Sha256 input = sha256_output (let state1 = Sha256Transform state (take 64 tail) in
      if padded = 128 then Sha256Transform state1 (take 64 (drop 64 tail)) else state1)"
    unfolding Sha256_def a Let_def prod.case tail1_def [symmetric] padded_def [symmetric]
      WriteBE64_length [OF assms] tail_def [symmetric] ..
  have len: "take padded tail = sha256.tail_block rest (length input)"
    using overwrite_field [of rest "padded - 8" "be_nat 8 (8 * length input)" "128 - length rest - 1"] r
    by (auto simp: tail_def tail1 padded_def sha256.tail_block_def)
  show ?thesis
    unfolding code sha256.pad_tail [OF a, simplified, OF assms [simplified]] len [symmetric]
    by (simp add: padded_def Let_def drop_take)
qed

section \<open>Hexadecimal round trips\<close>

lemma HexDigit_HEXMAP:
  assumes "k < 16"
  shows "HexDigit (HEXMAP ! k) = int k"
proof -
  have "\<forall>k \<in> set [0..<16]. HexDigit (HEXMAP ! k) = int k" by code_simp
  then show ?thesis using assms by simp
qed

lemma nibbles:
  "unat (drop_bit 4 (b :: byte)) < 16" "unat (b AND 15) < 16"
  "of_int (push_bit 4 (int (unat (drop_bit 4 b))) OR int (unat (b AND 15))) = b"
proof -
  have m: "(15 :: byte) = mask 4" by (simp add: mask_eq_exp_minus_1)
  have "unat b < 2 ^ 8" by (rule less_le_trans [OF unsigned_less]) simp
  then show "unat (drop_bit 4 b) < 16" by (simp add: drop_bit_eq_div unat_div less_mult_imp_div_less)
  have t: "b AND 15 = take_bit 4 b" by (simp only: m take_bit_eq_mask)
  show "unat (b AND 15) < 16"
    unfolding t by (simp add: take_bit_eq_mod unat_mod)
  show "of_int (push_bit 4 (int (unat (drop_bit 4 b))) OR int (unat (b AND 15))) = b"
    unfolding t by (rule bit_word_eqI)
      (auto simp: bit_word_of_int_iff bit_or_iff bit_push_bit_iff bit_of_nat_iff bit_unsigned_iff bit_drop_bit_eq bit_take_bit_iff)
qed

lemma hex_bytes_hex_of_byte: "hex_bytes (concat (map hex_of_byte bs)) = Ok bs"
proof (induction bs)
  case (Cons b bs)
  then show ?case
    using nibbles [of b] by (simp add: hex_of_byte_def HexDigit_HEXMAP Let_def)
qed simp

lemma length_hex: "length (concat (map hex_of_byte bs)) = 2 * length bs"
  by (induction bs) (auto simp: hex_of_byte_def)

lemma FromHex_ToHex: "FromHex (ToHex h) = Ok h"
  by (simp add: FromHex_def ToHex_def hex_bytes_hex_of_byte length_hex)

lemma hex_bytes_length: "hex_bytes hex = Ok out \<Longrightarrow> 2 * length out = 2 * (length hex div 2)"
  by (induction hex arbitrary: out rule: hex_bytes.induct)
     (auto simp: Let_def result_simps split: if_splits)

lemma hex_bytes_accepts:
  "even (length hex) \<Longrightarrow> HasValue (hex_bytes hex) \<longleftrightarrow> (\<forall>c \<in> set hex. 0 \<le> HexDigit c)"
proof (induction hex rule: hex_bytes.induct)
  case (1 c1 c2 hex)
  then show ?case by (cases "hex_bytes hex") (auto simp: Let_def)
qed auto

section \<open>Properties\<close>





end
