(* ===== verification/JsonStream.thy ===== *)
theory JsonStream
  imports Hash
begin

unbundle bit_operations_syntax

text \<open>
  The streaming JSON reader (\<^verbatim>\<open>src/src/json_stream.cpp\<close>): the cursor, skipping a value, the projection of a
  \<open>getblock\<close> answer to the fields that the bridge needs, and the envelope of a JSON-RPC answer. A cursor is
  represented by the input still to be read: \<open>m_position\<close> is the length of the input less the length of
  the rest, and a slice between two positions is the text between the two rests. Recursion over nested
  values is on the nesting that is still allowed (65 less the depth); a \<open>while (true)\<close> loop over members
  or elements has the length of the input as fuel, which suffices because every round consumes a comma
  (lemmas \<open>skip_members_total\<close> and following).
\<close>

section \<open>The cursor\<close>

definition ws :: "char \<Rightarrow> bool" where
  "ws c \<longleftrightarrow> c = CHR '' '' \<or> c = CHR 0x0A \<or> c = CHR 0x0D \<or> c = CHR 0x09"

definition Whitespace :: "string \<Rightarrow> string" where
  "Whitespace s = dropWhile ws s"

definition Consume :: "char \<Rightarrow> string \<Rightarrow> bool \<times> string" where
  "Consume v s = (case Whitespace s of [] \<Rightarrow> (False, []) | c # r \<Rightarrow> if c = v then (True, r) else (False, c # r))"

definition Peek :: "string \<Rightarrow> char" where
  "Peek s = (case Whitespace s of [] \<Rightarrow> CHR 0x00 | c # r \<Rightarrow> c)"

definition Slice :: "string \<Rightarrow> string \<Rightarrow> string" where
  "Slice from_rest to_rest = take (length from_rest - length to_rest) from_rest"

definition Finished :: "string \<Rightarrow> bool" where
  "Finished s \<longleftrightarrow> Whitespace s = []"

definition unescape :: "char \<Rightarrow> char option" where
  "unescape e =
     (if e = CHR 0x22 then Some (CHR 0x22) else if e = CHR 0x5C then Some (CHR 0x5C) else if e = CHR ''/'' then Some (CHR ''/'')
      else if e = CHR ''b'' then Some (CHR 0x08) else if e = CHR ''f'' then Some (CHR 0x0C) else if e = CHR ''n'' then Some (CHR 0x0A)
      else if e = CHR ''r'' then Some (CHR 0x0D) else if e = CHR ''t'' then Some (CHR 0x09) else None)"

fun codepoint :: "u32 \<Rightarrow> string \<Rightarrow> u32 option" where
  "codepoint cp [] = Some cp"
| "codepoint cp (d # ds) = (if HexDigit d < 0 then None else codepoint (push_bit 4 cp OR of_int (HexDigit d)) ds)"

function string_loop :: "string \<Rightarrow> string \<Rightarrow> (string \<times> string) Result" where
  "string_loop [] out = Err ''unterminated JSON string''"
| "string_loop (c # s) out =
     (if c = CHR 0x22 then Ok (out, s)
      else if (of_char c :: nat) < 0x20 then Err ''unescaped control byte in JSON string''
      else if c \<noteq> CHR 0x5C then string_loop s (out @ [c])
      else case s of
             [] \<Rightarrow> Err ''truncated JSON escape''
           | e # s1 \<Rightarrow>
               (case unescape e of
                  Some x \<Rightarrow> string_loop s1 (out @ [x])
                | None \<Rightarrow>
                    if e = CHR ''u''
                    then if length s1 < 4 then Err ''truncated JSON unicode escape''
                         else case codepoint 0 (take 4 s1) of
                                None \<Rightarrow> Err ''invalid JSON unicode escape''
                              | Some cp \<Rightarrow>
                                  if cp > 0x7f then Err ''non-ASCII escaped JSON object key''
                                  else string_loop (drop 4 s1) (out @ [char_of (unat cp)])
                    else Err ''invalid JSON string escape''))"
  by pat_completeness auto
termination
  by (relation "measure (\<lambda>(s, out). length s)") auto

definition JsonString :: "string \<Rightarrow> (string \<times> string) Result" where
  "JsonString s =
     (case Whitespace s of
        [] \<Rightarrow> Err ''expected JSON string''
      | c # r \<Rightarrow> if c \<noteq> CHR 0x22 then Err ''expected JSON string'' else string_loop r [])"

section \<open>Skipping a value\<close>

function skip_string_loop :: "string \<Rightarrow> string Result" where
  "skip_string_loop [] = Err ''unterminated JSON string''"
| "skip_string_loop (c # s) =
     (if c = CHR 0x22 then Ok s
      else if (of_char c :: nat) < 0x20 then Err ''unescaped control byte in JSON string''
      else if c \<noteq> CHR 0x5C then skip_string_loop s
      else case s of
             [] \<Rightarrow> Err ''truncated JSON escape''
           | e # s1 \<Rightarrow>
               if e = CHR ''u''
               then if length s1 < 4 then Err ''truncated JSON unicode escape''
                    else if \<exists>d \<in> set (take 4 s1). HexDigit d < 0 then Err ''invalid JSON unicode escape''
                    else skip_string_loop (drop 4 s1)
               else if unescape e = None then Err ''invalid JSON string escape''
               else skip_string_loop s1)"
  by pat_completeness auto
termination
  by (relation "measure length") auto

definition SkipString :: "string \<Rightarrow> string Result" where
  "SkipString s = (case s of c # r \<Rightarrow> if c \<noteq> CHR 0x22 then Err ''expected JSON string'' else skip_string_loop r | [] \<Rightarrow> Err ''expected JSON string'')"

definition Literal :: "string \<Rightarrow> string \<Rightarrow> string Result" where
  "Literal lit s = (if take (length lit) s \<noteq> lit then Err ''invalid JSON literal'' else Ok (drop (length lit) s))"

definition is_digit :: "char \<Rightarrow> bool" where
  "is_digit c \<longleftrightarrow> (of_char CHR ''0'' :: nat) \<le> of_char c \<and> (of_char c :: nat) \<le> of_char CHR ''9''"

definition skip_fraction :: "string \<Rightarrow> string Result" where
  "skip_fraction s =
     (case s of
        [] \<Rightarrow> Ok []
      | c # r \<Rightarrow>
          if c \<noteq> CHR ''.'' then Ok s
          else if dropWhile is_digit r = r then Err ''invalid JSON fraction'' else Ok (dropWhile is_digit r))"

definition skip_exponent :: "string \<Rightarrow> string Result" where
  "skip_exponent s =
     (case s of
        [] \<Rightarrow> Ok []
      | c # r \<Rightarrow>
          if c \<noteq> CHR ''e'' \<and> c \<noteq> CHR ''E'' then Ok s
          else let r1 = (case r of d # r' \<Rightarrow> if d = CHR ''+'' \<or> d = CHR ''-'' then r' else r | [] \<Rightarrow> r)
               in if dropWhile is_digit r1 = r1 then Err ''invalid JSON exponent'' else Ok (dropWhile is_digit r1))"

definition SkipNumber :: "string \<Rightarrow> string Result" where
  "SkipNumber s =
     (let s1 = (case s of c # r \<Rightarrow> if c = CHR ''-'' then r else s | [] \<Rightarrow> s)
      in case s1 of
           [] \<Rightarrow> Err ''truncated JSON number''
         | c # r \<Rightarrow>
             and_then (if c = CHR ''0'' then Ok r
                       else if \<not> is_digit c then Err ''invalid JSON number'' else Ok (dropWhile is_digit s1)) (\<lambda>s2.
             and_then (skip_fraction s2) (\<lambda>s3.
             and_then (skip_exponent s3) (\<lambda>s4.
               if length s4 = length s then Err ''invalid JSON value'' else Ok s4))))"

primrec skip_members :: "nat \<Rightarrow> (string \<Rightarrow> string Result) \<Rightarrow> string \<Rightarrow> string Result" where
  "skip_members 0 skip s = Throw ''fuel''"
| "skip_members (Suc n) skip s =
     and_then (JsonString s) (\<lambda>(key, s1).
       case Consume CHR '':'' s1 of
         (False, _) \<Rightarrow> Err ''missing colon in JSON object''
       | (True, s2) \<Rightarrow>
           and_then (skip s2) (\<lambda>s3.
             case Consume CHR ''}'' s3 of
               (True, r) \<Rightarrow> Ok r
             | (False, s4) \<Rightarrow>
                 (case Consume CHR '','' s4 of
                    (False, _) \<Rightarrow> Err ''missing comma in JSON object''
                  | (True, s5) \<Rightarrow> skip_members n skip s5)))"

primrec skip_elements :: "nat \<Rightarrow> (string \<Rightarrow> string Result) \<Rightarrow> string \<Rightarrow> string Result" where
  "skip_elements 0 skip s = Throw ''fuel''"
| "skip_elements (Suc n) skip s =
     and_then (skip s) (\<lambda>s1.
       case Consume CHR '']'' s1 of
         (True, r) \<Rightarrow> Ok r
       | (False, s2) \<Rightarrow>
           (case Consume CHR '','' s2 of
              (False, _) \<Rightarrow> Err ''missing comma in JSON array''
            | (True, s3) \<Rightarrow> skip_elements n skip s3))"

primrec SkipValue :: "nat \<Rightarrow> string \<Rightarrow> string Result" where
  "SkipValue 0 s = Err ''JSON nesting exceeds limit''"
| "SkipValue (Suc n) s =
     (case Whitespace s of
        [] \<Rightarrow> Err ''missing JSON value''
      | c # r \<Rightarrow>
          if c = CHR 0x22 then SkipString (c # r)
          else if c = CHR ''{''
          then (case Consume CHR ''}'' (Whitespace r) of
                  (True, r1) \<Rightarrow> Ok r1
                | (False, r1) \<Rightarrow> skip_members (Suc (length r1)) (SkipValue n) r1)
          else if c = CHR ''[''
          then (case Consume CHR '']'' (Whitespace r) of
                  (True, r1) \<Rightarrow> Ok r1
                | (False, r1) \<Rightarrow> skip_elements (Suc (length r1)) (SkipValue n) r1)
          else if c = CHR ''t'' then Literal ''true'' (c # r)
          else if c = CHR ''f'' then Literal ''false'' (c # r)
          else if c = CHR ''n'' then Literal ''null'' (c # r)
          else SkipNumber (c # r))"

text \<open>\<open>SkipValue()\<close> at depth 0.\<close>

abbreviation SkipTop :: "string \<Rightarrow> string Result" where
  "SkipTop \<equiv> SkipValue 65"

section \<open>Projection of a block\<close>

datatype Projection = BLOCK | TRANSACTION | INPUT | PREVOUT | OUTPUT | SCRIPT

datatype Kind = SCALAR | OBJECT | ARRAY

record FieldProjection =
  kind :: Kind
  child :: Projection

definition ProjectedField :: "Projection \<Rightarrow> string \<Rightarrow> FieldProjection option" where
  "ProjectedField projection key =
     (let scalar = Some \<lparr>kind = SCALAR, child = BLOCK\<rparr>
      in case projection of
           BLOCK \<Rightarrow>
             if key = ''hash'' \<or> key = ''height'' \<or> key = ''previousblockhash'' then scalar
             else if key = ''tx'' then Some \<lparr>kind = ARRAY, child = TRANSACTION\<rparr> else None
         | TRANSACTION \<Rightarrow>
             if key = ''txid'' then scalar
             else if key = ''vin'' then Some \<lparr>kind = ARRAY, child = INPUT\<rparr>
             else if key = ''vout'' then Some \<lparr>kind = ARRAY, child = OUTPUT\<rparr> else None
         | INPUT \<Rightarrow>
             if key = ''txid'' \<or> key = ''vout'' then scalar
             else if key = ''prevout'' then Some \<lparr>kind = OBJECT, child = PREVOUT\<rparr> else None
         | PREVOUT \<Rightarrow>
             if key = ''generated'' \<or> key = ''height'' \<or> key = ''value'' then scalar
             else if key = ''scriptPubKey'' then Some \<lparr>kind = OBJECT, child = SCRIPT\<rparr> else None
         | OUTPUT \<Rightarrow>
             if key = ''n'' \<or> key = ''value'' then scalar
             else if key = ''scriptPubKey'' then Some \<lparr>kind = OBJECT, child = SCRIPT\<rparr> else None
         | SCRIPT \<Rightarrow> if key = ''hex'' then scalar else None)"

primrec project_elements :: "nat \<Rightarrow> (string \<Rightarrow> string \<Rightarrow> (string \<times> string) Result) \<Rightarrow> bool \<Rightarrow> string \<Rightarrow> string \<Rightarrow> (string \<times> string) Result" where
  "project_elements 0 element first s output = Throw ''fuel''"
| "project_elements (Suc n) element first s output =
     and_then (element s (if first then output else output @ '','')) (\<lambda>(s1, out1).
       case Consume CHR '']'' s1 of
         (True, r) \<Rightarrow> Ok (r, out1 @ '']'')
       | (False, s2) \<Rightarrow>
           (case Consume CHR '','' s2 of
              (False, _) \<Rightarrow> Err ''missing comma in projected JSON array''
            | (True, s3) \<Rightarrow> project_elements n element False s3 out1))"

definition ProjectArray :: "(string \<Rightarrow> string \<Rightarrow> (string \<times> string) Result) \<Rightarrow> string \<Rightarrow> string \<Rightarrow> (string \<times> string) Result" where
  "ProjectArray element s output =
     (case Consume CHR ''['' s of
        (False, _) \<Rightarrow> Err ''projected JSON field must be an array''
      | (True, s1) \<Rightarrow>
          (case Consume CHR '']'' s1 of
             (True, r) \<Rightarrow> Ok (r, output @ ''[]'')
           | (False, s2) \<Rightarrow> project_elements (Suc (length s2)) element True s2 (output @ ''['')))"

definition project_field ::
    "(Projection \<Rightarrow> string \<Rightarrow> string \<Rightarrow> (string \<times> string) Result) \<Rightarrow> FieldProjection \<Rightarrow> string \<Rightarrow> string \<Rightarrow> (string \<times> string) Result" where
  "project_field object f s output =
     (case kind f of
        SCALAR \<Rightarrow>
          (let s0 = Whitespace s
           in and_then (SkipTop s0) (\<lambda>s1. let s2 = Whitespace s1 in Ok (s2, output @ Slice s0 s2)))
      | OBJECT \<Rightarrow> object (child f) s output
      | ARRAY \<Rightarrow> ProjectArray (object (child f)) s output)"

primrec project_members ::
    "nat \<Rightarrow> Projection \<Rightarrow> (Projection \<Rightarrow> string \<Rightarrow> string \<Rightarrow> (string \<times> string) Result) \<Rightarrow> bool \<Rightarrow> string \<Rightarrow> string \<Rightarrow> (string \<times> string) Result" where
  "project_members 0 projection object first_output s output = Throw ''fuel''"
| "project_members (Suc n) projection object first_output s output =
     and_then (JsonString s) (\<lambda>(key, s1).
       case Consume CHR '':'' s1 of
         (False, _) \<Rightarrow> Err ''missing colon in projected JSON object''
       | (True, s2) \<Rightarrow>
           and_then
             (case ProjectedField projection key of
                None \<Rightarrow> and_then (SkipTop s2) (\<lambda>s3. Ok (s3, output, first_output))
              | Some f \<Rightarrow>
                  and_then (project_field object f s2
                      ((if first_output then output else output @ '','') @ [CHR 0x22] @ key @ [CHR 0x22, CHR '':'']))
                    (\<lambda>(s3, out1). Ok (s3, out1, False)))
             (\<lambda>(s3, out1, first1).
                case Consume CHR ''}'' s3 of
                  (True, r) \<Rightarrow> Ok (r, out1 @ ''}'')
                | (False, s4) \<Rightarrow>
                    (case Consume CHR '','' s4 of
                       (False, _) \<Rightarrow> Err ''missing comma in projected JSON object''
                     | (True, s5) \<Rightarrow> project_members n projection object first1 s5 out1)))"

primrec ProjectObject :: "nat \<Rightarrow> Projection \<Rightarrow> string \<Rightarrow> string \<Rightarrow> (string \<times> string) Result" where
  "ProjectObject 0 projection s output = Throw ''fuel''"
| "ProjectObject (Suc n) projection s output =
     (case Consume CHR ''{'' s of
        (False, _) \<Rightarrow> Err ''projected JSON field must be an object''
      | (True, s1) \<Rightarrow>
          (case Consume CHR ''}'' s1 of
             (True, r) \<Rightarrow> Ok (r, output @ ''{}'')
           | (False, s2) \<Rightarrow> project_members (Suc (length s2)) projection (ProjectObject n) True s2 (output @ ''{'')))"

text \<open>Below a block there are at most four further levels: transaction, input, previous output, script.\<close>

definition ProjectVerboseBlock :: "string \<Rightarrow> string Result" where
  "ProjectVerboseBlock block =
     and_then (ProjectObject 5 BLOCK block []) (\<lambda>(s, projected).
       if \<not> Finished s then Err ''trailing data after getblock result'' else Ok projected)"

section \<open>The JSON-RPC envelope\<close>

record RawJsonValue =
  raw_json :: string
  value_offset :: nat
  value_size :: nat

definition raw_Value :: "RawJsonValue \<Rightarrow> string" where
  "raw_Value v = take (value_size v) (drop (value_offset v) (raw_json v))"

definition is_space :: "char \<Rightarrow> bool" where
  "is_space c \<longleftrightarrow> ws c \<or> c = CHR 0x0B \<or> c = CHR 0x0C"

definition Trim :: "string \<Rightarrow> string" where
  "Trim value = rev (dropWhile is_space (rev (dropWhile is_space value)))"

definition INVALID_RPC :: string where
  "INVALID_RPC = ''Bitcoin Core returned invalid JSON-RPC''"

type_synonym span = "(nat \<times> nat) option"

primrec envelope_members :: "nat \<Rightarrow> nat \<Rightarrow> string \<Rightarrow> span \<Rightarrow> span \<Rightarrow> (string \<times> span \<times> span) Result" where
  "envelope_members 0 total_size s result_span error_span = Throw ''fuel''"
| "envelope_members (Suc n) total_size s result_span error_span =
     (case JsonString s of
        Err e \<Rightarrow> Err (INVALID_RPC @ '': '' @ e)
      | Throw e \<Rightarrow> Throw e
      | Ok (key, s1) \<Rightarrow>
          (case Consume CHR '':'' s1 of
             (False, _) \<Rightarrow> Err INVALID_RPC
           | (True, s2) \<Rightarrow>
               (let s3 = Whitespace s2
                in case SkipTop s3 of
                     Err e \<Rightarrow> Err (INVALID_RPC @ '': '' @ e)
                   | Throw e \<Rightarrow> Throw e
                   | Ok s4 \<Rightarrow>
                       let s5 = Whitespace s4;
                           here = Some (total_size - length s3, total_size - length s5);
                           rs = (if key = ''result'' then here else result_span);
                           es = (if key = ''error'' then here else error_span)
                       in case Consume CHR ''}'' s5 of
                            (True, r) \<Rightarrow> Ok (r, rs, es)
                          | (False, s6) \<Rightarrow>
                              (case Consume CHR '','' s6 of
                                 (False, _) \<Rightarrow> Err INVALID_RPC
                               | (True, s7) \<Rightarrow> envelope_members n total_size s7 rs es))))"

definition ExtractJsonRpcResult :: "string \<Rightarrow> RawJsonValue Result" where
  "ExtractJsonRpcResult response =
     (case Consume CHR ''{'' response of
        (False, _) \<Rightarrow> Err INVALID_RPC
      | (True, s) \<Rightarrow>
          and_then (case Consume CHR ''}'' s of
                      (True, r) \<Rightarrow> Ok (r, None, None)
                    | (False, s1) \<Rightarrow> envelope_members (Suc (length s1)) (length response) s1 None None)
            (\<lambda>(r, result_span, error_span).
               let error_text = (case error_span of None \<Rightarrow> ''null'' | Some (a, b) \<Rightarrow> Trim (take (b - a) (drop a response)))
               in if \<not> Finished r then Err INVALID_RPC
                  else if error_text \<noteq> ''null'' then Err (''Bitcoin Core RPC error: '' @ error_text)
                  else case result_span of
                         None \<Rightarrow> Err ''Bitcoin Core RPC response has no result''
                       | Some (a, b) \<Rightarrow> Ok \<lparr>raw_json = response, value_offset = a, value_size = b - a\<rparr>))"

section \<open>The language\<close>

text \<open>A JSON text as a tree; a scalar keeps its text, a key is decoded.\<close>

datatype json = JText string | JArr "json list" | JObj "(string \<times> json) list"

abbreviation blank :: "string \<Rightarrow> bool" where
  "blank w \<equiv> (\<forall>c \<in> set w. ws c)"

definition plain :: "char \<Rightarrow> bool" where
  "plain c \<longleftrightarrow> (0x20 :: nat) \<le> of_char c \<and> c \<noteq> CHR 0x22 \<and> c \<noteq> CHR 0x5C"

inductive str_body :: "string \<Rightarrow> bool" where
  sb_nil: "str_body []"
| sb_plain: "plain c \<Longrightarrow> str_body b \<Longrightarrow> str_body (c # b)"
| sb_escape: "unescape e \<noteq> None \<Longrightarrow> str_body b \<Longrightarrow> str_body (CHR 0x5C # e # b)"
| sb_unicode: "length h = 4 \<Longrightarrow> \<forall>d \<in> set h. HexDigit d \<ge> 0 \<Longrightarrow> str_body b \<Longrightarrow> str_body (CHR 0x5C # CHR ''u'' # h @ b)"

text \<open>The text of an object key: as a string, but an escaped character must be ASCII.\<close>

inductive key_body :: "string \<Rightarrow> string \<Rightarrow> bool" where
  kb_nil: "key_body [] []"
| kb_plain: "plain c \<Longrightarrow> key_body k b \<Longrightarrow> key_body (c # k) (c # b)"
| kb_escape: "unescape e = Some x \<Longrightarrow> key_body k b \<Longrightarrow> key_body (x # k) (CHR 0x5C # e # b)"
| kb_unicode: "length h = 4 \<Longrightarrow> codepoint 0 h = Some cp \<Longrightarrow> cp \<le> 0x7f \<Longrightarrow> key_body k b \<Longrightarrow>
    key_body (char_of (unat cp) # k) (CHR 0x5C # CHR ''u'' # h @ b)"

definition key_text :: "string \<Rightarrow> string \<Rightarrow> bool" where
  "key_text k q \<longleftrightarrow> (\<exists>b. q = CHR 0x22 # b @ [CHR 0x22] \<and> key_body k b)"

abbreviation digits :: "string \<Rightarrow> bool" where
  "digits ds \<equiv> ds \<noteq> [] \<and> (\<forall>d \<in> set ds. is_digit d)"

definition int_text :: "string \<Rightarrow> bool" where
  "int_text i \<longleftrightarrow> i = ''0'' \<or> digits i \<and> hd i \<noteq> CHR ''0''"

definition frac_text :: "string \<Rightarrow> bool" where
  "frac_text f \<longleftrightarrow> f = [] \<or> (\<exists>ds. f = CHR ''.'' # ds \<and> digits ds)"

definition exp_text :: "string \<Rightarrow> bool" where
  "exp_text e \<longleftrightarrow> e = [] \<or> (\<exists>x sign ds. e = x # sign @ ds \<and> (x = CHR ''e'' \<or> x = CHR ''E'') \<and> sign \<in> {[], ''+'', ''-''} \<and> digits ds)"

definition number_text :: "string \<Rightarrow> bool" where
  "number_text t \<longleftrightarrow> (\<exists>m i f e. t = m @ i @ f @ e \<and> (m = [] \<or> m = ''-'') \<and> int_text i \<and> frac_text f \<and> exp_text e)"

definition scalar_text :: "string \<Rightarrow> bool" where
  "scalar_text t \<longleftrightarrow> number_text t \<or> t \<in> {''true'', ''false'', ''null''} \<or> (\<exists>b. t = CHR 0x22 # b @ [CHR 0x22] \<and> str_body b)"

text \<open>The texts of a tree nested at most \<open>n\<close> deep, with free white space.\<close>

inductive renders :: "nat \<Rightarrow> json \<Rightarrow> string \<Rightarrow> bool"
  and elements_text :: "nat \<Rightarrow> json list \<Rightarrow> string \<Rightarrow> bool"
  and members_text :: "nat \<Rightarrow> (string \<times> json) list \<Rightarrow> string \<Rightarrow> bool" where
  r_scalar: "scalar_text t \<Longrightarrow> renders (Suc n) (JText t) t"
| r_array0: "blank w \<Longrightarrow> renders (Suc n) (JArr []) (CHR ''['' # w @ '']'')"
| r_array: "blank w \<Longrightarrow> elements_text n js b \<Longrightarrow> renders (Suc n) (JArr js) (CHR ''['' # w @ b @ '']'')"
| r_object0: "blank w \<Longrightarrow> renders (Suc n) (JObj []) (CHR ''{'' # w @ ''}'')"
| r_object: "blank w \<Longrightarrow> members_text n ms b \<Longrightarrow> renders (Suc n) (JObj ms) (CHR ''{'' # w @ b @ ''}'')"
| e_one: "renders n j t \<Longrightarrow> blank w \<Longrightarrow> elements_text n [j] (t @ w)"
| e_more: "renders n j t \<Longrightarrow> blank w \<Longrightarrow> blank w' \<Longrightarrow> elements_text n js b \<Longrightarrow>
    elements_text n (j # js) (t @ w @ CHR '','' # w' @ b)"
| m_one: "key_text k q \<Longrightarrow> blank w1 \<Longrightarrow> blank w2 \<Longrightarrow> renders n j t \<Longrightarrow> blank w3 \<Longrightarrow>
    members_text n [(k, j)] (q @ w1 @ CHR '':'' # w2 @ t @ w3)"
| m_more: "key_text k q \<Longrightarrow> blank w1 \<Longrightarrow> blank w2 \<Longrightarrow> renders n j t \<Longrightarrow> blank w3 \<Longrightarrow> blank w4 \<Longrightarrow> members_text n ms b \<Longrightarrow>
    members_text n ((k, j) # ms) (q @ w1 @ CHR '':'' # w2 @ t @ w3 @ CHR '','' # w4 @ b)"

inductive_cases renders_0E: "renders 0 j t"

text \<open>What may follow a value.\<close>

definition delim :: "string \<Rightarrow> bool" where
  "delim r \<longleftrightarrow> r = [] \<or> ws (hd r) \<or> hd r \<in> {CHR '','', CHR '']'', CHR ''}''}"

section \<open>The cursor and the language\<close>

lemma Whitespace_blank [simp]: "blank w \<Longrightarrow> Whitespace (w @ s) = Whitespace s"
  by (simp add: Whitespace_def dropWhile_append)

lemma Whitespace_nonblank [simp]: "\<not> ws c \<Longrightarrow> Whitespace (c # s) = c # s"
  by (simp add: Whitespace_def)

lemma Whitespace_idem [simp]: "Whitespace (Whitespace s) = Whitespace s"
  by (simp add: Whitespace_def)

lemma Whitespace_split: "\<exists>w. s = w @ Whitespace s \<and> blank w"
  unfolding Whitespace_def by (metis set_takeWhileD takeWhile_dropWhile_id)

lemma Whitespace_head: "Whitespace s = c # r \<Longrightarrow> \<not> ws c"
  by (metis Whitespace_def hd_dropWhile list.sel(1) list.simps(3))

lemma Consume_blank: "blank w \<Longrightarrow> \<not> ws c \<Longrightarrow> Consume v (w @ c # r) = (if c = v then (True, r) else (False, c # r))"
  by (simp add: Consume_def)

lemma Consume_True: "Consume v s = (True, r) \<Longrightarrow> \<exists>w. s = w @ v # r \<and> blank w"
  using Whitespace_split [of s] by (auto simp: Consume_def split: list.splits if_splits)

lemma Consume_False: "Consume v s = (False, r) \<Longrightarrow> r = Whitespace s"
  by (auto simp: Consume_def split: list.splits if_splits)

lemma Consume_Whitespace [simp]: "Consume v (Whitespace s) = Consume v s"
  by (simp add: Consume_def)

lemma JsonString_Whitespace [simp]: "JsonString (Whitespace s) = JsonString s"
  by (simp add: JsonString_def)

lemma not_ws [simp]: "\<not> ws CHR 0x22" "\<not> ws CHR '':''" "\<not> ws CHR '',''" "\<not> ws CHR ''}''" "\<not> ws CHR '']''" "\<not> ws CHR ''{''" "\<not> ws CHR ''[''"
  "\<not> ws CHR ''t''" "\<not> ws CHR ''f''" "\<not> ws CHR ''n''"
  by (simp_all add: ws_def)

lemma char_codes:
  "(of_char CHR 0x22 :: nat) = 0x22" "(of_char CHR 0x5C :: nat) = 0x5C"
  by simp_all

lemma string_loop_complete: "key_body k b \<Longrightarrow> string_loop (b @ CHR 0x22 # r) out = Ok (out @ k, r)"
proof (induction arbitrary: out rule: key_body.induct)
  case (kb_unicode h cp k b)
  have "unescape CHR ''u'' = None" by (simp add: unescape_def)
  then show ?case using kb_unicode by (simp add: not_less)
qed (auto simp: plain_def not_less)

lemma string_loop_sound: "string_loop s out = Ok (k, r) \<Longrightarrow> \<exists>b k'. s = b @ CHR 0x22 # r \<and> k = out @ k' \<and> key_body k' b"
proof (induction s out arbitrary: k r rule: string_loop.induct)
  case (2 c s out)
  consider "c = CHR 0x22" | (plain) "plain c" | (esc) e s1 where "c = CHR 0x5C" "s = e # s1" 
    using "2.prems" by (fastforce simp: plain_def split: if_splits list.splits)
  then show ?case
  proof cases
    case 1
    then show ?thesis using "2.prems" by (auto intro: kb_nil)
  next
    case plain
    then obtain b k' where "s = b @ CHR 0x22 # r" "k = (out @ [c]) @ k'" "key_body k' b"
      using "2.IH"(1) [of k r] "2.prems" by (auto simp: plain_def not_less)
    then show ?thesis using kb_plain [OF plain] by (intro exI [of _ "c # b"] exI [of _ "c # k'"]) auto
  next
    case esc
    have c: "c \<noteq> CHR 0x22" "\<not> (of_char c :: nat) < 0x20" "\<not> c \<noteq> CHR 0x5C" using esc by auto
    show ?thesis
    proof (cases "unescape e")
      case (Some x)
      then obtain b k' where "s1 = b @ CHR 0x22 # r" "k = (out @ [x]) @ k'" "key_body k' b"
        using "2.IH"(3) [OF c esc(2) Some, of k r] "2.prems" esc by auto
      then show ?thesis using kb_escape [OF Some] esc by (intro exI [of _ "c # e # b"] exI [of _ "x # k'"]) auto
    next
      case None
      then have u: "e = CHR ''u''" "\<not> length s1 < 4" using "2.prems" esc by (auto split: if_splits)
      then obtain cp where cp: "codepoint 0 (take 4 s1) = Some cp" "\<not> cp > 0x7f"
        using "2.prems" esc None by (auto split: option.splits if_splits)
      then obtain b k' where b: "drop 4 s1 = b @ CHR 0x22 # r" "k = (out @ [char_of (unat cp)]) @ k'" "key_body k' b"
        using "2.IH"(2) [OF c esc(2) None u cp, of k r] "2.prems" esc None u by auto
      have "s1 = take 4 s1 @ b @ CHR 0x22 # r" using b(1) by (metis append_take_drop_id)
      moreover have "key_body (char_of (unat cp) # k') (CHR 0x5C # CHR ''u'' # take 4 s1 @ b)"
        using kb_unicode [OF _ cp(1) _ b(3)] cp(2) u(2) by simp
      ultimately show ?thesis using b(2) u(1) esc
        by (intro exI [of _ "CHR 0x5C # CHR ''u'' # take 4 s1 @ b"] exI [of _ "char_of (unat cp) # k'"]) auto
    qed
  qed
qed simp

lemma JsonString_complete: "key_text k q \<Longrightarrow> blank w \<Longrightarrow> JsonString (w @ q @ r) = Ok (k, r)"
  using string_loop_complete [of k _ r "[]"] by (auto simp: key_text_def JsonString_def)

lemma JsonString_sound: "JsonString s = Ok (k, r) \<Longrightarrow> \<exists>w q. s = w @ q @ r \<and> blank w \<and> key_text k q"
proof -
  assume "JsonString s = Ok (k, r)"
  then obtain s1 where s1: "Whitespace s = CHR 0x22 # s1" "string_loop s1 [] = Ok (k, r)"
    by (auto simp: JsonString_def split: list.splits if_splits)
  moreover obtain w where "s = w @ Whitespace s" "blank w" using Whitespace_split by blast
  ultimately show ?thesis using string_loop_sound [OF s1(2)] unfolding key_text_def by force
qed

lemma skip_string_complete: "str_body b \<Longrightarrow> skip_string_loop (b @ CHR 0x22 # r) = Ok r"
proof (induction rule: str_body.induct)
  case (sb_unicode h b)
  then show ?case by (auto simp: not_less)
next
  case (sb_escape e b)
  then have "e \<noteq> CHR ''u''" by (auto simp: unescape_def)
  then show ?case using sb_escape by auto
qed (auto simp: plain_def not_less)

lemma skip_string_sound: "skip_string_loop s = Ok r \<Longrightarrow> \<exists>b. s = b @ CHR 0x22 # r \<and> str_body b"
proof (induction s arbitrary: r rule: skip_string_loop.induct)
  case (2 c s)
  consider "c = CHR 0x22" | (plain) "plain c" | (esc) e s1 where "c = CHR 0x5C" "s = e # s1"
    using "2.prems" by (fastforce simp: plain_def split: if_splits list.splits)
  then show ?case
  proof cases
    case 1
    then show ?thesis using "2.prems" by (auto intro: sb_nil)
  next
    case plain
    then obtain b where "s = b @ CHR 0x22 # r" "str_body b"
      using "2.IH"(1) [of r] "2.prems" by (auto simp: plain_def not_less)
    then show ?thesis using sb_plain [OF plain] by (intro exI [of _ "c # b"]) auto
  next
    case esc
    have c: "c \<noteq> CHR 0x22" "\<not> (of_char c :: nat) < 0x20" "\<not> c \<noteq> CHR 0x5C" using esc by auto
    show ?thesis
    proof (cases "e = CHR ''u''")
      case True
      then have u: "\<not> length s1 < 4" "\<not> (\<exists>d \<in> set (take 4 s1). HexDigit d < 0)" using "2.prems" esc by (auto split: if_splits)
      then obtain b where b: "drop 4 s1 = b @ CHR 0x22 # r" "str_body b"
        using "2.IH"(2) [OF c esc(2) True u, of r] "2.prems" esc True by auto
      have "s1 = take 4 s1 @ b @ CHR 0x22 # r" using b(1) by (metis append_take_drop_id)
      moreover have "str_body (CHR 0x5C # CHR ''u'' # take 4 s1 @ b)" using sb_unicode [OF _ _ b(2)] u by (simp add: not_less)
      ultimately show ?thesis using True esc by (intro exI [of _ "CHR 0x5C # CHR ''u'' # take 4 s1 @ b"]) auto
    next
      case False
      then have u: "unescape e \<noteq> None" using "2.prems" esc by (auto split: if_splits)
      then obtain b where "s1 = b @ CHR 0x22 # r" "str_body b" using "2.IH"(3) [OF c esc(2) False u, of r] "2.prems" esc False by auto
      then show ?thesis using sb_escape [OF u] esc by (intro exI [of _ "c # e # b"]) auto
    qed
  qed
qed simp

lemma delim_head: "delim r \<Longrightarrow> r = [] \<or> \<not> is_digit (hd r) \<and> hd r \<notin> {CHR ''.'', CHR ''e'', CHR ''E''}"
  by (auto simp: delim_def ws_def is_digit_def)

lemma dropWhile_digits: "\<forall>d \<in> set ds. is_digit d \<Longrightarrow> r = [] \<or> \<not> is_digit (hd r) \<Longrightarrow> dropWhile is_digit (ds @ r) = r"
  by (cases r) (auto simp: dropWhile_append)

lemma digits_of: "dropWhile is_digit s \<noteq> s \<Longrightarrow> \<exists>ds. s = ds @ dropWhile is_digit s \<and> digits ds"
  by (intro exI [of _ "takeWhile is_digit s"]) (auto dest: set_takeWhileD simp: takeWhile_eq_Nil_iff dropWhile_eq_self_iff)

lemma dropWhile_shorter: "ds \<noteq> [] \<Longrightarrow> r \<noteq> ds @ r" by simp

lemma skip_fraction_complete:
  assumes "frac_text f" "r = [] \<or> \<not> is_digit (hd r) \<and> hd r \<noteq> CHR ''.''"
  shows "skip_fraction (f @ r) = Ok r"
proof (cases "f = []")
  case True
  then show ?thesis using assms(2) by (auto simp: skip_fraction_def split: list.splits)
next
  case False
  then obtain ds where ds: "f = CHR ''.'' # ds" "digits ds" using assms(1) by (auto simp: frac_text_def)
  then have "dropWhile is_digit (ds @ r) = r" using dropWhile_digits assms(2) by blast
  then show ?thesis using ds dropWhile_shorter [of ds r] by (auto simp: skip_fraction_def)
qed

lemma skip_exponent_complete:
  assumes "exp_text e" "r = [] \<or> \<not> is_digit (hd r) \<and> hd r \<noteq> CHR ''e'' \<and> hd r \<noteq> CHR ''E''"
  shows "skip_exponent (e @ r) = Ok r"
proof (cases "e = []")
  case True
  then show ?thesis using assms(2) by (auto simp: skip_exponent_def split: list.splits)
next
  case False
  then obtain x sg ds where e: "e = x # sg @ ds" "x = CHR ''e'' \<or> x = CHR ''E''" "sg \<in> {[], ''+'', ''-''}" "digits ds"
    using assms(1) by (auto simp: exp_text_def)
  have d: "dropWhile is_digit (ds @ r) = r" using dropWhile_digits assms(2) e(4) by blast
  obtain d0 ds' where d0: "ds = d0 # ds'" using e(4) by (cases ds) auto
  then have "d0 \<noteq> CHR ''+''" "d0 \<noteq> CHR ''-''" using e(4) by (auto simp: is_digit_def)
  then have "(case sg @ ds @ r of d # r' \<Rightarrow> if d = CHR ''+'' \<or> d = CHR ''-'' then r' else sg @ ds @ r | [] \<Rightarrow> sg @ ds @ r) = ds @ r"
    using e(3) d0 by auto
  then show ?thesis using e d dropWhile_shorter [of ds r] by (auto simp: skip_exponent_def Let_def)
qed

lemma exp_head: "exp_text e \<Longrightarrow> e \<noteq> [] \<Longrightarrow> \<not> is_digit (hd e) \<and> hd e \<noteq> CHR ''.''"
  by (auto simp: exp_text_def is_digit_def)

lemma frac_head: "frac_text f \<Longrightarrow> f \<noteq> [] \<Longrightarrow> \<not> is_digit (hd f)"
  by (auto simp: frac_text_def is_digit_def)

lemma SkipNumber_complete:
  assumes "number_text t" "delim r"
  shows "SkipNumber (t @ r) = Ok r"
proof -
  obtain m i f e where t: "t = m @ i @ f @ e" "m = [] \<or> m = ''-''" "int_text i" "frac_text f" "exp_text e"
    using assms(1) by (auto simp: number_text_def)
  note d = delim_head [OF assms(2)]
  have e: "skip_exponent (e @ r) = Ok r" using skip_exponent_complete [OF t(5)] d by auto
  have "e @ r = [] \<or> \<not> is_digit (hd (e @ r)) \<and> hd (e @ r) \<noteq> CHR ''.''" using exp_head [OF t(5)] d by (cases e) auto
  note h = this
  have f: "skip_fraction (f @ e @ r) = Ok (e @ r)" by (rule skip_fraction_complete [OF t(4) h])
  have hf: "f @ e @ r = [] \<or> \<not> is_digit (hd (f @ e @ r))" using frac_head [OF t(4)] h by (cases f) auto
  obtain c i' where i: "i = c # i'" using t(3) by (cases i) (auto simp: int_text_def)
  then have c: "c \<noteq> CHR ''-''" "is_digit c" using t(3) by (auto simp: int_text_def is_digit_def)
  have s1: "(case t @ r of c # r' \<Rightarrow> if c = CHR ''-'' then r' else t @ r | [] \<Rightarrow> t @ r) = i @ f @ e @ r" using t(1,2) i c(1) by auto
  have "(if c = CHR ''0'' then Ok (i' @ f @ e @ r) else if \<not> is_digit c then Err ''invalid JSON number''
    else Ok (dropWhile is_digit (i @ f @ e @ r))) = Ok (f @ e @ r)"
    using t(3) i c dropWhile_digits [OF _ hf, of i] by (auto simp: int_text_def)
  then show ?thesis unfolding SkipNumber_def s1 Let_def using i f e t(1) by auto
qed

lemma skip_fraction_sound: "skip_fraction s = Ok r \<Longrightarrow> \<exists>f. s = f @ r \<and> frac_text f"
proof -
  assume a: "skip_fraction s = Ok r"
  show ?thesis
  proof (cases "s = r")
    case True
    then show ?thesis by (auto simp: frac_text_def)
  next
    case False
    then obtain s1 where s: "s = CHR ''.'' # s1" "dropWhile is_digit s1 \<noteq> s1" "r = dropWhile is_digit s1"
      using a by (auto simp: skip_fraction_def split: list.splits if_splits)
    then obtain ds where "s1 = ds @ r" "digits ds" using digits_of [OF s(2)] by auto
    then show ?thesis using s(1) unfolding frac_text_def by (intro exI [of _ "CHR ''.'' # ds"]) auto
  qed
qed

lemma skip_exponent_sound: "skip_exponent s = Ok r \<Longrightarrow> \<exists>e. s = e @ r \<and> exp_text e"
proof -
  assume a: "skip_exponent s = Ok r"
  show ?thesis
  proof (cases "s = r")
    case True
    then show ?thesis by (auto simp: exp_text_def)
  next
    case False
    then obtain x s1 where s: "s = x # s1" "x = CHR ''e'' \<or> x = CHR ''E''" using a by (auto simp: skip_exponent_def split: list.splits if_splits)
    define r1 where "r1 = (case s1 of d # r' \<Rightarrow> if d = CHR ''+'' \<or> d = CHR ''-'' then r' else s1 | [] \<Rightarrow> s1)"
    have r1: "dropWhile is_digit r1 \<noteq> r1" "r = dropWhile is_digit r1" using a s by (auto simp: skip_exponent_def Let_def r1_def [symmetric] split: if_splits)
    have "s1 = (if s1 \<noteq> [] \<and> (hd s1 = CHR ''+'' \<or> hd s1 = CHR ''-'') then [hd s1] else []) @ r1" by (cases s1) (auto simp: r1_def)
    then obtain sg where "s1 = sg @ r1" "sg \<in> {[], ''+'', ''-''}" by (auto split: if_splits)
    moreover obtain ds where "r1 = ds @ r" "digits ds" using digits_of [OF r1(1)] r1(2) by auto
    ultimately show ?thesis using s unfolding exp_text_def by (intro exI [of _ "x # sg @ ds"]) auto
  qed
qed

lemma SkipNumber_sound: 
  assumes "SkipNumber s = Ok r"
  shows "\<exists>t. s = t @ r \<and> number_text t"
proof -
  define s1 where "s1 = (case s of c # r \<Rightarrow> if c = CHR ''-'' then r else s | [] \<Rightarrow> s)"
  have "s = (if s \<noteq> [] \<and> hd s = CHR ''-'' then [hd s] else []) @ s1" by (cases s) (auto simp: s1_def)
  then obtain m where m: "s = m @ s1" "m = [] \<or> m = ''-''" by (auto split: if_splits)
  obtain c r0 where c: "s1 = c # r0" using assms by (cases s1) (auto simp: SkipNumber_def s1_def [symmetric])
  obtain s2 s3 where s2: "(if c = CHR ''0'' then Ok r0 else if \<not> is_digit c then Err ''invalid JSON number''
      else Ok (dropWhile is_digit s1)) = Ok s2" "skip_fraction s2 = Ok s3" "skip_exponent s3 = Ok r"
    using assms c by (auto simp: SkipNumber_def s1_def [symmetric] and_then_Ok_iff Let_def split: if_splits)
  have "\<exists>i. s1 = i @ s2 \<and> int_text i"
  proof (cases "c = CHR ''0''")
    case True
    then show ?thesis using c s2(1) by (intro exI [of _ "''0''"]) (auto simp: int_text_def)
  next
    case False
    then have d: "is_digit c" "s2 = dropWhile is_digit s1" using s2(1) by (auto split: if_splits)
    have "dropWhile is_digit s1 \<noteq> s1" using c d(1) length_dropWhile_le [of is_digit r0] by (auto dest!: arg_cong [of _ _ length])
    then obtain ds where "s1 = ds @ s2" "digits ds" using digits_of [of s1] d(2) by auto
    then show ?thesis using c False by (intro exI [of _ ds]) (cases ds, auto simp: int_text_def)
  qed
  then obtain i where "s1 = i @ s2" "int_text i" by blast
  moreover obtain f where "s2 = f @ s3" "frac_text f" using skip_fraction_sound s2(2) by blast
  moreover obtain e where "s3 = e @ r" "exp_text e" using skip_exponent_sound s2(3) by blast
  ultimately show ?thesis using m unfolding number_text_def by (intro exI [of _ "m @ i @ f @ e"]) auto
qed

section \<open>Skipping accepts the language\<close>

lemma number_head:
  assumes "number_text t"
  shows "\<exists>c s. t = c # s \<and> (is_digit c \<or> c = CHR ''-'')"
proof -
  obtain m i f e where t: "t = m @ i @ f @ e" "m = [] \<or> m = ''-''" "int_text i" using assms by (auto simp: number_text_def)
  have "i \<noteq> []" "is_digit (hd i)" using t(3) by (auto simp: int_text_def is_digit_def)
  then show ?thesis using t(1,2) by (cases i) auto
qed

lemma renders_head: "renders n j t \<Longrightarrow> \<exists>c s. t = c # s \<and> \<not> ws c \<and> c \<notin> {CHR '','', CHR '']'', CHR ''}''}"
proof (induction n j t rule: renders_elements_text_members_text.inducts(1) [where ?P2.0 = "\<lambda>_ _ _. True" and ?P3.0 = "\<lambda>_ _ _. True"])
  case (r_scalar t n)
  then consider "number_text t" | "t \<in> {''true'', ''false'', ''null''}" | "\<exists>b. t = CHR 0x22 # b @ [CHR 0x22]" by (auto simp: scalar_text_def)
  then show ?case
  proof cases
    case 1
    then show ?thesis using number_head [of t] by (auto simp: ws_def is_digit_def)
  qed (auto simp: ws_def)
qed (auto simp: ws_def)

lemma delim_blank: "blank w \<Longrightarrow> delim r \<Longrightarrow> delim (w @ r)"
  by (cases w) (auto simp: delim_def)

lemma delims [simp]: "delim (CHR '','' # r)" "delim (CHR '']'' # r)" "delim (CHR ''}'' # r)" "delim []"
  by (auto simp: delim_def)

lemma text_lengths:
  "elements_text n js b \<Longrightarrow> length js \<le> length b \<and> b \<noteq> [] \<and> \<not> ws (hd b) \<and> hd b \<noteq> CHR '']''"
  "members_text n ms b' \<Longrightarrow> length ms \<le> length b' \<and> b' \<noteq> [] \<and> hd b' = CHR 0x22"
proof (induction rule: renders_elements_text_members_text.inducts(2,3) [where ?P1.0 = "\<lambda>_ _ _. True"])
  case (e_one n j t w)
  then show ?case using renders_head [of n j t] by (auto simp: Suc_le_eq)
next
  case (e_more n j t w w' js b)
  then show ?case using renders_head [of n j t] by auto
qed (auto simp: key_text_def)

lemma scalar_SkipValue:
  assumes "scalar_text t" "delim r" "blank w"
  shows "SkipValue (Suc n) (w @ t @ r) = Ok r"
proof -
  consider (num) "number_text t" | (lit) "t \<in> {''true'', ''false'', ''null''}" | (str) b where "t = CHR 0x22 # b @ [CHR 0x22]" "str_body b"
    using assms(1) by (auto simp: scalar_text_def)
  then show ?thesis
  proof cases
    case num
    then obtain c s where c: "t = c # s" "is_digit c \<or> c = CHR ''-''" using number_head [of t] by blast
    then have "\<not> ws c" "c \<notin> {CHR 0x22, CHR ''{'', CHR ''['', CHR ''t'', CHR ''f'', CHR ''n''}" by (auto simp: is_digit_def ws_def)
    then show ?thesis using SkipNumber_complete [OF num assms(2)] c assms(3) by simp
  next
    case lit
    then show ?thesis using assms(3) by (elim insertE emptyE) (simp_all add: Literal_def)
  next
    case str
    then show ?thesis using skip_string_complete [OF str(2), of r] assms(3) by (simp add: SkipString_def)
  qed
qed

lemma SkipValue_Whitespace [simp]: "SkipValue n (Whitespace s) = SkipValue n s"
  by (cases n) simp_all

lemma Suc_le_ex: "Suc n \<le> k \<longleftrightarrow> (\<exists>m. k = Suc m \<and> n \<le> m)"
  by (cases k) auto

lemma SkipValue_text:
  "renders n j t \<Longrightarrow> (\<forall>w r. blank w \<longrightarrow> delim r \<longrightarrow> SkipValue n (w @ t @ r) = Ok r)"
  "elements_text n js b \<Longrightarrow> (\<forall>k r. length js \<le> k \<longrightarrow> skip_elements k (SkipValue n) (b @ CHR '']'' # r) = Ok r)"
  "members_text n ms b' \<Longrightarrow> (\<forall>k r. length ms \<le> k \<longrightarrow> skip_members k (SkipValue n) (b' @ CHR ''}'' # r) = Ok r)"
proof (induction rule: renders_elements_text_members_text.inducts)
  case (r_scalar t n)
  then show ?case using scalar_SkipValue by blast
next
  case (r_array0 w n)
  then show ?case using Consume_blank by simp
next
  case (r_array w n js b)
  have "length js \<le> length b" "b \<noteq> []" "\<not> ws (hd b)" "hd b \<noteq> CHR '']''" using text_lengths(1) [OF r_array(2)] by auto
  then have "Consume CHR '']'' (w @ b @ CHR '']'' # r) = (False, b @ CHR '']'' # r)" for r
    using Consume_blank [OF r_array(1)] by (cases b) auto
  then show ?case using r_array \<open>length js \<le> length b\<close> by (simp del: skip_elements.simps)
next
  case (r_object0 w n)
  then show ?case using Consume_blank by simp
next
  case (r_object w n ms b)
  have "length ms \<le> length b" "b \<noteq> []" "hd b = CHR 0x22" using text_lengths(2) [OF r_object(2)] by auto
  then have "Consume CHR ''}'' (w @ b @ CHR ''}'' # r) = (False, b @ CHR ''}'' # r)" for r
    using Consume_blank [OF r_object(1)] by (cases b) auto
  then show ?case using r_object \<open>length ms \<le> length b\<close> by (simp del: skip_members.simps)
next
  case (e_one n j t w)
  have "SkipValue n (t @ w @ CHR '']'' # r) = Ok (w @ CHR '']'' # r)" for r
    using e_one delim_blank [of w "CHR '']'' # r"] by (metis append_Nil delims(2) empty_iff empty_set)
  moreover have "Consume CHR '']'' (w @ CHR '']'' # r) = (True, r)" for r using Consume_blank [OF e_one.hyps(2)] by simp
  ultimately show ?case by (auto simp: Suc_le_ex)
next
  case (e_more n j t w w' js b)
  have v: "SkipValue n (t @ w @ CHR '','' # x) = Ok (w @ CHR '','' # x)" for x
    using e_more delim_blank [of w "CHR '','' # x"] by (metis append_Nil delims(1) empty_iff empty_set)
  have c: "Consume CHR '']'' (w @ CHR '','' # x) = (False, CHR '','' # x)" "Consume CHR '','' (CHR '','' # x) = (True, x)" for x
    using Consume_blank [OF e_more.hyps(2)] Consume_blank [of "[]"] by simp_all
  have b: "SkipValue n (w' @ x) = SkipValue n x" for x using SkipValue_Whitespace [of n x] SkipValue_Whitespace [of n "w' @ x"] e_more.hyps(3) by simp
  have "skip_elements k (SkipValue n) (w' @ x) = skip_elements k (SkipValue n) x" for k x by (cases k) (simp_all add: b)
  then show ?case using v c e_more by (auto simp: Suc_le_ex)
next
  case (m_one k q w1 w2 n j t w3)
  have v: "SkipValue n (w2 @ t @ w3 @ CHR ''}'' # r) = Ok (w3 @ CHR ''}'' # r)" for r
    using m_one delim_blank [of w3 "CHR ''}'' # r"] by simp
  have c: "Consume CHR ''}'' (w3 @ CHR ''}'' # r) = (True, r)" "Consume CHR '':'' (w1 @ CHR '':'' # r) = (True, r)" for r
    using Consume_blank [OF m_one.hyps(5)] Consume_blank [OF m_one.hyps(2)] by simp_all
  have "JsonString (q @ x) = Ok (k, x)" for x using JsonString_complete [OF m_one.hyps(1), of "[]"] by simp
  then show ?case using v c by (auto simp: Suc_le_ex)
next
  case (m_more k q w1 w2 n j t w3 w4 ms b)
  have v: "SkipValue n (w2 @ t @ w3 @ CHR '','' # x) = Ok (w3 @ CHR '','' # x)" for x
    using m_more delim_blank [of w3 "CHR '','' # x"] by simp
  have c: "Consume CHR ''}'' (w3 @ CHR '','' # x) = (False, CHR '','' # x)" "Consume CHR '','' (CHR '','' # x) = (True, x)"
    "Consume CHR '':'' (w1 @ CHR '':'' # x) = (True, x)" for x
    using Consume_blank [OF m_more.hyps(5)] Consume_blank [of "[]"] Consume_blank [OF m_more.hyps(2)] by simp_all
  have "JsonString (q @ x) = Ok (k, x)" for x using JsonString_complete [OF m_more.hyps(1), of "[]"] by simp
  moreover have "JsonString (w4 @ x) = JsonString x" for x using JsonString_Whitespace [of x] JsonString_Whitespace [of "w4 @ x"] m_more.hyps(6) by simp
  then have "skip_members k (SkipValue n) (w4 @ x) = skip_members k (SkipValue n) x" for k x by (cases k) simp_all
  ultimately show ?case using v c m_more by (auto simp: Suc_le_ex)
qed

text \<open>Conversely, what is skipped is a text of the language.\<close>

lemma skip_elements_sound:
  assumes "\<And>s r. skip s = Ok r \<Longrightarrow> \<exists>w t j. s = w @ t @ r \<and> blank w \<and> renders n j t"
  shows "skip_elements k skip s = Ok r \<Longrightarrow> \<exists>w b js. s = w @ b @ CHR '']'' # r \<and> blank w \<and> elements_text n js b"
proof (induction k arbitrary: s)
  case (Suc k)
  obtain s1 where s1: "skip s = Ok s1" using Suc.prems by (auto simp: and_then_Ok_iff)
  obtain w t j where t: "s = w @ t @ s1" "blank w" "renders n j t" using assms [OF s1] by blast
  show ?case
  proof (cases "fst (Consume CHR '']'' s1)")
    case True
    then have "Consume CHR '']'' s1 = (True, r)" using Suc.prems s1 by (auto split: prod.splits)
    then obtain w' where "s1 = w' @ CHR '']'' # r" "blank w'" using Consume_True by blast
    then show ?thesis using t e_one [OF t(3)] by (intro exI [of _ w] exI [of _ "t @ w'"] exI [of _ "[j]"]) auto
  next
    case False
    then obtain s3 where c: "Consume CHR '','' (Whitespace s1) = (True, s3)" "skip_elements k skip s3 = Ok r"
      using Suc.prems s1 Consume_False [of "CHR '']''" s1] by (auto split: prod.splits bool.splits)
    then obtain w' where w': "s1 = w' @ CHR '','' # s3" "blank w'" using Consume_True [of "CHR '',''" s1 s3] by auto
    obtain w'' b js where b: "s3 = w'' @ b @ CHR '']'' # r" "blank w''" "elements_text n js b" using Suc.IH [OF c(2)] by blast
    show ?thesis using t w' b e_more [OF t(3) w'(2) b(2,3)]
      by (intro exI [of _ w] exI [of _ "t @ w' @ CHR '','' # w'' @ b"] exI [of _ "j # js"]) auto
  qed
qed simp

lemma skip_members_sound:
  assumes "\<And>s r. skip s = Ok r \<Longrightarrow> \<exists>w t j. s = w @ t @ r \<and> blank w \<and> renders n j t"
  shows "skip_members k skip s = Ok r \<Longrightarrow> \<exists>w b ms. s = w @ b @ CHR ''}'' # r \<and> blank w \<and> members_text n ms b"
proof (induction k arbitrary: s)
  case (Suc k)
  obtain key s0 where s0: "JsonString s = Ok (key, s0)" using Suc.prems by (auto simp: and_then_Ok_iff)
  obtain w q where q: "s = w @ q @ s0" "blank w" "key_text key q" using JsonString_sound [OF s0] by blast
  obtain s2 where s2: "Consume CHR '':'' s0 = (True, s2)" using Suc.prems s0 by (auto split: prod.splits bool.splits)
  obtain w1 where w1: "s0 = w1 @ CHR '':'' # s2" "blank w1" using Consume_True [OF s2] by blast
  obtain s1 where s1: "skip s2 = Ok s1" using Suc.prems s0 s2 by (auto simp: and_then_Ok_iff)
  obtain w2 t j where t: "s2 = w2 @ t @ s1" "blank w2" "renders n j t" using assms [OF s1] by blast
  show ?case
  proof (cases "fst (Consume CHR ''}'' s1)")
    case True
    then have "Consume CHR ''}'' s1 = (True, r)" using Suc.prems s0 s2 s1 by (auto split: prod.splits)
    then obtain w' where w': "s1 = w' @ CHR ''}'' # r" "blank w'" using Consume_True by blast
    show ?thesis using q w1 t w' m_one [OF q(3) w1(2) t(2,3) w'(2)]
      by (intro exI [of _ w] exI [of _ "q @ w1 @ CHR '':'' # w2 @ t @ w'"] exI [of _ "[(key, j)]"]) auto
  next
    case False
    then obtain s3 where c: "Consume CHR '','' (Whitespace s1) = (True, s3)" "skip_members k skip s3 = Ok r"
      using Suc.prems s0 s2 s1 Consume_False [of "CHR ''}''" s1] by (auto split: prod.splits bool.splits)
    then obtain w' where w': "s1 = w' @ CHR '','' # s3" "blank w'" using Consume_True [of "CHR '',''" s1 s3] by auto
    obtain w'' b ms where b: "s3 = w'' @ b @ CHR ''}'' # r" "blank w''" "members_text n ms b" using Suc.IH [OF c(2)] by blast
    show ?thesis using q w1 t w' b m_more [OF q(3) w1(2) t(2,3) w'(2) b(2,3)]
      by (intro exI [of _ w] exI [of _ "q @ w1 @ CHR '':'' # w2 @ t @ w' @ CHR '','' # w'' @ b"] exI [of _ "(key, j) # ms"]) auto
  qed
qed simp

lemma Literal_sound: "Literal lit s = Ok r \<Longrightarrow> s = lit @ r"
  by (metis Literal_def Result.distinct(1) Result.inject(1) append_take_drop_id)

lemma SkipValue_sound: "SkipValue n s = Ok r \<Longrightarrow> \<exists>w t j. s = w @ t @ r \<and> blank w \<and> renders n j t"
proof (induction n arbitrary: s r)
  case (Suc n)
  obtain c s1 where s1: "Whitespace s = c # s1" using Suc.prems by (cases "Whitespace s") auto
  obtain w where w: "s = w @ c # s1" "blank w" using Whitespace_split [of s] s1 by auto
  have "\<exists>t j. c # s1 = t @ r \<and> renders (Suc n) j t"
  proof -
    consider (str) "c = CHR 0x22" | (obj) "c = CHR ''{''" | (arr) "c = CHR ''[''" | (lit) "c \<in> {CHR ''t'', CHR ''f'', CHR ''n''}"
      | (num) "c \<notin> {CHR 0x22, CHR ''{'', CHR ''['', CHR ''t'', CHR ''f'', CHR ''n''}" by auto
    then show ?thesis
    proof cases
      case str
      then obtain b where "s1 = b @ CHR 0x22 # r" "str_body b" using Suc.prems s1 skip_string_sound by (auto simp: SkipString_def)
      then show ?thesis using str r_scalar [of "CHR 0x22 # b @ [CHR 0x22]" n]
        by (intro exI [of _ "CHR 0x22 # b @ [CHR 0x22]"] exI [of _ "JText (CHR 0x22 # b @ [CHR 0x22])"]) (auto simp: scalar_text_def)
    next
      case obj
      show ?thesis
      proof (cases "fst (Consume CHR ''}'' s1)")
        case True
        then have "Consume CHR ''}'' s1 = (True, r)" using Suc.prems s1 obj by (auto split: prod.splits)
        then obtain w' where "s1 = w' @ CHR ''}'' # r" "blank w'" using Consume_True by blast
        then show ?thesis using obj r_object0 [of w' n] by (intro exI [of _ "CHR ''{'' # w' @ ''}''"] exI [of _ "JObj []"]) auto
      next
        case False
        then have skipped: "skip_members (Suc (length (Whitespace s1))) (SkipValue n) (Whitespace s1) = Ok r"
          using Suc.prems s1 obj Consume_False [of "CHR ''}''" s1] by (auto split: prod.splits simp del: skip_members.simps)
        obtain w' b ms where b: "Whitespace s1 = w' @ b @ CHR ''}'' # r" "blank w'" "members_text n ms b"
          using skip_members_sound [OF Suc.IH skipped] by blast
        obtain w'' where w'': "s1 = w'' @ Whitespace s1" "blank w''" using Whitespace_split by blast
        then have "s1 = (w'' @ w') @ b @ CHR ''}'' # r" using b(1) by simp
        then show ?thesis using obj r_object [OF _ b(3), of "w'' @ w'"] b(2) w''(2)
          by (intro exI [of _ "CHR ''{'' # (w'' @ w') @ b @ ''}''"] exI [of _ "JObj ms"]) auto
      qed
    next
      case arr
      show ?thesis
      proof (cases "fst (Consume CHR '']'' s1)")
        case True
        then have "Consume CHR '']'' s1 = (True, r)" using Suc.prems s1 arr by (auto split: prod.splits)
        then obtain w' where "s1 = w' @ CHR '']'' # r" "blank w'" using Consume_True by blast
        then show ?thesis using arr r_array0 [of w' n] by (intro exI [of _ "CHR ''['' # w' @ '']''"] exI [of _ "JArr []"]) auto
      next
        case False
        then have skipped: "skip_elements (Suc (length (Whitespace s1))) (SkipValue n) (Whitespace s1) = Ok r"
          using Suc.prems s1 arr Consume_False [of "CHR '']''" s1] by (auto split: prod.splits simp del: skip_elements.simps)
        obtain w' b ms where b: "Whitespace s1 = w' @ b @ CHR '']'' # r" "blank w'" "elements_text n ms b"
          using skip_elements_sound [OF Suc.IH skipped] by blast
        obtain w'' where w'': "s1 = w'' @ Whitespace s1" "blank w''" using Whitespace_split by blast
        then have "s1 = (w'' @ w') @ b @ CHR '']'' # r" using b(1) by simp
        then show ?thesis using arr r_array [OF _ b(3), of "w'' @ w'"] b(2) w''(2)
          by (intro exI [of _ "CHR ''['' # (w'' @ w') @ b @ '']''"] exI [of _ "JArr ms"]) auto
      qed
    next
      case lit
      then have "Literal ''true'' (c # s1) = Ok r \<or> Literal ''false'' (c # s1) = Ok r \<or> Literal ''null'' (c # s1) = Ok r"
        using Suc.prems s1 by (elim insertE emptyE) simp_all
      then obtain l where "Literal l (c # s1) = Ok r" "l \<in> {''true'', ''false'', ''null''}" by blast
      then show ?thesis using Literal_sound [of l "c # s1" r] r_scalar [of l n]
        by (intro exI [of _ l] exI [of _ "JText l"]) (auto simp: scalar_text_def)
    next
      case num
      then have "SkipNumber (c # s1) = Ok r" using Suc.prems s1 by auto
      then obtain t where "c # s1 = t @ r" "number_text t" using SkipNumber_sound by blast
      then show ?thesis using r_scalar [of t n] by (auto simp: scalar_text_def)
    qed
  qed
  then show ?case using w by auto
qed simp

text \<open>The fuel of the loops suffices, so nothing but the errors of the code comes out.\<close>

lemma Consume_shorter: "Consume v s = (True, r) \<Longrightarrow> length r < length s"
  using Consume_True by force

lemma Whitespace_length: "length (Whitespace s) \<le> length s"
  by (simp add: Whitespace_def length_dropWhile_le)

lemma SkipValue_shorter: "SkipValue n s = Ok r \<Longrightarrow> length r < length s"
  using SkipValue_sound [of n s r] renders_head by force

lemma string_loop_no_throw: "string_loop s out \<noteq> Throw e"
  by (induction s out rule: string_loop.induct) (auto split: list.splits option.splits)

lemma JsonString_no_throw: "JsonString s \<noteq> Throw e"
  by (auto simp: JsonString_def string_loop_no_throw split: list.splits)

lemma skip_string_no_throw: "skip_string_loop s \<noteq> Throw e"
  by (induction s rule: skip_string_loop.induct) (auto split: list.splits)

lemma and_then_Throw_iff: "and_then r f = Throw e \<longleftrightarrow> r = Throw e \<or> (\<exists>a. r = Ok a \<and> f a = Throw e)"
  by (cases r) auto

lemma SkipNumber_no_throw: "SkipNumber s \<noteq> Throw e"
proof -
  have "skip_fraction x \<noteq> Throw e" "skip_exponent x \<noteq> Throw e" for x
    by (auto simp: skip_fraction_def skip_exponent_def Let_def split: list.splits)
  then show ?thesis by (auto simp: SkipNumber_def Let_def and_then_Throw_iff split: list.splits if_splits)
qed

lemma JsonString_shorter: "JsonString s = Ok (k, r) \<Longrightarrow> length r < length s"
  using JsonString_sound [of s k r] by (auto simp: key_text_def)

lemma skip_members_total:
  assumes "\<And>s r. skip s = Ok r \<Longrightarrow> length r < length s" "\<And>s e. skip s \<noteq> Throw e"
  shows "length s < k \<Longrightarrow> skip_members k skip s \<noteq> Throw e"
proof (induction k arbitrary: s)
  case (Suc k)
  show ?case
  proof
    assume a: "skip_members (Suc k) skip s = Throw e"
    obtain key s1 where s1: "JsonString s = Ok (key, s1)" using a JsonString_no_throw [of s] by (cases "JsonString s") auto
    obtain s2 where s2: "Consume CHR '':'' s1 = (True, s2)" using a s1 by (auto split: prod.splits bool.splits)
    obtain s3 where s3: "skip s2 = Ok s3" using a s1 s2 assms(2) [of s2] by (cases "skip s2") auto
    obtain s4 where s4: "Consume CHR '','' (Whitespace s3) = (True, s4)" "skip_members k skip s4 = Throw e"
      using a s1 s2 s3 Consume_False [of "CHR ''}''" s3] by (auto split: prod.splits bool.splits)
    have "length s4 < length s" using JsonString_shorter [OF s1] Consume_shorter [OF s2] assms(1) [OF s3] Consume_shorter [of "CHR '',''" s3 s4] s4(1) by simp
    then show False using Suc.IH [of s4] s4(2) Suc.prems by simp
  qed
qed simp

lemma skip_elements_total:
  assumes "\<And>s r. skip s = Ok r \<Longrightarrow> length r < length s" "\<And>s e. skip s \<noteq> Throw e"
  shows "length s < k \<Longrightarrow> skip_elements k skip s \<noteq> Throw e"
proof (induction k arbitrary: s)
  case (Suc k)
  show ?case
  proof
    assume a: "skip_elements (Suc k) skip s = Throw e"
    obtain s3 where s3: "skip s = Ok s3" using a assms(2) [of s] by (cases "skip s") auto
    obtain s4 where s4: "Consume CHR '','' (Whitespace s3) = (True, s4)" "skip_elements k skip s4 = Throw e"
      using a s3 Consume_False [of "CHR '']''" s3] by (auto split: prod.splits bool.splits)
    have "length s4 < length s" using assms(1) [OF s3] Consume_shorter [of "CHR '',''" s3 s4] s4(1) by simp
    then show False using Suc.IH [of s4] s4(2) Suc.prems by simp
  qed
qed simp

lemma SkipValue_no_throw: "SkipValue n s \<noteq> Throw e"
proof (induction n arbitrary: s e)
  case (Suc n)
  have sh: "\<And>s r. SkipValue n s = Ok r \<Longrightarrow> length r < length s" by (rule SkipValue_shorter)
  have m': "skip_members (Suc (length x)) (SkipValue n) x \<noteq> Throw e" "skip_elements (Suc (length x)) (SkipValue n) x \<noteq> Throw e" for x
    using skip_members_total [where skip = "SkipValue n", OF sh Suc.IH] skip_elements_total [where skip = "SkipValue n", OF sh Suc.IH] by blast+
  show ?case unfolding SkipValue.simps
    using skip_string_no_throw SkipNumber_no_throw
    by (auto simp: SkipString_def Literal_def m' simp del: skip_members.simps skip_elements.simps split: list.splits prod.splits bool.splits)
qed simp

lemma Finished_blank: "Finished r \<longleftrightarrow> blank r"
  by (auto simp: Finished_def Whitespace_def dropWhile_eq_Nil_conv)

text \<open>C24: Skipping a value is a JSON recogniser with a nesting limit: a text is skipped up to white space exactly when
  it is, between white space, the text of a JSON value nested at most as deep as allowed (65 levels at
  depth 0), where object keys have no escaped character beyond ASCII; and the skipper always returns.\<close>

theorem SkipValue_correct:
  "SkipValue n s \<noteq> Throw e \<and>
   ((\<exists>r. SkipValue n s = Ok r \<and> Finished r) \<longleftrightarrow> (\<exists>w t w' j. s = w @ t @ w' \<and> blank w \<and> blank w' \<and> renders n j t))"
proof (intro conjI iffI)
  assume "\<exists>r. SkipValue n s = Ok r \<and> Finished r"
  then obtain r where r: "SkipValue n s = Ok r" "blank r" unfolding Finished_blank by blast
  obtain w t j where "s = w @ t @ r" "blank w" "renders n j t" using SkipValue_sound [OF r(1)] by blast
  then show "\<exists>w t w' j. s = w @ t @ w' \<and> blank w \<and> blank w' \<and> renders n j t" using r(2) by blast
next
  assume "\<exists>w t w' j. s = w @ t @ w' \<and> blank w \<and> blank w' \<and> renders n j t"
  then obtain w t w' j where s: "s = w @ t @ w'" "blank w" "blank w'" "renders n j t" by blast
  have "delim w'" using delim_blank [OF s(3) delims(4)] by simp
  then show "\<exists>r. SkipValue n s = Ok r \<and> Finished r" using SkipValue_text(1) [OF s(4)] s(1-3) by (auto simp: Finished_blank)
qed (rule SkipValue_no_throw)

theorem SkipValue_correct_witness:
  "(\<exists>r. SkipValue 65 '' true '' = Ok r \<and> Finished r) \<and> \<not> (\<exists>w t w' j. '' true '' = w @ t @ w' \<and> blank w \<and> blank w' \<and> renders 0 j t)"
proof (rule conjI)
  have "renders 65 (JText ''true'') ''true''" using r_scalar [of "''true''" 64] by (simp add: scalar_text_def)
  then have "\<exists>w t w' j. '' true '' = w @ t @ w' \<and> blank w \<and> blank w' \<and> renders 65 j t"
    by - (rule exI [of _ "'' ''"], rule exI [of _ "''true''"], rule exI [of _ "'' ''"], auto simp: ws_def)
  then show "\<exists>r. SkipValue 65 '' true '' = Ok r \<and> Finished r" using SkipValue_correct by blast
  show "\<not> (\<exists>w t w' j. '' true '' = w @ t @ w' \<and> blank w \<and> blank w' \<and> renders 0 j t)"
    by (auto elim: renders_0E)
qed

end
