(* ===== verification/JsonProject.thy ===== *)
theory JsonProject
  imports JsonStream
begin

text \<open>
  The projection of a \<open>getblock\<close> answer and the JSON-RPC envelope (\<^verbatim>\<open>src/src/json_stream.cpp\<close>) against
  their meaning on JSON trees: the streaming code works on text, the specification on trees, and the
  texts of the tree connect them.
\<close>

section \<open>Projection of trees\<close>

fun project :: "Projection \<Rightarrow> json \<Rightarrow> json option"
  and project_fields :: "Projection \<Rightarrow> (string \<times> json) list \<Rightarrow> (string \<times> json) list option"
  and project_value :: "FieldProjection \<Rightarrow> json \<Rightarrow> json option"
  and project_all :: "Projection \<Rightarrow> json list \<Rightarrow> json list option" where
  "project p (JObj ms) = map_option JObj (project_fields p ms)"
| "project p (JText t) = None"
| "project p (JArr js) = None"
| "project_fields p [] = Some []"
| "project_fields p ((k, j) # ms) =
     (case ProjectedField p k of
        None \<Rightarrow> project_fields p ms
      | Some f \<Rightarrow>
          (case project_value f j of
             None \<Rightarrow> None
           | Some j' \<Rightarrow> map_option (\<lambda>ms'. (k, j') # ms') (project_fields p ms)))"
| "project_value f (JText t) = (if kind f = SCALAR then Some (JText t) else None)"
| "project_value f (JArr js) =
     (case kind f of SCALAR \<Rightarrow> Some (JArr js) | OBJECT \<Rightarrow> None | ARRAY \<Rightarrow> map_option JArr (project_all (child f) js))"
| "project_value f (JObj ms) =
     (case kind f of SCALAR \<Rightarrow> Some (JObj ms) | OBJECT \<Rightarrow> map_option JObj (project_fields (child f) ms) | ARRAY \<Rightarrow> None)"
| "project_all p [] = Some []"
| "project_all p (j # js) =
     (case project p j of None \<Rightarrow> None | Some j' \<Rightarrow> map_option (\<lambda>js'. j' # js') (project_all p js))"

primrec rank :: "Projection \<Rightarrow> nat" where
  "rank BLOCK = 4"
| "rank TRANSACTION = 3"
| "rank INPUT = 2"
| "rank PREVOUT = 1"
| "rank OUTPUT = 1"
| "rank SCRIPT = 0"

lemma rank_child: "ProjectedField p k = Some f \<Longrightarrow> kind f \<noteq> SCALAR \<Longrightarrow> rank (child f) < rank p"
  by (cases p) (auto simp: ProjectedField_def Let_def split: if_splits)

lemma ProjectedField_plain:
  assumes "ProjectedField p k = Some f"
  shows "key_body k k"
proof -
  have "k \<in> {''hash'', ''height'', ''previousblockhash'', ''tx'', ''txid'', ''vin'', ''vout'', ''prevout'', ''generated'', ''value'',
      ''scriptPubKey'', ''n'', ''hex''}"
    using assms by (cases p) (auto simp: ProjectedField_def Let_def split: if_splits)
  moreover have "\<forall>c \<in> set s. plain c \<Longrightarrow> key_body s s" for s by (induction s) (auto intro: key_body.intros)
  ultimately show ?thesis by (auto simp: plain_def)
qed

section \<open>Texts\<close>

lemma renders_mono:
  "renders n j t \<Longrightarrow> \<forall>m \<ge> n. renders m j t"
  "elements_text n js b \<Longrightarrow> \<forall>m \<ge> n. elements_text m js b"
  "members_text n ms b' \<Longrightarrow> \<forall>m \<ge> n. members_text m ms b'"
  by (induction rule: renders_elements_text_members_text.inducts)
    (auto simp: Suc_le_ex intro: renders_elements_text_members_text.intros)

inductive_cases members_textE: "members_text n ms b"
inductive_cases elements_textE: "elements_text n js b"
inductive_cases renders_ObjE: "renders n (JObj ms) t"
inductive_cases renders_ArrE: "renders n (JArr js) t"
inductive_cases renders_TextE: "renders n (JText x) t"

text \<open>What follows the first member or element: nothing, or a comma and the text of the others.\<close>

definition more_members :: "nat \<Rightarrow> (string \<times> json) list \<Rightarrow> string \<Rightarrow> bool" where
  "more_members n ms x \<longleftrightarrow> ms = [] \<and> x = [] \<or> (\<exists>w b. x = CHR '','' # w @ b \<and> blank w \<and> members_text n ms b)"

definition more_elements :: "nat \<Rightarrow> json list \<Rightarrow> string \<Rightarrow> bool" where
  "more_elements n js x \<longleftrightarrow> js = [] \<and> x = [] \<or> (\<exists>w b. x = CHR '','' # w @ b \<and> blank w \<and> elements_text n js b)"

lemma members_step:
  assumes "members_text n ms b"
  obtains k j ms' q w1 w2 t w3 x where "ms = (k, j) # ms'" "b = q @ w1 @ CHR '':'' # w2 @ t @ w3 @ x" "key_text k q"
    "blank w1" "blank w2" "blank w3" "renders n j t" "more_members n ms' x"
  using assms
proof (rule members_textE)
  fix k q w1 w2 j t w3
  assume h: "ms = [(k, j)]" "b = q @ w1 @ CHR '':'' # w2 @ t @ w3" "key_text k q" "blank w1" "blank w2" "renders n j t" "blank w3"
  have "more_members n [] []" by (simp add: more_members_def)
  then show thesis using that [of k j "[]" q w1 w2 t w3 "[]"] h by simp
next
  fix k q w1 w2 j t w3 w4 ms' b'
  assume h: "ms = (k, j) # ms'" "b = q @ w1 @ CHR '':'' # w2 @ t @ w3 @ CHR '','' # w4 @ b'" "key_text k q" "blank w1" "blank w2"
    "renders n j t" "blank w3" "blank w4" "members_text n ms' b'"
  then have "more_members n ms' (CHR '','' # w4 @ b')" by (auto simp: more_members_def)
  then show thesis using that [of k j ms' q w1 w2 t w3 "CHR '','' # w4 @ b'"] h by simp
qed

lemma elements_step:
  assumes "elements_text n js b"
  obtains j js' t w x where "js = j # js'" "b = t @ w @ x" "blank w" "renders n j t" "more_elements n js' x"
  using assms
proof (rule elements_textE)
  fix j t w
  assume h: "js = [j]" "b = t @ w" "renders n j t" "blank w"
  have "more_elements n [] []" by (simp add: more_elements_def)
  then show thesis using that [of j "[]" t w "[]"] h by simp
next
  fix j t w w' js' b'
  assume h: "js = j # js'" "b = t @ w @ CHR '','' # w' @ b'" "renders n j t" "blank w" "blank w'" "elements_text n js' b'"
  then have "more_elements n js' (CHR '','' # w' @ b')" by (auto simp: more_elements_def)
  then show thesis using that [of j js' t w "CHR '','' # w' @ b'"] h by simp
qed

lemma members_join:
  assumes "key_text k q" "blank w" "renders n j t" "more_members n ms x"
  shows "members_text n ((k, j) # ms) (q @ CHR '':'' # t @ w @ x)"
proof (cases "ms = [] \<and> x = []")
  case True
  then show ?thesis using m_one [OF assms(1), of "[]" "[]" n j t w] assms(2,3) by auto
next
  case False
  then obtain w4 b where "x = CHR '','' # w4 @ b" "blank w4" "members_text n ms b" using assms(4) by (auto simp: more_members_def)
  then show ?thesis using m_more [OF assms(1), of "[]" "[]" n j t w w4 ms b] assms(2,3) by auto
qed

lemma elements_join:
  assumes "renders n j t" "more_elements n js x"
  shows "elements_text n (j # js) (t @ x)"
proof (cases "js = [] \<and> x = []")
  case True
  then show ?thesis using e_one [OF assms(1), of "[]"] by auto
next
  case False
  then obtain w4 b where "x = CHR '','' # w4 @ b" "blank w4" "elements_text n js b" using assms(2) by (auto simp: more_elements_def)
  then show ?thesis using e_more [OF assms(1), of "[]" w4 js b] by auto
qed

lemma renders_brackets:
  "renders n j t \<Longrightarrow> (hd t = CHR ''{'' \<longleftrightarrow> (\<exists>ms. j = JObj ms)) \<and> (hd t = CHR ''['' \<longleftrightarrow> (\<exists>js. j = JArr js)) \<and> t \<noteq> [] \<and> \<not> ws (hd t)"
proof (cases j)
  case (JText x)
  assume "renders n j t"
  then have "scalar_text t" using JText by (auto elim: renders_TextE)
  then have "t \<noteq> [] \<and> (is_digit (hd t) \<or> hd t \<in> {CHR ''-'', CHR ''t'', CHR ''f'', CHR ''n'', CHR 0x22})"
    using number_head [of t] by (auto simp: scalar_text_def)
  then show ?thesis using JText by (auto simp: is_digit_def ws_def)
qed (auto elim: renders_ObjE renders_ArrE)

section \<open>The streaming projection\<close>

text \<open>The answer \<open>res\<close> to a text agrees with the projected tree: its text is appended, or there is an error.\<close>

definition appends :: "(json \<Rightarrow> string \<Rightarrow> bool) \<Rightarrow> json option \<Rightarrow> string \<Rightarrow> string \<Rightarrow> (string \<times> string) Result \<Rightarrow> bool" where
  "appends ok spec r out res \<longleftrightarrow>
     (case spec of Some j' \<Rightarrow> (\<exists>t'. res = Ok (r, out @ t') \<and> ok j' t') | None \<Rightarrow> (\<exists>e. res = Err e))"

definition good :: "Projection \<Rightarrow> (string \<Rightarrow> string \<Rightarrow> (string \<times> string) Result) \<Rightarrow> bool" where
  "good p obj \<longleftrightarrow> (\<forall>n j t w r out. n \<le> 65 \<longrightarrow> renders n j t \<longrightarrow> blank w \<longrightarrow> delim r \<longrightarrow>
     appends (renders n) (project p j) r out (obj (w @ t @ r) out))"

lemma goodD: "good p obj \<Longrightarrow> n \<le> 65 \<Longrightarrow> renders n j t \<Longrightarrow> blank w \<Longrightarrow> delim r \<Longrightarrow> appends (renders n) (project p j) r out (obj (w @ t @ r) out)"
  by (simp add: good_def)

lemma Consume_next: "blank w \<Longrightarrow> Consume v (w @ v # r) = (True, r)" if "\<not> ws v"
  using Consume_blank [of w v v r] that by simp

lemma Consume_other: "blank w \<Longrightarrow> Consume v (w @ c # r) = (False, c # r)" if "\<not> ws c" "c \<noteq> v"
  using Consume_blank [of w c v r] that by simp

lemma project_elements_ok:
  assumes "good p obj" "n \<le> 65"
  shows "elements_text n js b \<Longrightarrow> length js \<le> k \<Longrightarrow> blank w \<Longrightarrow>
    (case project_all p js of
       Some js' \<Rightarrow> (\<exists>b'. project_elements k obj first (w @ b @ CHR '']'' # r) out = Ok (r, out @ (if first then [] else '','') @ b' @ '']'') \<and> elements_text n js' b')
     | None \<Rightarrow> (\<exists>e. project_elements k obj first (w @ b @ CHR '']'' # r) out = Err e))"
proof (induction js arbitrary: b w k first out)
  case Nil
  then show ?case using text_lengths(1) by (fastforce elim: elements_textE)
next
  case (Cons j js)
  obtain t w1 x where b: "b = t @ w1 @ x" "blank w1" "renders n j t" "more_elements n js x"
    using Cons.prems(1) by (elim elements_step) auto
  obtain m where k: "k = Suc m" "length js \<le> m" using Cons.prems(2) by (auto simp: Suc_le_ex)
  let ?out = "if first then out else out @ '',''"
  have "delim (x @ CHR '']'' # r)" using b(4) by (auto simp: more_elements_def)
  then have "delim (w1 @ x @ CHR '']'' # r)" by (rule delim_blank [OF b(2)])
  then have a: "appends (renders n) (project p j) (w1 @ x @ CHR '']'' # r) ?out (obj (w @ t @ w1 @ x @ CHR '']'' # r) ?out)"
    by (rule goodD [OF assms b(3) Cons.prems(3)])
  show ?case
  proof (cases "project p j")
    case None
    then show ?thesis using a k b(1) by (auto simp: appends_def)
  next
    case (Some j')
    then obtain t' where t': "obj (w @ t @ w1 @ x @ CHR '']'' # r) ?out = Ok (w1 @ x @ CHR '']'' # r, ?out @ t')" "renders n j' t'"
      using a by (auto simp: appends_def)
    show ?thesis
    proof (cases "js = [] \<and> x = []")
      case True
      then show ?thesis using t' k b(1) Some Consume_next [of "CHR '']''" w1 r] b(2) elements_join [OF t'(2), of "[]" "[]"]
        by (auto simp: more_elements_def)
    next
      case False
      then obtain w4 b4 where x: "x = CHR '','' # w4 @ b4" "blank w4" "elements_text n js b4" using b(4) by (auto simp: more_elements_def)
      let ?rest = "w4 @ b4 @ CHR '']'' # r"
      have c: "Consume CHR '']'' (w1 @ CHR '','' # ?rest) = (False, CHR '','' # ?rest)" "Consume CHR '','' (CHR '','' # ?rest) = (True, ?rest)"
        using Consume_other [of "CHR '',''" "CHR '']''" w1 ?rest] Consume_next [of "CHR '',''" "[]" ?rest] b(2) by auto
      have step: "project_elements k obj first (w @ b @ CHR '']'' # r) out = project_elements m obj False ?rest (?out @ t')"
        using t'(1) c k(1) b(1) x(1) by simp
      show ?thesis
      proof (cases "project_all p js")
        case None
        then show ?thesis using Cons.IH [OF x(3) k(2) x(2), of False "?out @ t'"] step Some by simp
      next
        case js': (Some js')
        then obtain b' where b': "project_elements m obj False ?rest (?out @ t') = Ok (r, (?out @ t') @ '','' @ b' @ '']'')" "elements_text n js' b'"
          using Cons.IH [OF x(3) k(2) x(2), of False "?out @ t'"] by auto
        have "elements_text n (j' # js') (t' @ CHR '','' # b')" using elements_join [OF t'(2), of js' "CHR '','' # b'"] b'(2) by (fastforce simp: more_elements_def)
        then show ?thesis using step b'(1) Some js' by (auto intro!: exI [of _ "t' @ CHR '','' # b'"])
      qed
    qed
  qed
qed

lemma ProjectArray_ok:
  assumes "good p obj" "n \<le> 65" "renders n (JArr js) t" "blank w" "delim r"
  shows "appends (renders n) (map_option JArr (project_all p js)) r out (ProjectArray obj (w @ t @ r) out)"
proof -
  obtain n' w1 where n: "n = Suc n'" "blank w1" and c: "js = [] \<and> t = CHR ''['' # w1 @ '']'' \<or> (\<exists>b. t = CHR ''['' # w1 @ b @ '']'' \<and> elements_text n' js b)"
    using assms(3) by (elim renders_ArrE) auto
  have o: "Consume CHR ''['' (w @ CHR ''['' # x) = (True, x)" for x using Consume_next assms(4) by simp
  show ?thesis
  proof (cases "js = [] \<and> t = CHR ''['' # w1 @ '']''")
    case True
    then show ?thesis using o Consume_next [of "CHR '']''" w1 r] n r_array0 [of "[]" n'] by (auto simp: ProjectArray_def appends_def)
  next
    case False
    then obtain b where b: "t = CHR ''['' # w1 @ b @ '']''" "elements_text n' js b" using c by blast
    have h: "length js \<le> length b" "b \<noteq> []" "\<not> ws (hd b)" "hd b \<noteq> CHR '']''" using text_lengths(1) [OF b(2)] by auto
    then have "Consume CHR '']'' (w1 @ b @ CHR '']'' # r) = (False, b @ CHR '']'' # r)"
      using Consume_other [of "hd b" "CHR '']''" w1 "tl b @ CHR '']'' # r"] n(2) by (cases b) auto
    then have "ProjectArray obj (w @ t @ r) out = project_elements (Suc (length (b @ CHR '']'' # r))) obj True ([] @ b @ CHR '']'' # r) (out @ ''['')"
      using o b(1) by (simp add: ProjectArray_def del: project_elements.simps)
    then show ?thesis
      using project_elements_ok [OF assms(1) _ b(2), of "Suc (length (b @ CHR '']'' # r))" "[]" True r "out @ ''[''"] n assms(2) h(1) r_array [of "[]" n']
      by (auto simp: appends_def simp del: project_elements.simps split: option.splits)
  qed
qed

lemma project_field_ok:
  assumes "kind f \<noteq> SCALAR \<Longrightarrow> good (child f) (obj (child f))" "n \<le> 65" "renders n j t" "blank w2" "blank w3"
    "x = c # x'" "c \<in> {CHR '','', CHR ''}''}"
  shows "case project_value f j of
      Some j' \<Rightarrow> (\<exists>t' u v. project_field obj f (w2 @ t @ w3 @ x) out = Ok (v @ x, out @ t' @ u) \<and> renders n j' t' \<and> blank u \<and> blank v)
    | None \<Rightarrow> (\<exists>e. project_field obj f (w2 @ t @ w3 @ x) out = Err e)"
proof -
  have "delim x" using assms(6,7) by auto
  then have d: "delim (w3 @ x)" by (rule delim_blank [OF assms(5)])
  have c: "\<not> ws c" using assms(7) by auto
  note h = renders_brackets [OF assms(3)]
  have no: "Consume v (w2 @ t @ w3 @ x) = (False, t @ w3 @ x)" if "hd t \<noteq> v" for v
    using Consume_other [of "hd t" v w2 "tl t @ w3 @ x"] assms(4) h that by (cases t) auto
  have of_appends: ?thesis if ap: "appends (renders n) (project_value f j) (w3 @ x) out (project_field obj f (w2 @ t @ w3 @ x) out)"
  proof (cases "project_value f j")
    case (Some j')
    then obtain t' where "project_field obj f (w2 @ t @ w3 @ x) out = Ok (w3 @ x, out @ t' @ [])" "renders n j' t'"
      using ap by (auto simp: appends_def)
    then show ?thesis unfolding Some option.case using assms(5) by (intro exI [of _ t'] exI [of _ "[]"] exI [of _ w3]) simp
  qed (use ap in \<open>simp add: appends_def\<close>)
  show ?thesis
  proof (cases "kind f")
    case SCALAR
    have s: "SkipTop (t @ w3 @ x) = Ok (w3 @ x)"
      using SkipValue_text(1) [OF renders_mono(1) [OF assms(3), rule_format, OF assms(2)], rule_format, of "[]" "w3 @ x"] d by simp
    have w: "Whitespace (w2 @ t @ w3 @ x) = t @ w3 @ x" "Whitespace (w3 @ x) = x" using assms(4-6) c h by (cases t; simp)+
    have "project_field obj f (w2 @ t @ w3 @ x) out = Ok ([] @ x, out @ t @ w3)"
      unfolding project_field_def SCALAR Kind.case Let_def w s and_then.simps by (simp add: Slice_def)
    moreover have "project_value f j = Some j" using SCALAR by (cases j) auto
    ultimately show ?thesis using assms(3,5) by auto
  next
    case OBJECT
    have v: "project_value f j = project (child f) j" using OBJECT by (cases j) auto
    have "appends (renders n) (project (child f) j) (w3 @ x) out (obj (child f) (w2 @ t @ w3 @ x) out)"
      using goodD [OF assms(1) assms(2-4) d] OBJECT by simp
    then have a: "appends (renders n) (project_value f j) (w3 @ x) out (project_field obj f (w2 @ t @ w3 @ x) out)"
      using v OBJECT by (simp add: project_field_def)
    then show ?thesis using of_appends by blast
  next
    case ARRAY
    show ?thesis
    proof (cases "\<exists>js. j = JArr js")
      case True
      then obtain js where js: "j = JArr js" by blast
      have "appends (renders n) (map_option JArr (project_all (child f) js)) (w3 @ x) out (ProjectArray (obj (child f)) (w2 @ t @ w3 @ x) out)"
        using ProjectArray_ok [OF assms(1) assms(2) _ assms(4) d] ARRAY assms(3) js by simp
      then have a: "appends (renders n) (project_value f j) (w3 @ x) out (project_field obj f (w2 @ t @ w3 @ x) out)"
        using js ARRAY by (simp add: project_field_def)
      then show ?thesis using of_appends by blast
    next
      case False
      then have "project_value f j = None" using ARRAY by (cases j) auto
      then show ?thesis using no [of "CHR ''[''"] h False ARRAY by (simp add: project_field_def ProjectArray_def)
    qed
  qed
qed

definition members_out :: "nat \<Rightarrow> bool \<Rightarrow> (string \<times> json) list \<Rightarrow> string \<Rightarrow> bool" where
  "members_out n first_output ms b \<longleftrightarrow>
     (if ms = [] then b = [] else \<exists>b'. b = (if first_output then b' else CHR '','' # b') \<and> members_text n ms b')"

lemma members_out_more: "members_out n False ms b \<Longrightarrow> more_members n ms b"
  by (cases "ms = []") (auto simp: members_out_def more_members_def intro: exI [of _ "[] :: string"])

lemma project_members_ok:
  assumes "\<And>c. rank c < rank p \<Longrightarrow> good c (obj c)" "n \<le> 65"
  shows "members_text n ms b \<Longrightarrow> length ms \<le> k \<Longrightarrow> blank w \<Longrightarrow>
    (case project_fields p ms of
       Some ms' \<Rightarrow> (\<exists>b'. project_members k p obj first (w @ b @ CHR ''}'' # r) out = Ok (r, out @ b' @ ''}'') \<and> members_out n first ms' b')
     | None \<Rightarrow> (\<exists>e. project_members k p obj first (w @ b @ CHR ''}'' # r) out = Err e))"
proof (induction ms arbitrary: b w k first out)
  case Nil
  then show ?case using text_lengths(2) by (fastforce elim: members_textE)
next
  case (Cons kj ms)
  obtain key j q w1 w2 t w3 x where b: "kj = (key, j)" "b = q @ w1 @ CHR '':'' # w2 @ t @ w3 @ x" "key_text key q"
    "blank w1" "blank w2" "blank w3" "renders n j t" "more_members n ms x"
    using Cons.prems(1) by (elim members_step) auto
  obtain m where k: "k = Suc m" "length ms \<le> m" using Cons.prems(2) by (auto simp: Suc_le_ex)
  let ?x = "x @ CHR ''}'' # r"
  obtain c x' where x: "?x = c # x'" "c \<in> {CHR '','', CHR ''}''}" using b(8) by (auto simp: more_members_def)
  have key: "JsonString (w @ b @ CHR ''}'' # r) = Ok (key, w1 @ CHR '':'' # w2 @ t @ w3 @ ?x)"
    using JsonString_complete [OF b(3) Cons.prems(3)] b(2) by simp
  have colon: "Consume CHR '':'' (w1 @ CHR '':'' # w2 @ t @ w3 @ ?x) = (True, w2 @ t @ w3 @ ?x)" using Consume_next b(4) by simp
  txt \<open>The end of a round, after the value.\<close>
  define round where "round \<equiv> \<lambda>(s3, out1, first1).
     case Consume CHR ''}'' s3 of (True, r) \<Rightarrow> Ok (r, out1 @ ''}'')
     | (False, s4) \<Rightarrow> (case Consume CHR '','' s4 of (False, _) \<Rightarrow> Err ''missing comma in projected JSON object''
                     | (True, s5) \<Rightarrow> project_members m p obj first1 s5 out1)"
  have tail: "case project_fields p ms of
      Some ms' \<Rightarrow> (\<exists>b'. round (v @ ?x, out1, first1) = Ok (r, out1 @ b' @ ''}'') \<and> members_out n first1 ms' b')
    | None \<Rightarrow> (\<exists>e. round (v @ ?x, out1, first1) = Err e)" if v: "blank v" for v out1 first1
  proof (cases "ms = [] \<and> x = []")
    case True
    then show ?thesis using Consume_next [of "CHR ''}''" v r] v by (auto simp: round_def members_out_def)
  next
    case False
    then obtain w4 b4 where x4: "x = CHR '','' # w4 @ b4" "blank w4" "members_text n ms b4" using b(8) by (auto simp: more_members_def)
    let ?rest = "w4 @ b4 @ CHR ''}'' # r"
    have "round (v @ ?x, out1, first1) = project_members m p obj first1 ?rest out1"
      using Consume_other [of "CHR '',''" "CHR ''}''" v ?rest] Consume_next [of "CHR '',''" "[]" ?rest] v x4(1) by (simp add: round_def)
    then show ?thesis using Cons.IH [OF x4(3) k(2) x4(2), of first1 out1] by (simp only:)
  qed
  have step: "project_members k p obj first (w @ b @ CHR ''}'' # r) out =
      and_then (case ProjectedField p key of
                None \<Rightarrow> and_then (SkipTop (w2 @ t @ w3 @ ?x)) (\<lambda>s3. Ok (s3, out, first))
              | Some f \<Rightarrow>
                  and_then (project_field obj f (w2 @ t @ w3 @ ?x)
                      ((if first then out else out @ '','') @ [CHR 0x22] @ key @ [CHR 0x22, CHR '':'']))
                    (\<lambda>(s3, out1). Ok (s3, out1, False))) round"
    unfolding k(1) project_members.simps key and_then.simps prod.case colon round_def by simp
  show ?case
  proof (cases "ProjectedField p key")
    case None
    have "delim ?x" using x by auto
    then have "delim (w3 @ ?x)" by (rule delim_blank [OF b(6)])
    then have "SkipTop (w2 @ t @ w3 @ ?x) = Ok (w3 @ ?x)"
      using SkipValue_text(1) [OF renders_mono(1) [OF b(7), rule_format, OF assms(2)]] b(5) by simp
    then show ?thesis using step None tail [OF b(6), of out first] b(1) by (cases "project_fields p ms") simp_all
  next
    case (Some f)
    let ?out = "(if first then out else out @ '','') @ [CHR 0x22] @ key @ [CHR 0x22, CHR '':'']"
    have g: "good (child f) (obj (child f))" if "kind f \<noteq> SCALAR" using assms(1) rank_child [OF Some that] by blast
    note pf = project_field_ok [where obj = obj and f = f, OF g assms(2) b(7,5,6) x, of ?out]
    show ?thesis
    proof (cases "project_value f j")
      case None
      then show ?thesis using pf step Some b(1) by auto
    next
      case j': (Some j')
      then obtain t' u v where o: "project_field obj f (w2 @ t @ w3 @ ?x) ?out = Ok (v @ ?x, ?out @ t' @ u)" "renders n j' t'" "blank u" "blank v"
        using pf by auto
      have step': "project_members k p obj first (w @ b @ CHR ''}'' # r) out = round (v @ ?x, ?out @ t' @ u, False)"
        using step Some o(1) by simp
      show ?thesis
      proof (cases "project_fields p ms")
        case None
        then show ?thesis using tail [OF o(4), of "?out @ t' @ u" False] step' Some j' b(1) by simp
      next
        case ms': (Some ms')
        then obtain b' where b': "round (v @ ?x, ?out @ t' @ u, False) = Ok (r, (?out @ t' @ u) @ b' @ ''}'')" "members_out n False ms' b'"
          using tail [OF o(4), of "?out @ t' @ u" False] by auto
        let ?q = "CHR 0x22 # key @ [CHR 0x22]"
        have "key_text key ?q" using ProjectedField_plain [OF Some] by (auto simp: key_text_def)
        then have mt: "members_text n ((key, j') # ms') (?q @ CHR '':'' # t' @ u @ b')"
          using members_join [OF _ o(3,2) members_out_more [OF b'(2)]] by blast
        have pf': "project_fields p (kj # ms) = Some ((key, j') # ms')" using Some j' ms' b(1) by simp
        show ?thesis unfolding pf' option.case
        proof (intro exI conjI)
          show "members_out n first ((key, j') # ms') ((if first then [] else '','') @ ?q @ CHR '':'' # t' @ u @ b')"
            using mt by (auto simp: members_out_def)
          show "project_members k p obj first (w @ b @ CHR ''}'' # r) out = Ok (r, out @ ((if first then [] else '','') @ ?q @ CHR '':'' # t' @ u @ b') @ ''}'')"
            using step' b'(1) by simp
        qed
      qed
    qed
  qed
qed

lemma ProjectObject_good: "rank p < n \<Longrightarrow> good p (ProjectObject n p)"
proof (induction n arbitrary: p)
  case (Suc n)
  have sub: "good c (ProjectObject n c)" if "rank c < rank p" for c using Suc that by simp
  show ?case unfolding good_def
  proof (intro allI impI)
    fix m j t w r out
    assume h: "m \<le> 65" "renders m j t" "blank w" "delim r"
    show "appends (renders m) (project p j) r out (ProjectObject (Suc n) p (w @ t @ r) out)"
    proof (cases "\<exists>ms. j = JObj ms")
      case False
      then have "project p j = None" by (cases j) auto
      moreover have "Consume CHR ''{'' (w @ t @ r) = (False, t @ r)"
        using renders_brackets [OF h(2)] False Consume_other [of "hd t" "CHR ''{''" w "tl t @ r"] h(3) by (cases t) auto
      ultimately show ?thesis by (simp add: appends_def)
    next
      case True
      then obtain ms where j: "j = JObj ms" by blast
      obtain m' w1 where m: "m = Suc m'" "blank w1" and c: "ms = [] \<and> t = CHR ''{'' # w1 @ ''}'' \<or> (\<exists>b. t = CHR ''{'' # w1 @ b @ ''}'' \<and> members_text m' ms b)"
        using h(2) unfolding j by (elim renders_ObjE) auto
      have o: "Consume CHR ''{'' (w @ CHR ''{'' # x) = (True, x)" for x using Consume_next h(3) by simp
      show ?thesis
      proof (cases "ms = [] \<and> t = CHR ''{'' # w1 @ ''}''")
        case True
        then show ?thesis using o Consume_next [of "CHR ''}''" w1 r] m r_object0 [of "[]" m'] j by (auto simp: appends_def)
      next
        case False
        then obtain b where b: "t = CHR ''{'' # w1 @ b @ ''}''" "members_text m' ms b" using c by blast
        have l: "length ms \<le> length b" "b \<noteq> []" "hd b = CHR 0x22" using text_lengths(2) [OF b(2)] by auto
        then have "Consume CHR ''}'' (w1 @ b @ CHR ''}'' # r) = (False, b @ CHR ''}'' # r)"
          using Consume_other [of "hd b" "CHR ''}''" w1 "tl b @ CHR ''}'' # r"] m(2) by (cases b) auto
        then have e: "ProjectObject (Suc n) p (w @ t @ r) out =
            project_members (Suc (length (b @ CHR ''}'' # r))) p (ProjectObject n) True ([] @ b @ CHR ''}'' # r) (out @ ''{'')"
          using o b(1) by (simp del: project_members.simps)
        have "case project_fields p ms of
            Some ms' \<Rightarrow> (\<exists>b'. ProjectObject (Suc n) p (w @ t @ r) out = Ok (r, (out @ ''{'') @ b' @ ''}'') \<and> members_out m' True ms' b')
          | None \<Rightarrow> (\<exists>e. ProjectObject (Suc n) p (w @ t @ r) out = Err e)"
          unfolding e by (rule project_members_ok [OF sub _ b(2)]) (use m h(1) l(1) in auto)
        moreover have "renders m (JObj ms') (CHR ''{'' # b' @ ''}'')" if "members_out m' True ms' b'" for ms' b'
          using that r_object [of "[]" m' ms' b'] r_object0 [of "[]" m'] m(1) by (auto simp: members_out_def split: if_splits)
        ultimately show ?thesis unfolding j by (cases "project_fields p ms") (auto simp: appends_def)
      qed
    qed
  qed
qed simp

section \<open>The envelope\<close>

text \<open>The last value of a key wins.\<close>

fun last_value :: "string \<Rightarrow> (string \<times> json) list \<Rightarrow> json option \<Rightarrow> json option" where
  "last_value key [] old = old"
| "last_value key ((k, j) # ms) old = last_value key ms (if k = key then Some j else old)"

definition span_ok :: "string \<Rightarrow> nat \<Rightarrow> span \<Rightarrow> json option \<Rightarrow> bool" where
  "span_ok response n sp jo \<longleftrightarrow>
     (case sp of
        None \<Rightarrow> jo = None
      | Some (a, b) \<Rightarrow> (\<exists>j t u. jo = Some j \<and> take (b - a) (drop a response) = t @ u \<and> renders n j t \<and> blank u))"

lemma span_text:
  assumes "response = pre @ t @ u @ x"
  shows "take ((length response - length x) - (length response - length (t @ u @ x))) (drop (length response - length (t @ u @ x)) response) = t @ u"
  unfolding assms by simp

lemma envelope_members_ok:
  assumes "n \<le> 65"
  shows "members_text n ms b \<Longrightarrow> length ms \<le> k \<Longrightarrow> blank w \<Longrightarrow> response = pre @ w @ b @ CHR ''}'' # r \<Longrightarrow>
    span_ok response n rs jr \<Longrightarrow> span_ok response n es je \<Longrightarrow>
    \<exists>rs' es'. envelope_members k (length response) (w @ b @ CHR ''}'' # r) rs es = Ok (r, rs', es') \<and>
      span_ok response n rs' (last_value ''result'' ms jr) \<and> span_ok response n es' (last_value ''error'' ms je)"
proof (induction ms arbitrary: b w k rs es jr je pre)
  case Nil
  then show ?case using text_lengths(2) by (fastforce elim: members_textE)
next
  case (Cons kj ms)
  obtain key j q w1 w2 t w3 x where b: "kj = (key, j)" "b = q @ w1 @ CHR '':'' # w2 @ t @ w3 @ x" "key_text key q"
    "blank w1" "blank w2" "blank w3" "renders n j t" "more_members n ms x"
    using Cons.prems(1) by (elim members_step) auto
  obtain m where k: "k = Suc m" "length ms \<le> m" using Cons.prems(2) by (auto simp: Suc_le_ex)
  let ?x = "x @ CHR ''}'' # r"
  obtain c x' where x: "?x = c # x'" "c \<in> {CHR '','', CHR ''}''}" using b(8) by (auto simp: more_members_def)
  have "delim ?x" using x by auto
  then have "delim (w3 @ ?x)" by (rule delim_blank [OF b(6)])
  then have skip: "SkipTop (t @ w3 @ ?x) = Ok (w3 @ ?x)"
    using SkipValue_text(1) [OF renders_mono(1) [OF b(7), rule_format, OF assms], rule_format, of "[]"] by simp
  have key: "JsonString (w @ b @ CHR ''}'' # r) = Ok (key, w1 @ CHR '':'' # w2 @ t @ w3 @ ?x)"
    using JsonString_complete [OF b(3) Cons.prems(3)] b(2) by simp
  have colon: "Consume CHR '':'' (w1 @ CHR '':'' # w2 @ t @ w3 @ ?x) = (True, w2 @ t @ w3 @ ?x)" using Consume_next b(4) by simp
  have blanks: "Whitespace (w2 @ t @ w3 @ ?x) = t @ w3 @ ?x" "Whitespace (w3 @ ?x) = ?x"
    using renders_brackets [OF b(7)] b(5,6) x by (cases t; auto)+
  define here where "here = Some (length response - length (t @ w3 @ ?x), length response - length ?x)"
  define rs1 where "rs1 = (if key = ''result'' then here else rs)"
  define es1 where "es1 = (if key = ''error'' then here else es)"
  have res: "response = (pre @ w @ q @ w1 @ CHR '':'' # w2) @ t @ w3 @ ?x" using Cons.prems(4) b(2) by simp
  have "span_ok response n here (Some j)" unfolding span_ok_def here_def using span_text [OF res] b(6,7) by auto
  then have so: "span_ok response n rs1 (if key = ''result'' then Some j else jr)" "span_ok response n es1 (if key = ''error'' then Some j else je)"
    using Cons.prems(5,6) by (auto simp: rs1_def es1_def)
  have step: "envelope_members k (length response) (w @ b @ CHR ''}'' # r) rs es =
      (case Consume CHR ''}'' ?x of
         (True, r) \<Rightarrow> Ok (r, rs1, es1)
       | (False, s6) \<Rightarrow>
           (case Consume CHR '','' s6 of
              (False, _) \<Rightarrow> Err INVALID_RPC
            | (True, s7) \<Rightarrow> envelope_members m (length response) s7 rs1 es1))"
    unfolding k(1) envelope_members.simps key Result.case prod.case colon bool.case Let_def blanks skip here_def rs1_def es1_def by simp
  show ?case
  proof (cases "ms = [] \<and> x = []")
    case True
    then show ?thesis using step so b(1) Consume_next [of "CHR ''}''" "[]" r] by simp
  next
    case False
    then obtain w4 b4 where x4: "x = CHR '','' # w4 @ b4" "blank w4" "members_text n ms b4" using b(8) by (auto simp: more_members_def)
    let ?rest = "w4 @ b4 @ CHR ''}'' # r"
    have "envelope_members k (length response) (w @ b @ CHR ''}'' # r) rs es = envelope_members m (length response) ?rest rs1 es1"
      using step Consume_other [of "CHR '',''" "CHR ''}''" "[]" ?rest] Consume_next [of "CHR '',''" "[]" ?rest] x4(1) by simp
    moreover have "response = (pre @ w @ q @ w1 @ CHR '':'' # w2 @ t @ w3 @ '','') @ ?rest" using res x4(1) by simp
    ultimately show ?thesis using Cons.IH [OF x4(3) k(2) x4(2) _ so] b(1) by auto
  qed
qed

lemma number_last:
  assumes "number_text t"
  shows "is_digit (last t)"
proof -
  obtain m i f e where t: "t = m @ i @ f @ e" "int_text i" "frac_text f" "exp_text e" using assms by (auto simp: number_text_def)
  have d: "is_digit (last ds)" if "digits ds" for ds using that last_in_set by blast
  have "i \<noteq> []" "is_digit (last i)" using t(2) d [of i] by (auto simp: int_text_def is_digit_def)
  moreover have "f \<noteq> [] \<Longrightarrow> is_digit (last f)" using t(3) d by (auto simp: frac_text_def)
  moreover have "e \<noteq> [] \<Longrightarrow> is_digit (last e)" using t(4) d by (auto simp: exp_text_def)
  ultimately show ?thesis using t(1) by (auto simp: last_append)
qed

lemma renders_ends: "renders n j t \<Longrightarrow> t \<noteq> [] \<and> \<not> is_space (hd t) \<and> \<not> is_space (last t)"
proof (cases j)
  case (JText x)
  assume "renders n j t"
  then have s: "scalar_text t" using JText by (auto elim: renders_TextE)
  then consider (num) "number_text t" | (lit) "t \<in> {''true'', ''false'', ''null''}" | (str) b where "t = CHR 0x22 # b @ [CHR 0x22]"
    by (auto simp: scalar_text_def)
  then show ?thesis
  proof cases
    case num
    then show ?thesis using number_head [OF num] number_last [OF num] by (auto simp: is_space_def ws_def is_digit_def)
  qed (auto simp: is_space_def ws_def)
qed (auto elim!: renders_ObjE renders_ArrE simp: is_space_def ws_def)

lemma Trim_text: "renders n j t \<Longrightarrow> blank u \<Longrightarrow> Trim (t @ u) = t"
proof -
  assume r: "renders n j t" and u: "blank u"
  note e = renders_ends [OF r]
  have 1: "dropWhile is_space (t @ u) = t @ u" using e by (cases t) auto
  have "\<forall>c \<in> set (rev u). is_space c" using u by (auto simp: is_space_def)
  then have "dropWhile is_space (rev u @ rev t) = dropWhile is_space (rev t)" by (simp add: dropWhile_append)
  moreover have "dropWhile is_space (rev t) = rev t" using e by (cases t rule: rev_cases) auto
  ultimately show ?thesis by (simp add: Trim_def 1)
qed

lemma renders_null: "renders n j t \<Longrightarrow> t = ''null'' \<longleftrightarrow> j = JText ''null''"
  using renders_brackets [of n j t] by (cases j) (auto elim: renders_TextE)

section \<open>Properties\<close>

text \<open>C25: The streaming projection of a \<open>getblock\<close> answer computes the projection of the JSON tree: for every text of a
  tree it succeeds exactly when every selected array field is an array and every selected object field
  an object, and the text it returns is then a text of the tree with exactly the selected fields, in
  order and with their values; otherwise it is an error.\<close>

theorem ProjectVerboseBlock_correct:
  assumes "renders 65 j t" "blank w" "blank w'"
  shows "case project BLOCK j of
      Some j' \<Rightarrow> (\<exists>out. ProjectVerboseBlock (w @ t @ w') = Ok out \<and> renders 65 j' out)
    | None \<Rightarrow> (\<exists>e. ProjectVerboseBlock (w @ t @ w') = Err e)"
proof -
  have "delim w'" using delim_blank [OF assms(3) delims(4)] by simp
  then have "appends (renders 65) (project BLOCK j) w' [] (ProjectObject 5 BLOCK (w @ t @ w') [])"
    using goodD [OF ProjectObject_good _ assms(1,2)] by simp
  then show ?thesis using assms(3) by (cases "project BLOCK j") (auto simp: appends_def ProjectVerboseBlock_def Finished_blank)
qed

text \<open>C26: The envelope of a JSON-RPC answer is read right: for every text of an object the error member decides first
  (its last value, unless it is \<open>null\<close>, becomes the error message), then a missing result is an error,
  and otherwise the returned slice is the text of the last \<open>result\<close> value.\<close>

theorem ExtractJsonRpcResult_correct:
  assumes "renders 66 (JObj ms) t" "blank w" "blank w'"
  shows "if last_value ''error'' ms None \<notin> {None, Some (JText ''null'')}
    then \<exists>x. ExtractJsonRpcResult (w @ t @ w') = Err (''Bitcoin Core RPC error: '' @ x) \<and> renders 65 (the (last_value ''error'' ms None)) x
    else (case last_value ''result'' ms None of
            None \<Rightarrow> ExtractJsonRpcResult (w @ t @ w') = Err ''Bitcoin Core RPC response has no result''
          | Some j \<Rightarrow> \<exists>v x u. ExtractJsonRpcResult (w @ t @ w') = Ok v \<and> raw_json v = w @ t @ w' \<and> raw_Value v = x @ u \<and>
                        renders 65 j x \<and> blank u)"
proof -
  let ?s = "w @ t @ w'"
  obtain w1 where w1: "blank w1" and c: "ms = [] \<and> t = CHR ''{'' # w1 @ ''}'' \<or> (\<exists>b. t = CHR ''{'' # w1 @ b @ ''}'' \<and> members_text 65 ms b)"
    using assms(1) by (elim renders_ObjE) auto
  have "\<exists>s rs es. Consume CHR ''{'' ?s = (True, s) \<and>
      (case Consume CHR ''}'' s of (True, r) \<Rightarrow> Ok (r, None, None)
       | (False, s1) \<Rightarrow> envelope_members (Suc (length s1)) (length ?s) s1 None None) = Ok (w', rs, es) \<and>
      span_ok ?s 65 rs (last_value ''result'' ms None) \<and> span_ok ?s 65 es (last_value ''error'' ms None)"
  proof (cases "ms = [] \<and> t = CHR ''{'' # w1 @ ''}''")
    case True
    then show ?thesis using Consume_next [of "CHR ''{''" w] Consume_next [of "CHR ''}''" w1 w'] assms(2) w1 by (simp add: span_ok_def)
  next
    case False
    then obtain b where b: "t = CHR ''{'' # w1 @ b @ ''}''" "members_text 65 ms b" using c by blast
    have l: "length ms \<le> length b" "b \<noteq> []" "hd b = CHR 0x22" using text_lengths(2) [OF b(2)] by auto
    have "Consume CHR ''}'' (w1 @ b @ CHR ''}'' # w') = (False, b @ CHR ''}'' # w')"
      using Consume_other [of "hd b" "CHR ''}''" w1 "tl b @ CHR ''}'' # w'"] w1 l by (cases b) auto
    moreover have "Consume CHR ''{'' ?s = (True, w1 @ b @ CHR ''}'' # w')" using Consume_next [of "CHR ''{''" w] assms(2) b(1) by simp
    moreover have "?s = (w @ CHR ''{'' # w1) @ [] @ b @ CHR ''}'' # w'" using b(1) by simp
    moreover have "span_ok ?s 65 None None" by (simp add: span_ok_def)
    ultimately show ?thesis
      using envelope_members_ok [OF _ b(2), of "Suc (length (b @ CHR ''}'' # w'))" "[]" ?s "w @ CHR ''{'' # w1" w' None None None None] l(1)
      by (auto simp del: envelope_members.simps)
  qed
  then obtain s rs es where e: "Consume CHR ''{'' ?s = (True, s)"
      "(case Consume CHR ''}'' s of (True, r) \<Rightarrow> Ok (r, None, None)
       | (False, s1) \<Rightarrow> envelope_members (Suc (length s1)) (length ?s) s1 None None) = Ok (w', rs, es)"
      "span_ok ?s 65 rs (last_value ''result'' ms None)" "span_ok ?s 65 es (last_value ''error'' ms None)" by blast
  define msg where "msg = (case es of None \<Rightarrow> ''null'' | Some (a, b) \<Rightarrow> Trim (take (b - a) (drop a ?s)))"
  have x: "ExtractJsonRpcResult ?s =
      (if msg \<noteq> ''null'' then Err (''Bitcoin Core RPC error: '' @ msg)
       else case rs of None \<Rightarrow> Err ''Bitcoin Core RPC response has no result''
            | Some (a, b) \<Rightarrow> Ok \<lparr>raw_json = ?s, value_offset = a, value_size = b - a\<rparr>)"
    unfolding ExtractJsonRpcResult_def e(1) prod.case bool.case e(2) and_then.simps Let_def msg_def using assms(3) by (simp add: Finished_blank)
  have m: "case last_value ''error'' ms None of None \<Rightarrow> msg = ''null'' | Some j \<Rightarrow> renders 65 j msg"
    using e(4) Trim_text by (auto simp: msg_def span_ok_def simp del: take_append drop_append split: option.splits)
  have "msg = ''null'' \<longleftrightarrow> last_value ''error'' ms None \<in> {None, Some (JText ''null'')}"
    using m renders_null by (cases "last_value ''error'' ms None") auto
  then show ?thesis using x m e(3) by (auto simp: span_ok_def raw_Value_def simp del: take_append drop_append split: option.splits) blast+
qed

section \<open>Witnesses\<close>

definition example_block :: json where
  "example_block = JObj [(''hash'', JText (CHR 0x22 # ''ab'' @ [CHR 0x22])), (''size'', JText ''12''), (''tx'', JArr [])]"

definition example_text :: string where
  "example_text = CHR ''{'' # (CHR 0x22 # ''hash'' @ [CHR 0x22]) @ CHR '':'' # (CHR 0x22 # ''ab'' @ [CHR 0x22]) @ CHR '','' #
     (CHR 0x22 # ''size'' @ [CHR 0x22]) @ CHR '':'' # ''12'' @ CHR '','' # (CHR 0x22 # ''tx'' @ [CHR 0x22]) @ CHR '':'' # ''[]'' @ ''}''"

lemma plain_key: "\<forall>c \<in> set k. plain c \<Longrightarrow> key_text k (CHR 0x22 # k @ [CHR 0x22])"
proof -
  have "\<forall>c \<in> set k. plain c \<Longrightarrow> key_body k k" by (induction k) (auto intro: key_body.intros)
  then show "\<forall>c \<in> set k. plain c \<Longrightarrow> key_text k (CHR 0x22 # k @ [CHR 0x22])" by (auto simp: key_text_def)
qed

lemma plain_scalar: "\<forall>c \<in> set b. plain c \<Longrightarrow> scalar_text (CHR 0x22 # b @ [CHR 0x22])"
proof -
  have "\<forall>c \<in> set b. plain c \<Longrightarrow> str_body b" by (induction b) (auto intro: str_body.intros)
  then show "\<forall>c \<in> set b. plain c \<Longrightarrow> scalar_text (CHR 0x22 # b @ [CHR 0x22])" by (auto simp: scalar_text_def)
qed

lemma example_renders: "renders (Suc (Suc n)) example_block example_text"
proof -
  have tx: "members_text (Suc n) [(''tx'', JArr [])] ((CHR 0x22 # ''tx'' @ [CHR 0x22]) @ CHR '':'' # ''[]'')"
    using members_join [OF plain_key _ r_array0, of "''tx''" "[]" "[]" n "[]" "[]"] by (simp add: plain_def more_members_def)
  have "number_text ''12''"
    unfolding number_text_def
    by (rule exI [of _ "[]"], rule exI [of _ "''12''"], rule exI [of _ "[]"], rule exI [of _ "[]"])
      (simp add: int_text_def frac_text_def exp_text_def is_digit_def)
  then have "renders (Suc n) (JText ''12'') ''12''" using r_scalar by (simp add: scalar_text_def)
  then have size: "members_text (Suc n) [(''size'', JText ''12''), (''tx'', JArr [])]
      ((CHR 0x22 # ''size'' @ [CHR 0x22]) @ CHR '':'' # ''12'' @ CHR '','' # (CHR 0x22 # ''tx'' @ [CHR 0x22]) @ CHR '':'' # ''[]'')"
    using m_more [OF plain_key, of "''size''" "[]" "[]" "Suc n" "JText ''12''" "''12''" "[]" "[]", OF _ _ _ _ _ _ tx] by (simp add: plain_def)
  have "renders (Suc n) (JText (CHR 0x22 # ''ab'' @ [CHR 0x22])) (CHR 0x22 # ''ab'' @ [CHR 0x22])" by (rule r_scalar, rule plain_scalar) (simp add: plain_def)
  then have "members_text (Suc n) [(''hash'', JText (CHR 0x22 # ''ab'' @ [CHR 0x22])), (''size'', JText ''12''), (''tx'', JArr [])]
      (tl (butlast example_text))"
    using m_more [OF plain_key, of "''hash''" "[]" "[]" "Suc n" "JText (CHR 0x22 # ''ab'' @ [CHR 0x22])" "CHR 0x22 # ''ab'' @ [CHR 0x22]" "[]" "[]", OF _ _ _ _ _ _ size]
    by (simp add: plain_def example_text_def)
  then show ?thesis using r_object [of "[]" "Suc n" _ "tl (butlast example_text)"] by (simp add: example_block_def example_text_def)
qed

theorem ProjectVerboseBlock_correct_witness:
  "\<exists>out. ProjectVerboseBlock ('' '' @ example_text @ [CHR 0x0A]) = Ok out \<and>
     renders 65 (JObj [(''hash'', JText (CHR 0x22 # ''ab'' @ [CHR 0x22])), (''tx'', JArr [])]) out"
proof -
  have "renders 65 example_block example_text" using example_renders [of 63] by (simp add: eval_nat_numeral)
  moreover have "project BLOCK example_block = Some (JObj [(''hash'', JText (CHR 0x22 # ''ab'' @ [CHR 0x22])), (''tx'', JArr [])])"
    by (simp add: example_block_def ProjectedField_def)
  ultimately show ?thesis using ProjectVerboseBlock_correct [of example_block example_text "'' ''" "[CHR 0x0A]"] by (simp add: ws_def)
qed

theorem ExtractJsonRpcResult_correct_witness:
  "ExtractJsonRpcResult example_text = Err ''Bitcoin Core RPC response has no result''"
proof -
  define ms where "ms = [(''hash'', JText (CHR 0x22 # ''ab'' @ [CHR 0x22])), (''size'', JText ''12''), (''tx'', JArr [])]"
  have "renders 66 (JObj ms) example_text" using example_renders [of 64] by (simp add: eval_nat_numeral example_block_def ms_def)
  moreover have "last_value ''error'' ms None = None" "last_value ''result'' ms None = None" by (simp_all add: ms_def)
  ultimately show ?thesis using ExtractJsonRpcResult_correct [of ms example_text "[]" "[]"] by simp
qed

end
