(* ===== verification/Wire.thy ===== *)
theory Wire
  imports Bytes
begin

unbundle bit_operations_syntax

text \<open>
  Wire primitives (\<open>AppendCompactSize\<close> and the class \<open>Reader\<close> of \<^verbatim>\<open>src/src/transaction_wire.cpp\<close>; the
  same \<open>AppendLE\<close> and \<open>AppendCompactSize\<close> are in \<^verbatim>\<open>leaf.cpp\<close> and \<^verbatim>\<open>bridge_wire.cpp\<close>). A reader takes the
  unread bytes and returns a value with the bytes after it, or \<open>None\<close> where the method returns
  \<open>false\<close>; \<open>Remaining()\<close> is the length of the unread bytes and \<open>Offset()\<close> what has been read of the
  whole. An appending function returns the bytes it appends. The interface between writers and
  readers is the locale \<open>codec\<close>: the reader accepts exactly what the writer produces.
\<close>

section \<open>Writers and readers\<close>

type_synonym 'a reader = "byte list \<Rightarrow> ('a \<times> byte list) option"

definition CompactSizeBytes :: "u64 \<Rightarrow> u64" where
  "CompactSizeBytes v = (if v < 253 then 1 else if v \<le> 0xffff then 3 else if v \<le> 0xffffffff then 5 else 9)"

definition AppendCompactSize :: "u64 \<Rightarrow> byte list" where
  "AppendCompactSize v =
     (if v < 253 then [ucast v]
      else if v \<le> 0xffff then 253 # write_le 2 (ucast v :: u16)
      else if v \<le> 0xffffffff then 254 # write_le 4 (ucast v :: u32)
      else 255 # write_le 8 v)"

definition LE :: "nat \<Rightarrow> 'a::len word reader" where
  "LE n bs = (if length bs < n then None else Some (read_le (take n bs), drop n bs))"

definition CompactSize :: "u64 reader" where
  "CompactSize bs =
     (case LE 1 bs of
        None \<Rightarrow> None
      | Some (prefix :: u8, bs1) \<Rightarrow>
          if prefix < 253 then Some (ucast prefix, bs1)
          else if prefix = 253
          then (case LE 2 bs1 of
                  None \<Rightarrow> None
                | Some (number :: u16, bs2) \<Rightarrow> if number < 253 then None else Some (ucast number, bs2))
          else if prefix = 254
          then (case LE 4 bs1 of
                  None \<Rightarrow> None
                | Some (number :: u32, bs2) \<Rightarrow> if number \<le> 0xffff then None else Some (ucast number, bs2))
          else (case LE 8 bs1 of
                  None \<Rightarrow> None
                | Some (value :: u64, bs2) \<Rightarrow> if value > 0xffffffff then Some (value, bs2) else None))"

definition Skip :: "nat \<Rightarrow> unit reader" where
  "Skip n bs = (if n > length bs then None else Some ((), drop n bs))"

definition ReadHash :: "hash256 reader" where
  "ReadHash bs = (if length bs < 32 then None else Some (Hash256 (take 32 bs), drop 32 bs))"

fun read_many :: "nat \<Rightarrow> 'a reader \<Rightarrow> 'a list reader" where
  "read_many 0 dec bs = Some ([], bs)"
| "read_many (Suc n) dec bs =
     (case dec bs of
        None \<Rightarrow> None
      | Some (a, bs1) \<Rightarrow> (case read_many n dec bs1 of None \<Rightarrow> None | Some (xs, bs2) \<Rightarrow> Some (a # xs, bs2)))"

section \<open>The interface\<close>

locale codec =
  fixes enc :: "'a \<Rightarrow> byte list" and dec :: "'a reader" and valid :: "'a \<Rightarrow> bool"
  assumes dec_iff: "dec bs = Some (a, rest) \<longleftrightarrow> valid a \<and> bs = enc a @ rest"
begin

lemma dec_enc: "valid a \<Longrightarrow> dec (enc a @ rest) = Some (a, rest)"
  by (simp add: dec_iff)

lemma prefix_free: "valid a \<Longrightarrow> valid b \<Longrightarrow> enc a @ r = enc b @ s \<Longrightarrow> a = b \<and> r = s"
  by (metis dec_enc option.inject prod.inject)

lemma enc_inject: "valid a \<Longrightarrow> valid b \<Longrightarrow> enc a = enc b \<Longrightarrow> a = b"
  using prefix_free [of a b "[]" "[]"] by simp

lemma read_many_iff:
  "read_many n dec bs = Some (xs, rest) \<longleftrightarrow>
     length xs = n \<and> (\<forall>a \<in> set xs. valid a) \<and> bs = concat (map enc xs) @ rest"
proof (induction n arbitrary: bs xs)
  case (Suc n)
  show ?case
  proof
    assume "read_many (Suc n) dec bs = Some (xs, rest)"
    then obtain a bs1 ys where "dec bs = Some (a, bs1)" "read_many n dec bs1 = Some (ys, rest)" "xs = a # ys"
      by (auto split: option.splits)
    then show "length xs = Suc n \<and> (\<forall>a \<in> set xs. valid a) \<and> bs = concat (map enc xs) @ rest"
      using Suc.IH by (auto simp: dec_iff)
  next
    assume r: "length xs = Suc n \<and> (\<forall>a \<in> set xs. valid a) \<and> bs = concat (map enc xs) @ rest"
    then obtain a ys where "xs = a # ys" by (cases xs) auto
    then show "read_many (Suc n) dec bs = Some (xs, rest)"
      using r Suc.IH [of "concat (map enc ys) @ rest" ys] by (simp add: dec_enc)
  qed
qed auto

lemma read_many_enc: "\<forall>a \<in> set xs. valid a \<Longrightarrow> read_many (length xs) dec (concat (map enc xs) @ rest) = Some (xs, rest)"
  by (simp add: read_many_iff)

end

text \<open>Two fields in sequence.\<close>

definition pair_enc :: "('a \<Rightarrow> byte list) \<Rightarrow> ('b \<Rightarrow> byte list) \<Rightarrow> 'a \<times> 'b \<Rightarrow> byte list" where
  "pair_enc f g = (\<lambda>(a, b). f a @ g b)"

definition pair_dec :: "'a reader \<Rightarrow> 'b reader \<Rightarrow> ('a \<times> 'b) reader" where
  "pair_dec f g bs =
     (case f bs of None \<Rightarrow> None
      | Some (a, bs1) \<Rightarrow> (case g bs1 of None \<Rightarrow> None | Some (b, bs2) \<Rightarrow> Some ((a, b), bs2)))"

lemma codec_pair:
  assumes "codec f df P" "codec g dg Q"
  shows "codec (pair_enc f g) (pair_dec df dg) (\<lambda>(a, b). P a \<and> Q b)"
proof
  fix bs and ab :: "'a \<times> 'b" and rest
  obtain a b where ab: "ab = (a, b)" by (cases ab)
  have "pair_dec df dg bs = Some (ab, rest) \<longleftrightarrow> (\<exists>bs1. df bs = Some (a, bs1) \<and> dg bs1 = Some (b, rest))"
    by (auto simp: pair_dec_def ab split: option.splits)
  also have "\<dots> \<longleftrightarrow> (P a \<and> Q b) \<and> bs = f a @ g b @ rest"
    unfolding codec.dec_iff [OF assms(1)] codec.dec_iff [OF assms(2)] by blast
  finally show "pair_dec df dg bs = Some (ab, rest) \<longleftrightarrow> (case ab of (a, b) \<Rightarrow> P a \<and> Q b) \<and> bs = pair_enc f g ab @ rest"
    by (simp add: pair_enc_def ab)
qed

section \<open>The primitives satisfy it\<close>

lemma LE_iff:
  assumes "LENGTH('a) = 8 * n"
  shows "LE n bs = Some (v :: 'a::len word, rest) \<longleftrightarrow> bs = write_le n v @ rest"
proof
  assume "LE n bs = Some (v, rest)"
  then have l: "n \<le> length bs" "v = read_le (take n bs)" "rest = drop n bs" by (auto simp: LE_def split: if_splits)
  then have "write_le n v = take n bs" using write_le_read_le [of "take n bs" n, where 'a = 'a] assms by simp
  then show "bs = write_le n v @ rest" using l by simp
next
  assume "bs = write_le n v @ rest"
  then show "LE n bs = Some (v, rest)" using assms by (simp add: LE_def read_le_write_le take_bit_word_eq_self)
qed

lemma ucast_u64_small:
  assumes "unat (v :: u64) < 2 ^ LENGTH('a)" "LENGTH('a) \<le> 64"
  shows "unat (ucast v :: 'a::len word) = unat v"
  using assms(1) by (simp add: unsigned_ucast_eq take_bit_nat_eq_self)

lemma ucast_back:
  "unat v < 2 ^ 16 \<Longrightarrow> ucast (ucast v :: u16) = (v :: u64)" "unat v < 2 ^ 32 \<Longrightarrow> ucast (ucast v :: u32) = (v :: u64)"
  "unat v < 2 ^ 8 \<Longrightarrow> ucast (ucast v :: u8) = (v :: u64)"
  by (simp_all add: word_unat_eq_iff ucast_u64_small)

lemma and_byte_mask [simp]: "b AND 255 = (b :: u8)"
proof -
  have "(255 :: u8) = - 1" by simp
  then show ?thesis by (simp only: and.right_neutral)
qed

lemma LE_widths:
  "LE 1 bs = Some (b :: u8, rest) \<longleftrightarrow> bs = b # rest"
  "LE 2 bs = Some (n2 :: u16, rest) \<longleftrightarrow> bs = write_le 2 n2 @ rest"
  "LE 4 bs = Some (n4 :: u32, rest) \<longleftrightarrow> bs = write_le 4 n4 @ rest"
  "LE 8 bs = Some (n8 :: u64, rest) \<longleftrightarrow> bs = write_le 8 n8 @ rest"
  using LE_iff [of 1 bs b rest] LE_iff [of 2 bs n2 rest] LE_iff [of 4 bs n4 rest] LE_iff [of 8 bs n8 rest] by simp_all

lemma ucast_down_up [simp]:
  "ucast (ucast (x :: u8) :: u64) = x" "ucast (ucast (y :: u16) :: u64) = y" "ucast (ucast (z :: u32) :: u64) = z"
  using unat_u8_less [of x] unat_u16_less [of y] unat_u32_less [of z]
  by (simp_all add: word_unat_eq_iff ucast_u64_small)

lemma CompactSize_cases:
  assumes "CompactSize bs = Some (v, rest)"
  obtains (one) p :: u8 where "p < 253" "v = ucast p" "bs = p # rest"
  | (two) n :: u16 where "\<not> n < 253" "v = ucast n" "bs = 253 # write_le 2 n @ rest"
  | (four) m :: u32 where "\<not> m \<le> 0xffff" "v = ucast m" "bs = 254 # write_le 4 m @ rest"
  | (eight) "v > 0xffffffff" "bs = 255 # write_le 8 v @ rest"
proof -
  obtain p :: u8 and bs1 where p: "LE 1 bs = Some (p, bs1)"
    using assms by (auto simp: CompactSize_def split: option.splits)
  then have bs: "bs = p # bs1" by (simp only: LE_widths)
  consider "p < 253" | "p = 253" | "p = 254" | "p = 255"
  proof -
    have "unat p < 253 \<or> unat p = 253 \<or> unat p = 254 \<or> unat p = 255" using unat_u8_less [of p] by auto
    then show ?thesis using that by (auto simp: word_less_nat_alt word_unat_eq_iff)
  qed
  then show thesis
  proof cases
    case 1
    then show ?thesis using one [of p] assms p bs by (simp add: CompactSize_def)
  next
    case 2
    then obtain n :: u16 where "LE 2 bs1 = Some (n, rest)" "\<not> n < 253" "v = ucast n"
      using assms p by (auto simp: CompactSize_def split: option.splits if_splits)
    then show ?thesis using two [of n] 2 bs by (simp only: LE_widths) simp
  next
    case 3
    then obtain n :: u32 where "LE 4 bs1 = Some (n, rest)" "\<not> n \<le> 0xffff" "v = ucast n"
      using assms p by (auto simp: CompactSize_def split: option.splits if_splits)
    then show ?thesis using four [of n] 3 bs by (simp only: LE_widths) simp
  next
    case 4
    then have "LE 8 bs1 = Some (v, rest)" "v > 0xffffffff"
      using assms p by (auto simp: CompactSize_def split: option.splits if_splits)
    then show ?thesis using eight 4 bs by (simp only: LE_widths)
  qed
qed

lemma CompactSize_iff: "CompactSize bs = Some (v, rest) \<longleftrightarrow> bs = AppendCompactSize v @ rest"
proof
  assume "CompactSize bs = Some (v, rest)"
  then show "bs = AppendCompactSize v @ rest"
  proof (cases rule: CompactSize_cases)
    case (one p)
    then show ?thesis by (simp add: AppendCompactSize_def word_less_nat_alt)
  next
    case (two n)
    then show ?thesis using unat_u16_less [of n] by (simp add: AppendCompactSize_def word_less_nat_alt word_le_nat_alt)
  next
    case (four m)
    then show ?thesis using unat_u32_less [of m] by (simp add: AppendCompactSize_def word_less_nat_alt word_le_nat_alt)
  next
    case eight
    then show ?thesis by (simp add: AppendCompactSize_def word_less_nat_alt word_le_nat_alt)
  qed
next
  assume bs: "bs = AppendCompactSize v @ rest"
  consider (a) "unat v < 253" | (b) "253 \<le> unat v" "unat v \<le> 0xffff" | (c) "0xffff < unat v" "unat v \<le> 0xffffffff" | (d) "0xffffffff < unat v"
    by linarith
  then show "CompactSize bs = Some (v, rest)"
  proof cases
    case a
    then have l: "LE 1 bs = Some (ucast v :: u8, rest)" using bs LE_widths(1) by (simp add: AppendCompactSize_def word_less_nat_alt)
    have "unat (ucast v :: u8) = unat v" using a by (intro ucast_u64_small) simp_all
    then show ?thesis using a l ucast_back(3) [of v] by (simp add: CompactSize_def word_less_nat_alt)
  next
    case b
    let ?n = "ucast v :: u16"
    have "bs = 253 # (write_le 2 ?n @ rest)" using bs b by (simp add: AppendCompactSize_def word_less_nat_alt word_le_nat_alt)
    then have l: "LE 1 bs = Some (253 :: u8, write_le 2 ?n @ rest)" "LE 2 (write_le 2 ?n @ rest) = Some (?n, rest)" using LE_widths by simp_all
    have "unat ?n = unat v" using b by (intro ucast_u64_small) simp_all
    then show ?thesis using b l ucast_back(1) [of v] by (simp add: CompactSize_def word_less_nat_alt)
  next
    case c
    let ?n = "ucast v :: u32"
    have "bs = 254 # (write_le 4 ?n @ rest)" using bs c by (simp add: AppendCompactSize_def word_less_nat_alt word_le_nat_alt)
    then have l: "LE 1 bs = Some (254 :: u8, write_le 4 ?n @ rest)" "LE 4 (write_le 4 ?n @ rest) = Some (?n, rest)" using LE_widths by simp_all
    have "unat ?n = unat v" using c by (intro ucast_u64_small) simp_all
    then show ?thesis using c l ucast_back(2) [of v] by (simp add: CompactSize_def word_less_nat_alt word_le_nat_alt)
  next
    case d
    have "bs = 255 # (write_le 8 v @ rest)" using bs d by (simp add: AppendCompactSize_def word_less_nat_alt word_le_nat_alt)
    then have l: "LE 1 bs = Some (255 :: u8, write_le 8 v @ rest)" "LE 8 (write_le 8 v @ rest) = Some (v, rest)" using LE_widths by simp_all
    then show ?thesis using d by (simp add: CompactSize_def word_less_nat_alt)
  qed
qed

interpretation compact: codec AppendCompactSize CompactSize "\<lambda>_. True"
  by unfold_locales (simp add: CompactSize_iff)

interpretation u8le: codec "\<lambda>b :: u8. [b]" "LE 1" "\<lambda>_. True"
  by unfold_locales (simp only: LE_widths, simp)

interpretation u32le: codec "write_le 4 :: u32 \<Rightarrow> byte list" "LE 4" "\<lambda>_. True"
  by unfold_locales (simp only: LE_widths, simp)

interpretation u64le: codec "write_le 8 :: u64 \<Rightarrow> byte list" "LE 8" "\<lambda>_. True"
  by unfold_locales (simp only: LE_widths, simp)

interpretation hashes: codec Bytes ReadHash "\<lambda>_. True"
proof
  fix bs h rest
  show "ReadHash bs = Some (h, rest) \<longleftrightarrow> True \<and> bs = Bytes h @ rest"
  proof
    assume "ReadHash bs = Some (h, rest)"
    then show "True \<and> bs = Bytes h @ rest" by (auto simp: ReadHash_def split: if_splits)
  qed (simp add: ReadHash_def)
qed

lemma Skip_iff: "Skip n bs = Some (u, rest) \<longleftrightarrow> (\<exists>s. length s = n \<and> bs = s @ rest)"
proof
  assume "Skip n bs = Some (u, rest)"
  then show "\<exists>s. length s = n \<and> bs = s @ rest" by (intro exI [of _ "take n bs"]) (auto simp: Skip_def split: if_splits)
qed (auto simp: Skip_def)

lemma length_AppendCompactSize: "length (AppendCompactSize v) = unat (CompactSizeBytes v)"
  by (simp add: AppendCompactSize_def CompactSizeBytes_def)

lemma AppendCompactSize_pos [simp]: "0 < length (AppendCompactSize v)"
  by (simp add: AppendCompactSize_def)

section \<open>Properties\<close>

text \<open>The CompactSize reader accepts exactly the canonical encoding: it decodes the bytes that
  \<open>AppendCompactSize\<close> writes, consumes no more than them, and rejects every longer form of a number, so
  that an accepted message has one encoding only; the encoding has the announced number of bytes.\<close>

theorem CompactSize_canonical:
  "(CompactSize bs = Some (v, rest) \<longleftrightarrow> bs = AppendCompactSize v @ rest) \<and>
   length (AppendCompactSize v) = unat (CompactSizeBytes v)"
  using CompactSize_iff length_AppendCompactSize by blast

end
