(* ===== verification/Leaf.thy ===== *)
theory Leaf
  imports Wire Hash
begin

unbundle bit_operations_syntax

text \<open>
  Leaves of the accumulator (\<^verbatim>\<open>src/src/leaf.cpp\<close>, \<^verbatim>\<open>src/include/utreexo/leaf.h\<close>): the hash that commits to
  an unspent output, its compact form on the wire, and the reconstruction of a standard script from
  the input that spends it. The enumeration \<open>ScriptPubkeyType\<close> has an eight-bit representation that a
  decoder fills with any byte, so it is a byte here too.
\<close>

section \<open>Data\<close>

record OutPoint =
  op_txid :: hash256
  op_index :: u32

record TxOut =
  tx_value :: u64
  script_pubkey :: "byte list"

record LeafData =
  block_hash :: hash256
  outpoint :: OutPoint
  block_height :: u32
  coinbase :: bool
  leaf_output :: TxOut

type_synonym ScriptPubkeyType = u8

abbreviation (input) OTHER :: ScriptPubkeyType where "OTHER \<equiv> 0"
abbreviation (input) PUBKEY_HASH :: ScriptPubkeyType where "PUBKEY_HASH \<equiv> 1"
abbreviation (input) WITNESS_V0_PUBKEY_HASH :: ScriptPubkeyType where "WITNESS_V0_PUBKEY_HASH \<equiv> 2"
abbreviation (input) SCRIPT_HASH :: ScriptPubkeyType where "SCRIPT_HASH \<equiv> 3"
abbreviation (input) WITNESS_V0_SCRIPT_HASH :: ScriptPubkeyType where "WITNESS_V0_SCRIPT_HASH \<equiv> 4"

record CompactLeafData =
  header_code :: u32
  amount :: u64
  script_type :: ScriptPubkeyType
  compact_script :: "byte list"

record SpendingInput =
  script_sig :: "byte list"
  input_witness :: "byte list list"

section \<open>The committed hash\<close>

definition UTREEXO_TAG_V1 :: "byte list" where
  "UTREEXO_TAG_V1 = concat [
     [0x5b, 0x83, 0x2d, 0xb8, 0xca, 0x26, 0xc2, 0x5b],
     [0xe1, 0xc5, 0x42, 0xd6, 0xcc, 0xed, 0xdd, 0xa8],
     [0xc1, 0x45, 0x61, 0x5c, 0xff, 0x5c, 0x35, 0x72],
     [0x7f, 0xb3, 0x46, 0x26, 0x10, 0x80, 0x7e, 0x20],
     [0xae, 0x53, 0x4d, 0xc3, 0xf6, 0x42, 0x99, 0x19],
     [0x99, 0x31, 0x77, 0x2e, 0x03, 0x78, 0x7d, 0x18],
     [0x15, 0x6e, 0xb3, 0x15, 0x1e, 0x0e, 0xd1, 0xb3],
     [0x09, 0x8b, 0xdc, 0x84, 0x45, 0x86, 0x18, 0x85]]"

definition leaf_header :: "u32 \<Rightarrow> bool \<Rightarrow> u32" where
  "leaf_header height cb = push_bit 1 height OR (if cb then 1 else 0)"

definition leaf_preimage :: "LeafData \<Rightarrow> byte list" where
  "leaf_preimage leaf =
     UTREEXO_TAG_V1 @ UTREEXO_TAG_V1 @ Bytes (block_hash leaf) @ Bytes (op_txid (outpoint leaf)) @
     write_le 4 (op_index (outpoint leaf)) @
     write_le 4 (leaf_header (block_height leaf) (coinbase leaf)) @
     write_le 8 (tx_value (leaf_output leaf)) @
     AppendCompactSize (of_nat (length (script_pubkey (leaf_output leaf)))) @
     script_pubkey (leaf_output leaf)"

definition LeafHash :: "LeafData \<Rightarrow> hash256" where
  "LeafHash leaf = Sha512_256 (leaf_preimage leaf)"

section \<open>Scripts\<close>

text \<open>The length of the push an opcode starts and the bytes after its length field; \<open>None\<close> for an opcode
  that pushes nothing.\<close>

definition push_header :: "byte \<Rightarrow> byte list \<Rightarrow> (nat \<times> byte list) option Result" where
  "push_header opcode script =
     (if opcode \<le> 75 then Ok (Some (unat opcode, script))
      else if opcode = 76
      then (case script of [] \<Rightarrow> Err ''truncated OP_PUSHDATA1'' | b # rest \<Rightarrow> Ok (Some (unat b, rest)))
      else if opcode = 77
      then (if length script < 2 then Err ''truncated OP_PUSHDATA2''
            else Ok (Some (unat (read_le (take 2 script) :: u64), drop 2 script)))
      else if opcode = 78
      then (if length script < 4 then Err ''truncated OP_PUSHDATA4''
            else Ok (Some (unat (read_le (take 4 script) :: u64), drop 4 script)))
      else Ok None)"

lemma push_header_shorter: "push_header opcode script = Ok (Some (n, rest)) \<Longrightarrow> length rest \<le> length script"
  by (auto simp: push_header_def split: if_splits list.splits)

function last_push_loop :: "byte list \<Rightarrow> byte list option \<Rightarrow> bool \<Rightarrow> byte list Result" where
  "last_push_loop [] last_push last_was_push =
     (case last_push of
        Some push \<Rightarrow> if last_was_push then Ok push else Err ''last scriptSig instruction is not a push''
      | None \<Rightarrow> Err ''last scriptSig instruction is not a push'')"
| "last_push_loop (opcode # script) last_push last_was_push =
     (case push_header opcode script of
        Ok None \<Rightarrow> last_push_loop script None False
      | Ok (Some (n, rest)) \<Rightarrow>
          if n > length rest then Err ''push extends past scriptSig''
          else last_push_loop (drop n rest) (Some (take n rest)) True
      | Err e \<Rightarrow> Err e
      | Throw e \<Rightarrow> Throw e)"
  by pat_completeness auto
termination
  by (relation "measure (\<lambda>(s, _). length s)") (auto dest!: push_header_shorter)

definition LastScriptPush :: "byte list \<Rightarrow> byte list Result" where
  "LastScriptPush script =
     (if script = [] then Err ''empty scriptSig stack'' else last_push_loop script None False)"

definition P2pkh :: "byte list \<Rightarrow> byte list" where
  "P2pkh hash = [0x76, 0xa9, 0x14] @ hash @ [0x88, 0xac]"

definition P2sh :: "byte list \<Rightarrow> byte list" where
  "P2sh hash = [0xa9, 0x14] @ hash @ [0x87]"

definition WitnessProgram :: "byte list \<Rightarrow> byte list" where
  "WitnessProgram hash = [0x00, of_nat (length hash)] @ hash"

definition classify_script :: "byte list \<Rightarrow> ScriptPubkeyType" where
  "classify_script script =
     (if length script = 25 \<and> script ! 0 = 0x76 \<and> script ! 1 = 0xa9 \<and> script ! 2 = 0x14 \<and>
         script ! 23 = 0x88 \<and> script ! 24 = 0xac then PUBKEY_HASH
      else if length script = 23 \<and> script ! 0 = 0xa9 \<and> script ! 1 = 0x14 \<and> script ! 22 = 0x87 then SCRIPT_HASH
      else if length script = 22 \<and> script ! 0 = 0x00 \<and> script ! 1 = 0x14 then WITNESS_V0_PUBKEY_HASH
      else if length script = 34 \<and> script ! 0 = 0x00 \<and> script ! 1 = 0x20 then WITNESS_V0_SCRIPT_HASH
      else OTHER)"

definition CompactLeaf :: "LeafData \<Rightarrow> CompactLeafData" where
  "CompactLeaf leaf =
     (let script = script_pubkey (leaf_output leaf);
          type = classify_script script
      in \<lparr>header_code = leaf_header (block_height leaf) (coinbase leaf),
          amount = tx_value (leaf_output leaf),
          script_type = type,
          compact_script = (if type = OTHER then script else [])\<rparr>)"

definition ReconstructScriptPubkey :: "CompactLeafData \<Rightarrow> SpendingInput \<Rightarrow> byte list Result" where
  "ReconstructScriptPubkey leaf input =
     (if script_type leaf = OTHER then Ok (compact_script leaf)
      else if script_type leaf = PUBKEY_HASH
      then and_then (LastScriptPush (script_sig input)) (\<lambda>pushed. Ok (P2pkh (Hash160 pushed)))
      else if script_type leaf = SCRIPT_HASH
      then and_then (LastScriptPush (script_sig input)) (\<lambda>pushed. Ok (P2sh (Hash160 pushed)))
      else if script_type leaf = WITNESS_V0_PUBKEY_HASH
      then (if input_witness input = [] then Err ''empty witness stack''
            else Ok (WitnessProgram (Hash160 (last (input_witness input)))))
      else if script_type leaf = WITNESS_V0_SCRIPT_HASH
      then (if input_witness input = [] then Err ''empty witness stack''
            else Ok (WitnessProgram (Bytes (Sha256 (last (input_witness input))))))
      else Err ''unknown compact script type'')"

definition IsProvablyUnspendable :: "TxOut \<Rightarrow> bool" where
  "IsProvablyUnspendable output \<longleftrightarrow>
     length (script_pubkey output) > 10000 \<or> (script_pubkey output \<noteq> [] \<and> hd (script_pubkey output) = 0x6a)"

section \<open>Lemmas\<close>

lemma leaf_header_inject:
  assumes "unat h < 2 ^ 31" "unat h' < 2 ^ 31"
  shows "leaf_header h c = leaf_header h' c' \<longleftrightarrow> h = h' \<and> c = c'"
proof
  have b: "bit (leaf_header h c) k \<longleftrightarrow> k < 32 \<and> (if k = 0 then c else bit h (k - 1))" for h c k
  proof -
    have "bit (push_bit 1 h) k \<longleftrightarrow> 1 \<le> k \<and> k < 32 \<and> bit h (k - 1)" by (simp only: bit_push_bit_iff) auto
    then show ?thesis by (cases "k = 0") (auto simp only: leaf_header_def bit_or_iff bit_1_iff split: if_splits; simp)+
  qed
  assume e: "leaf_header h c = leaf_header h' c'"
  have "c = c'" using b [of h c 0] b [of h' c' 0] e by simp
  moreover have "bit h k = bit h' k" if "k < 32" for k
  proof (cases "k = 31")
    case True
    have "bit (unat h) 31 = bit h 31" "bit (unat h') 31 = bit h' 31" by (simp_all add: bit_unsigned_iff)
    then have "\<not> bit h 31" "\<not> bit h' 31" using assms by (simp_all add: bit_iff_odd)
    then show ?thesis using True by simp
  next
    case False
    then show ?thesis using b [of h c "Suc k"] b [of h' c' "Suc k"] e that by simp
  qed
  ultimately show "h = h' \<and> c = c'" by (simp add: bit_eq_iff bit_word_eqI)
qed simp

lemma length_Hash160 [simp]: "length (Hash160 input) = 20"
  by (simp add: Hash160_def Let_def WriteLE32_def split: prod.split)

text \<open>The hash inside a standard script.\<close>

definition script_hash :: "byte list \<Rightarrow> byte list" where
  "script_hash script =
     (if classify_script script = PUBKEY_HASH then take 20 (drop 3 script)
      else if classify_script script = SCRIPT_HASH then take 20 (drop 2 script)
      else drop 2 script)"

lemma script_ends:
  assumes "a + n + b = length script"
  shows "script = map (\<lambda>i. script ! i) [0..<a] @ take n (drop a script) @ map (\<lambda>i. script ! i) [a + n..<length script]"
  using assms by (intro nth_equalityI) (auto simp: nth_append)

lemma standard_script:
  assumes "classify_script script = t" "t \<noteq> OTHER"
  shows "length (script_hash script) = (if t = WITNESS_V0_SCRIPT_HASH then 32 else 20)"
    and "script = (if t = PUBKEY_HASH then P2pkh (script_hash script) else if t = SCRIPT_HASH then P2sh (script_hash script)
       else WitnessProgram (script_hash script))"
proof -
  consider (pkh) "t = PUBKEY_HASH" "length script = 25" "script ! 0 = 0x76" "script ! 1 = 0xa9" "script ! 2 = 0x14"
      "script ! 23 = 0x88" "script ! 24 = 0xac"
    | (sh) "t = SCRIPT_HASH" "length script = 23" "script ! 0 = 0xa9" "script ! 1 = 0x14" "script ! 22 = 0x87"
    | (wpkh) "t = WITNESS_V0_PUBKEY_HASH" "length script = 22" "script ! 0 = 0" "script ! 1 = 0x14"
    | (wsh) "t = WITNESS_V0_SCRIPT_HASH" "length script = 34" "script ! 0 = 0" "script ! 1 = 0x20"
    using assms unfolding classify_script_def by (auto split: if_splits)
  note c = this
  show "length (script_hash script) = (if t = WITNESS_V0_SCRIPT_HASH then 32 else 20)"
    using c by cases (simp_all add: script_hash_def assms(1))
  from c show "script = (if t = PUBKEY_HASH then P2pkh (script_hash script) else if t = SCRIPT_HASH then P2sh (script_hash script)
       else WitnessProgram (script_hash script))"
  proof cases
    case pkh
    then show ?thesis using script_ends [of 3 20 2 script] pkh(5) [unfolded numeral_2_eq_2] by (simp add: script_hash_def assms(1) P2pkh_def upt_rec)
  next
    case sh
    then show ?thesis using script_ends [of 2 20 1 script] by (simp add: script_hash_def assms(1) P2sh_def upt_rec)
  next
    case wpkh
    then show ?thesis using script_ends [of 2 20 0 script] by (simp add: script_hash_def assms(1) WitnessProgram_def upt_rec)
  next
    case wsh
    then show ?thesis using script_ends [of 2 32 0 script] by (simp add: script_hash_def assms(1) WitnessProgram_def upt_rec)
  qed
qed

text \<open>What the spending input reveals of a standard script.\<close>

definition revealed_hash :: "ScriptPubkeyType \<Rightarrow> SpendingInput \<Rightarrow> byte list Result" where
  "revealed_hash t input =
     (if t = PUBKEY_HASH \<or> t = SCRIPT_HASH then and_then (LastScriptPush (script_sig input)) (\<lambda>p. Ok (Hash160 p))
      else if input_witness input = [] then Err ''empty witness stack''
      else if t = WITNESS_V0_PUBKEY_HASH then Ok (Hash160 (last (input_witness input)))
      else Ok (Bytes (Sha256 (last (input_witness input)))))"

lemma classify_range: "classify_script s \<in> {OTHER, PUBKEY_HASH, WITNESS_V0_PUBKEY_HASH, SCRIPT_HASH, WITNESS_V0_SCRIPT_HASH}"
  by (simp add: classify_script_def)

text \<open>Script instructions and their bytes, for the specification of \<open>LastScriptPush\<close>.\<close>

datatype script_op = Direct "byte list" | PushData1 "byte list" | PushData2 "byte list" | PushData4 "byte list" | Op byte

fun op_bytes :: "script_op \<Rightarrow> byte list" where
  "op_bytes (Direct d) = of_nat (length d) # d"
| "op_bytes (PushData1 d) = 76 # of_nat (length d) # d"
| "op_bytes (PushData2 d) = 77 # write_le 2 (of_nat (length d) :: u16) @ d"
| "op_bytes (PushData4 d) = 78 # write_le 4 (of_nat (length d) :: u32) @ d"
| "op_bytes (Op b) = [b]"

fun op_ok :: "script_op \<Rightarrow> bool" where
  "op_ok (Direct d) \<longleftrightarrow> length d \<le> 75"
| "op_ok (PushData1 d) \<longleftrightarrow> length d < 2 ^ 8"
| "op_ok (PushData2 d) \<longleftrightarrow> length d < 2 ^ 16"
| "op_ok (PushData4 d) \<longleftrightarrow> length d < 2 ^ 32"
| "op_ok (Op b) \<longleftrightarrow> 78 < b"

fun op_data :: "script_op \<Rightarrow> byte list option" where
  "op_data (Op b) = None"
| "op_data (Direct d) = Some d"
| "op_data (PushData1 d) = Some d"
| "op_data (PushData2 d) = Some d"
| "op_data (PushData4 d) = Some d"

lemma read_le_u64_of:
  "n < 2 ^ 16 \<Longrightarrow> unat (read_le (write_le 2 (of_nat n :: u16)) :: u64) = n"
  "n < 2 ^ 32 \<Longrightarrow> unat (read_le (write_le 4 (of_nat n :: u32)) :: u64) = n"
proof -
  have k: "read_le (write_le 2 (x :: u16)) = (ucast x :: u64)" "read_le (write_le 4 (y :: u32)) = (ucast y :: u64)" for x y
  proof -
    have "bit (write_le 2 x ! (n div 8)) (n mod 8) = bit x n" if "n < 16" for n
      using that by (subst bit_nth_write_le) (auto simp: less_mult_imp_div_less)
    moreover have "n < 16" if "bit x n" for n using bit_imp_le_length [OF that] by simp
    ultimately show "read_le (write_le 2 x) = (ucast x :: u64)"
      by (intro bit_word_eqI) (auto simp: bit_read_le bit_ucast_iff)
    have "bit (write_le 4 y ! (n div 8)) (n mod 8) = bit y n" if "n < 32" for n
      using that by (subst bit_nth_write_le) (auto simp: less_mult_imp_div_less)
    moreover have "n < 32" if "bit y n" for n using bit_imp_le_length [OF that] by simp
    ultimately show "read_le (write_le 4 y) = (ucast y :: u64)"
      by (intro bit_word_eqI) (auto simp: bit_read_le bit_ucast_iff)
  qed
  show "n < 2 ^ 16 \<Longrightarrow> unat (read_le (write_le 2 (of_nat n :: u16)) :: u64) = n" by (simp add: k unat_of_nat)
  show "n < 2 ^ 32 \<Longrightarrow> unat (read_le (write_le 4 (of_nat n :: u32)) :: u64) = n" by (simp add: k unat_of_nat)
qed

lemma push_header_op:
  assumes "op_ok c"
  shows "\<exists>b bs. op_bytes c @ rest = b # bs \<and>
    push_header b bs = Ok (map_option (\<lambda>d. (length d, d @ rest)) (op_data c)) \<and> (op_data c = None \<longrightarrow> bs = rest)"
proof (cases c)
  case (Direct d)
  then have u: "unat (of_nat (length d) :: u8) = length d" using assms by (simp add: unat_of_nat)
  then show ?thesis using assms Direct by (simp add: push_header_def word_le_nat_alt)
next
  case (PushData1 d)
  then have u: "unat (of_nat (length d) :: u8) = length d" using assms by (simp add: unat_of_nat)
  then show ?thesis using assms PushData1 by (simp add: push_header_def)
next
  case (PushData2 d)
  then show ?thesis using assms by (simp add: push_header_def read_le_u64_of)
next
  case (PushData4 d)
  then show ?thesis using assms by (simp add: push_header_def read_le_u64_of)
next
  case (Op b)
  then have "\<not> b \<le> 75" "b \<noteq> 76" "b \<noteq> 77" "b \<noteq> 78" using assms by (auto simp: word_le_nat_alt word_less_nat_alt)
  then show ?thesis using Op by (simp add: push_header_def)
qed

lemma last_push_ops:
  assumes "\<forall>c \<in> set ops. op_ok c"
  shows "last_push_loop (concat (map op_bytes ops)) p w =
    (if ops = [] then last_push_loop [] p w
     else case op_data (last ops) of Some d \<Rightarrow> Ok d | None \<Rightarrow> Err ''last scriptSig instruction is not a push'')"
  using assms
proof (induction ops arbitrary: p w)
  case (Cons c ops)
  let ?rest = "concat (map op_bytes ops)"
  obtain b bs where b: "op_bytes c @ ?rest = b # bs"
      "push_header b bs = Ok (map_option (\<lambda>d. (length d, d @ ?rest)) (op_data c))" "op_data c = None \<longrightarrow> bs = ?rest"
    using push_header_op [of c ?rest] Cons.prems by auto
  have "last_push_loop (b # bs) p w = last_push_loop ?rest (op_data c) (op_data c \<noteq> None)"
    using b(2,3) by (cases "op_data c") simp_all
  then show ?case using b(1) Cons by (cases "ops = []") (auto split: option.splits)
qed simp

lemma op_bytes_not_Nil [simp]: "op_bytes c \<noteq> []"
  by (cases c) auto

section \<open>Properties\<close>

text \<open>C19: The serialisation behind a leaf hash is unambiguous: two leaves of blocks below height
  \<open>2 ^ 31\<close> with the same preimage are the same leaf, so that equal leaf hashes of different leaves are a
  collision of SHA-512/256.\<close>

theorem leaf_preimage_inject:
  assumes "unat (block_height l) < 2 ^ 31" "unat (block_height l') < 2 ^ 31"
    and "leaf_preimage l = leaf_preimage l'"
  shows "l = l'"
proof -
  have e: "Bytes (block_hash l) = Bytes (block_hash l')" "Bytes (op_txid (outpoint l)) = Bytes (op_txid (outpoint l'))"
    "write_le 4 (op_index (outpoint l)) = write_le 4 (op_index (outpoint l'))"
    "write_le 4 (leaf_header (block_height l) (coinbase l)) = write_le 4 (leaf_header (block_height l') (coinbase l'))"
    "write_le 8 (tx_value (leaf_output l)) = write_le 8 (tx_value (leaf_output l'))"
    and s: "AppendCompactSize (of_nat (length (script_pubkey (leaf_output l)))) @ script_pubkey (leaf_output l) =
       AppendCompactSize (of_nat (length (script_pubkey (leaf_output l')))) @ script_pubkey (leaf_output l')"
    using assms(3) by (auto simp: leaf_preimage_def simp del: write_le.simps)
  have "script_pubkey (leaf_output l) = script_pubkey (leaf_output l')" using compact.prefix_free [OF _ _ s] by simp
  moreover have "block_height l = block_height l' \<and> coinbase l = coinbase l'"
    using e(4) leaf_header_inject [OF assms(1,2)] by (simp add: write_le_inject)
  ultimately show ?thesis using e by (simp add: write_le_inject LeafData.equality OutPoint.equality TxOut.equality)
qed

theorem leaf_preimage_inject_witness:
  "leaf_preimage \<lparr>block_hash = null_hash, outpoint = \<lparr>op_txid = null_hash, op_index = 0\<rparr>, block_height = 7,
     coinbase = True, leaf_output = \<lparr>tx_value = 5, script_pubkey = [0x51]\<rparr>\<rparr> \<noteq>
   leaf_preimage \<lparr>block_hash = null_hash, outpoint = \<lparr>op_txid = null_hash, op_index = 0\<rparr>, block_height = 7,
     coinbase = False, leaf_output = \<lparr>tx_value = 5, script_pubkey = [0x51]\<rparr>\<rparr>"
  using leaf_preimage_inject [of "\<lparr>block_hash = null_hash, outpoint = \<lparr>op_txid = null_hash, op_index = 0\<rparr>, block_height = 7,
     coinbase = True, leaf_output = \<lparr>tx_value = 5, script_pubkey = [0x51]\<rparr>\<rparr>" "\<lparr>block_hash = null_hash, outpoint = \<lparr>op_txid = null_hash, op_index = 0\<rparr>, block_height = 7,
     coinbase = False, leaf_output = \<lparr>tx_value = 5, script_pubkey = [0x51]\<rparr>\<rparr>"] by auto

text \<open>Compacting a leaf loses nothing for a client that sees the spending input: the script it
  reconstructs is the committed one exactly if the script is not a standard one or the input reveals
  the hash inside it.\<close>

theorem Reconstruct_CompactLeaf:
  "ReconstructScriptPubkey (CompactLeaf leaf) input = Ok (script_pubkey (leaf_output leaf)) \<longleftrightarrow>
   classify_script (script_pubkey (leaf_output leaf)) = OTHER \<or>
   revealed_hash (classify_script (script_pubkey (leaf_output leaf))) input = Ok (script_hash (script_pubkey (leaf_output leaf)))"
proof (cases "classify_script (script_pubkey (leaf_output leaf)) = OTHER")
  case True
  then show ?thesis by (simp add: ReconstructScriptPubkey_def CompactLeaf_def Let_def)
next
  case False
  let ?s = "script_pubkey (leaf_output leaf)" and ?t = "classify_script (script_pubkey (leaf_output leaf))"
  note st = standard_script [OF refl False]
  have inj: "P2pkh a = P2pkh b \<longleftrightarrow> a = b" "P2sh a = P2sh b \<longleftrightarrow> a = b"
    "length a = length b \<Longrightarrow> WitnessProgram a = WitnessProgram b \<longleftrightarrow> a = b" for a b
    by (simp_all add: P2pkh_def P2sh_def WitnessProgram_def)
  have pkh: "P2pkh a = ?s \<longleftrightarrow> a = script_hash ?s" if "?t = PUBKEY_HASH" for a
    using st(2) that inj(1) [of a "script_hash ?s"] by simp
  have sh: "P2sh a = ?s \<longleftrightarrow> a = script_hash ?s" if "?t = SCRIPT_HASH" for a
    using st(2) that inj(2) [of a "script_hash ?s"] by simp
  have wp: "WitnessProgram a = ?s \<longleftrightarrow> a = script_hash ?s"
    if "?t = WITNESS_V0_PUBKEY_HASH \<and> length a = 20 \<or> ?t = WITNESS_V0_SCRIPT_HASH \<and> length a = 32" for a
    using st that inj(3) [of a "script_hash ?s"] by auto
  consider "?t = PUBKEY_HASH" | "?t = SCRIPT_HASH" | "?t = WITNESS_V0_PUBKEY_HASH" | "?t = WITNESS_V0_SCRIPT_HASH"
    using False classify_range [of ?s] by auto
  then show ?thesis
  proof cases
    case 1
    then show ?thesis using pkh by (cases "LastScriptPush (script_sig input)")
      (auto simp: ReconstructScriptPubkey_def CompactLeaf_def Let_def revealed_hash_def)
  next
    case 2
    then show ?thesis using sh by (cases "LastScriptPush (script_sig input)")
      (auto simp: ReconstructScriptPubkey_def CompactLeaf_def Let_def revealed_hash_def)
  next
    case 3
    then show ?thesis using wp [of "Hash160 (last (input_witness input))"]
      by (auto simp: ReconstructScriptPubkey_def CompactLeaf_def Let_def revealed_hash_def)
  next
    case 4
    then show ?thesis using wp [of "Bytes (Sha256 (last (input_witness input)))"]
      by (auto simp: ReconstructScriptPubkey_def CompactLeaf_def Let_def revealed_hash_def)
  qed
qed

text \<open>\<open>LastScriptPush\<close> follows the instructions of a script, whatever way each push is written: it
  returns the data of the last instruction if that is a push and an error otherwise.\<close>

theorem LastScriptPush_correct:
  assumes "ops \<noteq> []" "\<forall>c \<in> set ops. op_ok c"
  shows "LastScriptPush (concat (map op_bytes ops)) =
    (case op_data (last ops) of Some d \<Rightarrow> Ok d | None \<Rightarrow> Err ''last scriptSig instruction is not a push'')"
  using assms last_push_ops [OF assms(2)] by (cases ops) (auto simp: LastScriptPush_def)

theorem LastScriptPush_correct_witness:
  "LastScriptPush (concat (map op_bytes [Op 0x87, PushData2 [1, 2], Direct [3, 4, 5]])) = Ok [3, 4, 5]"
  using LastScriptPush_correct [of "[Op 0x87, PushData2 [1, 2], Direct [3, 4, 5]]"] by simp

end
