(* ===== verification/Inventory.thy ===== *)
theory Inventory
  imports Wire
begin

unbundle bit_operations_syntax

text \<open>
  Transaction inventory (\<open>ParseGroups\<close> and \<open>SerializeGroups\<close> of \<^verbatim>\<open>src/src/transaction_wire.cpp\<close>): an
  inventory vector names a transaction, the vectors after it pack four positions each, padded in the
  last one. The template argument of the source, announcements or proof requests, is the datatype
  \<open>inv_kind\<close>; an announcement has no inventory type of its own and stands for type \<open>MSG_TX\<close>.
\<close>

section \<open>Constants and data\<close>

definition MSG_TX :: u32 where "MSG_TX = 1"
definition MSG_UTREEXO_PROOF_HASH :: u32 where "MSG_UTREEXO_PROOF_HASH = 6"
definition MSG_UTREEXO_TX :: u32 where "MSG_UTREEXO_TX = MSG_TX OR push_bit 24 1"
definition MSG_WITNESS_UTREEXO_TX :: u32 where "MSG_WITNESS_UTREEXO_TX = MSG_UTREEXO_TX OR push_bit 30 1"
definition MAX_INVENTORY :: nat where "MAX_INVENTORY = 50000"
definition MAX_INVENTORY_PAYLOAD :: nat where "MAX_INVENTORY_PAYLOAD = 9 + MAX_INVENTORY * 36"
definition MAX_TX_PAYLOAD :: nat where "MAX_TX_PAYLOAD = 4000000"
definition PADDING :: u64 where "PADDING = - 1"
definition MAX_INPUTS :: nat where "MAX_INPUTS = MAX_TX_PAYLOAD div 41"
definition MAX_HASHES :: nat where "MAX_HASHES = MAX_TX_PAYLOAD div 32"

datatype inv_kind = Announcements | Requests

record InvGroup =
  group_txid :: hash256
  inventory_type :: u32
  group_positions :: "u64 list"

definition IsRequestType :: "u32 \<Rightarrow> bool" where
  "IsRequestType type \<longleftrightarrow> type = MSG_UTREEXO_TX \<or> type = MSG_WITNESS_UTREEXO_TX"

definition UniquePositions :: "u64 list \<Rightarrow> bool" where
  "UniquePositions positions \<longleftrightarrow> PADDING \<notin> set positions \<and> distinct (sort positions)"

definition PositionLimit :: "inv_kind \<Rightarrow> nat" where
  "PositionLimit kind = (case kind of Requests \<Rightarrow> MAX_HASHES | Announcements \<Rightarrow> MAX_INPUTS)"

section \<open>Parsing\<close>

fun unpack :: "inv_kind \<Rightarrow> nat \<Rightarrow> nat \<Rightarrow> byte list \<Rightarrow> u64 list \<Rightarrow> bool \<Rightarrow> (u64 list \<times> bool) Result" where
  "unpack kind slot 0 packed positions padded = Ok (positions, padded)"
| "unpack kind slot (Suc n) packed positions padded =
     (case LE 8 packed of
        None \<Rightarrow> Err ''truncated packed position''
      | Some (pos, packed1) \<Rightarrow>
          if pos = PADDING
          then if slot = 0 then Err ''redundant empty proof inventory vector''
               else unpack kind (slot + 1) n packed1 positions True
          else if padded then Err ''non-padding position after padding''
          else if length positions \<ge> PositionLimit kind then Err ''too many packed positions''
          else unpack kind (slot + 1) n packed1 (positions @ [pos]) padded)"

definition attaches :: "inv_kind \<Rightarrow> u32 \<Rightarrow> bool" where
  "attaches kind type = (case kind of Requests \<Rightarrow> IsRequestType type | Announcements \<Rightarrow> type = MSG_TX)"

fun parse_vectors ::
    "inv_kind \<Rightarrow> nat \<Rightarrow> byte list \<Rightarrow> InvGroup list \<Rightarrow> bool \<Rightarrow> bool \<Rightarrow> InvGroup list Result" where
  "parse_vectors kind 0 bs groups attachable padded = Ok groups"
| "parse_vectors kind (Suc n) bs groups attachable padded =
     (case pair_dec (LE 4) ReadHash bs of
        None \<Rightarrow> Err ''truncated inventory vector''
      | Some ((type, hash), bs1) \<Rightarrow>
          if type = MSG_UTREEXO_PROOF_HASH
          then if \<not> attachable \<or> padded then Err ''misplaced or over-padded proof inventory vector''
               else and_then (unpack kind 0 4 (Bytes hash) (group_positions (last groups)) padded)
                      (\<lambda>(positions, padded1). parse_vectors kind n bs1
                         (butlast groups @ [(last groups)\<lparr>group_positions := positions\<rparr>]) attachable padded1)
          else parse_vectors kind n bs1
                 (if attaches kind type
                  then groups @ [\<lparr>group_txid = hash, inventory_type = type, group_positions = []\<rparr>] else groups)
                 (attaches kind type) False)"

definition ParseGroups :: "inv_kind \<Rightarrow> byte list \<Rightarrow> u64 \<Rightarrow> InvGroup list Result" where
  "ParseGroups kind payload max_payload_bytes =
     (if length payload > min (unat max_payload_bytes) MAX_INVENTORY_PAYLOAD
      then Err ''transaction inventory payload exceeds maximum''
      else case CompactSize payload of
             None \<Rightarrow> Err ''invalid transaction inventory count, length, or CompactSize''
           | Some (n, bs) \<Rightarrow>
               if unat n > MAX_INVENTORY \<or> length bs \<noteq> unat n * 36
               then Err ''invalid transaction inventory count, length, or CompactSize''
               else and_then (parse_vectors kind (unat n) bs [] False False)
                      (\<lambda>groups. if \<forall>g \<in> set groups. UniquePositions (group_positions g)
                                then Ok groups else Err ''duplicate packed positions''))"

section \<open>Serialising\<close>

fun count_vectors :: "inv_kind \<Rightarrow> InvGroup list \<Rightarrow> nat \<Rightarrow> nat Result" where
  "count_vectors kind [] n = Ok n"
| "count_vectors kind (g # groups) n =
     (if kind = Requests \<and> \<not> IsRequestType (inventory_type g) then Err ''invalid Utreexo transaction request type''
      else if length (group_positions g) > PositionLimit kind then Err ''too many packed positions''
      else let n1 = n + 1 + (length (group_positions g) + 3) div 4
           in if n1 > MAX_INVENTORY then Err ''too many transaction inventory vectors''
              else count_vectors kind groups n1)"

function pack :: "u64 list \<Rightarrow> byte list" where
  "pack positions =
     (if positions = [] then []
      else write_le 4 MSG_UTREEXO_PROOF_HASH @
           concat (map (write_le 8) (take 4 (positions @ replicate 3 PADDING))) @ pack (drop 4 positions))"
  by pat_completeness auto
termination by (relation "measure length") auto

declare pack.simps [simp del]

definition group_bytes :: "inv_kind \<Rightarrow> InvGroup \<Rightarrow> byte list" where
  "group_bytes kind g =
     write_le 4 (if kind = Requests then inventory_type g else MSG_TX) @ Bytes (group_txid g) @ pack (group_positions g)"

definition SerializeGroups :: "inv_kind \<Rightarrow> InvGroup list \<Rightarrow> u64 \<Rightarrow> byte list Result" where
  "SerializeGroups kind groups max_payload_bytes =
     (if length groups > MAX_INVENTORY then Err ''too many transaction inventory groups''
      else and_then (count_vectors kind groups 0) (\<lambda>n.
        let bytes = unat (CompactSizeBytes (of_nat n)) + n * 36
        in if bytes > min (unat max_payload_bytes) MAX_INVENTORY_PAYLOAD
           then Err ''transaction inventory payload exceeds maximum''
           else if \<forall>g \<in> set groups. UniquePositions (group_positions g)
           then Ok (AppendCompactSize (of_nat n) @ concat (map (group_bytes kind) groups))
           else Err ''duplicate or reserved packed position''))"

section \<open>Round trip\<close>

lemma unpack_padding:
  "0 < slot \<Longrightarrow> unpack kind slot m (concat (map (write_le 8) (replicate m PADDING))) positions padded =
     Ok (positions, padded \<or> 0 < m)"
proof (induction m arbitrary: slot padded)
  case (Suc m)
  have "LE 8 (write_le 8 PADDING @ concat (map (write_le 8) (replicate m PADDING))) =
      Some (PADDING, concat (map (write_le 8) (replicate m PADDING)))" by (simp only: LE_widths)
  then show ?case using Suc by simp
qed simp

lemma unpack_positions:
  assumes "PADDING \<notin> set ps" "length positions + length ps \<le> PositionLimit kind" "0 < slot + length ps"
  shows "unpack kind slot (length ps + m) (concat (map (write_le 8) (ps @ replicate m PADDING))) positions False =
    Ok (positions @ ps, 0 < m)"
  using assms
proof (induction ps arbitrary: slot positions)
  case Nil
  then show ?case using unpack_padding [of slot kind m positions False] by simp
next
  case (Cons p ps)
  have "LE 8 (write_le 8 p @ concat (map (write_le 8) (ps @ replicate m PADDING))) =
      Some (p, concat (map (write_le 8) (ps @ replicate m PADDING)))" by (simp only: LE_widths)
  then show ?case using Cons.IH [of "positions @ [p]" "slot + 1"] Cons.prems by auto
qed

lemma blocks_step: "ps \<noteq> [] \<Longrightarrow> (length ps + 3) div 4 = Suc ((length (drop 4 ps) + 3) div 4)"
proof -
  have "1 \<le> n \<Longrightarrow> (n + 3) div 4 = Suc ((n - 4 + 3) div 4)" for n :: nat
  proof (cases "n < 4")
    case True
    then show "1 \<le> n \<Longrightarrow> ?thesis" by (simp add: div_nat_eqI)
  next
    case False
    then have "n + 3 = (n - 4 + 3) + 4" by simp
    then show ?thesis by simp
  qed
  moreover assume "ps \<noteq> []"
  then have "1 \<le> length ps" by (simp add: Suc_le_eq)
  ultimately show ?thesis by (simp only: length_drop)
qed

lemma length_concat_write_le: "length (concat (map (write_le 8) (xs :: u64 list))) = 8 * length xs"
  by (induction xs) auto

lemma MSG_values:
  "MSG_TX = 1" "MSG_UTREEXO_PROOF_HASH = 6" "MSG_UTREEXO_TX = 0x1000001" "MSG_WITNESS_UTREEXO_TX = 0x41000001"
  by (simp_all add: MSG_TX_def MSG_UTREEXO_PROOF_HASH_def MSG_UTREEXO_TX_def MSG_WITNESS_UTREEXO_TX_def)

lemma attaches_not_proof: "attaches kind type \<Longrightarrow> type \<noteq> MSG_UTREEXO_PROOF_HASH"
  by (auto simp: attaches_def IsRequestType_def MSG_values split: inv_kind.splits)

lemma read_vector: "pair_dec (LE 4) ReadHash (write_le 4 (t :: u32) @ Bytes h @ rest) = Some ((t, h), rest)"
  using codec.dec_enc [OF codec_pair [OF u32le.codec_axioms hashes.codec_axioms], of "(t, h)" rest]
  by (simp add: pair_enc_def)

lemma parse_pack:
  assumes "PADDING \<notin> set ps" "length (group_positions g) + length ps \<le> PositionLimit kind"
  shows "\<exists>padded. parse_vectors kind ((length ps + 3) div 4 + n) (pack ps @ rest) (groups @ [g]) True False =
    parse_vectors kind n rest (groups @ [g\<lparr>group_positions := group_positions g @ ps\<rparr>]) True padded"
  using assms
proof (induction "length ps" arbitrary: ps g rule: less_induct)
  case less
  show ?case
  proof (cases "ps = []")
    case True
    then show ?thesis by (intro exI [of _ False]) (simp add: pack.simps)
  next
    case False
    let ?m = "4 - length (take 4 ps)"
    define block where block: "block = concat (map (write_le 8) (take 4 ps @ replicate ?m PADDING))"
    have l: "length block = 32" unfolding block by (simp only: length_concat_write_le) simp
    have "take 4 (ps @ replicate 3 PADDING) = take 4 ps @ replicate ?m PADDING"
      using False by (cases ps) (auto simp: min_def take_replicate)
    then have pk: "pack ps @ rest = write_le 4 MSG_UTREEXO_PROOF_HASH @ Bytes (Hash256 block) @ pack (drop 4 ps) @ rest"
      using False l by (subst pack.simps) (simp add: block)
    have k: "(length ps + 3) div 4 + n = Suc ((length (drop 4 ps) + 3) div 4 + n)"
      using blocks_step [OF False] by simp
    let ?g = "g\<lparr>group_positions := group_positions g @ take 4 ps\<rparr>"
    have sub: "set (take 4 ps) \<subseteq> set ps" "set (drop 4 ps) \<subseteq> set ps" by (simp_all add: set_take_subset set_drop_subset)
    have "unpack kind 0 (length (take 4 ps) + ?m) block (group_positions g) False = Ok (group_positions g @ take 4 ps, 0 < ?m)"
      unfolding block using less.prems False sub by (intro unpack_positions) auto
    moreover have "length (take 4 ps) + ?m = 4" by simp
    ultimately have u: "unpack kind 0 4 block (group_positions g) False = Ok (group_positions g @ take 4 ps, 0 < ?m)" by simp
    have step: "parse_vectors kind ((length ps + 3) div 4 + n) (pack ps @ rest) (groups @ [g]) True False =
        parse_vectors kind ((length (drop 4 ps) + 3) div 4 + n) (pack (drop 4 ps) @ rest) (groups @ [?g]) True (0 < ?m)"
      unfolding pk k parse_vectors.simps read_vector using l u by simp
    show ?thesis
    proof (cases "0 < ?m")
      case True
      then have "drop 4 ps = []" "take 4 ps = ps" by auto
      then show ?thesis using step by (auto simp: pack.simps)
    next
      case False
      have "\<exists>padded. parse_vectors kind ((length (drop 4 ps) + 3) div 4 + n) (pack (drop 4 ps) @ rest) (groups @ [?g]) True False =
          parse_vectors kind n rest (groups @ [?g\<lparr>group_positions := group_positions ?g @ drop 4 ps\<rparr>]) True padded"
        using less.prems sub \<open>ps \<noteq> []\<close> by (intro less.hyps) auto
      then show ?thesis using step False by simp
    qed
  qed
qed

text \<open>The vectors a group takes, and groups that fit their kind.\<close>

definition vectors :: "InvGroup \<Rightarrow> nat" where
  "vectors g = 1 + (length (group_positions g) + 3) div 4"

definition group_ok :: "inv_kind \<Rightarrow> InvGroup \<Rightarrow> bool" where
  "group_ok kind g \<longleftrightarrow> attaches kind (inventory_type g) \<and> length (group_positions g) \<le> PositionLimit kind \<and>
     UniquePositions (group_positions g)"

lemma parse_groups:
  assumes "\<forall>g \<in> set gs. group_ok kind g"
  shows "parse_vectors kind (sum_list (map vectors gs)) (concat (map (group_bytes kind) gs)) groups attachable padded = Ok (groups @ gs)"
  using assms
proof (induction gs arbitrary: groups attachable padded)
  case (Cons g gs)
  let ?t = "inventory_type g" and ?g0 = "\<lparr>group_txid = group_txid g, inventory_type = inventory_type g, group_positions = []\<rparr>"
  let ?rest = "concat (map (group_bytes kind) gs)"
  have ok: "attaches kind ?t" "length (group_positions g) \<le> PositionLimit kind" "PADDING \<notin> set (group_positions g)"
    using Cons.prems by (auto simp: group_ok_def UniquePositions_def)
  have gb: "group_bytes kind g @ ?rest = write_le 4 ?t @ Bytes (group_txid g) @ pack (group_positions g) @ ?rest"
    using ok(1) by (cases kind) (auto simp: group_bytes_def attaches_def)
  have "sum_list (map vectors (g # gs)) = Suc ((length (group_positions g) + 3) div 4 + sum_list (map vectors gs))"
    by (simp add: vectors_def)
  then have "parse_vectors kind (sum_list (map vectors (g # gs))) (group_bytes kind g @ ?rest) groups attachable padded =
      parse_vectors kind ((length (group_positions g) + 3) div 4 + sum_list (map vectors gs)) (pack (group_positions g) @ ?rest)
        (groups @ [?g0]) True False"
    unfolding gb using ok(1) attaches_not_proof [OF ok(1)] by (simp add: read_vector)
  moreover have eta: "?g0\<lparr>group_positions := group_positions ?g0 @ group_positions g\<rparr> = g" by (cases g) simp
  obtain pad where "parse_vectors kind ((length (group_positions g) + 3) div 4 + sum_list (map vectors gs))
      (pack (group_positions g) @ ?rest) (groups @ [?g0]) True False =
      parse_vectors kind (sum_list (map vectors gs)) ?rest (groups @ [g]) True pad"
    using parse_pack [of "group_positions g" ?g0 kind "sum_list (map vectors gs)" ?rest groups, unfolded eta] ok by force
  ultimately show ?case using Cons by simp
qed simp

lemma length_pack: "length (pack ps) = 36 * ((length ps + 3) div 4)"
proof (induction ps rule: pack.induct)
  case (1 ps)
  show ?case
  proof (cases "ps = []")
    case False
    note blocks_step [OF False]
    moreover have "length (take 4 (ps @ replicate 3 PADDING)) = 4" using False by (cases ps) auto
    then have "length (concat (map (write_le 8) (take 4 (ps @ replicate 3 PADDING)))) = 32"
      by (simp only: length_concat_write_le)
    ultimately show ?thesis using 1 [OF False] False
      by (subst pack.simps) (simp only: length_append length_write_le if_False mult_Suc_right)
  qed (simp add: pack.simps)
qed

lemma length_groups: "length (concat (map (group_bytes kind) gs)) = 36 * sum_list (map vectors gs)"
  by (induction gs) (auto simp: group_bytes_def vectors_def length_pack)

lemma count_vectors_Ok:
  assumes "count_vectors kind gs n = Ok m"
  shows "m = n + sum_list (map vectors gs) \<and> (n \<le> MAX_INVENTORY \<longrightarrow> m \<le> MAX_INVENTORY) \<and>
    (\<forall>g \<in> set gs. length (group_positions g) \<le> PositionLimit kind \<and> (kind = Requests \<longrightarrow> IsRequestType (inventory_type g)))"
  using assms by (induction kind gs n rule: count_vectors.induct) (auto simp: vectors_def Let_def split: if_splits)

lemma SerializeGroups_Ok:
  assumes "SerializeGroups kind gs max_payload = Ok bytes"
    and "kind = Announcements \<longrightarrow> (\<forall>g \<in> set gs. inventory_type g = MSG_TX)"
  shows "sum_list (map vectors gs) \<le> MAX_INVENTORY" "\<forall>g \<in> set gs. group_ok kind g"
    "bytes = AppendCompactSize (of_nat (sum_list (map vectors gs))) @ concat (map (group_bytes kind) gs)"
    "length bytes \<le> min (unat max_payload) MAX_INVENTORY_PAYLOAD"
proof -
  obtain n where n: "count_vectors kind gs 0 = Ok n" "\<forall>g \<in> set gs. UniquePositions (group_positions g)"
      "bytes = AppendCompactSize (of_nat n) @ concat (map (group_bytes kind) gs)"
      "unat (CompactSizeBytes (of_nat n)) + n * 36 \<le> min (unat max_payload) MAX_INVENTORY_PAYLOAD"
    using assms(1) by (auto simp: SerializeGroups_def result_simps Let_def not_less split: if_splits)
  note c = count_vectors_Ok [OF n(1)]
  then show "sum_list (map vectors gs) \<le> MAX_INVENTORY"
    "bytes = AppendCompactSize (of_nat (sum_list (map vectors gs))) @ concat (map (group_bytes kind) gs)"
    "length bytes \<le> min (unat max_payload) MAX_INVENTORY_PAYLOAD"
    using n(3,4) by (simp_all add: length_groups length_AppendCompactSize mult.commute)
  show "\<forall>g \<in> set gs. group_ok kind g"
    using c n(2) assms(2) by (cases kind) (auto simp: group_ok_def attaches_def)
qed

section \<open>Properties\<close>

text \<open>Inventory round trip: what \<open>SerializeGroups\<close> produces within its limits, \<open>ParseGroups\<close> reads
  back as the same groups, in order, with the same positions, for announcements and for proof
  requests.\<close>

theorem Inventory_roundtrip:
  assumes "SerializeGroups kind gs max_payload = Ok bytes"
    and "kind = Announcements \<longrightarrow> (\<forall>g \<in> set gs. inventory_type g = MSG_TX)"
  shows "ParseGroups kind bytes max_payload = Ok gs"
proof -
  note s = SerializeGroups_Ok [OF assms]
  let ?n = "sum_list (map vectors gs)"
  have u: "unat (of_nat ?n :: u64) = ?n" using s(1) by (simp add: MAX_INVENTORY_def unat_of_nat)
  have "CompactSize bytes = Some (of_nat ?n, concat (map (group_bytes kind) gs))" unfolding s(3) by (rule compact.dec_enc) simp
  moreover have "\<forall>g \<in> set gs. UniquePositions (group_positions g)" using s(2) by (simp add: group_ok_def)
  ultimately show ?thesis
    using s u parse_groups [OF s(2), of "[]" False False] by (simp add: ParseGroups_def length_groups not_less)
qed

theorem Inventory_roundtrip_witness:
  "\<exists>bytes. SerializeGroups Requests [\<lparr>group_txid = null_hash, inventory_type = MSG_UTREEXO_TX, group_positions = [4, 9, 2, 7, 5]\<rparr>] 1000 = Ok bytes \<and>
     ParseGroups Requests bytes 1000 =
       Ok [\<lparr>group_txid = null_hash, inventory_type = MSG_UTREEXO_TX, group_positions = [4, 9, 2, 7, 5]\<rparr>]"
proof -
  let ?g = "\<lparr>group_txid = null_hash, inventory_type = MSG_UTREEXO_TX, group_positions = [4, 9, 2, 7, 5]\<rparr>"
  have "HasValue (SerializeGroups Requests [?g] 1000)"
    by (simp add: SerializeGroups_def MAX_INVENTORY_def MAX_INVENTORY_PAYLOAD_def PositionLimit_def MAX_HASHES_def MAX_TX_PAYLOAD_def
        IsRequestType_def Let_def UniquePositions_def PADDING_def CompactSizeBytes_def)
  then obtain bytes where b: "SerializeGroups Requests [?g] 1000 = Ok bytes" by (auto simp: HasValue_iff)
  show ?thesis using b Inventory_roundtrip [OF b] by simp
qed

end
