(* ===== verification/TransactionScan.thy ===== *)
theory TransactionScan
  imports Inventory Leaf
begin

unbundle bit_operations_syntax

text \<open>
  Ordinary Bitcoin transactions (\<open>ScanTransaction\<close> and \<open>Transaction::Parse\<close> of
  \<^verbatim>\<open>src/src/transaction_wire.cpp\<close>). The scanner walks over the bytes and notes where things are; the
  grammar it accepts is stated as a record of fields with its encoding, and the scanner is shown to
  accept exactly that grammar and to report the right offsets. The optional output parameters of the
  scanner are always returned here.
\<close>

section \<open>The scanner\<close>

record TransactionLayout =
  input_start :: nat
  outputs_end :: nat
  layout_size :: nat
  layout_witness :: bool

fun scan_inputs :: "nat \<Rightarrow> nat \<Rightarrow> byte list \<Rightarrow> (OutPoint list \<times> nat list \<times> byte list) Result" where
  "scan_inputs whole 0 bs = Ok ([], [], bs)"
| "scan_inputs whole (Suc n) bs =
     (case ReadHash bs of
        None \<Rightarrow> Err ''truncated transaction outpoint hash''
      | Some (txid, bs1) \<Rightarrow>
          let vout_offset = whole - length bs1
          in case LE 4 bs1 of
               None \<Rightarrow> Err ''invalid transaction input script or sequence''
             | Some (vout, bs2) \<Rightarrow>
                 (case CompactSize bs2 of
                    None \<Rightarrow> Err ''invalid transaction input script or sequence''
                  | Some (script_size, bs3) \<Rightarrow>
                      (case Skip (unat script_size) bs3 of
                         None \<Rightarrow> Err ''invalid transaction input script or sequence''
                       | Some (_, bs4) \<Rightarrow>
                           (case Skip 4 bs4 of
                              None \<Rightarrow> Err ''invalid transaction input script or sequence''
                            | Some (_, bs5) \<Rightarrow>
                                and_then (scan_inputs whole n bs5) (\<lambda>(inputs, offsets, rest).
                                  Ok (\<lparr>op_txid = txid, op_index = vout\<rparr> # inputs, vout_offset # offsets, rest))))))"

fun scan_outputs :: "nat \<Rightarrow> byte list \<Rightarrow> byte list Result" where
  "scan_outputs 0 bs = Ok bs"
| "scan_outputs (Suc n) bs =
     (case Skip 8 bs of
        None \<Rightarrow> Err ''invalid transaction output script''
      | Some (_, bs1) \<Rightarrow>
          (case CompactSize bs1 of
             None \<Rightarrow> Err ''invalid transaction output script''
           | Some (script_size, bs2) \<Rightarrow>
               (case Skip (unat script_size) bs2 of
                  None \<Rightarrow> Err ''invalid transaction output script''
                | Some (_, bs3) \<Rightarrow> scan_outputs n bs3)))"

fun scan_items :: "nat \<Rightarrow> byte list \<Rightarrow> byte list Result" where
  "scan_items 0 bs = Ok bs"
| "scan_items (Suc n) bs =
     (case CompactSize bs of
        None \<Rightarrow> Err ''invalid transaction witness item''
      | Some (item_size, bs1) \<Rightarrow>
          (case Skip (unat item_size) bs1 of
             None \<Rightarrow> Err ''invalid transaction witness item''
           | Some (_, bs2) \<Rightarrow> scan_items n bs2))"

fun scan_witness :: "nat \<Rightarrow> bool \<Rightarrow> byte list \<Rightarrow> (bool \<times> byte list) Result" where
  "scan_witness 0 has_witness bs = Ok (has_witness, bs)"
| "scan_witness (Suc n) has_witness bs =
     (case CompactSize bs of
        None \<Rightarrow> Err ''invalid transaction witness item count''
      | Some (items, bs1) \<Rightarrow>
          if unat items > length bs1 then Err ''invalid transaction witness item count''
          else and_then (scan_items (unat items) bs1) (\<lambda>bs2. scan_witness n (has_witness \<or> items \<noteq> 0) bs2))"

text \<open>The version, the witness marker and the number of inputs: whether there is a marker, the offset
  after it, the number and the bytes after that.\<close>

definition scan_prefix :: "byte list \<Rightarrow> (bool \<times> nat \<times> u64 \<times> byte list) Result" where
  "scan_prefix bytes =
     (case Skip 4 bytes of
        None \<Rightarrow> Err ''truncated transaction version or input count''
      | Some (_, bs1) \<Rightarrow>
          (case CompactSize bs1 of
             None \<Rightarrow> Err ''truncated transaction version or input count''
           | Some (n, bs2) \<Rightarrow>
               if n = 0
               then (case LE 1 bs2 of
                       None \<Rightarrow> Err ''invalid transaction witness flag''
                     | Some (flag :: u8, bs3) \<Rightarrow>
                         if flag \<noteq> 1 then Err ''invalid transaction witness flag''
                         else (case CompactSize bs3 of
                                 None \<Rightarrow> Err ''invalid witness transaction input count''
                               | Some (m, bs4) \<Rightarrow> Ok (True, length bytes - length bs3, m, bs4)))
               else Ok (False, 4, n, bs2)))"

definition ScanTransaction :: "byte list \<Rightarrow> (TransactionLayout \<times> OutPoint list \<times> nat list) Result" where
  "ScanTransaction bytes =
     and_then (scan_prefix bytes) (\<lambda>(has_marker, start, n, bs).
       if n = 0 \<or> unat n > MAX_INPUTS \<or> unat n > length bs div 41 then Err ''invalid transaction input count''
       else and_then (scan_inputs (length bytes) (unat n) bs) (\<lambda>(inputs, offsets, bs1).
         case CompactSize bs1 of
           None \<Rightarrow> Err ''invalid transaction output count''
         | Some (m, bs2) \<Rightarrow>
             if m = 0 \<or> unat m > length bs2 div 9 then Err ''invalid transaction output count''
             else and_then (scan_outputs (unat m) bs2) (\<lambda>bs3.
               and_then (if has_marker then scan_witness (unat n) False bs3 else Ok (True, bs3)) (\<lambda>(has_witness, bs4).
                 if \<not> has_witness then Err ''superfluous witness serialization''
                 else case Skip 4 bs4 of
                        None \<Rightarrow> Err ''truncated transaction locktime''
                      | Some (_, bs5) \<Rightarrow>
                          Ok (\<lparr>input_start = start, outputs_end = length bytes - length bs3,
                               layout_size = length bytes - length bs5, layout_witness = has_marker\<rparr>, inputs, offsets)))))"

definition DoubleSha256 :: "byte list \<Rightarrow> hash256" where
  "DoubleSha256 bytes = Sha256 (Bytes (Sha256 bytes))"

record Transaction =
  m_bytes :: "byte list"
  m_inputs :: "OutPoint list"
  m_vout_offsets :: "nat list"
  m_txid :: hash256
  m_wtxid :: hash256
  m_has_witness :: bool

definition strip_witness :: "byte list \<Rightarrow> TransactionLayout \<Rightarrow> byte list" where
  "strip_witness raw layout =
     take 4 raw @ take (outputs_end layout - input_start layout) (drop (input_start layout) raw) @ drop (length raw - 4) raw"

definition Transaction_Parse :: "byte list \<Rightarrow> u64 \<Rightarrow> Transaction Result" where
  "Transaction_Parse raw max_payload_bytes =
     (if length raw > min (unat max_payload_bytes) MAX_TX_PAYLOAD then Err ''raw transaction payload exceeds maximum''
      else and_then (ScanTransaction raw) (\<lambda>(layout, inputs, offsets).
        if layout_size layout \<noteq> length raw then Err ''trailing raw transaction bytes''
        else Ok \<lparr>m_bytes = raw, m_inputs = inputs, m_vout_offsets = offsets,
               m_txid = (if layout_witness layout then DoubleSha256 (strip_witness raw layout) else DoubleSha256 raw),
               m_wtxid = DoubleSha256 raw, m_has_witness = layout_witness layout\<rparr>))"

section \<open>The grammar\<close>

record tx_input =
  in_txid :: hash256
  in_vout :: u32
  in_script :: "byte list"
  in_sequence :: "byte list"

type_synonym tx_output = "byte list \<times> byte list"

record tx_fields =
  tx_version :: "byte list"
  tx_inputs :: "tx_input list"
  tx_outputs :: "tx_output list"
  tx_witness :: "byte list list list option"
  tx_locktime :: "byte list"

definition sized :: "byte list \<Rightarrow> byte list" where
  "sized s = AppendCompactSize (of_nat (length s)) @ s"

definition input_bytes :: "tx_input \<Rightarrow> byte list" where
  "input_bytes i = Bytes (in_txid i) @ write_le 4 (in_vout i) @ sized (in_script i) @ in_sequence i"

definition output_bytes :: "tx_output \<Rightarrow> byte list" where
  "output_bytes x = fst x @ sized (snd x)"

definition stack_bytes :: "byte list list \<Rightarrow> byte list" where
  "stack_bytes st = AppendCompactSize (of_nat (length st)) @ concat (map sized st)"

definition marker :: "tx_fields \<Rightarrow> byte list" where
  "marker t = (if tx_witness t = None then [] else [0, 1])"

definition witness_bytes :: "tx_fields \<Rightarrow> byte list" where
  "witness_bytes t = (case tx_witness t of None \<Rightarrow> [] | Some sts \<Rightarrow> concat (map stack_bytes sts))"

definition body_bytes :: "tx_fields \<Rightarrow> byte list" where
  "body_bytes t =
     AppendCompactSize (of_nat (length (tx_inputs t))) @ concat (map input_bytes (tx_inputs t)) @
     AppendCompactSize (of_nat (length (tx_outputs t))) @ concat (map output_bytes (tx_outputs t))"

definition tx_bytes :: "tx_fields \<Rightarrow> byte list" where
  "tx_bytes t = tx_version t @ marker t @ body_bytes t @ witness_bytes t @ tx_locktime t"

definition fits :: "'a list \<Rightarrow> bool" where
  "fits xs \<longleftrightarrow> length xs < 2 ^ 64"

definition input_ok :: "tx_input \<Rightarrow> bool" where
  "input_ok i \<longleftrightarrow> fits (in_script i) \<and> length (in_sequence i) = 4"

definition output_ok :: "tx_output \<Rightarrow> bool" where
  "output_ok x \<longleftrightarrow> length (fst x) = 8 \<and> fits (snd x)"

definition stack_ok :: "byte list list \<Rightarrow> bool" where
  "stack_ok st \<longleftrightarrow> fits st \<and> (\<forall>s \<in> set st. fits s)"

definition tx_ok :: "tx_fields \<Rightarrow> bool" where
  "tx_ok t \<longleftrightarrow>
     length (tx_version t) = 4 \<and> length (tx_locktime t) = 4 \<and>
     tx_inputs t \<noteq> [] \<and> length (tx_inputs t) \<le> MAX_INPUTS \<and> (\<forall>i \<in> set (tx_inputs t). input_ok i) \<and>
     tx_outputs t \<noteq> [] \<and> fits (tx_outputs t) \<and> (\<forall>x \<in> set (tx_outputs t). output_ok x) \<and>
     (\<forall>sts. tx_witness t = Some sts \<longrightarrow>
        length sts = length (tx_inputs t) \<and> (\<forall>st \<in> set sts. stack_ok st) \<and> (\<exists>st \<in> set sts. st \<noteq> []))"

fun vout_offsets :: "nat \<Rightarrow> tx_input list \<Rightarrow> nat list" where
  "vout_offsets start [] = []"
| "vout_offsets start (i # is) = (start + 32) # vout_offsets (start + length (input_bytes i)) is"

section \<open>Pieces\<close>

lemma AppendCompactSize_not_Nil [simp]: "AppendCompactSize v \<noteq> []"
  using AppendCompactSize_pos [of v] by (simp del: AppendCompactSize_pos)

lemma unat_of_fits: "fits xs \<Longrightarrow> unat (of_nat (length xs) :: u64) = length xs"
  by (simp add: fits_def unat_of_nat)

lemma sized_iff:
  "(\<exists>n bs1. CompactSize bs = Some (n, bs1) \<and> Skip (unat n) bs1 = Some (u, rest)) \<longleftrightarrow> (\<exists>s. fits s \<and> bs = sized s @ rest)"
proof
  assume "\<exists>n bs1. CompactSize bs = Some (n, bs1) \<and> Skip (unat n) bs1 = Some (u, rest)"
  then obtain n s where "length s = unat n" "bs = AppendCompactSize n @ s @ rest"
    by (auto simp: CompactSize_iff Skip_iff)
  then show "\<exists>s. fits s \<and> bs = sized s @ rest"
    using unat_u64_less [of n] by (intro exI [of _ s]) (simp add: sized_def fits_def)
next
  assume "\<exists>s. fits s \<and> bs = sized s @ rest"
  then obtain s where s: "fits s" "bs = AppendCompactSize (of_nat (length s)) @ s @ rest" by (auto simp: sized_def)
  then show "\<exists>n bs1. CompactSize bs = Some (n, bs1) \<and> Skip (unat n) bs1 = Some (u, rest)"
    using unat_of_fits [OF s(1)] by (intro exI [of _ "of_nat (length s)"] exI [of _ "s @ rest"]) (auto simp: CompactSize_iff Skip_iff)
qed

lemma ex_length_Suc:
  "(\<exists>xs. length xs = Suc n \<and> (\<forall>x \<in> set xs. P x) \<and> Q xs) \<longleftrightarrow>
   (\<exists>x xs. P x \<and> length xs = n \<and> (\<forall>x \<in> set xs. P x) \<and> Q (x # xs))"
proof
  assume "\<exists>xs. length xs = Suc n \<and> (\<forall>x \<in> set xs. P x) \<and> Q xs"
  then obtain x xs where "length (x # xs) = Suc n" "\<forall>y \<in> set (x # xs). P y" "Q (x # xs)" by (metis length_Suc_conv)
  then show "\<exists>x xs. P x \<and> length xs = n \<and> (\<forall>x \<in> set xs. P x) \<and> Q (x # xs)" by auto
next
  assume "\<exists>x xs. P x \<and> length xs = n \<and> (\<forall>x \<in> set xs. P x) \<and> Q (x # xs)"
  then obtain x xs where "P x" "length xs = n" "\<forall>x \<in> set xs. P x" "Q (x # xs)" by blast
  then show "\<exists>xs. length xs = Suc n \<and> (\<forall>x \<in> set xs. P x) \<and> Q xs" by (intro exI [of _ "x # xs"]) simp
qed

lemma scan_items_iff:
  "scan_items n bs = Ok rest \<longleftrightarrow> (\<exists>st. length st = n \<and> (\<forall>s \<in> set st. fits s) \<and> bs = concat (map sized st) @ rest)"
proof (induction n arbitrary: bs)
  case (Suc n)
  have "scan_items (Suc n) bs = Ok rest \<longleftrightarrow>
      (\<exists>bs2. (\<exists>k bs1. CompactSize bs = Some (k, bs1) \<and> Skip (unat k) bs1 = Some ((), bs2)) \<and> scan_items n bs2 = Ok rest)"
    by (auto split: option.splits)
  also have "\<dots> \<longleftrightarrow> (\<exists>s st. fits s \<and> length st = n \<and> (\<forall>s \<in> set st. fits s) \<and> bs = sized s @ concat (map sized st) @ rest)"
    unfolding sized_iff Suc.IH by blast
  also have "\<dots> \<longleftrightarrow> (\<exists>st. length st = Suc n \<and> (\<forall>s \<in> set st. fits s) \<and> bs = concat (map sized st) @ rest)"
    unfolding ex_length_Suc by simp
  finally show ?case .
qed auto

lemma length_concat_ge: "(\<And>x. x \<in> set xs \<Longrightarrow> k \<le> length (f x)) \<Longrightarrow> k * length xs \<le> length (concat (map f xs))"
  by (induction xs) fastforce+

lemma stack_iff:
  "(\<exists>k bs1. CompactSize bs = Some (k, bs1) \<and> unat k \<le> length bs1 \<and> scan_items (unat k) bs1 = Ok rest \<and> (k \<noteq> 0) = b) \<longleftrightarrow>
   (\<exists>st. stack_ok st \<and> bs = stack_bytes st @ rest \<and> (st \<noteq> []) = b)"
proof
  assume "\<exists>k bs1. CompactSize bs = Some (k, bs1) \<and> unat k \<le> length bs1 \<and> scan_items (unat k) bs1 = Ok rest \<and> (k \<noteq> 0) = b"
  then obtain k st where k: "length st = unat k" "\<forall>s \<in> set st. fits s" "bs = AppendCompactSize k @ concat (map sized st) @ rest"
      "(k \<noteq> 0) = b"
    by (auto simp: CompactSize_iff scan_items_iff)
  then have "k = of_nat (length st)" "fits st" using unat_u64_less [of k] by (auto simp: fits_def)
  moreover have "(st \<noteq> []) = b" using k(1,4) by (metis length_0_conv unat_eq_zero)
  ultimately show "\<exists>st. stack_ok st \<and> bs = stack_bytes st @ rest \<and> (st \<noteq> []) = b"
    using k by (intro exI [of _ st]) (simp add: stack_ok_def stack_bytes_def)
next
  assume "\<exists>st. stack_ok st \<and> bs = stack_bytes st @ rest \<and> (st \<noteq> []) = b"
  then obtain st where st: "fits st" "\<forall>s \<in> set st. fits s" "(st \<noteq> []) = b"
      "bs = AppendCompactSize (of_nat (length st)) @ concat (map sized st) @ rest"
    by (auto simp: stack_ok_def stack_bytes_def)
  let ?k = "of_nat (length st) :: u64"
  have u: "unat ?k = length st" using unat_of_fits [OF st(1)] .
  have "1 * length st \<le> length (concat (map sized st))" by (rule length_concat_ge) (simp add: sized_def Suc_le_eq)
  moreover have "(?k \<noteq> 0) = b" using u st(3) by (metis length_0_conv unat_0 unat_eq_zero)
  moreover have "scan_items (length st) (concat (map sized st) @ rest) = Ok rest"
    unfolding scan_items_iff using st(2) by blast
  ultimately show "\<exists>k bs1. CompactSize bs = Some (k, bs1) \<and> unat k \<le> length bs1 \<and> scan_items (unat k) bs1 = Ok rest \<and> (k \<noteq> 0) = b"
    using u st(4) by (intro exI [of _ ?k] exI [of _ "concat (map sized st) @ rest"]) (simp add: CompactSize_iff)
qed

lemma scan_witness_iff:
  "scan_witness n h bs = Ok (h', rest) \<longleftrightarrow>
   (\<exists>sts. length sts = n \<and> (\<forall>st \<in> set sts. stack_ok st) \<and> bs = concat (map stack_bytes sts) @ rest \<and>
      h' = (h \<or> (\<exists>st \<in> set sts. st \<noteq> [])))"
proof (induction n arbitrary: bs h)
  case (Suc n)
  have "scan_witness (Suc n) h bs = Ok (h', rest) \<longleftrightarrow>
      (\<exists>b bs2. (\<exists>k bs1. CompactSize bs = Some (k, bs1) \<and> unat k \<le> length bs1 \<and> scan_items (unat k) bs1 = Ok bs2 \<and> (k \<noteq> 0) = b) \<and>
        scan_witness n (h \<or> b) bs2 = Ok (h', rest))"
    by (auto simp: result_simps not_less split: option.splits)
  also have "\<dots> \<longleftrightarrow> (\<exists>st sts. stack_ok st \<and> length sts = n \<and> (\<forall>st \<in> set sts. stack_ok st) \<and>
      (bs = stack_bytes st @ concat (map stack_bytes sts) @ rest \<and> h' = (h \<or> st \<noteq> [] \<or> (\<exists>st \<in> set sts. st \<noteq> []))))"
    (is "?L \<longleftrightarrow> ?R")
  proof
    assume ?L
    then obtain b bs2 st sts where "stack_ok st" "bs = stack_bytes st @ bs2" "(st \<noteq> []) = b" "length sts = n"
        "\<forall>st \<in> set sts. stack_ok st" "bs2 = concat (map stack_bytes sts) @ rest" "h' = ((h \<or> b) \<or> (\<exists>st \<in> set sts. st \<noteq> []))"
      unfolding stack_iff Suc.IH by blast
    then show ?R by (intro exI [of _ st] exI [of _ sts]) auto
  next
    assume ?R
    then obtain st sts where "stack_ok st" "length sts = n" "\<forall>st \<in> set sts. stack_ok st"
        "bs = stack_bytes st @ concat (map stack_bytes sts) @ rest" "h' = (h \<or> st \<noteq> [] \<or> (\<exists>st \<in> set sts. st \<noteq> []))" by blast
    then show ?L unfolding stack_iff Suc.IH
      by (intro exI [of _ "st \<noteq> []"] exI [of _ "concat (map stack_bytes sts) @ rest"] conjI exI [of _ st] exI [of _ sts]) auto
  qed
  finally show ?case unfolding ex_length_Suc by simp
qed auto

lemma scan_outputs_iff:
  "scan_outputs n bs = Ok rest \<longleftrightarrow> (\<exists>xs. length xs = n \<and> (\<forall>x \<in> set xs. output_ok x) \<and> bs = concat (map output_bytes xs) @ rest)"
proof (induction n arbitrary: bs)
  case (Suc n)
  have "scan_outputs (Suc n) bs = Ok rest \<longleftrightarrow>
      (\<exists>v bs3. length v = 8 \<and> (\<exists>bs1. bs = v @ bs1 \<and> (\<exists>k bs2. CompactSize bs1 = Some (k, bs2) \<and> Skip (unat k) bs2 = Some ((), bs3))) \<and>
        scan_outputs n bs3 = Ok rest)"
    using Skip_iff [of 8 bs] by (auto split: option.splits) blast+
  also have "\<dots> \<longleftrightarrow> (\<exists>v s xs. length v = 8 \<and> fits s \<and> length xs = n \<and> (\<forall>x \<in> set xs. output_ok x) \<and>
      bs = v @ sized s @ concat (map output_bytes xs) @ rest)"
    unfolding sized_iff Suc.IH by blast
  also have "\<dots> \<longleftrightarrow> (\<exists>x xs. output_ok x \<and> length xs = n \<and> (\<forall>x \<in> set xs. output_ok x) \<and>
      bs = concat (map output_bytes (x # xs)) @ rest)"
    by (auto simp: output_ok_def output_bytes_def)
  finally show ?case unfolding ex_length_Suc .
qed auto

definition input_outpoint :: "tx_input \<Rightarrow> OutPoint" where
  "input_outpoint i = \<lparr>op_txid = in_txid i, op_index = in_vout i\<rparr>"

lemma scan_input_step:
  assumes "input_ok i" "scan_inputs whole n bs = Ok (ops, offs, rest)" "length (input_bytes i @ bs) \<le> whole"
  shows "scan_inputs whole (Suc n) (input_bytes i @ bs) =
    Ok (input_outpoint i # ops, (whole - length (input_bytes i @ bs) + 32) # offs, rest)"
proof -
  let ?b2 = "sized (in_script i) @ in_sequence i @ bs"
  have "ReadHash (input_bytes i @ bs) = Some (in_txid i, write_le 4 (in_vout i) @ ?b2)"
    by (simp add: hashes.dec_iff input_bytes_def)
  moreover have "LE 4 (write_le 4 (in_vout i) @ ?b2) = Some (in_vout i, ?b2)" by (simp only: LE_widths)
  moreover obtain k b3 where "CompactSize ?b2 = Some (k, b3)" "Skip (unat k) b3 = Some ((), in_sequence i @ bs)"
    using sized_iff [of ?b2 "()" "in_sequence i @ bs"] assms(1) by (auto simp: input_ok_def)
  moreover have "Skip 4 (in_sequence i @ bs) = Some ((), bs)" using assms(1) by (auto simp: Skip_iff input_ok_def)
  moreover have "whole - length (write_le 4 (in_vout i) @ ?b2) = whole - length (input_bytes i @ bs) + 32"
    using assms(3) by (simp add: input_bytes_def)
  ultimately show ?thesis using assms(2) by (simp add: Let_def input_outpoint_def del: length_append)
qed

lemma scan_input_stepE:
  assumes "scan_inputs whole (Suc n) bs = Ok (ops, offs, rest)"
  obtains i bs' ops' offs' where "input_ok i" "bs = input_bytes i @ bs'" "scan_inputs whole n bs' = Ok (ops', offs', rest)"
proof -
  obtain txid bs1 bs2 k bs3 bs4 bs5 ops' offs' and vout :: u32 where r: "ReadHash bs = Some (txid, bs1)" "LE 4 bs1 = Some (vout, bs2)"
      "CompactSize bs2 = Some (k, bs3)" "Skip (unat k) bs3 = Some ((), bs4)" "Skip 4 bs4 = Some ((), bs5)"
      "scan_inputs whole n bs5 = Ok (ops', offs', rest)"
    using assms by (auto simp: result_simps Let_def split: option.splits prod.splits)
  obtain s where s: "fits s" "bs2 = sized s @ bs4" using sized_iff [of bs2 "()" bs4] r(3,4) by blast
  obtain q where q: "length q = 4" "bs4 = q @ bs5" using r(5) by (auto simp: Skip_iff)
  have "bs = Bytes txid @ bs1" using r(1) by (simp add: hashes.dec_iff)
  moreover have "bs1 = write_le 4 vout @ bs2" using r(2) by (simp only: LE_widths)
  ultimately have "bs = input_bytes \<lparr>in_txid = txid, in_vout = vout, in_script = s, in_sequence = q\<rparr> @ bs5"
    using s q by (simp add: input_bytes_def)
  moreover have "input_ok \<lparr>in_txid = txid, in_vout = vout, in_script = s, in_sequence = q\<rparr>"
    using s(1) q(1) by (simp add: input_ok_def)
  ultimately show thesis using that [OF _ _ r(6)] by blast
qed

lemma scan_inputs_Ok:
  "\<forall>i \<in> set is. input_ok i \<Longrightarrow> length (concat (map input_bytes is) @ rest) \<le> whole \<Longrightarrow>
   scan_inputs whole (length is) (concat (map input_bytes is) @ rest) =
     Ok (map input_outpoint is, vout_offsets (whole - length (concat (map input_bytes is) @ rest)) is, rest)"
proof (induction "is")
  case (Cons i "is")
  have "scan_inputs whole (length is) (concat (map input_bytes is) @ rest) =
      Ok (map input_outpoint is, vout_offsets (whole - length (concat (map input_bytes is) @ rest)) is, rest)"
    using Cons by simp
  from scan_input_step [OF _ this, of i] Cons.prems
  have "scan_inputs whole (Suc (length is)) (input_bytes i @ concat (map input_bytes is) @ rest) =
      Ok (input_outpoint i # map input_outpoint is, (whole - length (input_bytes i @ concat (map input_bytes is) @ rest) + 32) #
        vout_offsets (whole - length (concat (map input_bytes is) @ rest)) is, rest)" by simp
  moreover have "whole - length (concat (map input_bytes is) @ rest) =
      whole - length (input_bytes i @ concat (map input_bytes is) @ rest) + length (input_bytes i)"
    using Cons.prems(2) by simp
  ultimately show ?case by (simp del: length_append)
qed simp

lemma scan_inputsE:
  "scan_inputs whole n bs = Ok (ops, offs, rest) \<Longrightarrow>
   \<exists>is. length is = n \<and> (\<forall>i \<in> set is. input_ok i) \<and> bs = concat (map input_bytes is) @ rest"
proof (induction n arbitrary: bs ops offs)
  case (Suc n)
  from scan_input_stepE [OF Suc.prems] obtain i bs' ops' offs' where
    i: "input_ok i" "bs = input_bytes i @ bs'" "scan_inputs whole n bs' = Ok (ops', offs', rest)" .
  from Suc.IH [OF i(3)] obtain "is" where "length is = n" "\<forall>i \<in> set is. input_ok i" "bs' = concat (map input_bytes is) @ rest" by blast
  then show ?case using i by (intro exI [of _ "i # is"]) simp
qed simp

section \<open>The whole transaction\<close>

definition layout_of :: "tx_fields \<Rightarrow> TransactionLayout" where
  "layout_of t =
     \<lparr>input_start = 4 + length (marker t), outputs_end = 4 + length (marker t) + length (body_bytes t),
      layout_size = length (tx_bytes t), layout_witness = (tx_witness t \<noteq> None)\<rparr>"

definition offsets_of :: "tx_fields \<Rightarrow> nat list" where
  "offsets_of t =
     vout_offsets (4 + length (marker t) + length (AppendCompactSize (of_nat (length (tx_inputs t))))) (tx_inputs t)"

lemma AppendCompactSize_0: "AppendCompactSize 0 = [0]"
  by (simp add: AppendCompactSize_def)

lemma scan_prefix_Ok:
  assumes "length v = 4" "n \<noteq> 0"
  shows "scan_prefix (v @ AppendCompactSize n @ bs) = Ok (False, 4, n, bs)"
    and "scan_prefix (v @ [0, 1] @ AppendCompactSize n @ bs) = Ok (True, 6, n, bs)"
proof -
  have s: "Skip 4 (v @ xs) = Some ((), xs)" for xs using assms(1) by (auto simp: Skip_iff)
  have c: "CompactSize (AppendCompactSize n @ bs) = Some (n, bs)" by (simp add: CompactSize_iff)
  show "scan_prefix (v @ AppendCompactSize n @ bs) = Ok (False, 4, n, bs)"
    using s c assms(2) by (simp add: scan_prefix_def)
  have z: "CompactSize (0 # xs) = Some (0, xs)" for xs by (simp add: CompactSize_iff AppendCompactSize_0)
  have l: "LE 1 (1 # xs) = Some (1 :: u8, xs)" for xs by (simp only: LE_widths)
  show "scan_prefix (v @ [0, 1] @ AppendCompactSize n @ bs) = Ok (True, 6, n, bs)"
    using s [of "0 # 1 # AppendCompactSize n @ bs"] c z l assms(1) by (simp add: scan_prefix_def)
qed

lemma scan_prefixE:
  assumes "scan_prefix bytes = Ok (m, start, n, bs)"
  obtains v where "length v = 4" "bytes = v @ (if m then [0, 1] else []) @ AppendCompactSize n @ bs"
proof -
  obtain bs1 where s4: "Skip 4 bytes = Some ((), bs1)" using assms by (auto simp: scan_prefix_def split: option.splits)
  then obtain v where v: "Skip 4 bytes = Some ((), bs1)" "length v = 4" "bytes = v @ bs1" by (auto simp: Skip_iff)
  obtain k bs2 where k: "CompactSize bs1 = Some (k, bs2)" using assms v(1) by (auto simp: scan_prefix_def split: option.splits)
  then have bs1: "bs1 = AppendCompactSize k @ bs2" by (simp add: CompactSize_iff)
  show thesis
  proof (cases "k = 0")
    case True
    then obtain bs3 where "LE 1 bs2 = Some (1 :: u8, bs3)" "CompactSize bs3 = Some (n, bs)" "m"
      using assms v(1) k by (auto simp: scan_prefix_def split: option.splits if_splits)
    then have "bs2 = 1 # bs3" "bs3 = AppendCompactSize n @ bs" by (simp_all only: LE_widths CompactSize_iff)
    then show thesis using that [of v] v bs1 True \<open>m\<close> by (simp add: AppendCompactSize_0)
  next
    case False
    then show thesis using that [of v] assms v k bs1 by (simp add: scan_prefix_def)
  qed
qed

lemma tx_bytes_parts:
  "tx_bytes t @ rest = tx_version t @ marker t @ AppendCompactSize (of_nat (length (tx_inputs t))) @
     concat (map input_bytes (tx_inputs t)) @ AppendCompactSize (of_nat (length (tx_outputs t))) @
     concat (map output_bytes (tx_outputs t)) @ witness_bytes t @ tx_locktime t @ rest"
  by (simp add: tx_bytes_def body_bytes_def)

lemma witness_scan:
  assumes "tx_ok t"
  shows "(if tx_witness t \<noteq> None then scan_witness (length (tx_inputs t)) False (witness_bytes t @ rest) else Ok (True, witness_bytes t @ rest)) =
    Ok (True, rest)"
proof (cases "tx_witness t")
  case (Some sts)
  then have "length sts = length (tx_inputs t)" "\<forall>st \<in> set sts. stack_ok st" "\<exists>st \<in> set sts. st \<noteq> []"
    using assms by (auto simp: tx_ok_def)
  then have "scan_witness (length (tx_inputs t)) False (witness_bytes t @ rest) = Ok (True, rest)"
    unfolding scan_witness_iff using Some by (auto simp: witness_bytes_def)
  then show ?thesis using Some by simp
qed (simp add: witness_bytes_def)

lemma ScanTransaction_complete:
  assumes ok: "tx_ok t"
  shows "ScanTransaction (tx_bytes t @ rest) = Ok (layout_of t, map input_outpoint (tx_inputs t), offsets_of t)"
proof -
  let ?n = "of_nat (length (tx_inputs t)) :: u64" and ?m = "of_nat (length (tx_outputs t)) :: u64"
  define b4 where "b4 = tx_locktime t @ rest"
  define b3 where "b3 = witness_bytes t @ b4"
  define b2 where "b2 = concat (map output_bytes (tx_outputs t)) @ b3"
  define b1 where "b1 = AppendCompactSize ?m @ b2"
  define b0 where "b0 = concat (map input_bytes (tx_inputs t)) @ b1"
  define bytes where "bytes = tx_bytes t @ rest"
  have parts: "bytes = tx_version t @ marker t @ AppendCompactSize ?n @ b0"
    by (simp add: bytes_def tx_bytes_parts b0_def b1_def b2_def b3_def b4_def)
  have fi: "fits (tx_inputs t)" "fits (tx_outputs t)" "length (tx_version t) = 4" "length (tx_locktime t) = 4"
    using ok by (auto simp: tx_ok_def fits_def MAX_INPUTS_def MAX_TX_PAYLOAD_def)
  have un: "unat ?n = length (tx_inputs t)" "unat ?m = length (tx_outputs t)" using unat_of_fits fi by blast+
  have nz: "?n \<noteq> 0" "?m \<noteq> 0" using un ok by (metis length_0_conv tx_ok_def unat_0)+
  have prefix: "scan_prefix bytes = Ok (tx_witness t \<noteq> None, 4 + length (marker t), ?n, b0)"
    unfolding parts using scan_prefix_Ok [OF fi(3) nz(1), of b0] by (simp add: marker_def)
  have "41 * length (tx_inputs t) \<le> length (concat (map input_bytes (tx_inputs t)))"
    by (rule length_concat_ge) (use ok in \<open>auto simp: tx_ok_def input_ok_def input_bytes_def sized_def Suc_le_eq\<close>)
  then have n41: "length (tx_inputs t) \<le> length b0 div 41" by (simp add: b0_def)
  have "9 * length (tx_outputs t) \<le> length (concat (map output_bytes (tx_outputs t)))"
    by (rule length_concat_ge) (use ok in \<open>auto simp: tx_ok_def output_ok_def output_bytes_def sized_def Suc_le_eq\<close>)
  then have m9: "length (tx_outputs t) \<le> length b2 div 9" by (simp add: b2_def)
  have "length bytes - length b0 = 4 + length (marker t) + length (AppendCompactSize ?n)"
    using fi(3) by (simp add: parts)
  moreover have "length b0 \<le> length bytes" by (simp add: parts)
  ultimately have ins: "scan_inputs (length bytes) (length (tx_inputs t)) b0 = Ok (map input_outpoint (tx_inputs t), offsets_of t, b1)"
    using scan_inputs_Ok [of "tx_inputs t" b1 "length bytes"] ok by (simp add: b0_def offsets_of_def tx_ok_def)
  have outs: "scan_outputs (length (tx_outputs t)) b2 = Ok b3"
    unfolding scan_outputs_iff b2_def using ok by (auto simp: tx_ok_def)
  have wit: "(if tx_witness t \<noteq> None then scan_witness (length (tx_inputs t)) False b3 else Ok (True, b3)) = Ok (True, b4)"
    unfolding b3_def by (rule witness_scan [OF ok])
  have c: "CompactSize b1 = Some (?m, b2)" by (simp add: b1_def CompactSize_iff)
  have lock: "Skip 4 b4 = Some ((), rest)" using fi(4) by (auto simp: Skip_iff b4_def)
  have ends: "length bytes - length b3 = 4 + length (marker t) + length (body_bytes t)"
    using fi(3) by (simp add: parts b0_def b1_def b2_def body_bytes_def)
  have whole: "length bytes - length rest = length (tx_bytes t)" by (simp add: bytes_def)
  show ?thesis
    unfolding ScanTransaction_def bytes_def [symmetric] prefix
    using un nz n41 m9 ins outs wit c lock ends whole ok
    by (cases "tx_witness t") (simp_all add: layout_of_def tx_ok_def)
qed

lemma of_nat_count: "length xs = unat (k :: u64) \<Longrightarrow> of_nat (length xs) = k \<and> fits xs"
  using unat_u64_less [of k] by (simp add: fits_def)

lemma ScanTransaction_sound:
  assumes "ScanTransaction bytes = Ok r"
  shows "\<exists>t rest. tx_ok t \<and> bytes = tx_bytes t @ rest"
proof -
  obtain m start n b0 ops offs b1 k b2 b3 h b4 b5 where r: "scan_prefix bytes = Ok (m, start, n, b0)"
      "n \<noteq> 0" "unat n \<le> MAX_INPUTS" "scan_inputs (length bytes) (unat n) b0 = Ok (ops, offs, b1)"
      "CompactSize b1 = Some (k, b2)" "k \<noteq> 0" "scan_outputs (unat k) b2 = Ok b3"
      "(if m then scan_witness (unat n) False b3 else Ok (True, b3)) = Ok (h, b4)" "h" "Skip 4 b4 = Some ((), b5)"
    using assms by (auto simp: ScanTransaction_def result_simps not_less split: option.splits if_splits prod.splits) metis+
  obtain v where v: "length v = 4" "bytes = v @ (if m then [0, 1] else []) @ AppendCompactSize n @ b0" using scan_prefixE [OF r(1)] .
  obtain "is" where i: "length is = unat n" "\<forall>i \<in> set is. input_ok i" "b0 = concat (map input_bytes is) @ b1" using scan_inputsE [OF r(4)] by blast
  obtain xs where x: "length xs = unat k" "\<forall>x \<in> set xs. output_ok x" "b2 = concat (map output_bytes xs) @ b3" using r(7) unfolding scan_outputs_iff by blast
  obtain lock where lock: "length lock = 4" "b4 = lock @ b5" using r(10) by (auto simp: Skip_iff)
  have b1: "b1 = AppendCompactSize k @ b2" using r(5) by (simp add: CompactSize_iff)
  have cnt: "of_nat (length is) = n" "of_nat (length xs) = k" "fits xs" "is \<noteq> []" "xs \<noteq> []"
    using of_nat_count [OF i(1)] of_nat_count [OF x(1)] r(2,6) by auto
  show ?thesis
  proof (cases m)
    case True
    then have "scan_witness (unat n) False b3 = Ok (True, b4)" using r(8,9) by simp
    then obtain sts where w: "length sts = unat n" "\<forall>st \<in> set sts. stack_ok st" "b3 = concat (map stack_bytes sts) @ b4" "\<exists>st \<in> set sts. st \<noteq> []"
      unfolding scan_witness_iff by auto
    let ?t = "\<lparr>tx_version = v, tx_inputs = is, tx_outputs = xs, tx_witness = Some sts, tx_locktime = lock\<rparr>"
    have "tx_ok ?t" using v i x w lock cnt r(3) by (simp add: tx_ok_def)
    moreover have "bytes = tx_bytes ?t @ b5"
      using v(2) i(3) x(3) w(3) lock(2) b1 cnt(1,2) True by (simp add: tx_bytes_parts marker_def witness_bytes_def)
    ultimately show ?thesis by blast
  next
    case False
    let ?t = "\<lparr>tx_version = v, tx_inputs = is, tx_outputs = xs, tx_witness = None, tx_locktime = lock\<rparr>"
    have "tx_ok ?t" using v i x lock cnt r(3) by (simp add: tx_ok_def)
    moreover have "bytes = tx_bytes ?t @ b5"
      using v(2) i(3) x(3) r(8) lock(2) b1 cnt(1,2) False by (simp add: tx_bytes_parts marker_def witness_bytes_def)
    ultimately show ?thesis by blast
  qed
qed

lemma strip_witness_tx_bytes:
  assumes "tx_ok t"
  shows "strip_witness (tx_bytes t) (layout_of t) = tx_bytes (t\<lparr>tx_witness := None\<rparr>)"
  using assms by (simp add: tx_ok_def strip_witness_def layout_of_def tx_bytes_def body_bytes_def marker_def witness_bytes_def)

lemma Transaction_Parse_iff:
  "Transaction_Parse raw mx = Ok tx \<longleftrightarrow>
   (\<exists>t. tx_ok t \<and> raw = tx_bytes t \<and> length raw \<le> min (unat mx) MAX_TX_PAYLOAD \<and>
      tx = \<lparr>m_bytes = raw, m_inputs = map input_outpoint (tx_inputs t), m_vout_offsets = offsets_of t,
            m_txid = DoubleSha256 (tx_bytes (t\<lparr>tx_witness := None\<rparr>)), m_wtxid = DoubleSha256 raw,
            m_has_witness = (tx_witness t \<noteq> None)\<rparr>)"
    (is "?L \<longleftrightarrow> (\<exists>t. ?R t)")
proof -
  have parse: "Transaction_Parse (tx_bytes t @ rest) mx = Ok tx \<longleftrightarrow>
      rest = [] \<and> length (tx_bytes t) \<le> min (unat mx) MAX_TX_PAYLOAD \<and>
      tx = \<lparr>m_bytes = tx_bytes t, m_inputs = map input_outpoint (tx_inputs t), m_vout_offsets = offsets_of t,
            m_txid = DoubleSha256 (tx_bytes (t\<lparr>tx_witness := None\<rparr>)), m_wtxid = DoubleSha256 (tx_bytes t),
            m_has_witness = (tx_witness t \<noteq> None)\<rparr>" if "tx_ok t" for t rest
  proof (cases "rest = []")
    case True
    have "tx_witness t = None \<Longrightarrow> tx_bytes (t\<lparr>tx_witness := None\<rparr>) = tx_bytes t"
      by (simp add: tx_bytes_def body_bytes_def marker_def witness_bytes_def)
    then show ?thesis
      using True ScanTransaction_complete [OF \<open>tx_ok t\<close>, of rest] strip_witness_tx_bytes [OF \<open>tx_ok t\<close>]
      by (auto simp: Transaction_Parse_def not_less layout_of_def)
  next
    case False
    then show ?thesis using ScanTransaction_complete [OF that, of rest] by (simp add: Transaction_Parse_def layout_of_def)
  qed
  show ?thesis
  proof
    assume l: ?L
    then obtain r where "ScanTransaction raw = Ok r" by (auto simp: Transaction_Parse_def result_simps split: if_splits)
    then obtain t rest where t: "tx_ok t" "raw = tx_bytes t @ rest" using ScanTransaction_sound by blast
    then have "?R t" using parse [OF t(1), of rest] l by auto
    then show "\<exists>t. ?R t" ..
  next
    assume "\<exists>t. ?R t"
    then obtain t where "?R t" ..
    then show ?L using parse [of t "[]"] by auto
  qed
qed

text \<open>C18: \<open>Transaction::Parse\<close> accepts exactly the serialisations of the transaction grammar (with and without
  witness data, with minimal counts, at least one input and output, and at least one non-empty witness
  stack when the marker is there) that fill the buffer and respect the payload limit; and it reports
  the outpoints, the offset of every \<open>vout\<close>, the transaction id over the serialisation without the
  witness and the witness transaction id over the whole.\<close>

theorem Transaction_Parse_correct:
  "Transaction_Parse raw mx = Ok tx \<longleftrightarrow>
   (\<exists>t. tx_ok t \<and> raw = tx_bytes t \<and> length raw \<le> min (unat mx) MAX_TX_PAYLOAD \<and>
      tx = \<lparr>m_bytes = raw, m_inputs = map input_outpoint (tx_inputs t), m_vout_offsets = offsets_of t,
            m_txid = DoubleSha256 (tx_bytes (t\<lparr>tx_witness := None\<rparr>)), m_wtxid = DoubleSha256 raw,
            m_has_witness = (tx_witness t \<noteq> None)\<rparr>)"
  by (rule Transaction_Parse_iff)

end
