(* ===== verification/Position.thy ===== *)
theory Position
  imports Prelude
begin

unbundle bit_operations_syntax

text \<open>
  Position arithmetic of the Utreexo forest (\<^verbatim>\<open>src/src/position.cpp\<close>). A forest of
  \<open>leaves\<close> leaves lives in a complete binary tree of \<open>TreeRows leaves\<close> rows; a position is
  a 64-bit word whose leading ones count the row. The definitions are the source's word
  operations; the lemmas relate them to row/offset coordinates (\<open>pos_of\<close>), which is how the
  other theories use them. Rows are \<open>uint8_t\<close> in the source; every row computed here is at
  most 65 (\<open>DetectRow_le\<close>), so they are natural numbers without wrap-around. The shifts of the
  source are defined for counts below 64; the coordinate lemmas assume at most 62 rows, which
  keeps every shift count in that range.
\<close>

section \<open>Operations of the source\<close>

definition TreeRows :: "u64 \<Rightarrow> nat" where
  "TreeRows leaves = (if leaves = 0 then 0 else 64 - countl_zero (leaves - 1))"

function detect_row_loop :: "u64 \<Rightarrow> u64 \<Rightarrow> nat \<Rightarrow> nat" where
  "detect_row_loop pos marker row =
     (if pos AND marker \<noteq> 0 then detect_row_loop pos (drop_bit 1 marker) (row + 1) else row)"
  by pat_completeness auto
termination
proof (relation "measure (\<lambda>(pos, marker, row). unat marker)", goal_cases)
  case (2 pos marker row)
  then have "marker \<noteq> 0" by auto
  then show ?case
    by (simp add: unat_drop_bit_eq drop_bit_eq_div unat_gt_0 unat_div)
qed simp

declare detect_row_loop.simps [simp del]

definition DetectRow :: "u64 \<Rightarrow> nat \<Rightarrow> nat" where
  "DetectRow pos forest_rows = detect_row_loop pos (push_bit forest_rows 1) 0"

definition LeftChild :: "u64 \<Rightarrow> nat \<Rightarrow> u64" where
  "LeftChild pos forest_rows = push_bit 1 pos AND (push_bit forest_rows 2 - 1)"

definition RightChild :: "u64 \<Rightarrow> nat \<Rightarrow> u64" where
  "RightChild pos forest_rows = LeftChild pos forest_rows + 1"

definition Parent :: "u64 \<Rightarrow> nat \<Rightarrow> u64" where
  "Parent pos forest_rows = drop_bit 1 pos OR push_bit forest_rows 1"

definition RootPosition :: "u64 \<Rightarrow> nat \<Rightarrow> nat \<Rightarrow> u64" where
  "RootPosition leaves row forest_rows =
     (let mask = push_bit forest_rows 2 - 1;
          before = leaves AND push_bit (row + 1) mask;
          shifted = drop_bit row before OR push_bit (forest_rows + 1 - row) mask
      in shifted AND mask)"

definition IsRootPosition :: "u64 \<Rightarrow> u64 \<Rightarrow> nat \<Rightarrow> bool" where
  "IsRootPosition pos leaves forest_rows =
     (let row = DetectRow pos forest_rows
      in leaves AND push_bit row 1 \<noteq> 0 \<and> RootPosition leaves row forest_rows = pos)"

record Offset =
  tree_index :: nat
  branch_length :: nat
  path_bits :: u64

text \<open>The loop of \<open>DetectOffset\<close>; \<open>tree_rows\<close> decreases to \<open>node_row\<close> at the latest.\<close>

function detect_offset_loop :: "u64 \<Rightarrow> nat \<Rightarrow> nat \<Rightarrow> u64 \<Rightarrow> nat \<Rightarrow> Offset" where
  "detect_offset_loop leaves node_row tree_rows marker bigger_trees =
     (if tree_rows > node_row \<and>
         push_bit node_row marker AND (push_bit tree_rows 2 - 1)
           \<ge> push_bit tree_rows 1 AND leaves
      then let tree_size = push_bit tree_rows 1 AND leaves
           in if tree_size \<noteq> 0
              then detect_offset_loop leaves node_row (tree_rows - 1) (marker - tree_size)
                     (bigger_trees + 1)
              else detect_offset_loop leaves node_row (tree_rows - 1) marker bigger_trees
      else \<lparr>tree_index = bigger_trees, branch_length = tree_rows - node_row,
             path_bits = NOT marker\<rparr>)"
  by pat_completeness auto
termination
  by (relation "measure (\<lambda>(leaves, node_row, tree_rows, marker, bigger_trees). tree_rows)") auto

declare detect_offset_loop.simps [simp del]

definition DetectOffset :: "u64 \<Rightarrow> u64 \<Rightarrow> Offset" where
  "DetectOffset pos leaves =
     (let tree_rows = TreeRows leaves; node_row = DetectRow pos tree_rows
      in if node_row > tree_rows
         then \<lparr>tree_index = 0, branch_length = 0, path_bits = NOT pos\<rparr>
         else detect_offset_loop leaves node_row tree_rows pos 0)"

lemma card_compl_insert_less: "x \<notin> A \<Longrightarrow> card (UNIV - insert x A) < card (UNIV - A :: u64 set)"
  by (intro psubset_card_mono) auto

text \<open>
  The work list of \<open>ProofPositions\<close>: \<open>computed\<close> is the not yet visited part of the growing
  vector, \<open>known\<close> the unordered set, \<open>proofs\<close> the ordered set. Every round either consumes an
  element of the vector or adds a new word to \<open>known\<close>.
\<close>

function proof_positions_loop ::
    "u64 \<Rightarrow> nat \<Rightarrow> u64 list \<Rightarrow> u64 set \<Rightarrow> u64 set \<Rightarrow> u64 set" where
  "proof_positions_loop leaves forest_rows [] known proofs = proofs"
| "proof_positions_loop leaves forest_rows (pos # computed) known proofs =
     (if IsRootPosition pos leaves forest_rows
      then proof_positions_loop leaves forest_rows computed known proofs
      else let sibling = pos XOR 1;
               proofs' = (if sibling \<notin> known then insert sibling proofs else proofs - {pos});
               parent = Parent pos forest_rows
           in if parent \<notin> known
              then proof_positions_loop leaves forest_rows (computed @ [parent])
                     (insert parent known) proofs'
              else proof_positions_loop leaves forest_rows computed known proofs')"
  by pat_completeness auto
termination
  by (relation "measures [\<lambda>(leaves, rows, computed, known, proofs). card (UNIV - known),
                          \<lambda>(leaves, rows, computed, known, proofs). length computed]")
     (auto simp: card_compl_insert_less simp del: card_Diff_insert)

definition ProofPositions :: "u64 list \<Rightarrow> u64 \<Rightarrow> nat \<Rightarrow> u64 list" where
  "ProofPositions targets leaves forest_rows =
     sorted_list_of_set (proof_positions_loop leaves forest_rows targets (set targets) {})"

section \<open>Bits and counting\<close>

lemma bit_imp_exp_le_unat: "bit (w :: u64) k \<Longrightarrow> 2 ^ k \<le> unat w"
proof -
  assume "bit w k"
  then have "odd (unat w div 2 ^ k)"
    by (simp add: bit_iff_odd [symmetric] bit_unsigned_iff)
  then have "unat w div 2 ^ k \<noteq> 0" by (metis even_zero)
  then show ?thesis by (simp add: div_eq_0_iff not_less)
qed

lemma bit_u64_odd_div: "bit (w :: u64) k \<longleftrightarrow> odd (unat w div 2 ^ k)"
  by (simp add: bit_iff_odd [symmetric] bit_unsigned_iff)

lemma unat_less_exp_iff_no_bits: "unat (w :: u64) < 2 ^ r \<longleftrightarrow> (\<forall>k \<ge> r. \<not> bit w k)"
proof
  assume "unat w < 2 ^ r"
  then show "\<forall>k \<ge> r. \<not> bit w k"
    by (meson bit_imp_exp_le_unat leD order_trans power_increasing one_le_numeral)
next
  assume "\<forall>k \<ge> r. \<not> bit w k"
  then have "take_bit r w = w"
    by (intro bit_eqI) (auto simp: bit_take_bit_iff not_le)
  then have "take_bit r (unat w) = unat w"
    by (metis unsigned_take_bit_eq)
  then show "unat w < 2 ^ r"
    by (metis take_bit_nat_eq_self_iff)
qed

lemma length_takeWhile_ge_iff:
  "k \<le> length xs \<Longrightarrow> k \<le> length (takeWhile P xs) \<longleftrightarrow> (\<forall>i < k. P (xs ! i))"
proof (induction xs arbitrary: k)
  case (Cons x xs)
  then show ?case
    by (cases k) (auto simp: nth_Cons less_Suc_eq_0_disj split: nat.splits)
qed simp

lemma bit_width_le_iff: "r \<le> 64 \<Longrightarrow> bit_width w \<le> r \<longleftrightarrow> unat w < 2 ^ r"
proof -
  assume r: "r \<le> 64"
  have len: "countl_zero w \<le> 64"
    unfolding countl_zero_def by (rule order_trans [OF length_takeWhile_le]) simp
  have "bit_width w \<le> r \<longleftrightarrow> 64 - r \<le> countl_zero w"
    using len r unfolding bit_width_def by arith
  also have "\<dots> \<longleftrightarrow> (\<forall>i < 64 - r. \<not> bit w (rev [0..<64] ! i))"
    unfolding countl_zero_def by (subst length_takeWhile_ge_iff) auto
  also have "\<dots> \<longleftrightarrow> (\<forall>i < 64 - r. \<not> bit w (63 - i))"
    by (simp add: rev_nth)
  also have "\<dots> \<longleftrightarrow> (\<forall>k \<ge> r. \<not> bit w k)"
  proof (intro iffI allI impI)
    fix k
    assume a: "\<forall>i < 64 - r. \<not> bit w (63 - i)" and k: "r \<le> k"
    show "\<not> bit w k"
    proof (cases "k < 64")
      case True
      then have "63 - k < 64 - r" "63 - (63 - k) = k" using k by arith+
      with a show ?thesis by metis
    next
      case False
      then show ?thesis using bit_imp_le_length [of w k] by auto
    qed
  qed (use r in auto)
  also have "\<dots> \<longleftrightarrow> unat w < 2 ^ r"
    by (rule unat_less_exp_iff_no_bits [symmetric])
  finally show ?thesis .
qed

lemma TreeRows_le_iff: "r \<le> 64 \<Longrightarrow> TreeRows n \<le> r \<longleftrightarrow> unat n \<le> 2 ^ r"
proof (cases "n = 0")
  case False
  assume r: "r \<le> 64"
  have "unat (n - 1) = unat n - 1"
    using False by (simp add: unat_minus_one)
  moreover have "unat n \<noteq> 0" using False by (simp add: unat_eq_zero)
  ultimately show ?thesis
    using False r bit_width_le_iff [OF r, of "n - 1"]
    by (auto simp: TreeRows_def bit_width_def)
qed (simp add: TreeRows_def)

lemma TreeRows_le_64: "TreeRows n \<le> 64"
  by (simp add: TreeRows_def)

lemma leaves_le_TreeRows: "unat n \<le> 2 ^ TreeRows n"
  using TreeRows_le_iff [OF TreeRows_le_64] by blast

section \<open>Row and offset coordinates\<close>

text \<open>
  \<open>pos_of R r i\<close> is the position of the node with offset \<open>i\<close> in row \<open>r\<close> of a forest with \<open>R\<close>
  rows; \<open>wpos\<close> is the same as a word.
\<close>

definition row_start :: "nat \<Rightarrow> nat \<Rightarrow> nat" where
  "row_start R r = 2 ^ (R + 1) - 2 ^ (R + 1 - r)"

definition pos_of :: "nat \<Rightarrow> nat \<Rightarrow> nat \<Rightarrow> nat" where
  "pos_of R r i = row_start R r + i"

definition coord :: "nat \<Rightarrow> nat \<Rightarrow> nat \<Rightarrow> bool" where
  "coord R r i \<longleftrightarrow> r \<le> R \<and> i < 2 ^ (R - r)"

definition wpos :: "nat \<Rightarrow> nat \<Rightarrow> nat \<Rightarrow> u64" where
  "wpos R r i = of_nat (pos_of R r i)"

lemma pos_of_Suc_eq:
  "r \<le> R \<Longrightarrow> i \<le> 2 ^ (R - r) \<Longrightarrow> pos_of R r i + 2 ^ (R + 1 - r) = 2 ^ (R + 1) + i"
  using power_increasing [of "R + 1 - r" "R + 1" "2::nat"]
  by (simp add: pos_of_def row_start_def)

lemma pos_of_less: "coord R r i \<Longrightarrow> pos_of R r i < 2 ^ (R + 1) - 1"
proof -
  assume c: "coord R r i"
  have "(2::nat) ^ (R + 1 - r) = 2 * 2 ^ (R - r)"
    using c by (simp add: coord_def Suc_diff_le)
  moreover have "pos_of R r i + 2 ^ (R + 1 - r) = 2 ^ (R + 1) + i"
    using c by (intro pos_of_Suc_eq) (auto simp: coord_def)
  moreover have "i + 1 \<le> 2 ^ (R - r)" "1 \<le> (2::nat) ^ (R - r)"
    using c by (auto simp: coord_def)
  ultimately show ?thesis by linarith
qed

lemma unat_of_nat_small: "n < 2 ^ 64 \<Longrightarrow> unat (of_nat n :: u64) = n"
  by (simp add: unat_of_nat take_bit_nat_eq_self)

lemma exp_le_63: "R \<le> 62 \<Longrightarrow> (2::nat) ^ (R + 1) \<le> 2 ^ 63"
  by (rule power_increasing) auto

lemma unat_wpos_wide: "coord R r i \<Longrightarrow> R \<le> 63 \<Longrightarrow> unat (wpos R r i) = pos_of R r i"
proof -
  assume c: "coord R r i" "R \<le> 63"
  have "(2::nat) ^ (R + 1) \<le> 2 ^ 64" using c(2) by (intro power_increasing) auto
  then show ?thesis unfolding wpos_def using pos_of_less [OF c(1)] by (intro unat_of_nat_small) linarith
qed

lemma unat_wpos [simp]: "coord R r i \<Longrightarrow> R \<le> 62 \<Longrightarrow> unat (wpos R r i) = pos_of R r i"
  by (simp add: unat_wpos_wide)

lemma wpos_less: "coord R r i \<Longrightarrow> R \<le> 62 \<Longrightarrow> unat (wpos R r i) < 2 ^ (R + 1)"
  using pos_of_less [of R r i] by simp

lemma unat_exp_u64: "n < 64 \<Longrightarrow> unat ((2 :: u64) ^ n) = 2 ^ n"
  using unat_of_nat_small [of "2 ^ n"] power_strict_increasing [of n 64 "2::nat"] by simp

lemma unat_Parent:
  assumes "R \<le> 62" "unat p < 2 ^ (R + 1)"
  shows "unat (Parent p R) = unat p div 2 + 2 ^ R"
proof -
  have "drop_bit 1 p AND push_bit R 1 = 0"
  proof (rule bit_eqI)
    fix n
    show "bit (drop_bit 1 p AND push_bit R 1) n \<longleftrightarrow> bit (0 :: u64) n"
      using assms unat_less_exp_iff_no_bits [of p "R + 1"]
      by (auto simp: bit_and_iff bit_drop_bit_eq bit_push_bit_iff bit_1_iff bit_exp_iff)
  qed
  then have "Parent p R = drop_bit 1 p + push_bit R 1"
    unfolding Parent_def by (rule disjunctive_add_eq_or [symmetric])
  moreover have "unat (drop_bit 1 p) = unat p div 2"
    by (simp add: drop_bit_eq_div unat_div)
  moreover have "unat (push_bit R 1 :: u64) = 2 ^ R"
    using assms(1) by (simp add: push_bit_eq_mult unat_exp_u64)
  moreover have "unat p div 2 + 2 ^ R < 2 ^ 64"
    using assms exp_le_63 [of R] by auto
  ultimately show ?thesis
    by (simp add: unat_add_lem [THEN iffD1])
qed

lemma push_bit_minus_mask: "R \<le> 62 \<Longrightarrow> push_bit R (2 :: u64) - 1 = mask (R + 1)"
  by (simp add: push_bit_eq_mult mask_eq_exp_minus_1 mult.commute)

lemma unat_take_bit_u64: "unat (take_bit n (w :: u64)) = unat w mod 2 ^ n"
  by (metis unsigned_take_bit_eq take_bit_eq_mod)

lemma unat_LeftChild:
  assumes "R \<le> 62"
  shows "unat (LeftChild p R) = (2 * unat p) mod 2 ^ (R + 1)"
proof -
  have "LeftChild p R = take_bit (R + 1) (push_bit 1 p)"
    unfolding LeftChild_def push_bit_minus_mask [OF assms] by (simp add: take_bit_eq_mask)
  then have "unat (LeftChild p R) = unat (push_bit 1 p) mod 2 ^ (R + 1)"
    by (simp add: unat_take_bit_u64)
  also have "unat (push_bit 1 p) = (2 * unat p) mod 2 ^ 64"
    by (simp add: push_bit_eq_mult unat_word_ariths mult.commute)
  also have "(2 * unat p) mod 2 ^ 64 mod 2 ^ (R + 1) = (2 * unat p) mod 2 ^ (R + 1)"
    using assms by (intro mod_mod_cancel le_imp_power_dvd) simp
  finally show ?thesis .
qed

lemma u64_eqI: "unat (a :: u64) = unat b \<Longrightarrow> a = b"
  by (simp add: word_unat_eq_iff)

lemma coord_Parent: "coord R r i \<Longrightarrow> r < R \<Longrightarrow> coord R (r + 1) (i div 2)"
  unfolding coord_def
  by (metis Suc_diff_Suc Suc_eq_plus1 Suc_leI less_mult_imp_div_less mult.commute power_Suc)

lemma coord_LeftChild: "coord R (r + 1) i \<Longrightarrow> coord R r (2 * i)"
  and coord_RightChild: "coord R (r + 1) i \<Longrightarrow> coord R r (2 * i + 1)"
proof -
  assume c: "coord R (r + 1) i"
  then have "(2::nat) ^ (R - r) = 2 * 2 ^ (R - (r + 1))"
    by (simp add: coord_def Suc_diff_Suc flip: power_Suc)
  with c show "coord R r (2 * i)" "coord R r (2 * i + 1)"
    by (auto simp: coord_def)
qed

lemma pos_of_half:
  assumes "r < R" "i \<le> 2 ^ (R - r)"
  shows "pos_of R r i div 2 + 2 ^ R = pos_of R (r + 1) (i div 2)"
proof -
  have e: "(2::nat) ^ (R + 1 - r) = 2 * 2 ^ (R - r)"
    using assms by (simp add: Suc_diff_le)
  have "(2::nat) ^ (R - r) \<le> 2 ^ R" by (rule power_increasing) auto
  then obtain x where x: "(2::nat) ^ R = 2 ^ (R - r) + x" using le_Suc_ex by blast
  have "pos_of R r i = 2 * x + i"
    unfolding pos_of_def row_start_def e by (simp add: x)
  then have "pos_of R r i div 2 = x + i div 2" by simp
  then show ?thesis
    by (simp add: pos_of_def row_start_def x)
qed

lemma Parent_wpos [pos_simps]:
  assumes "coord R r i" "r < R" "R \<le> 62"
  shows "Parent (wpos R r i) R = wpos R (r + 1) (i div 2)"
proof (rule u64_eqI)
  have "i \<le> 2 ^ (R - r)" using assms by (simp add: coord_def)
  with assms show "unat (Parent (wpos R r i) R) = unat (wpos R (r + 1) (i div 2))"
    using wpos_less [of R r i] coord_Parent [of R r i] pos_of_half [of r R i]
    by (simp add: unat_Parent)
qed

lemma LeftChild_wpos [pos_simps]:
  assumes "coord R (r + 1) i" "R \<le> 62"
  shows "LeftChild (wpos R (r + 1) i) R = wpos R r (2 * i)"
proof (rule u64_eqI)
  have rR: "r < R" using assms by (simp add: coord_def)
  have e: "(2::nat) ^ (R + 1 - r) = 2 * 2 ^ (R - r)" using rR by (simp add: Suc_diff_le)
  have "(2::nat) ^ (R - r) \<le> 2 ^ R" by (rule power_increasing) auto
  then obtain x where x: "(2::nat) ^ R = 2 ^ (R - r) + x" using le_Suc_ex by blast
  have c: "coord R r (2 * i)" by (rule coord_LeftChild) (rule assms)
  have "2 * pos_of R (r + 1) i = 2 ^ (R + 1) + pos_of R r (2 * i)"
    unfolding pos_of_def row_start_def e by (simp add: x)
  moreover have "pos_of R r (2 * i) < 2 ^ (R + 1)"
    using pos_of_less [OF c] by simp
  ultimately show "unat (LeftChild (wpos R (r + 1) i) R) = unat (wpos R r (2 * i))"
    using assms c by (simp add: unat_LeftChild)
qed

lemma RightChild_wpos [pos_simps]:
  assumes "coord R (r + 1) i" "R \<le> 62"
  shows "RightChild (wpos R (r + 1) i) R = wpos R r (2 * i + 1)"
  using LeftChild_wpos [OF assms] by (simp add: RightChild_def wpos_def pos_of_def)

lemma even_row_start: "r \<le> R \<Longrightarrow> even (row_start R r)"
  by (simp add: row_start_def Suc_diff_le)

lemma sibling_wpos [pos_simps]:
  assumes "coord R r i" "r < R" "R \<le> 62"
  shows "wpos R r i XOR 1 = wpos R r (if even i then i + 1 else i - 1)"
    and "coord R r (if even i then i + 1 else i - 1)"
proof -
  have e: "(2::nat) ^ (R - r) = 2 * 2 ^ (R - (r + 1))"
    using assms by (simp add: coord_def Suc_diff_Suc flip: power_Suc)
  have ev: "even (pos_of R r i) \<longleftrightarrow> even i"
    using even_row_start [of r R] assms by (simp add: pos_of_def)
  have bit0: "even (wpos R r i) \<longleftrightarrow> even i"
    using ev by (simp add: wpos_def)
  show "coord R r (if even i then i + 1 else i - 1)"
    using assms(1) e by (auto simp: coord_def elim!: evenE oddE)
  show "wpos R r i XOR 1 = wpos R r (if even i then i + 1 else i - 1)"
    using bit0 by (cases "even i") (auto simp: xor_one_eq wpos_def pos_of_def of_nat_diff elim!: oddE)
qed

lemma detect_row_loop_exp:
  assumes "k < 64"
  shows "detect_row_loop pos (push_bit k 1) row =
    (if bit pos k then if k = 0 then row + 1 else detect_row_loop pos (push_bit (k - 1) 1) (row + 1)
     else row)"
proof -
  have "pos AND push_bit k 1 \<noteq> 0 \<longleftrightarrow> bit pos k"
    by (metis bit_iff_and_push_bit_not_eq_0)
  moreover have "drop_bit 1 (push_bit k (1 :: u64)) = (if k = 0 then 0 else push_bit (k - 1) 1)"
  proof (rule bit_eqI)
    fix n
    show "bit (drop_bit 1 (push_bit k (1 :: u64))) n \<longleftrightarrow>
        bit (if k = 0 then 0 else push_bit (k - 1) (1 :: u64)) n"
      using assms by (auto simp: bit_drop_bit_eq bit_push_bit_iff bit_1_iff bit_exp_iff)
  qed
  moreover have "detect_row_loop pos 0 (row + 1) = row + 1"
    by (simp add: detect_row_loop.simps)
  ultimately show ?thesis
    by (subst detect_row_loop.simps) simp
qed

lemma detect_row_loop_countdown:
  "k < 64 \<Longrightarrow> detect_row_loop pos (push_bit k 1) row =
     row + length (takeWhile (bit pos) (rev [0..<k + 1]))"
proof (induction k arbitrary: row)
  case 0
  then show ?case by (subst detect_row_loop_exp) auto
next
  case (Suc k)
  then show ?case by (subst detect_row_loop_exp) auto
qed

lemma DetectRow_eq:
  "R < 64 \<Longrightarrow> DetectRow pos R = length (takeWhile (bit pos) (rev [0..<R + 1]))"
  unfolding DetectRow_def by (subst detect_row_loop_countdown) auto

lemma DetectRow_le: "R < 64 \<Longrightarrow> DetectRow pos R \<le> R + 1"
  by (simp add: DetectRow_eq order_trans [OF length_takeWhile_le])

lemma length_takeWhile_eqI:
  "k < length xs \<Longrightarrow> (\<And>i. i < k \<Longrightarrow> P (xs ! i)) \<Longrightarrow> \<not> P (xs ! k) \<Longrightarrow>
    length (takeWhile P xs) = k"
  by (metis length_takeWhile_ge_iff less_le_not_le nat_less_le nth_length_takeWhile
      length_takeWhile_le order_le_less)

lemma pos_of_bits:
  assumes "coord R r i" "R \<le> 63"
  shows "j < r \<Longrightarrow> bit (wpos R r i) (R - j)"
    and "\<not> bit (wpos R r i) (R - r)"
proof -
  note c = assms(1)[unfolded coord_def]
  let ?p = "pos_of R r i"
  have eq: "?p + 2 ^ (R + 1 - r) = 2 ^ (R + 1) + i"
    using c by (intro pos_of_Suc_eq) auto
  show "bit (wpos R r i) (R - j)" if "j < r"
  proof -
    have j: "R + 1 - r \<le> R - j" using that c by simp
    then have le: "(2::nat) ^ (R + 1 - r) \<le> 2 ^ (R - j)" by (rule power_increasing) simp
    have e1: "(2::nat) ^ (R + 1) = 2 ^ (j + 1) * 2 ^ (R - j)"
      using that c by (simp flip: power_add)
    have lt: "i < 2 ^ (R + 1 - r)" using c by (simp add: Suc_diff_le)
    have "?p div 2 ^ (R - j) = 2 ^ (j + 1) - 1"
    proof (rule div_nat_eqI)
      have "(2::nat) ^ (R - j) * (2 ^ (j + 1) - 1) + 2 ^ (R - j) = 2 ^ (R + 1)"
        unfolding e1 by (simp add: diff_mult_distrib2 mult.commute)
      then show "2 ^ (R - j) * (2 ^ (j + 1) - 1) \<le> ?p" using eq le by linarith
      have "(2::nat) ^ (R - j) * Suc (2 ^ (j + 1) - 1) = 2 ^ (R + 1)"
        unfolding e1 by simp
      then show "?p < 2 ^ (R - j) * Suc (2 ^ (j + 1) - 1)" using eq lt by linarith
    qed
    then show ?thesis
      using assms by (simp add: bit_u64_odd_div unat_wpos_wide)
  qed
  have "?p div 2 ^ (R - r) = 2 ^ (r + 1) - 2"
  proof (rule div_nat_eqI)
    have e: "(2::nat) ^ (R + 1 - r) = 2 * 2 ^ (R - r)" using c by (simp add: Suc_diff_le)
    have e1: "(2::nat) ^ (R + 1) = 2 ^ (r + 1) * 2 ^ (R - r)" using c by (simp flip: power_add)
    have "(2::nat) ^ (R - r) * (2 ^ (r + 1) - 2) + 2 * 2 ^ (R - r) = 2 ^ (R + 1)"
      unfolding e1 by (simp add: diff_mult_distrib2 mult.commute)
    then show "2 ^ (R - r) * (2 ^ (r + 1) - 2) \<le> ?p" using eq e by linarith
    have "(2::nat) ^ (R - r) * Suc (2 ^ (r + 1) - 2) + 2 ^ (R - r) = 2 ^ (R + 1)"
      unfolding e1 by (simp add: diff_mult_distrib2 mult.commute)
    then show "?p < 2 ^ (R - r) * Suc (2 ^ (r + 1) - 2)" using eq e c by linarith
  qed
  then show "\<not> bit (wpos R r i) (R - r)"
    using assms by (simp add: bit_u64_odd_div unat_wpos_wide)
qed

lemma DetectRow_wpos_wide:
  assumes "coord R r i" "R \<le> 63"
  shows "DetectRow (wpos R r i) R = r"
proof -
  have "r \<le> R" using assms by (simp add: coord_def)
  then have "length (takeWhile (bit (wpos R r i)) (rev [0..<R + 1])) = r"
    using pos_of_bits [OF assms]
    by (intro length_takeWhile_eqI) (auto simp: rev_nth simp del: upt_Suc)
  then show ?thesis using assms by (simp add: DetectRow_eq)
qed

lemma DetectRow_wpos [pos_simps]: "coord R r i \<Longrightarrow> R \<le> 62 \<Longrightarrow> DetectRow (wpos R r i) R = r"
  by (simp add: DetectRow_wpos_wide)

text \<open>Every word below the all-ones position of the space is a coordinate.\<close>

lemma pos_coords:
  assumes "n < 2 ^ (R + 1) - 1"
  shows "\<exists>r i. coord R r i \<and> n = pos_of R r i"
  using assms
proof (induction R arbitrary: n)
  case 0
  then show ?case
    by (intro exI [of _ 0]) (auto simp: coord_def pos_of_def row_start_def)
next
  case (Suc R)
  show ?case
  proof (cases "n < 2 ^ (R + 1)")
    case True
    then show ?thesis
      by (intro exI [of _ 0] exI [of _ n]) (auto simp: coord_def pos_of_def row_start_def)
  next
    case False
    then have "n - 2 ^ (R + 1) < 2 ^ (R + 1) - 1" using Suc.prems by simp
    then obtain r i where c: "coord R r i" and n: "n - 2 ^ (R + 1) = pos_of R r i"
      using Suc.IH by blast
    have "(2::nat) ^ (R + 1 - r) \<le> 2 ^ (R + 1)" by (rule power_increasing) auto
    then have "n = pos_of (Suc R) (r + 1) i"
      using n False c by (simp add: pos_of_def row_start_def coord_def)
    moreover have "coord (Suc R) (r + 1) i" using c by (simp add: coord_def)
    ultimately show ?thesis by blast
  qed
qed

lemma wpos_coords_wide:
  assumes "unat p < 2 ^ (R + 1) - 1" "R \<le> 63"
  obtains r i where "coord R r i" "p = wpos R r i"
proof -
  obtain r i where "coord R r i" "unat p = pos_of R r i"
    using pos_coords [OF assms(1)] by blast
  with that assms(2) show ?thesis by (metis u64_eqI unat_wpos_wide)
qed

lemma wpos_coords:
  assumes "unat p < 2 ^ (R + 1) - 1" "R \<le> 62"
  obtains r i where "coord R r i" "p = wpos R r i"
  using wpos_coords_wide [OF assms(1)] assms(2) by auto

lemma wpos_inject_wide:
  assumes "coord R r i" "coord R r' i'" "R \<le> 63"
  shows "wpos R r i = wpos R r' i' \<longleftrightarrow> r = r' \<and> i = i'"
proof
  assume eq: "wpos R r i = wpos R r' i'"
  then have "r = r'" using assms DetectRow_wpos_wide by metis
  moreover have "pos_of R r i = pos_of R r' i'"
    using eq assms by (metis unat_wpos_wide)
  ultimately show "r = r' \<and> i = i'" by (simp add: pos_of_def)
qed simp

lemma wpos_inject:
  assumes "coord R r i" "coord R r' i'" "R \<le> 62"
  shows "wpos R r i = wpos R r' i' \<longleftrightarrow> r = r' \<and> i = i'"
  using wpos_inject_wide [OF assms(1,2)] assms(3) by simp

section \<open>Roots\<close>

text \<open>\<open>is_root_coord N r i\<close>: the tree of row \<open>r\<close> exists in a forest of \<open>N\<close> leaves and \<open>i\<close> is the
  offset of its root.\<close>

definition is_root_coord :: "nat \<Rightarrow> nat \<Rightarrow> nat \<Rightarrow> bool" where
  "is_root_coord N r i \<longleftrightarrow> odd (N div 2 ^ r) \<and> i + 1 = N div 2 ^ r"

lemma div_exp_Suc: "(n::nat) div 2 ^ (r + 1) = n div 2 ^ r div 2"
  by (simp add: div_mult2_eq [symmetric] mult.commute)

lemma unat_mask_u64: "k < 64 \<Longrightarrow> unat (mask k :: u64) = 2 ^ k - 1"
  by (simp add: mask_eq_exp_minus_1 unat_minus_one unat_exp_u64 flip: unat_eq_zero)

lemma and_mask_ident: "\<forall>k \<ge> n. \<not> bit w k \<Longrightarrow> n \<le> m \<Longrightarrow> w AND mask m = (w :: u64)"
  by (rule bit_eqI) (metis bit_and_iff bit_mask_iff bit_imp_possible_bit le_trans not_le)

lemma disjoint_or_add: "\<forall>k \<ge> n. \<not> bit w k \<Longrightarrow> w OR (push_bit n v AND x) = w + (push_bit n v AND x :: u64)"
  by (rule disjunctive_add_eq_or [symmetric], rule bit_eqI)
     (auto simp: bit_and_iff bit_push_bit_iff)

lemma drop_and_push_mask:
  assumes "r \<le> s" "\<And>k. s + m \<le> k \<Longrightarrow> \<not> bit w k"
  shows "drop_bit r (w AND push_bit s (mask m)) = push_bit (s - r) (drop_bit s (w :: u64))"
proof (rule bit_eqI)
  fix n
  show "bit (drop_bit r (w AND push_bit s (mask m))) n \<longleftrightarrow> bit (push_bit (s - r) (drop_bit s w)) n"
    if "possible_bit TYPE(64 word) n"
    using that assms(1) assms(2) [of "r + n"] bit_imp_le_length [of w "r + n"]
    by (cases "s + m \<le> r + n") (auto simp: bit_simps not_le add.commute [of n r])
qed

lemma odd_div_exp: "odd ((n::nat) div 2 ^ r) \<Longrightarrow> n div 2 ^ r = 2 * (n div 2 ^ (r + 1)) + 1"
  by (subst div_exp_Suc) (rule odd_two_times_div_two_succ [symmetric])

lemma unat_row_mask:
  assumes "r \<le> R" "R \<le> 62"
  shows "unat (push_bit (R + 1 - r) (mask (R + 1)) AND mask (R + 1) :: u64) = row_start R r"
proof -
  let ?a = "mask (R + 1) :: u64" and ?b = "mask (R + 1 - r) :: u64"
  have "push_bit (R + 1 - r) ?a AND ?a = ?a AND NOT ?b"
    by (rule bit_eqI) (use assms in \<open>auto simp: bit_simps\<close>)
  also have "\<dots> = ?a - ?b"
    by (rule disjunctive_diff_eq_and_not [symmetric], rule bit_eqI)
       (use assms in \<open>auto simp: bit_simps\<close>)
  finally have e: "push_bit (R + 1 - r) ?a AND ?a = ?a - ?b" .
  note m = unat_mask_u64
  have "(2::nat) ^ (R + 1 - r) \<le> 2 ^ (R + 1)" by (rule power_increasing) auto
  then have "?b \<le> ?a"
    using assms by (simp add: word_le_nat_alt m)
  then show ?thesis
    unfolding e using assms by (simp add: unat_sub m row_start_def)
qed

lemma unat_root_before:
  fixes leaves :: u64
  assumes "r \<le> R" "R \<le> 62" "unat leaves \<le> 2 ^ R"
  shows "unat (drop_bit r (leaves AND push_bit (r + 1) (mask (R + 1)))) =
     2 * (unat leaves div 2 ^ (r + 1))"
proof -
  have "unat leaves < 2 ^ (R + 1)"
    using assms(3) by (rule le_less_trans) simp
  then have nb: "\<not> bit leaves k" if "R < k" for k
    using that unat_less_exp_iff_no_bits [of leaves "R + 1"] by simp
  have d: "unat (drop_bit (r + 1) leaves) = unat leaves div 2 ^ (r + 1)"
    by (simp only: unat_drop_bit_eq) (simp add: drop_bit_eq_div)
  have "drop_bit r (leaves AND push_bit (r + 1) (mask (R + 1))) = push_bit (r + 1 - r) (drop_bit (r + 1) leaves)"
    using nb by (intro drop_and_push_mask) auto
  also have "\<dots> = 2 * drop_bit (r + 1) leaves"
    by (simp add: push_bit_eq_mult)
  finally have "unat (drop_bit r (leaves AND push_bit (r + 1) (mask (R + 1)))) =
      2 * (unat leaves div 2 ^ (r + 1)) mod 2 ^ 64"
    by (simp only: unat_word_ariths d) simp
  moreover have "2 * (unat leaves div 2 ^ (r + 1)) < 2 ^ 64"
  proof -
    have "unat leaves div 2 ^ (r + 1) \<le> 2 ^ R"
      using assms(3) by (meson div_le_dividend le_trans)
    moreover have "(2::nat) ^ R \<le> 2 ^ 62" using assms by (intro power_increasing) auto
    ultimately show ?thesis by simp
  qed
  ultimately show ?thesis by (simp only: mod_less)
qed

lemma coord_root:
  assumes "r \<le> R" "N \<le> 2 ^ R" "is_root_coord N r i"
  shows "coord R r i" and "i = 2 * (N div 2 ^ (r + 1))"
proof -
  have "N div 2 ^ r \<le> 2 ^ R div 2 ^ r" using assms by (intro div_le_mono)
  also have "(2::nat) ^ R div 2 ^ r = 2 ^ (R - r)" using assms by (simp add: power_diff)
  finally show "coord R r i"
    using assms by (auto simp: coord_def is_root_coord_def)
  have "N div 2 ^ (r + 1) = (N div 2 ^ r) div 2"
    by (rule div_exp_Suc)
  then show "i = 2 * (N div 2 ^ (r + 1))"
    using assms by (auto simp: is_root_coord_def elim!: oddE)
qed

lemma coord_root_offset:
  assumes "r \<le> R" "(N::nat) \<le> 2 ^ R"
  shows "2 * (N div 2 ^ (r + 1)) \<le> 2 ^ (R - r)"
proof -
  have "2 * (N div 2 ^ (r + 1)) = 2 * ((N div 2 ^ r) div 2)"
    by (simp only: div_exp_Suc)
  also have "\<dots> \<le> N div 2 ^ r" by simp
  also have "\<dots> \<le> 2 ^ R div 2 ^ r" using assms by (intro div_le_mono)
  also have "\<dots> = 2 ^ (R - r)" using assms by (simp add: power_diff)
  finally show ?thesis .
qed

lemma RootPosition_eq [pos_simps]:
  assumes "r \<le> R" "R \<le> 62" "unat leaves \<le> 2 ^ R"
  shows "RootPosition leaves r R = wpos R r (2 * (unat leaves div 2 ^ (r + 1)))"
proof -
  let ?off = "2 * (unat leaves div 2 ^ (r + 1))"
  let ?b = "drop_bit r (leaves AND push_bit (r + 1) (mask (R + 1)))"
  let ?m = "push_bit (R + 1 - r) (mask (R + 1)) AND mask (R + 1) :: u64"
  have off: "?off \<le> 2 ^ (R - r)" using assms by (intro coord_root_offset) auto
  have ub: "unat ?b = ?off" by (rule unat_root_before) (use assms in auto)
  have "(2::nat) ^ (R - r) < 2 ^ (R + 1 - r)" using assms by (intro power_strict_increasing) auto
  then have lb: "unat ?b < 2 ^ (R + 1 - r)" using off ub by linarith
  then have nb: "\<forall>k \<ge> R + 1 - r. \<not> bit ?b k"
    by (simp only: unat_less_exp_iff_no_bits)
  have "RootPosition leaves r R = (?b OR push_bit (R + 1 - r) (mask (R + 1))) AND mask (R + 1)"
    unfolding RootPosition_def Let_def push_bit_minus_mask [OF assms(2)] ..
  also have "\<dots> = (?b AND mask (R + 1)) OR ?m" by (simp add: and.commute bit.conj_disj_distrib)
  also have "?b AND mask (R + 1) = ?b"
    using nb by (rule and_mask_ident) simp
  also have "?b OR ?m = ?b + ?m"
    using nb by (rule disjoint_or_add)
  finally have e: "RootPosition leaves r R = ?b + ?m" .
  have m: "unat ?m = row_start R r" using assms by (intro unat_row_mask)
  have lt: "row_start R r + ?off < 2 ^ 64"
  proof -
    have "row_start R r \<le> 2 ^ (R + 1)" by (simp add: row_start_def)
    moreover have "(2::nat) ^ (R + 1) \<le> 2 ^ 63" using assms(2) by (rule exp_le_63)
    moreover have "(2::nat) ^ (R - r) \<le> 2 ^ 62" by (rule power_increasing) (use assms in auto)
    ultimately show ?thesis using off by simp
  qed
  have "unat ?b + unat ?m < 2 ^ LENGTH(64)"
    using lt unfolding ub m by (simp only: add.commute) simp
  then have "unat (?b + ?m) = unat ?b + unat ?m"
    by (rule unat_add_lem [THEN iffD1])
  then have "unat (?b + ?m) = pos_of R r ?off"
    unfolding ub m pos_of_def by (simp only: add.commute)
  then show ?thesis
    using lt unfolding e wpos_def by (intro u64_eqI) (simp only: unat_of_nat_small pos_of_def)
qed

lemma IsRootPosition_wpos [pos_simps]:
  assumes "coord R r i" "R \<le> 62" "unat leaves \<le> 2 ^ R"
  shows "IsRootPosition (wpos R r i) leaves R \<longleftrightarrow> is_root_coord (unat leaves) r i"
proof -
  have rR: "r \<le> R" using assms by (simp add: coord_def)
  have b: "leaves AND push_bit r 1 \<noteq> 0 \<longleftrightarrow> odd (unat leaves div 2 ^ r)"
    by (metis bit_iff_and_push_bit_not_eq_0 bit_u64_odd_div)
  have "is_root_coord (unat leaves) r i \<longleftrightarrow>
      odd (unat leaves div 2 ^ r) \<and> i = 2 * (unat leaves div 2 ^ (r + 1))"
    unfolding is_root_coord_def using odd_div_exp [of "unat leaves" r] by linarith
  moreover have "RootPosition leaves r R = wpos R r i \<longleftrightarrow> i = 2 * (unat leaves div 2 ^ (r + 1))"
    if "odd (unat leaves div 2 ^ r)"
  proof -
    have "is_root_coord (unat leaves) r (2 * (unat leaves div 2 ^ (r + 1)))"
      unfolding is_root_coord_def using that odd_div_exp [of "unat leaves" r] by linarith
    then have "coord R r (2 * (unat leaves div 2 ^ (r + 1)))"
      using coord_root(1) [OF rR assms(3)] by simp
    then show ?thesis
      using assms rR by (simp add: RootPosition_eq wpos_inject del: power_Suc) auto
  qed
  ultimately show ?thesis
    unfolding IsRootPosition_def Let_def DetectRow_wpos [OF assms(1,2)] b by auto
qed

text \<open>The roots of distinct rows are at distinct positions, and an inner node is not a root.\<close>

lemma root_row_unique:
  "coord R r i \<Longrightarrow> is_root_coord N r i \<Longrightarrow> is_root_coord N r i' \<Longrightarrow> i = i'"
  by (simp add: is_root_coord_def)

text \<open>\<open>in_forest N r i\<close>: the node is the root of one of the trees or lies below it.\<close>

definition in_forest :: "nat \<Rightarrow> nat \<Rightarrow> nat \<Rightarrow> bool" where
  "in_forest N r i \<longleftrightarrow> i < N div 2 ^ r"

lemma half_less_half: "(i::nat) < m \<Longrightarrow> \<not> (odd m \<and> i + 1 = m) \<Longrightarrow> i div 2 < m div 2"
  by presburger

lemma sibling_offset: "(i::nat) < m \<Longrightarrow> \<not> (odd m \<and> i + 1 = m) \<Longrightarrow>
    (if even i then i + 1 else i - 1) < m \<and> \<not> (odd m \<and> (if even i then i + 1 else i - 1) + 1 = m)"
  by presburger

lemma in_forest_Parent:
  assumes "in_forest N r i" "\<not> is_root_coord N r i"
  shows "in_forest N (r + 1) (i div 2)"
proof -
  let ?m = "N div 2 ^ r"
  have "i < ?m" "\<not> (odd ?m \<and> i + 1 = ?m)"
    using assms by (auto simp: in_forest_def is_root_coord_def)
  then have "i div 2 < ?m div 2" by (rule half_less_half)
  then show ?thesis by (simp only: in_forest_def div_exp_Suc)
qed

lemma in_forest_sibling:
  assumes "in_forest N r i" "\<not> is_root_coord N r i"
  shows "in_forest N r (if even i then i + 1 else i - 1) \<and>
    \<not> is_root_coord N r (if even i then i + 1 else i - 1)"
  using assms unfolding in_forest_def is_root_coord_def by (rule sibling_offset)

lemma in_forest_coord:
  assumes "in_forest N r i" "N \<le> 2 ^ R"
  shows "coord R r i"
proof -
  have m: "N div 2 ^ r \<le> 2 ^ R div 2 ^ r" using assms by (intro div_le_mono)
  show ?thesis
  proof (cases "r \<le> R")
    case True
    then show ?thesis using m assms by (simp add: in_forest_def coord_def power_diff)
  next
    case False
    then have "(2::nat) ^ R < 2 ^ r" by (intro power_strict_increasing) auto
    then show ?thesis using m assms by (simp add: in_forest_def)
  qed
qed

lemma in_forest_top_root:
  assumes "in_forest N r i" "N \<le> 2 ^ r"
  shows "is_root_coord N r i"
proof -
  have "N div 2 ^ r \<le> 1"
    using assms(2) by (metis div_le_mono div_self power_not_zero zero_neq_numeral)
  with assms(1) have "N div 2 ^ r = 1" "i = 0" by (auto simp: in_forest_def)
  then show ?thesis by (simp add: is_root_coord_def)
qed

section \<open>Proof positions\<close>

text \<open>The positions a verifier can compute from the targets: the targets and, above every
  position that is not a root, its parent.\<close>

inductive_set path_closure :: "u64 \<Rightarrow> nat \<Rightarrow> u64 set \<Rightarrow> u64 set"
  for leaves :: u64 and R :: nat and T :: "u64 set" where
  base: "t \<in> T \<Longrightarrow> t \<in> path_closure leaves R T"
| step: "p \<in> path_closure leaves R T \<Longrightarrow> \<not> IsRootPosition p leaves R \<Longrightarrow>
     Parent p R \<in> path_closure leaves R T"

definition sibling_frontier :: "u64 \<Rightarrow> nat \<Rightarrow> u64 set \<Rightarrow> u64 set" where
  "sibling_frontier leaves R C = {p XOR 1 |p. p \<in> C \<and> \<not> IsRootPosition p leaves R} - C"

definition proof_loop_inv ::
    "u64 \<Rightarrow> nat \<Rightarrow> u64 set \<Rightarrow> u64 set \<Rightarrow> u64 list \<Rightarrow> u64 set \<Rightarrow> u64 set \<Rightarrow> bool" where
  "proof_loop_inv leaves R T D computed known proofs \<longleftrightarrow>
     known = D \<union> set computed \<and> T \<subseteq> known \<and> known \<subseteq> path_closure leaves R T \<and>
     (\<forall>p \<in> D. \<not> IsRootPosition p leaves R \<longrightarrow> Parent p R \<in> known) \<and>
     (\<forall>q \<in> proofs. q \<notin> D \<and> (\<exists>p \<in> D. \<not> IsRootPosition p leaves R \<and> q = p XOR 1)) \<and>
     (\<forall>p \<in> D. \<not> IsRootPosition p leaves R \<longrightarrow> p XOR 1 \<in> proofs \<union> known)"

lemma xor_one_twice [simp]: "(p XOR 1) XOR 1 = (p :: u64)"
  by (simp add: xor.assoc)

lemma xor_one_neq [simp]: "p XOR 1 \<noteq> (p :: u64)"
proof
  assume "p XOR 1 = p"
  then have "bit (p XOR 1) 0 = bit p 0" by simp
  then show False by (simp add: bit_xor_iff bit_1_iff)
qed

lemma proof_loop_inv_root:
  assumes "proof_loop_inv leaves R T D (pos # computed) known proofs"
    and "IsRootPosition pos leaves R"
    and "\<forall>p \<in> path_closure leaves R T. \<not> IsRootPosition p leaves R \<longrightarrow> \<not> IsRootPosition (p XOR 1) leaves R"
  shows "proof_loop_inv leaves R T (insert pos D) computed known proofs"
proof -
  have "q \<noteq> pos" if "q \<in> proofs" for q
  proof -
    have "\<exists>p \<in> D. \<not> IsRootPosition p leaves R \<and> q = p XOR 1"
      using assms(1) that by (simp add: proof_loop_inv_def)
    then obtain p where p: "p \<in> D" "\<not> IsRootPosition p leaves R" "q = p XOR 1" by blast
    have "p \<in> path_closure leaves R T"
      using assms(1) p(1) by (auto simp: proof_loop_inv_def)
    then have "\<not> IsRootPosition q leaves R" using assms(3) p by blast
    with assms(2) show ?thesis by blast
  qed
  then show ?thesis
    using assms(1,2) by (auto simp: proof_loop_inv_def)
qed

lemma proof_loop_inv_step:
  assumes inv: "proof_loop_inv leaves R T D (pos # computed) known proofs"
    and nr: "\<not> IsRootPosition pos leaves R"
    and proofs': "proofs' = (if pos XOR 1 \<notin> known then insert (pos XOR 1) proofs else proofs - {pos})"
  shows "Parent pos R \<notin> known \<Longrightarrow> proof_loop_inv leaves R T (insert pos D) (computed @ [Parent pos R])
           (insert (Parent pos R) known) proofs'"
    and "Parent pos R \<in> known \<Longrightarrow> proof_loop_inv leaves R T (insert pos D) computed known proofs'"
proof -
  have C: "pos \<in> path_closure leaves R T"
    using inv by (auto simp: proof_loop_inv_def)
  then have P: "Parent pos R \<in> path_closure leaves R T"
    using nr by (rule path_closure.step)
  have q: "\<forall>q \<in> proofs'. q \<notin> insert pos D \<and>
      (\<exists>p \<in> insert pos D. \<not> IsRootPosition p leaves R \<and> q = p XOR 1)"
  proof
    fix q
    assume "q \<in> proofs'"
    then consider "q = pos XOR 1" "pos XOR 1 \<notin> known" | "q \<in> proofs" "pos XOR 1 \<notin> known"
      | "q \<in> proofs" "q \<noteq> pos"
      by (auto simp: proofs' split: if_splits)
    then show "q \<notin> insert pos D \<and> (\<exists>p \<in> insert pos D. \<not> IsRootPosition p leaves R \<and> q = p XOR 1)"
    proof cases
      case 1
      then show ?thesis using inv nr by (auto simp: proof_loop_inv_def)
    next
      case 2
      then obtain p where p: "p \<in> D" "\<not> IsRootPosition p leaves R" "q = p XOR 1"
        using inv by (auto simp: proof_loop_inv_def)
      moreover have "q \<noteq> pos" using 2 p inv by (auto simp: proof_loop_inv_def)
      ultimately show ?thesis using 2 inv by (auto simp: proof_loop_inv_def)
    next
      case 3
      then show ?thesis using inv by (auto simp: proof_loop_inv_def)
    qed
  qed
  have s: "\<forall>p \<in> insert pos D. \<not> IsRootPosition p leaves R \<longrightarrow> p XOR 1 \<in> proofs' \<union> known"
    using inv by (auto simp: proofs' proof_loop_inv_def)
  show "proof_loop_inv leaves R T (insert pos D) (computed @ [Parent pos R])
          (insert (Parent pos R) known) proofs'"
    using inv P q s by (auto simp: proof_loop_inv_def)
  show "proof_loop_inv leaves R T (insert pos D) computed known proofs'" if "Parent pos R \<in> known"
    using inv q s that by (auto simp: proof_loop_inv_def)
qed

lemma proof_loop_inv_final:
  assumes "proof_loop_inv leaves R T D [] known proofs"
  shows "proofs = sibling_frontier leaves R (path_closure leaves R T)"
proof -
  have "p \<in> D" if "p \<in> path_closure leaves R T" for p
    using that assms by (induction rule: path_closure.induct) (auto simp: proof_loop_inv_def)
  then have "D = path_closure leaves R T"
    using assms by (auto simp: proof_loop_inv_def)
  then show ?thesis
    using assms unfolding proof_loop_inv_def sibling_frontier_def by blast
qed

lemma proof_positions_loop_correct:
  assumes "proof_loop_inv leaves R T D computed known proofs"
    and "\<forall>p \<in> path_closure leaves R T. \<not> IsRootPosition p leaves R \<longrightarrow> \<not> IsRootPosition (p XOR 1) leaves R"
  shows "proof_positions_loop leaves R computed known proofs =
    sibling_frontier leaves R (path_closure leaves R T)"
  using assms
proof (induction leaves R computed known proofs arbitrary: D rule: proof_positions_loop.induct)
  case (1 leaves R known proofs)
  then show ?case by (simp add: proof_loop_inv_final)
next
  case (2 leaves R pos computed known proofs)
  show ?case
  proof (cases "IsRootPosition pos leaves R")
    case True
    with 2 show ?thesis using proof_loop_inv_root [OF 2(4) True] by simp
  next
    case False
    note step = proof_loop_inv_step [OF 2(4) False refl]
    show ?thesis
    proof (cases "Parent pos R \<in> known")
      case True
      have "proof_positions_loop leaves R (pos # computed) known proofs =
          proof_positions_loop leaves R computed known
            (if pos XOR 1 \<notin> known then insert (pos XOR 1) proofs else proofs - {pos})"
        using False True by (simp add: Let_def)
      also have "\<dots> = sibling_frontier leaves R (path_closure leaves R T)"
        by (rule 2(3) [OF False refl refl refl _ step(2)]) (use True 2(5) in auto)
      finally show ?thesis .
    next
      case new: False
      have "proof_positions_loop leaves R (pos # computed) known proofs =
          proof_positions_loop leaves R (computed @ [Parent pos R]) (insert (Parent pos R) known)
            (if pos XOR 1 \<notin> known then insert (pos XOR 1) proofs else proofs - {pos})"
        using False new by (simp add: Let_def)
      also have "\<dots> = sibling_frontier leaves R (path_closure leaves R T)"
        by (rule 2(2) [OF False refl refl refl new step(1)]) (use new 2(5) in auto)
      finally show ?thesis .
    qed
  qed
qed

lemma path_closure_in_forest:
  assumes "p \<in> path_closure leaves R T" "R \<le> 62" "unat leaves \<le> 2 ^ R"
    and "\<forall>t \<in> T. \<exists>r i. in_forest (unat leaves) r i \<and> t = wpos R r i"
  shows "\<exists>r i. in_forest (unat leaves) r i \<and> p = wpos R r i"
  using assms(1)
proof induction
  case (step p)
  then obtain r i where ri: "in_forest (unat leaves) r i" "p = wpos R r i" by blast
  have c: "coord R r i" using in_forest_coord [OF ri(1) assms(3)] .
  have nr: "\<not> is_root_coord (unat leaves) r i" using step.hyps(2) ri IsRootPosition_wpos [OF c assms(2,3)] by simp
  then have "r < R" using in_forest_top_root [OF ri(1)] assms(3) c by (cases "r = R") (auto simp: coord_def)
  then show ?case using in_forest_Parent [OF ri(1) nr] Parent_wpos [OF c _ assms(2)] ri(2) by auto
qed (use assms(4) in blast)

lemma ProofPositions_frontier:
  assumes "R \<le> 62" "unat leaves \<le> 2 ^ R"
    and "\<forall>t \<in> set targets. \<exists>r i. in_forest (unat leaves) r i \<and> t = wpos R r i"
  shows "set (ProofPositions targets leaves R) = sibling_frontier leaves R (path_closure leaves R (set targets))"
proof -
  have "\<not> IsRootPosition (p XOR 1) leaves R"
    if p: "p \<in> path_closure leaves R (set targets)" "\<not> IsRootPosition p leaves R" for p
  proof -
    obtain r i where ri: "in_forest (unat leaves) r i" "p = wpos R r i"
      using path_closure_in_forest [OF p(1) assms] by blast
    have c: "coord R r i" using in_forest_coord [OF ri(1) assms(2)] .
    have nr: "\<not> is_root_coord (unat leaves) r i" using p(2) ri IsRootPosition_wpos [OF c assms(1,2)] by simp
    have rR: "r < R" using nr in_forest_top_root [OF ri(1)] assms(2) c by (cases "r = R") (auto simp: coord_def)
    note s = in_forest_sibling [OF ri(1) nr]
    show ?thesis
      using s IsRootPosition_wpos [OF in_forest_coord [OF conjunct1 [OF s] assms(2)] assms(1,2)]
        sibling_wpos [OF c rR assms(1)] ri(2) by simp
  qed
  then have "proof_positions_loop leaves R targets (set targets) {} =
      sibling_frontier leaves R (path_closure leaves R (set targets))"
    by (intro proof_positions_loop_correct [where D = "{}"])
       (auto simp: proof_loop_inv_def intro: path_closure.base)
  then show ?thesis by (simp add: ProofPositions_def)
qed


section \<open>Offsets\<close>

text \<open>
  The loop of \<open>DetectOffset\<close> walks down from the highest row while the node is not in the tree of
  that row: as long as it goes on, the bits of the offset agree with those of the leaf count.
\<close>

lemma offset_test:
  assumes "t \<le> 62" "r \<le> t"
  shows "push_bit r m AND (push_bit t 2 - 1) \<ge> push_bit t 1 AND (leaves :: u64) \<longleftrightarrow>
    \<not> bit leaves t \<or> bit m (t - r)"
proof -
  let ?x = "take_bit (t + 1) (push_bit r m)"
  have x: "push_bit r m AND (push_bit t 2 - 1) = ?x"
    unfolding push_bit_minus_mask [OF assms(1)] by (simp add: take_bit_eq_mask)
  have l: "push_bit t 1 AND leaves = (if bit leaves t then 2 ^ t else 0)"
    by (rule bit_eqI) (auto simp: bit_and_iff bit_push_bit_iff bit_exp_iff bit_1_iff)
  have "2 ^ t \<le> ?x \<longleftrightarrow> \<not> unat ?x < 2 ^ t"
    using assms(1) by (simp add: word_le_nat_alt unat_exp_u64 not_less)
  also have "\<dots> \<longleftrightarrow> bit m (t - r)"
    unfolding unat_less_exp_iff_no_bits using assms
    by (auto simp: bit_take_bit_iff bit_push_bit_iff less_Suc_eq_le dest!: le_antisym)
  finally show ?thesis unfolding x l by simp
qed

lemma bit_minus_exp:
  assumes "k < t"
  shows "bit (m - 2 ^ t :: u64) k = bit m k"
proof -
  have "take_bit t (uint m - 2 ^ t) = take_bit t (uint m)"
    using take_bit_diff [of t "uint m" "2 ^ t"] by simp
  then have "bit (uint m - 2 ^ t) k = bit (uint m) k" using assms by (metis bit_take_bit_iff)
  moreover have "m - 2 ^ t = of_int (uint m - 2 ^ t)" by simp
  ultimately show ?thesis
    by (metis bit_word_of_int_iff word_of_int_uint)
qed

lemma half_eq: "(a::nat) div 2 = b div 2 \<Longrightarrow> a \<le> b \<Longrightarrow> (even b \<or> odd a) \<Longrightarrow> a = b"
  by presburger

lemma half_neq: "(a::nat) div 2 = b div 2 \<Longrightarrow> odd b \<Longrightarrow> even a \<Longrightarrow> a + 1 = b"
  by presburger

lemma half_last: "(a::nat) div 2 = b div 2 \<Longrightarrow> a < b \<Longrightarrow> odd b \<and> a + 1 = b"
  by presburger

lemma div_exp_step: "(n::nat) div 2 ^ Suc k = n div 2 ^ k div 2"
  by (simp add: div_mult2_eq [symmetric] mult.commute)

lemma detect_offset_loop_correct:
  assumes "r \<le> t" "t \<le> 62" "i < unat leaves div 2 ^ r"
    and "i div 2 ^ (t + 1 - r) = unat leaves div 2 ^ (t + 1)"
    and "\<forall>k \<le> t - r. bit m k = odd (i div 2 ^ k)"
  shows "\<exists>u m'. r \<le> u \<and> u \<le> t \<and>
    detect_offset_loop leaves r t m b =
      \<lparr>tree_index = b + card {v. u < v \<and> v \<le> t \<and> bit leaves v}, branch_length = u - r, path_bits = NOT m'\<rparr> \<and>
    odd (unat leaves div 2 ^ u) \<and> i div 2 ^ (u - r) + 1 = unat leaves div 2 ^ u \<and>
    (\<forall>k < u - r. bit m' k = odd (i div 2 ^ k))"
  using assms
proof (induction "t - r" arbitrary: t m b)
  case 0
  then have t: "t = r" by simp
  have "detect_offset_loop leaves r t m b = \<lparr>tree_index = b, branch_length = 0, path_bits = NOT m\<rparr>"
    by (subst detect_offset_loop.simps) (simp add: t)
  moreover have "odd (unat leaves div 2 ^ r) \<and> i + 1 = unat leaves div 2 ^ r"
    using 0 t div_exp_step [of "unat leaves" r] by (intro half_last) auto
  ultimately show ?case by (intro exI [of _ r] exI [of _ m]) (simp add: t)
next
  case (Suc n)
  let ?N = "unat leaves"
  define a where "a = i div 2 ^ (t - r)"
  define c where "c = ?N div 2 ^ t"
  have tr: "r < t" "t + 1 - r = Suc (t - r)" using Suc.hyps(2) by auto
  have half: "a div 2 = c div 2"
    using Suc.prems(4) unfolding a_def c_def tr(2) by (metis Suc_eq_plus1 div_exp_step)
  have "a \<le> ?N div 2 ^ r div 2 ^ (t - r)" using Suc.prems(3) unfolding a_def by (intro div_le_mono) simp
  then have le: "a \<le> c" using tr by (simp add: c_def div_mult2_eq [symmetric] power_add [symmetric])
  have bits: "bit leaves t = odd c" "bit m (t - r) = odd a"
    using Suc.prems(5) by (simp_all add: bit_u64_odd_div c_def a_def)
  note test = offset_test [OF Suc.prems(2,1), of leaves m, unfolded bits]
  have ts: "push_bit t 1 AND leaves = (if odd c then 2 ^ t else 0)"
    unfolding bits(1) [symmetric] by (rule bit_eqI) (auto simp: bit_and_iff bit_push_bit_iff bit_exp_iff bit_1_iff)
  show ?case
  proof (cases "odd c \<and> even a")
    case True
    have "detect_offset_loop leaves r t m b =
        \<lparr>tree_index = b, branch_length = t - r, path_bits = NOT m\<rparr>"
      by (subst detect_offset_loop.simps) (use test True in simp)
    moreover have "a + 1 = c" using half True by (intro half_neq) auto
    ultimately show ?thesis
      using True Suc.prems by (intro exI [of _ t] exI [of _ m]) (auto simp: a_def c_def)
  next
    case False
    then have ac: "a = c" by (intro half_eq [OF half le]) auto
    have t1: "t - 1 + 1 - r = t - r" "t - 1 + 1 = t" "t - 1 - r = n" using tr Suc.hyps(2) by auto
    let ?m = "if odd c then m - 2 ^ t else m" and ?b = "if odd c then b + 1 else b"
    have bm: "bit ?m k = odd (i div 2 ^ k)" if "k \<le> t - 1 - r" for k
      using that Suc.prems(5) tr by (auto simp: bit_minus_exp)
    have e: "detect_offset_loop leaves r t m b = detect_offset_loop leaves r (t - 1) ?m ?b"
      by (subst detect_offset_loop.simps) (use test False tr ts Suc.prems(2) in \<open>auto simp: Let_def\<close>)
    have "\<exists>u m'. r \<le> u \<and> u \<le> t - 1 \<and>
      detect_offset_loop leaves r (t - 1) ?m ?b =
        \<lparr>tree_index = ?b + card {v. u < v \<and> v \<le> t - 1 \<and> bit leaves v}, branch_length = u - r, path_bits = NOT m'\<rparr> \<and>
      odd (?N div 2 ^ u) \<and> i div 2 ^ (u - r) + 1 = ?N div 2 ^ u \<and> (\<forall>k < u - r. bit m' k = odd (i div 2 ^ k))"
      by (rule Suc.hyps(1)) (use Suc.prems Suc.hyps(2) tr t1 ac bm in \<open>auto simp: a_def c_def\<close>)
    then obtain u m' where u: "r \<le> u" "u \<le> t - 1" "odd (?N div 2 ^ u)" "i div 2 ^ (u - r) + 1 = ?N div 2 ^ u"
        "\<forall>k < u - r. bit m' k = odd (i div 2 ^ k)"
      and r: "detect_offset_loop leaves r (t - 1) ?m ?b =
        \<lparr>tree_index = ?b + card {v. u < v \<and> v \<le> t - 1 \<and> bit leaves v}, branch_length = u - r, path_bits = NOT m'\<rparr>"
      by blast
    have "{v. u < v \<and> v \<le> t \<and> bit leaves v} =
        (if odd c then insert t {v. u < v \<and> v \<le> t - 1 \<and> bit leaves v} else {v. u < v \<and> v \<le> t - 1 \<and> bit leaves v})"
      using u(2) tr bits(1) by (auto simp: le_less_Suc_eq [symmetric] dest: le_neq_implies_less)
    moreover have "finite {v. u < v \<and> v \<le> t - 1 \<and> bit leaves v}" by simp
    moreover have "t \<notin> {v. u < v \<and> v \<le> t - 1 \<and> bit leaves v}" using tr by auto
    ultimately have "b + card {v. u < v \<and> v \<le> t \<and> bit leaves v} = ?b + card {v. u < v \<and> v \<le> t - 1 \<and> bit leaves v}"
      by auto
    then show ?thesis using u r e tr by (intro exI [of _ u] exI [of _ m']) auto
  qed
qed

lemma bit_wpos:
  assumes "coord R r i" "R \<le> 62" "k \<le> R - r"
  shows "bit (wpos R r i) k = odd (i div 2 ^ k)"
proof -
  have c: "r \<le> R" using assms(1) by (simp add: coord_def)
  have "R + 1 - r = k + Suc (R - r - k)" using assms(3) c by simp
  then have e: "(2::nat) ^ (R + 1 - r) = 2 ^ k * (2 * 2 ^ (R - r - k))" by (metis power_Suc power_add)
  have "R + 1 = k + Suc (R - k)" using assms(3) c by simp
  then have e1: "(2::nat) ^ (R + 1) = 2 ^ k * (2 * 2 ^ (R - k))" by (metis power_Suc power_add)
  have "pos_of R r i = 2 ^ k * (2 * (2 ^ (R - k) - 2 ^ (R - r - k))) + i"
    unfolding pos_of_def row_start_def e e1 by (simp add: diff_mult_distrib2)
  then have "pos_of R r i div 2 ^ k = 2 * (2 ^ (R - k) - 2 ^ (R - r - k)) + i div 2 ^ k" by simp
  then show ?thesis using assms by (simp add: bit_u64_odd_div)
qed


lemma DetectOffset_tree:
  assumes "in_forest (unat leaves) r i" "TreeRows leaves \<le> 62"
  shows "\<exists>t \<le> TreeRows leaves.
    t = r + branch_length (DetectOffset (wpos (TreeRows leaves) r i) leaves) \<and>
    is_root_coord (unat leaves) t (i div 2 ^ (t - r)) \<and>
    tree_index (DetectOffset (wpos (TreeRows leaves) r i) leaves) =
      card {v. t < v \<and> v \<le> TreeRows leaves \<and> bit leaves v} \<and>
    (\<forall>k < t - r. bit (path_bits (DetectOffset (wpos (TreeRows leaves) r i) leaves)) k = even (i div 2 ^ k))"
proof -
  let ?R = "TreeRows leaves" and ?N = "unat leaves"
  have c: "coord ?R r i" using assms(1) leaves_le_TreeRows by (rule in_forest_coord)
  then have r: "r \<le> ?R" and i: "i < 2 ^ (?R - r)" by (auto simp: coord_def)
  have D: "DetectOffset (wpos ?R r i) leaves = detect_offset_loop leaves r ?R (wpos ?R r i) 0"
    using DetectRow_wpos [OF c assms(2)] r by (simp add: DetectOffset_def Let_def)
  have "(2::nat) ^ (?R - r) < 2 ^ (?R + 1 - r)" "(2::nat) ^ ?R < 2 ^ (?R + 1)" using r by (auto simp: Suc_diff_le)
  then have "i < 2 ^ (?R + 1 - r)" "?N < 2 ^ (?R + 1)" using i leaves_le_TreeRows [of leaves] by linarith+
  then have "i div 2 ^ (?R + 1 - r) = ?N div 2 ^ (?R + 1)" by simp
  then obtain u m' where u: "r \<le> u" "u \<le> ?R" "odd (?N div 2 ^ u)" "i div 2 ^ (u - r) + 1 = ?N div 2 ^ u"
      "\<forall>k < u - r. bit m' k = odd (i div 2 ^ k)"
    and e: "detect_offset_loop leaves r ?R (wpos ?R r i) 0 =
      \<lparr>tree_index = 0 + card {v. u < v \<and> v \<le> ?R \<and> bit leaves v}, branch_length = u - r, path_bits = NOT m'\<rparr>"
    using detect_offset_loop_correct [OF r assms(2), of i leaves "wpos ?R r i" 0] bit_wpos [OF c assms(2)] assms(1)
    unfolding in_forest_def by blast
  show ?thesis
    unfolding D e using u assms(2) by (intro exI [of _ u]) (auto simp: is_root_coord_def bit_not_iff)
qed

section \<open>Properties\<close>

text \<open>C6: For in-forest targets, \<open>ProofPositions\<close> returns in increasing order and without repetition
  exactly the siblings of the positions a verifier computes on the way from the targets to the
  roots that it does not compute itself: no sibling is missing and none is redundant.\<close>

theorem ProofPositions_correct:
  assumes "R = TreeRows leaves" "R \<le> 62"
    and "\<forall>t \<in> set targets. \<exists>r i. in_forest (unat leaves) r i \<and> t = wpos R r i"
  shows "sorted_wrt (<) (ProofPositions targets leaves R) \<and>
    set (ProofPositions targets leaves R) = sibling_frontier leaves R (path_closure leaves R (set targets))"
  using ProofPositions_frontier [OF assms(2) _ assms(3)] leaves_le_TreeRows [of leaves] assms(1)
  by (simp add: ProofPositions_def strict_sorted_list_of_set)

theorem ProofPositions_correct_witness:
  "set (ProofPositions [0, 3] 4 2) = sibling_frontier 4 2 (path_closure 4 2 {0, 3}) \<and>
   ProofPositions [0, 3] 4 2 = [1, 2]"
proof
  have R: "2 = TreeRows 4" by code_simp
  have "in_forest (unat (4 :: u64)) 0 0 \<and> 0 = wpos 2 0 0" "in_forest (unat (4 :: u64)) 0 3 \<and> 3 = wpos 2 0 3"
    by (simp_all add: in_forest_def wpos_def pos_of_def row_start_def)
  then have "\<forall>t \<in> set [0, 3]. \<exists>r i. in_forest (unat (4 :: u64)) r i \<and> t = wpos 2 r i"
    by (metis empty_iff list.set(1) set_ConsD)
  from ProofPositions_correct [OF R _ this]
  show "set (ProofPositions [0, 3] 4 2) = sibling_frontier 4 2 (path_closure 4 2 {0, 3})" by simp
  show "ProofPositions [0, 3] 4 2 = [1, 2]" by code_simp
qed

text \<open>For a node of the forest at row \<open>r\<close> and offset \<open>i\<close>, \<open>DetectOffset\<close> finds the tree the node
  is in: the row of that tree's root is \<open>r\<close> plus the branch length, the tree index is the number of
  larger trees, and the low path bits are the complemented bits of the offset.\<close>

theorem DetectOffset_correct:
  assumes "in_forest (unat leaves) r i" "TreeRows leaves \<le> 62"
  shows "\<exists>t \<le> TreeRows leaves.
    t = r + branch_length (DetectOffset (wpos (TreeRows leaves) r i) leaves) \<and>
    is_root_coord (unat leaves) t (i div 2 ^ (t - r)) \<and>
    tree_index (DetectOffset (wpos (TreeRows leaves) r i) leaves) =
      card {v. t < v \<and> v \<le> TreeRows leaves \<and> bit leaves v} \<and>
    (\<forall>k < t - r. bit (path_bits (DetectOffset (wpos (TreeRows leaves) r i) leaves)) k = even (i div 2 ^ k))"
  by (rule DetectOffset_tree [OF assms])

theorem DetectOffset_correct_witness:
  "is_root_coord 3 (branch_length (DetectOffset 1 3)) (1 div 2 ^ branch_length (DetectOffset 1 3)) \<and>
   branch_length (DetectOffset 1 3) = 1"
proof
  have R: "TreeRows 3 = 2" by code_simp
  have w: "wpos 2 0 (Suc 0) = 1" by (simp add: wpos_def pos_of_def row_start_def)
  have "in_forest (unat (3 :: u64)) 0 1" by (simp add: in_forest_def)
  from DetectOffset_correct [OF this]
  show "is_root_coord 3 (branch_length (DetectOffset 1 3)) (1 div 2 ^ branch_length (DetectOffset 1 3))"
    by (auto simp: R w)
  show "branch_length (DetectOffset 1 3) = 1" by code_simp
qed

end
