(* ===== verification/Verify.thy ===== *)
theory Verify
  imports Position Hash
begin

unbundle bit_operations_syntax

text \<open>
  Proof verification (\<open>VerifyProof\<close> of \<^verbatim>\<open>src/src/forest.cpp\<close>). The verifier merges two sorted queues,
  the nodes given by the proof and the parents it has computed, always taking the lowest position,
  and hashes sibling pairs until only root positions are left.

  The forest a verifier talks about enters through the locale \<open>hash_forest\<close>: a partial assignment of
  hashes to positions in which an inner node has the parent hash of its children. Completeness
  (the hashes of a forest verify) and soundness (a proof that verifies shows the hashes of the
  forest, or a hash collision) are proved there once.
\<close>

section \<open>The verifier\<close>

record Proof =
  targets :: "u64 list"
  hashes :: "hash256 list"

type_synonym node = "u64 \<times> hash256"

fun next_node :: "node list \<Rightarrow> node list \<Rightarrow> (node \<times> node list \<times> node list) option" where
  "next_node [] [] = None"
| "next_node (c # computed) [] = Some (c, computed, [])"
| "next_node [] (p # provided) = Some (p, [], provided)"
| "next_node (c # computed) (p # provided) =
     (if fst c < fst p then Some (c, computed, p # provided) else Some (p, c # computed, provided))"

lemma next_node_length:
  "next_node computed provided = Some (n, computed', provided') \<Longrightarrow>
   length computed' + length provided' + 1 = length computed + length provided"
  by (cases "(computed, provided)" rule: next_node.cases) (auto split: if_splits)

lemma next_node_None: "next_node computed provided = None \<longleftrightarrow> computed = [] \<and> provided = []"
  by (cases "(computed, provided)" rule: next_node.cases) auto

lemma and_one_zero: "w AND 1 = 0 \<longleftrightarrow> \<not> bit (w :: u64) 0"
  by (simp add: and_one_eq bit_0 mod2_eq_if)

lemma or_one_xor: "\<not> bit w 0 \<Longrightarrow> w OR 1 = w XOR (1 :: u64)"
  by (intro bit_word_eqI) (auto simp: bit_or_iff bit_xor_iff bit_1_iff intro: gr0I)

lemma unat_or_one: "unat (w OR 1 :: u64) = 2 * (unat w div 2) + 1"
proof (cases "bit w 0")
  case True
  then have "w OR 1 = w" by (intro bit_word_eqI) (auto simp: bit_or_iff bit_1_iff)
  then show ?thesis using True by (simp add: bit_u64_odd_div)
next
  case False
  then have "even (unat w)" by (simp add: bit_u64_odd_div)
  moreover have "unat (w OR 1) = unat w + 1"
  proof -
    have "w AND 1 = 0" using False by (simp add: and_one_zero)
    then have "w OR 1 = w + 1" using word_plus_and_or [of w 1] by simp
    moreover have "w \<noteq> - 1" using False by auto
    ultimately show ?thesis by (simp add: unat_plus_one)
  qed
  ultimately show ?thesis by simp
qed

lemma unat_xor_one_half: "unat (w XOR 1 :: u64) div 2 = unat w div 2"
proof -
  have "drop_bit 1 (w XOR 1) = drop_bit 1 w"
    by (rule bit_word_eqI) (auto simp: bit_drop_bit_eq bit_xor_iff bit_1_iff)
  then have "unat (drop_bit 1 (w XOR 1)) = unat (drop_bit 1 w)" by simp
  then show ?thesis by (simp add: drop_bit_eq_div unat_div)
qed

lemma next_node_set:
  "next_node computed provided = Some (n, computed', provided') \<Longrightarrow>
   set computed \<union> set provided = insert n (set computed' \<union> set provided')"
  by (cases "(computed, provided)" rule: next_node.cases) (auto split: if_splits)

text \<open>Both queues are in increasing order and share no position.\<close>

definition queues :: "node list \<Rightarrow> node list \<Rightarrow> bool" where
  "queues computed provided \<longleftrightarrow> sorted_wrt (<) (map fst computed) \<and> sorted_wrt (<) (map fst provided) \<and>
     fst ` set computed \<inter> fst ` set provided = {}"

lemma next_node_queues:
  assumes "queues computed provided" "next_node computed provided = Some (n, computed', provided')"
  shows "queues computed' provided'" "set computed' \<subseteq> set computed" "set provided' \<subseteq> set provided"
    "s \<in> fst ` (set computed' \<union> set provided') \<Longrightarrow> fst n < s"
proof -
  have "queues computed' provided' \<and> set computed' \<subseteq> set computed \<and> set provided' \<subseteq> set provided \<and>
    (\<forall>s \<in> fst ` (set computed' \<union> set provided'). fst n < s)"
    using assms
  proof (cases "(computed, provided)" rule: next_node.cases)
    case (4 c cs p ps)
    then have e: "computed = c # cs" "provided = p # ps" by simp_all
    then have k: "\<forall>x \<in> set cs. fst c < fst x" "\<forall>x \<in> set ps. fst p < fst x" "fst c \<noteq> fst p"
      using assms(1) by (auto simp: queues_def)
    show ?thesis
    proof (cases "fst c < fst p")
      case True
      then have "n = c" "computed' = cs" "provided' = p # ps" using assms(2) e by auto
      moreover have "\<forall>x \<in> set ps. fst c < fst x" using k True by (meson less_trans)
      ultimately show ?thesis using assms(1) e k True by (auto simp: queues_def)
    next
      case False
      then have lt: "fst p < fst c" using k(3) by auto
      have "n = p" "computed' = c # cs" "provided' = ps" using assms(2) e False by auto
      moreover have "\<forall>x \<in> set cs. fst p < fst x" using k lt by (meson less_trans)
      ultimately show ?thesis using assms(1) e k lt by (auto simp: queues_def)
    qed
  qed (auto simp: queues_def)
  then show "queues computed' provided'" "set computed' \<subseteq> set computed" "set provided' \<subseteq> set provided"
    "s \<in> fst ` (set computed' \<union> set provided') \<Longrightarrow> fst n < s" by blast+
qed

function verify_loop ::
    "u64 \<Rightarrow> nat \<Rightarrow> (u64 \<rightharpoonup> hash256) \<Rightarrow> node list \<Rightarrow> node list \<Rightarrow> bool Result" where
  "verify_loop num_leaves forest_rows expected_roots computed provided =
     (case next_node computed provided of
        None \<Rightarrow> Ok True
      | Some ((position_value, hash), computed1, provided1) \<Rightarrow>
          if IsRootPosition position_value num_leaves forest_rows
          then if expected_roots position_value \<noteq> Some hash then Ok False
               else verify_loop num_leaves forest_rows expected_roots computed1 provided1
          else if position_value AND 1 \<noteq> 0 then Err ''proof is missing a left sibling''
          else case next_node computed1 provided1 of
                 None \<Rightarrow> Err ''proof is missing a right sibling''
               | Some ((sibling, sibling_hash), computed2, provided2) \<Rightarrow>
                   if sibling \<noteq> position_value OR 1 then Err ''proof is missing a right sibling''
                   else verify_loop num_leaves forest_rows expected_roots
                          (computed2 @ [(Parent position_value forest_rows, ParentHash hash sibling_hash)])
                          provided2)"
  by pat_completeness auto
termination
  by (relation "measure (\<lambda>(n, r, e, computed, provided). length computed + length provided)")
     (auto dest!: next_node_length)

declare verify_loop.simps [simp del]

definition root_rows :: "u64 \<Rightarrow> nat list" where
  "root_rows num_leaves = filter (\<lambda>row. drop_bit row num_leaves AND 1 \<noteq> 0) (rev [0..<TreeRows num_leaves + 1])"

definition expected_roots :: "u64 \<Rightarrow> hash256 list \<Rightarrow> u64 \<rightharpoonup> hash256" where
  "expected_roots num_leaves roots =
     map_of (zip (map (\<lambda>row. RootPosition num_leaves row (TreeRows num_leaves)) (root_rows num_leaves)) roots)"

definition VerifyProof ::
    "Proof \<Rightarrow> hash256 list \<Rightarrow> hash256 list \<Rightarrow> u64 \<Rightarrow> bool Result" where
  "VerifyProof proof target_hashes roots num_leaves =
     (if length (targets proof) \<noteq> length target_hashes
      then Err ''proof target and target-hash counts differ''
      else if targets proof = [] then Ok True
      else if num_leaves = 0 then Err ''non-empty proof for an empty forest''
      else if length roots \<noteq> popcount num_leaves
      then Err ''root count does not match the forest leaf count''
      else let forest_rows = TreeRows num_leaves;
               proof_positions = ProofPositions (targets proof) num_leaves forest_rows
           in if length proof_positions \<noteq> length (hashes proof)
              then Err ''proof hash count does not match its required positions''
              else let provided = sort_key fst (zip (targets proof) target_hashes @
                                                zip proof_positions (hashes proof))
                   in if \<not> distinct (map fst provided)
                      then Err ''proof contains duplicate node positions''
                      else verify_loop num_leaves forest_rows (expected_roots num_leaves roots) [] provided)"

text \<open>The pairs of hashes a run of the verifier combines, in order; soundness names any collision among
  them.\<close>

function combined_pairs :: "u64 \<Rightarrow> nat \<Rightarrow> node list \<Rightarrow> node list \<Rightarrow> (hash256 \<times> hash256) list" where
  "combined_pairs num_leaves forest_rows computed provided =
     (case next_node computed provided of
        None \<Rightarrow> []
      | Some ((position_value, hash), computed1, provided1) \<Rightarrow>
          if IsRootPosition position_value num_leaves forest_rows
          then combined_pairs num_leaves forest_rows computed1 provided1
          else case next_node computed1 provided1 of
                 None \<Rightarrow> []
               | Some ((sibling, sibling_hash), computed2, provided2) \<Rightarrow>
                   (hash, sibling_hash) # combined_pairs num_leaves forest_rows
                     (computed2 @ [(Parent position_value forest_rows, ParentHash hash sibling_hash)]) provided2)"
  by pat_completeness auto
termination
  by (relation "measure (\<lambda>(n, r, computed, provided). length computed + length provided)")
     (auto dest!: next_node_length)

declare combined_pairs.simps [simp del]

definition verifier_pairs :: "Proof \<Rightarrow> hash256 list \<Rightarrow> u64 \<Rightarrow> (hash256 \<times> hash256) set" where
  "verifier_pairs proof target_hashes num_leaves =
     set (combined_pairs num_leaves (TreeRows num_leaves) []
       (sort_key fst (zip (targets proof) target_hashes @
          zip (ProofPositions (targets proof) num_leaves (TreeRows num_leaves)) (hashes proof))))"

lemma set_root_rows: "row \<in> set (root_rows num_leaves) \<longleftrightarrow> row \<le> TreeRows num_leaves \<and> odd (unat num_leaves div 2 ^ row)"
proof -
  have "drop_bit row num_leaves AND 1 \<noteq> 0 \<longleftrightarrow> bit num_leaves row"
    by (simp add: and_one_zero bit_drop_bit_eq)
  then show ?thesis by (auto simp: root_rows_def bit_u64_odd_div less_Suc_eq_le simp del: upt_Suc)
qed

lemma distinct_root_rows: "distinct (root_rows num_leaves)"
  by (simp add: root_rows_def)

lemma length_root_rows: "length (root_rows num_leaves) = popcount num_leaves"
proof -
  let ?R = "TreeRows num_leaves"
  have "bit num_leaves row \<longleftrightarrow> row \<le> ?R \<and> odd (unat num_leaves div 2 ^ row)" for row
  proof -
    have "row \<le> ?R" if "bit num_leaves row"
    proof (rule ccontr)
      assume "\<not> row \<le> ?R"
      then have "(2::nat) ^ ?R < 2 ^ row" by (intro power_strict_increasing) auto
      then show False using bit_imp_exp_le_unat [OF that] leaves_le_TreeRows [of num_leaves] by linarith
    qed
    then show ?thesis by (auto simp: bit_u64_odd_div)
  qed
  then have "set (root_rows num_leaves) = set (filter (\<lambda>i. bit num_leaves i) [0..<64])"
    using bit_imp_le_length [of num_leaves] by (auto simp: set_root_rows)
  then show ?thesis
    unfolding popcount_def using distinct_root_rows [of num_leaves] by (metis distinct_card distinct_filter distinct_upt)
qed

section \<open>A forest as a hash assignment\<close>

text \<open>
  \<open>H r i\<close> is the hash of the node at row \<open>r\<close> and offset \<open>i\<close> of a forest with \<open>N\<close> leaves, if there is a
  node; \<open>leaf r i\<close> tells whether the node is a leaf.
\<close>

locale hash_forest =
  fixes N :: u64 and H :: "nat \<Rightarrow> nat \<Rightarrow> hash256 option" and leaf :: "nat \<Rightarrow> nat \<Rightarrow> bool"
  assumes rows: "TreeRows N \<le> 62"
    and children: "in_forest (unat N) (r + 1) i \<Longrightarrow> H (r + 1) i = Some h \<Longrightarrow> \<not> leaf (r + 1) i \<Longrightarrow>
      \<exists>a b. H r (2 * i) = Some a \<and> H r (2 * i + 1) = Some b \<and> h = ParentHash a b"
    and child: "in_forest (unat N) r i \<Longrightarrow> \<not> is_root_coord (unat N) r i \<Longrightarrow> H r i = Some h \<Longrightarrow>
      H (r + 1) (i div 2) \<noteq> None \<and> \<not> leaf (r + 1) (i div 2)"
begin

definition at :: "u64 \<Rightarrow> hash256 \<Rightarrow> bool" where
  "at p h \<longleftrightarrow> (\<exists>r i. in_forest (unat N) r i \<and> p = wpos (TreeRows N) r i \<and> H r i = Some h)"

definition inside :: "u64 \<Rightarrow> bool" where
  "inside p \<longleftrightarrow> (\<exists>r i. in_forest (unat N) r i \<and> p = wpos (TreeRows N) r i)"

definition roots_match :: "(u64 \<rightharpoonup> hash256) \<Rightarrow> bool" where
  "roots_match expected \<longleftrightarrow> (\<forall>r i. is_root_coord (unat N) r i \<longrightarrow>
     expected (wpos (TreeRows N) r i) = H r i)"

text \<open>One of the pairs in \<open>P\<close> collides with the forest: it has the same parent hash as the different
  pair of hashes below some node, or the hash of a leaf is the parent hash of the pair.\<close>

definition collision :: "(hash256 \<times> hash256) set \<Rightarrow> bool" where
  "collision P \<longleftrightarrow>
     (\<exists>r i a b c d. in_forest (unat N) (r + 1) i \<and> H r (2 * i) = Some a \<and> H r (2 * i + 1) = Some b \<and>
        (c, d) \<in> P \<and> (a, b) \<noteq> (c, d) \<and> ParentHash a b = ParentHash c d) \<or>
     (\<exists>r i c d. in_forest (unat N) r i \<and> leaf r i \<and> (c, d) \<in> P \<and> H r i = Some (ParentHash c d))"

lemma collision_mono: "collision P \<Longrightarrow> P \<subseteq> Q \<Longrightarrow> collision Q"
  unfolding collision_def by blast

lemma leaves_le: "unat N \<le> 2 ^ TreeRows N"
  by (rule leaves_le_TreeRows)

lemma coord: "in_forest (unat N) r i \<Longrightarrow> coord (TreeRows N) r i"
  using leaves_le by (rule in_forest_coord [rotated])

lemma nonroot_row: "in_forest (unat N) r i \<Longrightarrow> \<not> is_root_coord (unat N) r i \<Longrightarrow> r < TreeRows N"
  using in_forest_top_root [of "unat N" r i] leaves_le coord [of r i]
  by (cases "r = TreeRows N") (auto simp: coord_def)

lemma at_unique: "at p h \<Longrightarrow> at p h' \<Longrightarrow> h = h'"
  unfolding at_def using wpos_inject [OF coord coord rows] by force

lemma wpos_parity:
  assumes "coord (TreeRows N) r i" "r < TreeRows N"
  shows "wpos (TreeRows N) r i AND 1 = 0 \<longleftrightarrow> even i"
    and "even i \<Longrightarrow> wpos (TreeRows N) r i OR 1 = wpos (TreeRows N) r (i + 1)"
proof -
  let ?p = "wpos (TreeRows N) r i"
  have b: "bit ?p 0 = odd i" using bit_wpos [OF assms(1) rows, of 0] by simp
  show e: "?p AND 1 = 0 \<longleftrightarrow> even i" using b by (simp add: and_one_zero)
  assume "even i"
  then have "\<not> bit ?p 0" using b by simp
  then have "?p OR 1 = ?p XOR 1" by (rule or_one_xor)
  then show "?p OR 1 = wpos (TreeRows N) r (i + 1)"
    using sibling_wpos(1) [OF assms rows] \<open>even i\<close> by simp
qed

lemma parent_at:
  assumes "in_forest (unat N) r i" "\<not> is_root_coord (unat N) r i"
  shows "Parent (wpos (TreeRows N) r i) (TreeRows N) = wpos (TreeRows N) (r + 1) (i div 2)"
    and "in_forest (unat N) (r + 1) (i div 2)"
  using Parent_wpos [OF coord [OF assms(1)] nonroot_row [OF assms] rows] in_forest_Parent [OF assms] by auto

lemma root_at: "in_forest (unat N) r i \<Longrightarrow>
    IsRootPosition (wpos (TreeRows N) r i) N (TreeRows N) \<longleftrightarrow> is_root_coord (unat N) r i"
  using IsRootPosition_wpos [OF coord rows leaves_le] by blast

section \<open>Soundness\<close>

lemma inside_odd:
  assumes "inside q" "q AND 1 \<noteq> 0"
  obtains r i where "in_forest (unat N) r i" "\<not> is_root_coord (unat N) r i" "even i"
    "q XOR 1 = wpos (TreeRows N) r i" "q = wpos (TreeRows N) r (i + 1)" "in_forest (unat N) r (i + 1)"
proof -
  obtain r j where rj: "in_forest (unat N) r j" "q = wpos (TreeRows N) r j" using assms(1) by (auto simp: inside_def)
  have "bit q 0" using assms(2) by (simp add: and_one_zero)
  then have j: "odd j" using bit_wpos [OF coord [OF rj(1)] rows, of 0] rj(2) by simp
  then have nr: "\<not> is_root_coord (unat N) r j" unfolding is_root_coord_def by (metis Suc_eq_plus1 even_Suc)
  note s = in_forest_sibling [OF rj(1) nr]
  show thesis
    using that [of r "j - 1"] s j rj sibling_wpos(1) [OF coord [OF rj(1)] nonroot_row [OF rj(1) nr] rows] by simp
qed

lemma pair_sound:
  assumes "in_forest (unat N) r i" "\<not> is_root_coord (unat N) r i" "even i" "(h, sh) \<in> P"
    and "at (wpos (TreeRows N) (r + 1) (i div 2)) (ParentHash h sh) \<or> collision P"
  shows "at (wpos (TreeRows N) r i) h \<and> at (wpos (TreeRows N) r (i + 1)) sh \<or> collision P"
proof (cases "collision P")
  case False
  note p = parent_at [OF assms(1,2)]
  obtain r' i' where q: "in_forest (unat N) r' i'" "wpos (TreeRows N) (r + 1) (i div 2) = wpos (TreeRows N) r' i'"
      "H r' i' = Some (ParentHash h sh)"
    using assms(5) False by (auto simp: at_def)
  have "r' = r + 1 \<and> i' = i div 2"
    using wpos_inject [OF coord [OF p(2)] coord [OF q(1)] rows] q(2) by simp
  then have H: "H (r + 1) (i div 2) = Some (ParentHash h sh)" using q(3) by simp
  have "\<not> leaf (r + 1) (i div 2)" using H p(2) assms(4) False unfolding collision_def by blast
  from children [OF p(2) H this] assms(3) obtain a b where
    ab: "H r i = Some a" "H r (i + 1) = Some b" "ParentHash h sh = ParentHash a b" by auto
  then have "(h, sh) = (a, b)" using False p(2) assms(3,4) unfolding collision_def by (metis dvd_mult_div_cancel)
  moreover have "in_forest (unat N) r (i + 1)" using in_forest_sibling [OF assms(1,2)] assms(3) by simp
  ultimately show ?thesis using ab assms(1) unfolding at_def by blast
qed simp

lemma verify_loop_sound:
  assumes "verify_loop N (TreeRows N) expected computed provided = Ok True" "roots_match expected"
    and "(p, h) \<in> set computed \<union> set provided" "inside p"
  shows "at p h \<or> collision (set (combined_pairs N (TreeRows N) computed provided))"
  using assms(1,3,4)
proof (induction "length computed + length provided" arbitrary: computed provided p h rule: less_induct)
  case less
  let ?R = "TreeRows N"
  obtain q k c1 p1 where n1: "next_node computed provided = Some ((q, k), c1, p1)"
    using less.prems(2) next_node_None [of computed provided]
    by (cases "next_node computed provided") (auto simp: prod_cases3)
  note l1 = next_node_length [OF n1] and s1 = next_node_set [OF n1]
  show ?case
  proof (cases "IsRootPosition q N ?R")
    case True
    then have e: "expected q = Some k" and v: "verify_loop N ?R expected c1 p1 = Ok True"
      using less.prems(1) n1 by (auto simp: verify_loop.simps [of N ?R expected computed] split: if_splits)
    show ?thesis
    proof (cases "(p, h) = (q, k)")
      case pq: True
      obtain r i where ri: "in_forest (unat N) r i" "q = wpos ?R r i" using less.prems(3) pq by (auto simp: inside_def)
      then have "H r i = Some k" using True e assms(2) root_at [OF ri(1)] by (auto simp: roots_match_def)
      then show ?thesis using ri pq by (auto simp: at_def)
    next
      case False
      then show ?thesis using less.hyps [OF _ v, of p h] l1 s1 less.prems n1 True by (auto simp: combined_pairs.simps [of N ?R computed])
    qed
  next
    case False
    then obtain sp sh c2 p2 where n2: "next_node c1 p1 = Some ((sp, sh), c2, p2)" and even: "q AND 1 = 0"
      and sp: "sp = q OR 1" and v: "verify_loop N ?R expected (c2 @ [(Parent q ?R, ParentHash k sh)]) p2 = Ok True"
      using less.prems(1) n1
      by (auto simp: verify_loop.simps [of N ?R expected computed] split: if_splits option.splits)
    note l2 = next_node_length [OF n2] and s2 = next_node_set [OF n2]
    let ?P = "set (combined_pairs N ?R computed provided)"
    have P: "?P = insert (k, sh) (set (combined_pairs N ?R (c2 @ [(Parent q ?R, ParentHash k sh)]) p2))"
      using n1 n2 False by (simp add: combined_pairs.simps [of N ?R computed])
    then have kP: "(k, sh) \<in> ?P" and sub: "set (combined_pairs N ?R (c2 @ [(Parent q ?R, ParentHash k sh)]) p2) \<subseteq> ?P" by auto
    have IH: "(p', h') \<in> insert (Parent q ?R, ParentHash k sh) (set c2 \<union> set p2) \<Longrightarrow> inside p' \<Longrightarrow> at p' h' \<or> collision ?P"
      for p' h' using less.hyps [OF _ v, of p' h'] l1 l2 collision_mono sub by fastforce
    have pair: "at q k \<and> at sp sh \<or> collision ?P" if "inside q \<or> inside sp"
    proof -
      have "\<exists>r i. in_forest (unat N) r i \<and> \<not> is_root_coord (unat N) r i \<and> even i \<and> q = wpos ?R r i"
      proof (cases "inside q")
        case True
        then obtain r i where ri: "in_forest (unat N) r i" "q = wpos ?R r i" by (auto simp: inside_def)
        then have nr: "\<not> is_root_coord (unat N) r i" using False root_at by simp
        moreover have "even i" using even wpos_parity(1) [OF coord [OF ri(1)] nonroot_row [OF ri(1) nr]] ri(2) by simp
        ultimately show ?thesis using ri by blast
      next
        case inq: False
        then have isp: "inside sp" using that by simp
        have "bit sp 0" unfolding sp by (simp add: bit_or_iff)
        then have odd: "sp AND 1 \<noteq> 0" by (simp add: and_one_zero)
        have "\<not> bit q 0" using even by (simp add: and_one_zero)
        then have "sp XOR 1 = q" unfolding sp by (simp add: or_one_xor)
        with inside_odd [OF isp odd] show ?thesis by metis
      qed
      then obtain r i where ri: "in_forest (unat N) r i" "\<not> is_root_coord (unat N) r i" "even i" "q = wpos ?R r i" by blast
      note pa = parent_at [OF ri(1,2)]
      have "at (wpos ?R (r + 1) (i div 2)) (ParentHash k sh) \<or> collision ?P"
        using IH [of "Parent q ?R" "ParentHash k sh"] pa ri(4) by (auto simp: inside_def)
      from pair_sound [OF ri(1-3) kP this] show ?thesis
        using wpos_parity(2) [OF coord [OF ri(1)] nonroot_row [OF ri(1,2)] ri(3)] ri(4) sp by simp
    qed
    show ?thesis using less.prems(2,3) s1 s2 pair IH by auto
  qed
qed

section \<open>Completeness\<close>

text \<open>A set of positions closed under siblings and parents of positions that are not roots.\<close>

definition closed :: "u64 set \<Rightarrow> bool" where
  "closed F \<longleftrightarrow> (\<forall>x \<in> F. (\<exists>h. at x h) \<and>
     (\<not> IsRootPosition x N (TreeRows N) \<longrightarrow> x XOR 1 \<in> F \<and> Parent x (TreeRows N) \<in> F))"

abbreviation root :: "u64 \<Rightarrow> bool" where
  "root x \<equiv> IsRootPosition x N (TreeRows N)"

abbreviation up :: "u64 \<Rightarrow> u64" where
  "up x \<equiv> Parent x (TreeRows N)"

lemma inside_bounds:
  assumes "inside x" "\<not> root x"
  shows "unat x < 2 ^ (TreeRows N + 1) - 2" and "unat (up x) = unat x div 2 + 2 ^ TreeRows N"
    and "inside (x XOR 1)" and "\<not> root (x XOR 1)" and "up (x XOR 1) = up x"
proof -
  let ?R = "TreeRows N"
  obtain r i where ri: "in_forest (unat N) r i" "x = wpos ?R r i" using assms(1) by (auto simp: inside_def)
  then have nr: "\<not> is_root_coord (unat N) r i" using assms(2) root_at by simp
  note c = coord [OF ri(1)] and rR = nonroot_row [OF ri(1) nr] and s = in_forest_sibling [OF ri(1) nr]
  have u: "unat x = pos_of ?R r i" using c rows ri(2) by simp
  have "pos_of ?R r i + 2 ^ (?R + 1 - r) = 2 ^ (?R + 1) + i" using c by (intro pos_of_Suc_eq) (auto simp: coord_def)
  moreover have "i < 2 ^ (?R - r)" "(2::nat) ^ (?R + 1 - r) = 2 * 2 ^ (?R - r)" "2 \<le> (2::nat) ^ (?R - r)"
    using c rR power_increasing [of 1 "?R - r" "2::nat"] by (auto simp: coord_def Suc_diff_le)
  ultimately show b: "unat x < 2 ^ (?R + 1) - 2" using u by linarith
  then show up: "unat (up x) = unat x div 2 + 2 ^ ?R" using unat_Parent [OF rows] by simp
  show i: "inside (x XOR 1)" unfolding inside_def using s sibling_wpos(1) [OF c rR rows] ri(2) by metis
  show "\<not> root (x XOR 1)" using s sibling_wpos(1) [OF c rR rows] ri(2) root_at [OF conjunct1 [OF s]] by simp
  have "unat (x XOR 1) < 2 ^ (?R + 1)"
    using b unat_xor_one_half [of x] by (simp add: less_mult_imp_div_less)
  then show "up (x XOR 1) = up x"
    using up unat_Parent [OF rows] unat_xor_one_half [of x] by (intro u64_eqI) simp
qed

lemma up_greater:
  assumes "inside x" "\<not> root x"
  shows "x OR 1 < up x" "x < up x"
proof -
  show "x OR 1 < up x"
    unfolding word_less_nat_alt unat_or_one inside_bounds(2) [OF assms] using inside_bounds(1) [OF assms] by simp
  moreover have "unat x \<le> unat (x OR 1)" unfolding unat_or_one by linarith
  ultimately show "x < up x" by (simp add: word_less_nat_alt)
qed

lemma up_mono:
  assumes "inside x" "\<not> root x" "inside y" "\<not> root y" "x OR 1 < y"
  shows "up x < up y"
  using assms(5) unfolding word_less_nat_alt unat_or_one inside_bounds(2) [OF assms(1,2)] inside_bounds(2) [OF assms(3,4)]
  by linarith

lemma at_inside: "at x h \<Longrightarrow> inside x"
  by (auto simp: at_def inside_def)

lemma closed_inside: "closed F \<Longrightarrow> x \<in> F \<Longrightarrow> inside x"
  using at_inside by (auto simp: closed_def)

text \<open>What is left to process, \<open>S\<close>: every position of \<open>F\<close> is still in \<open>S\<close>, lies below it together with
  its sibling, or is the parent of a position that is not below it.\<close>

definition frontier_inv :: "u64 set \<Rightarrow> u64 set \<Rightarrow> bool" where
  "frontier_inv F S \<longleftrightarrow> S \<subseteq> F \<and>
     (\<forall>q \<in> F. q \<in> S \<or> (\<forall>s \<in> S. q < s) \<or> (\<exists>x \<in> F. \<not> root x \<and> (\<exists>s \<in> S. s \<le> x) \<and> up x = q)) \<and>
     (\<forall>q \<in> F. (\<forall>s \<in> S. q < s) \<and> \<not> root q \<longrightarrow> (\<forall>s \<in> S. q XOR 1 < s))"

lemma frontier_sibling:
  "frontier_inv F S \<Longrightarrow> q \<in> F \<Longrightarrow> \<forall>s \<in> S. q < s \<Longrightarrow> \<not> root q \<Longrightarrow> s \<in> S \<Longrightarrow> q XOR 1 < s"
  unfolding frontier_inv_def by blast

lemma frontier_cases:
  assumes "frontier_inv F S" "q \<in> F"
  obtains "q \<in> S" | "\<forall>s \<in> S. q < s" | x s where "x \<in> F" "\<not> root x" "s \<in> S" "s \<le> x" "up x = q"
  using assms unfolding frontier_inv_def by blast

text \<open>Removing the lowest positions \<open>D\<close> and adding what the parents of \<open>D\<close> need.\<close>

lemma frontier_descent:
  assumes F: "closed F" and inv: "frontier_inv F S"
    and m: "m \<in> S" "\<forall>s \<in> S. m \<le> s" and S': "S - D \<subseteq> S'" "m \<in> D"
    and up: "\<forall>y \<in> D. y \<in> F \<and> \<not> root y \<longrightarrow> up y \<in> S'"
    and x: "x \<in> F" "m \<le> x"
  shows "x \<in> D \<or> (\<exists>s \<in> S'. s \<le> x)"
  using x
proof (induction "unat x" arbitrary: x rule: less_induct)
  case less
  consider "x \<in> S" | y where "y \<in> F" "\<not> root y" "m \<le> y" "up y = x"
    using inv less.prems m unfolding frontier_inv_def by (meson leD order_trans)
  then show ?case
  proof cases
    case 1
    then show ?thesis using S' by auto
  next
    case 2
    have "y < x" using up_greater(2) [OF closed_inside [OF F 2(1)] 2(2)] 2(4) by simp
    then have "y \<in> D \<or> (\<exists>s \<in> S'. s \<le> y)" using less.hyps [of y] 2 by (simp add: word_less_nat_alt)
    then show ?thesis using up 2 \<open>y < x\<close> by (meson order.trans less_imp_le order_refl)
  qed
qed

lemma frontier_step:
  assumes F: "closed F" and inv: "frontier_inv F S"
    and m: "m \<in> S" "\<forall>s \<in> S. m \<le> s" and S': "S - D \<subseteq> S'" "m \<in> D" "S' \<subseteq> F"
    and up: "\<forall>y \<in> D. y \<in> F \<and> \<not> root y \<longrightarrow> up y \<in> S' \<and> y XOR 1 \<in> D"
    and low: "\<forall>y \<in> D. \<forall>s \<in> S'. y < s"
  shows "frontier_inv F S'"
proof -
  have d: "x \<in> D \<or> (\<exists>s \<in> S'. s \<le> x)" if "x \<in> F" "m \<le> x" for x
    using frontier_descent [OF F inv m S'(1,2) _ that] up by blast
  have below: "q < s" if "q < m" "s \<in> S'" for q s using low S'(2) that by (meson less_trans)
  have b: "q \<in> S' \<or> (\<forall>s \<in> S'. q < s) \<or> (\<exists>x \<in> F. \<not> root x \<and> (\<exists>s \<in> S'. s \<le> x) \<and> up x = q)" if q: "q \<in> F" for q
  proof -
    consider "q \<in> S" | "\<forall>s \<in> S. q < s" | y where "y \<in> F" "\<not> root y" "m \<le> y" "up y = q"
      using inv q m unfolding frontier_inv_def by (meson order_trans)
    then show ?thesis
    proof cases
      case 1
      then show ?thesis using S'(1) low by blast
    next
      case 2
      then show ?thesis using m(1) below by blast
    next
      case 3
      then show ?thesis using d [of y] up by blast
    qed
  qed
  have c: "\<forall>s \<in> S'. q XOR 1 < s" if q: "q \<in> F" "\<forall>s \<in> S'. q < s" "\<not> root q" for q
  proof -
    have "q \<in> D \<or> q < m" using d [of q] q by (meson leD not_le)
    then show ?thesis
    proof
      assume "q \<in> D"
      then show ?thesis using up q low by blast
    next
      assume "q < m"
      then have "\<forall>s \<in> S. q < s" using m(2) by (meson less_le_trans)
      then have "q XOR 1 < m" using inv q m(1) unfolding frontier_inv_def by blast
      then show ?thesis using below by blast
    qed
  qed
  show ?thesis unfolding frontier_inv_def using S'(3) b c by blast
qed

lemma pair_at:
  assumes "at m k" "at (m XOR 1) sh" "\<not> root m" "m AND 1 = 0"
  shows "at (up m) (ParentHash k sh)"
proof -
  obtain r i where ri: "in_forest (unat N) r i" "m = wpos (TreeRows N) r i" "H r i = Some k" using assms(1) by (auto simp: at_def)
  have nr: "\<not> is_root_coord (unat N) r i" using assms(3) ri root_at by simp
  note c = coord [OF ri(1)] and rR = nonroot_row [OF ri(1) nr] and p = parent_at [OF ri(1) nr]
  have e: "even i" using assms(4) wpos_parity(1) [OF c rR] ri(2) by simp
  have "m XOR 1 = wpos (TreeRows N) r (i + 1)" "in_forest (unat N) r (i + 1)"
    using sibling_wpos(1) [OF c rR rows] in_forest_sibling [OF ri(1) nr] e ri(2) by simp_all
  then have sib: "H r (i + 1) = Some sh"
    using assms(2) wpos_inject [OF coord coord rows] unfolding at_def by metis
  obtain h where h: "H (r + 1) (i div 2) = Some h" "\<not> leaf (r + 1) (i div 2)"
    using child [OF ri(1) nr ri(3)] by auto
  from children [OF p(2) h] e ri(3) sib have "h = ParentHash k sh" by auto
  then show ?thesis using p h ri(2) unfolding at_def by auto
qed

definition loop_inv :: "u64 set \<Rightarrow> node list \<Rightarrow> node list \<Rightarrow> bool" where
  "loop_inv F computed provided \<longleftrightarrow>
     queues computed provided \<and> frontier_inv F (fst ` (set computed \<union> set provided)) \<and>
     (\<forall>(x, h) \<in> set computed \<union> set provided. at x h) \<and>
     (\<forall>x \<in> fst ` set computed. \<exists>y \<in> F. \<not> root y \<and> x = up y \<and>
        (\<forall>s \<in> fst ` (set computed \<union> set provided). y OR 1 < s)) \<and>
     (\<forall>x \<in> fst ` set provided. \<forall>y \<in> F. \<not> root y \<longrightarrow> up y \<noteq> x)"

lemma loop_root:
  assumes F: "closed F" and inv: "loop_inv F computed provided"
    and n: "next_node computed provided = Some ((m, k), c1, p1)" and root: "root m"
  shows "loop_inv F c1 p1"
proof -
  let ?S = "fst ` (set computed \<union> set provided)" and ?S1 = "fst ` (set c1 \<union> set p1)"
  note q = inv [unfolded loop_inv_def, THEN conjunct1]
  note nq = next_node_queues [OF q n] and ns = next_node_set [OF n]
  have S: "?S = insert m ?S1" unfolding ns by simp
  have "frontier_inv F ?S1"
  proof (rule frontier_step [OF F])
    show "frontier_inv F ?S" using inv by (simp add: loop_inv_def)
    then show "?S1 \<subseteq> F" unfolding S frontier_inv_def by blast
    show "m \<in> ?S" "\<forall>s \<in> ?S. m \<le> s" unfolding S using nq(4) by (simp, metis fst_conv insert_iff less_imp_le order_refl)
  qed (use S root nq(4) in auto)
  moreover have "\<exists>y \<in> F. \<not> root y \<and> x = up y \<and> (\<forall>s \<in> ?S1. y OR 1 < s)" if "x \<in> fst ` set c1" for x
  proof -
    have "x \<in> fst ` set computed" using that nq(2) by auto
    then obtain y where "y \<in> F" "\<not> root y" "x = up y" "\<forall>s \<in> ?S. y OR 1 < s"
      using inv unfolding loop_inv_def by blast
    then show ?thesis unfolding S by blast
  qed
  moreover have "\<forall>x \<in> fst ` set p1. \<forall>y \<in> F. \<not> root y \<longrightarrow> up y \<noteq> x"
    using inv nq(3) unfolding loop_inv_def by blast
  moreover have "\<forall>(x, h) \<in> set c1 \<union> set p1. at x h" using inv ns unfolding loop_inv_def by blast
  ultimately show ?thesis using nq(1) unfolding loop_inv_def by blast
qed

lemma even_next: "\<not> bit m 0 \<Longrightarrow> m < s \<Longrightarrow> m OR 1 \<le> (s :: u64)"
  unfolding word_less_nat_alt word_le_nat_alt unat_or_one by (simp add: bit_u64_odd_div)

lemma loop_pair:
  assumes F: "closed F" and inv: "loop_inv F computed provided"
    and n: "next_node computed provided = Some ((m, k), c1, p1)" and nr: "\<not> root m"
  obtains sh c2 p2 where "m AND 1 = 0" "next_node c1 p1 = Some ((m OR 1, sh), c2, p2)"
    "loop_inv F (c2 @ [(up m, ParentHash k sh)]) p2"
proof -
  let ?S = "fst ` (set computed \<union> set provided)" and ?S1 = "fst ` (set c1 \<union> set p1)"
  note q = inv [unfolded loop_inv_def, THEN conjunct1]
  note nq = next_node_queues [OF q n] and ns = next_node_set [OF n]
  have fi: "frontier_inv F ?S" using inv by (simp add: loop_inv_def)
  have S: "?S = insert m ?S1" unfolding ns by simp
  have min: "\<forall>s \<in> ?S. m \<le> s" "m \<in> ?S"
    unfolding S using nq(4) by (metis fst_conv insert_iff less_imp_le order_refl, simp)
  have mF: "m \<in> F" using fi min(2) unfolding frontier_inv_def by blast
  note mi = closed_inside [OF F mF]
  have sF: "m XOR 1 \<in> F" and uF: "up m \<in> F" using F mF nr by (auto simp: closed_def)
  note sb = inside_bounds [OF mi nr]
  have even: "\<not> bit m 0"
  proof
    assume odd: "bit m 0"
    then have "\<not> bit (m XOR 1) 0" by (simp add: bit_xor_iff)
    then have "even (unat (m XOR 1))" "odd (unat m)" using odd by (simp_all add: bit_u64_odd_div)
    then have "unat (m XOR 1) = 2 * (unat (m XOR 1) div 2)" "unat m = 2 * (unat m div 2) + 1"
      by simp_all
    then have "unat (m XOR 1) < unat m" using unat_xor_one_half [of m] by linarith
    then have "m XOR 1 < m" by (simp add: word_less_nat_alt)
    then have "\<forall>s \<in> ?S. m XOR 1 < s" using min(1) by (meson less_le_trans)
    from frontier_sibling [OF fi sF this sb(4) min(2)] show False by simp
  qed
  then have oe: "m OR 1 = m XOR 1" by (rule or_one_xor)
  have ml: "m < m OR 1" unfolding word_less_nat_alt unat_or_one using even by (simp add: bit_u64_odd_div)
  have sS: "m XOR 1 \<in> ?S"
  proof (rule ccontr)
    assume "m XOR 1 \<notin> ?S"
    moreover have "\<not> (\<forall>s \<in> ?S. m XOR 1 < s)" using ml min(2) oe by (metis less_asym)
    ultimately obtain x s where x: "x \<in> F" "\<not> root x" "s \<in> ?S" "s \<le> x" "up x = m XOR 1"
      using frontier_cases [OF fi sF] by metis
    have "m \<le> x" using x min(1) by (meson order_trans)
    moreover have "m \<noteq> x" using up_greater(1) [OF mi nr] x(5) oe by auto
    ultimately have "m OR 1 \<le> x" using even_next [OF even, of x] by auto
    then show False using up_greater(2) [OF closed_inside [OF F x(1)] x(2)] x(5) oe by auto
  qed
  then have sS1: "m OR 1 \<in> ?S1" using S oe ml by auto
  then obtain s sh c2 p2 where n2: "next_node c1 p1 = Some ((s, sh), c2, p2)"
    using next_node_None [of c1 p1] by (cases "next_node c1 p1") auto
  note nq2 = next_node_queues [OF nq(1) n2] and ns2 = next_node_set [OF n2]
  have S1: "?S1 = insert s (fst ` (set c2 \<union> set p2))" unfolding ns2 by simp
  have "m OR 1 \<le> s" using even_next [OF even] nq(4) S1 by auto
  then have s: "s = m OR 1" using sS1 nq2(4) S1 by (metis fst_conv insert_iff leD)
  let ?c = "c2 @ [(up m, ParentHash k sh)]"
  let ?S2 = "fst ` (set ?c \<union> set p2)"
  have ath: "at x h" if "(x, h) \<in> set computed \<union> set provided" for x h
    using inv that unfolding loop_inv_def by blast
  have atm: "at m k" "at (m XOR 1) sh" using ath ns ns2 s oe by auto
  then have new: "at (up m) (ParentHash k sh)" using nr even by (intro pair_at) (auto simp: and_one_zero)
  have low: "m OR 1 < t" if "t \<in> ?S2" for t
    using that nq2(4) up_greater(1) [OF mi nr] s by auto
  have comp: "\<exists>y \<in> F. \<not> root y \<and> x = up y \<and> (\<forall>s \<in> ?S. y OR 1 < s)" if "x \<in> fst ` set c2" for x
  proof -
    have "x \<in> fst ` set computed" using that nq(2) nq2(2) by auto
    then show ?thesis using inv unfolding loop_inv_def by blast
  qed
  have prov: "\<forall>x \<in> fst ` set p2. \<forall>y \<in> F. \<not> root y \<longrightarrow> up y \<noteq> x"
    using inv nq(3) nq2(3) unfolding loop_inv_def by blast
  have lt: "x < up m" if x: "x \<in> fst ` set c2" for x
  proof -
    obtain y where y: "y \<in> F" "\<not> root y" "x = up y" "y OR 1 < m" using comp [OF x] min(2) by blast
    then show ?thesis using up_mono [OF closed_inside [OF F y(1)] y(2) mi nr] by simp
  qed
  have "up m \<notin> fst ` set p2" using prov mF nr by blast
  then have "queues ?c p2"
    using nq2(1) lt by (auto simp: queues_def sorted_wrt_append)
  moreover have "frontier_inv F ?S2"
  proof (rule frontier_step [OF F fi min(2,1), where D = "{m, m OR 1}"])
    show "?S - {m, m OR 1} \<subseteq> ?S2" unfolding S S1 s by auto
    show "?S2 \<subseteq> F" using fi uF S S1 unfolding frontier_inv_def by auto
    show "\<forall>y \<in> {m, m OR 1}. \<forall>t \<in> ?S2. y < t" using low ml by (auto intro: less_trans)
    show "\<forall>y \<in> {m, m OR 1}. y \<in> F \<and> \<not> root y \<longrightarrow> up y \<in> ?S2 \<and> y XOR 1 \<in> {m, m OR 1}"
      using sb(5) oe by auto
  qed simp
  moreover have "\<exists>y \<in> F. \<not> root y \<and> x = up y \<and> (\<forall>s \<in> ?S2. y OR 1 < s)" if x: "x \<in> fst ` set ?c" for x
  proof (cases "x = up m")
    case True
    then show ?thesis using mF nr low by blast
  next
    case False
    then have "x \<in> fst ` set c2" using x by auto
    then obtain y where y: "y \<in> F" "\<not> root y" "x = up y" "\<forall>s \<in> ?S. y OR 1 < s" using comp by blast
    then have "y OR 1 < t" if "t \<in> ?S2" for t using low [OF that] ml min(2) by (meson less_trans)
    then show ?thesis using y by blast
  qed
  moreover have "at x h" if "(x, h) \<in> set ?c \<union> set p2" for x h
    using that new ath ns ns2 by auto
  ultimately have "loop_inv F ?c p2" using prov unfolding loop_inv_def by blast
  then show thesis using that n2 s even by (auto simp: and_one_zero)
qed

lemma verify_loop_complete:
  assumes "closed F" "roots_match expected" "loop_inv F computed provided"
  shows "verify_loop N (TreeRows N) expected computed provided = Ok True"
  using assms(3)
proof (induction "length computed + length provided" arbitrary: computed provided rule: less_induct)
  case less
  show ?case
  proof (cases "next_node computed provided")
    case None
    then show ?thesis by (subst verify_loop.simps) simp
  next
    case (Some a)
    then obtain m k c1 p1 where n: "next_node computed provided = Some ((m, k), c1, p1)" by (cases a) auto
    have ath: "at m k" using less.prems next_node_set [OF n] unfolding loop_inv_def by blast
    show ?thesis
    proof (cases "root m")
      case True
      obtain r i where ri: "in_forest (unat N) r i" "m = wpos (TreeRows N) r i" "H r i = Some k"
        using ath by (auto simp: at_def)
      then have "expected m = Some k" using assms(2) True root_at by (auto simp: roots_match_def)
      moreover have "verify_loop N (TreeRows N) expected c1 p1 = Ok True"
        using loop_root [OF assms(1) less.prems n True] next_node_length [OF n] by (intro less.hyps) auto
      ultimately show ?thesis using n True by (subst verify_loop.simps) simp
    next
      case False
      obtain sh c2 p2 where p: "m AND 1 = 0" "next_node c1 p1 = Some ((m OR 1, sh), c2, p2)"
          "loop_inv F (c2 @ [(up m, ParentHash k sh)]) p2"
        using loop_pair [OF assms(1) less.prems n False] .
      have "verify_loop N (TreeRows N) expected (c2 @ [(up m, ParentHash k sh)]) p2 = Ok True"
        using p(3) next_node_length [OF n] next_node_length [OF p(2)] by (intro less.hyps) auto
      then show ?thesis using n p False by (subst verify_loop.simps) simp
    qed
  qed
qed

text \<open>The targets of a proof are leaves; the positions a verifier sees are those of the targets, of
  their ancestors and of the siblings of these.\<close>

definition leaf_targets :: "u64 set \<Rightarrow> bool" where
  "leaf_targets T \<longleftrightarrow> (\<forall>t \<in> T. \<exists>r i. in_forest (unat N) r i \<and> t = wpos (TreeRows N) r i \<and> leaf r i \<and> H r i \<noteq> None)"

definition needed :: "u64 set \<Rightarrow> u64 set" where
  "needed T = path_closure N (TreeRows N) T \<union> sibling_frontier N (TreeRows N) (path_closure N (TreeRows N) T)"

lemma at_up:
  assumes "at x h" "\<not> root x"
  shows "\<exists>h'. at (up x) h'" and "\<exists>h'. at (x XOR 1) h'"
proof -
  obtain r i where ri: "in_forest (unat N) r i" "x = wpos (TreeRows N) r i" "H r i = Some h" using assms(1) by (auto simp: at_def)
  have nr: "\<not> is_root_coord (unat N) r i" using assms(2) ri root_at by simp
  note p = parent_at [OF ri(1) nr]
  obtain h' where h': "H (r + 1) (i div 2) = Some h'" "\<not> leaf (r + 1) (i div 2)" using child [OF ri(1) nr ri(3)] by auto
  then show "\<exists>h'. at (up x) h'" using p ri(2) by (auto simp: at_def)
  obtain a b where ab: "H r (2 * (i div 2)) = Some a" "H r (2 * (i div 2) + 1) = Some b"
    using children [OF p(2) h'] by blast
  have "H r (if even i then i + 1 else i - 1) \<noteq> None"
    using ab by (cases "even i") (auto elim: oddE)
  then show "\<exists>h'. at (x XOR 1) h'"
    using in_forest_sibling [OF ri(1) nr] sibling_wpos(1) [OF coord [OF ri(1)] nonroot_row [OF ri(1) nr] rows] ri(2)
    unfolding at_def by (metis not_None_eq)
qed

lemma leaf_not_up:
  assumes "leaf_targets T" "t \<in> T" "at x h" "\<not> root x"
  shows "up x \<noteq> t"
proof
  assume eq: "up x = t"
  obtain r i where ri: "in_forest (unat N) r i" "x = wpos (TreeRows N) r i" "H r i = Some h" using assms(3) by (auto simp: at_def)
  have nr: "\<not> is_root_coord (unat N) r i" using assms(4) ri root_at by simp
  note p = parent_at [OF ri(1) nr]
  obtain r' i' where t: "in_forest (unat N) r' i'" "t = wpos (TreeRows N) r' i'" "leaf r' i'"
    using assms(1,2) by (auto simp: leaf_targets_def)
  have "r' = r + 1" "i' = i div 2"
    using wpos_inject [OF coord [OF p(2)] coord [OF t(1)] rows] eq p(1) ri(2) t(2) by auto
  then show False using child [OF ri(1) nr ri(3)] t(3) by simp
qed

lemma needed_closed:
  assumes "leaf_targets T"
  shows "closed (needed T)"
proof -
  let ?C = "path_closure N (TreeRows N) T"
  have C: "\<exists>h. at x h" if "x \<in> ?C" for x
    using that
  proof induction
    case (base t)
    then show ?case using assms unfolding leaf_targets_def at_def by blast
  next
    case (step p)
    then show ?case using at_up(1) by blast
  qed
  show ?thesis unfolding closed_def
  proof (intro ballI conjI impI)
    fix x
    assume "x \<in> needed T"
    then consider "x \<in> ?C" | y where "x = y XOR 1" "y \<in> ?C" "\<not> root y"
      by (auto simp: needed_def sibling_frontier_def)
    note x = this
    from x show "\<exists>h. at x h"
    proof cases
      case 2
      then show ?thesis using C at_up(2) by blast
    qed (rule C)
    assume nr: "\<not> root x"
    from x show "x XOR 1 \<in> needed T"
    proof cases
      case 1
      then show ?thesis using nr unfolding needed_def sibling_frontier_def by blast
    next
      case 2
      then show ?thesis by (simp add: needed_def)
    qed
    from x show "up x \<in> needed T"
    proof cases
      case 1
      then show ?thesis using nr path_closure.step unfolding needed_def by blast
    next
      case 2
      then have "up x = up y" using C inside_bounds(5) at_inside by blast
      then show ?thesis using path_closure.step [OF 2(2,3)] by (simp add: needed_def)
    qed
  qed
qed

lemma initial_frontier:
  assumes T: "leaf_targets T"
  shows "frontier_inv (needed T) (T \<union> sibling_frontier N (TreeRows N) (path_closure N (TreeRows N) T))"
    (is "frontier_inv ?F ?S")
proof -
  have sub: "?S \<subseteq> ?F" by (auto simp: needed_def intro: path_closure.base)
  have par: "q \<in> ?S \<or> (\<exists>x \<in> ?F. \<not> root x \<and> up x = q)" if "q \<in> ?F" for q
  proof (cases "q \<in> path_closure N (TreeRows N) T")
    case True
    then show ?thesis by (cases rule: path_closure.cases) (auto simp: needed_def)
  qed (use that in \<open>auto simp: needed_def\<close>)
  have low: "\<exists>s \<in> ?S. s \<le> q" if "q \<in> ?F" for q
    using that
  proof (induction "unat q" arbitrary: q rule: less_induct)
    case less
    from par [OF less.prems] show ?case
    proof
      assume "\<exists>x \<in> ?F. \<not> root x \<and> up x = q"
      then obtain x where x: "x \<in> ?F" "\<not> root x" "up x = q" by blast
      then have "x < q" using up_greater(2) closed_inside [OF needed_closed [OF T]] by blast
      then obtain s where "s \<in> ?S" "s \<le> x" using less.hyps [of x] x(1) by (auto simp: word_less_nat_alt)
      then show ?thesis using \<open>x < q\<close> by (meson less_imp_le order_trans)
    qed auto
  qed
  show ?thesis unfolding frontier_inv_def
  proof (intro conjI ballI impI)
    show "?S \<subseteq> ?F" by (rule sub)
    show "q \<in> ?S \<or> (\<forall>s \<in> ?S. q < s) \<or> (\<exists>x \<in> ?F. \<not> root x \<and> (\<exists>s \<in> ?S. s \<le> x) \<and> up x = q)" if "q \<in> ?F" for q
      using par [OF that] low by blast
    show "q XOR 1 < s" if "q \<in> ?F" "(\<forall>s \<in> ?S. q < s) \<and> \<not> root q" "s \<in> ?S" for q s
      using low [OF that(1)] that(2) by (meson leD)
  qed
qed

lemma complete:
  assumes T: "leaf_targets T" and "roots_match expected"
    and "sorted_wrt (<) (map fst provided)"
    and "fst ` set provided = T \<union> sibling_frontier N (TreeRows N) (path_closure N (TreeRows N) T)"
    and "\<And>x h. (x, h) \<in> set provided \<Longrightarrow> at x h"
  shows "verify_loop N (TreeRows N) expected [] provided = Ok True"
proof (rule verify_loop_complete [OF needed_closed [OF T] assms(2)])
  have "up y \<noteq> x" if xy: "x \<in> fst ` set provided" "y \<in> needed T" "\<not> root y" for x y
  proof (cases "x \<in> T")
    case True
    then show ?thesis using leaf_not_up [OF T True] needed_closed [OF T] xy by (auto simp: closed_def)
  next
    case False
    then have x: "x \<notin> path_closure N (TreeRows N) T" using xy(1) assms(4) by (auto simp: sibling_frontier_def)
    have "up y \<in> path_closure N (TreeRows N) T"
    proof (cases "y \<in> path_closure N (TreeRows N) T")
      case True
      then show ?thesis using xy(3) by (rule path_closure.step)
    next
      case False
      then obtain z where z: "y = z XOR 1" "z \<in> path_closure N (TreeRows N) T" "\<not> root z"
        using xy(2) by (auto simp: needed_def sibling_frontier_def)
      have "z \<in> needed T" using z(2) by (simp add: needed_def)
      then have "up y = up z" using inside_bounds(5) [OF closed_inside [OF needed_closed [OF T]]] z by simp
      then show ?thesis using path_closure.step [OF z(2,3)] by simp
    qed
    then show ?thesis using x by auto
  qed
  then show "loop_inv (needed T) [] provided"
    using assms(3,5) initial_frontier [OF T] assms(4) unfolding loop_inv_def queues_def by auto
qed

section \<open>The entry point\<close>

text \<open>The roots a verifier is given, from the highest row to the lowest.\<close>

definition roots_are :: "hash256 list \<Rightarrow> bool" where
  "roots_are rs \<longleftrightarrow> map Some rs = map (\<lambda>row. H row (unat N div 2 ^ row - 1)) (root_rows N)"

lemma roots_are_match:
  assumes "roots_are rs"
  shows "length rs = popcount N" "roots_match (expected_roots N rs)"
proof -
  have len: "length rs = length (root_rows N)" using assms unfolding roots_are_def by (metis length_map)
  then show "length rs = popcount N" by (simp add: length_root_rows)
  let ?R = "TreeRows N"
  have pos: "RootPosition N row ?R = wpos ?R row (unat N div 2 ^ row - 1)" if "row \<in> set (root_rows N)" for row
  proof -
    have row: "row \<le> ?R" "odd (unat N div 2 ^ row)" using that by (auto simp: set_root_rows)
    then have "2 * (unat N div 2 ^ (row + 1)) = unat N div 2 ^ row - 1" using odd_div_exp [OF row(2)] by linarith
    then show ?thesis using RootPosition_eq [OF row(1) rows leaves_le] by simp
  qed
  have root: "is_root_coord (unat N) row (unat N div 2 ^ row - 1)" if "row \<in> set (root_rows N)" for row
    using that odd_pos by (auto simp: set_root_rows is_root_coord_def)
  have c: "coord ?R row (unat N div 2 ^ row - 1)" if "row \<in> set (root_rows N)" for row
    using root [OF that] by (intro coord) (auto simp: in_forest_def is_root_coord_def)
  have inj: "inj_on (\<lambda>row. RootPosition N row ?R) (set (root_rows N))"
    using wpos_inject [OF c c rows] by (auto simp: inj_on_def pos)
  show "roots_match (expected_roots N rs)" unfolding roots_match_def
  proof (intro allI impI)
    fix r i
    assume ri: "is_root_coord (unat N) r i"
    then have i: "i = unat N div 2 ^ r - 1" and inf: "in_forest (unat N) r i"
      by (auto simp: is_root_coord_def in_forest_def)
    have r: "r \<in> set (root_rows N)" using ri coord [OF inf] by (auto simp: set_root_rows is_root_coord_def coord_def)
    then obtain k where k: "k < length (root_rows N)" "root_rows N ! k = r" by (metis in_set_conv_nth)
    have "map_of (zip (map (\<lambda>row. RootPosition N row ?R) (root_rows N)) rs) (RootPosition N r ?R) = Some (rs ! k)"
      using k len inj distinct_root_rows [of N] by (intro map_of_is_SomeI) (auto simp: distinct_map set_zip intro!: exI [of _ k])
    moreover have "map Some rs ! k = map (\<lambda>row. H row (unat N div 2 ^ row - 1)) (root_rows N) ! k"
      using assms unfolding roots_are_def by simp
    then have "H r i = Some (rs ! k)" using k len i by simp
    ultimately show "expected_roots N rs (wpos ?R r i) = H r i"
      using pos [OF r] i by (simp add: expected_roots_def)
  qed
qed

lemma VerifyProof_sound:
  assumes "VerifyProof pf th rs N = Ok True" "roots_are rs" "k < length (targets pf)" "inside (targets pf ! k)"
  shows "at (targets pf ! k) (th ! k) \<or> collision (verifier_pairs pf th N)"
proof -
  let ?pp = "ProofPositions (targets pf) N (TreeRows N)"
  have len: "length (targets pf) = length th"
    and v: "verify_loop N (TreeRows N) (expected_roots N rs) [] (sort_key fst (zip (targets pf) th @ zip ?pp (hashes pf))) = Ok True"
    using assms(1,3) by (auto simp: VerifyProof_def Let_def split: if_splits)
  have "(targets pf ! k, th ! k) \<in> set (zip (targets pf) th)" using len assms(3) by (auto simp: set_zip)
  then show ?thesis using verify_loop_sound [OF v roots_are_match(2) [OF assms(2)] _ assms(4)]
    unfolding verifier_pairs_def by simp
qed

lemma VerifyProof_complete:
  assumes T: "leaf_targets (set ts)" and "distinct ts" and "list_all2 at ts th" and "roots_are rs"
    and "list_all2 at (ProofPositions ts N (TreeRows N)) hs"
  shows "VerifyProof \<lparr>targets = ts, hashes = hs\<rparr> th rs N = Ok True"
proof (cases "ts = []")
  case False
  let ?R = "TreeRows N" and ?pp = "ProofPositions ts N (TreeRows N)"
  let ?prov = "sort_key fst (zip ts th @ zip ?pp hs)"
  have ins: "\<forall>t \<in> set ts. \<exists>r i. in_forest (unat N) r i \<and> t = wpos ?R r i" using T unfolding leaf_targets_def by blast
  have fr: "set ?pp = sibling_frontier N ?R (path_closure N ?R (set ts))"
    by (rule ProofPositions_frontier [OF rows leaves_le ins])
  have dpp: "distinct ?pp" by (simp add: ProofPositions_def)
  have len: "length ts = length th" "length ?pp = length hs" using assms(3,5) by (auto dest: list_all2_lengthD)
  have keys: "map fst (zip ts th @ zip ?pp hs) = ts @ ?pp" using len by simp
  have disj: "set ts \<inter> set ?pp = {}" unfolding fr by (auto simp: sibling_frontier_def intro: path_closure.base)
  have "mset (map fst ?prov) = mset (ts @ ?pp)" unfolding keys [symmetric] by simp
  then have dist: "distinct (map fst ?prov)" and set: "set (map fst ?prov) = set ts \<union> set ?pp"
    using assms(2) dpp disj by (metis distinct_append mset_eq_imp_distinct_iff, metis set_append set_mset_mset)
  have srt: "sorted_wrt (<) (map fst ?prov)"
    using dist sorted_sort_key [of fst "zip ts th @ zip ?pp hs"] by (simp only: strict_sorted_iff)
  have ath: "at x h" if "(x, h) \<in> set ?prov" for x h
    using that assms(3,5) by (auto simp: list_all2_iff)
  have "verify_loop N ?R (expected_roots N rs) [] ?prov = Ok True"
    using complete [OF T roots_are_match(2) [OF assms(4)] srt _ ath] set fr by simp
  moreover have "N \<noteq> 0"
  proof
    assume "N = 0"
    then show False using False ins by (cases ts) (auto simp: in_forest_def)
  qed
  ultimately show ?thesis
    using False len dist roots_are_match(1) [OF assms(4)] by (simp add: VerifyProof_def Let_def)
qed (use assms(3) in \<open>simp add: VerifyProof_def\<close>)

end

section \<open>Positions outside the forest\<close>

text \<open>C15: The verifier does not check that a target lies in the position space of the forest: in a
  forest of two leaves whose root is \<open>ParentHash h0 h1\<close>, a proof for position 4, which no node of the
  forest has, is accepted, because the parent of 4 is computed to be the root position 2.\<close>

theorem VerifyProof_accepts_alias:
  "VerifyProof \<lparr>targets = [4], hashes = [h1]\<rparr> [h0] [ParentHash h0 h1] 2 = Ok True \<and>
   \<not> (\<exists>r i. in_forest (unat (2 :: u64)) r i \<and> 4 = wpos (TreeRows 2) r i)"
proof
  have c: "TreeRows 2 = 1" "popcount 2 = 1" "ProofPositions [4] 2 1 = [5]" "root_rows 2 = [1]"
    "RootPosition 2 1 1 = 2" "IsRootPosition 4 2 1 = False" "IsRootPosition 2 2 1 = True" "Parent 4 1 = 2"
    "(4 AND 1 :: u64) = 0" "(4 OR 1 :: u64) = 5"
    by code_simp+
  have s: "sort_key fst [(4 :: u64, h0), (5, h1)] = [(4, h0), (5, h1)]" by simp
  have e: "expected_roots 2 [ParentHash h0 h1] = [2 \<mapsto> ParentHash h0 h1]"
    by (simp add: expected_roots_def c del: One_nat_def)
  show "VerifyProof \<lparr>targets = [4], hashes = [h1]\<rparr> [h0] [ParentHash h0 h1] 2 = Ok True"
    by (simp add: VerifyProof_def Let_def c s e verify_loop.simps del: One_nat_def)
  show "\<not> (\<exists>r i. in_forest (unat (2 :: u64)) r i \<and> 4 = wpos (TreeRows 2) r i)"
  proof clarify
    fix r i
    assume ri: "in_forest (unat (2 :: u64)) r i" "4 = wpos (TreeRows 2) r i"
    have "coord 1 r i" by (rule in_forest_coord [OF ri(1)]) simp
    then have "unat (wpos 1 r i) < 2 ^ (1 + 1)" by (intro wpos_less) simp_all
    then have "unat (4 :: u64) < 2 ^ (1 + 1)" using ri(2) [unfolded c(1), symmetric] by (simp only:)
    then show False by simp
  qed
qed

end
