(* ===== verification/WirePositions.thy ===== *)
theory WirePositions
  imports Inventory Verify
begin

unbundle bit_operations_syntax

text \<open>
  Proof positions of a transaction (\<open>RowStart\<close>, \<open>Row\<close>, \<open>WirePosition\<close> and \<open>NativeProofPositions\<close> of
  \<^verbatim>\<open>src/src/transaction_wire.cpp\<close>). The wire numbers the nodes of every forest in one 63-row space; the
  positions a proof needs are computed row by row from the sorted targets, without the sets that
  \<open>ProofPositions\<close> of \<^verbatim>\<open>forest.cpp\<close> uses, and are shown to be the same positions in the same order.
\<close>

section \<open>Positions\<close>

definition RowStart :: "nat \<Rightarrow> nat \<Rightarrow> u64" where
  "RowStart row rows =
     (let m = (if rows = 63 then - 1 else push_bit (rows + 1) 1 - 1) in m XOR drop_bit row m)"

definition Row :: "u64 \<Rightarrow> nat \<Rightarrow> nat" where
  "Row pos rows = countl_one (push_bit (63 - rows) pos)"

definition WirePosition :: "u64 \<Rightarrow> nat \<Rightarrow> u64" where
  "WirePosition pos rows = (let row = Row pos rows in RowStart row 63 + (pos - RowStart row rows))"

definition target_interval :: "u64 \<Rightarrow> nat \<Rightarrow> u64 \<Rightarrow> (u64 \<times> u64) Result" where
  "target_interval num_leaves rows target =
     (if target \<ge> (if rows = 63 then - 1 else push_bit (rows + 1) 1 - 1)
      then Err ''target outside forest position space''
      else let row = Row target rows; offset = target - RowStart row rows
           in if offset \<ge> drop_bit row num_leaves then Err ''target outside populated forest''
              else let start = push_bit row offset in Ok (start, start + (push_bit row 1 - 1)))"

fun target_intervals :: "u64 \<Rightarrow> nat \<Rightarrow> u64 list \<Rightarrow> (u64 \<times> u64) list Result" where
  "target_intervals num_leaves rows [] = Ok []"
| "target_intervals num_leaves rows (target # rest) =
     and_then (target_interval num_leaves rows target) (\<lambda>iv.
       and_then (target_intervals num_leaves rows rest) (\<lambda>ivs. Ok (iv # ivs)))"

text \<open>Two neighbours of the sorted intervals that overlap. The order of pairs is the lexicographic one.\<close>

fun overlapping :: "(u64 \<times> u64) list \<Rightarrow> bool" where
  "overlapping (a # b # ivs) \<longleftrightarrow> fst b \<le> snd a \<or> overlapping (b # ivs)"
| "overlapping _ \<longleftrightarrow> False"

definition sort_pairs :: "(u64 \<times> u64) list \<Rightarrow> (u64 \<times> u64) list" where
  "sort_pairs ivs = sort_key fst (sort_key snd ivs)"

text \<open>One row of the merge: the positions for the next row and the siblings needed so far.\<close>

fun merge_row :: "u64 \<Rightarrow> nat \<Rightarrow> nat \<Rightarrow> u64 list \<Rightarrow> u64 list \<Rightarrow> u64 list \<Rightarrow> (u64 list \<times> u64 list) Result" where
  "merge_row num_leaves rows row [] next needed = Ok (next, needed)"
| "merge_row num_leaves rows row (pos # rest) next needed =
     (if Row pos rows \<noteq> row then merge_row num_leaves rows row rest (next @ [pos]) needed
      else let offset = pos - RowStart row rows; on_row = drop_bit row num_leaves
           in if on_row AND 1 \<noteq> 0 \<and> offset = on_row - 1 then merge_row num_leaves rows row rest next needed
              else let parent = drop_bit 1 pos OR push_bit rows 1
                   in if rest \<noteq> [] \<and> pos XOR 1 = hd rest
                      then merge_row num_leaves rows row (tl rest) (next @ [parent]) needed
                      else if length needed \<ge> MAX_HASHES then Err ''too many transaction proof hashes''
                      else merge_row num_leaves rows row rest (next @ [parent]) (needed @ [pos XOR 1]))"

function merge_rows :: "u64 \<Rightarrow> nat \<Rightarrow> nat \<Rightarrow> u64 list \<Rightarrow> u64 list \<Rightarrow> u64 list Result" where
  "merge_rows num_leaves rows row pending needed =
     (if row \<le> rows \<and> pending \<noteq> []
      then and_then (merge_row num_leaves rows row pending [] needed)
             (\<lambda>(next, needed1). merge_rows num_leaves rows (row + 1) (sort next) needed1)
      else Ok needed)"
  by pat_completeness auto
termination by (relation "measure (\<lambda>(num_leaves, rows, row, pending, needed). Suc rows - row)") auto

declare merge_rows.simps [simp del]

definition NativeProofPositions :: "Proof \<Rightarrow> u64 \<Rightarrow> u64 list Result" where
  "NativeProofPositions pf num_leaves =
     (if num_leaves > push_bit 63 1 then Err ''unsupported forest leaf count''
      else let rows = (if num_leaves = 0 then 0 else bit_width (num_leaves - 1))
           in and_then (target_intervals num_leaves rows (targets pf)) (\<lambda>intervals.
                if overlapping (sort_pairs intervals) then Err ''duplicate or overlapping proof targets''
                else and_then (merge_rows num_leaves rows 0 (sort (targets pf)) []) (\<lambda>needed.
                  if length needed \<noteq> length (hashes pf) then Err ''full proof hash count does not match targets''
                  else Ok needed)))"

section \<open>Rows and offsets\<close>

lemma takeWhile_append_Nil: "takeWhile P ys = [] \<Longrightarrow> takeWhile P (xs @ ys) = takeWhile P xs"
  by (induction xs) auto

lemma Row_DetectRow:
  assumes "R \<le> 63"
  shows "Row pos R = DetectRow pos R"
proof -
  have split: "rev [0..<64] = map (\<lambda>i. i + (63 - R)) (rev [0..<R + 1]) @ rev [0..<63 - R]"
  proof -
    have "[0..<64] = [0..<63 - R] @ [63 - R..<64]" using upt_add_eq_append [of 0 "63 - R" "R + 1"] assms by simp
    moreover have "[63 - R..<64] = map (\<lambda>i. i + (63 - R)) [0..<R + 1]" using map_add_upt [of "63 - R" "R + 1"] assms by simp
    ultimately show ?thesis by (simp add: rev_map)
  qed
  let ?P = "bit (push_bit (63 - R) pos)"
  have "\<forall>i \<in> set (rev [0..<63 - R]). \<not> ?P i" by (simp add: bit_push_bit_iff)
  then have "takeWhile ?P (rev [0..<63 - R]) = []" by (cases "rev [0..<63 - R]") simp_all
  moreover have "?P (i + (63 - R)) \<longleftrightarrow> bit pos i" if "i < R + 1" for i
  proof -
    have "i + (63 - R) < 64" using that assms by linarith
    then show ?thesis by (simp add: bit_push_bit_iff)
  qed
  then have "takeWhile (\<lambda>i. ?P (i + (63 - R))) (rev [0..<R + 1]) = takeWhile (bit pos) (rev [0..<R + 1])"
    by (intro takeWhile_cong) (auto simp del: upt_Suc)
  ultimately show ?thesis
    unfolding Row_def countl_one_def split DetectRow_eq [OF le_less_trans [OF assms, of 64, simplified]]
    by (simp only: takeWhile_append_Nil takeWhile_map o_def length_map)
qed

lemma RowStart_eq:
  assumes "r \<le> R" "R \<le> 63"
  shows "RowStart r R = of_nat (row_start R r)"
proof -
  have m: "(if R = 63 then - 1 else push_bit (R + 1) 1 - 1) = (mask (R + 1) :: u64)"
    using assms(2) by (simp add: mask_eq_exp_minus_1)
  have "drop_bit r (mask (R + 1) :: u64) = mask (R + 1 - r)"
    using assms by (intro bit_eqI) (auto simp: bit_drop_bit_eq bit_mask_iff)
  then have x: "RowStart r R = mask (R + 1) XOR mask (R + 1 - r)" unfolding RowStart_def Let_def m by simp
  have "(mask (R + 1) XOR mask (R + 1 - r)) + mask (R + 1 - r) = (mask (R + 1) :: u64)"
    by (subst disjunctive_add_eq_or; intro bit_eqI) (auto simp: bit_and_iff bit_or_iff bit_xor_iff bit_mask_iff)
  then have "RowStart r R = mask (R + 1) - mask (R + 1 - r)" unfolding x by (simp add: eq_diff_eq)
  also have "\<dots> = 2 ^ (R + 1) - 2 ^ (R + 1 - r)" by (simp add: mask_eq_exp_minus_1)
  also have "\<dots> = of_nat (row_start R r)"
    unfolding row_start_def using power_increasing [of "R + 1 - r" "R + 1" "2 :: nat"] by (simp add: of_nat_diff)
  finally show ?thesis .
qed

lemma wpos_RowStart: "r \<le> R \<Longrightarrow> R \<le> 63 \<Longrightarrow> wpos R r i = RowStart r R + of_nat i"
  by (simp add: RowStart_eq wpos_def pos_of_def)

lemma Row_wpos [pos_simps]: "coord R r i \<Longrightarrow> R \<le> 63 \<Longrightarrow> Row (wpos R r i) R = r"
  by (simp add: Row_DetectRow DetectRow_wpos_wide)

lemma offset_wpos: "coord R r i \<Longrightarrow> R \<le> 63 \<Longrightarrow> wpos R r i - RowStart r R = of_nat i"
  by (simp add: wpos_RowStart coord_def)

lemma WirePosition_wpos [pos_simps]:
  assumes "coord R r i" "R \<le> 63"
  shows "WirePosition (wpos R r i) R = wpos 63 r i"
  using assms by (simp add: WirePosition_def Row_wpos offset_wpos Let_def wpos_RowStart [of r 63] coord_def)

lemma coord_wide: "coord R r i \<Longrightarrow> R \<le> S \<Longrightarrow> coord S r i"
  unfolding coord_def by (meson diff_le_mono le_trans less_le_trans one_le_numeral power_increasing)

section \<open>Nodes of a forest\<close>

definition node_at :: "u64 \<Rightarrow> nat \<Rightarrow> nat \<Rightarrow> u64 \<Rightarrow> bool" where
  "node_at N R r p \<longleftrightarrow> (\<exists>i. in_forest (unat N) r i \<and> p = wpos R r i)"

definition rows_ok :: "u64 \<Rightarrow> nat \<Rightarrow> bool" where
  "rows_ok N R \<longleftrightarrow> R \<le> 62 \<and> unat N \<le> 2 ^ R"

lemma node_coord: "rows_ok N R \<Longrightarrow> node_at N R r p \<Longrightarrow> \<exists>i. in_forest (unat N) r i \<and> coord R r i \<and> p = wpos R r i"
  using in_forest_coord by (auto simp: node_at_def rows_ok_def)

lemma node_Row: "rows_ok N R \<Longrightarrow> node_at N R r p \<Longrightarrow> Row p R = r"
  using node_coord [of N R r p] Row_wpos by (auto simp: rows_ok_def)

lemma node_row_le: "rows_ok N R \<Longrightarrow> node_at N R r p \<Longrightarrow> r \<le> R"
  using node_coord [of N R r p] by (auto simp: coord_def)

lemma node_IsRoot: "rows_ok N R \<Longrightarrow> in_forest (unat N) r i \<Longrightarrow> IsRootPosition (wpos R r i) N R \<longleftrightarrow> is_root_coord (unat N) r i"
  using in_forest_coord [of "unat N" r i R] IsRootPosition_wpos by (auto simp: rows_ok_def)

lemma nonroot_coord:
  assumes "rows_ok N R" "node_at N R r p" "\<not> IsRootPosition p N R"
  obtains i where "in_forest (unat N) r i" "coord R r i" "p = wpos R r i" "\<not> is_root_coord (unat N) r i" "r < R"
proof -
  obtain i where i: "in_forest (unat N) r i" "coord R r i" "p = wpos R r i" using node_coord [OF assms(1,2)] by blast
  have n: "\<not> is_root_coord (unat N) r i" using assms(3) i node_IsRoot [OF assms(1) i(1)] by simp
  have "r \<noteq> R" using n in_forest_top_root [OF i(1)] assms(1) by (auto simp: rows_ok_def)
  then show thesis using that i n by (simp add: coord_def)
qed

lemma node_sibling:
  assumes "rows_ok N R" "node_at N R r p" "\<not> IsRootPosition p N R"
  shows "node_at N R r (p XOR 1)" "\<not> IsRootPosition (p XOR 1) N R"
proof -
  obtain i where i: "in_forest (unat N) r i" "coord R r i" "p = wpos R r i" "\<not> is_root_coord (unat N) r i" "r < R"
    using nonroot_coord [OF assms] .
  let ?j = "if even i then i + 1 else i - 1"
  have j: "in_forest (unat N) r ?j" "\<not> is_root_coord (unat N) r ?j" using in_forest_sibling [OF i(1,4)] by blast+
  have x: "p XOR 1 = wpos R r ?j" using sibling_wpos [OF i(2,5)] i(3) assms(1) by (simp add: rows_ok_def)
  show "node_at N R r (p XOR 1)" unfolding x node_at_def using j(1) by blast
  show "\<not> IsRootPosition (p XOR 1) N R" unfolding x using node_IsRoot [OF assms(1) j(1)] j(2) by simp
qed

lemma node_Parent:
  assumes "rows_ok N R" "node_at N R r p" "\<not> IsRootPosition p N R"
  shows "node_at N R (r + 1) (Parent p R)" "unat (Parent p R) = unat p div 2 + 2 ^ R"
proof -
  obtain i where i: "in_forest (unat N) r i" "coord R r i" "p = wpos R r i" "\<not> is_root_coord (unat N) r i" "r < R"
    using nonroot_coord [OF assms] .
  have R: "R \<le> 62" using assms(1) by (simp add: rows_ok_def)
  show "node_at N R (r + 1) (Parent p R)"
    unfolding node_at_def i(3) Parent_wpos [OF i(2,5) R] using in_forest_Parent [OF i(1,4)] by blast
  show "unat (Parent p R) = unat p div 2 + 2 ^ R" using unat_Parent [OF R] wpos_less [OF i(2) R] i(3) by simp
qed

lemma node_order:
  assumes "rows_ok N R" "node_at N R r p" "node_at N R r' q" "r < r'"
  shows "p < q"
proof -
  obtain i where i: "coord R r i" "p = wpos R r i" using node_coord [OF assms(1,2)] by blast
  obtain j where j: "coord R r' j" "q = wpos R r' j" using node_coord [OF assms(1,3)] by blast
  have R: "R \<le> 62" using assms(1) by (simp add: rows_ok_def)
  have "(2::nat) ^ (R + 1 - r') \<le> 2 ^ (R - r)" using assms(4) by (intro power_increasing) auto
  moreover have "(2::nat) ^ (R + 1 - r') \<le> 2 ^ (R + 1)" by (rule power_increasing) auto
  moreover have "(2::nat) ^ (R + 1 - r) = 2 * 2 ^ (R - r)" using i by (simp add: coord_def Suc_diff_le)
  moreover have "(2::nat) ^ (R + 1 - r) \<le> 2 ^ (R + 1)" by (rule power_increasing) auto
  ultimately have "pos_of R r i < pos_of R r' j" using i(1) unfolding pos_of_def row_start_def coord_def by linarith
  then show ?thesis using i j R by (simp add: word_less_nat_alt)
qed

lemma half_same:
  assumes "unat p div 2 = unat q div 2"
  shows "q = p \<or> q = p XOR (1 :: u64)"
proof -
  have "drop_bit 1 p = drop_bit 1 q" using assms by (intro u64_eqI) (simp add: drop_bit_eq_div unat_div)
  then have b: "bit p n = bit q n" if "0 < n" for n
    using that bit_drop_bit_eq [of 1 p] bit_drop_bit_eq [of 1 q] by (metis Suc_pred' add.commute comp_apply plus_1_eq_Suc)
  show ?thesis
  proof (cases "bit p 0 = bit q 0")
    case True
    then have "q = p" using b by (intro bit_eqI) (metis gr0I)
    then show ?thesis ..
  next
    case False
    then have "q = p XOR 1" using b by (intro bit_word_eqI) (metis bit_1_iff bit_xor_iff gr0I)
    then show ?thesis ..
  qed
qed

lemma pair_order:
  assumes "p < q" "q \<noteq> p XOR (1 :: u64)"
  shows "unat p div 2 < unat q div 2" "p XOR 1 < q XOR 1"
proof -
  have "unat p div 2 \<noteq> unat q div 2" using half_same [of p q] assms by auto
  moreover have "unat p div 2 \<le> unat q div 2" using assms(1) by (intro div_le_mono) (simp add: word_less_nat_alt)
  ultimately show lt: "unat p div 2 < unat q div 2" by simp
  have "unat (p XOR 1) div 2 < unat (q XOR 1) div 2" using lt by (simp only: unat_xor_one_half)
  then have "unat (p XOR 1) < unat (q XOR 1)" by (meson div_le_mono leD leI)
  then show "p XOR 1 < q XOR 1" by (simp add: word_less_nat_alt)
qed

lemma unat_drop_bit_u64: "unat (drop_bit r (N :: u64)) = unat N div 2 ^ r"
  unfolding unsigned_drop_bit_eq using unat_u64_less [of N] by (simp add: drop_bit_eq_div take_bit_nat_eq_self)

lemma root_test:
  assumes "rows_ok N R" "node_at N R r p"
  shows "drop_bit r N AND 1 \<noteq> 0 \<and> p - RowStart r R = drop_bit r N - 1 \<longleftrightarrow> IsRootPosition p N R"
proof -
  obtain i where i: "in_forest (unat N) r i" "coord R r i" "p = wpos R r i" using node_coord [OF assms] by blast
  note d = unat_drop_bit_u64 [of r N]
  have odd: "drop_bit r N AND 1 \<noteq> 0 \<longleftrightarrow> odd (unat N div 2 ^ r)"
    by (simp add: and_one_zero bit_drop_bit_eq bit_u64_odd_div)
  have "unat N div 2 ^ r \<le> unat N" by simp
  then have small: "i < 2 ^ 64" using i(1) unat_u64_less [of N] unfolding in_forest_def by linarith
  have "of_nat i = drop_bit r N - 1 \<longleftrightarrow> i + 1 = unat N div 2 ^ r" if "odd (unat N div 2 ^ r)"
  proof -
    have nz: "drop_bit r N \<noteq> 0" using that d by (metis even_zero unat_0)
    have "of_nat i = drop_bit r N - 1 \<longleftrightarrow> unat (of_nat i :: u64) = unat (drop_bit r N - 1)" by (simp only: word_unat_eq_iff)
    also have "\<dots> \<longleftrightarrow> i = unat N div 2 ^ r - 1" using small d unat_minus_one [OF nz] by (simp add: unat_of_nat_small)
    finally show ?thesis using nz d by (metis Suc_eq_plus1 Suc_pred' diff_Suc_1 unat_gt_0)
  qed
  moreover have "p - RowStart r R = of_nat i" using offset_wpos [OF i(2)] i(3) assms(1) by (simp add: rows_ok_def)
  moreover have "IsRootPosition p N R \<longleftrightarrow> is_root_coord (unat N) r i" using node_IsRoot [OF assms(1) i(1)] i(3) by simp
  ultimately show ?thesis unfolding odd is_root_coord_def by auto
qed

section \<open>One row\<close>

text \<open>The merge without the limit on the number of hashes: the positions for the next row and the siblings.\<close>

fun merged :: "u64 \<Rightarrow> nat \<Rightarrow> nat \<Rightarrow> u64 list \<Rightarrow> u64 list \<times> u64 list" where
  "merged N R r [] = ([], [])"
| "merged N R r (p # rest) =
     (if Row p R \<noteq> r then (let (nx, nd) = merged N R r rest in (p # nx, nd))
      else if drop_bit r N AND 1 \<noteq> 0 \<and> p - RowStart r R = drop_bit r N - 1 then merged N R r rest
      else if rest \<noteq> [] \<and> p XOR 1 = hd rest then (let (nx, nd) = merged N R r (tl rest) in (Parent p R # nx, nd))
      else (let (nx, nd) = merged N R r rest in (Parent p R # nx, (p XOR 1) # nd)))"

lemma merge_row_merged:
  "merge_row N R r pending next needed =
     (let (nx, nd) = merged N R r pending
      in if nd \<noteq> [] \<and> length needed + length nd > MAX_HASHES then Err ''too many transaction proof hashes''
         else Ok (next @ nx, needed @ nd))"
proof (induction N R r pending arbitrary: "next" needed rule: merged.induct)
  case (2 N R r p rest)
  then show ?case by (auto simp: Let_def Parent_def split: prod.splits)
qed simp

definition active :: "u64 \<Rightarrow> nat \<Rightarrow> nat \<Rightarrow> u64 set \<Rightarrow> u64 set" where
  "active N R r S = {p \<in> S. Row p R = r \<and> \<not> IsRootPosition p N R}"

definition pending_ok :: "u64 \<Rightarrow> nat \<Rightarrow> nat \<Rightarrow> u64 list \<Rightarrow> bool" where
  "pending_ok N R r ps \<longleftrightarrow>
     sorted_wrt (<) ps \<and> (\<forall>p \<in> set ps. \<exists>s \<ge> r. node_at N R s p) \<and> (\<forall>p \<in> active N R r (set ps). Parent p R \<notin> set ps)"

lemma pending_ok_tl: "pending_ok N R r (p # ps) \<Longrightarrow> pending_ok N R r ps"
  by (auto simp: pending_ok_def active_def)

lemma active_node: "rows_ok N R \<Longrightarrow> pending_ok N R r ps \<Longrightarrow> p \<in> set ps \<Longrightarrow> Row p R = r \<Longrightarrow> node_at N R r p"
  using node_Row by (fastforce simp: pending_ok_def)

lemma active_sibling:
  assumes "rows_ok N R" "pending_ok N R r ps" "q \<in> active N R r (set ps)"
  shows "node_at N R r (q XOR 1)" "Row (q XOR 1) R = r" "\<not> IsRootPosition (q XOR 1) N R"
proof -
  have "node_at N R r q" "\<not> IsRootPosition q N R" using assms active_node by (auto simp: active_def)
  then show "node_at N R r (q XOR 1)" "\<not> IsRootPosition (q XOR 1) N R" using node_sibling [OF assms(1)] by blast+
  then show "Row (q XOR 1) R = r" using node_Row [OF assms(1)] by blast
qed

lemma Parent_eq:
  assumes "rows_ok N R" "node_at N R r p" "\<not> IsRootPosition p N R" "node_at N R s q" "\<not> IsRootPosition q N R" "Parent p R = Parent q R"
  shows "q = p \<or> q = p XOR 1"
  using node_Parent(2) [OF assms(1-3)] node_Parent(2) [OF assms(1,4,5)] assms(6) by (intro half_same) simp

lemma Parent_sibling:
  assumes "rows_ok N R" "node_at N R r p" "\<not> IsRootPosition p N R"
  shows "Parent (p XOR 1) R = Parent p R"
  using node_Parent(2) [OF assms(1) node_sibling [OF assms]] node_Parent(2) [OF assms] unat_xor_one_half [of p]
  by (intro u64_eqI) simp

lemma xor_one_eq [simp]: "q XOR 1 = p XOR 1 \<longleftrightarrow> q = (p :: u64)"
  by (metis xor_one_twice)

lemma sibling_is_next:
  assumes "sorted_wrt (<) ((p :: u64) # rest)" "p XOR 1 \<in> set rest"
  shows "rest \<noteq> [] \<and> p XOR 1 = hd rest"
proof -
  obtain q rest' where r: "rest = q # rest'" using assms(2) by (cases rest) auto
  have pq: "p < q" using assms(1) r by simp
  have "q = p XOR 1"
  proof (rule ccontr)
    assume n: "q \<noteq> p XOR 1"
    then have "q < p XOR 1" using assms r by auto
    then have "unat q div 2 \<le> unat (p XOR 1) div 2" by (intro div_le_mono) (simp add: word_less_nat_alt)
    then show False using pair_order(1) [OF pq n] by (simp only: unat_xor_one_half)
  qed
  then show ?thesis using r by simp
qed

lemma merged_spec:
  assumes "rows_ok N R" "pending_ok N R r ps" "merged N R r ps = (nx, nd)"
  shows "distinct nx \<and> set nx = {p \<in> set ps. Row p R \<noteq> r} \<union> (\<lambda>p. Parent p R) ` active N R r (set ps) \<and>
    sorted_wrt (<) nd \<and> set nd = (\<lambda>p. p XOR 1) ` active N R r (set ps) - set ps"
  using assms
proof (induction N R r ps arbitrary: nx nd rule: merged.induct)
  case (2 N R r p rest)
  note ok = 2(5,6) and tl = pending_ok_tl [OF 2(6)]
  have sorted: "sorted_wrt (<) (p # rest)" using ok(2) by (simp add: pending_ok_def)
  then have p_rest: "p \<notin> set rest" by auto
  have xor_rest: "q XOR 1 \<noteq> p" if "q \<in> active N R r (set rest)" "p \<notin> active N R r {p}" for q
    using active_sibling [OF ok(1) tl that(1)] that(2) by (auto simp: active_def)
  show ?case
  proof (cases "p \<in> active N R r {p}")
    case False
    show ?thesis
    proof (cases "Row p R = r")
      case row: False
      obtain nx' where m: "merged N R r rest = (nx', nd)" "nx = p # nx'" using 2(7) row by (auto split: prod.splits)
      have "p \<notin> (\<lambda>q. Parent q R) ` active N R r (set rest)" using ok(2) by (auto simp: pending_ok_def active_def)
      moreover have "active N R r (set (p # rest)) = active N R r (set rest)" using row by (auto simp: active_def)
      ultimately show ?thesis using 2(1) [OF row ok(1) tl m(1)] m(2) p_rest row xor_rest [OF _ False] by auto
    next
      case row: True
      then have root: "IsRootPosition p N R" using False by (simp add: active_def)
      then have t: "drop_bit r N AND 1 \<noteq> 0 \<and> p - RowStart r R = drop_bit r N - 1"
        using root_test [OF ok(1) active_node [OF ok _ row]] by simp
      then have m: "merged N R r rest = (nx, nd)" using 2(7) row by simp
      have "active N R r (set (p # rest)) = active N R r (set rest)" using root by (auto simp: active_def)
      then show ?thesis using 2(2) [OF _ t ok(1) tl m] row xor_rest [OF _ False] by auto
    qed
  next
    case True
    then have row: "Row p R = r" and root: "\<not> IsRootPosition p N R" by (auto simp: active_def)
    have node: "node_at N R r p" using active_node [OF ok _ row] by simp
    have t: "\<not> (drop_bit r N AND 1 \<noteq> 0 \<and> p - RowStart r R = drop_bit r N - 1)" using root_test [OF ok(1) node] root by simp
    have up: "Parent p R \<notin> set (p # rest)" using ok(2) row root by (auto simp: pending_ok_def active_def)
    have new: "Parent p R \<noteq> Parent q R" if "q \<in> active N R r (set rest)" "q \<noteq> p XOR 1" for q
      using Parent_eq [OF ok(1) node root active_node [OF ok(1) tl]] that p_rest by (auto simp: active_def)
    show ?thesis
    proof (cases "rest \<noteq> [] \<and> p XOR 1 = hd rest")
      case merge: True
      then obtain rest' where r: "rest = (p XOR 1) # rest'" by (cases rest) auto
      obtain nx' where m: "merged N R r (tl rest) = (nx', nd)" "nx = Parent p R # nx'"
        using 2(7) row t merge by (auto split: prod.splits)
      have a: "active N R r (set (p # rest)) = insert p (insert (p XOR 1) (active N R r (set rest')))"
        using row root node_sibling [OF ok(1) node root] node_Row [OF ok(1)] r by (auto simp: active_def)
      have out: "q XOR 1 \<noteq> p \<and> q XOR 1 \<noteq> p XOR 1 \<and> q \<noteq> p XOR 1" if "q \<in> active N R r (set rest')" for q
        using that sorted r by (auto simp: active_def)
      have "Parent p R \<notin> set nx'" "distinct nx'" "set nx' = {p \<in> set rest'. Row p R \<noteq> r} \<union> (\<lambda>p. Parent p R) ` active N R r (set rest')"
        "sorted_wrt (<) nd" "set nd = (\<lambda>p. p XOR 1) ` active N R r (set rest') - set rest'"
        using 2(3) [OF _ t merge ok(1) _ m(1)] row tl r up new out pending_ok_tl [of N R r "p XOR 1" rest'] by (auto simp: active_def)
      then show ?thesis
        unfolding a m(2) using row r out Parent_sibling [OF ok(1) node root] node_sibling [OF ok(1) node root] node_Row [OF ok(1)] by auto
    next
      case single: False
      then have x: "p XOR 1 \<notin> set rest" using sibling_is_next [OF sorted] by blast
      obtain nx' nd' where m: "merged N R r rest = (nx', nd')" "nx = Parent p R # nx'" "nd = (p XOR 1) # nd'"
        using 2(7) row t single by (auto split: prod.splits)
      have a: "active N R r (set (p # rest)) = insert p (active N R r (set rest))" using row root by (auto simp: active_def)
      have IH: "distinct nx'" "set nx' = {p \<in> set rest. Row p R \<noteq> r} \<union> (\<lambda>p. Parent p R) ` active N R r (set rest)"
        "sorted_wrt (<) nd'" "set nd' = (\<lambda>p. p XOR 1) ` active N R r (set rest) - set rest"
        using 2(4) [OF _ t single ok(1) tl m(1)] row by auto
      have other: "q \<noteq> p XOR 1" if "q \<in> active N R r (set rest)" for q using that x by (auto simp: active_def)
      then have "Parent p R \<notin> set nx'" unfolding IH(2) using up new by auto
      moreover have "p \<notin> (\<lambda>q. q XOR 1) ` active N R r (set rest)"
      proof
        assume "p \<in> (\<lambda>q. q XOR 1) ` active N R r (set rest)"
        then obtain q where q: "q \<in> active N R r (set rest)" "p = q XOR 1" by blast
        then have "q = p XOR 1" by simp
        then show False using other [OF q(1)] by blast
      qed
      moreover have "p XOR 1 < q XOR 1" if "q \<in> active N R r (set rest)" for q
        using that sorted x by (intro pair_order(2)) (auto simp: active_def)
      ultimately show ?thesis unfolding a m(2,3) using IH x row p_rest by auto
    qed
  qed
qed (simp add: active_def)

section \<open>All rows\<close>

function merged_rows :: "u64 \<Rightarrow> nat \<Rightarrow> nat \<Rightarrow> u64 list \<Rightarrow> u64 list" where
  "merged_rows N R r ps =
     (if r \<le> R \<and> ps \<noteq> [] then (let (nx, nd) = merged N R r ps in nd @ merged_rows N R (r + 1) (sort nx)) else [])"
  by pat_completeness auto
termination by (relation "measure (\<lambda>(N, R, r, ps). Suc R - r)") auto

declare merged_rows.simps [simp del]

lemma merge_rows_merged:
  "merge_rows N R r ps needed =
     (let nd = merged_rows N R r ps
      in if nd \<noteq> [] \<and> length needed + length nd > MAX_HASHES then Err ''too many transaction proof hashes''
         else Ok (needed @ nd))"
proof (induction N R r ps needed rule: merge_rows.induct)
  case (1 N R r ps needed)
  show ?case
  proof (cases "r \<le> R \<and> ps \<noteq> []")
    case True
    obtain nx nd where m: "merged N R r ps = (nx, nd)" by (cases "merged N R r ps")
    have rows: "merged_rows N R r ps = nd @ merged_rows N R (r + 1) (sort nx)"
      using True by (subst merged_rows.simps) (simp add: m)
    show ?thesis
    proof (cases "nd \<noteq> [] \<and> length needed + length nd > MAX_HASHES")
      case True
      then show ?thesis using \<open>r \<le> R \<and> ps \<noteq> []\<close> m rows by (subst merge_rows.simps) (simp add: merge_row_merged)
    next
      case False
      then have "merge_row N R r ps [] needed = Ok (nx, needed @ nd)" using m by (simp add: merge_row_merged)
      then have "merge_rows N R r ps needed = merge_rows N R (r + 1) (sort nx) (needed @ nd)"
        using True by (subst merge_rows.simps) simp
      moreover have "merge_rows N R (r + 1) (sort nx) (needed @ nd) =
          (let nd' = merged_rows N R (r + 1) (sort nx)
           in if nd' \<noteq> [] \<and> length (needed @ nd) + length nd' > MAX_HASHES then Err ''too many transaction proof hashes''
              else Ok ((needed @ nd) @ nd'))" using 1 True by blast
      ultimately show ?thesis using False rows by (auto simp: Let_def)
    qed
  next
    case False
    then have "merge_rows N R r ps needed = Ok needed" by (subst merge_rows.simps) auto
    moreover have "merged_rows N R r ps = []" using False by (subst merged_rows.simps) auto
    ultimately show ?thesis by simp
  qed
qed

text \<open>The targets are nodes and none lies above another: no position on the way up from a target is a target.\<close>

definition separate :: "u64 \<Rightarrow> nat \<Rightarrow> u64 set \<Rightarrow> bool" where
  "separate N R T \<longleftrightarrow>
     (\<forall>t \<in> T. \<exists>r. node_at N R r t) \<and> (\<forall>p \<in> path_closure N R T. \<not> IsRootPosition p N R \<longrightarrow> Parent p R \<notin> T)"

lemma closure_node: "rows_ok N R \<Longrightarrow> separate N R T \<Longrightarrow> p \<in> path_closure N R T \<Longrightarrow> node_at N R (Row p R) p"
proof -
  assume a: "rows_ok N R" "separate N R T" "p \<in> path_closure N R T"
  have "\<exists>r. node_at N R r p"
    using a(3)
  proof induction
    case (base t)
    then show ?case using a(2) by (simp add: separate_def)
  next
    case (step p)
    then show ?case using node_Parent(1) [OF a(1)] by blast
  qed
  then show ?thesis using node_Row [OF a(1)] by metis
qed

lemma closure_Parent_Row:
  "rows_ok N R \<Longrightarrow> separate N R T \<Longrightarrow> p \<in> path_closure N R T \<Longrightarrow> \<not> IsRootPosition p N R \<Longrightarrow> Row (Parent p R) R = Row p R + 1"
  using closure_node node_Parent(1) node_Row by blast

definition row_inv :: "u64 \<Rightarrow> nat \<Rightarrow> u64 set \<Rightarrow> nat \<Rightarrow> u64 list \<Rightarrow> bool" where
  "row_inv N R T r ps \<longleftrightarrow>
     sorted_wrt (<) ps \<and> set ps = {p \<in> path_closure N R T. Row p R = r} \<union> {t \<in> T. Row t R > r}"

lemma row_inv_pending:
  assumes "rows_ok N R" "separate N R T" "row_inv N R T r ps"
  shows "pending_ok N R r ps" and "active N R r (set ps) = {p \<in> path_closure N R T. Row p R = r \<and> \<not> IsRootPosition p N R}"
proof -
  show a: "active N R r (set ps) = {p \<in> path_closure N R T. Row p R = r \<and> \<not> IsRootPosition p N R}"
    using assms(3) by (auto simp: active_def row_inv_def)
  have "\<exists>s \<ge> r. node_at N R s p" if "p \<in> set ps" for p
  proof -
    have "p \<in> path_closure N R T" "r \<le> Row p R" using that assms(3) path_closure.base by (fastforce simp: row_inv_def)+
    then show ?thesis using closure_node [OF assms(1,2)] by blast
  qed
  moreover have "Parent p R \<notin> set ps" if "p \<in> active N R r (set ps)" for p
    using that assms(2,3) closure_Parent_Row [OF assms(1,2), of p] unfolding a by (auto simp: row_inv_def separate_def)
  ultimately show "pending_ok N R r ps" using assms(3) by (simp add: pending_ok_def row_inv_def)
qed

lemma row_inv_next:
  assumes "rows_ok N R" "separate N R T" "row_inv N R T r ps" "merged N R r ps = (nx, nd)"
  shows "row_inv N R T (r + 1) (sort nx)"
proof -
  note spec = merged_spec [OF assms(1) row_inv_pending(1) [OF assms(1-3)] assms(4)]
  have "Row p R = r + 1 \<and> p \<in> path_closure N R T \<longleftrightarrow>
      p \<in> T \<and> Row p R = r + 1 \<or> p \<in> (\<lambda>p. Parent p R) ` {p \<in> path_closure N R T. Row p R = r \<and> \<not> IsRootPosition p N R}" for p
    using closure_Parent_Row [OF assms(1,2)] path_closure.base [of p T N R] path_closure.step [of _ N R T]
    by (auto elim: path_closure.cases)
  then have "set nx = {p \<in> path_closure N R T. Row p R = r + 1} \<union> {t \<in> T. Row t R > r + 1}"
    using spec assms(3) unfolding row_inv_pending(2) [OF assms(1-3)] row_inv_def by (auto intro: path_closure.base)
  moreover have "sorted_wrt (<) (sort nx)" using spec by (simp add: strict_sorted_iff)
  ultimately show ?thesis by (simp add: row_inv_def)
qed

lemma row_inv_needed:
  assumes "rows_ok N R" "separate N R T" "row_inv N R T r ps" "merged N R r ps = (nx, nd)"
  shows "sorted_wrt (<) nd \<and> set nd = {q \<in> sibling_frontier N R (path_closure N R T). Row q R = r}"
proof -
  note spec = merged_spec [OF assms(1) row_inv_pending(1) [OF assms(1-3)] assms(4)]
  have sib: "Row (p XOR 1) R = Row p R" if "p \<in> path_closure N R T" "\<not> IsRootPosition p N R" for p
    using node_sibling(1) [OF assms(1) closure_node [OF assms(1,2) that(1)] that(2)] node_Row [OF assms(1)] by blast
  have "q \<in> set ps \<longleftrightarrow> q \<in> path_closure N R T" if "Row q R = r" for q using that assms(3) by (auto simp: row_inv_def)
  then have "set nd = {q \<in> sibling_frontier N R (path_closure N R T). Row q R = r}"
    using spec sib unfolding row_inv_pending(2) [OF assms(1-3)] sibling_frontier_def by auto
  then show ?thesis using spec by blast
qed

lemma frontier_node:
  assumes "rows_ok N R" "separate N R T" "q \<in> sibling_frontier N R (path_closure N R T)"
  obtains p where "p \<in> path_closure N R T" "q = p XOR 1" "Row q R = Row p R" "node_at N R (Row q R) q"
proof -
  obtain p where p: "p \<in> path_closure N R T" "\<not> IsRootPosition p N R" "q = p XOR 1"
    using assms(3) by (auto simp: sibling_frontier_def)
  then have "node_at N R (Row p R) q" using node_sibling(1) [OF assms(1) closure_node [OF assms(1,2)]] by blast
  moreover from this have "Row q R = Row p R" by (rule node_Row [OF assms(1)])
  ultimately show thesis using that p by simp
qed

lemma no_more_rows:
  assumes "rows_ok N R" "separate N R T" "row_inv N R T r []" "p \<in> path_closure N R T"
  shows "Row p R < r"
  using assms(4)
proof induction
  case (base t)
  then have "t \<in> path_closure N R T" by (rule path_closure.base)
  then have "\<not> (Row t R = r)" "\<not> (Row t R > r)" using assms(3) base by (auto simp: row_inv_def)
  then show ?case by simp
next
  case (step p)
  then have "Row (Parent p R) R = Row p R + 1" "Parent p R \<in> path_closure N R T"
    using closure_Parent_Row [OF assms(1,2)] path_closure.step by blast+
  then show ?case using step.IH assms(3) by (auto simp: row_inv_def)
qed

lemma merged_rows_spec:
  assumes "rows_ok N R" "separate N R T" "row_inv N R T r ps"
  shows "sorted_wrt (<) (merged_rows N R r ps) \<and>
    set (merged_rows N R r ps) = {q \<in> sibling_frontier N R (path_closure N R T). Row q R \<ge> r}"
  using assms(3)
proof (induction "Suc R - r" arbitrary: r ps)
  case 0
  have "Row q R \<le> R" if "q \<in> sibling_frontier N R (path_closure N R T)" for q
    using frontier_node [OF assms(1,2) that] node_row_le [OF assms(1)] by metis
  then show ?case using 0 by (subst (1 2) merged_rows.simps) fastforce
next
  case (Suc k)
  show ?case
  proof (cases "ps = []")
    case True
    have "Row q R < r" if "q \<in> sibling_frontier N R (path_closure N R T)" for q
      using frontier_node [OF assms(1,2) that] no_more_rows [OF assms(1,2)] Suc.prems True by metis
    then show ?thesis using True by (subst (1 2) merged_rows.simps) fastforce
  next
    case False
    obtain nx nd where m: "merged N R r ps = (nx, nd)" by (cases "merged N R r ps")
    let ?rest = "merged_rows N R (r + 1) (sort nx)"
    have rows: "merged_rows N R r ps = nd @ ?rest" using False Suc.hyps(2) m by (subst merged_rows.simps) (simp, linarith)
    have IH: "sorted_wrt (<) ?rest" "set ?rest = {q \<in> sibling_frontier N R (path_closure N R T). Row q R \<ge> r + 1}"
      using Suc.hyps(1) [of "r + 1" "sort nx"] Suc.hyps(2) row_inv_next [OF assms(1,2) Suc.prems m] by auto
    have nd: "sorted_wrt (<) nd" "set nd = {q \<in> sibling_frontier N R (path_closure N R T). Row q R = r}"
      using row_inv_needed [OF assms(1,2) Suc.prems m] by blast+
    have node: "node_at N R (Row q R) q" if "q \<in> sibling_frontier N R (path_closure N R T)" for q
      using frontier_node [OF assms(1,2) that] by metis
    have "a < b" if "a \<in> set nd" "b \<in> set ?rest" for a b
    proof -
      have "node_at N R (Row a R) a" "node_at N R (Row b R) b" "Row a R < Row b R"
        using that node unfolding nd(2) IH(2) by auto
      then show ?thesis by (rule node_order [OF assms(1)])
    qed
    then have "sorted_wrt (<) (nd @ ?rest)" using nd(1) IH(1) by (simp add: sorted_wrt_append)
    moreover have "set (nd @ ?rest) = {q \<in> sibling_frontier N R (path_closure N R T). Row q R \<ge> r}"
      unfolding set_append nd(2) IH(2) by auto
    ultimately show ?thesis unfolding rows by blast
  qed
qed

lemma row_inv_start:
  assumes "rows_ok N R" "separate N R (set ts)" "distinct ts"
  shows "row_inv N R (set ts) 0 (sort ts)"
proof -
  have "p \<in> set ts" if "p \<in> path_closure N R (set ts)" "Row p R = 0" for p
    using that(1)
  proof cases
    case (step q)
    then show ?thesis using closure_Parent_Row [OF assms(1,2)] that(2) by simp
  qed
  then have "set ts = {p \<in> path_closure N R (set ts). Row p R = 0} \<union> {t \<in> set ts. Row t R > 0}"
    using path_closure.base [of _ "set ts" N R] by auto
  then show ?thesis using assms(3) by (simp add: row_inv_def strict_sorted_iff)
qed

lemma merged_rows_ProofPositions:
  assumes "rows_ok N R" "separate N R (set ts)" "distinct ts"
  shows "merged_rows N R 0 (sort ts) = ProofPositions ts N R"
proof -
  have "sorted_wrt (<) (merged_rows N R 0 (sort ts))"
    "set (merged_rows N R 0 (sort ts)) = sibling_frontier N R (path_closure N R (set ts))"
    using merged_rows_spec [OF assms(1,2) row_inv_start [OF assms]] by auto
  moreover have "\<forall>t \<in> set ts. \<exists>r i. in_forest (unat N) r i \<and> t = wpos R r i"
    using assms(2) by (auto simp: separate_def node_at_def)
  then have "set (ProofPositions ts N R) = sibling_frontier N R (path_closure N R (set ts))"
    using assms(1) by (intro ProofPositions_frontier) (auto simp: rows_ok_def)
  moreover have "sorted_wrt (<) (ProofPositions ts N R)" by (simp add: ProofPositions_def)
  ultimately show ?thesis by (intro strict_sorted_equal) auto
qed

section \<open>Intervals of leaves\<close>

definition leaf_interval :: "nat \<Rightarrow> nat \<Rightarrow> u64 \<times> u64" where
  "leaf_interval r i = (push_bit r (of_nat i), push_bit r (of_nat i) + (push_bit r 1 - 1))"

lemma mask_limit: "R \<le> 63 \<Longrightarrow> unat (if R = 63 then - 1 else push_bit (R + 1) 1 - 1 :: u64) = 2 ^ (R + 1) - 1"
proof -
  assume R: "R \<le> 63"
  show ?thesis
  proof (cases "R = 63")
    case True
    then show ?thesis by (simp add: unsigned_minus_1_eq_mask mask_eq_exp_minus_1)
  next
    case False
    then have "unat (mask (R + 1) :: u64) = 2 ^ (R + 1) - 1" using R by (intro unat_mask_u64) simp
    then show ?thesis using False by (simp add: mask_eq_exp_minus_1)
  qed
qed

lemma target_interval_iff:
  assumes "R \<le> 63" "unat N \<le> 2 ^ R"
  shows "target_interval N R t = Ok iv \<longleftrightarrow> (\<exists>r i. in_forest (unat N) r i \<and> t = wpos R r i \<and> iv = leaf_interval r i)"
proof (cases "t \<ge> (if R = 63 then - 1 else push_bit (R + 1) 1 - 1)")
  case True
  have "\<not> (in_forest (unat N) r i \<and> t = wpos R r i)" for r i
  proof
    assume "in_forest (unat N) r i \<and> t = wpos R r i"
    then have "unat t < 2 ^ (R + 1) - 1"
      using in_forest_coord [OF _ assms(2)] pos_of_less unat_wpos_wide [OF _ assms(1)] by metis
    then show False using True mask_limit [OF assms(1)] by (simp add: word_le_nat_alt)
  qed
  then show ?thesis using True by (auto simp: target_interval_def)
next
  case False
  then have "unat t < 2 ^ (R + 1) - 1" using mask_limit [OF assms(1)] by (simp add: word_le_nat_alt not_le)
  then obtain r i where c: "coord R r i" "t = wpos R r i" using wpos_coords_wide [OF _ assms(1)] by blast
  have "(2 :: nat) ^ (R - r) \<le> 2 ^ 64" using assms(1) by (intro power_increasing) auto
  then have "i < 2 ^ 64" using c(1) by (simp add: coord_def)
  then have "of_nat i \<ge> drop_bit r N \<longleftrightarrow> \<not> in_forest (unat N) r i"
    by (simp add: word_le_nat_alt unat_drop_bit_u64 unat_of_nat_small in_forest_def not_less)
  then have "target_interval N R t = Ok iv \<longleftrightarrow> in_forest (unat N) r i \<and> iv = leaf_interval r i"
    using False c Row_wpos [OF c(1) assms(1)] offset_wpos [OF c(1) assms(1)]
    by (auto simp: target_interval_def leaf_interval_def Let_def)
  moreover have "r' = r \<and> i' = i" if "in_forest (unat N) r' i'" "t = wpos R r' i'" for r' i'
    using wpos_inject_wide [OF c(1) in_forest_coord [OF that(1) assms(2)] assms(1)] c(2) that(2) by simp
  ultimately show ?thesis using c(2) by blast
qed

lemma target_intervals_iff:
  "target_intervals N R ts = Ok ivs \<longleftrightarrow> list_all2 (\<lambda>t iv. target_interval N R t = Ok iv) ts ivs"
  by (induction ts arbitrary: ivs) (auto simp: result_simps list_all2_Cons1)

lemma unat_leaf_interval:
  assumes "in_forest (unat (N :: u64)) r i"
  shows "unat (fst (leaf_interval r i)) = i * 2 ^ r" "unat (snd (leaf_interval r i)) = i * 2 ^ r + (2 ^ r - 1)"
proof -
  have "Suc i * 2 ^ r \<le> unat N div 2 ^ r * 2 ^ r" using assms unfolding in_forest_def by (intro mult_right_mono) auto
  also have "\<dots> \<le> unat N" by simp
  finally have b: "i * 2 ^ r + 2 ^ r < 2 ^ 64" using unat_u64_less [of N] by simp
  have lo: "fst (leaf_interval r i) = of_nat (i * 2 ^ r)" by (simp add: leaf_interval_def push_bit_eq_mult)
  show "unat (fst (leaf_interval r i)) = i * 2 ^ r" unfolding lo using b by (intro unat_of_nat_small) simp
  have "of_nat (2 ^ r - 1) = (2 ^ r - 1 :: u64)" by (simp add: of_nat_diff)
  then have hi: "snd (leaf_interval r i) = of_nat (i * 2 ^ r + (2 ^ r - 1))"
    by (simp only: leaf_interval_def push_bit_eq_mult of_nat_add of_nat_mult of_nat_power of_nat_numeral snd_conv mult_1)
  show "unat (snd (leaf_interval r i)) = i * 2 ^ r + (2 ^ r - 1)" unfolding hi using b by (intro unat_of_nat_small) linarith
qed

definition apart :: "u64 \<times> u64 \<Rightarrow> u64 \<times> u64 \<Rightarrow> bool" where
  "apart a b \<longleftrightarrow> snd a < fst b \<or> snd b < fst a"

lemma overlapping_iff:
  "\<forall>a \<in> set xs. fst a \<le> snd a \<Longrightarrow> \<not> overlapping xs \<longleftrightarrow> sorted_wrt (\<lambda>a b. snd a < fst b) xs"
proof (induction xs rule: overlapping.induct)
  case (1 a b ivs)
  then have IH: "\<not> overlapping (b # ivs) \<longleftrightarrow> sorted_wrt (\<lambda>a b. snd a < fst b) (b # ivs)" by simp
  have "snd a < fst c" if "snd a < fst b" "sorted_wrt (\<lambda>a b. snd a < fst b) (b # ivs)" "c \<in> set ivs" for c
    using that 1(2) by (meson less_trans le_less_trans list.set_intros sorted_wrt.simps(2) order.strict_trans1)
  then show ?case using IH by (auto simp: not_le)
qed auto

lemma sort_pairs_facts: "sorted (map fst (sort_pairs ivs))" "mset (sort_pairs ivs) = mset ivs"
  by (simp_all add: sort_pairs_def)

lemma not_overlapping_iff:
  assumes "\<forall>a \<in> set ivs. fst a \<le> snd a"
  shows "\<not> overlapping (sort_pairs ivs) \<longleftrightarrow> distinct ivs \<and> (\<forall>a \<in> set ivs. \<forall>b \<in> set ivs. a \<noteq> b \<longrightarrow> apart a b)"
proof -
  define xs where "xs = sort_pairs ivs"
  have m: "mset xs = mset ivs" and srt: "sorted (map fst xs)" using sort_pairs_facts by (simp_all add: xs_def)
  have st: "set xs = set ivs" "distinct xs \<longleftrightarrow> distinct ivs" using m mset_eq_setD mset_eq_imp_distinct_iff by blast+
  have "sorted_wrt (\<lambda>a b. snd a < fst b) xs \<longleftrightarrow> distinct xs \<and> (\<forall>a \<in> set xs. \<forall>b \<in> set xs. a \<noteq> b \<longrightarrow> apart a b)"
    using srt assms unfolding st(1) [symmetric]
  proof (induction xs)
    case (Cons a xs)
    have "snd a < fst b \<longleftrightarrow> a \<noteq> b \<and> apart a b" if "b \<in> set xs" for b
    proof -
      have "fst a \<le> fst b" "fst b \<le> snd b" "fst a \<le> snd a" using Cons.prems that by auto
      then show ?thesis by (auto simp: apart_def)
    qed
    then have h: "(\<forall>b \<in> set xs. snd a < fst b) \<longleftrightarrow> (\<forall>b \<in> set xs. a \<noteq> b \<and> apart a b)" by (intro ball_cong refl)
    have "(\<forall>b \<in> set xs. snd a < fst b) \<longleftrightarrow> a \<notin> set xs \<and> (\<forall>b \<in> set xs. a \<noteq> b \<longrightarrow> apart a b)" unfolding h by metis
    moreover have "sorted_wrt (\<lambda>a b. snd a < fst b) xs \<longleftrightarrow> distinct xs \<and> (\<forall>a \<in> set xs. \<forall>b \<in> set xs. a \<noteq> b \<longrightarrow> apart a b)"
      using Cons by simp
    moreover have "apart b c \<longleftrightarrow> apart c b" for b c by (auto simp: apart_def)
    ultimately show ?case by auto
  qed simp
  then show ?thesis using overlapping_iff [of xs] assms st unfolding xs_def by simp
qed

lemma nested_iff:
  assumes "in_forest (unat (N :: u64)) r i" "in_forest (unat N) (r + k) j"
  shows "\<not> apart (leaf_interval r i) (leaf_interval (r + k) j) \<longleftrightarrow> i div 2 ^ k = j"
proof -
  note u = unat_leaf_interval [OF assms(1)] unat_leaf_interval [OF assms(2)]
  have pos: "0 < (2 :: nat) ^ r" "0 < (2 :: nat) ^ (r + k)" by simp_all
  have e: "(2 :: nat) ^ (r + k) = 2 ^ k * 2 ^ r" by (simp add: power_add mult.commute)
  have "\<not> apart (leaf_interval r i) (leaf_interval (r + k) j) \<longleftrightarrow>
      j * 2 ^ (r + k) \<le> i * 2 ^ r + (2 ^ r - 1) \<and> i * 2 ^ r \<le> j * 2 ^ (r + k) + (2 ^ (r + k) - 1)"
    by (simp add: apart_def word_less_nat_alt u not_less)
  also have "\<dots> \<longleftrightarrow> (j * 2 ^ k) * 2 ^ r < Suc i * 2 ^ r \<and> i * 2 ^ r < (Suc j * 2 ^ k) * 2 ^ r"
  proof -
    have "(j * 2 ^ k) * 2 ^ r = j * 2 ^ (r + k)" "(Suc j * 2 ^ k) * 2 ^ r = j * 2 ^ (r + k) + 2 ^ (r + k)" "Suc i * 2 ^ r = i * 2 ^ r + 2 ^ r"
      by (simp_all add: power_add algebra_simps)
    then show ?thesis using pos by linarith
  qed
  also have "\<dots> \<longleftrightarrow> j * 2 ^ k < Suc i \<and> i < Suc j * 2 ^ k" using pos(1) by (simp only: mult_less_cancel2) simp
  also have "\<dots> \<longleftrightarrow> i div 2 ^ k = j"
    using div_nat_eqI [of "2 ^ k" j i] dividend_less_times_div [of "2 ^ k" i] times_div_less_eq_dividend [of "2 ^ k" i]
    by (auto simp: algebra_simps less_Suc_eq_le)
  finally show ?thesis .
qed

lemma half_less_back: "(j :: nat) div 2 < m div 2 \<Longrightarrow> j < m \<and> \<not> (odd m \<and> j + 1 = m)"
  by presburger

lemma in_forest_step_down:
  assumes "in_forest N (r + Suc k) (i div 2 ^ Suc k)"
  shows "in_forest N (r + k) (i div 2 ^ k)" "\<not> is_root_coord N (r + k) (i div 2 ^ k)"
proof -
  let ?m = "N div 2 ^ (r + k)" and ?j = "i div 2 ^ k"
  have "?j div 2 < ?m div 2" using assms unfolding in_forest_def add_Suc_right div_exp_step .
  then have "?j < ?m \<and> \<not> (odd ?m \<and> ?j + 1 = ?m)" by (rule half_less_back)
  then show "in_forest N (r + k) ?j" "\<not> is_root_coord N (r + k) ?j" by (auto simp: in_forest_def is_root_coord_def)
qed

lemma ancestor_in_closure:
  assumes "rows_ok N R" "wpos R r i \<in> T" "in_forest (unat N) (r + k) (i div 2 ^ k)"
  shows "wpos R (r + k) (i div 2 ^ k) \<in> path_closure N R T"
  using assms(3)
proof (induction k)
  case 0
  then show ?case using assms(2) by (simp add: path_closure.base)
next
  case (Suc k)
  note d = in_forest_step_down [OF Suc.prems]
  have nr: "\<not> IsRootPosition (wpos R (r + k) (i div 2 ^ k)) N R" using node_IsRoot [OF assms(1) d(1)] d(2) by simp
  have c: "coord R (r + k) (i div 2 ^ k)" "r + k < R" "R \<le> 62"
    using nonroot_coord [OF assms(1) _ nr, of "r + k"] d(1) in_forest_coord [OF d(1)] assms(1) by (auto simp: node_at_def rows_ok_def)
  have "Parent (wpos R (r + k) (i div 2 ^ k)) R \<in> path_closure N R T" using Suc.IH [OF d(1)] nr by (rule path_closure.step)
  then show ?case unfolding Parent_wpos [OF c] div_exp_step by simp
qed

lemma closure_ancestor:
  assumes "rows_ok N R" "\<forall>t \<in> T. \<exists>r. node_at N R r t" "p \<in> path_closure N R T"
  shows "\<exists>r i k. in_forest (unat N) r i \<and> wpos R r i \<in> T \<and> in_forest (unat N) (r + k) (i div 2 ^ k) \<and> p = wpos R (r + k) (i div 2 ^ k)"
  using assms(3)
proof induction
  case (base t)
  then obtain r i where i: "in_forest (unat N) r i" "t = wpos R r i" using assms(2) by (auto simp: node_at_def)
  then show ?case using base by (intro exI [of _ r] exI [of _ i] exI [of _ 0]) simp
next
  case (step p)
  then obtain r i k where i: "in_forest (unat N) r i" "wpos R r i \<in> T" "in_forest (unat N) (r + k) (i div 2 ^ k)"
    "p = wpos R (r + k) (i div 2 ^ k)" by blast
  have nr: "\<not> is_root_coord (unat N) (r + k) (i div 2 ^ k)" using step.hyps(2) i(4) node_IsRoot [OF assms(1) i(3)] by simp
  have c: "coord R (r + k) (i div 2 ^ k)" "r + k < R" "R \<le> 62"
    using nonroot_coord [OF assms(1) _ step.hyps(2), of "r + k"] i(3,4) in_forest_coord [OF i(3)] assms(1)
    by (auto simp: node_at_def rows_ok_def)
  have "Parent p R = wpos R (r + Suc k) (i div 2 ^ Suc k)" unfolding i(4) Parent_wpos [OF c] div_exp_step by simp
  moreover have "in_forest (unat N) (r + Suc k) (i div 2 ^ Suc k)"
    using in_forest_Parent [OF i(3) nr] unfolding div_exp_step by simp
  ultimately show ?case using i(1,2) by blast
qed

lemma separate_apart:
  assumes "rows_ok N R" "separate N R T" "in_forest (unat N) r i" "wpos R r i \<in> T"
    "in_forest (unat N) (r + k) j" "wpos R (r + k) j \<in> T" "wpos R r i \<noteq> wpos R (r + k) j"
  shows "apart (leaf_interval r i) (leaf_interval (r + k) j)"
proof (rule ccontr)
  assume "\<not> apart (leaf_interval r i) (leaf_interval (r + k) j)"
  then have j: "i div 2 ^ k = j" using nested_iff [OF assms(3,5)] by simp
  then obtain m where k: "k = Suc m" using assms(7) by (cases k) auto
  have up: "in_forest (unat N) (r + Suc m) (i div 2 ^ Suc m)" using assms(5) j k by simp
  note d = in_forest_step_down [OF up]
  have nr: "\<not> IsRootPosition (wpos R (r + m) (i div 2 ^ m)) N R" using node_IsRoot [OF assms(1) d(1)] d(2) by simp
  have c: "coord R (r + m) (i div 2 ^ m)" "r + m < R" "R \<le> 62"
    using nonroot_coord [OF assms(1) _ nr, of "r + m"] d(1) in_forest_coord [OF d(1)] assms(1) by (auto simp: node_at_def rows_ok_def)
  have "Parent (wpos R (r + m) (i div 2 ^ m)) R \<notin> T"
    using assms(2) ancestor_in_closure [OF assms(1,4) d(1)] nr by (simp add: separate_def)
  then show False unfolding Parent_wpos [OF c] using assms(6) j unfolding k div_exp_step by simp
qed

lemma apart_separate:
  assumes "rows_ok N R" "\<forall>t \<in> T. \<exists>r. node_at N R r t"
    "\<And>r i k j. in_forest (unat N) r i \<Longrightarrow> wpos R r i \<in> T \<Longrightarrow> in_forest (unat N) (r + k) j \<Longrightarrow> wpos R (r + k) j \<in> T \<Longrightarrow>
       wpos R r i \<noteq> wpos R (r + k) j \<Longrightarrow> apart (leaf_interval r i) (leaf_interval (r + k) j)"
  shows "separate N R T"
  unfolding separate_def
proof (intro conjI ballI impI notI)
  fix p assume p: "p \<in> path_closure N R T" "\<not> IsRootPosition p N R" "Parent p R \<in> T"
  obtain r i k where i: "in_forest (unat N) r i" "wpos R r i \<in> T" "in_forest (unat N) (r + k) (i div 2 ^ k)"
    "p = wpos R (r + k) (i div 2 ^ k)" using closure_ancestor [OF assms(1,2) p(1)] by blast
  have nr: "\<not> is_root_coord (unat N) (r + k) (i div 2 ^ k)" using p(2) i(4) node_IsRoot [OF assms(1) i(3)] by simp
  have c: "coord R (r + k) (i div 2 ^ k)" "r + k < R" "R \<le> 62"
    using nonroot_coord [OF assms(1) _ p(2), of "r + k"] i(3,4) in_forest_coord [OF i(3)] assms(1)
    by (auto simp: node_at_def rows_ok_def)
  have up: "Parent p R = wpos R (r + Suc k) (i div 2 ^ Suc k)" unfolding i(4) Parent_wpos [OF c] div_exp_step by simp
  have f: "in_forest (unat N) (r + Suc k) (i div 2 ^ Suc k)" using in_forest_Parent [OF i(3) nr] unfolding div_exp_step by simp
  have N: "unat N \<le> 2 ^ R" using assms(1) by (simp add: rows_ok_def)
  have "wpos R r i \<noteq> wpos R (r + Suc k) (i div 2 ^ Suc k)"
    using wpos_inject [OF in_forest_coord [OF i(1) N] in_forest_coord [OF f N] c(3)] by simp
  then have "apart (leaf_interval r i) (leaf_interval (r + Suc k) (i div 2 ^ Suc k))"
    using assms(3) [OF i(1,2) f] p(3) up by simp
  then show False using nested_iff [OF i(1) f] by simp
qed (use assms(2) in blast)

lemma apart_sym: "apart a b \<longleftrightarrow> apart b a"
  by (auto simp: apart_def)

lemma leaf_interval_ordered: "in_forest (unat (N :: u64)) r i \<Longrightarrow> fst (leaf_interval r i) \<le> snd (leaf_interval r i)"
  unfolding word_le_nat_alt by (simp only: unat_leaf_interval le_add1)

lemma disjoint_targets:
  assumes ok: "rows_ok N R" and nodes: "\<forall>t \<in> set ts. \<exists>r. node_at N R r t"
    and g: "\<And>r i. in_forest (unat N) r i \<Longrightarrow> g (wpos R r i) = leaf_interval r i"
  shows "\<not> overlapping (sort_pairs (map g ts)) \<longleftrightarrow> distinct ts \<and> separate N R (set ts)"
proof -
  have coords: "\<exists>r i. in_forest (unat N) r i \<and> t = wpos R r i \<and> g t = leaf_interval r i" if "t \<in> set ts" for t
    using nodes g that by (fastforce simp: node_at_def)
  have ord: "\<forall>a \<in> set (map g ts). fst a \<le> snd a"
  proof
    fix a assume "a \<in> set (map g ts)"
    then obtain t where t: "t \<in> set ts" "a = g t" by auto
    then obtain r i where "in_forest (unat N) r i" "a = leaf_interval r i" using coords [OF t(1)] by auto
    then show "fst a \<le> snd a" using leaf_interval_ordered by blast
  qed
  have "distinct (map g ts) \<and> (\<forall>a \<in> g ` set ts. \<forall>b \<in> g ` set ts. a \<noteq> b \<longrightarrow> apart a b) \<longleftrightarrow>
      distinct ts \<and> (\<forall>t \<in> set ts. \<forall>u \<in> set ts. t \<noteq> u \<longrightarrow> apart (g t) (g u))"
  proof -
    have "\<not> apart (g t) (g t)" if "t \<in> set ts" for t using ord that by (auto simp: apart_def)
    then have "inj_on g (set ts)" if "\<forall>t \<in> set ts. \<forall>u \<in> set ts. t \<noteq> u \<longrightarrow> apart (g t) (g u)"
      using that by (metis inj_onI)
    then show ?thesis unfolding distinct_map by (auto dest: inj_onD)
  qed
  also have "(\<forall>t \<in> set ts. \<forall>u \<in> set ts. t \<noteq> u \<longrightarrow> apart (g t) (g u)) \<longleftrightarrow> separate N R (set ts)"
  proof
    assume "\<forall>t \<in> set ts. \<forall>u \<in> set ts. t \<noteq> u \<longrightarrow> apart (g t) (g u)"
    then show "separate N R (set ts)" using g by (intro apart_separate [OF ok nodes]) metis
  next
    assume sep: "separate N R (set ts)"
    show "\<forall>t \<in> set ts. \<forall>u \<in> set ts. t \<noteq> u \<longrightarrow> apart (g t) (g u)"
    proof (intro ballI impI)
      fix t u assume t: "t \<in> set ts" "u \<in> set ts" "t \<noteq> u"
      obtain r i where i: "in_forest (unat N) r i" "t = wpos R r i" "g t = leaf_interval r i" using coords [OF t(1)] by blast
      obtain s j where j: "in_forest (unat N) s j" "u = wpos R s j" "g u = leaf_interval s j" using coords [OF t(2)] by blast
      show "apart (g t) (g u)"
      proof (cases "r \<le> s")
        case True
        then show ?thesis using separate_apart [OF ok sep i(1), of "s - r" j] i j t by simp
      next
        case False
        then show ?thesis using separate_apart [OF ok sep j(1), of "r - s" i] i j t by (simp add: apart_sym)
      qed
    qed
  qed
  finally show ?thesis unfolding not_overlapping_iff [OF ord] by simp
qed

lemma target_intervals_map:
  assumes ok: "rows_ok N R"
  obtains g where "\<And>r i. in_forest (unat N) r i \<Longrightarrow> g (wpos R r i) = leaf_interval r i"
    "\<And>ts ivs. target_intervals N R ts = Ok ivs \<longleftrightarrow> (\<forall>t \<in> set ts. \<exists>r. node_at N R r t) \<and> ivs = map g ts"
proof -
  define g where "g t = (case target_interval N R t of Ok iv \<Rightarrow> iv | _ \<Rightarrow> (0, 0))" for t
  have R: "R \<le> 63" "unat N \<le> 2 ^ R" using ok by (auto simp: rows_ok_def)
  have one: "target_interval N R t = Ok iv \<longleftrightarrow> (\<exists>r. node_at N R r t) \<and> iv = g t" for t iv
  proof -
    have "(\<exists>r. node_at N R r t) \<longleftrightarrow> (\<exists>iv. target_interval N R t = Ok iv)"
      unfolding target_interval_iff [OF R] node_at_def by blast
    then show ?thesis by (auto simp: g_def)
  qed
  show thesis
  proof (rule that)
    fix r i assume f: "in_forest (unat N) r i"
    then have "target_interval N R (wpos R r i) = Ok (leaf_interval r i)" unfolding target_interval_iff [OF R] by blast
    then show "g (wpos R r i) = leaf_interval r i" by (simp add: g_def)
  next
    fix ts ivs
    show "target_intervals N R ts = Ok ivs \<longleftrightarrow> (\<forall>t \<in> set ts. \<exists>r. node_at N R r t) \<and> ivs = map g ts"
      by (induction ts arbitrary: ivs) (auto simp: result_simps one)
  qed
qed

section \<open>Properties\<close>

text \<open>C16: The row-by-row routine of the wire code and the work list of the forest compute the same proof
  positions: \<open>NativeProofPositions\<close> accepts a proof exactly when its targets are different nodes of the
  forest, none above another, and its hashes are as many as the positions (at most the limit), and it
  then returns the list of \<open>ProofPositions\<close>, in the same increasing order.\<close>

theorem NativeProofPositions_correct:
  assumes "unat N \<le> 2 ^ 62"
  shows "NativeProofPositions pf N = Ok ps \<longleftrightarrow>
    distinct (targets pf) \<and> separate N (TreeRows N) (set (targets pf)) \<and>
    ps = ProofPositions (targets pf) N (TreeRows N) \<and> length ps = length (hashes pf) \<and> length ps \<le> MAX_HASHES"
proof -
  let ?R = "TreeRows N" and ?ts = "targets pf"
  have ok: "rows_ok N ?R" using TreeRows_le_iff [of 62 N] leaves_le_TreeRows assms by (simp add: rows_ok_def)
  obtain g where g: "\<And>r i. in_forest (unat N) r i \<Longrightarrow> g (wpos ?R r i) = leaf_interval r i"
    "\<And>ts ivs. target_intervals N ?R ts = Ok ivs \<longleftrightarrow> (\<forall>t \<in> set ts. \<exists>r. node_at N ?R r t) \<and> ivs = map g ts"
    using target_intervals_map [OF ok] by blast
  have rows: "(if N = 0 then 0 else bit_width (N - 1)) = ?R" by (simp add: TreeRows_def bit_width_def)
  have "(2 :: nat) ^ 62 < 2 ^ 63" by (rule power_strict_increasing) simp_all
  then have small: "\<not> N > push_bit 63 1" using assms unat_exp_u64 [of 63] by (simp add: word_less_nat_alt)
  have "NativeProofPositions pf N = Ok ps \<longleftrightarrow>
      (\<forall>t \<in> set ?ts. \<exists>r. node_at N ?R r t) \<and> \<not> overlapping (sort_pairs (map g ?ts)) \<and>
      merge_rows N ?R 0 (sort ?ts) [] = Ok ps \<and> length ps = length (hashes pf)"
    unfolding NativeProofPositions_def rows Let_def using small by (auto simp: result_simps g(2))
  also have "\<dots> \<longleftrightarrow> distinct ?ts \<and> separate N ?R (set ?ts) \<and> merge_rows N ?R 0 (sort ?ts) [] = Ok ps \<and> length ps = length (hashes pf)"
    using disjoint_targets [OF ok _ g(1)] by (auto simp: separate_def)
  also have "\<dots> \<longleftrightarrow> distinct ?ts \<and> separate N ?R (set ?ts) \<and> ps = ProofPositions ?ts N ?R \<and> length ps = length (hashes pf) \<and> length ps \<le> MAX_HASHES"
    using merged_rows_ProofPositions [OF ok] by (auto simp: merge_rows_merged Let_def not_less)
  finally show ?thesis .
qed

theorem NativeProofPositions_correct_witness:
  "unat (4 :: u64) \<le> 2 ^ 62 \<and> ProofPositions [0] 4 (TreeRows 4) = [1, 5] \<and> separate 4 (TreeRows 4) {0}"
proof -
  have "NativeProofPositions \<lparr>targets = [0], hashes = [null_hash, null_hash]\<rparr> 4 = Ok [1, 5]"
  proof -
    have "bit_width (4 - 1) = 2" by code_simp
    moreover have "target_intervals 4 2 [0] = Ok [(0, 0)]" by code_simp
    moreover have "merged_rows 4 2 0 [0] = [1, 5]" by code_simp
    ultimately show ?thesis
      by (simp add: NativeProofPositions_def merge_rows_merged sort_pairs_def MAX_HASHES_def MAX_TX_PAYLOAD_def)
  qed
  then show ?thesis using NativeProofPositions_correct [of 4 "\<lparr>targets = [0], hashes = [null_hash, null_hash]\<rparr>" "[1, 5]"] by simp
qed

end
