(* ===== verification/TransactionProof.thy ===== *)
theory TransactionProof
  imports TransactionScan WirePositions
begin

unbundle bit_operations_syntax

text \<open>
  Transactions with accumulator proofs (the second half of \<^verbatim>\<open>src/src/transaction_wire.cpp\<close>): the prepared proof of a transaction
  (\<open>PreparedTransactionProof\<close>), the \<open>utreexotx\<close> message it serialises to for a request, and the parser of
  that message. Payload sizes are sums of a few bounded terms, far below \<open>2^64\<close>, and are naturals here.
\<close>

section \<open>Preparing a proof\<close>

definition MAX_SCRIPT_BYTES :: nat where "MAX_SCRIPT_BYTES = 10000"

definition LeafBytes :: "CompactLeafData \<Rightarrow> nat Result" where
  "LeafBytes leaf =
     (if header_code leaf > 0x7fffffff \<or> amount leaf > 0x7fffffffffffffff \<or> script_type leaf > WITNESS_V0_SCRIPT_HASH
      then Err ''invalid confirmed compact leaf header, amount, or script type''
      else if script_type leaf \<noteq> OTHER
      then if compact_script leaf \<noteq> [] then Err ''standard compact leaf contains a script'' else Ok 13
      else if length (compact_script leaf) > MAX_SCRIPT_BYTES then Err ''compact leaf script exceeds maximum''
      else Ok (13 + unat (CompactSizeBytes (of_nat (length (compact_script leaf)))) + length (compact_script leaf)))"

record PreparedTransactionProof =
  prep_transaction :: Transaction
  prep_proof :: Proof
  prep_leaves :: "CompactLeafData option list"
  prep_positions :: "u64 list"
  base_payload_bytes :: nat

text \<open>The loop over the inputs: the number of confirmed ones and the bytes of their leaves.\<close>

fun measure_leaves :: "OutPoint list \<Rightarrow> CompactLeafData option list \<Rightarrow> nat \<Rightarrow> nat \<Rightarrow> (nat \<times> nat) Result" where
  "measure_leaves (i # inputs) (l # leaves) confirmed base_bytes =
     (if op_index i > drop_bit 1 (- 1) then Err ''transaction vout cannot be losslessly flagged''
      else case l of
             None \<Rightarrow> measure_leaves inputs leaves confirmed base_bytes
           | Some leaf \<Rightarrow>
               and_then (LeafBytes leaf) (\<lambda>n.
                 if base_bytes + n \<ge> MAX_TX_PAYLOAD then Err ''prepared transaction metadata exceeds payload maximum''
                 else measure_leaves inputs leaves (confirmed + 1) (base_bytes + n)))"
| "measure_leaves _ _ confirmed base_bytes = Ok (confirmed, base_bytes)"

definition Create :: "Transaction \<Rightarrow> Proof \<Rightarrow> CompactLeafData option list \<Rightarrow> u64 \<Rightarrow> PreparedTransactionProof Result" where
  "Create transaction pf input_leaves num_leaves =
     (if m_inputs transaction = [] \<or> m_bytes transaction = [] \<or> length input_leaves \<noteq> length (m_inputs transaction) \<or>
         length (targets pf) > MAX_INPUTS \<or> length (hashes pf) > MAX_HASHES
      then Err ''invalid prepared transaction proof counts''
      else and_then (measure_leaves (m_inputs transaction) input_leaves 0
                       (length (m_bytes transaction) + unat (CompactSizeBytes (of_nat (length (targets pf))))))
        (\<lambda>(confirmed, base_bytes).
          if confirmed \<noteq> length (targets pf) then Err ''confirmed input and proof target counts differ''
          else and_then (NativeProofPositions pf num_leaves) (\<lambda>positions.
            let rows = (if num_leaves = 0 then 0 else bit_width (num_leaves - 1));
                wire = map (\<lambda>t. WirePosition t rows) (targets pf);
                base_bytes1 = base_bytes + sum_list (map (unat \<circ> CompactSizeBytes) wire)
            in if base_bytes1 \<ge> MAX_TX_PAYLOAD then Err ''prepared transaction targets exceed payload maximum''
               else Ok \<lparr>prep_transaction = transaction, prep_proof = pf\<lparr>targets := wire\<rparr>, prep_leaves = input_leaves,
                        prep_positions = map (\<lambda>p. WirePosition p rows) positions, base_payload_bytes = base_bytes1\<rparr>)))"

definition Announcement :: "PreparedTransactionProof \<Rightarrow> InvGroup" where
  "Announcement prep =
     \<lparr>group_txid = m_txid (prep_transaction prep), inventory_type = MSG_TX, group_positions = targets (prep_proof prep)\<rparr>"

definition FullRequest :: "PreparedTransactionProof \<Rightarrow> u32 \<Rightarrow> InvGroup" where
  "FullRequest prep type =
     \<lparr>group_txid = m_txid (prep_transaction prep), inventory_type = type, group_positions = prep_positions prep\<rparr>"

section \<open>Answering a request\<close>

text \<open>\<open>std::lower_bound\<close> on an increasing vector.\<close>

definition lower_bound :: "u64 list \<Rightarrow> u64 \<Rightarrow> nat" where
  "lower_bound xs pos = length (takeWhile (\<lambda>x. x < pos) xs)"

definition holds_position :: "u64 list \<Rightarrow> u64 \<Rightarrow> bool" where
  "holds_position xs pos \<longleftrightarrow> lower_bound xs pos < length xs \<and> xs ! lower_bound xs pos = pos"

definition Measure :: "PreparedTransactionProof \<Rightarrow> InvGroup \<Rightarrow> u64 \<Rightarrow> nat Result" where
  "Measure prep request max_payload_bytes =
     (if \<not> IsRequestType (inventory_type request) \<or> group_txid request \<noteq> m_txid (prep_transaction prep)
      then Err ''Utreexo transaction request type or txid mismatch''
      else let positions = group_positions request
           in if length positions > length (prep_positions prep) then Err ''too many requested proof positions''
              else let bytes = base_payload_bytes prep + unat (CompactSizeBytes (of_nat (length positions))) + length positions * 32
                   in if bytes > min (unat max_payload_bytes) MAX_TX_PAYLOAD then Err ''utreexotx response exceeds payload maximum''
                      else if \<exists>pos \<in> set positions. \<not> holds_position (prep_positions prep) pos
                      then Err ''requested position is not a transaction proof node''
                      else if \<not> UniquePositions positions then Err ''duplicate requested proof positions''
                      else Ok bytes)"

definition WriteVout :: "byte list \<Rightarrow> nat \<Rightarrow> u32 \<Rightarrow> byte list" where
  "WriteVout bytes offset vout = overwrite bytes offset (write_le 4 vout)"

fun write_vouts :: "nat \<Rightarrow> (nat \<times> u32) list \<Rightarrow> byte list \<Rightarrow> byte list" where
  "write_vouts start [] bytes = bytes"
| "write_vouts start ((offset, vout) # vouts) bytes = write_vouts start vouts (WriteVout bytes (start + offset) vout)"

definition flagged :: "OutPoint \<Rightarrow> CompactLeafData option \<Rightarrow> u32" where
  "flagged input leaf = push_bit 1 (op_index input) OR (if leaf \<noteq> None then 0 else 1)"

definition leaf_wire :: "CompactLeafData \<Rightarrow> byte list" where
  "leaf_wire leaf =
     write_le 4 (header_code leaf) @ write_le 8 (amount leaf) @ [script_type leaf] @
     (if script_type leaf = OTHER
      then AppendCompactSize (of_nat (length (compact_script leaf))) @ compact_script leaf else [])"

definition proof_wire :: "PreparedTransactionProof \<Rightarrow> InvGroup \<Rightarrow> byte list" where
  "proof_wire prep request =
     AppendCompactSize (of_nat (length (targets (prep_proof prep)))) @ concat (map AppendCompactSize (targets (prep_proof prep))) @
     AppendCompactSize (of_nat (length (group_positions request))) @
     concat (map (\<lambda>pos. Bytes (hashes (prep_proof prep) ! lower_bound (prep_positions prep) pos)) (group_positions request))"

definition Prepared_Serialize :: "PreparedTransactionProof \<Rightarrow> InvGroup \<Rightarrow> u64 \<Rightarrow> byte list Result" where
  "Prepared_Serialize prep request max_payload_bytes =
     and_then (Measure prep request max_payload_bytes) (\<lambda>_.
       let output = proof_wire prep request; tx = prep_transaction prep
       in Ok (write_vouts (length output)
                (zip (m_vout_offsets tx) (map2 flagged (m_inputs tx) (prep_leaves prep))) (output @ m_bytes tx) @
              concat (map (case_option [] leaf_wire) (prep_leaves prep))))"

section \<open>Parsing the message\<close>

record DecodedTransactionProof =
  dec_transaction :: Transaction
  dec_proof :: Proof
  dec_leaves :: "CompactLeafData option list"

fun read_targets :: "nat \<Rightarrow> byte list \<Rightarrow> (u64 list \<times> byte list) Result" where
  "read_targets 0 bs = Ok ([], bs)"
| "read_targets (Suc n) bs =
     (case CompactSize bs of
        None \<Rightarrow> Err ''invalid utreexotx target''
      | Some (target, bs1) \<Rightarrow>
          if target = PADDING then Err ''invalid utreexotx target''
          else and_then (read_targets n bs1) (\<lambda>(ts, rest). Ok (target # ts, rest)))"

definition read_script :: "ScriptPubkeyType \<Rightarrow> byte list \<Rightarrow> (byte list \<times> byte list) Result" where
  "read_script type bs =
     (if type = OTHER
      then (case CompactSize bs of
              None \<Rightarrow> Err ''invalid compact leaf script length''
            | Some (n, bs1) \<Rightarrow>
                if unat n > MAX_SCRIPT_BYTES \<or> unat n > length bs1 then Err ''invalid compact leaf script length''
                else (case Skip (unat n) bs1 of
                        None \<Rightarrow> Err ''truncated compact leaf script''
                      | Some (_, bs2) \<Rightarrow> Ok (take (unat n) bs1, bs2)))
      else Ok ([], bs))"

definition read_leaf :: "byte list \<Rightarrow> (CompactLeafData \<times> byte list) Result" where
  "read_leaf bs =
     (case pair_dec (LE 4) (pair_dec (LE 8) (LE 1)) bs of
        None \<Rightarrow> Err ''truncated confirmed compact leaf''
      | Some ((header, value, type), bs1) \<Rightarrow>
          and_then (read_script type bs1) (\<lambda>(script, bs2).
            let leaf = \<lparr>header_code = header, amount = value, script_type = type, compact_script = script\<rparr>
            in and_then (LeafBytes leaf) (\<lambda>_. Ok (leaf, bs2))))"

fun read_leaves :: "OutPoint list \<Rightarrow> byte list \<Rightarrow> (CompactLeafData option list \<times> byte list) Result" where
  "read_leaves [] bs = Ok ([], bs)"
| "read_leaves (i # inputs) bs =
     (if op_index i AND 1 \<noteq> 0
      then and_then (read_leaves inputs bs) (\<lambda>(leaves, rest). Ok (None # leaves, rest))
      else and_then (read_leaf bs) (\<lambda>(leaf, bs1).
             and_then (read_leaves inputs bs1) (\<lambda>(leaves, rest). Ok (Some leaf # leaves, rest))))"

definition read_proof :: "byte list \<Rightarrow> (Proof \<times> byte list) Result" where
  "read_proof payload =
     (case CompactSize payload of
        None \<Rightarrow> Err ''invalid utreexotx target count''
      | Some (n, bs) \<Rightarrow>
          if unat n > MAX_INPUTS \<or> unat n > length bs then Err ''invalid utreexotx target count''
          else and_then (read_targets (unat n) bs) (\<lambda>(ts, bs1).
            case CompactSize bs1 of
              None \<Rightarrow> Err ''invalid utreexotx proof hash count''
            | Some (m, bs2) \<Rightarrow>
                if unat m > MAX_HASHES \<or> unat m > length bs2 div 32 then Err ''invalid utreexotx proof hash count''
                else (case read_many (unat m) ReadHash bs2 of
                        None \<Rightarrow> Err ''truncated utreexotx proof hash''
                      | Some (hs, bs3) \<Rightarrow> Ok (\<lparr>targets = ts, hashes = hs\<rparr>, bs3))))"

definition ParseUtreexoTransaction :: "byte list \<Rightarrow> u64 \<Rightarrow> DecodedTransactionProof Result" where
  "ParseUtreexoTransaction payload max_payload_bytes =
     (if length payload > min (unat max_payload_bytes) MAX_TX_PAYLOAD then Err ''utreexotx payload exceeds maximum''
      else and_then (read_proof payload) (\<lambda>(pf, bs).
        and_then (ScanTransaction bs) (\<lambda>(layout, _, _).
        and_then (ScanTransaction (take (layout_size layout) bs)) (\<lambda>(_, inputs, offsets).
          case Skip (layout_size layout) bs of
            None \<Rightarrow> Err ''truncated utreexotx transaction''
          | Some (_, bs1) \<Rightarrow>
              let confirmed = length (filter (\<lambda>i. op_index i AND 1 = 0) inputs)
              in if confirmed \<noteq> length (targets pf) \<or> confirmed > length bs1 div 13 \<or> confirmed = 0 \<and> hashes pf \<noteq> []
                 then Err ''utreexotx confirmed input/proof counts differ''
                 else and_then (read_leaves inputs bs1) (\<lambda>(leaves, bs2).
                   if bs2 \<noteq> [] \<or> \<not> UniquePositions (targets pf) then Err ''trailing utreexotx bytes or duplicate targets''
                   else let raw = write_vouts 0 (zip offsets (map (\<lambda>i. drop_bit 1 (op_index i)) inputs)) (take (layout_size layout) bs)
                        in and_then (Transaction_Parse raw (of_nat MAX_TX_PAYLOAD)) (\<lambda>tx.
                             Ok \<lparr>dec_transaction = tx, dec_proof = pf, dec_leaves = leaves\<rparr>))))))"

section \<open>Targets on the wire\<close>

lemma Native_targets:
  assumes "NativeProofPositions pf N = Ok ps"
  shows "TreeRows N \<le> 63" "\<forall>t \<in> set (targets pf). \<exists>r i. coord (TreeRows N) r i \<and> t = wpos (TreeRows N) r i"
    "distinct (targets pf)" "targets pf = [] \<Longrightarrow> ps = []" "length ps = length (hashes pf)"
proof -
  let ?R = "TreeRows N" and ?ts = "targets pf"
  have rows: "(if N = 0 then 0 else bit_width (N - 1)) = ?R" by (simp add: TreeRows_def bit_width_def)
  obtain ivs where r: "\<not> N > push_bit 63 1" "target_intervals N ?R ?ts = Ok ivs" "\<not> overlapping (sort_pairs ivs)"
    "merge_rows N ?R 0 (sort ?ts) [] = Ok ps" "length ps = length (hashes pf)"
    using assms unfolding NativeProofPositions_def rows Let_def by (auto simp: result_simps split: if_splits)
  have N: "unat N \<le> 2 ^ 63" using r(1) unat_exp_u64 [of 63] by (simp add: word_less_nat_alt)
  then show R: "?R \<le> 63" using TreeRows_le_iff [of 63 N] by simp
  note iv = target_interval_iff [OF R leaves_le_TreeRows]
  have all: "list_all2 (\<lambda>t iv. target_interval N ?R t = Ok iv) ?ts ivs" using r(2) by (simp add: target_intervals_iff)
  then have node: "\<exists>r i. in_forest (unat N) r i \<and> ?ts ! k = wpos ?R r i \<and> ivs ! k = leaf_interval r i" if "k < length ?ts" for k
    using that iv by (auto simp: list_all2_conv_all_nth)
  then show "\<forall>t \<in> set ?ts. \<exists>r i. coord ?R r i \<and> t = wpos ?R r i"
    using in_forest_coord [OF _ leaves_le_TreeRows] by (metis in_set_conv_nth)
  have l: "length ivs = length ?ts" using all by (simp add: list_all2_lengthD)
  have "\<forall>a \<in> set ivs. fst a \<le> snd a"
  proof
    fix a assume "a \<in> set ivs"
    then obtain k where "k < length ?ts" "a = ivs ! k" using l by (auto simp: in_set_conv_nth)
    then show "fst a \<le> snd a" using node [of k] leaf_interval_ordered by metis
  qed
  then have "distinct ivs" using r(3) not_overlapping_iff by blast
  then show "distinct ?ts"
    using all l unfolding distinct_conv_nth list_all2_conv_all_nth by (metis Result.inject(1))
  show "ps = []" if "?ts = []" using r(4) that by (simp add: merge_rows.simps)
  show "length ps = length (hashes pf)" by fact
qed

lemma wire_targets:
  assumes "NativeProofPositions pf N = Ok ps"
  shows "UniquePositions (map (\<lambda>t. WirePosition t (TreeRows N)) (targets pf))"
proof -
  let ?R = "TreeRows N" and ?ts = "targets pf"
  note t = Native_targets [OF assms]
  have wire: "\<exists>r i. coord ?R r i \<and> t = wpos ?R r i \<and> coord 63 r i \<and> WirePosition t ?R = wpos 63 r i" if "t \<in> set ?ts" for t
    using that t(1,2) WirePosition_wpos coord_wide by metis
  have "PADDING \<noteq> WirePosition t ?R" if "t \<in> set ?ts" for t
  proof -
    obtain r i where "coord 63 r i" "WirePosition t ?R = wpos 63 r i" using wire [OF \<open>t \<in> set ?ts\<close>] by blast
    then have "unat (WirePosition t ?R) < 2 ^ 64 - 1" using unat_wpos_wide [of 63 r i] pos_of_less [of 63 r i] by simp
    moreover have "unat PADDING = 2 ^ 64 - 1" by (simp add: PADDING_def unsigned_minus_1_eq_mask mask_eq_exp_minus_1)
    ultimately show ?thesis by auto
  qed
  moreover have "inj_on (\<lambda>t. WirePosition t ?R) (set ?ts)"
    using wire wpos_inject_wide [of 63] by (intro inj_onI) (metis order_refl)
  ultimately show ?thesis using t(3) by (auto simp: UniquePositions_def distinct_map)
qed

section \<open>Leaves\<close>

lemma LeafBytes_wire: "LeafBytes leaf = Ok n \<Longrightarrow> length (leaf_wire leaf) = n"
  by (auto simp: LeafBytes_def leaf_wire_def length_AppendCompactSize split: if_splits)

lemma small_length: "length xs \<le> MAX_SCRIPT_BYTES \<Longrightarrow> unat (of_nat (length xs) :: u64) = length xs"
  by (rule unat_of_fits) (simp add: fits_def MAX_SCRIPT_BYTES_def)

lemma read_leaf_wire:
  assumes "LeafBytes leaf = Ok n"
  shows "read_leaf (leaf_wire leaf @ rest) = Ok (leaf, rest)"
proof -
  let ?tail = "if script_type leaf = OTHER then AppendCompactSize (of_nat (length (compact_script leaf))) @ compact_script leaf else []"
  have head: "pair_dec (LE 4) (pair_dec (LE 8) (LE 1)) (leaf_wire leaf @ rest) =
      Some ((header_code leaf, amount leaf, script_type leaf), ?tail @ rest)"
    using u32le.dec_enc [of "header_code leaf" "write_le 8 (amount leaf) @ script_type leaf # ?tail @ rest"]
      u64le.dec_enc [of "amount leaf" "script_type leaf # ?tail @ rest"] u8le.dec_enc [of "script_type leaf" "?tail @ rest"]
    by (simp add: pair_dec_def leaf_wire_def)
  have script: "read_script (script_type leaf) (?tail @ rest) = Ok (compact_script leaf, rest)"
  proof (cases "script_type leaf = OTHER")
    case True
    then have l: "length (compact_script leaf) \<le> MAX_SCRIPT_BYTES" using assms by (auto simp: LeafBytes_def split: if_splits)
    have "CompactSize (?tail @ rest) = Some (of_nat (length (compact_script leaf)), compact_script leaf @ rest)"
      using True by (simp add: CompactSize_iff)
    then show ?thesis using True l small_length [OF l] by (simp add: read_script_def Skip_def)
  next
    case False
    then show ?thesis using assms by (auto simp: read_script_def LeafBytes_def split: if_splits)
  qed
  show ?thesis unfolding read_leaf_def head using script assms by (cases leaf) (simp add: Let_def)
qed

lemma measure_leaves_Ok:
  assumes "measure_leaves inputs leaves c b = Ok (c', b')" "length inputs = length leaves"
  shows "\<forall>i \<in> set inputs. op_index i \<le> 0x7fffffff" "\<forall>l \<in> set leaves. \<forall>leaf. l = Some leaf \<longrightarrow> (\<exists>n. LeafBytes leaf = Ok n)"
    "c' = c + length (filter (\<lambda>l. l \<noteq> None) leaves)" "b' = b + length (concat (map (case_option [] leaf_wire) leaves))"
proof -
  have "(\<forall>i \<in> set inputs. op_index i \<le> 0x7fffffff) \<and> (\<forall>l \<in> set leaves. \<forall>leaf. l = Some leaf \<longrightarrow> (\<exists>n. LeafBytes leaf = Ok n)) \<and>
    c' = c + length (filter (\<lambda>l. l \<noteq> None) leaves) \<and> b' = b + length (concat (map (case_option [] leaf_wire) leaves))"
    using assms
  proof (induction inputs leaves c b rule: measure_leaves.induct)
    case (1 i inputs l leaves c b)
    have m: "(mask 31 :: u32) = 0x7fffffff" by (simp add: mask_eq_exp_minus_1)
    show ?case
    proof (cases l)
      case None
      then show ?thesis using 1 by (auto simp: m not_less split: if_splits)
    next
      case (Some leaf)
      then obtain n where n: "LeafBytes leaf = Ok n" "measure_leaves inputs leaves (c + 1) (b + n) = Ok (c', b')"
          "\<not> op_index i > drop_bit 1 (- 1)" "\<not> b + n \<ge> MAX_TX_PAYLOAD"
        using 1(3) by (auto simp: result_simps split: if_splits)
      note IH = 1(2) [OF n(3) Some n(4,2)]
      show ?thesis using IH n(3) 1(4) Some LeafBytes_wire [OF n(1)] n(1) by (auto simp: m not_less)
    qed
  qed auto
  then show "\<forall>i \<in> set inputs. op_index i \<le> 0x7fffffff" "\<forall>l \<in> set leaves. \<forall>leaf. l = Some leaf \<longrightarrow> (\<exists>n. LeafBytes leaf = Ok n)"
    "c' = c + length (filter (\<lambda>l. l \<noteq> None) leaves)" "b' = b + length (concat (map (case_option [] leaf_wire) leaves))" by blast+
qed

lemma read_leaves_wire:
  assumes "list_all2 (\<lambda>i l. op_index i AND 1 \<noteq> 0 \<longleftrightarrow> l = None) inputs leaves"
    "\<forall>l \<in> set leaves. \<forall>leaf. l = Some leaf \<longrightarrow> (\<exists>n. LeafBytes leaf = Ok n)"
  shows "read_leaves inputs (concat (map (case_option [] leaf_wire) leaves) @ rest) = Ok (leaves, rest)"
  using assms
proof (induction inputs leaves rule: list_all2_induct)
  case (Cons i inputs l leaves)
  then show ?case using read_leaf_wire by (cases l) auto
qed simp

section \<open>Flagged outpoints\<close>

lemma flagged_bits:
  assumes "op_index i \<le> 0x7fffffff"
  shows "flagged i l AND 1 \<noteq> 0 \<longleftrightarrow> l = None" "drop_bit 1 (flagged i l) = op_index i"
proof -
  let ?v = "op_index i"
  have "flagged i l AND 1 \<noteq> 0 \<longleftrightarrow> bit (flagged i l) 0" by (simp add: and_one_eq odd_iff_mod_2_eq_one bit_0 flip: mod_2_eq_odd)
  then show "flagged i l AND 1 \<noteq> 0 \<longleftrightarrow> l = None" unfolding flagged_def bit_or_iff bit_push_bit_iff by (simp add: bit_1_iff)
  have top: "\<not> bit ?v 31"
  proof
    assume "bit ?v 31"
    then have "bit (unat ?v) 31" by (simp add: bit_unsigned_iff)
    then have "odd (unat ?v div 2 ^ 31)" unfolding bit_iff_odd .
    moreover have "unat ?v div 2 ^ 31 = 0" using assms by (simp add: word_le_nat_alt)
    ultimately show False by simp
  qed
  show "drop_bit 1 (flagged i l) = ?v"
  proof (rule bit_eqI)
    fix n assume "possible_bit TYPE(32 word) n"
    then have n: "n < 31 \<or> n = 31" by (auto simp: possible_bit_word)
    have "bit (flagged i l) (Suc n) \<longleftrightarrow> Suc n < 32 \<and> bit ?v n"
      unfolding flagged_def bit_or_iff bit_push_bit_iff by (cases l) (simp_all add: bit_1_iff)
    then show "bit (drop_bit 1 (flagged i l)) n = bit ?v n" using n top by (auto simp: bit_drop_bit_eq)
  qed
qed

definition set_vouts :: "tx_fields \<Rightarrow> u32 list \<Rightarrow> tx_fields" where
  "set_vouts t vs = t\<lparr>tx_inputs := map2 (\<lambda>i v. i\<lparr>in_vout := v\<rparr>) (tx_inputs t) vs\<rparr>"

lemma overwrite_part: "length x = length y \<Longrightarrow> overwrite (a @ x @ c) (length a) y = a @ y @ c"
  by (simp add: overwrite_def)

lemma write_vouts_inputs:
  "length vs = length is \<Longrightarrow> length pre = start + off \<Longrightarrow>
   write_vouts start (zip (vout_offsets off is) vs) (pre @ concat (map input_bytes is) @ post) =
     pre @ concat (map input_bytes (map2 (\<lambda>i v. i\<lparr>in_vout := v\<rparr>) is vs)) @ post"
proof (induction "is" arbitrary: vs pre off)
  case (Cons i "is")
  then obtain v vs' where vs: "vs = v # vs'" "length vs' = length is" by (cases vs) auto
  let ?post = "sized (in_script i) @ in_sequence i @ concat (map input_bytes is) @ post"
  let ?new = "input_bytes (i\<lparr>in_vout := v\<rparr>)"
  have pos: "start + (off + 32) = length (pre @ Bytes (in_txid i))" using Cons.prems(2) by simp
  have "WriteVout (pre @ concat (map input_bytes (i # is)) @ post) (start + (off + 32)) v =
      overwrite ((pre @ Bytes (in_txid i)) @ write_le 4 (in_vout i) @ ?post) (length (pre @ Bytes (in_txid i))) (write_le 4 v)"
    unfolding WriteVout_def pos by (simp only: input_bytes_def list.map concat.simps append_assoc)
  also have "\<dots> = (pre @ Bytes (in_txid i)) @ write_le 4 v @ ?post" by (rule overwrite_part) simp
  also have "\<dots> = (pre @ ?new) @ concat (map input_bytes is) @ post" by (simp add: input_bytes_def)
  finally have w: "WriteVout (pre @ concat (map input_bytes (i # is)) @ post) (start + (off + 32)) v = \<dots>" .
  have l: "length (pre @ ?new) = start + (off + length (input_bytes i))" using Cons.prems(2) by (simp add: input_bytes_def)
  have "write_vouts start (zip (vout_offsets off (i # is)) vs) (pre @ concat (map input_bytes (i # is)) @ post) =
      write_vouts start (zip (vout_offsets (off + length (input_bytes i)) is) vs') ((pre @ ?new) @ concat (map input_bytes is) @ post)"
    unfolding vs(1) vout_offsets.simps zip_Cons_Cons write_vouts.simps w ..
  also have "\<dots> = (pre @ ?new) @ concat (map input_bytes (map2 (\<lambda>i v. i\<lparr>in_vout := v\<rparr>) is vs')) @ post"
    by (rule Cons.IH [OF vs(2) l])
  finally show ?case by (simp add: vs(1))
qed simp

lemma write_vouts_tx:
  assumes "tx_ok t" "length vs = length (tx_inputs t)"
  shows "write_vouts (length pre) (zip (offsets_of t) vs) (pre @ tx_bytes t) = pre @ tx_bytes (set_vouts t vs)"
proof -
  let ?n = "AppendCompactSize (of_nat (length (tx_inputs t)))"
  let ?pre = "pre @ tx_version t @ marker t @ ?n"
  let ?post = "AppendCompactSize (of_nat (length (tx_outputs t))) @ concat (map output_bytes (tx_outputs t)) @ witness_bytes t @ tx_locktime t"
  have "length ?pre = length pre + (4 + length (marker t) + length ?n)" using assms(1) by (simp add: tx_ok_def)
  from write_vouts_inputs [OF assms(2) this, of ?post] show ?thesis
    using assms(2) by (simp add: tx_bytes_def body_bytes_def offsets_of_def set_vouts_def marker_def witness_bytes_def)
qed

lemma map2_in_vout: "map2 (\<lambda>i v. i\<lparr>in_vout := v\<rparr>) is (map in_vout is) = is"
  by (induction "is") auto

lemma set_vouts_facts:
  assumes "length vs = length (tx_inputs t)"
  shows "tx_ok (set_vouts t vs) = tx_ok t" "offsets_of (set_vouts t vs) = offsets_of t"
    "length (tx_bytes (set_vouts t vs)) = length (tx_bytes t)"
    "map (op_index \<circ> input_outpoint) (tx_inputs (set_vouts t vs)) = vs"
    "length ws = length (tx_inputs t) \<Longrightarrow> set_vouts (set_vouts t vs) ws = set_vouts t ws"
    "set_vouts t (map in_vout (tx_inputs t)) = t"
proof -
  have len: "length (input_bytes (i\<lparr>in_vout := v\<rparr>)) = length (input_bytes i)" for i v by (simp add: input_bytes_def)
  have off: "vout_offsets k (map2 (\<lambda>i v. i\<lparr>in_vout := v\<rparr>) is vs) = vout_offsets k is" if "length vs = length is" for k and "is" :: "tx_input list"
    using that by (induction "is" vs arbitrary: k rule: list_induct2') (auto simp: len)
  have concat_len: "length (concat (map input_bytes (map2 (\<lambda>i v. i\<lparr>in_vout := v\<rparr>) is vs))) = length (concat (map input_bytes is))"
    if "length vs = length is" for "is" :: "tx_input list" using that by (induction "is" vs rule: list_induct2') (auto simp: len)
  have ok: "(\<forall>i \<in> set (map2 (\<lambda>i v. i\<lparr>in_vout := v\<rparr>) is vs). input_ok i) \<longleftrightarrow> (\<forall>i \<in> set is. input_ok i)" if "length vs = length is" for "is" :: "tx_input list"
    using that by (induction "is" vs rule: list_induct2') (auto simp: input_ok_def)
  have "map2 (\<lambda>i v. i\<lparr>in_vout := v\<rparr>) (tx_inputs t) vs = [] \<longleftrightarrow> tx_inputs t = []" using assms by (cases "tx_inputs t"; cases vs) auto
  then show "tx_ok (set_vouts t vs) = tx_ok t" using assms ok [OF assms] by (simp add: tx_ok_def set_vouts_def)
  show "offsets_of (set_vouts t vs) = offsets_of t" using off [OF assms] assms by (simp add: offsets_of_def set_vouts_def marker_def)
  show "length (tx_bytes (set_vouts t vs)) = length (tx_bytes t)"
    using concat_len [OF assms] assms by (simp add: tx_bytes_def body_bytes_def set_vouts_def marker_def witness_bytes_def del: length_concat)
  have "map (op_index \<circ> input_outpoint) (map2 (\<lambda>i v. i\<lparr>in_vout := v\<rparr>) is vs) = vs" if "length vs = length is" for "is" :: "tx_input list"
    using that by (induction "is" vs rule: list_induct2') (auto simp: input_outpoint_def)
  then show "map (op_index \<circ> input_outpoint) (tx_inputs (set_vouts t vs)) = vs" using assms by (simp add: set_vouts_def)
  have "map2 (\<lambda>i v. i\<lparr>in_vout := v\<rparr>) (map2 (\<lambda>i v. i\<lparr>in_vout := v\<rparr>) is vs) ws = map2 (\<lambda>i v. i\<lparr>in_vout := v\<rparr>) is ws"
    if "length vs = length is" "length ws = length is" for "is" :: "tx_input list"
    using that by (induction "is" arbitrary: vs ws) (auto simp: length_Suc_conv)
  then show "length ws = length (tx_inputs t) \<Longrightarrow> set_vouts (set_vouts t vs) ws = set_vouts t ws" using assms by (simp add: set_vouts_def)
  show "set_vouts t (map in_vout (tx_inputs t)) = t" by (simp add: set_vouts_def map2_in_vout)
qed

section \<open>Preparation and message\<close>

lemma Create_Ok:
  assumes "Create tx pf leaves N = Ok prep"
  shows "length leaves = length (m_inputs tx)" "length (targets pf) \<le> MAX_INPUTS" "length (hashes pf) \<le> MAX_HASHES"
    "\<forall>i \<in> set (m_inputs tx). op_index i \<le> 0x7fffffff" "\<forall>l \<in> set leaves. \<forall>leaf. l = Some leaf \<longrightarrow> (\<exists>n. LeafBytes leaf = Ok n)"
    "length (filter (\<lambda>l. l \<noteq> None) leaves) = length (targets pf)"
    "\<exists>ps. NativeProofPositions pf N = Ok ps \<and>
      prep = \<lparr>prep_transaction = tx, prep_proof = pf\<lparr>targets := map (\<lambda>t. WirePosition t (TreeRows N)) (targets pf)\<rparr>,
        prep_leaves = leaves, prep_positions = map (\<lambda>p. WirePosition p (TreeRows N)) ps,
        base_payload_bytes = length (m_bytes tx) + length (AppendCompactSize (of_nat (length (targets pf)))) +
          length (concat (map (case_option [] leaf_wire) leaves)) +
          length (concat (map AppendCompactSize (map (\<lambda>t. WirePosition t (TreeRows N)) (targets pf))))\<rparr>"
proof -
  have rows: "(if N = 0 then 0 else bit_width (N - 1)) = TreeRows N" by (simp add: TreeRows_def bit_width_def)
  have sum: "sum_list (map (unat \<circ> CompactSizeBytes) xs) = length (concat (map AppendCompactSize xs))" for xs
    by (induction xs) (auto simp: length_AppendCompactSize)
  obtain c b ps where r: "length leaves = length (m_inputs tx)" "length (targets pf) \<le> MAX_INPUTS" "length (hashes pf) \<le> MAX_HASHES"
      "measure_leaves (m_inputs tx) leaves 0 (length (m_bytes tx) + unat (CompactSizeBytes (of_nat (length (targets pf))))) = Ok (c, b)"
      "c = length (targets pf)" "NativeProofPositions pf N = Ok ps"
      "prep = \<lparr>prep_transaction = tx, prep_proof = pf\<lparr>targets := map (\<lambda>t. WirePosition t (TreeRows N)) (targets pf)\<rparr>,
        prep_leaves = leaves, prep_positions = map (\<lambda>p. WirePosition p (TreeRows N)) ps,
        base_payload_bytes = b + length (concat (map AppendCompactSize (map (\<lambda>t. WirePosition t (TreeRows N)) (targets pf))))\<rparr>"
    using assms unfolding Create_def rows Let_def sum by (auto simp: result_simps split: if_splits)
  note m = measure_leaves_Ok [OF r(4) r(1) [symmetric]]
  show "length leaves = length (m_inputs tx)" "length (targets pf) \<le> MAX_INPUTS" "length (hashes pf) \<le> MAX_HASHES" by fact+
  show "\<forall>i \<in> set (m_inputs tx). op_index i \<le> 0x7fffffff" "\<forall>l \<in> set leaves. \<forall>leaf. l = Some leaf \<longrightarrow> (\<exists>n. LeafBytes leaf = Ok n)"
    by (fact m)+
  show "length (filter (\<lambda>l. l \<noteq> None) leaves) = length (targets pf)" using m(3) r(5) by simp
  show "\<exists>ps. NativeProofPositions pf N = Ok ps \<and>
      prep = \<lparr>prep_transaction = tx, prep_proof = pf\<lparr>targets := map (\<lambda>t. WirePosition t (TreeRows N)) (targets pf)\<rparr>,
        prep_leaves = leaves, prep_positions = map (\<lambda>p. WirePosition p (TreeRows N)) ps,
        base_payload_bytes = length (m_bytes tx) + length (AppendCompactSize (of_nat (length (targets pf)))) +
          length (concat (map (case_option [] leaf_wire) leaves)) +
          length (concat (map AppendCompactSize (map (\<lambda>t. WirePosition t (TreeRows N)) (targets pf))))\<rparr>"
    using r(6,7) m(4) by (auto simp: length_AppendCompactSize)
qed

lemma read_targets_wire:
  "PADDING \<notin> set ts \<Longrightarrow> read_targets (length ts) (concat (map AppendCompactSize ts) @ rest) = Ok (ts, rest)"
proof (induction ts)
  case (Cons t ts)
  have "CompactSize (AppendCompactSize t @ concat (map AppendCompactSize ts) @ rest) = Some (t, concat (map AppendCompactSize ts) @ rest)"
    by (simp add: CompactSize_iff)
  then show ?case using Cons by auto
qed simp

lemma count_limits:
  "length xs \<le> MAX_INPUTS \<Longrightarrow> unat (of_nat (length xs) :: u64) = length xs"
  "length ys \<le> MAX_HASHES \<Longrightarrow> unat (of_nat (length ys) :: u64) = length ys"
  by (auto intro!: unat_of_fits simp: fits_def MAX_INPUTS_def MAX_HASHES_def MAX_TX_PAYLOAD_def)

lemma read_proof_wire:
  assumes "length ts \<le> MAX_INPUTS" "length hs \<le> MAX_HASHES" "PADDING \<notin> set ts"
  shows "read_proof (AppendCompactSize (of_nat (length ts)) @ concat (map AppendCompactSize ts) @
      AppendCompactSize (of_nat (length hs)) @ concat (map Bytes hs) @ rest) = Ok (\<lparr>targets = ts, hashes = hs\<rparr>, rest)"
proof -
  let ?b3 = "concat (map Bytes hs) @ rest"
  let ?b2 = "AppendCompactSize (of_nat (length hs)) @ ?b3"
  let ?b1 = "concat (map AppendCompactSize ts) @ ?b2"
  have c: "CompactSize (AppendCompactSize (of_nat (length ts)) @ ?b1) = Some (of_nat (length ts), ?b1)"
    "CompactSize ?b2 = Some (of_nat (length hs), ?b3)" by (simp_all add: CompactSize_iff)
  have "1 * length ts \<le> length (concat (map AppendCompactSize ts))" by (rule length_concat_ge) (simp add: Suc_le_eq)
  then have l1: "length ts \<le> length ?b1" by simp
  have "32 * length hs \<le> length (concat (map Bytes hs))" by (rule length_concat_ge) simp
  then have l2: "length hs \<le> length ?b3 div 32" by simp
  have h: "read_many (length hs) ReadHash ?b3 = Some (hs, rest)" by (simp add: hashes.read_many_enc)
  show ?thesis
    unfolding read_proof_def c(1) using c(2) l1 l2 h read_targets_wire [OF assms(3), of ?b2] count_limits(1) [OF assms(1)] count_limits(2) [OF assms(2)] assms(1,2)
    by (simp del: length_append length_concat)
qed

lemma lower_bound_map_of:
  assumes "holds_position ps pos" "length hs = length ps"
  shows "map_of (zip ps hs) pos = Some (hs ! lower_bound ps pos)"
  using assms
proof (induction ps arbitrary: hs)
  case (Cons p ps)
  then obtain h hs' where "hs = h # hs'" "length hs' = length ps" by (cases hs) auto
  then show ?case using Cons by (auto simp: holds_position_def lower_bound_def split: if_splits)
qed (simp add: holds_position_def)

lemma Measure_Ok:
  assumes "Measure prep request mx = Ok n"
  shows "n = base_payload_bytes prep + length (AppendCompactSize (of_nat (length (group_positions request)))) + length (group_positions request) * 32"
    "n \<le> min (unat mx) MAX_TX_PAYLOAD" "length (group_positions request) \<le> length (prep_positions prep)"
    "\<forall>pos \<in> set (group_positions request). holds_position (prep_positions prep) pos"
  using assms by (auto simp: Measure_def Let_def length_AppendCompactSize not_less split: if_splits)

lemma parse_flagged_tx:
  assumes "tx_ok t" "length vs = length (tx_inputs t)"
  defines "t' \<equiv> set_vouts t vs"
  shows "ScanTransaction (tx_bytes t' @ rest) = Ok (layout_of t', map input_outpoint (tx_inputs t'), offsets_of t)"
    "ScanTransaction (tx_bytes t') = Ok (layout_of t', map input_outpoint (tx_inputs t'), offsets_of t)"
    "layout_size (layout_of t') = length (tx_bytes t')"
    "ws = map in_vout (tx_inputs t) \<Longrightarrow> write_vouts 0 (zip (offsets_of t) ws) (tx_bytes t') = tx_bytes t"
proof -
  note f = set_vouts_facts [OF assms(2)]
  have ok: "tx_ok t'" using f(1) assms(1) by (simp add: t'_def)
  show "ScanTransaction (tx_bytes t' @ rest) = Ok (layout_of t', map input_outpoint (tx_inputs t'), offsets_of t)"
    "ScanTransaction (tx_bytes t') = Ok (layout_of t', map input_outpoint (tx_inputs t'), offsets_of t)"
    using ScanTransaction_complete [OF ok, of rest] ScanTransaction_complete [OF ok, of "[]"] f(2) by (simp_all add: t'_def)
  show "layout_size (layout_of t') = length (tx_bytes t')" by (simp add: layout_of_def)
  assume ws: "ws = map in_vout (tx_inputs t)"
  have "length (tx_inputs t') = length (tx_inputs t)" using assms(2) by (simp add: t'_def set_vouts_def)
  then show "write_vouts 0 (zip (offsets_of t) ws) (tx_bytes t') = tx_bytes t"
    using write_vouts_tx [OF ok, of ws "[]"] f(2) f(5) [of ws] f(6) ws by (simp add: t'_def)
qed

lemma length_concat_Bytes: "length (concat (map Bytes hs)) = 32 * length hs"
  by (induction hs) auto

lemma flagged_inputs:
  assumes "length leaves = length (tx_inputs t)" "\<forall>i \<in> set (tx_inputs t). in_vout i \<le> 0x7fffffff"
    and "inputs = map input_outpoint (tx_inputs (set_vouts t (map2 flagged (map input_outpoint (tx_inputs t)) leaves)))"
  shows "list_all2 (\<lambda>i l. op_index i AND 1 \<noteq> 0 \<longleftrightarrow> l = None) inputs leaves"
    "map (\<lambda>i. drop_bit 1 (op_index i)) inputs = map in_vout (tx_inputs t)"
proof -
  let ?vs = "map2 flagged (map input_outpoint (tx_inputs t)) leaves"
  have lv: "length ?vs = length (tx_inputs t)" using assms(1) by simp
  have vs: "map op_index inputs = ?vs" using set_vouts_facts(4) [OF lv] assms(3) by simp
  have len: "length inputs = length leaves" using arg_cong [OF vs, of length] assms(1) by simp
  have nth: "op_index (inputs ! k) = flagged (input_outpoint (tx_inputs t ! k)) (leaves ! k)"
      "op_index (input_outpoint (tx_inputs t ! k)) \<le> 0x7fffffff" if "k < length leaves" for k
    using that arg_cong [OF vs, of "\<lambda>xs. xs ! k"] len assms(1,2) by (simp_all add: input_outpoint_def)
  show "list_all2 (\<lambda>i l. op_index i AND 1 \<noteq> 0 \<longleftrightarrow> l = None) inputs leaves"
    using len nth flagged_bits(1) by (simp add: list_all2_conv_all_nth)
  show "map (\<lambda>i. drop_bit 1 (op_index i)) inputs = map in_vout (tx_inputs t)"
    using len assms(1) nth flagged_bits(2) by (simp add: list_eq_iff_nth_eq) (simp add: input_outpoint_def)
qed

lemma confirmed_count:
  "list_all2 (\<lambda>i l. op_index i AND 1 \<noteq> 0 \<longleftrightarrow> l = None) inputs leaves \<Longrightarrow>
   length (filter (\<lambda>i. op_index i AND 1 = 0) inputs) = length (filter (\<lambda>l. l \<noteq> None) leaves)"
  by (induction inputs leaves rule: list_all2_induct) auto

lemma leaves_wire_length: "13 * length (filter (\<lambda>l. l \<noteq> None) leaves) \<le> length (concat (map (case_option [] leaf_wire) leaves))"
  by (induction leaves) (auto simp: leaf_wire_def split: option.splits)

text \<open>The message after its proof: the flagged transaction and the leaves are read back.\<close>

lemma parse_tail:
  assumes t: "tx_ok t" "length (tx_bytes t) \<le> MAX_TX_PAYLOAD" and tx: "Transaction_Parse (tx_bytes t) m = Ok tx"
    and leaves: "length leaves = length (tx_inputs t)" "\<forall>i \<in> set (tx_inputs t). in_vout i \<le> 0x7fffffff"
      "\<forall>l \<in> set leaves. \<forall>leaf. l = Some leaf \<longrightarrow> (\<exists>n. LeafBytes leaf = Ok n)"
    and pf: "length (filter (\<lambda>l. l \<noteq> None) leaves) = length (targets pf)" "UniquePositions (targets pf)" "targets pf = [] \<Longrightarrow> hashes pf = []"
    and payload: "length payload \<le> min (unat mx) MAX_TX_PAYLOAD" "read_proof payload =
      Ok (pf, tx_bytes (set_vouts t (map2 flagged (map input_outpoint (tx_inputs t)) leaves)) @ concat (map (case_option [] leaf_wire) leaves))"
  shows "ParseUtreexoTransaction payload mx = Ok \<lparr>dec_transaction = tx, dec_proof = pf, dec_leaves = leaves\<rparr>"
proof -
  define vs where "vs = map2 flagged (map input_outpoint (tx_inputs t)) leaves"
  define t' where "t' = set_vouts t vs"
  define inputs where "inputs = map input_outpoint (tx_inputs t')"
  let ?leaves = "concat (map (case_option [] leaf_wire) leaves)"
  have lv: "length vs = length (tx_inputs t)" using leaves(1) by (simp add: vs_def)
  note scan = parse_flagged_tx [OF t(1) lv, folded t'_def inputs_def]
  note fl = flagged_inputs [OF leaves(1,2), folded vs_def, folded t'_def, OF inputs_def]
  have confirmed: "length (filter (\<lambda>i. op_index i AND 1 = 0) inputs) = length (targets pf)" using confirmed_count [OF fl(1)] pf(1) by simp
  have l13: "length (targets pf) \<le> length ?leaves div 13" using leaves_wire_length [of leaves] pf(1) by simp
  have reparse: "Transaction_Parse (tx_bytes t) (of_nat MAX_TX_PAYLOAD) = Ok tx"
    using tx t(2) unfolding Transaction_Parse_iff by (auto simp: MAX_TX_PAYLOAD_def)
  have "write_vouts 0 (zip (offsets_of t) (map (\<lambda>i. drop_bit 1 (op_index i)) inputs)) (tx_bytes t') = tx_bytes t"
    using scan(4) fl(2) by simp
  moreover have "read_leaves inputs ?leaves = Ok (leaves, [])" using read_leaves_wire [OF fl(1) leaves(3), of "[]"] by simp
  moreover have "Skip (length (tx_bytes t')) (tx_bytes t' @ ?leaves) = Some ((), ?leaves)" by (simp add: Skip_def)
  ultimately show ?thesis
    using payload pf(2,3) scan(1) [of ?leaves] scan(2,3) confirmed l13 reparse
    by (auto simp: ParseUtreexoTransaction_def vs_def [symmetric] t'_def [symmetric] not_less simp del: length_concat)
qed

lemma Parse_Serialize:
  assumes parse: "Transaction_Parse raw m = Ok tx" and create: "Create tx pf leaves N = Ok prep"
    and ser: "Prepared_Serialize prep request mx = Ok payload"
  shows "ParseUtreexoTransaction payload mx =
    Ok \<lparr>dec_transaction = tx,
        dec_proof = \<lparr>targets = map (\<lambda>t. WirePosition t (TreeRows N)) (targets pf),
                     hashes = map (\<lambda>pos. the (map_of (zip (prep_positions prep) (hashes pf)) pos)) (group_positions request)\<rparr>,
        dec_leaves = leaves\<rparr>" (is ?decoded)
    and "Measure prep request mx = Ok (length payload)"
proof -
  obtain t where t: "tx_ok t" "raw = tx_bytes t" "length raw \<le> MAX_TX_PAYLOAD" and tx: "m_bytes tx = raw" "m_inputs tx = map input_outpoint (tx_inputs t)"
      "m_vout_offsets tx = offsets_of t"
    using parse unfolding Transaction_Parse_iff by auto
  note c = Create_Ok [OF create]
  let ?ts = "map (\<lambda>t. WirePosition t (TreeRows N)) (targets pf)" and ?pos = "group_positions request"
  let ?leaves = "concat (map (case_option [] leaf_wire) leaves)"
  obtain ps where ps: "NativeProofPositions pf N = Ok ps" and prep: "prep_transaction prep = tx"
      "prep_proof prep = pf\<lparr>targets := ?ts\<rparr>" "prep_leaves prep = leaves"
      "prep_positions prep = map (\<lambda>p. WirePosition p (TreeRows N)) ps"
      "base_payload_bytes prep = length raw + length (AppendCompactSize (of_nat (length (targets pf)))) +
         length ?leaves + length (concat (map AppendCompactSize ?ts))"
    using c(7) tx(1) by auto
  obtain n where meas: "Measure prep request mx = Ok n" using ser by (auto simp: Prepared_Serialize_def result_simps)
  note ms = Measure_Ok [OF meas] and nt = Native_targets [OF ps] and ut = wire_targets [OF ps]
  define hs where "hs = map (\<lambda>pos. the (map_of (zip (prep_positions prep) (hashes pf)) pos)) ?pos"
  define t' where "t' = set_vouts t (map2 flagged (map input_outpoint (tx_inputs t)) leaves)"
  have lv: "length (map2 flagged (map input_outpoint (tx_inputs t)) leaves) = length (tx_inputs t)" using c(1) tx(2) by simp
  have hs: "hs = map (\<lambda>pos. hashes pf ! lower_bound (prep_positions prep) pos) ?pos" "length hs = length ?pos"
    using ms(4) lower_bound_map_of [of "prep_positions prep" _ "hashes pf"] nt(5) prep(4) by (auto simp: hs_def)
  define front where "front = AppendCompactSize (of_nat (length ?ts)) @ concat (map AppendCompactSize ?ts) @
      AppendCompactSize (of_nat (length hs)) @ concat (map Bytes hs)"
  have front: "proof_wire prep request = front" unfolding proof_wire_def front_def hs by (simp add: prep o_def)
  have payload: "payload = front @ tx_bytes t' @ ?leaves"
    using ser meas write_vouts_tx [OF t(1) lv, of front] t(2) tx by (simp add: Prepared_Serialize_def front prep(1,3) t'_def)
  have n: "n = length payload" unfolding payload front_def
    using ms(1) prep(5) set_vouts_facts(3) [OF lv] t(2) hs(2) by (simp add: length_concat_Bytes t'_def del: length_concat)
  then show "Measure prep request mx = Ok (length payload)" using meas by simp
  have "PADDING \<notin> set ?ts" "length hs \<le> MAX_HASHES" using ut ms(3) prep(4) nt(5) c(3) hs(2) by (simp_all add: UniquePositions_def)
  then have rp: "read_proof payload = Ok (\<lparr>targets = ?ts, hashes = hs\<rparr>, tx_bytes t' @ ?leaves)"
    unfolding payload front_def using read_proof_wire [of ?ts hs] c(2) by simp
  have "targets pf = [] \<Longrightarrow> hs = []" using nt(4) ms(3) prep(4) by (simp add: hs_def)
  then show ?decoded
    unfolding hs_def [symmetric] using t parse c(1,4,5,6) ut ms(2) n rp tx(2)
    by (intro parse_tail [of t m]) (auto simp: t'_def input_outpoint_def)
qed

section \<open>Properties\<close>

text \<open>C17: A \<open>utreexotx\<close> message decodes to what was prepared: for a parsed transaction, a proof and leaves that
  \<open>Create\<close> accepts, the message serialised for a request is exactly as long as \<open>Measure\<close> says and
  \<open>ParseUtreexoTransaction\<close> gets back the same transaction (its flagged outpoints restored, hence its
  bytes, ids and inputs), the targets in wire numbering, for every requested position the hash the proof
  has there, and the leaves of the confirmed inputs.\<close>

theorem utreexotx_roundtrip:
  assumes "Transaction_Parse raw m = Ok tx" "Create tx pf leaves N = Ok prep" "Prepared_Serialize prep request mx = Ok payload"
  shows "ParseUtreexoTransaction payload mx =
      Ok \<lparr>dec_transaction = tx,
          dec_proof = \<lparr>targets = map (\<lambda>t. WirePosition t (TreeRows N)) (targets pf),
                       hashes = map (\<lambda>pos. the (map_of (zip (prep_positions prep) (hashes pf)) pos)) (group_positions request)\<rparr>,
          dec_leaves = leaves\<rparr> \<and>
    Measure prep request mx = Ok (length payload)"
  using Parse_Serialize [OF assms] by blast

definition example_tx :: tx_fields where
  "example_tx =
     \<lparr>tx_version = [1, 0, 0, 0],
      tx_inputs = [\<lparr>in_txid = null_hash, in_vout = 5, in_script = [], in_sequence = [0, 0, 0, 0]\<rparr>],
      tx_outputs = [([1, 0, 0, 0, 0, 0, 0, 0], [81])], tx_witness = None, tx_locktime = [0, 0, 0, 0]\<rparr>"

definition example_leaf :: CompactLeafData where
  "example_leaf = \<lparr>header_code = 2, amount = 1, script_type = OTHER, compact_script = [81]\<rparr>"

definition example_proof :: Proof where
  "example_proof = \<lparr>targets = [0], hashes = [null_hash]\<rparr>"

theorem utreexotx_roundtrip_witness:
  "\<exists>tx prep payload. Transaction_Parse (tx_bytes example_tx) 1000 = Ok tx \<and> op_index (hd (m_inputs tx)) = 5 \<and>
     Create tx example_proof [Some example_leaf] 2 = Ok prep \<and>
     Prepared_Serialize prep \<lparr>group_txid = m_txid tx, inventory_type = MSG_UTREEXO_TX, group_positions = [1]\<rparr> 1000 = Ok payload \<and>
     ParseUtreexoTransaction payload 1000 =
       Ok \<lparr>dec_transaction = tx, dec_proof = example_proof, dec_leaves = [Some example_leaf]\<rparr>"
proof -
  have ok: "tx_ok example_tx" by (simp add: tx_ok_def example_tx_def fits_def input_ok_def output_ok_def MAX_INPUTS_def MAX_TX_PAYLOAD_def)
  have len: "length (tx_bytes example_tx) = 61"
    by (simp add: tx_bytes_def body_bytes_def example_tx_def input_bytes_def output_bytes_def sized_def AppendCompactSize_def marker_def witness_bytes_def)
  obtain tx where tx: "Transaction_Parse (tx_bytes example_tx) 1000 = Ok tx" "m_bytes tx = tx_bytes example_tx"
      "m_inputs tx = [\<lparr>op_txid = null_hash, op_index = 5\<rparr>]"
  proof
    let ?tx = "\<lparr>m_bytes = tx_bytes example_tx, m_inputs = map input_outpoint (tx_inputs example_tx), m_vout_offsets = offsets_of example_tx,
      m_txid = DoubleSha256 (tx_bytes (example_tx\<lparr>tx_witness := None\<rparr>)), m_wtxid = DoubleSha256 (tx_bytes example_tx),
      m_has_witness = (tx_witness example_tx \<noteq> None)\<rparr>"
    show "Transaction_Parse (tx_bytes example_tx) 1000 = Ok ?tx" unfolding Transaction_Parse_iff using ok len by (auto simp: MAX_TX_PAYLOAD_def)
    show "m_inputs ?tx = [\<lparr>op_txid = null_hash, op_index = 5\<rparr>]" by (simp add: example_tx_def input_outpoint_def)
  qed simp
  have rows: "bit_width (2 - 1) = 1" "WirePosition 0 1 = 0" "WirePosition 1 1 = 1" by code_simp+
  have nat: "NativeProofPositions example_proof 2 = Ok [1]"
  proof -
    have "target_intervals 2 1 [0] = Ok [(0, 0)]" by code_simp
    moreover have "merged_rows 2 1 0 [0] = [1]" by code_simp
    ultimately show ?thesis
      using rows(1) by (simp add: NativeProofPositions_def merge_rows_merged sort_pairs_def MAX_HASHES_def MAX_TX_PAYLOAD_def example_proof_def)
  qed
  have leaf: "LeafBytes example_leaf = Ok 15" by (simp add: LeafBytes_def example_leaf_def MAX_SCRIPT_BYTES_def CompactSizeBytes_def)
  obtain prep where prep: "Create tx example_proof [Some example_leaf] 2 = Ok prep"
      "prep_transaction prep = tx" "prep_positions prep = [1]" "base_payload_bytes prep = 78"
  proof
    let ?prep = "\<lparr>prep_transaction = tx, prep_proof = example_proof, prep_leaves = [Some example_leaf], prep_positions = [1], base_payload_bytes = 78\<rparr>"
    show "Create tx example_proof [Some example_leaf] 2 = Ok ?prep"
      using nat tx(2,3) len rows leaf
      by (auto simp: Create_def example_proof_def MAX_INPUTS_def MAX_HASHES_def MAX_TX_PAYLOAD_def CompactSizeBytes_def drop_bit_eq_div Let_def)
  qed simp_all
  let ?req = "\<lparr>group_txid = m_txid tx, inventory_type = MSG_UTREEXO_TX, group_positions = [1]\<rparr>"
  have "Measure prep ?req 1000 = Ok 111"
    using prep(2-4) by (simp add: Measure_def IsRequestType_def CompactSizeBytes_def MAX_TX_PAYLOAD_def holds_position_def lower_bound_def
      UniquePositions_def PADDING_def)
  then obtain payload where ser: "Prepared_Serialize prep ?req 1000 = Ok payload" by (auto simp: Prepared_Serialize_def Let_def)
  have R: "TreeRows 2 = 1" by code_simp
  have "ParseUtreexoTransaction payload 1000 = Ok \<lparr>dec_transaction = tx, dec_proof = example_proof, dec_leaves = [Some example_leaf]\<rparr>"
    using utreexotx_roundtrip [OF tx(1) prep(1) ser] prep(3) rows by (simp add: R example_proof_def)
  then show ?thesis using tx prep(1) ser by auto
qed

end
