(* ===== verification/TransactionCache.thy ===== *)
theory TransactionCache
  imports TransactionProof "HOL-Library.Sublist"
begin

unbundle bit_operations_syntax

text \<open>
  The cache of prepared transaction proofs (\<^verbatim>\<open>src/src/transaction_cache.cpp\<close>). Every public method holds
  the mutex of the cache from its first access to its last, apart from \<open>WaitFor\<close>, which releases it
  while it waits: it is two steps here, before and after the wait, and any other step may come
  between them. The heap of \<open>Regeneration\<close> jobs is explicit, because a waiting thread keeps its job
  alive after the cache dropped it. \<open>std::map\<close> is an association list, sorted by key where the code
  iterates. The clock is an argument (the time of each reading), as is the memory cost of an entry
  (\<open>MemoryUsage()\<close> reads vector capacities, which the language leaves open). Allocation failures are
  not modelled. Where the code reads \<open>entries\<close> at a sequence number of the index and the number might be
  missing, the operations here return nothing or do nothing; the invariant \<open>indexed\<close> shows that it is
  never missing.
\<close>

section \<open>State\<close>

record ChainPoint =
  height :: u32
  point_hash :: hash256

record TransactionCacheConfig =
  max_entries :: u32
  max_bytes :: u64
  lifetime :: int
  max_regenerations :: u32

record TransactionCacheStats =
  st_entries :: u64
  st_bytes :: u64
  published :: u64
  evicted :: u64
  expired :: u64
  oversized :: u64
  invalidations :: u64
  epoch :: u64
  ready :: bool
  regeneration_queued :: u64
  regeneration_coalesced :: u64
  regenerated :: u64
  regeneration_misses :: u64
  regeneration_pending :: u64

record TransactionProofIdentity =
  id_epoch :: u64
  digest :: hash256

record TransactionRegenerationRequest =
  req_txid :: hash256
  req_identity :: TransactionProofIdentity

record PreparedTransactionEntry =
  entry_point :: ChainPoint
  entry_sequence :: u64
  entry_proof :: PreparedTransactionProof
  expires :: int
  entry_bytes :: u64
  entry_identity :: TransactionProofIdentity

record TransactionAnnouncementEntry =
  ann_sequence :: u64
  announcement :: InvGroup
  ann_identity :: TransactionProofIdentity

record Regeneration =
  job_request :: TransactionRegenerationRequest
  waiters :: u32
  running :: bool
  job_done :: bool
  job_result :: "PreparedTransactionEntry option"

record cache =
  config :: TransactionCacheConfig
  anchor :: "ChainPoint option"
  sequence_no :: u64
  stats :: TransactionCacheStats
  entries :: "(u64 \<times> PreparedTransactionEntry) list"
  by_txid :: "hash256 \<rightharpoonup> u64"
  jobs :: "nat \<Rightarrow> Regeneration"
  next_job :: nat
  regeneration :: "(TransactionRegenerationRequest \<times> nat) list"
  pending :: "TransactionRegenerationRequest list"

definition entry_txid :: "PreparedTransactionEntry \<Rightarrow> hash256" where
  "entry_txid e = m_txid (prep_transaction (entry_proof e))"

definition config_ok :: "TransactionCacheConfig \<Rightarrow> bool" where
  "config_ok cfg \<longleftrightarrow> max_entries cfg \<noteq> 0 \<and> max_bytes cfg \<noteq> 0 \<and> lifetime cfg > 0 \<and> lifetime cfg \<le> 86400 \<and>
     max_regenerations cfg \<noteq> 0 \<and> max_regenerations cfg \<le> 128"

definition no_stats :: TransactionCacheStats where
  "no_stats = \<lparr>st_entries = 0, st_bytes = 0, published = 0, evicted = 0, expired = 0, oversized = 0, invalidations = 0,
     epoch = 0, ready = False, regeneration_queued = 0, regeneration_coalesced = 0, regenerated = 0,
     regeneration_misses = 0, regeneration_pending = 0\<rparr>"

definition new_cache :: "TransactionCacheConfig \<Rightarrow> cache Result" where
  "new_cache settings =
     (if \<not> config_ok settings then Throw ''invalid transaction proof cache bounds''
      else Ok \<lparr>config = settings, anchor = None, sequence_no = 0, stats = no_stats, entries = [], by_txid = Map.empty,
        jobs = (\<lambda>_. \<lparr>job_request = \<lparr>req_txid = null_hash, req_identity = \<lparr>id_epoch = 0, digest = null_hash\<rparr>\<rparr>,
                   waiters = 0, running = False, job_done = True, job_result = None\<rparr>),
        next_job = 0, regeneration = [], pending = []\<rparr>)"

section \<open>Private operations\<close>

definition erase_entry :: "u64 \<times> PreparedTransactionEntry \<Rightarrow> cache \<Rightarrow> cache" where
  "erase_entry x c =
     c\<lparr>stats := (stats c)\<lparr>st_bytes := st_bytes (stats c) - entry_bytes (snd x)\<rparr>,
       by_txid := (by_txid c)(entry_txid (snd x) := None),
       entries := filter (\<lambda>y. fst y \<noteq> fst x) (entries c)\<rparr>"

text \<open>Erasing at the iterator found for a sequence number.\<close>

definition erase_sequence :: "u64 \<Rightarrow> cache \<Rightarrow> cache" where
  "erase_sequence k c = (case map_of (entries c) k of None \<Rightarrow> c | Some e \<Rightarrow> erase_entry (k, e) c)"

function Expire :: "int \<Rightarrow> cache \<Rightarrow> cache" where
  "Expire now c =
     (case entries c of
        [] \<Rightarrow> c
      | x # _ \<Rightarrow>
          if expires (snd x) \<le> now
          then let c1 = erase_entry x c in Expire now (c1\<lparr>stats := (stats c1)\<lparr>expired := expired (stats c1) + 1\<rparr>\<rparr>)
          else c)"
  by pat_completeness auto
termination
  by (relation "measure (\<lambda>(now, c). length (entries c))") (auto simp: erase_entry_def less_Suc_eq_le)

declare Expire.simps [simp del]

definition Match :: "TransactionRegenerationRequest \<Rightarrow> int \<Rightarrow> cache \<Rightarrow> PreparedTransactionEntry option \<times> cache" where
  "Match request now c =
     (let c1 = Expire now c
      in if \<not> ready (stats c1) \<or> epoch (stats c1) \<noteq> id_epoch (req_identity request) then (None, c1)
         else case by_txid c1 (req_txid request) of
                None \<Rightarrow> (None, c1)
              | Some k \<Rightarrow>
                  (case map_of (entries c1) k of
                     None \<Rightarrow> (None, c1)
                   | Some e \<Rightarrow> (if entry_identity e = req_identity request then Some e else None, c1)))"

definition finish_job :: "Regeneration \<Rightarrow> Regeneration" where
  "finish_job job = job\<lparr>job_done := True, job_result := None\<rparr>"

definition Clear :: "cache \<Rightarrow> cache" where
  "Clear c =
     c\<lparr>entries := [], by_txid := Map.empty,
       stats := (stats c)\<lparr>st_bytes := 0, ready := False, epoch := epoch (stats c) + 1,
                         invalidations := invalidations (stats c) + 1\<rparr>,
       anchor := None,
       jobs := (\<lambda>j. if j \<in> snd ` set (regeneration c) then finish_job (jobs c j) else jobs c j),
       regeneration := [], pending := []\<rparr>"

section \<open>Public operations\<close>

definition Invalidate :: "cache \<Rightarrow> cache" where
  "Invalidate c = Clear c"

definition Activate :: "ChainPoint \<Rightarrow> cache \<Rightarrow> cache" where
  "Activate point c =
     (let c1 = (if anchor c \<noteq> None \<and> anchor c \<noteq> Some point then Clear c else c)
      in c1\<lparr>anchor := Some point, stats := (stats c1)\<lparr>ready := True\<rparr>\<rparr>)"

definition proof_digest :: "PreparedTransactionProof \<Rightarrow> byte list \<Rightarrow> hash256" where
  "proof_digest prep encoded = ParentHash (Sha256 encoded) (Sha256 (concat (map Bytes (hashes (prep_proof prep)))))"

function evict :: "u64 \<Rightarrow> cache \<Rightarrow> cache" where
  "evict bytes c =
     (case entries c of
        [] \<Rightarrow> c
      | x # _ \<Rightarrow>
          if length (entries c) \<ge> unat (max_entries (config c)) \<or> bytes > max_bytes (config c) - st_bytes (stats c)
          then let c1 = erase_entry x c in evict bytes (c1\<lparr>stats := (stats c1)\<lparr>evicted := evicted (stats c1) + 1\<rparr>\<rparr>)
          else c)"
  by pat_completeness auto
termination
  by (relation "measure (\<lambda>(bytes, c). length (entries c))") (auto simp: erase_entry_def less_Suc_eq_le)

declare evict.simps [simp del]

definition new_entry :: "ChainPoint \<Rightarrow> PreparedTransactionProof \<Rightarrow> int \<Rightarrow> u64 \<Rightarrow> hash256 \<Rightarrow> cache \<Rightarrow> PreparedTransactionEntry" where
  "new_entry point prep now bytes d c =
     \<lparr>entry_point = point, entry_sequence = sequence_no c + 1, entry_proof = prep, expires = now + lifetime (config c),
      entry_bytes = bytes, entry_identity = \<lparr>id_epoch = epoch (stats c), digest = d\<rparr>\<rparr>"

definition add_entry :: "ChainPoint \<Rightarrow> PreparedTransactionProof \<Rightarrow> int \<Rightarrow> u64 \<Rightarrow> hash256 \<Rightarrow> cache \<Rightarrow> cache" where
  "add_entry point prep now bytes d c =
     (let k = sequence_no c + 1;
          e = new_entry point prep now bytes d c
      in c\<lparr>sequence_no := k,
           entries := (if k \<in> fst ` set (entries c) then entries c else insort_key fst (k, e) (entries c)),
           by_txid := (if by_txid c (entry_txid e) = None then (by_txid c)(entry_txid e \<mapsto> k) else by_txid c),
           stats := (stats c)\<lparr>st_bytes := st_bytes (stats c) + bytes, published := published (stats c) + 1\<rparr>\<rparr>)"

definition Publish ::
    "(PreparedTransactionProof \<Rightarrow> u64) \<Rightarrow> ChainPoint \<Rightarrow> PreparedTransactionProof \<Rightarrow> int \<Rightarrow> int \<Rightarrow> cache \<Rightarrow> bool Result \<times> cache" where
  "Publish cost point prep now now2 c =
     (case Prepared_Serialize prep \<lparr>group_txid = m_txid (prep_transaction prep), inventory_type = MSG_UTREEXO_TX, group_positions = []\<rparr>
             (of_nat MAX_TX_PAYLOAD) of
        Err e \<Rightarrow> (Err e, c)
      | Throw e \<Rightarrow> (Throw e, c)
      | Ok encoded \<Rightarrow>
          if \<not> ready (stats c) \<or> anchor c \<noteq> Some point
          then (Err ''transaction cache anchor changed during preparation'', c)
          else let c1 = Expire now c; bytes = cost prep
               in if bytes > max_bytes (config c1)
                  then (Ok False, c1\<lparr>stats := (stats c1)\<lparr>oversized := oversized (stats c1) + 1\<rparr>\<rparr>)
                  else let c2 = (case by_txid c1 (m_txid (prep_transaction prep)) of None \<Rightarrow> c1 | Some k \<Rightarrow> erase_sequence k c1);
                           c3 = evict bytes c2
                       in (Ok True, add_entry point prep now2 bytes (proof_digest prep encoded) c3))"

definition cache_Erase :: "hash256 \<Rightarrow> cache \<Rightarrow> cache" where
  "cache_Erase txid c = (case by_txid c txid of None \<Rightarrow> c | Some k \<Rightarrow> erase_sequence k c)"

definition cache_Find :: "hash256 \<Rightarrow> u64 option \<Rightarrow> int \<Rightarrow> cache \<Rightarrow> PreparedTransactionEntry option \<times> cache" where
  "cache_Find txid sequence now c =
     (let c1 = Expire now c
      in if \<not> ready (stats c1) then (None, c1)
         else case by_txid c1 txid of
                None \<Rightarrow> (None, c1)
              | Some k \<Rightarrow>
                  if \<exists>s. sequence = Some s \<and> k \<noteq> s then (None, c1)
                  else (map_of (entries c1) k, c1))"

definition FindMatching :: "TransactionRegenerationRequest \<Rightarrow> int \<Rightarrow> cache \<Rightarrow> PreparedTransactionEntry option \<times> cache" where
  "FindMatching request now c = Match request now c"

text \<open>\<open>WaitFor\<close> until it returns or starts to wait for a job.\<close>

datatype wait_outcome = Returned "PreparedTransactionEntry option" | Waiting nat

definition set_job :: "nat \<Rightarrow> Regeneration \<Rightarrow> cache \<Rightarrow> cache" where
  "set_job j job c = c\<lparr>jobs := (jobs c)(j := job)\<rparr>"

definition WaitFor_begin ::
    "TransactionRegenerationRequest \<Rightarrow> int \<Rightarrow> int \<Rightarrow> int \<Rightarrow> bool \<Rightarrow> cache \<Rightarrow> wait_outcome \<times> cache" where
  "WaitFor_begin request now now2 deadline cancelled c =
     (case Match request now c of
        (Some e, c1) \<Rightarrow> (Returned (Some e), c1)
      | (None, c1) \<Rightarrow>
          if \<not> ready (stats c1) \<or> id_epoch (req_identity request) \<noteq> epoch (stats c1) \<or> now2 \<ge> deadline \<or> cancelled
          then (Returned None, c1)
          else case map_of (regeneration c1) request of
                 Some j \<Rightarrow>
                   (Waiting j, set_job j ((jobs c1 j)\<lparr>waiters := waiters (jobs c1 j) + 1\<rparr>)
                     (c1\<lparr>stats := (stats c1)\<lparr>regeneration_coalesced := regeneration_coalesced (stats c1) + 1\<rparr>\<rparr>))
               | None \<Rightarrow>
                   if length (regeneration c1) \<ge> unat (max_regenerations (config c1)) then (Returned None, c1)
                   else let j = next_job c1
                        in (Waiting j, set_job j \<lparr>job_request = request, waiters = 1, running = False, job_done = False, job_result = None\<rparr>
                              (c1\<lparr>stats := (stats c1)\<lparr>regeneration_queued := regeneration_queued (stats c1) + 1\<rparr>,
                                  next_job := j + 1, regeneration := (request, j) # regeneration c1, pending := pending c1 @ [request]\<rparr>)))"

text \<open>\<open>WaitFor\<close> after the wait for the job \<open>j\<close>: the condition of the wait holds or its deadline has passed.\<close>

definition WaitFor_end ::
    "TransactionRegenerationRequest \<Rightarrow> nat \<Rightarrow> bool \<Rightarrow> cache \<Rightarrow> PreparedTransactionEntry option \<times> cache" where
  "WaitFor_end request j cancelled c =
     (let job = jobs c j;
          res = (if job_done job \<and> ready (stats c) \<and> id_epoch (req_identity request) = epoch (stats c) \<and> \<not> cancelled
                 then job_result job else None);
          w = waiters job - 1;
          c1 = set_job j (job\<lparr>waiters := w\<rparr>) c
      in (res,
          if w = 0 \<and> (\<not> running job \<or> job_done job) \<and> map_of (regeneration c1) request = Some j
          then c1\<lparr>regeneration := filter (\<lambda>x. fst x \<noteq> request) (regeneration c1), pending := removeAll request (pending c1)\<rparr>
          else c1))"

definition TakeRegeneration :: "cache \<Rightarrow> TransactionRegenerationRequest option Result \<times> cache" where
  "TakeRegeneration c =
     (case pending c of
        [] \<Rightarrow> (Ok None, c)
      | request # rest \<Rightarrow>
          let c1 = c\<lparr>pending := rest\<rparr>
          in case map_of (regeneration c1) request of
               None \<Rightarrow> (Throw ''map::at'', c1)
             | Some j \<Rightarrow> (Ok (Some request), set_job j ((jobs c1 j)\<lparr>running := True\<rparr>) c1))"

definition CompleteRegeneration :: "TransactionRegenerationRequest \<Rightarrow> int \<Rightarrow> cache \<Rightarrow> bool \<times> cache" where
  "CompleteRegeneration request now c =
     (case map_of (regeneration c) request of
        None \<Rightarrow> (False, c)
      | Some j \<Rightarrow>
          if \<not> running (jobs c j) \<or> job_done (jobs c j) then (False, c)
          else let (r, c1) = Match request now c;
                   c2 = set_job j ((jobs c1 j)\<lparr>job_result := r, job_done := True\<rparr>) c1;
                   c3 = c2\<lparr>stats := (if r \<noteq> None then (stats c2)\<lparr>regenerated := regenerated (stats c2) + 1\<rparr>
                                      else (stats c2)\<lparr>regeneration_misses := regeneration_misses (stats c2) + 1\<rparr>)\<rparr>;
                   c4 = (if waiters (jobs c3 j) = 0
                         then c3\<lparr>regeneration := filter (\<lambda>x. fst x \<noteq> request) (regeneration c3)\<rparr> else c3)
               in (r \<noteq> None, c4))"

text \<open>The loop over the entries above the cursor: the announcements so far, their vectors, the cursor.\<close>

fun announce :: "nat \<Rightarrow> nat \<Rightarrow> (u64 \<times> PreparedTransactionEntry) list \<Rightarrow> TransactionAnnouncementEntry list \<Rightarrow> nat \<Rightarrow> u64 \<Rightarrow>
    TransactionAnnouncementEntry list \<times> u64" where
  "announce maxe maxv [] output sent cursor = (output, cursor)"
| "announce maxe maxv ((k, e) # rest) output sent cursor =
     (let n = 1 + (length (targets (prep_proof (entry_proof e))) + 3) div 4
      in if n > MAX_INVENTORY then announce maxe maxv rest output sent k
         else if output \<noteq> [] \<and> (length output \<ge> maxe \<or> sent + n > maxv) then (output, cursor)
         else announce maxe maxv rest
                (output @ [\<lparr>ann_sequence = k, announcement = Announcement (entry_proof e), ann_identity = entry_identity e\<rparr>]) (sent + n) k)"

definition AnnouncementsAfter ::
    "u64 \<Rightarrow> u32 \<Rightarrow> u32 \<Rightarrow> u64 option \<Rightarrow> int \<Rightarrow> cache \<Rightarrow> (TransactionAnnouncementEntry list \<times> u64) \<times> cache" where
  "AnnouncementsAfter cursor maxe maxv expected_epoch now c =
     (let c1 = Expire now c
      in if \<not> ready (stats c1) \<or> maxe = 0 \<or> maxv = 0 \<or> (\<exists>x. expected_epoch = Some x \<and> x \<noteq> epoch (stats c1)) then (([], cursor), c1)
         else (announce (unat maxe) (unat maxv) (filter (\<lambda>x. fst x > cursor) (entries c1)) [] 0 cursor, c1))"

definition Txids :: "int \<Rightarrow> cache \<Rightarrow> hash256 list \<times> cache" where
  "Txids now c = (let c1 = Expire now c in (map (entry_txid \<circ> snd) (entries c1), c1))"

definition Stats :: "int \<Rightarrow> cache \<Rightarrow> TransactionCacheStats \<times> cache" where
  "Stats now c =
     (let c1 = Expire now c
      in ((stats c1)\<lparr>st_entries := of_nat (length (entries c1)), regeneration_pending := of_nat (length (regeneration c1))\<rparr>, c1))"

definition MaxEntries :: "cache \<Rightarrow> u32" where
  "MaxEntries c = max_entries (config c)"

section \<open>Invariant of the entries\<close>

definition entry_sum :: "(u64 \<times> PreparedTransactionEntry) list \<Rightarrow> nat" where
  "entry_sum xs = sum_list (map (\<lambda>x. unat (entry_bytes (snd x))) xs)"

definition entry_ok :: "cache \<Rightarrow> u64 \<times> PreparedTransactionEntry \<Rightarrow> bool" where
  "entry_ok c x \<longleftrightarrow> fst x \<le> sequence_no c \<and> entry_sequence (snd x) = fst x \<and> anchor c = Some (entry_point (snd x)) \<and>
     id_epoch (entry_identity (snd x)) = epoch (stats c)"

definition indexed :: "cache \<Rightarrow> bool" where
  "indexed c \<longleftrightarrow> sorted_wrt (<) (map fst (entries c)) \<and>
     (\<forall>t k. by_txid c t = Some k \<longleftrightarrow> (\<exists>e. (k, e) \<in> set (entries c) \<and> entry_txid e = t)) \<and>
     unat (st_bytes (stats c)) = entry_sum (entries c)"

definition entries_ok :: "cache \<Rightarrow> bool" where
  "entries_ok c \<longleftrightarrow> indexed c \<and> (\<forall>x \<in> set (entries c). entry_ok c x) \<and>
     entry_sum (entries c) \<le> unat (max_bytes (config c)) \<and> length (entries c) \<le> unat (max_entries (config c)) \<and>
     (ready (stats c) \<longleftrightarrow> anchor c \<noteq> None)"

text \<open>Everything but the entries, their index and the counters is as before.\<close>

definition same_rest :: "cache \<Rightarrow> cache \<Rightarrow> bool" where
  "same_rest c c' \<longleftrightarrow> config c' = config c \<and> anchor c' = anchor c \<and> jobs c' = jobs c \<and> next_job c' = next_job c \<and>
     regeneration c' = regeneration c \<and> pending c' = pending c \<and> epoch (stats c') = epoch (stats c) \<and> ready (stats c') = ready (stats c)"

lemma same_rest_refl [simp]: "same_rest c c"
  by (simp add: same_rest_def)

lemma same_rest_trans: "same_rest a b \<Longrightarrow> same_rest b c \<Longrightarrow> same_rest a c"
  by (simp add: same_rest_def)

lemma indexed_distinct: "indexed c \<Longrightarrow> distinct (map fst (entries c))"
  by (auto simp: indexed_def strict_sorted_iff)

lemma indexed_txid: "indexed c \<Longrightarrow> (k, e) \<in> set (entries c) \<Longrightarrow> by_txid c (entry_txid e) = Some k"
  by (auto simp: indexed_def)

lemma indexed_lookup: "indexed c \<Longrightarrow> by_txid c t = Some k \<longleftrightarrow> (\<exists>e. map_of (entries c) k = Some e \<and> entry_txid e = t)"
  using indexed_distinct [of c] by (auto simp: indexed_def)

lemma filter_first: "sorted_wrt (<) (map fst (x # xs)) \<Longrightarrow> filter (\<lambda>y. fst y \<noteq> fst x) (x # xs) = xs"
  for x :: "u64 \<times> 'a"
  by (auto intro!: filter_True)

lemma entry_sum_filter:
  "distinct (map fst xs) \<Longrightarrow> x \<in> set xs \<Longrightarrow> entry_sum xs = unat (entry_bytes (snd x)) + entry_sum (filter (\<lambda>y. fst y \<noteq> fst x) xs)"
proof (induction xs)
  case (Cons a xs)
  then show ?case
  proof (cases "x = a")
    case True
    then have "filter (\<lambda>y. fst y \<noteq> fst x) xs = xs" using Cons.prems(1)
      by (intro filter_True) (metis distinct.simps(2) image_eqI list.map(2) set_map)
    then show ?thesis using True by (simp add: entry_sum_def)
  next
    case False
    then have "fst a \<noteq> fst x" "x \<in> set xs" using Cons.prems by force+
    then show ?thesis using Cons by (simp add: entry_sum_def)
  qed
qed simp

lemma erase_entry_facts [simp]:
  "config (erase_entry x c) = config c" "anchor (erase_entry x c) = anchor c" "sequence_no (erase_entry x c) = sequence_no c"
  "epoch (stats (erase_entry x c)) = epoch (stats c)" "ready (stats (erase_entry x c)) = ready (stats c)"
  "entries (erase_entry x c) = filter (\<lambda>y. fst y \<noteq> fst x) (entries c)" "same_rest c (erase_entry x c)"
  by (simp_all add: erase_entry_def same_rest_def)

lemma indexed_erase:
  assumes "indexed c" "x \<in> set (entries c)"
  shows "indexed (erase_entry x c)"
proof -
  obtain k e where x: "x = (k, e)" by (cases x)
  have d: "distinct (map fst (entries c))" using indexed_distinct [OF assms(1)] .
  have one: "(k, e') \<in> set (entries c) \<Longrightarrow> e' = e" for e' using d assms(2) x by (metis eq_key_imp_eq_value)
  have "sorted_wrt (<) (map fst (filter (\<lambda>y. fst y \<noteq> k) (entries c)))"
    using assms(1) by (auto simp: indexed_def sorted_wrt_map sorted_wrt_filter)
  moreover have "((by_txid c)(entry_txid e := None)) t = Some k' \<longleftrightarrow>
      (\<exists>e'. (k', e') \<in> set (filter (\<lambda>y. fst y \<noteq> k) (entries c)) \<and> entry_txid e' = t)" for t k'
  proof (cases "t = entry_txid e")
    case True
    have "k' = k" if "(k', e') \<in> set (entries c)" "entry_txid e' = t" for e'
      using indexed_txid [OF assms(1)] that assms(2) x True by (metis option.inject)
    then show ?thesis using True by auto
  next
    case False
    then show ?thesis using assms(1) one by (auto simp: indexed_def)
  qed
  moreover have "unat (st_bytes (stats c) - entry_bytes e) = entry_sum (filter (\<lambda>y. fst y \<noteq> k) (entries c))"
  proof -
    have s: "unat (st_bytes (stats c)) = unat (entry_bytes e) + entry_sum (filter (\<lambda>y. fst y \<noteq> k) (entries c))"
      using entry_sum_filter [OF d assms(2)] assms(1) x by (simp add: indexed_def)
    then have "entry_bytes e \<le> st_bytes (stats c)" by (simp add: word_le_nat_alt)
    then show ?thesis using s by (simp add: unat_sub)
  qed
  ultimately show ?thesis by (simp add: indexed_def erase_entry_def x)
qed

lemma entries_ok_erase:
  assumes "entries_ok c" "x \<in> set (entries c)"
  shows "entries_ok (erase_entry x c)"
proof -
  have "indexed c" using assms(1) by (simp add: entries_ok_def)
  moreover have "entry_sum (filter (\<lambda>y. fst y \<noteq> fst x) (entries c)) \<le> entry_sum (entries c)"
    using entry_sum_filter [OF indexed_distinct [OF \<open>indexed c\<close>] assms(2)] by simp
  moreover have "length (entries c) \<le> n \<Longrightarrow> length (filter (\<lambda>y. fst y \<noteq> fst x) (entries c)) \<le> n" for n
    using length_filter_le le_trans by blast
  moreover have "entry_ok (erase_entry x c) y = entry_ok c y" for y by (simp add: entry_ok_def)
  ultimately show ?thesis using assms(1) indexed_erase [OF \<open>indexed c\<close> assms(2)] unfolding entries_ok_def by simp
qed

lemma entries_ok_counters:
  "entries_ok (c\<lparr>stats := (stats c)\<lparr>expired := a\<rparr>\<rparr>) = entries_ok c" "entries_ok (c\<lparr>stats := (stats c)\<lparr>evicted := a\<rparr>\<rparr>) = entries_ok c"
  "entries_ok (c\<lparr>stats := (stats c)\<lparr>oversized := a\<rparr>\<rparr>) = entries_ok c"
  by (simp_all add: entries_ok_def indexed_def entry_ok_def)

text \<open>Expiry and eviction drop the oldest entries.\<close>

lemma entries_erase_head: "entries_ok c \<Longrightarrow> entries c = x # xs \<Longrightarrow> entries (erase_entry x c) = xs"
  using filter_first [of x xs] by (simp add: entries_ok_def indexed_def)

lemma Expire_ok:
  assumes "entries_ok c"
  shows "entries_ok (Expire now c) \<and> same_rest c (Expire now c) \<and> sequence_no (Expire now c) = sequence_no c \<and>
    entries (Expire now c) = dropWhile (\<lambda>x. expires (snd x) \<le> now) (entries c)"
  using assms
proof (induction now c rule: Expire.induct)
  case (1 now c)
  show ?case
  proof (cases "\<exists>x xs. entries c = x # xs \<and> expires (snd x) \<le> now")
    case True
    then obtain x xs where x: "entries c = x # xs" "expires (snd x) \<le> now" by blast
    let ?c1 = "erase_entry x c"
    let ?c2 = "?c1\<lparr>stats := (stats ?c1)\<lparr>expired := expired (stats ?c1) + 1\<rparr>\<rparr>"
    have "entries_ok ?c2" using entries_ok_erase [OF 1(2), of x] x(1) entries_ok_counters(1) by simp
    from 1(1) [OF x(1) x(2) refl this] have IH: "entries_ok (Expire now ?c2)" "same_rest ?c2 (Expire now ?c2)"
      "sequence_no (Expire now ?c2) = sequence_no c" "entries (Expire now ?c2) = dropWhile (\<lambda>x. expires (snd x) \<le> now) xs"
      using entries_erase_head [OF 1(2) x(1)] by simp_all
    have "same_rest c ?c2" by (simp add: same_rest_def erase_entry_def)
    moreover have "Expire now c = Expire now ?c2" using x by (subst Expire.simps) (simp add: Let_def)
    ultimately show ?thesis using IH x same_rest_trans by auto
  next
    case False
    then have "Expire now c = c" by (subst Expire.simps) (auto split: list.splits)
    moreover have "dropWhile (\<lambda>x. expires (snd x) \<le> now) (entries c) = entries c" using False by (cases "entries c") auto
    ultimately show ?thesis using 1(2) by simp
  qed
qed

lemma evict_ok:
  assumes "entries_ok c" "bytes \<le> max_bytes (config c)" "max_entries (config c) \<noteq> 0"
  shows "entries_ok (evict bytes c) \<and> same_rest c (evict bytes c) \<and> sequence_no (evict bytes c) = sequence_no c \<and>
    suffix (entries (evict bytes c)) (entries c) \<and> length (entries (evict bytes c)) < unat (max_entries (config c)) \<and>
    entry_sum (entries (evict bytes c)) + unat bytes \<le> unat (max_bytes (config c))"
  using assms
proof (induction bytes c rule: evict.induct)
  case (1 bytes c)
  let ?full = "\<lambda>c. length (entries c) \<ge> unat (max_entries (config c)) \<or> bytes > max_bytes (config c) - st_bytes (stats c)"
  show ?case
  proof (cases "entries c \<noteq> [] \<and> ?full c")
    case True
    then obtain x xs where x: "entries c = x # xs" by (cases "entries c") auto
    let ?c1 = "erase_entry x c"
    let ?c2 = "?c1\<lparr>stats := (stats ?c1)\<lparr>evicted := evicted (stats ?c1) + 1\<rparr>\<rparr>"
    have ok: "entries_ok ?c2" using entries_ok_erase [OF 1(2), of x] x entries_ok_counters(2) by simp
    have "entries_ok (evict bytes ?c2) \<and> same_rest ?c2 (evict bytes ?c2) \<and> sequence_no (evict bytes ?c2) = sequence_no ?c2 \<and>
      suffix (entries (evict bytes ?c2)) (entries ?c2) \<and> length (entries (evict bytes ?c2)) < unat (max_entries (config ?c2)) \<and>
      entry_sum (entries (evict bytes ?c2)) + unat bytes \<le> unat (max_bytes (config ?c2))"
      using 1(1) [OF x _ refl ok] True 1(3,4) by simp
    moreover have "same_rest c ?c2" by (simp add: same_rest_def erase_entry_def)
    moreover have "evict bytes c = evict bytes ?c2" using x True by (subst evict.simps) (simp add: Let_def)
    moreover have "entries ?c2 = xs" using entries_erase_head [OF 1(2) x] by simp
    ultimately show ?thesis using x same_rest_trans by (auto intro: suffix_ConsI)
  next
    case False
    then have e: "evict bytes c = c" by (subst evict.simps) (auto split: list.splits)
    have sum: "unat (st_bytes (stats c)) = entry_sum (entries c)" "entry_sum (entries c) \<le> unat (max_bytes (config c))"
      using 1(2) by (auto simp: entries_ok_def indexed_def)
    have "length (entries c) < unat (max_entries (config c)) \<and> entry_sum (entries c) + unat bytes \<le> unat (max_bytes (config c))"
    proof (cases "entries c = []")
      case True
      then show ?thesis using 1(3,4) by (simp add: entry_sum_def word_le_nat_alt unat_gt_0)
    next
      case nonempty: False
      then have "length (entries c) < unat (max_entries (config c))" "bytes \<le> max_bytes (config c) - st_bytes (stats c)" using False by auto
      moreover have "st_bytes (stats c) \<le> max_bytes (config c)" using sum by (simp add: word_le_nat_alt)
      ultimately show ?thesis using sum by (auto simp: word_le_nat_alt unat_sub)
    qed
    then show ?thesis using e 1(2) by simp
  qed
qed

lemma erase_sequence_ok:
  assumes "entries_ok c"
  shows "entries_ok (erase_sequence k c)" "same_rest c (erase_sequence k c)" "sequence_no (erase_sequence k c) = sequence_no c"
    "entries (erase_sequence k c) = filter (\<lambda>x. fst x \<noteq> k) (entries c)"
proof -
  have "entries_ok (erase_sequence k c) \<and> same_rest c (erase_sequence k c) \<and> sequence_no (erase_sequence k c) = sequence_no c \<and>
    entries (erase_sequence k c) = filter (\<lambda>x. fst x \<noteq> k) (entries c)"
  proof (cases "map_of (entries c) k")
    case None
    then have "filter (\<lambda>x. fst x \<noteq> k) (entries c) = entries c" by (intro filter_True) (auto simp: map_of_eq_None_iff)
    then show ?thesis using None assms by (simp add: erase_sequence_def)
  next
    case (Some e)
    then show ?thesis using entries_ok_erase [OF assms map_of_SomeD [OF Some]] by (simp add: erase_sequence_def)
  qed
  then show "entries_ok (erase_sequence k c)" "same_rest c (erase_sequence k c)" "sequence_no (erase_sequence k c) = sequence_no c"
    "entries (erase_sequence k c) = filter (\<lambda>x. fst x \<noteq> k) (entries c)" by blast+
qed

lemma cache_Erase_ok:
  assumes "entries_ok c"
  shows "entries_ok (cache_Erase t c) \<and> same_rest c (cache_Erase t c) \<and> sequence_no (cache_Erase t c) = sequence_no c \<and>
    entries (cache_Erase t c) = filter (\<lambda>x. entry_txid (snd x) \<noteq> t) (entries c)"
proof -
  have ix: "indexed c" using assms by (simp add: entries_ok_def)
  show ?thesis
  proof (cases "by_txid c t")
    case None
    then have "entry_txid (snd x) \<noteq> t" if "x \<in> set (entries c)" for x using indexed_txid [OF ix, of "fst x" "snd x"] that by auto
    then have "filter (\<lambda>x. entry_txid (snd x) \<noteq> t) (entries c) = entries c" by (intro filter_True) blast
    then show ?thesis using None assms by (simp add: cache_Erase_def)
  next
    case (Some k)
    obtain e where e: "(k, e) \<in> set (entries c)" "entry_txid e = t" using Some ix by (auto simp: indexed_def)
    have "fst x \<noteq> k \<longleftrightarrow> entry_txid (snd x) \<noteq> t" if x: "x \<in> set (entries c)" for x
    proof -
      have "fst x = k \<Longrightarrow> snd x = e" using x e(1) indexed_distinct [OF ix] by (metis eq_key_imp_eq_value prod.collapse)
      then show ?thesis using indexed_txid [OF ix, of "fst x" "snd x"] x Some e(2) by auto
    qed
    then have "filter (\<lambda>x. fst x \<noteq> k) (entries c) = filter (\<lambda>x. entry_txid (snd x) \<noteq> t) (entries c)" by (intro filter_cong) auto
    then show ?thesis using Some erase_sequence_ok [OF assms, of k] by (simp add: cache_Erase_def)
  qed
qed

lemma insort_last: "\<forall>x \<in> set xs. fst x < k \<Longrightarrow> insort_key fst (k, e) xs = xs @ [(k, e)]"
  for k :: "'a::linorder"
  by (induction xs) auto

lemma add_entry_ok:
  assumes "entries_ok c" "anchor c = Some point" "by_txid c (m_txid (prep_transaction prep)) = None" "sequence_no c \<noteq> - 1"
    "length (entries c) < unat (max_entries (config c))" "entry_sum (entries c) + unat bytes \<le> unat (max_bytes (config c))"
  shows "entries_ok (add_entry point prep now bytes d c)" "same_rest c (add_entry point prep now bytes d c)"
    "entries (add_entry point prep now bytes d c) = entries c @ [(sequence_no c + 1, new_entry point prep now bytes d c)]"
proof -
  define e where "e = new_entry point prep now bytes d c"
  let ?k = "sequence_no c + 1" and ?c = "add_entry point prep now bytes d c"
  have t: "entry_txid e = m_txid (prep_transaction prep)" by (simp add: e_def new_entry_def entry_txid_def)
  have up: "x \<le> sequence_no c \<Longrightarrow> x < ?k" for x using assms(4) word_less_plus_one [of "sequence_no c" x] by (auto simp: le_less)
  then have below: "\<forall>x \<in> set (entries c). fst x < ?k" using assms(1) by (auto simp: entries_ok_def entry_ok_def)
  then have "?k \<notin> fst ` set (entries c)" by auto
  then have es: "entries ?c = entries c @ [(?k, e)]"
    using insort_last [OF below, of e] by (simp add: add_entry_def Let_def e_def)
  then show "entries ?c = entries c @ [(?k, new_entry point prep now bytes d c)]" by (simp add: e_def)
  have f: "config ?c = config c" "anchor ?c = anchor c" "sequence_no ?c = ?k" "epoch (stats ?c) = epoch (stats c)" "ready (stats ?c) = ready (stats c)"
    "st_bytes (stats ?c) = st_bytes (stats c) + bytes" "by_txid ?c = (by_txid c)(entry_txid e \<mapsto> ?k)"
    using assms(3) by (simp_all add: add_entry_def Let_def t) (simp add: e_def new_entry_def entry_txid_def)
  show "same_rest c ?c" using f by (simp add: same_rest_def) (simp add: add_entry_def Let_def)
  have sum: "unat (st_bytes (stats c)) = entry_sum (entries c)" using assms(1) by (simp add: entries_ok_def indexed_def)
  have "unat (max_bytes (config c)) < 2 ^ 64" by (rule unat_u64_less)
  then have bytes: "unat (st_bytes (stats c) + bytes) = entry_sum (entries c) + unat bytes"
    using sum assms(6) by (simp add: unat_word_ariths)
  have "indexed ?c"
    unfolding indexed_def es f
  proof (intro conjI allI)
    show "sorted_wrt (<) (map fst (entries c @ [(?k, e)]))"
      using assms(1) below by (simp add: sorted_wrt_append entries_ok_def indexed_def)
    show "unat (st_bytes (stats c) + bytes) = entry_sum (entries c @ [(?k, e)])" using bytes by (simp add: entry_sum_def e_def new_entry_def)
    fix t' k'
    show "((by_txid c)(entry_txid e \<mapsto> ?k)) t' = Some k' \<longleftrightarrow> (\<exists>e'. (k', e') \<in> set (entries c @ [(?k, e)]) \<and> entry_txid e' = t')"
    proof (cases "t' = entry_txid e")
      case True
      then have "\<not> (\<exists>e'. (k', e') \<in> set (entries c) \<and> entry_txid e' = t')"
        using assms(1,3) t by (auto simp: entries_ok_def dest: indexed_txid)
      then show ?thesis using True by auto
    next
      case False
      then show ?thesis using assms(1) by (auto simp: entries_ok_def indexed_def)
    qed
  qed
  moreover have "entry_ok ?c x" if "x \<in> set (entries ?c)" for x
  proof (cases "x = (?k, e)")
    case True
    then show ?thesis by (simp add: entry_ok_def f assms(2)) (simp add: e_def new_entry_def)
  next
    case False
    then have "x \<in> set (entries c)" using that es by auto
    then have "entry_ok c x" using assms(1) by (simp add: entries_ok_def)
    then show ?thesis using up [of "fst x"] by (auto simp: entry_ok_def f)
  qed
  ultimately show "entries_ok ?c"
    using assms(1,5,6) by (auto simp: entries_ok_def f es entry_sum_def e_def new_entry_def)
qed

lemma same_restD:
  assumes "same_rest c c'"
  shows "config c' = config c" "anchor c' = anchor c" "jobs c' = jobs c" "next_job c' = next_job c" "regeneration c' = regeneration c"
    "pending c' = pending c" "epoch (stats c') = epoch (stats c)" "ready (stats c') = ready (stats c)"
  using assms by (simp_all add: same_rest_def)

text \<open>What \<open>Publish\<close> does when it stores the entry: the expired entries are dropped, the entry of the same
  transaction is replaced, the oldest ones make room, and the new one comes last.\<close>

lemma Publish_stores:
  assumes ok: "entries_ok c" "config_ok (config c)" "sequence_no c \<noteq> - 1" and pub: "Publish cost point prep now now2 c = (r, c')"
  shows "entries_ok c' \<and> same_rest c c'"
    and "r = Ok True \<Longrightarrow> \<exists>kept d. suffix kept (filter (\<lambda>x. entry_txid (snd x) \<noteq> m_txid (prep_transaction prep))
        (dropWhile (\<lambda>x. expires (snd x) \<le> now) (entries c))) \<and>
      entries c' = kept @ [(sequence_no c + 1, new_entry point prep now2 (cost prep) d c)] \<and>
      anchor c = Some point"
proof -
  let ?t = "m_txid (prep_transaction prep)"
  let ?c1 = "Expire now c"
  define c2 where "c2 = cache_Erase ?t ?c1"
  note e1 = Expire_ok [OF ok(1), of now]
  have c2: "entries_ok c2 \<and> same_rest c c2 \<and> sequence_no c2 = sequence_no c \<and>
      entries c2 = filter (\<lambda>x. entry_txid (snd x) \<noteq> ?t) (entries ?c1)"
    using cache_Erase_ok [of ?c1 ?t] e1 same_rest_trans by (auto simp: c2_def)
  have goal: "(entries_ok c' \<and> same_rest c c') \<and> (r = Ok True \<longrightarrow> (\<exists>kept d. suffix kept (filter (\<lambda>x. entry_txid (snd x) \<noteq> ?t)
        (dropWhile (\<lambda>x. expires (snd x) \<le> now) (entries c))) \<and>
      entries c' = kept @ [(sequence_no c + 1, new_entry point prep now2 (cost prep) d c)] \<and>
      anchor c = Some point))"
  proof (cases "\<exists>encoded. ready (stats c) \<and> anchor c = Some point \<and> cost prep \<le> max_bytes (config c) \<and>
      (r, c') = (Ok True, add_entry point prep now2 (cost prep) (proof_digest prep encoded) (evict (cost prep) c2))")
    case True
    then obtain encoded where t: "anchor c = Some point" "cost prep \<le> max_bytes (config c)"
      "c' = add_entry point prep now2 (cost prep) (proof_digest prep encoded) (evict (cost prep) c2)" by auto
    note sr = same_restD [of c c2]
    have cost: "cost prep \<le> max_bytes (config c2)" "max_entries (config c2) \<noteq> 0" using t(2) c2 sr ok(2) by (auto simp: config_ok_def)
    note ev = evict_ok [OF conjunct1 [OF c2] cost]
    let ?c3 = "evict (cost prep) c2"
    have eq: "anchor ?c3 = Some point" "config ?c3 = config c" "epoch (stats ?c3) = epoch (stats c)" "sequence_no ?c3 = sequence_no c"
      using ev c2 same_restD [of c2 ?c3] sr t(1) by auto
    have "by_txid ?c3 ?t = None"
    proof -
      have "indexed ?c3" using ev by (simp add: entries_ok_def)
      moreover have "entry_txid e \<noteq> ?t" if "(k, e) \<in> set (entries ?c3)" for k e
        using that ev c2 set_mono_suffix [of "entries ?c3" "entries c2"] by auto
      ultimately show ?thesis by (cases "by_txid ?c3 ?t") (auto simp: indexed_def)
    qed
    then have "entries_ok c'" "same_rest ?c3 c'" "entries c' = entries ?c3 @ [(sequence_no c + 1, new_entry point prep now2 (cost prep) (proof_digest prep encoded) c)]"
      using add_entry_ok [of ?c3 point prep "cost prep" now2 "proof_digest prep encoded"] ev eq ok(3) c2 sr t(3)
      by (auto simp: new_entry_def)
    moreover have "suffix (entries ?c3) (filter (\<lambda>x. entry_txid (snd x) \<noteq> ?t) (dropWhile (\<lambda>x. expires (snd x) \<le> now) (entries c)))"
      using ev c2 e1 by simp
    ultimately show ?thesis using t(1) ev c2 same_rest_trans by blast
  next
    case False
    have "c' = c \<and> r \<noteq> Ok True \<or> c' = ?c1\<lparr>stats := (stats ?c1)\<lparr>oversized := oversized (stats ?c1) + 1\<rparr>\<rparr> \<and> r = Ok False"
      using pub False e1 same_restD(1) [of c ?c1]
      by (auto simp: Publish_def Let_def c2_def cache_Erase_def not_less split: Result.splits if_splits)
    moreover have "entries_ok (?c1\<lparr>stats := (stats ?c1)\<lparr>oversized := oversized (stats ?c1) + 1\<rparr>\<rparr>)"
      "same_rest c (?c1\<lparr>stats := (stats ?c1)\<lparr>oversized := oversized (stats ?c1) + 1\<rparr>\<rparr>)"
      using e1 entries_ok_counters(3) by (auto simp: same_rest_def)
    ultimately show ?thesis using ok(1) by auto
  qed
  then show "entries_ok c' \<and> same_rest c c'" by blast
  show "\<exists>kept d. suffix kept (filter (\<lambda>x. entry_txid (snd x) \<noteq> ?t) (dropWhile (\<lambda>x. expires (snd x) \<le> now) (entries c))) \<and>
      entries c' = kept @ [(sequence_no c + 1, new_entry point prep now2 (cost prep) d c)] \<and>
      anchor c = Some point" if "r = Ok True" using goal that by blast
qed

section \<open>Invariant of the jobs\<close>

text \<open>A job the cache knows, and the threads \<open>W\<close> that wait, each with its request and its job.\<close>

definition job_ok :: "cache \<Rightarrow> TransactionRegenerationRequest \<Rightarrow> nat \<Rightarrow> bool" where
  "job_ok c r j \<longleftrightarrow>
     j < next_job c \<and> job_request (jobs c j) = r \<and> id_epoch (req_identity r) = epoch (stats c) \<and> ready (stats c) \<and>
     (r \<in> set (pending c) \<longleftrightarrow> \<not> running (jobs c j)) \<and> (job_done (jobs c j) \<longrightarrow> running (jobs c j)) \<and>
     (waiters (jobs c j) = 0 \<longrightarrow> running (jobs c j) \<and> \<not> job_done (jobs c j)) \<and>
     (\<forall>e. job_result (jobs c j) = Some e \<longrightarrow>
        job_done (jobs c j) \<and> entry_identity e = req_identity r \<and> entry_txid e = req_txid r \<and> anchor c = Some (entry_point e))"

type_synonym waiting = "(TransactionRegenerationRequest \<times> nat) multiset"

definition waiter_ok :: "cache \<Rightarrow> TransactionRegenerationRequest \<times> nat \<Rightarrow> bool" where
  "waiter_ok c x \<longleftrightarrow> snd x < next_job c \<and> job_request (jobs c (snd x)) = fst x \<and>
     (x \<in> set (regeneration c) \<or> job_done (jobs c (snd x)) \<and> job_result (jobs c (snd x)) = None)"

definition waiting_for :: "nat \<Rightarrow> waiting \<Rightarrow> nat" where
  "waiting_for j W = size (filter_mset (\<lambda>x. snd x = j) W)"

definition jobs_ok_but :: "TransactionRegenerationRequest set \<Rightarrow> cache \<Rightarrow> waiting \<Rightarrow> bool" where
  "jobs_ok_but R c W \<longleftrightarrow>
     distinct (map fst (regeneration c)) \<and> length (regeneration c) \<le> unat (max_regenerations (config c)) \<and>
     (\<forall>(r, j) \<in> set (regeneration c). r \<notin> R \<longrightarrow> job_ok c r j) \<and>
     distinct (pending c) \<and> set (pending c) \<subseteq> fst ` set (regeneration c) \<and>
     (\<forall>j. unat (waiters (jobs c j)) = waiting_for j W) \<and> (\<forall>x \<in># W. waiter_ok c x)"

abbreviation jobs_ok :: "cache \<Rightarrow> waiting \<Rightarrow> bool" where
  "jobs_ok \<equiv> jobs_ok_but {}"

lemmas jobs_ok_def = jobs_ok_but_def

lemma jobs_ok_same_rest: "same_rest c c' \<Longrightarrow> jobs_ok c W \<Longrightarrow> jobs_ok c' W"
  unfolding jobs_ok_def job_ok_def waiter_ok_def by (simp only: same_restD) simp

lemma jobs_ok_job: "jobs_ok c W \<Longrightarrow> (r, j) \<in> set (regeneration c) \<Longrightarrow> job_ok c r j"
  by (auto simp: jobs_ok_def)

lemma jobs_ok_ready: "jobs_ok c W \<Longrightarrow> \<not> ready (stats c) \<Longrightarrow> regeneration c = [] \<and> pending c = []"
  by (cases "regeneration c") (auto simp: jobs_ok_def job_ok_def)

lemma regeneration_lookup: "jobs_ok c W \<Longrightarrow> map_of (regeneration c) r = Some j \<longleftrightarrow> (r, j) \<in> set (regeneration c)"
  by (simp add: jobs_ok_def)

text \<open>Two requests never share a job.\<close>

lemma job_unique: "jobs_ok c W \<Longrightarrow> (r, j) \<in> set (regeneration c) \<Longrightarrow> (r', j) \<in> set (regeneration c) \<Longrightarrow> r' = r"
  using jobs_ok_job unfolding job_ok_def by blast

lemma jobs_ok_Clear:
  assumes "jobs_ok c W"
  shows "jobs_ok (Clear c) W"
proof -
  have "waiters (jobs (Clear c) j) = waiters (jobs c j)" "job_request (jobs (Clear c) j) = job_request (jobs c j)" for j
    by (simp_all add: Clear_def finish_job_def)
  moreover have "waiter_ok (Clear c) x" if "waiter_ok c x" for x
  proof -
    have "x \<in> set (regeneration c) \<Longrightarrow> snd x \<in> snd ` set (regeneration c)" by (cases x) force
    then show ?thesis using that by (auto simp: waiter_ok_def Clear_def finish_job_def)
  qed
  moreover have "regeneration (Clear c) = []" "pending (Clear c) = []" by (simp_all add: Clear_def)
  ultimately show ?thesis using assms by (auto simp: jobs_ok_def)
qed

lemma entries_ok_Clear: "entries_ok (Clear c)"
  by (simp add: entries_ok_def indexed_def Clear_def entry_sum_def)

lemma Activate_ok:
  assumes "entries_ok c" "jobs_ok c W"
  shows "entries_ok (Activate point c) \<and> jobs_ok (Activate point c) W"
proof -
  define c1 where "c1 = (if anchor c \<noteq> None \<and> anchor c \<noteq> Some point then Clear c else c)"
  have ok: "entries_ok c1" "jobs_ok c1 W" using assms entries_ok_Clear jobs_ok_Clear by (simp_all add: c1_def)
  have a: "Activate point c = c1\<lparr>anchor := Some point, stats := (stats c1)\<lparr>ready := True\<rparr>\<rparr>" by (simp add: Activate_def c1_def Let_def)
  consider "anchor c1 = None" "\<not> ready (stats c1)" | "anchor c1 = Some point" "ready (stats c1)"
  proof -
    have "anchor c1 = None \<or> anchor c1 = Some point" by (auto simp: c1_def Clear_def)
    then show thesis using ok(1) that by (auto simp: entries_ok_def)
  qed
  then show ?thesis
  proof cases
    case 1
    then have n: "regeneration c1 = []" "pending c1 = []" using jobs_ok_ready [OF ok(2)] by auto
    have "entries c1 = []" using ok(1) 1 by (cases "entries c1") (auto simp: entries_ok_def entry_ok_def)
    then have "entries_ok (Activate point c)" using ok(1) unfolding a by (simp add: entries_ok_def indexed_def)
    moreover have "jobs_ok (Activate point c) W" using ok(2) n unfolding a by (simp add: jobs_ok_def waiter_ok_def)
    ultimately show ?thesis by blast
  next
    case 2
    then have "Activate point c = c1" unfolding a by (cases c1) (simp add: TransactionCacheStats.surjective)
    then show ?thesis using ok by simp
  qed
qed

lemma Match_ok:
  assumes "entries_ok c" "Match r now c = (x, c')"
  shows "c' = Expire now c" "x = Some e \<Longrightarrow> entry_identity e = req_identity r \<and> entry_txid e = req_txid r \<and>
    anchor c = Some (entry_point e) \<and> id_epoch (req_identity r) = epoch (stats c) \<and> ready (stats c) \<and> e \<in> snd ` set (entries c')"
proof -
  let ?c1 = "Expire now c"
  note e1 = Expire_ok [OF assms(1), of now]
  show c': "c' = ?c1" using assms(2) by (auto simp: Match_def Let_def split: if_splits option.splits)
  assume "x = Some e"
  then obtain k where k: "ready (stats ?c1)" "epoch (stats ?c1) = id_epoch (req_identity r)" "by_txid ?c1 (req_txid r) = Some k"
    "map_of (entries ?c1) k = Some e" "entry_identity e = req_identity r"
    using assms(2) by (auto simp: Match_def Let_def split: if_splits option.splits)
  have "indexed ?c1" "\<forall>x \<in> set (entries ?c1). entry_ok ?c1 x" using e1 by (auto simp: entries_ok_def)
  moreover have "(k, e) \<in> set (entries ?c1)" using k(4) by (rule map_of_SomeD)
  ultimately have "entry_txid e = req_txid r" "anchor ?c1 = Some (entry_point e)" "e \<in> snd ` set (entries ?c1)"
    using k(3,4) indexed_lookup by (force simp: entry_ok_def)+
  then show "entry_identity e = req_identity r \<and> entry_txid e = req_txid r \<and>
    anchor c = Some (entry_point e) \<and> id_epoch (req_identity r) = epoch (stats c) \<and> ready (stats c) \<and> e \<in> snd ` set (entries c')"
    using k e1 same_restD [of c ?c1] c' by simp
qed

lemma entries_ok_jobs [simp]:
  "entries_ok (set_job j job c) = entries_ok c" "entries_ok (c\<lparr>regeneration := a\<rparr>) = entries_ok c" "entries_ok (c\<lparr>pending := b\<rparr>) = entries_ok c"
  "entries_ok (c\<lparr>next_job := n\<rparr>) = entries_ok c"
  "entries_ok (c\<lparr>stats := (stats c)\<lparr>regeneration_coalesced := k\<rparr>\<rparr>) = entries_ok c"
  "entries_ok (c\<lparr>stats := (stats c)\<lparr>regeneration_queued := k\<rparr>\<rparr>) = entries_ok c"
  "entries_ok (c\<lparr>stats := (stats c)\<lparr>regenerated := k\<rparr>\<rparr>) = entries_ok c"
  "entries_ok (c\<lparr>stats := (stats c)\<lparr>regeneration_misses := k\<rparr>\<rparr>) = entries_ok c"
  by (simp_all add: entries_ok_def indexed_def entry_ok_def set_job_def)

lemma waiting_for_add: "waiting_for j (add_mset x W) = waiting_for j W + (if snd x = j then 1 else 0)"
  by (simp add: waiting_for_def)

lemma waiting_for_le: "waiting_for j W \<le> size W"
  unfolding waiting_for_def by (rule size_filter_mset_lesseq)

lemma coalesce_ok:
  assumes "jobs_ok c W" "(r, j) \<in> set (regeneration c)" "size W < 2 ^ 32 - 1"
  shows "jobs_ok (set_job j ((jobs c j)\<lparr>waiters := waiters (jobs c j) + 1\<rparr>) c) (add_mset (r, j) W)"
proof -
  let ?job = "(jobs c j)\<lparr>waiters := waiters (jobs c j) + 1\<rparr>"
  let ?c = "set_job j ?job c"
  have w: "unat (waiters (jobs c j)) = waiting_for j W" using assms(1) by (simp add: jobs_ok_def)
  then have "unat (waiters (jobs c j)) < 2 ^ 32 - 1" using assms(3) waiting_for_le [of j W] by simp
  then have "waiters (jobs c j) \<noteq> - 1" by (auto simp: unsigned_minus_1_eq_mask mask_eq_exp_minus_1)
  then have plus: "unat (waiters (jobs c j) + 1) = waiting_for j W + 1" using w by (simp add: unat_plus_one)
  then have nz: "waiters (jobs c j) + 1 \<noteq> 0" by (metis add_is_0 one_neq_zero unat_0)
  have f: "regeneration ?c = regeneration c" "pending ?c = pending c" "config ?c = config c" by (simp_all add: set_job_def)
  have "job_ok ?c r' j'" if "job_ok c r' j'" for r' j' using that nz by (auto simp: job_ok_def set_job_def)
  moreover have "waiter_ok ?c x" if "waiter_ok c x" for x using that by (auto simp: waiter_ok_def set_job_def)
  moreover have "waiter_ok ?c (r, j)" using assms(2) jobs_ok_job [OF assms(1,2)] by (simp add: waiter_ok_def set_job_def job_ok_def)
  moreover have "unat (waiters (jobs ?c i)) = waiting_for i (add_mset (r, j) W)" for i
    using assms(1) plus by (auto simp: waiting_for_add set_job_def jobs_ok_def)
  ultimately show ?thesis using assms(1) unfolding jobs_ok_def f by auto
qed

lemma enqueue_ok:
  assumes "jobs_ok c W" "r \<notin> fst ` set (regeneration c)" "length (regeneration c) < unat (max_regenerations (config c))"
    "ready (stats c)" "id_epoch (req_identity r) = epoch (stats c)"
  shows "jobs_ok (set_job (next_job c) \<lparr>job_request = r, waiters = 1, running = False, job_done = False, job_result = None\<rparr>
      (c\<lparr>next_job := next_job c + 1, regeneration := (r, next_job c) # regeneration c, pending := pending c @ [r]\<rparr>)) (add_mset (r, next_job c) W)"
    (is "jobs_ok ?c _")
proof -
  have f: "regeneration ?c = (r, next_job c) # regeneration c" "pending ?c = pending c @ [r]" "config ?c = config c" by (simp_all add: set_job_def)
  have old: "job_ok ?c r' j'" if "(r', j') \<in> set (regeneration c)" for r' j'
  proof -
    have "r' \<noteq> r" using that assms(2) by force
    then show ?thesis using jobs_ok_job [OF assms(1) that] by (auto simp: job_ok_def set_job_def)
  qed
  moreover have "job_ok ?c r (next_job c)" using assms(4,5) by (simp add: job_ok_def set_job_def)
  moreover have "waiter_ok ?c x" if "waiter_ok c x" for x using that by (auto simp: waiter_ok_def set_job_def)
  moreover have "waiter_ok ?c (r, next_job c)" by (simp add: waiter_ok_def set_job_def)
  moreover have "waiting_for (next_job c) W = 0"
    using assms(1) by (auto simp: waiting_for_def jobs_ok_def waiter_ok_def filter_mset_eq_conv)
  then have "unat (waiters (jobs ?c i)) = waiting_for i (add_mset (r, next_job c) W)" for i
    using assms(1) by (auto simp: waiting_for_add set_job_def jobs_ok_def)
  moreover have "set (pending c) \<subseteq> fst ` set (regeneration c)" using assms(1) by (simp add: jobs_ok_def)
  then have "r \<notin> set (pending c)" using assms(2) by blast
  ultimately show ?thesis using assms(1-3) unfolding jobs_ok_def f by auto
qed

lemma jobs_ok_counters:
  "jobs_ok (c\<lparr>stats := (stats c)\<lparr>regeneration_coalesced := k\<rparr>\<rparr>) W = jobs_ok c W"
  "jobs_ok (c\<lparr>stats := (stats c)\<lparr>regeneration_queued := k\<rparr>\<rparr>) W = jobs_ok c W"
  "jobs_ok (c\<lparr>stats := (stats c)\<lparr>regenerated := k\<rparr>\<rparr>) W = jobs_ok c W"
  "jobs_ok (c\<lparr>stats := (stats c)\<lparr>regeneration_misses := k\<rparr>\<rparr>) W = jobs_ok c W"
  by (simp_all add: jobs_ok_def job_ok_def waiter_ok_def)

lemma WaitFor_begin_ok:
  assumes "entries_ok c" "jobs_ok c W" "size W < 2 ^ 32 - 1" "WaitFor_begin r now now2 deadline cancelled c = (out, c')"
  shows "entries_ok c'" "out = Returned x \<Longrightarrow> jobs_ok c' W" "out = Waiting j \<Longrightarrow> jobs_ok c' (add_mset (r, j) W)"
    "entries c' = entries (Expire now c)"
proof -
  obtain x1 c1 where m: "Match r now c = (x1, c1)" by (cases "Match r now c")
  note e1 = Expire_ok [OF assms(1), of now, folded Match_ok(1) [OF assms(1) m]]
  have j1: "jobs_ok c1 W" using jobs_ok_same_rest e1 assms(2) by blast
  have "entries_ok c' \<and> (out = Returned x \<longrightarrow> jobs_ok c' W) \<and> (out = Waiting j \<longrightarrow> jobs_ok c' (add_mset (r, j) W)) \<and> entries c' = entries c1"
  proof (cases "\<exists>y. out = Returned y")
    case True
    then have "c' = c1" using assms(4) m by (auto simp: WaitFor_begin_def Let_def split: option.splits if_splits)
    then show ?thesis using True e1 j1 by auto
  next
    case False
    then have x1: "x1 = None" "ready (stats c1)" "id_epoch (req_identity r) = epoch (stats c1)"
      using assms(4) m by (auto simp: WaitFor_begin_def split: option.splits if_splits)
    show ?thesis
    proof (cases "map_of (regeneration c1) r")
      case (Some i)
      then have i: "(r, i) \<in> set (regeneration c1)" using regeneration_lookup [OF j1] by simp
      let ?q = "c1\<lparr>stats := (stats c1)\<lparr>regeneration_coalesced := regeneration_coalesced (stats c1) + 1\<rparr>\<rparr>"
      have o: "out = Waiting i" "c' = set_job i ((jobs ?q i)\<lparr>waiters := waiters (jobs ?q i) + 1\<rparr>) ?q"
        using assms(4) m x1 Some False by (auto simp: WaitFor_begin_def split: if_splits)
      have "jobs_ok c' (add_mset (r, i) W)"
        unfolding o(2) using j1 i assms(3) by (intro coalesce_ok) (simp_all add: jobs_ok_counters(1))
      moreover have "entries_ok ?q" using e1 by simp
      then have "entries_ok c'" unfolding o(2) by simp
      moreover have "entries c' = entries c1" unfolding o(2) by (simp add: set_job_def)
      ultimately show ?thesis using o(1) by auto
    next
      case None
      then have r: "r \<notin> fst ` set (regeneration c1)" by (simp add: map_of_eq_None_iff)
      let ?q = "c1\<lparr>stats := (stats c1)\<lparr>regeneration_queued := regeneration_queued (stats c1) + 1\<rparr>\<rparr>"
      have o: "out = Waiting (next_job c1)" "length (regeneration c1) < unat (max_regenerations (config c1))"
        "c' = set_job (next_job c1) \<lparr>job_request = r, waiters = 1, running = False, job_done = False, job_result = None\<rparr>
          (?q\<lparr>next_job := next_job c1 + 1, regeneration := (r, next_job c1) # regeneration c1, pending := pending c1 @ [r]\<rparr>)"
        using assms(4) m x1 None False by (auto simp: WaitFor_begin_def Let_def not_le split: if_splits)
      have "jobs_ok c' (add_mset (r, next_job c1) W)"
        using enqueue_ok [of ?q W r] j1 jobs_ok_counters(2) r o(2) x1 by (simp add: o(3))
      moreover have "entries_ok ?q" using e1 by simp
      then have "entries_ok c'" unfolding o(3) by simp
      moreover have "entries c' = entries c1" unfolding o(3) by (simp add: set_job_def)
      ultimately show ?thesis using o(1) by auto
    qed
  qed
  then show "entries_ok c'" "out = Returned x \<Longrightarrow> jobs_ok c' W" "out = Waiting j \<Longrightarrow> jobs_ok c' (add_mset (r, j) W)"
    "entries c' = entries (Expire now c)" using Match_ok(1) [OF assms(1) m] by auto
qed

lemma distinct_fst_filter: "distinct (map fst xs) \<Longrightarrow> distinct (map fst (filter P xs))"
  by (induction xs) auto

text \<open>Dropping the request \<open>r\<close>, whose job no thread waits for, from the cache.\<close>

lemma drop_request_ok:
  assumes ok: "jobs_ok_but {r} c W" and rj: "(r, j) \<in> set (regeneration c)" "waiting_for j W = 0"
    and p: "set p = set (pending c) - {r}" "distinct p"
  shows "jobs_ok (c\<lparr>regeneration := filter (\<lambda>x. fst x \<noteq> r) (regeneration c), pending := p\<rparr>) W"
    (is "jobs_ok ?c W")
proof -
  have d: "distinct (map fst (regeneration c))" using ok by (simp add: jobs_ok_but_def)
  have "waiter_ok ?c x" if x: "x \<in># W" for x
  proof -
    have j: "snd x \<noteq> j" using rj(2) x by (auto simp: waiting_for_def filter_mset_eq_conv)
    have "fst x \<noteq> r" if y: "x \<in> set (regeneration c)"
    proof
      assume "fst x = r"
      then have "(r, snd x) \<in> set (regeneration c)" using y by (cases x) auto
      then show False using eq_key_imp_eq_value [OF d rj(1)] j by auto
    qed
    then show ?thesis using ok x by (auto simp: jobs_ok_but_def waiter_ok_def)
  qed
  moreover have "job_ok ?c r' j'" if "(r', j') \<in> set (regeneration c)" "r' \<noteq> r" for r' j'
  proof -
    have "job_ok c r' j'" using ok that by (auto simp: jobs_ok_but_def)
    then show ?thesis using p(1) that(2) by (simp add: job_ok_def)
  qed
  moreover have "length (filter (\<lambda>x. fst x \<noteq> r) (regeneration c)) \<le> unat (max_regenerations (config c))"
    using ok le_trans [OF length_filter_le] by (auto simp: jobs_ok_but_def)
  moreover have "set p \<subseteq> fst ` set (filter (\<lambda>x. fst x \<noteq> r) (regeneration c))"
  proof
    fix q assume "q \<in> set p"
    then have "q \<noteq> r" "q \<in> fst ` set (regeneration c)" using p(1) ok by (auto simp: jobs_ok_but_def)
    then show "q \<in> fst ` set (filter (\<lambda>x. fst x \<noteq> r) (regeneration c))" by force
  qed
  moreover have "\<forall>i. unat (waiters (jobs c i)) = waiting_for i W" using ok by (simp add: jobs_ok_but_def)
  ultimately show ?thesis using p(2) distinct_fst_filter [OF d] by (simp add: jobs_ok_but_def)
qed

lemma unat_pred: "0 < unat (w :: 'a::len word) \<Longrightarrow> unat (w - 1) = unat w - 1"
  by (simp add: unat_minus_one unat_gt_0)

lemma leave_ok:
  assumes ok: "jobs_ok c W" and W: "(r, j) \<in># W"
  defines "c1 \<equiv> set_job j ((jobs c j)\<lparr>waiters := waiters (jobs c j) - 1\<rparr>) c"
  shows "jobs_ok_but {r} c1 (W - {#(r, j)#})"
    "\<not> (waiters (jobs c j) - 1 = 0 \<and> (\<not> running (jobs c j) \<or> job_done (jobs c j)) \<and> map_of (regeneration c) r = Some j) \<Longrightarrow>
       jobs_ok c1 (W - {#(r, j)#})"
    "waiters (jobs c j) - 1 = 0 \<Longrightarrow> waiting_for j (W - {#(r, j)#}) = 0"
proof -
  let ?W = "W - {#(r, j)#}"
  have cnt: "waiting_for i W = waiting_for i ?W + (if i = j then 1 else 0)" for i
  proof -
    have "W = add_mset (r, j) ?W" using W by simp
    then have "waiting_for i W = waiting_for i (add_mset (r, j) ?W)" by (rule arg_cong)
    then show ?thesis unfolding waiting_for_add by auto
  qed
  have n: "unat (waiters (jobs c i)) = waiting_for i W" for i using ok by (simp add: jobs_ok_but_def)
  then have w: "unat (waiters (jobs c j) - 1) = waiting_for j ?W" using cnt [of j] unat_pred [of "waiters (jobs c j)"] by simp
  then show "waiters (jobs c j) - 1 = 0 \<Longrightarrow> waiting_for j ?W = 0" by simp
  have f: "regeneration c1 = regeneration c" "pending c1 = pending c" "config c1 = config c" by (simp_all add: c1_def set_job_def)
  have this_ok: "waiter_ok c (r, j)" using ok W by (auto simp: jobs_ok_but_def)
  have other: "job_ok c1 r' j'" if "(r', j') \<in> set (regeneration c)" "j' \<noteq> j" for r' j'
    using jobs_ok_job [OF ok that(1)] that(2) by (auto simp: job_ok_def c1_def set_job_def)
  have own: "r' = r" if "(r', j) \<in> set (regeneration c)" for r'
    using this_ok jobs_ok_job [OF ok that] by (simp add: waiter_ok_def job_ok_def)
  have wk: "waiter_ok c1 y" if "y \<in># ?W" for y
  proof -
    have "waiter_ok c y" using that ok by (auto simp: jobs_ok_but_def dest: in_diffD)
    then show ?thesis by (auto simp: waiter_ok_def c1_def set_job_def)
  qed
  have cn: "unat (waiters (jobs c1 i)) = waiting_for i ?W" for i using w n [of i] cnt [of i] by (auto simp: c1_def set_job_def)
  have base: "distinct (map fst (regeneration c))" "length (regeneration c) \<le> unat (max_regenerations (config c))" "distinct (pending c)"
    "set (pending c) \<subseteq> fst ` set (regeneration c)" using ok by (simp_all add: jobs_ok_but_def)
  show "jobs_ok_but {r} c1 ?W" unfolding jobs_ok_but_def f using base other own wk cn by blast
  assume keep: "\<not> (waiters (jobs c j) - 1 = 0 \<and> (\<not> running (jobs c j) \<or> job_done (jobs c j)) \<and> map_of (regeneration c) r = Some j)"
  have "job_ok c1 r j" if "(r, j) \<in> set (regeneration c)"
    using jobs_ok_job [OF ok that] keep that base(1) by (auto simp: job_ok_def c1_def set_job_def)
  then show "jobs_ok c1 ?W" unfolding jobs_ok_but_def f using base other own wk cn by blast
qed

lemma WaitFor_end_ok:
  assumes "entries_ok c" "jobs_ok c W" "(r, j) \<in># W" "WaitFor_end r j cancelled c = (x, c')"
  shows "entries_ok c' \<and> jobs_ok c' (W - {#(r, j)#}) \<and> entries c' = entries c"
    "x = Some e \<Longrightarrow> entry_identity e = req_identity r \<and> entry_txid e = req_txid r \<and> anchor c = Some (entry_point e) \<and>
       id_epoch (req_identity r) = epoch (stats c) \<and> ready (stats c)"
proof -
  let ?W = "W - {#(r, j)#}"
  define c1 where "c1 = set_job j ((jobs c j)\<lparr>waiters := waiters (jobs c j) - 1\<rparr>) c"
  let ?drop = "waiters (jobs c j) - 1 = 0 \<and> (\<not> running (jobs c j) \<or> job_done (jobs c j)) \<and> map_of (regeneration c) r = Some j"
  note leave = leave_ok [OF assms(2,3), folded c1_def]
  have f: "regeneration c1 = regeneration c" "pending c1 = pending c" "entries c1 = entries c" by (simp_all add: c1_def set_job_def)
  have c': "c' = (if ?drop then c1\<lparr>regeneration := filter (\<lambda>x. fst x \<noteq> r) (regeneration c1), pending := removeAll r (pending c1)\<rparr> else c1)"
    using assms(4) unfolding WaitFor_end_def Let_def c1_def [symmetric] f by auto
  have "jobs_ok c' ?W"
  proof (cases ?drop)
    case True
    then have rj: "(r, j) \<in> set (regeneration c1)" using regeneration_lookup [OF assms(2)] f by simp
    have "distinct (pending c1)" using assms(2) f by (simp add: jobs_ok_but_def)
    then show ?thesis using drop_request_ok [OF leave(1) rj leave(3), of "removeAll r (pending c1)"] True c' by (simp add: distinct_removeAll)
  next
    case False
    then have "c' = c1" unfolding c' by (rule if_not_P)
    then show ?thesis using leave(2) [OF False] by simp
  qed
  moreover have "entries_ok c1" using assms(1) by (simp add: c1_def)
  then have "entries_ok c'" unfolding c' by simp
  moreover have "entries c' = entries c" using f c' by simp
  ultimately show "entries_ok c' \<and> jobs_ok c' ?W \<and> entries c' = entries c" by blast
  assume "x = Some e"
  then have e: "job_result (jobs c j) = Some e" "ready (stats c)" "id_epoch (req_identity r) = epoch (stats c)"
    using assms(4) by (auto simp: WaitFor_end_def Let_def split: if_splits)
  moreover have "waiter_ok c (r, j)" using assms(2,3) by (auto simp: jobs_ok_but_def)
  ultimately have "(r, j) \<in> set (regeneration c)" by (simp add: waiter_ok_def)
  then show "entry_identity e = req_identity r \<and> entry_txid e = req_txid r \<and> anchor c = Some (entry_point e) \<and>
       id_epoch (req_identity r) = epoch (stats c) \<and> ready (stats c)"
    using jobs_ok_job [OF assms(2)] e by (simp add: job_ok_def)
qed

lemma TakeRegeneration_ok:
  assumes "jobs_ok c W" "TakeRegeneration c = (x, c')"
  shows "jobs_ok c' W" "x = Ok None \<and> pending c = [] \<or> (\<exists>r rest. x = Ok (Some r) \<and> pending c = r # rest \<and> pending c' = rest)"
    "entries_ok c \<Longrightarrow> entries_ok c' \<and> entries c' = entries c"
proof -
  have "jobs_ok c' W \<and> (x = Ok None \<and> pending c = [] \<or> (\<exists>r rest. x = Ok (Some r) \<and> pending c = r # rest \<and> pending c' = rest)) \<and>
    (entries_ok c \<longrightarrow> entries_ok c' \<and> entries c' = entries c)"
  proof (cases "pending c")
    case Nil
    then show ?thesis using assms by (simp add: TakeRegeneration_def)
  next
    case (Cons r rest)
    have d: "distinct (pending c)" "r \<in> fst ` set (regeneration c)" using assms(1) Cons by (auto simp: jobs_ok_but_def)
    then obtain j where j: "(r, j) \<in> set (regeneration c)" by force
    then have m: "map_of (regeneration c) r = Some j" using regeneration_lookup [OF assms(1)] by simp
    let ?c1 = "c\<lparr>pending := rest\<rparr>"
    have c': "x = Ok (Some r)" "c' = set_job j ((jobs ?c1 j)\<lparr>running := True\<rparr>) ?c1"
      using assms(2) Cons m by (simp_all add: TakeRegeneration_def Let_def)
    have "job_ok c' r' j'" if "(r', j') \<in> set (regeneration c)" for r' j'
    proof (cases "r' = r")
      case True
      then have "j' = j" using that m assms(1) by (auto simp: jobs_ok_but_def)
      then show ?thesis using jobs_ok_job [OF assms(1) that] True d(1) Cons by (auto simp: job_ok_def c'(2) set_job_def)
    next
      case False
      then have "j' \<noteq> j" using job_unique [OF assms(1) j] that by blast
      then show ?thesis using jobs_ok_job [OF assms(1) that] False Cons by (auto simp: job_ok_def c'(2) set_job_def)
    qed
    moreover have "waiter_ok c' y" if "waiter_ok c y" for y using that by (auto simp: waiter_ok_def c'(2) set_job_def)
    moreover have "waiters (jobs c' i) = waiters (jobs c i)" for i by (simp add: c'(2) set_job_def)
    moreover have "regeneration c' = regeneration c" "config c' = config c" "pending c' = rest" by (simp_all add: c'(2) set_job_def)
    ultimately have "jobs_ok c' W" using assms(1) d(1) Cons by (auto simp: jobs_ok_but_def)
    moreover have "entries_ok c' = entries_ok c" unfolding c'(2) by simp
    ultimately show ?thesis using Cons c' by (simp add: set_job_def)
  qed
  then show "jobs_ok c' W" "x = Ok None \<and> pending c = [] \<or> (\<exists>r rest. x = Ok (Some r) \<and> pending c = r # rest \<and> pending c' = rest)"
    "entries_ok c \<Longrightarrow> entries_ok c' \<and> entries c' = entries c" by blast+
qed

lemma complete_job_ok:
  assumes "jobs_ok c W" "(r, j) \<in> set (regeneration c)" "running (jobs c j)"
    "\<And>e. x = Some e \<Longrightarrow> entry_identity e = req_identity r \<and> entry_txid e = req_txid r \<and> anchor c = Some (entry_point e)"
  defines "c2 \<equiv> set_job j ((jobs c j)\<lparr>job_result := x, job_done := True\<rparr>) c"
  shows "jobs_ok_but {r} c2 W" "waiters (jobs c j) \<noteq> 0 \<Longrightarrow> jobs_ok c2 W"
proof -
  have f: "regeneration c2 = regeneration c" "pending c2 = pending c" "config c2 = config c" by (simp_all add: c2_def set_job_def)
  have other: "job_ok c2 r' j'" if "(r', j') \<in> set (regeneration c)" "r' \<noteq> r" for r' j'
  proof -
    have "j' \<noteq> j" using that job_unique [OF assms(1) that(1)] assms(2) by blast
    then show ?thesis using jobs_ok_job [OF assms(1) that(1)] by (auto simp: job_ok_def c2_def set_job_def)
  qed
  have wk: "waiter_ok c2 y" if y: "y \<in># W" for y
  proof (cases "snd y = j")
    case True
    have "waiter_ok c y" using assms(1) y by (simp add: jobs_ok_but_def)
    then have "fst y = r" using jobs_ok_job [OF assms(1,2)] True by (simp add: waiter_ok_def job_ok_def)
    then have "y = (r, j)" using True by (cases y) auto
    then show ?thesis using assms(2) \<open>waiter_ok c y\<close> by (auto simp: waiter_ok_def c2_def set_job_def)
  next
    case False
    then show ?thesis using assms(1) y by (auto simp: waiter_ok_def c2_def set_job_def jobs_ok_but_def)
  qed
  have cn: "waiters (jobs c2 i) = waiters (jobs c i)" for i by (simp add: c2_def set_job_def)
  have base: "distinct (map fst (regeneration c))" "length (regeneration c) \<le> unat (max_regenerations (config c))" "distinct (pending c)"
    "set (pending c) \<subseteq> fst ` set (regeneration c)" "\<forall>i. unat (waiters (jobs c i)) = waiting_for i W" using assms(1) by (simp_all add: jobs_ok_but_def)
  show "jobs_ok_but {r} c2 W" unfolding jobs_ok_but_def f cn using base other wk by blast
  assume nz: "waiters (jobs c j) \<noteq> 0"
  have own: "job_ok c2 r j'" if "(r, j') \<in> set (regeneration c)" for j'
  proof -
    have "j' = j" using that assms(2) base(1) by (simp add: eq_key_imp_eq_value)
    then show ?thesis using jobs_ok_job [OF assms(1,2)] assms(3,4) nz by (auto simp: job_ok_def c2_def set_job_def)
  qed
  show "jobs_ok c2 W" unfolding jobs_ok_but_def f cn using base other own wk by blast
qed

lemma CompleteRegeneration_ok:
  assumes "entries_ok c" "jobs_ok c W" "CompleteRegeneration r now c = (b, c')"
  shows "entries_ok c' \<and> jobs_ok c' W \<and> (entries c' = entries c \<or> entries c' = entries (Expire now c))"
proof (cases "\<exists>j. map_of (regeneration c) r = Some j \<and> running (jobs c j) \<and> \<not> job_done (jobs c j)")
  case True
  then obtain j where j: "map_of (regeneration c) r = Some j" "running (jobs c j)" "\<not> job_done (jobs c j)" by blast
  obtain x c1 where m: "Match r now c = (x, c1)" by (cases "Match r now c")
  note mk = Match_ok [OF assms(1) m]
  note e1 = Expire_ok [OF assms(1), of now, folded mk(1)]
  have j1: "jobs_ok c1 W" using jobs_ok_same_rest e1 assms(2) by blast
  have eq: "regeneration c1 = regeneration c" "jobs c1 = jobs c" "anchor c1 = anchor c" using e1 by (auto simp: same_rest_def)
  have rj: "(r, j) \<in> set (regeneration c1)" using regeneration_lookup [OF assms(2)] j(1) eq by simp
  define c2 where "c2 = set_job j ((jobs c1 j)\<lparr>job_result := x, job_done := True\<rparr>) c1"
  define c3 where "c3 = c2\<lparr>stats := (if x \<noteq> None then (stats c2)\<lparr>regenerated := regenerated (stats c2) + 1\<rparr>
      else (stats c2)\<lparr>regeneration_misses := regeneration_misses (stats c2) + 1\<rparr>)\<rparr>"
  have c': "c' = (if waiters (jobs c3 j) = 0 then c3\<lparr>regeneration := filter (\<lambda>x. fst x \<noteq> r) (regeneration c3)\<rparr> else c3)"
    using assms(3) j m unfolding CompleteRegeneration_def by (auto simp: c3_def c2_def Let_def)
  note cj = complete_job_ok [OF j1 rj, of x, folded c2_def]
  have "entry_identity e = req_identity r \<and> entry_txid e = req_txid r \<and> anchor c1 = Some (entry_point e)" if "x = Some e" for e
    using mk(2) [OF that] eq by simp
  note cj = complete_job_ok [OF j1 rj _ this, of x, folded c2_def]
  have w: "waiters (jobs c3 j) = waiters (jobs c1 j)" by (simp add: c3_def c2_def set_job_def)
  have frame: "jobs_ok_but R c3 V = jobs_ok_but R c2 V" for R V by (auto simp: c3_def jobs_ok_but_def job_ok_def waiter_ok_def)
  have "jobs_ok c' W"
  proof (cases "waiters (jobs c1 j) = 0")
    case True
    have but: "jobs_ok_but {r} c3 W" using cj(1) frame j(2) eq by simp
    have rj3: "(r, j) \<in> set (regeneration c3)" using rj by (simp add: c3_def c2_def set_job_def)
    have "unat (waiters (jobs c1 j)) = waiting_for j W" using j1 by (simp add: jobs_ok_but_def)
    then have none: "waiting_for j W = 0" using True by simp
    have p: "pending c3 = pending c1" by (simp add: c3_def c2_def set_job_def)
    have "r \<notin> set (pending c1)" using jobs_ok_job [OF j1 rj] j(2) eq by (simp add: job_ok_def)
    then have "set (pending c3) = set (pending c3) - {r}" "distinct (pending c3)" using p j1 by (auto simp: jobs_ok_but_def)
    from drop_request_ok [OF but rj3 none this] show ?thesis using c' w True by simp
  next
    case False
    then show ?thesis using cj(2) frame j(2) eq c' w by simp
  qed
  moreover have "entries_ok c2" unfolding c2_def using e1 by simp
  then have "entries_ok c3" unfolding c3_def by (auto simp: entries_ok_def indexed_def entry_ok_def)
  then have "entries_ok c'" unfolding c' by simp
  moreover have "entries c' = entries (Expire now c)" using c' mk(1) by (simp add: c3_def c2_def set_job_def)
  ultimately show ?thesis by blast
next
  case False
  then have "c' = c" using assms(3) by (auto simp: CompleteRegeneration_def split: option.splits if_splits)
  then show ?thesis using assms by simp
qed

section \<open>Expiry order\<close>

text \<open>The clock does not go back, so the entries expire in the order in which they were published.\<close>

definition fresh :: "int \<Rightarrow> cache \<Rightarrow> bool" where
  "fresh t c \<longleftrightarrow> sorted_wrt (\<lambda>x y. expires (snd x) \<le> expires (snd y)) (entries c) \<and>
     (\<forall>x \<in> set (entries c). expires (snd x) \<le> t + lifetime (config c))"

lemma sorted_wrt_subseq: "subseq xs ys \<Longrightarrow> sorted_wrt P ys \<Longrightarrow> sorted_wrt P xs"
proof (induction xs ys rule: list_emb.induct)
  case (list_emb_Cons2 x y xs ys)
  then show ?case by (auto dest: list_emb_set)
qed auto

lemma subseq_set: "subseq xs ys \<Longrightarrow> x \<in> set xs \<Longrightarrow> x \<in> set ys"
  by (auto dest: list_emb_set)

lemma fresh_sub: "fresh t c \<Longrightarrow> subseq (entries c') (entries c) \<Longrightarrow> config c' = config c \<Longrightarrow> t \<le> now \<Longrightarrow> fresh now c'"
  unfolding fresh_def using sorted_wrt_subseq [of "entries c'" "entries c"] subseq_set [of "entries c'" "entries c"] by fastforce

lemma subseq_dropWhile: "subseq (dropWhile P xs) xs"
  by (metis suffix_dropWhile suffix_imp_subseq)

lemma fresh_Expire:
  assumes "fresh t c" "entries_ok c" "t \<le> now"
  shows "fresh now (Expire now c)" "x \<in> set (entries (Expire now c)) \<Longrightarrow> now < expires (snd x)"
proof -
  note e = Expire_ok [OF assms(2), of now]
  show "fresh now (Expire now c)" using fresh_sub [OF assms(1)] e subseq_dropWhile assms(3) same_restD(1) by metis
  have "x \<in> set (dropWhile (\<lambda>x. expires (snd x) \<le> now) xs) \<Longrightarrow> sorted_wrt (\<lambda>x y. expires (snd x) \<le> expires (snd y)) xs \<Longrightarrow> now < expires (snd x)" for xs
    by (induction xs) (auto split: if_splits)
  then show "x \<in> set (entries (Expire now c)) \<Longrightarrow> now < expires (snd x)" using e assms(1) by (simp add: fresh_def)
qed

lemma fresh_Publish:
  assumes "entries_ok c" "config_ok (config c)" "sequence_no c \<noteq> - 1" "Publish cost point prep now now2 c = (r, c')" "fresh t c" "t \<le> now" "now \<le> now2"
  shows "fresh now2 c'"
proof (cases "r = Ok True")
  case True
  obtain kept d where k: "suffix kept (filter (\<lambda>x. entry_txid (snd x) \<noteq> m_txid (prep_transaction prep)) (dropWhile (\<lambda>x. expires (snd x) \<le> now) (entries c)))"
    "entries c' = kept @ [(sequence_no c + 1, new_entry point prep now2 (cost prep) d c)]"
    using Publish_stores(2) [OF assms(1-4) True] by blast
  have "subseq kept (entries c)"
    by (rule subseq_order.trans [OF suffix_imp_subseq [OF k(1)] subseq_order.trans [OF subseq_filter_left subseq_dropWhile]])
  then have "fresh now2 (c\<lparr>entries := kept\<rparr>)" using fresh_sub [OF assms(5), of "c\<lparr>entries := kept\<rparr>" now2] assms(6,7) by simp
  moreover have "config c' = config c" using Publish_stores(1) [OF assms(1-4)] by (simp add: same_rest_def)
  ultimately show ?thesis using k(2) by (auto simp: fresh_def sorted_wrt_append new_entry_def)
next
  case False
  then have "entries c' = entries c \<or> entries c' = entries (Expire now c)" "config c' = config c"
    using assms(4) Expire_ok [OF assms(1), of now] by (auto simp: Publish_def Let_def same_rest_def split: Result.splits if_splits)
  then have "subseq (entries c') (entries c)" using Expire_ok [OF assms(1), of now] subseq_dropWhile by auto
  then show ?thesis using fresh_sub [OF assms(5)] \<open>config c' = config c\<close> assms(6,7) by auto
qed

section \<open>Runs\<close>

text \<open>The states a cache can reach, with the threads waiting in \<open>WaitFor\<close> and the last reading of the clock.
  Sequence numbers do not wrap and fewer than \<open>2^32\<close> threads wait.\<close>

inductive cache_run :: "(PreparedTransactionProof \<Rightarrow> u64) \<Rightarrow> TransactionCacheConfig \<Rightarrow> int \<Rightarrow> cache \<Rightarrow> waiting \<Rightarrow> bool"
  for cost :: "PreparedTransactionProof \<Rightarrow> u64" and cfg :: TransactionCacheConfig where
  run_new: "new_cache cfg = Ok c \<Longrightarrow> cache_run cost cfg t c {#}"
| run_Invalidate: "cache_run cost cfg t c W \<Longrightarrow> cache_run cost cfg t (Invalidate c) W"
| run_Activate: "cache_run cost cfg t c W \<Longrightarrow> cache_run cost cfg t (Activate point c) W"
| run_Publish: "cache_run cost cfg t c W \<Longrightarrow> t \<le> now \<Longrightarrow> now \<le> now2 \<Longrightarrow> sequence_no c \<noteq> - 1 \<Longrightarrow>
    Publish cost point prep now now2 c = (r, c') \<Longrightarrow> cache_run cost cfg now2 c' W"
| run_Erase: "cache_run cost cfg t c W \<Longrightarrow> cache_run cost cfg t (cache_Erase txid c) W"
| run_expire: "cache_run cost cfg t c W \<Longrightarrow> t \<le> now \<Longrightarrow>
    c' \<in> {snd (cache_Find txid sequence now c), snd (FindMatching request now c), snd (Txids now c), snd (Stats now c),
          snd (AnnouncementsAfter cursor maxe maxv expected now c)} \<Longrightarrow> cache_run cost cfg now c' W"
| run_WaitFor: "cache_run cost cfg t c W \<Longrightarrow> t \<le> now \<Longrightarrow> now \<le> now2 \<Longrightarrow> size W < 2 ^ 32 - 1 \<Longrightarrow>
    WaitFor_begin request now now2 deadline cancelled c = (out, c') \<Longrightarrow>
    cache_run cost cfg now2 c' (case out of Returned _ \<Rightarrow> W | Waiting j \<Rightarrow> add_mset (request, j) W)"
| run_wake: "cache_run cost cfg t c W \<Longrightarrow> (request, j) \<in># W \<Longrightarrow> WaitFor_end request j cancelled c = (x, c') \<Longrightarrow>
    cache_run cost cfg t c' (W - {#(request, j)#})"
| run_Take: "cache_run cost cfg t c W \<Longrightarrow> TakeRegeneration c = (y, c') \<Longrightarrow> cache_run cost cfg t c' W"
| run_Complete: "cache_run cost cfg t c W \<Longrightarrow> t \<le> now \<Longrightarrow> CompleteRegeneration request now c = (b, c') \<Longrightarrow> cache_run cost cfg now c' W"

definition cache_inv :: "TransactionCacheConfig \<Rightarrow> int \<Rightarrow> cache \<Rightarrow> waiting \<Rightarrow> bool" where
  "cache_inv cfg t c W \<longleftrightarrow> entries_ok c \<and> jobs_ok c W \<and> fresh t c \<and> config c = cfg \<and> config_ok cfg"

lemma readers_expire:
  "snd (cache_Find txid sequence now c) = Expire now c" "snd (FindMatching request now c) = Expire now c"
  "snd (Txids now c) = Expire now c" "snd (Stats now c) = Expire now c"
  "snd (AnnouncementsAfter cursor maxe maxv expected now c) = Expire now c"
  by (auto simp: cache_Find_def FindMatching_def Match_def Txids_def Stats_def AnnouncementsAfter_def Let_def split: option.splits)

lemma config_kept:
  "config (Clear c) = config c" "config (Activate point c) = config c"
  "WaitFor_end r j cancelled c = (x, c') \<Longrightarrow> config c' = config c" "TakeRegeneration c = (y, c') \<Longrightarrow> config c' = config c"
  by (auto simp: Clear_def Activate_def WaitFor_end_def TakeRegeneration_def set_job_def Let_def split: if_splits list.splits option.splits)

lemma cache_run_inv: "cache_run cost cfg t c W \<Longrightarrow> cache_inv cfg t c W"
proof (induction rule: cache_run.induct)
  case (run_new c t)
  then show ?case
    by (auto simp: new_cache_def cache_inv_def entries_ok_def indexed_def jobs_ok_but_def fresh_def no_stats_def entry_sum_def waiting_for_def split: if_splits)
next
  case (run_Invalidate t c W)
  then show ?case using entries_ok_Clear jobs_ok_Clear config_kept by (auto simp: Invalidate_def cache_inv_def fresh_def Clear_def)
next
  case (run_Activate t c W point)
  have "entries (Activate point c) = entries c \<or> entries (Activate point c) = []" by (auto simp: Activate_def Let_def Clear_def)
  then show ?case using run_Activate Activate_ok [of c W point] config_kept(2) by (auto simp: cache_inv_def fresh_def)
next
  case (run_Publish t c W now now2 point prep r c')
  note i = run_Publish.IH [unfolded cache_inv_def]
  have k: "config_ok (config c)" using i by simp
  note p = Publish_stores(1) [OF conjunct1 [OF i] k run_Publish.hyps(4,5)]
  have "fresh now2 c'" using fresh_Publish [OF conjunct1 [OF i] k run_Publish.hyps(4,5)] i run_Publish.hyps(2,3) by blast
  then show ?case using i p jobs_ok_same_rest [of c c' W] by (auto simp: cache_inv_def same_rest_def)
next
  case (run_Erase t c W txid)
  note i = run_Erase.IH [unfolded cache_inv_def]
  note e = cache_Erase_ok [OF conjunct1 [OF i], of txid]
  have "fresh t (cache_Erase txid c)" using fresh_sub [of t c "cache_Erase txid c" t] i e subseq_filter_left by (auto simp: same_rest_def)
  then show ?case using i e jobs_ok_same_rest [of c _ W] by (auto simp: cache_inv_def same_rest_def)
next
  case (run_expire t c W now c' txid sequence request cursor maxe maxv expected)
  note i = run_expire.IH [unfolded cache_inv_def]
  have c': "c' = Expire now c" using run_expire.hyps(3) readers_expire by auto
  note e = Expire_ok [OF conjunct1 [OF i], of now]
  have "fresh now c'" unfolding c' using fresh_Expire(1) i run_expire.hyps(2) by blast
  then show ?case using i e c' jobs_ok_same_rest [of c c' W] by (auto simp: cache_inv_def same_rest_def)
next
  case (run_WaitFor t c W now now2 request deadline cancelled out c')
  note i = run_WaitFor.IH [unfolded cache_inv_def]
  note w = WaitFor_begin_ok [OF conjunct1 [OF i] conjunct1 [OF conjunct2 [OF i]] run_WaitFor.hyps(4,5)]
  have cfg: "config c' = config c"
    using run_WaitFor.hyps(5) Expire_ok [OF conjunct1 [OF i], of now] Match_ok(1) [OF conjunct1 [OF i]]
    by (auto simp: WaitFor_begin_def set_job_def Let_def same_rest_def split: prod.splits option.splits if_splits)
  have "subseq (entries c') (entries c)" using w(4) Expire_ok [OF conjunct1 [OF i], of now] subseq_dropWhile by auto
  then have "fresh now2 c'" using fresh_sub [of t c c' now2] i cfg run_WaitFor.hyps(2,3) by simp
  then show ?case using w i cfg by (cases out) (auto simp: cache_inv_def)
next
  case (run_wake t c W request j cancelled x c')
  note i = run_wake.IH [unfolded cache_inv_def]
  note w = WaitFor_end_ok(1) [OF conjunct1 [OF i] conjunct1 [OF conjunct2 [OF i]] run_wake.hyps(2,3)]
  then show ?case using i config_kept(3) [OF run_wake.hyps(3)] by (auto simp: cache_inv_def fresh_def)
next
  case (run_Take t c W y c')
  note i = run_Take.IH [unfolded cache_inv_def]
  note w = TakeRegeneration_ok [OF conjunct1 [OF conjunct2 [OF i]] run_Take.hyps(2)]
  then show ?case using i config_kept(4) [OF run_Take.hyps(2)] by (auto simp: cache_inv_def fresh_def)
next
  case (run_Complete t c W now request b c')
  note i = run_Complete.IH [unfolded cache_inv_def]
  note w = CompleteRegeneration_ok [OF conjunct1 [OF i] conjunct1 [OF conjunct2 [OF i]] run_Complete.hyps(3)]
  have cfg: "config c' = config c"
    using run_Complete.hyps(3) Expire_ok [OF conjunct1 [OF i], of now] Match_ok(1) [OF conjunct1 [OF i]]
    by (auto simp: CompleteRegeneration_def set_job_def Let_def same_rest_def split: prod.splits option.splits if_splits)
  have "subseq (entries c') (entries c)" using w Expire_ok [OF conjunct1 [OF i], of now] subseq_dropWhile by auto
  then have "fresh now c'" using fresh_sub [of t c c' now] i cfg run_Complete.hyps(2) by simp
  then show ?case using w i cfg by (auto simp: cache_inv_def)
qed

lemma cache_Find_ok:
  assumes "cache_inv cfg t c W" "t \<le> now" "cache_Find txid sequence now c = (Some e, c')"
  shows "entry_txid e = txid \<and> anchor c = Some (entry_point e) \<and> id_epoch (entry_identity e) = epoch (stats c) \<and>
    now < expires e \<and> (\<forall>s. sequence = Some s \<longrightarrow> entry_sequence e = s)"
proof -
  let ?c1 = "Expire now c"
  have ok: "entries_ok c" "fresh t c" using assms(1) by (auto simp: cache_inv_def)
  note e1 = Expire_ok [OF ok(1), of now]
  obtain k where k: "by_txid ?c1 txid = Some k" "map_of (entries ?c1) k = Some e" "\<forall>s. sequence = Some s \<longrightarrow> k = s"
    using assms(3) by (auto simp: cache_Find_def Let_def split: if_splits option.splits)
  have ix: "indexed ?c1" "\<forall>x \<in> set (entries ?c1). entry_ok ?c1 x" using e1 by (auto simp: entries_ok_def)
  have "(k, e) \<in> set (entries ?c1)" using k(2) by (rule map_of_SomeD)
  then have "entry_ok ?c1 (k, e)" "now < expires e" using ix(2) fresh_Expire(2) [OF ok(2,1) assms(2), of "(k, e)"] by auto
  moreover have "entry_txid e = txid" using indexed_lookup [OF ix(1)] k(1,2) by auto
  ultimately show ?thesis using k(3) e1 by (auto simp: entry_ok_def same_rest_def)
qed

lemma Match_fresh:
  assumes "cache_inv cfg t c W" "t \<le> now" "Match r now c = (Some e, c')"
  shows "entry_identity e = req_identity r \<and> entry_txid e = req_txid r \<and> anchor c = Some (entry_point e) \<and>
    id_epoch (req_identity r) = epoch (stats c) \<and> now < expires e"
proof -
  have ok: "entries_ok c" "fresh t c" using assms(1) by (auto simp: cache_inv_def)
  note m = Match_ok [OF ok(1) assms(3)]
  have "e \<in> snd ` set (entries (Expire now c))" using m(1) m(2) [OF refl] by simp
  then show ?thesis using m(2) [OF refl] fresh_Expire(2) [OF ok(2,1) assms(2)] by auto
qed

definition vectors_of :: "PreparedTransactionEntry \<Rightarrow> nat" where
  "vectors_of e = 1 + (length (targets (prep_proof (entry_proof e))) + 3) div 4"

definition announce_entry :: "u64 \<times> PreparedTransactionEntry \<Rightarrow> TransactionAnnouncementEntry" where
  "announce_entry x = \<lparr>ann_sequence = fst x, announcement = Announcement (entry_proof (snd x)), ann_identity = entry_identity (snd x)\<rparr>"

lemma announce_spec:
  assumes "announce maxe maxv xs output sent cursor = (output', cursor')" "0 < maxe"
    "length output \<le> maxe" "length output \<le> 1 \<or> sent \<le> maxv" "output = [] \<longrightarrow> sent = 0"
  shows "\<exists>taken rest. xs = taken @ rest \<and>
    output' = output @ map announce_entry (filter (\<lambda>x. vectors_of (snd x) \<le> MAX_INVENTORY) taken) \<and>
    cursor' = (if taken = [] then cursor else fst (last taken)) \<and> (rest \<noteq> [] \<longrightarrow> output' \<noteq> []) \<and> length output' \<le> maxe \<and>
    (length output' \<le> 1 \<or> sent + sum_list (map (\<lambda>a. vectors_of (snd a)) (filter (\<lambda>x. vectors_of (snd x) \<le> MAX_INVENTORY) taken)) \<le> maxv)"
  using assms
proof (induction xs arbitrary: "output" sent cursor)
  case Nil
  then show ?case by auto
next
  case (Cons x rest)
  obtain k e where x: "x = (k, e)" by (cases x)
  let ?n = "vectors_of e"
  have n: "1 + (length (targets (prep_proof (entry_proof e))) + 3) div 4 = ?n"
    "Suc ((length (targets (prep_proof (entry_proof e))) + 3) div 4) = ?n" by (simp_all add: vectors_of_def)
  consider (skip) "?n > MAX_INVENTORY" | (stop) "?n \<le> MAX_INVENTORY" "output \<noteq> [] \<and> (length output \<ge> maxe \<or> sent + ?n > maxv)"
    | (take) "?n \<le> MAX_INVENTORY" "\<not> (output \<noteq> [] \<and> (length output \<ge> maxe \<or> sent + ?n > maxv))" by linarith
  then show ?case
  proof cases
    case skip
    have a: "announce maxe maxv rest output sent k = (output', cursor')"
      using Cons.prems(1) skip by (auto simp: x n Let_def)
    obtain tk rs where "rest = tk @ rs" "output' = output @ map announce_entry (filter (\<lambda>x. vectors_of (snd x) \<le> MAX_INVENTORY) tk)"
      "cursor' = (if tk = [] then k else fst (last tk))" "rs \<noteq> [] \<longrightarrow> output' \<noteq> []" "length output' \<le> maxe"
      "length output' \<le> 1 \<or> sent + sum_list (map (\<lambda>a. vectors_of (snd a)) (filter (\<lambda>x. vectors_of (snd x) \<le> MAX_INVENTORY) tk)) \<le> maxv"
      using Cons.IH [OF a Cons.prems(2-5)] by metis
    then show ?thesis unfolding x using skip by - (rule exI [of _ "(k, e) # tk"], rule exI [of _ rs], auto)
  next
    case stop
    then have "output' = output" "cursor' = cursor" using Cons.prems(1) by (auto simp: x n Let_def)
    then show ?thesis unfolding x using stop Cons.prems(3,4) by - (rule exI [of _ "[]"], rule exI [of _ "(k, e) # rest"], auto)
  next
    case take
    let ?o = "output @ [announce_entry (k, e)]"
    have a: "announce maxe maxv rest ?o (sent + ?n) k = (output', cursor')"
      using Cons.prems(1) take by (auto simp: x n Let_def announce_entry_def)
    have "length ?o \<le> maxe" "length ?o \<le> 1 \<or> sent + ?n \<le> maxv" using take Cons.prems(2-5) by (auto simp: Suc_le_eq)
    then obtain tk rs where "rest = tk @ rs" "output' = ?o @ map announce_entry (filter (\<lambda>x. vectors_of (snd x) \<le> MAX_INVENTORY) tk)"
      "cursor' = (if tk = [] then k else fst (last tk))" "rs \<noteq> [] \<longrightarrow> output' \<noteq> []" "length output' \<le> maxe"
      "length output' \<le> 1 \<or> sent + ?n + sum_list (map (\<lambda>a. vectors_of (snd a)) (filter (\<lambda>x. vectors_of (snd x) \<le> MAX_INVENTORY) tk)) \<le> maxv"
      using Cons.IH [OF a Cons.prems(2)] by (metis append_is_Nil_conv not_Cons_self2)
    then show ?thesis unfolding x using take by - (rule exI [of _ "(k, e) # tk"], rule exI [of _ rs], auto)
  qed
qed

section \<open>Properties\<close>

text \<open>C20: The cache stays within its bounds and its books are right, whatever its users do and however waits
  interleave: the entries and the regeneration jobs are at most as many as configured, the counted
  bytes are the sum of the entries' bytes and at most the configured maximum, the index by
  transaction id finds exactly the stored entries, and every entry belongs to the current anchor
  and epoch.\<close>

theorem cache_bounds:
  assumes "cache_run cost cfg t c W"
  shows "length (entries c) \<le> unat (max_entries cfg) \<and> length (regeneration c) \<le> unat (max_regenerations cfg) \<and>
    unat (st_bytes (stats c)) = sum_list (map (\<lambda>x. unat (entry_bytes (snd x))) (entries c)) \<and> st_bytes (stats c) \<le> max_bytes cfg \<and>
    (\<forall>txid k. by_txid c txid = Some k \<longleftrightarrow> (\<exists>e. (k, e) \<in> set (entries c) \<and> entry_txid e = txid)) \<and>
    (\<forall>x \<in> set (entries c). anchor c = Some (entry_point (snd x)) \<and> id_epoch (entry_identity (snd x)) = epoch (stats c))"
  using cache_run_inv [OF assms]
  by (auto simp: cache_inv_def entries_ok_def indexed_def jobs_ok_but_def entry_ok_def entry_sum_def word_le_nat_alt)


text \<open>C22: Regeneration jobs are not lost and not leaked: taking a job never fails and takes the oldest waiting
  request; every job the cache holds has a thread waiting for it or is being worked on; a waiting
  thread's job is either held by the cache or already finished without a result.\<close>

theorem cache_jobs:
  assumes "cache_run cost cfg t c W"
  shows "fst (TakeRegeneration c) = Ok (if pending c = [] then None else Some (hd (pending c))) \<and>
    (\<forall>r j. (r, j) \<in> set (regeneration c) \<longrightarrow> (r, j) \<in># W \<or> running (jobs c j) \<and> \<not> job_done (jobs c j)) \<and>
    (\<forall>r j. (r, j) \<in># W \<longrightarrow> (r, j) \<in> set (regeneration c) \<or> job_done (jobs c j) \<and> job_result (jobs c j) = None) \<and>
    set (pending c) = {r. \<exists>j. (r, j) \<in> set (regeneration c) \<and> \<not> running (jobs c j)}"
proof (intro conjI allI impI)
  have inv: "jobs_ok c W" using cache_run_inv [OF assms] by (simp add: cache_inv_def)
  obtain x c' where t: "TakeRegeneration c = (x, c')" by (cases "TakeRegeneration c")
  show "fst (TakeRegeneration c) = Ok (if pending c = [] then None else Some (hd (pending c)))"
    using TakeRegeneration_ok(2) [OF inv t] t by auto
  show "(r, j) \<in># W \<or> running (jobs c j) \<and> \<not> job_done (jobs c j)" if rj: "(r, j) \<in> set (regeneration c)" for r j
  proof (cases "waiters (jobs c j) = 0")
    case True
    then show ?thesis using jobs_ok_job [OF inv rj] by (simp add: job_ok_def)
  next
    case False
    then have "waiting_for j W \<noteq> 0" using inv by (metis jobs_ok_but_def unat_eq_zero)
    then obtain y where y: "y \<in># W" "snd y = j" by (auto simp: waiting_for_def filter_mset_eq_conv)
    moreover have "waiter_ok c y" using inv y(1) by (simp add: jobs_ok_but_def)
    ultimately have "y = (r, j)" using jobs_ok_job [OF inv rj] by (cases y) (auto simp: waiter_ok_def job_ok_def)
    then show ?thesis using y(1) by simp
  qed
  show "(r, j) \<in> set (regeneration c) \<or> job_done (jobs c j) \<and> job_result (jobs c j) = None" if "(r, j) \<in># W" for r j
    using inv that by (auto simp: jobs_ok_but_def waiter_ok_def)
  show "set (pending c) = {r. \<exists>j. (r, j) \<in> set (regeneration c) \<and> \<not> running (jobs c j)}"
  proof (intro set_eqI iffI CollectI)
    fix r assume r: "r \<in> set (pending c)"
    then obtain j where "(r, j) \<in> set (regeneration c)" using inv by (force simp: jobs_ok_but_def)
    then show "\<exists>j. (r, j) \<in> set (regeneration c) \<and> \<not> running (jobs c j)" using r jobs_ok_job [OF inv] by (auto simp: job_ok_def)
  next
    fix r assume "r \<in> {r. \<exists>j. (r, j) \<in> set (regeneration c) \<and> \<not> running (jobs c j)}"
    then show "r \<in> set (pending c)" using jobs_ok_job [OF inv] by (auto simp: job_ok_def)
  qed
qed

text \<open>C23: Publishing keeps the newest: when \<open>Publish\<close> stores a preparation, the entries are afterwards the new
  one and, before it, the newest part of the unexpired entries of other transactions.\<close>

theorem Publish_keeps_newest:
  assumes "cache_run cost cfg t c W" "sequence_no c \<noteq> - 1" "Publish cost point prep now now2 c = (Ok True, c')"
  shows "anchor c = Some point \<and> (\<exists>kept d.
    suffix kept (filter (\<lambda>x. entry_txid (snd x) \<noteq> m_txid (prep_transaction prep)) (dropWhile (\<lambda>x. expires (snd x) \<le> now) (entries c))) \<and>
    entries c' = kept @ [(sequence_no c + 1, new_entry point prep now2 (cost prep) d c)])"
  using Publish_stores(2) [OF _ _ assms(2,3) refl] cache_run_inv [OF assms(1)] by (auto simp: cache_inv_def)

text \<open>Announcing goes through the entries in order and skips none that fits a message: the announcements
  after a cursor are those of a stretch of the live entries above it, left out only where the inventory
  limit forbids them; the new cursor is the end of that stretch; the batch is bounded in entries and
  (beyond a single announcement) in vectors, and it is empty only when nothing is left to announce.\<close>

theorem AnnouncementsAfter_correct:
  assumes "AnnouncementsAfter cursor maxe maxv None now c = ((out, cursor'), c')" "ready (stats (Expire now c))" "maxe \<noteq> 0" "maxv \<noteq> 0"
  shows "\<exists>taken rest. filter (\<lambda>x. fst x > cursor) (entries (Expire now c)) = taken @ rest \<and>
    out = map announce_entry (filter (\<lambda>x. vectors_of (snd x) \<le> MAX_INVENTORY) taken) \<and>
    cursor' = (if taken = [] then cursor else fst (last taken)) \<and> (rest \<noteq> [] \<longrightarrow> out \<noteq> []) \<and> length out \<le> unat maxe \<and>
    (length out \<le> 1 \<or> sum_list (map (\<lambda>a. vectors_of (snd a)) (filter (\<lambda>x. vectors_of (snd x) \<le> MAX_INVENTORY) taken)) \<le> unat maxv)"
proof -
  have "announce (unat maxe) (unat maxv) (filter (\<lambda>x. fst x > cursor) (entries (Expire now c))) [] 0 cursor = (out, cursor')"
    using assms by (auto simp: AnnouncementsAfter_def Let_def)
  from announce_spec [OF this] show ?thesis using assms(3) by (simp add: unat_gt_0)
qed

section \<open>An example run\<close>

definition demo_config :: TransactionCacheConfig where
  "demo_config = \<lparr>max_entries = 1, max_bytes = 100, lifetime = 10, max_regenerations = 1\<rparr>"

definition demo_point :: ChainPoint where
  "demo_point = \<lparr>height = 1, point_hash = null_hash\<rparr>"

definition demo_prep :: PreparedTransactionProof where
  "demo_prep = \<lparr>prep_transaction = \<lparr>m_bytes = [], m_inputs = [], m_vout_offsets = [], m_txid = null_hash, m_wtxid = null_hash, m_has_witness = False\<rparr>,
     prep_proof = \<lparr>targets = [], hashes = []\<rparr>, prep_leaves = [], prep_positions = [], base_payload_bytes = 1\<rparr>"

definition demo_empty :: cache where
  "demo_empty = (case new_cache demo_config of Ok c \<Rightarrow> Activate demo_point c)"

definition demo_request :: TransactionRegenerationRequest where
  "demo_request = \<lparr>req_txid = null_hash, req_identity = \<lparr>id_epoch = 0, digest = null_hash\<rparr>\<rparr>"

lemmas demo_defs = demo_config_def demo_point_def demo_prep_def demo_empty_def demo_request_def new_cache_def config_ok_def
  no_stats_def Activate_def

lemma demo_empty_run: "cache_run (\<lambda>_. 10) demo_config 0 demo_empty {#}"
proof -
  obtain c where "new_cache demo_config = Ok c" by (simp add: demo_defs)
  then show ?thesis using run_Activate [OF run_new] by (simp add: demo_empty_def)
qed

lemma demo_publish:
  obtains c d where "Publish (\<lambda>_. 10) demo_point demo_prep 0 0 demo_empty = (Ok True, c)" "sequence_no demo_empty \<noteq> - 1"
    "entries c = [(1, new_entry demo_point demo_prep 0 10 d demo_empty)]" "by_txid c null_hash = Some 1" "ready (stats c)"
proof -
  let ?group = "\<lparr>group_txid = m_txid (prep_transaction demo_prep), inventory_type = MSG_UTREEXO_TX, group_positions = []\<rparr>"
  have "Measure demo_prep ?group (of_nat MAX_TX_PAYLOAD) = Ok 2"
    by (simp add: Measure_def demo_prep_def IsRequestType_def CompactSizeBytes_def UniquePositions_def MAX_TX_PAYLOAD_def)
  then obtain b where b: "Prepared_Serialize demo_prep ?group (of_nat MAX_TX_PAYLOAD) = Ok b"
    by (simp add: Prepared_Serialize_def Let_def)
  let ?c = "add_entry demo_point demo_prep 0 10 (proof_digest demo_prep b) demo_empty"
  have p: "Publish (\<lambda>_. 10) demo_point demo_prep 0 0 demo_empty = (Ok True, ?c)"
    unfolding Publish_def b by (simp add: demo_defs Expire.simps evict.simps)
  show thesis
    by (rule that [OF p]) (simp_all add: add_entry_def Let_def demo_defs new_entry_def entry_txid_def)
qed

theorem cache_bounds_witness:
  "\<exists>c. cache_run (\<lambda>_. 10) demo_config 0 c {#} \<and> length (entries c) = 1 \<and> unat (st_bytes (stats c)) = 10"
proof -
  obtain c d where c: "Publish (\<lambda>_. 10) demo_point demo_prep 0 0 demo_empty = (Ok True, c)" "sequence_no demo_empty \<noteq> - 1"
    "entries c = [(1, new_entry demo_point demo_prep 0 10 d demo_empty)]" by (rule demo_publish)
  have run: "cache_run (\<lambda>_. 10) demo_config 0 c {#}" by (rule run_Publish [OF demo_empty_run _ _ c(2,1)]) simp_all
  show ?thesis using cache_bounds [OF run] run c(3) by (intro exI [of _ c]) (simp add: new_entry_def)
qed


theorem cache_jobs_witness:
  "\<exists>c. cache_run (\<lambda>_. 10) demo_config 0 c {#(demo_request, 0)#} \<and> fst (TakeRegeneration c) = Ok (Some demo_request)"
proof -
  let ?c = "snd (WaitFor_begin demo_request 0 0 5 False demo_empty)"
  have e: "WaitFor_begin demo_request 0 0 5 False demo_empty = (Waiting 0, ?c)" "pending ?c = [demo_request]"
    by (simp_all add: WaitFor_begin_def Match_def Expire.simps demo_defs Let_def set_job_def)
  have "cache_run (\<lambda>_. 10) demo_config 0 ?c {#(demo_request, 0)#}" using run_WaitFor [OF demo_empty_run _ _ _ e(1)] by simp
  then show ?thesis using cache_jobs [of "\<lambda>_. 10" demo_config 0 ?c "{#(demo_request, 0)#}"] e(2) by (intro exI [of _ ?c]) simp
qed

theorem Publish_keeps_newest_witness:
  "\<exists>c d. Publish (\<lambda>_. 10) demo_point demo_prep 0 0 demo_empty = (Ok True, c) \<and>
     entries c = [(1, new_entry demo_point demo_prep 0 10 d demo_empty)]"
proof -
  obtain c where c: "Publish (\<lambda>_. 10) demo_point demo_prep 0 0 demo_empty = (Ok True, c)" "sequence_no demo_empty \<noteq> - 1" by (rule demo_publish)
  have "entries demo_empty = []" "sequence_no demo_empty = 0" by (simp_all add: demo_defs)
  then show ?thesis using Publish_keeps_newest [OF demo_empty_run c(2,1)] c(1) by auto
qed

theorem AnnouncementsAfter_correct_witness:
  "\<exists>c out cursor. Publish (\<lambda>_. 10) demo_point demo_prep 0 0 demo_empty = (Ok True, c) \<and>
     AnnouncementsAfter 0 5 5 None 9 c = ((out, cursor), c) \<and> cursor = 1 \<and> length out = 1"
proof -
  obtain c d where c: "Publish (\<lambda>_. 10) demo_point demo_prep 0 0 demo_empty = (Ok True, c)" "sequence_no demo_empty \<noteq> - 1"
    "entries c = [(1, new_entry demo_point demo_prep 0 10 d demo_empty)]" "by_txid c null_hash = Some 1" "ready (stats c)" by (rule demo_publish)
  let ?e = "new_entry demo_point demo_prep 0 10 d demo_empty"
  have x: "Expire 9 c = c" using c(3) by (simp add: Expire.simps new_entry_def demo_defs)
  obtain out cursor where a: "AnnouncementsAfter 0 5 5 None 9 c = ((out, cursor), c)"
    using x by (cases "announce 5 5 (filter (\<lambda>x. fst x > 0) (entries c)) [] 0 0") (simp add: AnnouncementsAfter_def c(5))
  have v: "vectors_of ?e \<le> MAX_INVENTORY" by (simp add: vectors_of_def new_entry_def demo_defs MAX_INVENTORY_def)
  obtain taken rest where t: "[(1, ?e)] = taken @ rest" "out = map announce_entry (filter (\<lambda>x. vectors_of (snd x) \<le> MAX_INVENTORY) taken)"
    "cursor = (if taken = [] then 0 else fst (last taken))" "rest \<noteq> [] \<longrightarrow> out \<noteq> []"
    using AnnouncementsAfter_correct [OF a] x c(3,5) by auto
  then have "taken = [(1, ?e)]" by (cases taken) auto
  then show ?thesis using t v a c(1) by auto
qed

end
