(* ===== verification/BlockParse.thy ===== *)
theory BlockParse
  imports JsonProject Leaf TransactionCache
begin

unbundle bit_operations_syntax

text \<open>
  From a \<open>getblock\<close> answer to an accumulator transition (\<^verbatim>\<open>src/src/core_rpc.cpp\<close>, \<open>ParseVerboseBlock\<close> and what it
  calls; the end of \<^verbatim>\<open>src/src/json_stream.cpp\<close>). JSON values are those of the vendored UniValue library,
  with the accessors that the bridge uses; its parser \<open>UniValue::read\<close> is a parameter. An exception that
  an accessor throws is the outcome \<open>Throw\<close>, which \<open>ParseVerboseBlock\<close> turns into an error.
\<close>

section \<open>JSON values\<close>

datatype UniValue = VNULL | VBOOL bool | VNUM string | VSTR string | VARR "UniValue list" | VOBJ "(string \<times> UniValue) list"

primrec uvTypeName :: "UniValue \<Rightarrow> string" where
  "uvTypeName VNULL = ''null''"
| "uvTypeName (VBOOL b) = ''bool''"
| "uvTypeName (VNUM s) = ''number''"
| "uvTypeName (VSTR s) = ''string''"
| "uvTypeName (VARR vs) = ''array''"
| "uvTypeName (VOBJ kvs) = ''object''"

definition type_error :: "UniValue \<Rightarrow> string \<Rightarrow> string" where
  "type_error v expected = ''JSON value of type '' @ uvTypeName v @ '' is not of expected type '' @ expected"

definition find_value :: "string \<Rightarrow> UniValue \<Rightarrow> UniValue" where
  "find_value key v =
     (case v of VOBJ kvs \<Rightarrow> (case map_of kvs key of Some x \<Rightarrow> x | None \<Rightarrow> VNULL) | _ \<Rightarrow> VNULL)"

definition isObject :: "UniValue \<Rightarrow> bool" where
  "isObject v \<longleftrightarrow> (case v of VOBJ _ \<Rightarrow> True | _ \<Rightarrow> False)"

text \<open>\<open>std::from_chars\<close> for an unsigned integer below \<open>bound\<close>, where the whole text must match.\<close>

definition digit_value :: "nat \<Rightarrow> char \<Rightarrow> nat option" where
  "digit_value base c = (let h = HexDigit c in if h < 0 \<or> int base \<le> h then None else Some (nat h))"

fun digits_value :: "nat \<Rightarrow> string \<Rightarrow> nat \<Rightarrow> nat option" where
  "digits_value base [] acc = Some acc"
| "digits_value base (c # s) acc = (case digit_value base c of None \<Rightarrow> None | Some d \<Rightarrow> digits_value base s (acc * base + d))"

definition from_chars :: "nat \<Rightarrow> nat \<Rightarrow> string \<Rightarrow> nat option" where
  "from_chars base bound s =
     (if s = [] then None
      else case digits_value base s 0 of None \<Rightarrow> None | Some v \<Rightarrow> if v < bound then Some v else None)"

definition getInt32 :: "UniValue \<Rightarrow> u32 Result" where
  "getInt32 v =
     (case v of
        VNUM s \<Rightarrow> (case from_chars 10 (2 ^ 32) s of Some x \<Rightarrow> Ok (of_nat x) | None \<Rightarrow> Throw ''JSON integer out of range'')
      | _ \<Rightarrow> Throw (type_error v ''number''))"

definition get_bool :: "UniValue \<Rightarrow> bool Result" where
  "get_bool v = (case v of VBOOL b \<Rightarrow> Ok b | _ \<Rightarrow> Throw (type_error v ''bool''))"

definition get_str :: "UniValue \<Rightarrow> string Result" where
  "get_str v = (case v of VSTR s \<Rightarrow> Ok s | _ \<Rightarrow> Throw (type_error v ''string''))"

section \<open>Fields\<close>

fun hex_pairs :: "string \<Rightarrow> byte list Result" where
  "hex_pairs (c1 # c2 # hex) =
     (if HexDigit c1 < 0 \<or> HexDigit c2 < 0 then Err ''invalid script hex''
      else and_then (hex_pairs hex) (\<lambda>out. Ok (of_int (push_bit 4 (HexDigit c1) OR HexDigit c2) # out)))"
| "hex_pairs _ = Ok []"

definition ParseHexBytes :: "string \<Rightarrow> byte list Result" where
  "ParseHexBytes hex = (if odd (length hex) then Err ''hex string has odd length'' else hex_pairs hex)"

definition JsonBitcoinHash :: "UniValue \<Rightarrow> string \<Rightarrow> hash256 Result" where
  "JsonBitcoinHash v field =
     (case v of
        VSTR s \<Rightarrow> (case FromBitcoinHex s of Ok h \<Rightarrow> Ok h | Err e \<Rightarrow> Err (field @ '': '' @ e) | Throw e \<Rightarrow> Throw e)
      | _ \<Rightarrow> Err (field @ '' must be a hex string''))"

definition IsBip30UnspendableLeaf :: "hash256 \<Rightarrow> bool" where
  "IsBip30UnspendableLeaf h \<longleftrightarrow>
     FromHex ''84b3af0783b410b4564c5d1f361868559f7cf77cfc65ce2be951210357022fe3'' = Ok h \<or>
     FromHex ''bc6b4bf7cebbd33a18d6b0fe1f8ecc7aa5403083c39ee343b985d51fd0295ad8'' = Ok h"

definition amount_error :: string where
  "amount_error = ''Bitcoin amount is out of range''"

definition ParseBitcoinAmount :: "UniValue \<Rightarrow> u64 Result" where
  "ParseBitcoinAmount v =
     (case v of
        VNUM s \<Rightarrow>
          (if s = [] \<or> hd s = CHR ''-'' then Err ''Bitcoin amount must be non-negative''
           else let whole = takeWhile (\<lambda>c. c \<noteq> CHR ''.'') s;
                    fraction = drop (length whole + 1) s
                in if whole = [] \<or> length fraction > 8 \<or> (\<exists>c \<in> set s. c \<in> {CHR ''e'', CHR ''E'', CHR ''+''})
                   then Err ''Bitcoin amount has invalid precision or notation''
                   else case from_chars 10 (2 ^ 64) whole of
                          None \<Rightarrow> Err amount_error
                        | Some coins \<Rightarrow>
                            if coins > 21000000 then Err amount_error
                            else case (if fraction = [] then Some 0 else from_chars 10 (2 ^ 64) fraction) of
                                   None \<Rightarrow> Err ''Bitcoin amount has invalid fractional digits''
                                 | Some fractional \<Rightarrow>
                                     let satoshis = (of_nat coins * 100000000 + of_nat fractional * 10 ^ (8 - length fraction) :: u64)
                                     in if satoshis > 2100000000000000 then Err amount_error else Ok satoshis)
      | _ \<Rightarrow> Err ''Bitcoin amount must be a JSON number'')"

definition JsonTxOut :: "UniValue \<Rightarrow> TxOut Result" where
  "JsonTxOut v =
     (if \<not> isObject v then Err ''txout must be an object''
      else case find_value ''hex'' (find_value ''scriptPubKey'' v) of
             VSTR hex \<Rightarrow>
               and_then (ParseBitcoinAmount (find_value ''value'' v)) (\<lambda>amount.
               and_then (ParseHexBytes hex) (\<lambda>bytes. Ok \<lparr>tx_value = amount, script_pubkey = bytes\<rparr>))
           | _ \<Rightarrow> Err ''txout scriptPubKey.hex is missing'')"

section \<open>The transition of a block\<close>

record BlockDelta =
  delta_point :: ChainPoint
  previous_block_hash :: hash256
  additions :: "hash256 list"
  deletions :: "hash256 list"
  proof_leaves :: "CompactLeafData list"

record block_state =
  adds :: "hash256 option list"
  dels :: "hash256 list"
  leaves :: "CompactLeafData list"
  same_block_outputs :: "OutPoint \<rightharpoonup> nat"

type_synonym resolver = "u32 \<Rightarrow> hash256 Result"

text \<open>The leaf that an input spends, from its \<open>prevout\<close>.\<close>

definition prevout_leaf :: "resolver \<Rightarrow> OutPoint \<Rightarrow> UniValue \<Rightarrow> LeafData Result" where
  "prevout_leaf block_hash_at_height op prevout =
     (if \<not> isObject prevout
      then Err ''getblock verbosity 3 did not provide an input prevout; Core must be unpruned with undo data''
      else and_then (getInt32 (find_value ''height'' prevout)) (\<lambda>creation_height.
        if creation_height = 0 then Err ''input prevout claims genesis creation height''
        else case block_hash_at_height creation_height of
               Err e \<Rightarrow> Err (''creation block hash lookup failed: '' @ e)
             | Throw e \<Rightarrow> Throw e
             | Ok creation_hash \<Rightarrow>
                 and_then (JsonTxOut prevout) (\<lambda>out.
                 and_then (get_bool (find_value ''generated'' prevout)) (\<lambda>generated.
                   Ok \<lparr>block_hash = creation_hash, outpoint = op, block_height = creation_height, coinbase = generated, leaf_output = out\<rparr>))))"

definition process_input :: "resolver \<Rightarrow> UniValue \<Rightarrow> block_state \<Rightarrow> block_state Result" where
  "process_input block_hash_at_height input st =
     and_then (JsonBitcoinHash (find_value ''txid'' input) ''input txid'') (\<lambda>previous_txid.
     and_then (getInt32 (find_value ''vout'' input)) (\<lambda>vout.
       let op = \<lparr>op_txid = previous_txid, op_index = vout\<rparr>
       in case same_block_outputs st op of
            Some i \<Rightarrow> Ok (st\<lparr>adds := (adds st)[i := None], same_block_outputs := (same_block_outputs st)(op := None)\<rparr>)
          | None \<Rightarrow>
              and_then (prevout_leaf block_hash_at_height op (find_value ''prevout'' input)) (\<lambda>leaf.
                if IsBip30UnspendableLeaf (LeafHash leaf)
                then Err (''block attempts to spend an unspendable BIP30 leaf: '' @ ToHex (LeafHash leaf))
                else Ok (st\<lparr>dels := dels st @ [LeafHash leaf], leaves := leaves st @ [CompactLeaf leaf]\<rparr>))))"

fun process_inputs :: "resolver \<Rightarrow> UniValue list \<Rightarrow> block_state \<Rightarrow> block_state Result" where
  "process_inputs res [] st = Ok st"
| "process_inputs res (input # inputs) st = and_then (process_input res input st) (process_inputs res inputs)"

definition process_output :: "hash256 \<Rightarrow> u32 \<Rightarrow> hash256 \<Rightarrow> bool \<Rightarrow> UniValue \<Rightarrow> block_state \<Rightarrow> block_state Result" where
  "process_output bh h txid cb output_json st =
     and_then (getInt32 (find_value ''n'' output_json)) (\<lambda>index.
     and_then (JsonTxOut output_json) (\<lambda>out.
       if IsProvablyUnspendable out then Ok st
       else let op = \<lparr>op_txid = txid, op_index = index\<rparr>;
                leaf = \<lparr>block_hash = bh, outpoint = op, block_height = h, coinbase = cb, leaf_output = out\<rparr>
            in Ok (st\<lparr>adds := adds st @ [Some (LeafHash leaf)],
                      same_block_outputs := (if same_block_outputs st op = None then (same_block_outputs st)(op \<mapsto> length (adds st))
                                             else same_block_outputs st)\<rparr>)))"

fun process_outputs :: "hash256 \<Rightarrow> u32 \<Rightarrow> hash256 \<Rightarrow> bool \<Rightarrow> UniValue list \<Rightarrow> block_state \<Rightarrow> block_state Result" where
  "process_outputs bh h txid cb [] st = Ok st"
| "process_outputs bh h txid cb (out # outs) st = and_then (process_output bh h txid cb out st) (process_outputs bh h txid cb outs)"

definition process_tx :: "resolver \<Rightarrow> hash256 \<Rightarrow> u32 \<Rightarrow> bool \<Rightarrow> UniValue \<Rightarrow> block_state \<Rightarrow> block_state Result" where
  "process_tx res bh h cb tx st =
     and_then (JsonBitcoinHash (find_value ''txid'' tx) ''transaction id'') (\<lambda>txid.
       case (find_value ''vin'' tx, find_value ''vout'' tx) of
         (VARR inputs, VARR outputs) \<Rightarrow>
           and_then (if cb then Ok st else process_inputs res inputs st) (\<lambda>st1.
             if h = 0 then Ok st1 else process_outputs bh h txid cb outputs st1)
       | _ \<Rightarrow> Err ''transaction vin/vout must be arrays'')"

fun process_txs :: "resolver \<Rightarrow> hash256 \<Rightarrow> u32 \<Rightarrow> bool \<Rightarrow> UniValue list \<Rightarrow> block_state \<Rightarrow> block_state Result" where
  "process_txs res bh h cb [] st = Ok st"
| "process_txs res bh h cb (tx # txs) st = and_then (process_tx res bh h cb tx st) (process_txs res bh h False txs)"

definition parse_block :: "UniValue \<Rightarrow> resolver \<Rightarrow> BlockDelta Result" where
  "parse_block block res =
     (if \<not> isObject block then Err ''getblock result must be an object''
      else and_then (JsonBitcoinHash (find_value ''hash'' block) ''block hash'') (\<lambda>bh.
        and_then (getInt32 (find_value ''height'' block)) (\<lambda>h.
        and_then (if h > 0 then JsonBitcoinHash (find_value ''previousblockhash'' block) ''previous block hash'' else Ok null_hash) (\<lambda>previous.
          case find_value ''tx'' block of
            VARR txs \<Rightarrow>
              if txs = [] then Err ''block has no transactions''
              else and_then (process_txs res bh h True txs \<lparr>adds = [], dels = [], leaves = [], same_block_outputs = Map.empty\<rparr>) (\<lambda>st.
                Ok \<lparr>delta_point = \<lparr>height = h, point_hash = bh\<rparr>, previous_block_hash = previous,
                    additions = List.map_filter id (adds st), deletions = dels st, proof_leaves = leaves st\<rparr>)
          | _ \<Rightarrow> Err ''block has no transactions''))))"

definition ParseVerboseBlock :: "UniValue \<Rightarrow> resolver \<Rightarrow> BlockDelta Result" where
  "ParseVerboseBlock block res =
     (case parse_block block res of
        Throw e \<Rightarrow> Err (''invalid getblock verbosity-3 response: '' @ e)
      | r \<Rightarrow> r)"

text \<open>\<open>UniValue::read\<close> is the parameter \<open>read\<close>.\<close>

definition ParseVerboseBlockJson :: "(string \<Rightarrow> UniValue option) \<Rightarrow> string \<Rightarrow> resolver \<Rightarrow> BlockDelta Result" where
  "ParseVerboseBlockJson read block res =
     (case ProjectVerboseBlock block of
        Err e \<Rightarrow> Err (''invalid streaming getblock response: '' @ e)
      | Throw e \<Rightarrow> Throw e
      | Ok projected \<Rightarrow>
          (case read projected of
             None \<Rightarrow> Err ''streaming getblock projection produced invalid JSON''
           | Some v \<Rightarrow> ParseVerboseBlock v res))"

section \<open>Numbers\<close>

lemma digit_value_10: "digit_value 10 c = Some d \<Longrightarrow> is_digit c \<and> d < 10"
proof -
  assume "digit_value 10 c = Some d"
  then have h: "0 \<le> HexDigit c" "HexDigit c < 10" "d = nat (HexDigit c)" by (auto simp: digit_value_def Let_def split: if_splits)
  then have "48 \<le> (of_char c :: int) \<and> (of_char c :: int) \<le> 57" by (auto simp: HexDigit_def split: if_splits)
  then have "48 \<le> int (of_char c) \<and> int (of_char c) \<le> 57" by (simp add: of_nat_of_char)
  then show ?thesis using h by (simp add: is_digit_def)
qed

lemma digits_value_bound: "digits_value 10 s acc = Some v \<Longrightarrow> v < (acc + 1) * 10 ^ length s"
proof (induction s arbitrary: acc)
  case (Cons c s)
  obtain d where d: "digit_value 10 c = Some d" "digits_value 10 s (acc * 10 + d) = Some v" using Cons.prems by (auto split: option.splits)
  have "v < (acc * 10 + d + 1) * 10 ^ length s" using Cons.IH [OF d(2)] by simp
  also have "\<dots> \<le> ((acc + 1) * 10) * 10 ^ length s" using digit_value_10 [OF d(1)] by (intro mult_right_mono) auto
  finally show ?case by (simp add: algebra_simps)
qed simp

lemma digits_value_digits: "digits_value 10 s acc = Some v \<Longrightarrow> \<forall>c \<in> set s. is_digit c"
  by (induction s arbitrary: acc) (auto dest: digit_value_10 split: option.splits)

text \<open>A decimal amount: whole coins and up to eight digits after the point.\<close>

definition decimal_amount :: "string \<Rightarrow> nat \<Rightarrow> bool" where
  "decimal_amount s a \<longleftrightarrow>
     (\<exists>w f x y. (s = w \<and> f = [] \<or> s = w @ CHR ''.'' # f) \<and> w \<noteq> [] \<and> length f \<le> 8 \<and>
        digits_value 10 w 0 = Some x \<and> digits_value 10 f 0 = Some y \<and> a = x * 10 ^ 8 + y * 10 ^ (8 - length f))"

lemma amount_word:
  assumes "coins \<le> 21000000" "y < 10 ^ n" "n \<le> 8"
  shows "unat (of_nat coins * 100000000 + of_nat y * 10 ^ (8 - n) :: u64) = coins * 10 ^ 8 + y * 10 ^ (8 - n)"
proof -
  have "y * 10 ^ (8 - n) < 10 ^ n * 10 ^ (8 - n)" using assms(2) by simp
  also have "\<dots> = 10 ^ 8" using assms(3) by (simp flip: power_add)
  finally have y: "y * 10 ^ (8 - n) < 10 ^ 8" .
  have "(of_nat coins * 100000000 + of_nat y * 10 ^ (8 - n) :: u64) = of_nat (coins * 10 ^ 8 + y * 10 ^ (8 - n))" by simp
  moreover have "coins * 10 ^ 8 + y * 10 ^ (8 - n) < 2 ^ 64" using assms(1) y by simp
  ultimately show ?thesis by (simp add: unsigned_of_nat take_bit_nat_eq_self del: of_nat_add of_nat_mult)
qed

lemma dot_split: "CHR ''.'' \<notin> set w \<Longrightarrow> takeWhile (\<lambda>c. c \<noteq> CHR ''.'') (w @ CHR ''.'' # f) = w"
  "CHR ''.'' \<notin> set w \<Longrightarrow> takeWhile (\<lambda>c. c \<noteq> CHR ''.'') w = w"
  by (induction w) auto

lemma ParseBitcoinAmount_complete:
  assumes "decimal_amount s n" "n \<le> 2100000000000000"
  shows "\<exists>a. ParseBitcoinAmount (VNUM s) = Ok a \<and> unat a = n"
proof -
  obtain w f x y where s: "s = w \<and> f = [] \<or> s = w @ CHR ''.'' # f" "w \<noteq> []" "length f \<le> 8" "digits_value 10 w 0 = Some x"
    "digits_value 10 f 0 = Some y" "n = x * 10 ^ 8 + y * 10 ^ (8 - length f)" using assms(1) by (auto simp: decimal_amount_def)
  have d: "\<forall>c \<in> set w. is_digit c" "\<forall>c \<in> set f. is_digit c" using s(4,5) digits_value_digits by blast+
  have y: "y < 10 ^ length f" using digits_value_bound [OF s(5)] by simp
  have "(10 :: nat) ^ length f \<le> 10 ^ 8" using s(3) by (intro power_increasing) auto
  then have "y < 10 ^ 8" using y by linarith
  then have y64: "y < 2 ^ 64" by simp
  have "x * 10 ^ 8 \<le> 2100000000000000" using s(6) assms(2) by linarith
  then have x: "x \<le> 21000000" by simp
  have ndot: "CHR ''.'' \<notin> set w" "c \<in> set w \<union> set f \<Longrightarrow> c \<noteq> CHR ''e'' \<and> c \<noteq> CHR ''E'' \<and> c \<noteq> CHR ''+'' \<and> c \<noteq> CHR ''-''" for c
    using d by (auto simp: is_digit_def)
  have hd: "s \<noteq> [] \<and> hd s \<noteq> CHR ''-''" using s(1,2) ndot(2) [of "hd w"] by (cases w) auto
  have w: "takeWhile (\<lambda>c. c \<noteq> CHR ''.'') s = w \<and> drop (length w + 1) s = f"
  proof (cases "s = w \<and> f = []")
    case True
    then show ?thesis using dot_split(2) [OF ndot(1)] by simp
  next
    case False
    then have "s = w @ CHR ''.'' # f" using s(1) by blast
    then show ?thesis using dot_split(1) [OF ndot(1), of f] by simp
  qed
  note w = conjunct1 [OF w] conjunct2 [OF w]
  have e: "\<not> (\<exists>c \<in> set s. c \<in> {CHR ''e'', CHR ''E'', CHR ''+''})"
    using s(1) ndot(2) [of "CHR ''e''"] ndot(2) [of "CHR ''E''"] ndot(2) [of "CHR ''+''"] by auto
  have fx: "from_chars 10 (2 ^ 64) w = Some x" using s(2,4) x by (simp add: from_chars_def)
  have fy: "(if f = [] then Some 0 else from_chars 10 (2 ^ 64) f) = Some y" using s(5) y64 by (auto simp: from_chars_def)
  let ?a = "of_nat x * 100000000 + of_nat y * 10 ^ (8 - length f) :: u64"
  have a: "unat ?a = n" using amount_word [OF x y s(3)] s(6) by simp
  then have "\<not> ?a > 2100000000000000" using assms(2) by (simp add: word_less_nat_alt)
  then have "ParseBitcoinAmount (VNUM s) = Ok ?a"
    unfolding ParseBitcoinAmount_def UniValue.case Let_def w fx fy option.case using hd s(2,3) e x by simp
  then show ?thesis using a by blast
qed

lemma from_chars_Some: "from_chars b n s = Some v \<longleftrightarrow> s \<noteq> [] \<and> digits_value b s 0 = Some v \<and> v < n"
  by (auto simp: from_chars_def split: option.splits if_splits)

lemma ParseBitcoinAmount_sound:
  assumes "ParseBitcoinAmount v = Ok a"
  shows "\<exists>s. v = VNUM s \<and> decimal_amount s (unat a) \<and> unat a \<le> 2100000000000000"
proof -
  obtain s where v: "v = VNUM s" using assms by (cases v) (auto simp: ParseBitcoinAmount_def)
  define w where "w = takeWhile (\<lambda>c. c \<noteq> CHR ''.'') s"
  define f where "f = drop (length w + 1) s"
  have ok: "\<not> (s = [] \<or> hd s = CHR ''-'')" "\<not> (w = [] \<or> length f > 8 \<or> (\<exists>c \<in> set s. c \<in> {CHR ''e'', CHR ''E'', CHR ''+''}))"
    using assms unfolding v ParseBitcoinAmount_def UniValue.case Let_def w_def [symmetric] f_def [symmetric] by (auto split: if_splits)
  have res: "(case from_chars 10 (2 ^ 64) w of
                None \<Rightarrow> Err amount_error
              | Some coins \<Rightarrow>
                  if coins > 21000000 then Err amount_error
                  else case (if f = [] then Some 0 else from_chars 10 (2 ^ 64) f) of
                         None \<Rightarrow> Err ''Bitcoin amount has invalid fractional digits''
                       | Some fractional \<Rightarrow>
                           if (of_nat coins * 100000000 + of_nat fractional * 10 ^ (8 - length f) :: u64) > 2100000000000000 then Err amount_error
                           else Ok (of_nat coins * 100000000 + of_nat fractional * 10 ^ (8 - length f) :: u64)) = Ok a"
    using assms unfolding v ParseBitcoinAmount_def UniValue.case Let_def w_def [symmetric] f_def [symmetric] if_not_P [OF ok(1)] if_not_P [OF ok(2)] .
  obtain x where x: "from_chars 10 (2 ^ 64) w = Some x" "x \<le> 21000000" using res by (auto simp: not_less split: option.splits if_splits)
  obtain y where y: "(if f = [] then Some 0 else from_chars 10 (2 ^ 64) f) = Some y" using res x by (auto split: option.splits)
  have xy: "digits_value 10 w 0 = Some x" "digits_value 10 f 0 = Some y" using x y by (auto simp: from_chars_Some split: if_splits)
  have l: "length f \<le> 8" "w \<noteq> []" using ok(2) by auto
  have y8: "y < 10 ^ length f" using digits_value_bound [OF xy(2)] by simp
  have a: "a = of_nat x * 100000000 + of_nat y * 10 ^ (8 - length f)" "a \<le> 2100000000000000" using res x y by (auto split: if_splits)
  have "unat a = x * 10 ^ 8 + y * 10 ^ (8 - length f)" using a(1) amount_word [OF x(2) y8 l(1)] by simp
  moreover have "s = w \<and> f = [] \<or> s = w @ CHR ''.'' # f"
  proof (cases "dropWhile (\<lambda>c. c \<noteq> CHR ''.'') s")
    case Nil
    then have "s = w" unfolding w_def by (metis append_Nil2 takeWhile_dropWhile_id)
    then show ?thesis by (simp add: f_def)
  next
    case (Cons c r)
    then have c: "c = CHR ''.''" by (metis (mono_tags, lifting) hd_dropWhile list.discI list.sel(1))
    have "s = w @ CHR ''.'' # r" using takeWhile_dropWhile_id [of "\<lambda>c. c \<noteq> CHR ''.''" s] Cons c by (simp add: w_def)
    then show ?thesis by (simp add: f_def)
  qed
  ultimately have "decimal_amount s (unat a)" unfolding decimal_amount_def using l xy by blast
  then show ?thesis using v a(2) by (simp add: word_le_nat_alt)
qed

section \<open>The net effect of a block\<close>

record block_tx =
  btx_id :: hash256
  btx_spends :: "(OutPoint \<times> LeafData) list"
  btx_outs :: "(u32 \<times> TxOut) list"

text \<open>The outputs a transaction adds to the accumulator, with their leaf hashes.\<close>

definition created :: "hash256 \<Rightarrow> u32 \<Rightarrow> bool \<Rightarrow> block_tx \<Rightarrow> (OutPoint \<times> hash256) list" where
  "created bh h cb tx =
     (if h = 0 then []
      else map (\<lambda>(n, out). let op = \<lparr>op_txid = btx_id tx, op_index = n\<rparr>
                           in (op, LeafHash \<lparr>block_hash = bh, outpoint = op, block_height = h, coinbase = cb, leaf_output = out\<rparr>))
             (filter (\<lambda>(n, out). \<not> IsProvablyUnspendable out) (btx_outs tx)))"

fun created_all :: "hash256 \<Rightarrow> u32 \<Rightarrow> bool \<Rightarrow> block_tx list \<Rightarrow> (OutPoint \<times> hash256) list" where
  "created_all bh h cb [] = []"
| "created_all bh h cb (tx # txs) = created bh h cb tx @ created_all bh h False txs"

definition all_spends :: "block_tx list \<Rightarrow> (OutPoint \<times> LeafData) list" where
  "all_spends txs = concat (map btx_spends txs)"

text \<open>The JSON of inputs, outputs and transactions, where \<open>made\<close> are the outpoints created before.\<close>

definition input_decodes :: "resolver \<Rightarrow> OutPoint set \<Rightarrow> UniValue \<Rightarrow> OutPoint \<times> LeafData \<Rightarrow> bool" where
  "input_decodes res made v x \<longleftrightarrow>
     JsonBitcoinHash (find_value ''txid'' v) ''input txid'' = Ok (op_txid (fst x)) \<and> getInt32 (find_value ''vout'' v) = Ok (op_index (fst x)) \<and>
     (fst x \<notin> made \<longrightarrow> prevout_leaf res (fst x) (find_value ''prevout'' v) = Ok (snd x) \<and> \<not> IsBip30UnspendableLeaf (LeafHash (snd x)))"

definition output_decodes :: "UniValue \<Rightarrow> u32 \<times> TxOut \<Rightarrow> bool" where
  "output_decodes v x \<longleftrightarrow> getInt32 (find_value ''n'' v) = Ok (fst x) \<and> JsonTxOut v = Ok (snd x)"

definition tx_decodes :: "resolver \<Rightarrow> u32 \<Rightarrow> bool \<Rightarrow> OutPoint set \<Rightarrow> UniValue \<Rightarrow> block_tx \<Rightarrow> bool" where
  "tx_decodes res h cb made v tx \<longleftrightarrow>
     JsonBitcoinHash (find_value ''txid'' v) ''transaction id'' = Ok (btx_id tx) \<and>
     (\<exists>ins outs. find_value ''vin'' v = VARR ins \<and> find_value ''vout'' v = VARR outs \<and>
        (if cb then btx_spends tx = [] else list_all2 (input_decodes res made) ins (btx_spends tx)) \<and>
        (h \<noteq> 0 \<longrightarrow> list_all2 output_decodes outs (btx_outs tx)))"

fun txs_decode :: "resolver \<Rightarrow> hash256 \<Rightarrow> u32 \<Rightarrow> bool \<Rightarrow> OutPoint set \<Rightarrow> UniValue list \<Rightarrow> block_tx list \<Rightarrow> bool" where
  "txs_decode res bh h cb made [] [] = True"
| "txs_decode res bh h cb made (v # vs) (tx # txs) =
     (tx_decodes res h cb made v tx \<and> txs_decode res bh h False (made \<union> fst ` set (created bh h cb tx)) vs txs)"
| "txs_decode res bh h cb made _ _ = False"

text \<open>No transaction spends an output of itself or of a later one.\<close>

fun ordered :: "hash256 \<Rightarrow> u32 \<Rightarrow> bool \<Rightarrow> block_tx list \<Rightarrow> bool" where
  "ordered bh h cb [] = True"
| "ordered bh h cb (tx # txs) = (fst ` set (btx_spends tx) \<inter> fst ` set (created_all bh h cb (tx # txs)) = {} \<and> ordered bh h False txs)"

definition block_inv :: "(OutPoint \<times> hash256) list \<Rightarrow> OutPoint set \<Rightarrow> block_state \<Rightarrow> bool" where
  "block_inv C S st \<longleftrightarrow> adds st = map (\<lambda>x. if fst x \<in> S then None else Some (snd x)) C \<and>
     (\<forall>op i. same_block_outputs st op = Some i \<longleftrightarrow> op \<notin> S \<and> i < length C \<and> fst (C ! i) = op)"

lemma block_inv_None: "block_inv C S st \<Longrightarrow> same_block_outputs st op = None \<longleftrightarrow> op \<in> S \<or> op \<notin> fst ` set C"
proof -
  assume inv: "block_inv C S st"
  have "op \<in> fst ` set C \<longleftrightarrow> (\<exists>i < length C. fst (C ! i) = op)" by (auto simp: set_conv_nth)
  moreover have "(\<exists>i. same_block_outputs st op = Some i) \<longleftrightarrow> op \<notin> S \<and> (\<exists>i < length C. fst (C ! i) = op)"
    using inv unfolding block_inv_def by blast
  moreover have "same_block_outputs st op = None \<longleftrightarrow> \<not> (\<exists>i. same_block_outputs st op = Some i)" by simp
  ultimately show ?thesis by argo
qed

lemma process_inputs_ok:
  assumes "list_all2 (input_decodes res (fst ` set C)) ins sp" "distinct (map fst C)" "distinct (map fst sp)"
    "fst ` set sp \<inter> S = {}" "block_inv C S st"
  shows "\<exists>st'. process_inputs res ins st = Ok st' \<and> block_inv C (S \<union> fst ` set sp) st' \<and>
    dels st' = dels st @ map (LeafHash \<circ> snd) (filter (\<lambda>x. fst x \<notin> fst ` set C) sp) \<and>
    leaves st' = leaves st @ map (CompactLeaf \<circ> snd) (filter (\<lambda>x. fst x \<notin> fst ` set C) sp)"
  using assms
proof (induction ins sp arbitrary: st S rule: list_all2_induct)
  case Nil
  then show ?case by simp
next
  case (Cons v vs x sp)
  have ns: "fst x \<notin> S" "fst x \<notin> fst ` set sp" using Cons.prems by auto
  have dec: "input_decodes res (fst ` set C) v x" by (rule Cons.hyps(1))
  obtain t ix where fx: "fst x = \<lparr>op_txid = t, op_index = ix\<rparr>" by (cases "fst x")
  obtain st1 where st1: "process_input res v st = Ok st1" "block_inv C (insert (fst x) S) st1"
    "dels st1 = dels st @ map (LeafHash \<circ> snd) (filter (\<lambda>x. fst x \<notin> fst ` set C) [x])"
    "leaves st1 = leaves st @ map (CompactLeaf \<circ> snd) (filter (\<lambda>x. fst x \<notin> fst ` set C) [x])"
  proof (cases "fst x \<in> fst ` set C")
    case True
    then obtain i where i: "same_block_outputs st (fst x) = Some i" using block_inv_None [OF Cons.prems(4), of "fst x"] ns(1) by auto
    let ?st = "st\<lparr>adds := (adds st)[i := None], same_block_outputs := (same_block_outputs st)(fst x := None)\<rparr>"
    have ci: "i < length C" "fst (C ! i) = fst x" using i Cons.prems(4) by (auto simp: block_inv_def)
    have uniq: "j < length C \<Longrightarrow> fst (C ! j) = fst x \<longleftrightarrow> j = i" for j
      using ci Cons.prems(1) by (metis length_map nth_eq_iff_index_eq nth_map)
    have "(adds st)[i := None] = map (\<lambda>y. if fst y \<in> insert (fst x) S then None else Some (snd y)) C"
      using Cons.prems(4) uniq ci(1) by (auto simp: block_inv_def list_eq_iff_nth_eq nth_list_update)
    then have "block_inv C (insert (fst x) S) ?st" using Cons.prems(4) by (auto simp: block_inv_def)
    moreover have "process_input res v st = Ok ?st" using dec i by (simp add: fx process_input_def input_decodes_def Let_def)
    ultimately show thesis using that [of ?st] True by auto
  next
    case False
    then have n: "same_block_outputs st (fst x) = None" using block_inv_None [OF Cons.prems(4), of "fst x"] by blast
    let ?st = "st\<lparr>dels := dels st @ [LeafHash (snd x)], leaves := leaves st @ [CompactLeaf (snd x)]\<rparr>"
    have "process_input res v st = Ok ?st" using dec n False by (simp add: fx process_input_def input_decodes_def Let_def)
    moreover have "\<forall>y \<in> set C. fst y \<noteq> fst x" using False by (metis image_eqI)
    then have "block_inv C (insert (fst x) S) ?st" using Cons.prems(4) by (auto simp: block_inv_def)
    ultimately show thesis using that [of ?st] False by auto
  qed
  obtain st' where st': "process_inputs res vs st1 = Ok st'" "block_inv C (insert (fst x) S \<union> fst ` set sp) st'"
    "dels st' = dels st1 @ map (LeafHash \<circ> snd) (filter (\<lambda>x. fst x \<notin> fst ` set C) sp)"
    "leaves st' = leaves st1 @ map (CompactLeaf \<circ> snd) (filter (\<lambda>x. fst x \<notin> fst ` set C) sp)"
    using Cons.IH [OF Cons.prems(1) _ _ st1(2)] Cons.prems(2,3) ns(2) by auto
  have "insert (fst x) S \<union> fst ` set sp = S \<union> fst ` set (x # sp)" by auto
  then show ?case using st1 st' by (intro exI [of _ st']) auto
qed

lemma process_outputs_ok:
  assumes "list_all2 output_decodes vs outs" "h \<noteq> 0" "block_inv C S st"
    "distinct (map fst (C @ created bh h cb \<lparr>btx_id = txid, btx_spends = sp, btx_outs = outs\<rparr>))"
    "fst ` set (created bh h cb \<lparr>btx_id = txid, btx_spends = sp, btx_outs = outs\<rparr>) \<inter> S = {}"
  shows "\<exists>st'. process_outputs bh h txid cb vs st = Ok st' \<and>
    block_inv (C @ created bh h cb \<lparr>btx_id = txid, btx_spends = sp, btx_outs = outs\<rparr>) S st' \<and> dels st' = dels st \<and> leaves st' = leaves st"
  using assms(1,3-5)
proof (induction vs outs arbitrary: st C rule: list_all2_induct)
  case Nil
  then show ?case by (simp add: created_def)
next
  case (Cons v vs x outs)
  obtain n out where x: "x = (n, out)" by (cases x)
  have dec: "getInt32 (find_value ''n'' v) = Ok n" "JsonTxOut v = Ok out" using Cons.hyps(1) by (auto simp: output_decodes_def x)
  let ?op = "\<lparr>op_txid = txid, op_index = n\<rparr>"
  let ?y = "(?op, LeafHash \<lparr>block_hash = bh, outpoint = ?op, block_height = h, coinbase = cb, leaf_output = out\<rparr>)"
  let ?new = "\<lambda>outs. created bh h cb \<lparr>btx_id = txid, btx_spends = sp, btx_outs = outs\<rparr>"
  show ?case
  proof (cases "IsProvablyUnspendable out")
    case True
    then have "?new (x # outs) = ?new outs" by (simp add: created_def x)
    moreover have "process_output bh h txid cb v st = Ok st" using dec True by (simp add: process_output_def)
    ultimately show ?thesis using Cons.IH [of C st] Cons.prems by simp
  next
    case False
    then have new: "?new (x # outs) = ?y # ?new outs" using assms(2) by (simp add: created_def x Let_def)
    have fresh: "?op \<notin> fst ` set C" "?op \<notin> S" using Cons.prems(2,3) unfolding new by auto
    let ?st = "st\<lparr>adds := adds st @ [Some (snd ?y)], same_block_outputs := (same_block_outputs st)(?op \<mapsto> length (adds st))\<rparr>"
    have p: "process_output bh h txid cb v st = Ok ?st"
      using dec False block_inv_None [OF Cons.prems(1), of ?op] fresh by (simp add: process_output_def Let_def)
    have la: "length (adds st) = length C" using Cons.prems(1) by (simp add: block_inv_def)
    have "block_inv (C @ [?y]) S ?st" unfolding block_inv_def
    proof (intro conjI allI)
      show "adds ?st = map (\<lambda>x. if fst x \<in> S then None else Some (snd x)) (C @ [?y])" using Cons.prems(1) fresh by (simp add: block_inv_def)
      fix op i
      have ne: "fst (C ! i) \<noteq> ?op" if "i < length C" using fresh(1) nth_mem [OF that] by (metis image_eqI)
      have at: "i < length (C @ [?y]) \<and> fst ((C @ [?y]) ! i) = op \<longleftrightarrow> (if op = ?op then i = length C else i < length C \<and> fst (C ! i) = op)"
        using ne by (cases "i < length C"; cases "i = length C") (auto simp: nth_append)
      show "(same_block_outputs ?st op = Some i) = (op \<notin> S \<and> i < length (C @ [?y]) \<and> fst ((C @ [?y]) ! i) = op)"
      proof (cases "op = ?op")
        case True
        then show ?thesis unfolding at using fresh(2) la by auto
      next
        case False
        then have "same_block_outputs ?st op = same_block_outputs st op" by simp
        then show ?thesis unfolding at using Cons.prems(1) False by (simp add: block_inv_def)
      qed
    qed
    then obtain st' where "process_outputs bh h txid cb vs ?st = Ok st'" "block_inv ((C @ [?y]) @ ?new outs) S st'" "dels st' = dels ?st" "leaves st' = leaves ?st"
      using Cons.IH [of "C @ [?y]" ?st] Cons.prems(2,3) unfolding new by auto
    then show ?thesis using p unfolding new by (intro exI [of _ st']) simp
  qed
qed

lemma process_txs_ok:
  assumes "txs_decode res bh h cb (fst ` set C) vs txs" "block_inv C S st" "distinct (map fst (C @ created_all bh h cb txs))"
    "distinct (map fst (all_spends txs))" "fst ` set (all_spends txs) \<inter> S = {}" "fst ` set (created_all bh h cb txs) \<inter> S = {}"
    "ordered bh h cb txs"
  shows "\<exists>st'. process_txs res bh h cb vs st = Ok st' \<and> block_inv (C @ created_all bh h cb txs) (S \<union> fst ` set (all_spends txs)) st' \<and>
    dels st' = dels st @ map (LeafHash \<circ> snd) (filter (\<lambda>x. fst x \<notin> fst ` set (C @ created_all bh h cb txs)) (all_spends txs)) \<and>
    leaves st' = leaves st @ map (CompactLeaf \<circ> snd) (filter (\<lambda>x. fst x \<notin> fst ` set (C @ created_all bh h cb txs)) (all_spends txs))"
  using assms
proof (induction vs arbitrary: txs C S st cb)
  case Nil
  then show ?case by (cases txs) (simp_all add: all_spends_def)
next
  case (Cons v vs)
  obtain tx txs' where txs: "txs = tx # txs'" using Cons.prems(1) by (cases txs) auto
  let ?new = "created bh h cb tx" and ?rest = "created_all bh h False txs'"
  let ?sp = "btx_spends tx"
  have asp: "all_spends txs = ?sp @ all_spends txs'" by (simp add: all_spends_def txs)
  obtain ins outs where d: "JsonBitcoinHash (find_value ''txid'' v) ''transaction id'' = Ok (btx_id tx)"
      "find_value ''vin'' v = VARR ins" "find_value ''vout'' v = VARR outs"
      "if cb then ?sp = [] else list_all2 (input_decodes res (fst ` set C)) ins ?sp" "h \<noteq> 0 \<longrightarrow> list_all2 output_decodes outs (btx_outs tx)"
    using Cons.prems(1) by (auto simp: txs tx_decodes_def)
  have own: "fst ` set ?sp \<inter> fst ` set (?new @ ?rest) = {}" using Cons.prems(7) by (simp add: txs)
  have flt: "filter (\<lambda>x. fst x \<notin> fst ` set C) ?sp = filter (\<lambda>x. fst x \<notin> fst ` set (C @ ?new @ ?rest)) ?sp"
    by (rule filter_cong) (use own in auto)
  obtain st1 where st1: "(if cb then Ok st else process_inputs res ins st) = Ok st1" "block_inv C (S \<union> fst ` set ?sp) st1"
    "dels st1 = dels st @ map (LeafHash \<circ> snd) (filter (\<lambda>x. fst x \<notin> fst ` set C) ?sp)"
    "leaves st1 = leaves st @ map (CompactLeaf \<circ> snd) (filter (\<lambda>x. fst x \<notin> fst ` set C) ?sp)"
  proof (cases cb)
    case True
    then show thesis using that [of st] d(4) Cons.prems(2) by simp
  next
    case False
    have "distinct (map fst C)" "distinct (map fst ?sp)" "fst ` set ?sp \<inter> S = {}" using Cons.prems(3,4,5) asp by auto
    then show thesis using that process_inputs_ok [of res C ins ?sp S st] d(4) Cons.prems(2) False by auto
  qed
  obtain st2 where st2: "(if h = 0 then Ok st1 else process_outputs bh h (btx_id tx) cb outs st1) = Ok st2" "block_inv (C @ ?new) (S \<union> fst ` set ?sp) st2"
    "dels st2 = dels st1" "leaves st2 = leaves st1"
  proof (cases "h = 0")
    case True
    then show thesis using that [of st1] st1(2) by (simp add: created_def)
  next
    case False
    have tx: "\<lparr>btx_id = btx_id tx, btx_spends = ?sp, btx_outs = btx_outs tx\<rparr> = tx" by simp
    have "distinct (map fst (C @ ?new))" "fst ` set ?new \<inter> (S \<union> fst ` set ?sp) = {}" using Cons.prems(3,6) own by (auto simp: txs)
    then show thesis using that process_outputs_ok [of outs "btx_outs tx" h C "S \<union> fst ` set ?sp" st1 bh cb "btx_id tx" ?sp] d(5) False st1(2)
      unfolding tx by auto
  qed
  have step: "process_tx res bh h cb v st = Ok st2" using d(1-3) st1(1) st2(1) by (simp add: process_tx_def)
  have "distinct (map fst ((C @ ?new) @ ?rest))" "distinct (map fst (all_spends txs'))" using Cons.prems(3,4) asp by (auto simp: txs)
  moreover have "fst ` set (all_spends txs') \<inter> (S \<union> fst ` set ?sp) = {}" "fst ` set ?rest \<inter> (S \<union> fst ` set ?sp) = {}"
    using Cons.prems(4,5,6) own asp by (auto simp: txs)
  ultimately obtain st' where st': "process_txs res bh h False vs st2 = Ok st'"
    "block_inv ((C @ ?new) @ ?rest) ((S \<union> fst ` set ?sp) \<union> fst ` set (all_spends txs')) st'"
    "dels st' = dels st2 @ map (LeafHash \<circ> snd) (filter (\<lambda>x. fst x \<notin> fst ` set ((C @ ?new) @ ?rest)) (all_spends txs'))"
    "leaves st' = leaves st2 @ map (CompactLeaf \<circ> snd) (filter (\<lambda>x. fst x \<notin> fst ` set ((C @ ?new) @ ?rest)) (all_spends txs'))"
    using Cons.IH [of False "C @ ?new" txs' "S \<union> fst ` set ?sp" st2] Cons.prems(1,7) st2(2) by (auto simp: txs image_Un)
  have "(S \<union> fst ` set ?sp) \<union> fst ` set (all_spends txs') = S \<union> fst ` set (all_spends txs)" by (auto simp: asp)
  then show ?case using step st' st2(3,4) st1(3,4) flt asp by (intro exI [of _ st']) (simp add: txs)
qed

lemma map_filter_kept: "List.map_filter id (map (\<lambda>x. if fst x \<in> S then None else Some (snd x)) C) = map snd (filter (\<lambda>x. fst x \<notin> S) C)"
  by (induction C) (auto simp: List.map_filter_simps)

section \<open>Properties\<close>

text \<open>C27: The transition read from a block is its net effect: when the JSON decodes to transactions with distinct
  outpoints that spend no output of themselves or of a later one, the additions are the leaf hashes
  of the spendable outputs that the block does not spend itself, the deletions are those of the inputs
  that the block did not create, each in block order, and the compact leaves follow the deletions.\<close>

theorem ParseVerboseBlock_net_effect:
  assumes "isObject v" "JsonBitcoinHash (find_value ''hash'' v) ''block hash'' = Ok bh" "getInt32 (find_value ''height'' v) = Ok h"
    "(if h > 0 then JsonBitcoinHash (find_value ''previousblockhash'' v) ''previous block hash'' else Ok null_hash) = Ok prev"
    "find_value ''tx'' v = VARR vs" "vs \<noteq> []" "txs_decode res bh h True {} vs txs"
    "distinct (map fst (created_all bh h True txs))" "distinct (map fst (all_spends txs))" "ordered bh h True txs"
  shows "ParseVerboseBlock v res =
    Ok \<lparr>delta_point = \<lparr>height = h, point_hash = bh\<rparr>, previous_block_hash = prev,
        additions = map snd (filter (\<lambda>x. fst x \<notin> fst ` set (all_spends txs)) (created_all bh h True txs)),
        deletions = map (LeafHash \<circ> snd) (filter (\<lambda>x. fst x \<notin> fst ` set (created_all bh h True txs)) (all_spends txs)),
        proof_leaves = map (CompactLeaf \<circ> snd) (filter (\<lambda>x. fst x \<notin> fst ` set (created_all bh h True txs)) (all_spends txs))\<rparr>"
proof -
  let ?st = "\<lparr>adds = [], dels = [], leaves = [], same_block_outputs = Map.empty\<rparr>"
  have "block_inv [] {} ?st" by (simp add: block_inv_def)
  then obtain st where st: "process_txs res bh h True vs ?st = Ok st" "block_inv (created_all bh h True txs) (fst ` set (all_spends txs)) st"
    "dels st = map (LeafHash \<circ> snd) (filter (\<lambda>x. fst x \<notin> fst ` set (created_all bh h True txs)) (all_spends txs))"
    "leaves st = map (CompactLeaf \<circ> snd) (filter (\<lambda>x. fst x \<notin> fst ` set (created_all bh h True txs)) (all_spends txs))"
    using process_txs_ok [of res bh h True "[]" vs txs "{}" ?st] assms(7-10) by auto
  have "parse_block v res = Ok \<lparr>delta_point = \<lparr>height = h, point_hash = bh\<rparr>, previous_block_hash = prev,
      additions = List.map_filter id (adds st), deletions = dels st, proof_leaves = leaves st\<rparr>"
    unfolding parse_block_def using assms(1,6) st(1) by (simp only: assms(2-5) and_then.simps UniValue.case if_False not_True_eq_False)
  moreover have "List.map_filter id (adds st) = map snd (filter (\<lambda>x. fst x \<notin> fst ` set (all_spends txs)) (created_all bh h True txs))"
    using st(2) map_filter_kept by (simp add: block_inv_def)
  ultimately show ?thesis using st(3,4) by (simp add: ParseVerboseBlock_def)
qed

text \<open>C28: Amounts are read exactly: a JSON number is accepted as an amount exactly when it is a plain decimal with at least
  one digit before the point and at most eight after it that is at most 21 million coins; the result
  is then that number in satoshis, with no rounding and no overflow of the 64-bit arithmetic.\<close>

theorem ParseBitcoinAmount_correct:
  "ParseBitcoinAmount v = Ok a \<longleftrightarrow> (\<exists>s. v = VNUM s \<and> decimal_amount s (unat a) \<and> unat a \<le> 21000000 * 10 ^ 8)"
proof
  assume "ParseBitcoinAmount v = Ok a"
  then show "\<exists>s. v = VNUM s \<and> decimal_amount s (unat a) \<and> unat a \<le> 21000000 * 10 ^ 8" using ParseBitcoinAmount_sound by simp
next
  assume "\<exists>s. v = VNUM s \<and> decimal_amount s (unat a) \<and> unat a \<le> 21000000 * 10 ^ 8"
  then obtain s where s: "v = VNUM s" "decimal_amount s (unat a)" "unat a \<le> 2100000000000000" by auto
  then obtain b where "ParseBitcoinAmount (VNUM s) = Ok b" "unat b = unat a" using ParseBitcoinAmount_complete by blast
  then show "ParseBitcoinAmount v = Ok a" using s(1) by (simp add: word_unat_eq_iff)
qed

section \<open>A block in JSON\<close>

definition zero_id :: UniValue where
  "zero_id = VSTR (ToBitcoinHex null_hash)"

definition example_output :: UniValue where
  "example_output = VOBJ [(''n'', VNUM ''0''), (''value'', VNUM ''0.5''), (''scriptPubKey'', VOBJ [(''hex'', VSTR ''51'')])]"

definition example_txs :: "UniValue list" where
  "example_txs =
     [VOBJ [(''txid'', zero_id), (''vin'', VARR []), (''vout'', VARR [example_output])],
      VOBJ [(''txid'', zero_id), (''vin'', VARR [VOBJ [(''txid'', zero_id), (''vout'', VNUM ''0'')]]), (''vout'', VARR [])]]"

definition example_json :: UniValue where
  "example_json = VOBJ [(''hash'', zero_id), (''height'', VNUM ''1''), (''previousblockhash'', zero_id), (''tx'', VARR example_txs)]"

theorem ParseVerboseBlock_net_effect_witness:
  "ParseVerboseBlock example_json (\<lambda>_. Err ''none'') =
     Ok \<lparr>delta_point = \<lparr>height = 1, point_hash = null_hash\<rparr>, previous_block_hash = null_hash, additions = [], deletions = [], proof_leaves = []\<rparr>"
proof -
  let ?op = "\<lparr>op_txid = null_hash, op_index = 0\<rparr>"
  let ?out = "\<lparr>tx_value = 50000000, script_pubkey = [0x51]\<rparr>"
  let ?leaf = "\<lparr>block_hash = null_hash, outpoint = ?op, block_height = 0, coinbase = False, leaf_output = ?out\<rparr>"
  let ?txs = "[\<lparr>btx_id = null_hash, btx_spends = [], btx_outs = [(0, ?out)]\<rparr>, \<lparr>btx_id = null_hash, btx_spends = [(?op, ?leaf)], btx_outs = []\<rparr>]"
  have zid: "JsonBitcoinHash zero_id f = Ok null_hash" for f
    by (simp add: zero_id_def JsonBitcoinHash_def FromBitcoinHex_def ToBitcoinHex_def FromHex_ToHex)
  have out: "output_decodes example_output (0, ?out)"
    by (simp add: output_decodes_def example_output_def find_value_def getInt32_def from_chars_def digit_value_def HexDigit_def JsonTxOut_def isObject_def
        ParseBitcoinAmount_def ParseHexBytes_def push_bit_eq_mult)
  have n0: "getInt32 (VNUM ''0'') = Ok 0" "getInt32 (VNUM ''1'') = Ok 1" by (simp_all add: getInt32_def from_chars_def digit_value_def HexDigit_def)
  have cr: "created null_hash 1 True (hd ?txs) = [(?op, LeafHash \<lparr>block_hash = null_hash, outpoint = ?op, block_height = 1, coinbase = True, leaf_output = ?out\<rparr>)]"
    by (simp add: created_def IsProvablyUnspendable_def Let_def)
  then have all: "created_all null_hash 1 True ?txs = [(?op, LeafHash \<lparr>block_hash = null_hash, outpoint = ?op, block_height = 1, coinbase = True, leaf_output = ?out\<rparr>)]"
    by (simp add: created_def)
  have dec: "txs_decode (\<lambda>_. Err ''none'') null_hash 1 True {} example_txs ?txs"
    using cr out by (simp add: example_txs_def tx_decodes_def find_value_def zid input_decodes_def n0)
  have "created_all null_hash 1 False [\<lparr>btx_id = null_hash, btx_spends = [(?op, ?leaf)], btx_outs = []\<rparr>] = []" by (simp add: created_def)
  then have ord: "ordered null_hash 1 True ?txs" by simp
  have j: "isObject example_json" "find_value ''hash'' example_json = zero_id" "find_value ''height'' example_json = VNUM ''1''"
    "find_value ''previousblockhash'' example_json = zero_id" "find_value ''tx'' example_json = VARR example_txs" "example_txs \<noteq> []"
    by (simp_all add: example_json_def find_value_def isObject_def example_txs_def)
  show ?thesis
    using ParseVerboseBlock_net_effect [OF j(1) _ _ _ j(5,6) dec _ _ ord, of null_hash, unfolded all]
    by (simp add: j zid n0 all_spends_def)
qed

end
