(* ===== verification/Http.thy ===== *)
theory Http
  imports JsonProject BlockParse
begin

unbundle bit_operations_syntax

text \<open>
  The HTTP transport of the RPC client (\<^verbatim>\<open>src/src/core_rpc.cpp\<close>, \<open>HttpRpcTransport\<close> and its helpers). The
  operating system is an interface: connecting, sending a part of the request, receiving some bytes and
  reading the cookie file are operations on a state of any type. A call of \<open>send\<close> or \<open>recv\<close> may be
  interrupted again and again, so the loops that repeat it are partial functions, where not returning is
  \<open>None\<close>. A cursor into a text is the text behind it where the code only moves forward; offsets stay
  numbers where they are compared.
\<close>

section \<open>Texts\<close>

fun find_str :: "string \<Rightarrow> string \<Rightarrow> nat option" where
  "find_str pat [] = (if pat = [] then Some 0 else None)"
| "find_str pat (c # s) = (if take (length pat) (c # s) = pat then Some 0 else map_option Suc (find_str pat s))"

definition find_from :: "string \<Rightarrow> string \<Rightarrow> nat \<Rightarrow> nat option" where
  "find_from pat s k = map_option (\<lambda>i. i + k) (find_str pat (drop k s))"

definition CRLF :: string where
  "CRLF = [CHR 0x0d, CHR 0x0a]"

definition tolower :: "char \<Rightarrow> char" where
  "tolower c = (let n = of_char c :: nat in if 65 \<le> n \<and> n \<le> 90 then char_of (n + 32) else c)"

definition Lower :: "string \<Rightarrow> string" where
  "Lower s = map tolower s"

definition contains :: "string \<Rightarrow> string \<Rightarrow> bool" where
  "contains s pat \<longleftrightarrow> find_str pat s \<noteq> None"

definition base64_alphabet :: string where
  "base64_alphabet = ''ABCDEFGHIJKLMNOPQRSTUVWXYZabcdefghijklmnopqrstuvwxyz0123456789+/''"

definition base64_bits :: "char \<Rightarrow> char \<Rightarrow> char \<Rightarrow> u32" where
  "base64_bits a b c = push_bit 16 (of_char a) OR push_bit 8 (of_char b) OR of_char c"

definition base64_char :: "u32 \<Rightarrow> nat \<Rightarrow> char" where
  "base64_char bits k = base64_alphabet ! unat (drop_bit k bits AND 63)"

fun Base64Encode :: "string \<Rightarrow> string" where
  "Base64Encode [] = []"
| "Base64Encode [a] = (let bits = base64_bits a (CHR 0x00) (CHR 0x00) in [base64_char bits 18, base64_char bits 12, CHR ''='', CHR ''=''])"
| "Base64Encode [a, b] = (let bits = base64_bits a b (CHR 0x00) in [base64_char bits 18, base64_char bits 12, base64_char bits 6, CHR ''=''])"
| "Base64Encode (a # b # c # s) =
     (let bits = base64_bits a b c in [base64_char bits 18, base64_char bits 12, base64_char bits 6, base64_char bits 0] @ Base64Encode s)"

definition IsRetryableTransportError :: "string \<Rightarrow> bool" where
  "IsRetryableTransportError error =
     (let lower = Lower error
      in contains lower ''resource temporarily unavailable'' \<or> contains lower ''temporarily unavailable'' \<or>
         contains lower ''temporary failure'' \<or> contains lower ''timed out'' \<or> contains lower ''connection reset'' \<or>
         contains lower ''connection refused'' \<or> contains lower ''could not connect to bitcoin core rpc'' \<or>
         contains lower ''closed a framed rpc response early'')"

section \<open>Chunked bodies\<close>

text \<open>The size in front of a chunk; an extension after a semicolon is ignored.\<close>

definition chunk_size :: "string \<Rightarrow> nat option" where
  "chunk_size line = from_chars 16 (2 ^ 64) (takeWhile (\<lambda>c. c \<noteq> CHR '';'') line)"

function decode_chunks :: "string \<Rightarrow> string \<Rightarrow> string Result" where
  "decode_chunks encoded out =
     (case find_str CRLF encoded of
        None \<Rightarrow> Err ''truncated chunk size''
      | Some line_end \<Rightarrow>
          (case chunk_size (take line_end encoded) of
             None \<Rightarrow> Err ''invalid chunk size''
           | Some n \<Rightarrow>
               let rest = drop (line_end + 2) encoded
               in if n = 0 then Ok out
                  else if n > length rest \<or> length rest - n < 2 then Err ''truncated chunk body''
                  else if take 2 (drop n rest) \<noteq> CRLF then Err ''invalid chunk terminator''
                  else decode_chunks (drop (n + 2) rest) (out @ take n rest)))"
  by pat_completeness auto

termination
  by (relation "measure (\<lambda>(encoded, out). length encoded)") auto

declare decode_chunks.simps [simp del]

definition DecodeChunked :: "string \<Rightarrow> string Result" where
  "DecodeChunked encoded = decode_chunks encoded []"

lemma find_str_le: "find_str pat s = Some i \<Longrightarrow> i + length pat \<le> length s"
proof (induction s arbitrary: i)
  case (Cons c s)
  show ?case
  proof (cases "take (length pat) (c # s) = pat")
    case True
    then have "length pat \<le> length (c # s)" by (metis length_take min.cobounded1)
    then show ?thesis using True Cons.prems by simp
  next
    case False
    then show ?thesis using Cons by auto
  qed
qed (simp split: if_splits)

text \<open>The end of the trailer that starts \<open>cursor\<close> characters into the body, where \<open>rest\<close> is what follows.\<close>

function skip_trailers :: "string \<Rightarrow> nat \<Rightarrow> nat option" where
  "skip_trailers rest cursor =
     (case find_str CRLF rest of
        None \<Rightarrow> None
      | Some trailer_end \<Rightarrow> if trailer_end = 0 then Some (cursor + 2) else skip_trailers (drop (trailer_end + 2) rest) (cursor + trailer_end + 2))"
  by pat_completeness auto

termination
  by (relation "measure (\<lambda>(rest, cursor). length rest)") (auto dest!: find_str_le simp: CRLF_def)

declare skip_trailers.simps [simp del]

function complete_chunks :: "string \<Rightarrow> nat \<Rightarrow> nat option Result" where
  "complete_chunks encoded cursor =
     (case find_str CRLF encoded of
        None \<Rightarrow> Ok None
      | Some line_end \<Rightarrow>
          (case chunk_size (take line_end encoded) of
             None \<Rightarrow> Err ''invalid chunk size''
           | Some n \<Rightarrow>
               let rest = drop (line_end + 2) encoded
               in if n = 0 then Ok (skip_trailers rest (cursor + line_end + 2))
                  else if n > length rest then Ok None
                  else if length rest - n < 2 then Ok None
                  else if take 2 (drop n rest) \<noteq> CRLF then Err ''invalid chunk terminator''
                  else complete_chunks (drop (n + 2) rest) (cursor + line_end + 2 + n + 2)))"
  by pat_completeness auto

termination
  by (relation "measure (\<lambda>(encoded, cursor). length encoded)") auto

declare complete_chunks.simps [simp del]

definition CompleteChunkedSize :: "string \<Rightarrow> nat option Result" where
  "CompleteChunkedSize encoded = complete_chunks encoded 0"

section \<open>Headers and responses\<close>

record HttpHeaders =
  header_end :: nat
  chunked :: bool
  connection_close :: bool
  content_length :: "nat option"

definition trim_blanks :: "string \<Rightarrow> string" where
  "trim_blanks s = (let blank_char = (\<lambda>c. c = CHR '' '' \<or> c = CHR 0x09) in rev (dropWhile blank_char (rev (dropWhile blank_char s))))"

definition header_line :: "string \<Rightarrow> HttpHeaders \<Rightarrow> HttpHeaders Result" where
  "header_line line hdrs =
     (case find_str '':'' line of
        None \<Rightarrow> Ok hdrs
      | Some colon \<Rightarrow>
          let name = Lower (take colon line); val = trim_blanks (drop (colon + 1) line)
          in if name = ''transfer-encoding'' \<and> contains (Lower val) ''chunked'' then Ok (hdrs\<lparr>chunked := True\<rparr>)
             else if name = ''content-length''
             then (case from_chars 10 (2 ^ 64) val of None \<Rightarrow> Err ''invalid HTTP content length'' | Some n \<Rightarrow> Ok (hdrs\<lparr>content_length := Some n\<rparr>))
             else if name = ''connection'' \<and> contains (Lower val) ''close'' then Ok (hdrs\<lparr>connection_close := True\<rparr>)
             else Ok hdrs)"

function header_lines :: "string \<Rightarrow> nat \<Rightarrow> nat \<Rightarrow> HttpHeaders \<Rightarrow> HttpHeaders Result" where
  "header_lines response hend cursor hdrs =
     (if cursor \<ge> hend then Ok hdrs
      else case find_from CRLF response cursor of
             None \<Rightarrow> Err ''malformed HTTP header line''
           | Some line_end \<Rightarrow>
               if line_end > hend then Err ''malformed HTTP header line''
               else and_then (header_line (take (line_end - cursor) (drop cursor response)) hdrs)
                      (\<lambda>hdrs1. header_lines response hend (line_end + 2) hdrs1))"
  by pat_completeness auto

termination
  by (relation "measure (\<lambda>(response, hend, cursor, hdrs). hend - cursor)") (auto simp: find_from_def)

declare header_lines.simps [simp del]

definition ParseHttpHeaders :: "string \<Rightarrow> HttpHeaders Result" where
  "ParseHttpHeaders response =
     (case find_str (CRLF @ CRLF) response of
        None \<Rightarrow> Err ''HTTP response has no complete header''
      | Some hend \<Rightarrow>
          (case find_str CRLF response of
             None \<Rightarrow> Err ''HTTP response has no status line''
           | Some status_end \<Rightarrow>
               if status_end > hend then Err ''HTTP response has no status line''
               else and_then (header_lines response hend (status_end + 2)
                        \<lparr>header_end = hend, chunked = False, connection_close = False, content_length = None\<rparr>) (\<lambda>hdrs.
                      if chunked hdrs \<and> content_length hdrs \<noteq> None then Err ''HTTP response has conflicting body framing''
                      else Ok hdrs)))"

text \<open>The second parser of the header lines, over a complete response.\<close>

definition response_line :: "string \<Rightarrow> bool \<times> nat option \<Rightarrow> (bool \<times> nat option) Result" where
  "response_line line framing =
     (case find_str '':'' line of
        None \<Rightarrow> Ok framing
      | Some colon \<Rightarrow>
          let name = Lower (take colon line); val = dropWhile (\<lambda>c. c = CHR '' '') (drop (colon + 1) line);
              ch = (fst framing \<or> name = ''transfer-encoding'' \<and> contains (Lower val) ''chunked'')
          in if name = ''content-length''
             then (case from_chars 10 (2 ^ 64) val of None \<Rightarrow> Err ''invalid HTTP content length'' | Some n \<Rightarrow> Ok (ch, Some n))
             else Ok (ch, snd framing))"

function response_lines :: "string \<Rightarrow> nat \<Rightarrow> nat \<Rightarrow> bool \<times> nat option \<Rightarrow> (bool \<times> nat option) Result" where
  "response_lines response hend cursor framing =
     (if cursor \<ge> hend then Ok framing
      else case find_from CRLF response cursor of
             None \<Rightarrow> Ok framing
           | Some line_end \<Rightarrow>
               if line_end > hend then Ok framing
               else and_then (response_line (take (line_end - cursor) (drop cursor response)) framing)
                      (\<lambda>framing1. response_lines response hend (line_end + 2) framing1))"
  by pat_completeness auto

termination
  by (relation "measure (\<lambda>(response, hend, cursor, framing). hend - cursor)") (auto simp: find_from_def)

declare response_lines.simps [simp del]

definition from_chars_int :: "string \<Rightarrow> int option" where
  "from_chars_int s =
     (if s \<noteq> [] \<and> hd s = CHR ''-'' then map_option (\<lambda>x. - int x) (from_chars 10 (2 ^ 31 + 1) (tl s))
      else map_option int (from_chars 10 (2 ^ 31) s))"

fun show_digits :: "nat \<Rightarrow> string" where
  "show_digits n = (if n < 10 then [char_of (48 + n)] else show_digits (n div 10) @ [char_of (48 + n mod 10)])"

declare show_digits.simps [simp del]

definition to_string :: "int \<Rightarrow> string" where
  "to_string i = (if i < 0 then CHR ''-'' # show_digits (nat (- i)) else show_digits (nat i))"

definition status_code :: "string \<Rightarrow> int Result" where
  "status_code status =
     (case find_str '' '' status of
        None \<Rightarrow> Err ''invalid HTTP status line''
      | Some first_space \<Rightarrow>
          if length status < first_space + 4 then Err ''invalid HTTP status line''
          else case from_chars_int (take 3 (drop (first_space + 1) status)) of
                 None \<Rightarrow> Err ''invalid HTTP status code''
               | Some code \<Rightarrow> Ok code)"

definition response_body :: "bool \<times> nat option \<Rightarrow> string \<Rightarrow> string Result" where
  "response_body framing body =
     (if fst framing then DecodeChunked body
      else case snd framing of
             None \<Rightarrow> Ok body
           | Some n \<Rightarrow> if length body < n then Err ''truncated HTTP body'' else Ok (take n body))"

definition RPC_PREFIX :: string where
  "RPC_PREFIX = ''Bitcoin Core RPC error:''"

definition starts_with :: "string \<Rightarrow> string \<Rightarrow> bool" where
  "starts_with s pre \<longleftrightarrow> take (length pre) s = pre"

definition accept_status :: "int \<Rightarrow> string \<Rightarrow> string Result" where
  "accept_status code body =
     (if code = 200 then Ok body
      else if code \<in> {400, 404, 500} \<and> (case ExtractJsonRpcResult body of Err e \<Rightarrow> starts_with e RPC_PREFIX | _ \<Rightarrow> False) then Ok body
      else Err (''Bitcoin Core RPC returned HTTP '' @ to_string code @ '': '' @ body))"

definition ParseHttpResponse :: "string \<Rightarrow> string Result" where
  "ParseHttpResponse response =
     (case find_str (CRLF @ CRLF) response of
        None \<Rightarrow> Err ''HTTP response has no header terminator''
      | Some hend \<Rightarrow>
          (case find_str CRLF response of
             None \<Rightarrow> Err ''HTTP response has no status line''
           | Some status_end \<Rightarrow>
               and_then (status_code (take status_end response)) (\<lambda>code.
               and_then (response_lines response hend (status_end + 2) (False, None)) (\<lambda>framing.
               and_then (response_body framing (drop (hend + 4) response)) (\<lambda>body.
                 accept_status code body)))))"

section \<open>The connection\<close>

datatype recv_result = Received string | Closed | RecvInterrupted | RecvFailed string
datatype send_result = Sent nat | SendInterrupted | SendFailed string

text \<open>\<open>op_connect\<close> looks the address up and connects to the first address that answers; \<open>op_cookie\<close> is the content
  of the cookie file, if it can be opened.\<close>

record 'n net_ops =
  op_connect :: "'n \<Rightarrow> unit Result \<times> 'n"
  op_send :: "string \<Rightarrow> 'n \<Rightarrow> send_result \<times> 'n"
  op_recv :: "'n \<Rightarrow> recv_result \<times> 'n"
  op_cookie :: "'n \<Rightarrow> string option \<times> 'n"

record HttpRpcConfig =
  host :: string
  port :: u16
  path :: string
  authorization :: string
  has_cookie_file :: bool
  max_response_bytes :: nat

record 'n transport =
  net :: 'n
  http_config :: HttpRpcConfig
  socket :: bool
  response_buffer :: string

definition MAX_HEADER_BYTES :: nat where
  "MAX_HEADER_BYTES = 64 * 1024"

definition disconnect :: "'n transport \<Rightarrow> 'n transport" where
  "disconnect st = st\<lparr>socket := False, response_buffer := []\<rparr>"

definition Connect :: "'n net_ops \<Rightarrow> 'n transport \<Rightarrow> unit Result \<times> 'n transport" where
  "Connect ops st =
     (let st1 = disconnect st; (r, n) = op_connect ops (net st1)
      in case r of Ok _ \<Rightarrow> (Ok (), st1\<lparr>net := n, socket := True\<rparr>) | Err e \<Rightarrow> (Err e, st1\<lparr>net := n\<rparr>) | Throw e \<Rightarrow> (Throw e, st1\<lparr>net := n\<rparr>))"

text \<open>The headers, as soon as the buffer has them.\<close>

definition check_headers :: "nat \<Rightarrow> HttpHeaders option \<Rightarrow> string \<Rightarrow> HttpHeaders option Result" where
  "check_headers limit hdrs buffer =
     (if hdrs \<noteq> None then Ok hdrs
      else if find_str (CRLF @ CRLF) buffer \<noteq> None
      then and_then (ParseHttpHeaders buffer) (\<lambda>h.
             if \<exists>n. content_length h = Some n \<and> n > limit then Err ''RPC response exceeds configured size limit'' else Ok (Some h))
      else if length buffer > MAX_HEADER_BYTES then Err ''HTTP response headers exceed size limit''
      else Ok None)"

text \<open>The size of the whole response, where it is known.\<close>

definition response_size :: "HttpHeaders option \<Rightarrow> string \<Rightarrow> nat option Result" where
  "response_size hdrs buffer =
     (case hdrs of
        None \<Rightarrow> Ok None
      | Some h \<Rightarrow>
          let body_begin = header_end h + 4
          in case content_length h of
               Some n \<Rightarrow> Ok (Some (body_begin + n))
             | None \<Rightarrow>
                 if chunked h \<and> length buffer \<ge> body_begin
                 then and_then (CompleteChunkedSize (drop body_begin buffer)) (\<lambda>c. Ok (map_option (\<lambda>k. body_begin + k) c))
                 else Ok None)"

definition complete_response :: "HttpHeaders option \<Rightarrow> string \<Rightarrow> nat option Result" where
  "complete_response hdrs buffer =
     and_then (response_size hdrs buffer) (\<lambda>n. Ok (case n of Some k \<Rightarrow> if length buffer \<ge> k then Some k else None | None \<Rightarrow> None))"

definition take_response :: "HttpHeaders \<Rightarrow> nat \<Rightarrow> 'n transport \<Rightarrow> string Result \<times> 'n transport" where
  "take_response h k st =
     (let response = take k (response_buffer st); st1 = st\<lparr>response_buffer := drop k (response_buffer st)\<rparr>
      in (ParseHttpResponse response, if connection_close h then disconnect st1 else st1))"

definition end_of_stream :: "HttpHeaders option \<Rightarrow> 'n transport \<Rightarrow> string Result \<times> 'n transport" where
  "end_of_stream hdrs st =
     (case hdrs of
        Some h \<Rightarrow> if content_length h = None \<and> \<not> chunked h then (ParseHttpResponse (response_buffer st), disconnect st)
                  else (Err ''Bitcoin Core closed a framed RPC response early'', disconnect st)
      | None \<Rightarrow> (Err ''Bitcoin Core closed a framed RPC response early'', disconnect st))"

partial_function (option) read_loop ::
    "'n net_ops \<Rightarrow> HttpHeaders option \<Rightarrow> 'n transport \<Rightarrow> (string Result \<times> 'n transport) option" where
  "read_loop ops hdrs st =
     (case check_headers (max_response_bytes (http_config st)) hdrs (response_buffer st) of
        Err e \<Rightarrow> Some (Err e, st)
      | Throw e \<Rightarrow> Some (Throw e, st)
      | Ok hdrs1 \<Rightarrow>
          (case complete_response hdrs1 (response_buffer st) of
             Err e \<Rightarrow> Some (Err e, st)
           | Throw e \<Rightarrow> Some (Throw e, st)
           | Ok (Some k) \<Rightarrow> Some (take_response (the hdrs1) k st)
           | Ok None \<Rightarrow>
               (case op_recv ops (net st) of
                  (Closed, n) \<Rightarrow> Some (end_of_stream hdrs1 (st\<lparr>net := n\<rparr>))
                | (RecvInterrupted, n) \<Rightarrow> read_loop ops hdrs1 (st\<lparr>net := n\<rparr>)
                | (RecvFailed e, n) \<Rightarrow> Some (Err (''reading RPC response failed: '' @ e), disconnect (st\<lparr>net := n\<rparr>))
                | (Received bytes, n) \<Rightarrow>
                    if length (response_buffer st) + length bytes > max_response_bytes (http_config st) + MAX_HEADER_BYTES
                    then Some (Err ''RPC response exceeds configured size limit'', disconnect (st\<lparr>net := n\<rparr>))
                    else read_loop ops hdrs1 (st\<lparr>net := n, response_buffer := response_buffer st @ bytes\<rparr>))))"

definition ReadResponse :: "'n net_ops \<Rightarrow> 'n transport \<Rightarrow> (string Result \<times> 'n transport) option" where
  "ReadResponse ops st = read_loop ops None st"

section \<open>Requests\<close>

text \<open>Sending from the position \<open>sent\<close>: the outcome and how much was sent.\<close>

partial_function (option) send_loop :: "'n net_ops \<Rightarrow> string \<Rightarrow> nat \<Rightarrow> 'n \<Rightarrow> (unit Result \<times> nat \<times> 'n) option" where
  "send_loop ops wire sent n =
     (if sent \<ge> length wire then Some (Ok (), sent, n)
      else case op_send ops (drop sent wire) n of
             (SendInterrupted, n1) \<Rightarrow> send_loop ops wire sent n1
           | (SendFailed e, n1) \<Rightarrow> Some (Err (''sending RPC request failed: '' @ e), sent, n1)
           | (Sent k, n1) \<Rightarrow> send_loop ops wire (sent + k) n1)"

definition request_text :: "HttpRpcConfig \<Rightarrow> string \<Rightarrow> string" where
  "request_text cfg body =
     ''POST '' @ path cfg @ '' HTTP/1.1'' @ CRLF @
     ''Host: '' @ host cfg @ '':'' @ show_digits (unat (port cfg)) @ CRLF @
     ''Authorization: Basic '' @ Base64Encode (authorization cfg) @ CRLF @
     ''Content-Type: application/json'' @ CRLF @
     ''Content-Length: '' @ show_digits (length body) @ CRLF @
     ''Connection: keep-alive'' @ CRLF @ CRLF @ body"

fun post_attempts :: "'n net_ops \<Rightarrow> string \<Rightarrow> nat list \<Rightarrow> 'n transport \<Rightarrow> (string Result \<times> 'n transport) option" where
  "post_attempts ops wire [] st = Some (Err ''sending RPC request failed after reconnect'', st)"
| "post_attempts ops wire (attempt # attempts) st =
     (case (if socket st then (Ok (), st) else Connect ops st) of
        (Err e, st1) \<Rightarrow> Some (Err e, st1)
      | (Throw e, st1) \<Rightarrow> Some (Throw e, st1)
      | (Ok _, st1) \<Rightarrow>
          (case send_loop ops wire 0 (net st1) of
             None \<Rightarrow> None
           | Some (Ok _, _, n) \<Rightarrow> ReadResponse ops (st1\<lparr>net := n\<rparr>)
           | Some (Throw e, _, n) \<Rightarrow> Some (Throw e, st1\<lparr>net := n\<rparr>)
           | Some (Err e, sent, n) \<Rightarrow>
               let st2 = disconnect (st1\<lparr>net := n\<rparr>)
               in if sent = 0 \<and> attempt = 0 then post_attempts ops wire attempts st2 else Some (Err e, st2)))"

definition PostWithAuthorization :: "'n net_ops \<Rightarrow> string \<Rightarrow> 'n transport \<Rightarrow> (string Result \<times> 'n transport) option" where
  "PostWithAuthorization ops body st = post_attempts ops (request_text (http_config st) body) [0, 1] st"

definition ReadCookieAuthorization :: "string option \<Rightarrow> string Result" where
  "ReadCookieAuthorization file =
     (case file of
        None \<Rightarrow> Err ''could not open Bitcoin Core cookie file''
      | Some text \<Rightarrow>
          let cookie = takeWhile (\<lambda>c. c \<noteq> CHR 0x0a) text
          in if cookie = [] \<or> \<not> contains cookie '':'' then Err ''Bitcoin Core cookie is malformed'' else Ok cookie)"

definition UNAUTHORIZED :: string where
  "UNAUTHORIZED = ''Bitcoin Core RPC returned HTTP 401:''"

definition Post :: "'n net_ops \<Rightarrow> string \<Rightarrow> 'n transport \<Rightarrow> (string Result \<times> 'n transport) option" where
  "Post ops body st =
     (case PostWithAuthorization ops body st of
        Some (Err e, st1) \<Rightarrow>
          if \<not> has_cookie_file (http_config st1) \<or> \<not> starts_with e UNAUTHORIZED then Some (Err e, st1)
          else (let (file, n) = op_cookie ops (net st1); st2 = st1\<lparr>net := n\<rparr>
                in case ReadCookieAuthorization file of
                     Ok cookie \<Rightarrow>
                       if cookie = authorization (http_config st2) then Some (Err e, st2)
                       else PostWithAuthorization ops body (disconnect (st2\<lparr>http_config := (http_config st2)\<lparr>authorization := cookie\<rparr>\<rparr>))
                   | _ \<Rightarrow> Some (Err e, st2))
      | r \<Rightarrow> r)"

section \<open>Searching in a text that grows\<close>

lemma find_str_extend: "find_str pat s = Some i \<Longrightarrow> pat \<noteq> [] \<Longrightarrow> find_str pat (s @ t) = Some i"
proof (induction s arbitrary: i)
  case (Cons c s)
  show ?case
  proof (cases "take (length pat) (c # s) = pat")
    case True
    then have "length pat \<le> length (c # s)" by (metis length_take min.cobounded1)
    then have "take (length pat) ((c # s) @ t) = pat" using True by (simp only: take_append) simp
    then show ?thesis using True Cons.prems by simp
  next
    case False
    then obtain j where j: "find_str pat s = Some j" "i = Suc j" using Cons.prems by auto
    then have "length pat \<le> length s" using find_str_le by fastforce
    then have "take (length pat) (c # s @ t) \<noteq> pat" using False take_append [of "length pat" "c # s" t] by simp
    then show ?thesis using Cons.IH [OF j(1) Cons.prems(2)] j by simp
  qed
qed simp

lemma find_str_exists: "take (length pat) (drop j s) = pat \<Longrightarrow> \<exists>i \<le> j. find_str pat s = Some i"
proof (induction s arbitrary: j)
  case (Cons c s)
  show ?case
  proof (cases j)
    case 0
    then show ?thesis using Cons.prems by simp
  next
    case (Suc k)
    then obtain i where "i \<le> k" "find_str pat s = Some i" using Cons by auto
    then show ?thesis using Suc by (cases "take (length pat) (c # s) = pat") auto
  qed
qed simp

lemma find_str_at: "find_str pat s = Some i \<Longrightarrow> take (length pat) (drop i s) = pat"
  by (induction s arbitrary: i) (auto split: if_splits)

lemma find_str_prefix:
  assumes "find_str pat (p @ t) = Some i" "pat \<noteq> []"
  shows "find_str pat p = (if i + length pat \<le> length p then Some i else None)"
proof (cases "find_str pat p")
  case None
  have "\<not> i + length pat \<le> length p"
  proof
    assume "i + length pat \<le> length p"
    then have "take (length pat) (drop i p) = pat" using find_str_at [OF assms(1)] by simp
    then show False using find_str_exists [of pat i p] None by auto
  qed
  then show ?thesis using None by simp
next
  case (Some j)
  then have "j = i" using find_str_extend [OF Some assms(2), of t] assms(1) by simp
  then show ?thesis using Some find_str_le [OF Some] by simp
qed

lemma CRLF_facts [simp]: "CRLF \<noteq> []" "length CRLF = 2" "CRLF @ CRLF \<noteq> []" "length (CRLF @ CRLF) = 4"
  by (simp_all add: CRLF_def)

lemma CRLF_prefix: "find_str CRLF (p @ t) = Some i \<Longrightarrow> find_str CRLF p = (if i + 2 \<le> length p then Some i else None)"
  using find_str_prefix [of CRLF p t i] by simp

lemmas CRLF_extend = find_str_extend [OF _ CRLF_facts(1)]

section \<open>Framing is stable\<close>

lemma skip_trailers_ge: "skip_trailers s c = Some n \<Longrightarrow> c + 2 \<le> n"
  by (induction s c rule: skip_trailers.induct) (subst (asm) skip_trailers.simps, auto split: option.splits if_splits)

lemma skip_trailers_prefix:
  "skip_trailers (p @ t) c = Some n \<Longrightarrow> skip_trailers p c = (if n \<le> c + length p then Some n else None)"
proof (induction p c rule: skip_trailers.induct)
  case (1 p c)
  obtain e where e: "find_str CRLF (p @ t) = Some e" using "1.prems" by (subst (asm) skip_trailers.simps) (auto split: option.splits)
  note fp = CRLF_prefix [OF e]
  consider "e = 0" | "e \<noteq> 0" "e + 2 \<le> length p" | "e \<noteq> 0" "\<not> e + 2 \<le> length p" by blast
  then show ?case
  proof cases
    case 1
    then have "n = c + 2" using "1.prems" e by (subst (asm) skip_trailers.simps) simp
    then show ?thesis using 1 fp by (subst skip_trailers.simps) simp
  next
    case 2
    then have "skip_trailers (drop (e + 2) p @ t) (c + e + 2) = Some n" using "1.prems" e by (subst (asm) skip_trailers.simps) simp
    moreover have "c + e + 2 + length (drop (e + 2) p) = c + length p" using 2 by simp
    ultimately have "skip_trailers (drop (e + 2) p) (c + e + 2) = (if n \<le> c + length p then Some n else None)"
      using "1.IH" [of e] fp 2 by metis
    then show ?thesis using 2 fp by (subst skip_trailers.simps) simp
  next
    case 3
    then have "skip_trailers (drop (e + 2) (p @ t)) (c + e + 2) = Some n" using "1.prems" e by (subst (asm) skip_trailers.simps) simp
    then have "\<not> n \<le> c + length p" using skip_trailers_ge 3(2) by fastforce
    then show ?thesis using 3 fp by (subst skip_trailers.simps) simp
  qed
qed

lemma complete_chunks_ge: "complete_chunks s c = Ok (Some n) \<Longrightarrow> c + 2 \<le> n"
proof (induction s c rule: complete_chunks.induct)
  case (1 s c)
  obtain e N where e: "find_str CRLF s = Some e" "chunk_size (take e s) = Some N"
    using "1.prems" by (subst (asm) complete_chunks.simps) (auto split: option.splits)
  show ?case
  proof (cases "N = 0")
    case True
    then show ?thesis using "1.prems" e skip_trailers_ge [of _ "c + e + 2" n] by (subst (asm) complete_chunks.simps) fastforce
  next
    case False
    then have r: "\<not> N > length (drop (e + 2) s)" "\<not> length (drop (e + 2) s) - N < 2" "\<not> take 2 (drop N (drop (e + 2) s)) \<noteq> CRLF"
      "complete_chunks (drop (N + 2) (drop (e + 2) s)) (c + e + 2 + N + 2) = Ok (Some n)"
      using "1.prems" e by (subst (asm) complete_chunks.simps, auto simp: Let_def split: if_splits)+
    then show ?thesis using "1.IH" [OF e refl False r(1-3) r(4)] by simp
  qed
qed

lemma complete_chunks_prefix:
  "complete_chunks (p @ t) c = Ok (Some n) \<Longrightarrow> complete_chunks p c = Ok (if n \<le> c + length p then Some n else None)"
proof (induction p c rule: complete_chunks.induct)
  case (1 p c)
  obtain e N where e: "find_str CRLF (p @ t) = Some e" "chunk_size (take e (p @ t)) = Some N"
    using "1.prems" by (subst (asm) complete_chunks.simps) (auto split: option.splits)
  note fp = CRLF_prefix [OF e(1)]
  let ?r = "drop (e + 2) p"
  show ?case
  proof (cases "e + 2 \<le> length p")
    case False
    have "\<not> n \<le> c + length p"
    proof (cases "N = 0")
      case True
      then have "skip_trailers (drop (e + 2) (p @ t)) (c + e + 2) = Some n" using "1.prems" e by (subst (asm) complete_chunks.simps) simp
      then show ?thesis using skip_trailers_ge False by fastforce
    next
      case nz: False
      then have "complete_chunks (drop (N + 2) (drop (e + 2) (p @ t))) (c + e + 2 + N + 2) = Ok (Some n)"
        using "1.prems" e by (subst (asm) complete_chunks.simps) (auto simp: Let_def split: if_splits)
      then show ?thesis using complete_chunks_ge False by fastforce
    qed
    then show ?thesis using fp False by (subst complete_chunks.simps) simp
  next
    case le: True
    then have line: "find_str CRLF p = Some e" "chunk_size (take e p) = Some N" using fp e(2) by simp_all
    have rest: "drop (e + 2) (p @ t) = ?r @ t" "c + e + 2 + length ?r = c + length p" using le by simp_all
    show ?thesis
    proof (cases "N = 0")
      case True
      then have "skip_trailers (?r @ t) (c + e + 2) = Some n" using "1.prems" e rest(1) by (subst (asm) complete_chunks.simps) simp
      then have "skip_trailers ?r (c + e + 2) = (if n \<le> c + length p then Some n else None)" using skip_trailers_prefix rest(2) by metis
      then show ?thesis using line True by (subst complete_chunks.simps) simp
    next
      case False
      have body: "take 2 (drop N (?r @ t)) = CRLF" "complete_chunks (drop (N + 2) (?r @ t)) (c + e + 2 + N + 2) = Ok (Some n)"
        using "1.prems" e False unfolding rest(1) [symmetric] by (subst (asm) complete_chunks.simps, auto simp: Let_def split: if_splits)+
      show ?thesis
      proof (cases "N + 2 \<le> length ?r")
        case short: False
        then have "\<not> n \<le> c + length p" using complete_chunks_ge [OF body(2)] rest(2) by linarith
        moreover have "complete_chunks p c = Ok None"
        proof -
          have "length ?r < N \<or> length ?r - N < 2" using short by arith
          then show ?thesis using line False by (subst complete_chunks.simps) (auto simp only: Let_def option.case if_True if_False split: if_split)
        qed
        ultimately show ?thesis by simp
      next
        case True
        then have b: "\<not> N > length ?r" "\<not> length ?r - N < 2" "\<not> take 2 (drop N ?r) \<noteq> CRLF"
          "drop (N + 2) (?r @ t) = drop (N + 2) ?r @ t" "c + e + 2 + N + 2 + length (drop (N + 2) ?r) = c + length p"
          using body(1) rest(2) by simp_all
        have "complete_chunks (drop (N + 2) ?r) (c + e + 2 + N + 2) = Ok (if n \<le> c + length p then Some n else None)"
          using "1.IH" [OF line refl False b(1-3)] body(2) b(4,5) by metis
        then show ?thesis using line False b(1-3) by (subst complete_chunks.simps) (simp add: Let_def)
      qed
    qed
  qed
qed

lemma header_lines_extend:
  "take 2 (drop hend p) = CRLF \<Longrightarrow> header_lines (p @ t) hend cursor h = header_lines p hend cursor h"
proof (induction p hend cursor h rule: header_lines.induct)
  case (1 p hend cursor h)
  show ?case
  proof (cases "cursor \<ge> hend")
    case True
    then show ?thesis by (subst (1 2) header_lines.simps) simp
  next
    case False
    have "take (length CRLF) (drop (hend - cursor) (drop cursor p)) = CRLF" using "1.prems" False by simp
    then obtain i where i: "i \<le> hend - cursor" "find_str CRLF (drop cursor p) = Some i" using find_str_exists by blast
    have len: "i + 2 \<le> length (drop cursor p)" using find_str_le [OF i(2)] by simp
    then have f: "find_from CRLF p cursor = Some (i + cursor)" "find_from CRLF (p @ t) cursor = Some (i + cursor)"
      using i(2) CRLF_extend [OF i(2), of t] by (simp_all add: find_from_def)
    have line: "take i (drop cursor (p @ t)) = take i (drop cursor p)" using len by simp
    have "header_lines (p @ t) hend (i + cursor + 2) h' = header_lines p hend (i + cursor + 2) h'"
      if "header_line (take i (drop cursor p)) h = Ok h'" for h'
      using "1.IH" [OF False f(1) _ "1.prems"] i(1) False by simp
    then show ?thesis using f i(1) False line
      by (subst (1 2) header_lines.simps) (cases "header_line (take i (drop cursor p)) h", auto)
  qed
qed

lemma ParseHttpHeaders_extend:
  assumes "find_str (CRLF @ CRLF) p = Some hend"
  shows "ParseHttpHeaders (p @ t) = ParseHttpHeaders p"
proof -
  have at: "take 4 (drop hend p) = CRLF @ CRLF" using find_str_at [OF assms] by simp
  then have "take 2 (take 4 (drop hend p)) = CRLF" by (simp only:) simp
  then have c: "take 2 (drop hend p) = CRLF" by (simp add: min_def)
  then obtain i where "find_str CRLF p = Some i" using find_str_exists [of CRLF hend p] by auto
  then show ?thesis
    using assms find_str_extend [OF assms, of t] CRLF_extend [of p i t] header_lines_extend [OF c, of t] by (simp add: ParseHttpHeaders_def)
qed

lemma header_lines_end: "header_lines s hend cursor h = Ok h' \<Longrightarrow> header_end h' = header_end h"
proof (induction s hend cursor h rule: header_lines.induct)
  case (1 s hend cursor h)
  have line: "header_line l h = Ok g \<Longrightarrow> header_end g = header_end h" for l g
    by (auto simp: header_line_def Let_def split: option.splits if_splits)
  show ?case
  proof (cases "cursor \<ge> hend")
    case True
    then show ?thesis using "1.prems" by (subst (asm) header_lines.simps) simp
  next
    case False
    then obtain e g where e: "find_from CRLF s cursor = Some e" "\<not> e > hend" "header_line (take (e - cursor) (drop cursor s)) h = Ok g"
      "header_lines s hend (e + 2) g = Ok h'"
      using "1.prems" by (subst (asm) header_lines.simps) (auto simp: and_then_Ok_iff split: option.splits if_splits)
    then show ?thesis using "1.IH" [OF False e(1,2) e(4)] line [OF e(3)] by simp
  qed
qed

lemma ParseHttpHeaders_end: "ParseHttpHeaders s = Ok h \<Longrightarrow> find_str (CRLF @ CRLF) s = Some (header_end h)"
  by (auto simp: ParseHttpHeaders_def and_then_Ok_iff split: option.splits if_splits dest: header_lines_end)

section \<open>Reading a response in pieces\<close>

text \<open>The network delivers the pieces one after the other; a call may be interrupted any number of times.\<close>

inductive delivers :: "'n net_ops \<Rightarrow> 'n \<Rightarrow> string list \<Rightarrow> bool" for ops where
  d_nothing: "delivers ops n []"
| d_piece: "op_recv ops n = (Received f, n') \<Longrightarrow> delivers ops n' fs \<Longrightarrow> delivers ops n (f # fs)"
| d_interrupt: "op_recv ops n = (RecvInterrupted, n') \<Longrightarrow> delivers ops n' fs \<Longrightarrow> delivers ops n fs"

text \<open>The stream \<open>s\<close> starts with a response of \<open>k\<close> characters whose headers are \<open>h\<close>, within the limits.\<close>

definition framed :: "nat \<Rightarrow> string \<Rightarrow> HttpHeaders \<Rightarrow> nat \<Rightarrow> bool" where
  "framed limit s h k \<longleftrightarrow> ParseHttpHeaders s = Ok h \<and> response_size (Some h) s = Ok (Some k) \<and> k \<le> length s \<and>
     header_end h + 4 \<le> MAX_HEADER_BYTES \<and> length s \<le> limit + MAX_HEADER_BYTES \<and> (\<forall>n. content_length h = Some n \<longrightarrow> n \<le> limit)"

lemma framed_size: "framed limit s h k \<Longrightarrow> header_end h + 4 \<le> k"
  by (auto simp: framed_def response_size_def Let_def and_then_Ok_iff split: option.splits if_splits)

lemma check_headers_prefix:
  assumes "framed limit (p @ t) h k" "hdrs = None \<or> hdrs = Some h \<and> header_end h + 4 \<le> length p"
  shows "check_headers limit hdrs p = Ok (if header_end h + 4 \<le> length p then Some h else None)"
proof (cases "hdrs = None")
  case True
  have P: "ParseHttpHeaders (p @ t) = Ok h" "header_end h + 4 \<le> MAX_HEADER_BYTES" "\<forall>n. content_length h = Some n \<longrightarrow> n \<le> limit"
    using assms(1) by (auto simp: framed_def)
  note f = find_str_prefix [OF ParseHttpHeaders_end [OF P(1)] CRLF_facts(3), unfolded CRLF_facts(4)]
  show ?thesis
  proof (cases "header_end h + 4 \<le> length p")
    case le: True
    then have "ParseHttpHeaders p = Ok h" using f ParseHttpHeaders_extend [of p "header_end h" t] P(1) by simp
    then show ?thesis using True le f P(3) by (auto simp: check_headers_def)
  next
    case False
    then show ?thesis using True f P(2) by (simp add: check_headers_def)
  qed
next
  case False
  then show ?thesis using assms(2) by (auto simp: check_headers_def)
qed

lemma complete_response_prefix:
  assumes "framed limit (p @ t) h k"
  shows "complete_response (if header_end h + 4 \<le> length p then Some h else None) p = Ok (if k \<le> length p then Some k else None)"
proof (cases "header_end h + 4 \<le> length p")
  case False
  then show ?thesis using framed_size [OF assms] by (simp add: complete_response_def response_size_def)
next
  case True
  have r: "response_size (Some h) (p @ t) = Ok (Some k)" using assms by (simp add: framed_def)
  show ?thesis
  proof (cases "content_length h")
    case (Some n)
    then show ?thesis using r True by (simp add: complete_response_def response_size_def Let_def)
  next
    case None
    let ?b = "drop (header_end h + 4) p"
    have ch: "chunked h" using r None by (auto simp: response_size_def Let_def split: if_splits)
    then obtain c where c: "CompleteChunkedSize (?b @ t) = Ok (Some c)" "k = header_end h + 4 + c"
      using r None True by (auto simp: response_size_def Let_def and_then_Ok_iff split: if_splits)
    have "CompleteChunkedSize ?b = Ok (if c \<le> length ?b then Some c else None)"
      using complete_chunks_prefix [of ?b t 0 c] c(1) by (simp add: CompleteChunkedSize_def)
    moreover have "c \<le> length ?b \<longleftrightarrow> k \<le> length p" using True c(2) by auto
    ultimately show ?thesis using ch None True c(2) by (simp add: complete_response_def response_size_def Let_def)
  qed
qed

lemma read_loop_done:
  assumes "framed (max_response_bytes (http_config st)) (response_buffer st @ t) h k"
    "hdrs = None \<or> hdrs = Some h \<and> header_end h + 4 \<le> length (response_buffer st)" "k \<le> length (response_buffer st)"
  shows "read_loop ops hdrs st = Some (take_response h k st)"
  using check_headers_prefix [OF assms(1,2)] complete_response_prefix [OF assms(1)] framed_size [OF assms(1)] assms(3)
  by (subst read_loop.simps) simp

lemma read_loop_framed:
  assumes "delivers ops n fs" "net st = n" "framed (max_response_bytes (http_config st)) (response_buffer st @ concat fs) h k"
    "hdrs = None \<or> hdrs = Some h \<and> header_end h + 4 \<le> length (response_buffer st)"
  shows "\<exists>st0 unread. read_loop ops hdrs st = Some (take_response h k st0) \<and> st0 = st\<lparr>net := net st0, response_buffer := response_buffer st0\<rparr> \<and>
    k \<le> length (response_buffer st0) \<and> delivers ops (net st0) unread \<and> response_buffer st0 @ concat unread = response_buffer st @ concat fs"
  using assms
proof (induction n fs arbitrary: st hdrs rule: delivers.induct)
  case (d_nothing n)
  have "k \<le> length (response_buffer st)" using d_nothing(2) by (simp add: framed_def)
  then show ?case using read_loop_done [OF d_nothing(2,3), of ops] \<open>k \<le> length (response_buffer st)\<close> delivers.d_nothing
    by (intro exI [of _ st] exI [of _ "[]"]) auto
next
  case (d_piece n f n' fs)
  note steps = check_headers_prefix [OF d_piece.prems(2,3)] complete_response_prefix [OF d_piece.prems(2)]
  show ?case
  proof (cases "k \<le> length (response_buffer st)")
    case True
    then show ?thesis using read_loop_done [OF d_piece.prems(2,3) True, of ops] True d_piece.prems(1) delivers.d_piece [OF d_piece.hyps(1,2)] by (intro exI [of _ st] exI [of _ "f # fs"]) auto
  next
    case False
    let ?st = "st\<lparr>net := n', response_buffer := response_buffer st @ f\<rparr>"
    let ?h = "if header_end h + 4 \<le> length (response_buffer st) then Some h else None"
    have "length (response_buffer st) + length f \<le> max_response_bytes (http_config st) + MAX_HEADER_BYTES"
      using d_piece.prems(2) by (simp add: framed_def)
    then have "read_loop ops hdrs st = read_loop ops ?h ?st"
      using steps False d_piece.prems(1) d_piece.hyps(1) by (subst read_loop.simps) simp
    moreover have "\<exists>st0 unread. read_loop ops ?h ?st = Some (take_response h k st0) \<and> st0 = ?st\<lparr>net := net st0, response_buffer := response_buffer st0\<rparr> \<and>
      k \<le> length (response_buffer st0) \<and> delivers ops (net st0) unread \<and> response_buffer st0 @ concat unread = response_buffer ?st @ concat fs"
      by (rule d_piece.IH) (use d_piece.prems(2) in simp_all)
    ultimately show ?thesis by simp
  qed
next
  case (d_interrupt n n' fs)
  note steps = check_headers_prefix [OF d_interrupt.prems(2,3)] complete_response_prefix [OF d_interrupt.prems(2)]
  show ?case
  proof (cases "k \<le> length (response_buffer st)")
    case True
    then show ?thesis using read_loop_done [OF d_interrupt.prems(2,3) True, of ops] True d_interrupt.prems(1) delivers.d_interrupt [OF d_interrupt.hyps(1,2)] by (intro exI [of _ st] exI [of _ "fs"]) auto
  next
    case False
    let ?st = "st\<lparr>net := n'\<rparr>"
    let ?h = "if header_end h + 4 \<le> length (response_buffer st) then Some h else None"
    have "read_loop ops hdrs st = read_loop ops ?h ?st"
      using steps False d_interrupt.prems(1) d_interrupt.hyps(1) by (subst read_loop.simps) simp
    moreover have "\<exists>st0 unread. read_loop ops ?h ?st = Some (take_response h k st0) \<and> st0 = ?st\<lparr>net := net st0, response_buffer := response_buffer st0\<rparr> \<and>
      k \<le> length (response_buffer st0) \<and> delivers ops (net st0) unread \<and> response_buffer st0 @ concat unread = response_buffer ?st @ concat fs"
      by (rule d_interrupt.IH) (use d_interrupt.prems(2) in simp_all)
    ultimately show ?thesis by simp
  qed
qed

text \<open>C34: However the network cuts the stream into pieces and interrupts the calls, a response that the headers frame is
  read exactly: the reader returns what the parser makes of precisely the characters of the response, and the rest of
  the stream is left, in the buffer and on the network, for the next one, unless the server closes the connection.\<close>

theorem ReadResponse_framing:
  assumes "delivers ops (net st) fs" "framed (max_response_bytes (http_config st)) (response_buffer st @ concat fs) h k"
  shows "\<exists>st' unread. ReadResponse ops st = Some (ParseHttpResponse (take k (response_buffer st @ concat fs)), st') \<and>
    http_config st' = http_config st \<and>
    (if connection_close h then \<not> socket st' \<and> response_buffer st' = []
     else socket st' = socket st \<and> delivers ops (net st') unread \<and> response_buffer st' @ concat unread = drop k (response_buffer st @ concat fs))"
proof -
  obtain st0 unread where r: "read_loop ops None st = Some (take_response h k st0)" "st0 = st\<lparr>net := net st0, response_buffer := response_buffer st0\<rparr>"
    "k \<le> length (response_buffer st0)" "delivers ops (net st0) unread" "response_buffer st0 @ concat unread = response_buffer st @ concat fs"
    using read_loop_framed [OF assms(1) refl assms(2), of None] by blast
  have "socket st0 = socket st" "http_config st0 = http_config st" by (subst r(2), simp)+
  then show ?thesis using r(1,3,4) unfolding ReadResponse_def r(5) [symmetric]
    by (intro exI [of _ "snd (take_response h k st0)"] exI [of _ unread]) (auto simp: take_response_def Let_def disconnect_def)
qed

text \<open>A body in chunks: the lines with the sizes and the chunks, the last line, the trailers.\<close>

definition plain_line :: "string \<Rightarrow> bool" where
  "plain_line l \<longleftrightarrow> CHR 0x0d \<notin> set l"

definition chunked_text :: "(string \<times> string) list \<Rightarrow> string \<Rightarrow> string list \<Rightarrow> string" where
  "chunked_text cs l trailers = concat (map (\<lambda>(size, data). size @ CRLF @ data @ CRLF) cs) @ l @ CRLF @ concat (map (\<lambda>t. t @ CRLF) trailers) @ CRLF"

lemma find_line: "plain_line l \<Longrightarrow> find_str CRLF (l @ CRLF @ t) = Some (length l)"
  by (induction l) (auto simp: plain_line_def CRLF_def)

lemma skip_trailers_text:
  "\<forall>t \<in> set ts. t \<noteq> [] \<and> plain_line t \<Longrightarrow> skip_trailers (concat (map (\<lambda>t. t @ CRLF) ts) @ CRLF @ extra) c = Some (c + length (concat (map (\<lambda>t. t @ CRLF) ts)) + 2)"
proof (induction ts arbitrary: c)
  case Nil
  then show ?case using find_line [of "[]" extra] by (subst skip_trailers.simps) (simp add: plain_line_def)
next
  case (Cons t ts)
  then show ?case using find_line [of t "concat (map (\<lambda>t. t @ CRLF) ts) @ CRLF @ extra"] by (subst skip_trailers.simps) simp
qed

lemma complete_chunks_text:
  assumes "\<forall>(size, data) \<in> set cs. plain_line size \<and> chunk_size size = Some (length data) \<and> data \<noteq> []"
    "plain_line l" "chunk_size l = Some 0" "\<forall>t \<in> set trailers. t \<noteq> [] \<and> plain_line t"
  shows "complete_chunks (chunked_text cs l trailers @ extra) c = Ok (Some (c + length (chunked_text cs l trailers)))"
  using assms(1)
proof (induction cs arbitrary: c)
  case Nil
  show ?case
    using find_line [OF assms(2)] assms(3) skip_trailers_text [OF assms(4)]
    by (subst complete_chunks.simps) (simp add: chunked_text_def Let_def)
next
  case (Cons a cs)
  obtain size data where a: "a = (size, data)" by (cases a)
  have f: "find_str CRLF (size @ CRLF @ data @ CRLF @ r) = Some (length size)" for r using Cons.prems a find_line by simp
  show ?case
    using Cons a f by (subst complete_chunks.simps) (simp add: chunked_text_def Let_def)
qed

lemma decode_chunks_text:
  assumes "\<forall>(size, data) \<in> set cs. plain_line size \<and> chunk_size size = Some (length data) \<and> data \<noteq> []"
    "plain_line l" "chunk_size l = Some 0"
  shows "decode_chunks (chunked_text cs l trailers @ extra) out = Ok (out @ concat (map snd cs))"
  using assms(1)
proof (induction cs arbitrary: out)
  case Nil
  show ?case using find_line [OF assms(2)] assms(3) by (subst decode_chunks.simps) (simp add: chunked_text_def)
next
  case (Cons a cs)
  obtain size data where a: "a = (size, data)" by (cases a)
  have f: "find_str CRLF (size @ CRLF @ data @ CRLF @ r) = Some (length size)" for r using Cons.prems a find_line by simp
  show ?case using Cons a f by (subst decode_chunks.simps) (simp add: chunked_text_def Let_def)
qed

text \<open>A body in chunks is framed and decoded right: the frame ends with the empty line after the last chunk and the
  trailers, whatever follows, and the decoded text is the data of the chunks in order.\<close>

theorem chunked_body_correct:
  assumes "\<forall>(size, data) \<in> set cs. plain_line size \<and> chunk_size size = Some (length data) \<and> data \<noteq> []"
    "plain_line l" "chunk_size l = Some 0" "\<forall>t \<in> set trailers. t \<noteq> [] \<and> plain_line t"
  shows "CompleteChunkedSize (chunked_text cs l trailers @ extra) = Ok (Some (length (chunked_text cs l trailers))) \<and>
    DecodeChunked (chunked_text cs l trailers) = Ok (concat (map snd cs))"
  using complete_chunks_text [OF assms, of extra 0] decode_chunks_text [OF assms(1-3), of trailers "[]" "[]"]
  by (simp add: CompleteChunkedSize_def DecodeChunked_def)

text \<open>What the reader cannot get past: the headers or the chunks in the buffer are malformed.\<close>

definition malformed :: "nat \<Rightarrow> string \<Rightarrow> string \<Rightarrow> bool" where
  "malformed limit buffer e \<longleftrightarrow> check_headers limit None buffer = Err e \<or>
     (\<exists>h. check_headers limit None buffer = Ok h \<and> complete_response h buffer = Err e)"

text \<open>C35: A malformed response is never dropped: when the reader finds one in the buffer it reports the error but keeps the
  connection and the buffer, so every later request on that connection is sent and answered with the same error.\<close>

theorem Post_repeats_error:
  assumes "socket st" "malformed (max_response_bytes (http_config st)) (response_buffer st) e" "\<not> starts_with e UNAUTHORIZED"
    "send_loop ops (request_text (http_config st) body) 0 (net st) = Some (Ok (), sent, n)"
  shows "Post ops body st = Some (Err e, st\<lparr>net := n\<rparr>) \<and> socket (st\<lparr>net := n\<rparr>) \<and>
    malformed (max_response_bytes (http_config (st\<lparr>net := n\<rparr>))) (response_buffer (st\<lparr>net := n\<rparr>)) e"
proof -
  have "ReadResponse ops (st\<lparr>net := n\<rparr>) = Some (Err e, st\<lparr>net := n\<rparr>)"
    using assms(2) unfolding ReadResponse_def by (subst read_loop.simps) (auto simp: malformed_def)
  then show ?thesis using assms by (simp add: Post_def PostWithAuthorization_def)
qed

section \<open>An example\<close>

text \<open>A network whose state is the list of the pieces to come.\<close>

definition demo_net :: "string list net_ops" where
  "demo_net =
     \<lparr>op_connect = (\<lambda>n. (Ok (), n)), op_send = (\<lambda>s n. (Sent (length s), n)),
      op_recv = (\<lambda>n. case n of [] \<Rightarrow> (RecvFailed ''timed out'', []) | f # fs \<Rightarrow> (Received f, fs)), op_cookie = (\<lambda>n. (None, n))\<rparr>"

lemma demo_net_delivers: "delivers demo_net fs fs"
proof (induction fs)
  case (Cons f fs)
  then show ?case by (rule d_piece [rotated]) (simp add: demo_net_def)
qed (rule d_nothing)

definition demo_http :: HttpRpcConfig where
  "demo_http = \<lparr>host = ''h'', port = 1, path = ''/'', authorization = ''a:b'', has_cookie_file = False, max_response_bytes = 100\<rparr>"

definition demo_header :: string where
  "demo_header = ''H 200'' @ CRLF @ ''Content-Length: 2'' @ CRLF @ CRLF"

lemma demo_lower: "char_of (99 :: nat) = CHR ''c''" "char_of (108 :: nat) = CHR ''l''"
  by code_simp+

lemmas demo_parse = CRLF_def ParseHttpHeaders_def header_lines.simps find_from_def header_line_def Let_def Lower_def tolower_def
  trim_blanks_def from_chars_def digit_value_def HexDigit_def contains_def demo_lower

lemma demo_header_parsed:
  "ParseHttpHeaders (demo_header @ ''okX'') = Ok \<lparr>header_end = 24, chunked = False, connection_close = False, content_length = Some 2\<rparr>"
  by (simp add: demo_header_def demo_parse)

theorem ReadResponse_framing_witness:
  "\<exists>st'. ReadResponse demo_net \<lparr>net = [drop 3 demo_header @ ''o'', ''kX''], http_config = demo_http, socket = True, response_buffer = take 3 demo_header\<rparr> =
     Some (ParseHttpResponse (demo_header @ ''ok''), st') \<and> socket st'"
proof -
  let ?st = "\<lparr>net = [drop 3 demo_header @ ''o'', ''kX''], http_config = demo_http, socket = True, response_buffer = take 3 demo_header\<rparr>"
  let ?h = "\<lparr>header_end = 24, chunked = False, connection_close = False, content_length = Some 2\<rparr>"
  have s: "response_buffer ?st @ concat (net ?st) = demo_header @ ''okX''" by simp
  have l: "length demo_header = 28" by (simp add: demo_header_def)
  have "framed (max_response_bytes (http_config ?st)) (response_buffer ?st @ concat (net ?st)) ?h 30"
    unfolding s using demo_header_parsed l by (simp add: framed_def response_size_def MAX_HEADER_BYTES_def demo_http_def)
  from ReadResponse_framing [OF demo_net_delivers this] show ?thesis unfolding s using l by auto
qed

theorem chunked_body_correct_witness:
  "DecodeChunked (chunked_text [(''2;x'', ''ok''), (''A'', ''0123456789'')] ''0'' [''t: 1'']) = Ok ''ok0123456789''"
  using chunked_body_correct [of "[(''2;x'', ''ok''), (''A'', ''0123456789'')]" "''0''" "[''t: 1'']" "[]"]
  by (simp add: plain_line_def chunk_size_def from_chars_def digit_value_def HexDigit_def)

theorem Post_repeats_error_witness:
  "Post demo_net ''body'' \<lparr>net = [], http_config = demo_http, socket = True, response_buffer = ''H'' @ CRLF @ ''Content-Length: x'' @ CRLF @ CRLF\<rparr> =
     Some (Err ''invalid HTTP content length'',
           \<lparr>net = [], http_config = demo_http, socket = True, response_buffer = ''H'' @ CRLF @ ''Content-Length: x'' @ CRLF @ CRLF\<rparr>)"
proof -
  let ?b = "''H'' @ CRLF @ ''Content-Length: x'' @ CRLF @ CRLF"
  let ?st = "\<lparr>net = [], http_config = demo_http, socket = True, response_buffer = ?b\<rparr>"
  have "check_headers 100 None ?b = Err ''invalid HTTP content length''" by (simp add: check_headers_def demo_parse)
  then have m: "malformed (max_response_bytes (http_config ?st)) (response_buffer ?st) ''invalid HTTP content length''"
    by (simp add: malformed_def demo_http_def)
  have snd_loop: "send_loop demo_net w 0 [] = Some (Ok (), length w, [])" for w
    by (subst send_loop.simps) (simp add: demo_net_def, subst send_loop.simps, simp)
  show ?thesis using Post_repeats_error [OF _ m, of demo_net "''body''"] snd_loop by (simp add: starts_with_def UNAUTHORIZED_def)
qed

end
