(* ===== verification/Arena.thy ===== *)
theory Arena
  imports Prelude
begin

unbundle bit_operations_syntax

text \<open>
  The node arena (\<open>NodeArena\<close> of \<^verbatim>\<open>src/src/forest.cpp\<close>). A node is a slot number with a
  record; free slots are reused. In RAM mode the records live in chunks; in mapped mode a read
  looks first in the RAM overlay \<open>m_dirty\<close>, then in the immutable delta runs from the newest to the
  oldest, then in the mmap base, and every write goes to the overlay. A transaction remembers
  the first before-image of every slot it touches and the free-list operations in order, and
  \<open>RollbackTransaction\<close> undoes them.

  Modelling choices. The chunk vector is a total function with \<open>NodeRecord{}\<close> in the slots that
  were never written; \<open>Ensure\<close> only allocates memory and is not a state change. The vector
  \<open>m_free\<close> is kept with its back at the head of the list. A delta run is the partial function its
  \<open>Find\<close> computes. Memory exhaustion (\<open>std::bad_alloc\<close>) is not modelled; the two exceptions
  \<open>Allocate\<close> itself throws are outcomes.
\<close>

section \<open>Records and state\<close>

type_synonym NodeId = u32

definition NO_NODE :: NodeId where
  "NO_NODE = - 1"

datatype NodeType = FREE | LEAF | BRANCH

record NodeRecord =
  rec_hash :: hash256
  rec_parent :: NodeId
  rec_left :: NodeId
  rec_right :: NodeId
  rec_type :: NodeType

definition empty_record :: NodeRecord where
  "empty_record = \<lparr>rec_hash = null_hash, rec_parent = NO_NODE, rec_left = NO_NODE,
     rec_right = NO_NODE, rec_type = FREE\<rparr>"

record OriginalRecord =
  orig_record :: NodeRecord
  orig_was_dirty :: bool

record NodeArena =
  m_ram :: "NodeId \<Rightarrow> NodeRecord"
  m_free :: "NodeId list"
  m_free_set :: "NodeId set"
  m_base :: "NodeId \<Rightarrow> NodeRecord"
  m_dirty :: "NodeId \<rightharpoonup> NodeRecord"
  m_delta_runs :: "(NodeId \<rightharpoonup> NodeRecord) list"
  m_transaction :: "(NodeId \<rightharpoonup> OriginalRecord) option"
  m_free_operations :: "(bool \<times> NodeId) list"
  m_transaction_next :: NodeId
  m_transaction_live :: u64
  m_next :: NodeId
  m_live :: u64
  m_base_next :: NodeId
  m_base_capacity :: u64
  m_mapped :: bool

definition empty_arena :: NodeArena where
  "empty_arena = \<lparr>m_ram = (\<lambda>_. empty_record), m_free = [], m_free_set = {},
     m_base = (\<lambda>_. empty_record), m_dirty = (\<lambda>_. None), m_delta_runs = [],
     m_transaction = None, m_free_operations = [], m_transaction_next = 0,
     m_transaction_live = 0, m_next = 0, m_live = 0, m_base_next = 0,
     m_base_capacity = 0, m_mapped = False\<rparr>"

section \<open>Reading\<close>

fun find_delta :: "(NodeId \<rightharpoonup> NodeRecord) list \<Rightarrow> NodeId \<Rightarrow> NodeRecord option" where
  "find_delta [] nid = None"
| "find_delta (run # older) nid =
     (case run nid of Some r \<Rightarrow> Some r | None \<Rightarrow> find_delta older nid)"

definition FindDeltaRecord :: "NodeArena \<Rightarrow> NodeId \<Rightarrow> NodeRecord option" where
  "FindDeltaRecord a nid = find_delta (rev (m_delta_runs a)) nid"

definition ReadPhysicalBase :: "NodeArena \<Rightarrow> NodeId \<Rightarrow> NodeRecord" where
  "ReadPhysicalBase a nid = 
     (if nid \<ge> m_base_next a \<or> ucast nid \<ge> m_base_capacity a then empty_record
      else m_base a nid)"

definition Read :: "NodeArena \<Rightarrow> NodeId \<Rightarrow> NodeRecord" where
  "Read a nid =
     (if m_mapped a
      then case m_dirty a nid of
             Some r \<Rightarrow> r
           | None \<Rightarrow> (case FindDeltaRecord a nid of Some r \<Rightarrow> r | None \<Rightarrow> ReadPhysicalBase a nid)
      else m_ram a nid)"

definition arena_Hash :: "NodeArena \<Rightarrow> NodeId \<Rightarrow> hash256" where
  "arena_Hash a nid =
     (if m_mapped a
      then case m_dirty a nid of
             Some r \<Rightarrow> rec_hash r
           | None \<Rightarrow> (case FindDeltaRecord a nid of
                Some r \<Rightarrow> rec_hash r
              | None \<Rightarrow> if nid < m_base_next a then rec_hash (m_base a nid) else null_hash)
      else rec_hash (m_ram a nid))"

definition arena_Parent :: "NodeArena \<Rightarrow> NodeId \<Rightarrow> NodeId" where
  "arena_Parent a nid = rec_parent (Read a nid)"

definition arena_Left :: "NodeArena \<Rightarrow> NodeId \<Rightarrow> NodeId" where
  "arena_Left a nid = rec_left (Read a nid)"

definition arena_Right :: "NodeArena \<Rightarrow> NodeId \<Rightarrow> NodeId" where
  "arena_Right a nid = rec_right (Read a nid)"

definition arena_Type :: "NodeArena \<Rightarrow> NodeId \<Rightarrow> NodeType" where
  "arena_Type a nid = rec_type (Read a nid)"

definition Live :: "NodeArena \<Rightarrow> NodeId \<Rightarrow> bool" where
  "Live a nid \<longleftrightarrow> nid < m_next a \<and> arena_Type a nid \<noteq> FREE"

definition IsLeaf :: "NodeArena \<Rightarrow> NodeId \<Rightarrow> bool" where
  "IsLeaf a nid \<longleftrightarrow> Live a nid \<and> arena_Type a nid = LEAF"

section \<open>Writing\<close>

text \<open>\<open>Mutable\<close> in mapped mode: the slot enters the overlay, and the transaction keeps the first
  before-image; \<open>update_mapped\<close> then writes through the returned reference.\<close>

definition Mutable :: "NodeArena \<Rightarrow> NodeId \<Rightarrow> NodeArena" where
  "Mutable a nid =
     (let was_dirty = (m_dirty a nid \<noteq> None);
          record = (case m_dirty a nid of Some r \<Rightarrow> r | None \<Rightarrow> Read a nid);
          a1 = a\<lparr>m_dirty := (m_dirty a)(nid \<mapsto> record)\<rparr>
      in case m_transaction a1 of
           None \<Rightarrow> a1
         | Some t \<Rightarrow>
             if t nid = None
             then a1\<lparr>m_transaction :=
                    Some (t(nid \<mapsto> \<lparr>orig_record = record, orig_was_dirty = was_dirty\<rparr>))\<rparr>
             else a1)"

definition update_record :: "NodeArena \<Rightarrow> NodeId \<Rightarrow> (NodeRecord \<Rightarrow> NodeRecord) \<Rightarrow> NodeArena" where
  "update_record a nid f =
     (if m_mapped a
      then let a1 = Mutable a nid
           in a1\<lparr>m_dirty := (m_dirty a1)(nid := map_option f (m_dirty a1 nid))\<rparr>
      else a\<lparr>m_ram := (m_ram a)(nid := f (m_ram a nid))\<rparr>)"

definition Write :: "NodeArena \<Rightarrow> NodeId \<Rightarrow> NodeRecord \<Rightarrow> NodeArena" where
  "Write a nid record = update_record a nid (\<lambda>_. record)"

definition SetHash :: "NodeArena \<Rightarrow> NodeId \<Rightarrow> hash256 \<Rightarrow> NodeArena" where
  "SetHash a nid value = update_record a nid (\<lambda>r. r\<lparr>rec_hash := value\<rparr>)"

definition SetParent :: "NodeArena \<Rightarrow> NodeId \<Rightarrow> NodeId \<Rightarrow> NodeArena" where
  "SetParent a nid value = update_record a nid (\<lambda>r. r\<lparr>rec_parent := value\<rparr>)"

definition SetLeft :: "NodeArena \<Rightarrow> NodeId \<Rightarrow> NodeId \<Rightarrow> NodeArena" where
  "SetLeft a nid value = update_record a nid (\<lambda>r. r\<lparr>rec_left := value\<rparr>)"

definition SetRight :: "NodeArena \<Rightarrow> NodeId \<Rightarrow> NodeId \<Rightarrow> NodeArena" where
  "SetRight a nid value = update_record a nid (\<lambda>r. r\<lparr>rec_right := value\<rparr>)"

section \<open>Allocation\<close>

definition drop_stale :: "NodeArena \<Rightarrow> NodeArena" where
  "drop_stale a = (if m_mapped a
     then a\<lparr>m_free := dropWhile (\<lambda>nid. nid \<notin> m_free_set a) (m_free a)\<rparr> else a)"

definition take_free :: "NodeArena \<Rightarrow> NodeId Result \<times> NodeArena" where
  "take_free a =
     (case m_free a of
        [] \<Rightarrow> (Throw ''online free-node stack is inconsistent'', a)
      | nid # rest \<Rightarrow>
          (Ok nid,
           if m_mapped a
           then a\<lparr>m_free := rest, m_free_set := m_free_set a - {nid},
                  m_free_operations := (if m_transaction a \<noteq> None
                     then m_free_operations a @ [(False, nid)] else m_free_operations a)\<rparr>
           else a\<lparr>m_free := rest\<rparr>))"

definition take_slot :: "NodeArena \<Rightarrow> NodeId Result \<times> NodeArena" where
  "take_slot a =
     (if (\<not> m_mapped a \<and> m_free a \<noteq> []) \<or> (m_mapped a \<and> m_free_set a \<noteq> {})
      then take_free a
      else if m_next a = NO_NODE
           then (Throw ''packed forest exhausted 32-bit node IDs'', a)
           else (Ok (m_next a), a\<lparr>m_next := m_next a + 1\<rparr>))"

definition Allocate ::
    "NodeArena \<Rightarrow> NodeType \<Rightarrow> hash256 \<Rightarrow> NodeId \<Rightarrow> NodeId \<Rightarrow> NodeId Result \<times> NodeArena" where
  "Allocate a type hash left right =
     (case take_slot (drop_stale a) of
        (Ok nid, a1) \<Rightarrow>
          (let a2 = Write a1 nid \<lparr>rec_hash = hash, rec_parent = NO_NODE, rec_left = left,
                                 rec_right = right, rec_type = type\<rparr>
           in (Ok nid, a2\<lparr>m_live := m_live a2 + 1\<rparr>))
      | (Err e, a1) \<Rightarrow> (Err e, a1)
      | (Throw e, a1) \<Rightarrow> (Throw e, a1))"

definition Free :: "NodeArena \<Rightarrow> NodeId \<Rightarrow> NodeArena" where
  "Free a nid =
     (let record = Read a nid;
          a1 = Write a nid (record\<lparr>rec_type := FREE, rec_parent := NO_NODE, rec_left := NO_NODE,
                                  rec_right := NO_NODE\<rparr>);
          a2 = a1\<lparr>m_free := nid # m_free a1\<rparr>;
          a3 = (if m_mapped a2
                then a2\<lparr>m_free_set := insert nid (m_free_set a2),
                        m_free_operations := (if m_transaction a2 \<noteq> None
                          then m_free_operations a2 @ [(True, nid)] else m_free_operations a2)\<rparr>
                else a2)
      in a3\<lparr>m_live := m_live a3 - 1\<rparr>)"

definition FreeCount :: "NodeArena \<Rightarrow> nat" where
  "FreeCount a = (if m_mapped a then card (m_free_set a) else length (m_free a))"

text \<open>\<open>PrepareAllocations\<close> refuses a block transition that could run out of node ids before it
  starts; apart from the refusal it only reserves memory. \<open>m_next + new_slots - 1\<close> is 64-bit
  arithmetic.\<close>

definition PrepareAllocations :: "NodeArena \<Rightarrow> u64 \<Rightarrow> unit Result" where
  "PrepareAllocations a n =
     (let free_count = (of_nat (FreeCount a) :: u64)
      in if n \<le> free_count then Ok ()
         else let new_slots = n - free_count;
                  last = ucast (m_next a) + new_slots - 1
              in if last \<ge> ucast NO_NODE
                 then Throw ''packed forest exhausted 32-bit node IDs''
                 else Ok ())"

section \<open>Transactions\<close>

definition BeginTransaction :: "NodeArena \<Rightarrow> unit Result \<times> NodeArena" where
  "BeginTransaction a =
     (if \<not> m_mapped a then (Ok (), a)
      else if m_transaction a \<noteq> None then (Throw ''nested forest transaction'', a)
      else (Ok (), a\<lparr>m_transaction := Some (\<lambda>_. None), m_transaction_next := m_next a,
                     m_transaction_live := m_live a, m_free_operations := []\<rparr>))"

definition CommitTransaction :: "NodeArena \<Rightarrow> NodeArena" where
  "CommitTransaction a = a\<lparr>m_transaction := None, m_free_operations := []\<rparr>"

fun undo_free_operations ::
    "(bool \<times> NodeId) list \<Rightarrow> NodeId list \<times> NodeId set \<Rightarrow> NodeId list \<times> NodeId set" where
  "undo_free_operations [] s = s"
| "undo_free_operations ((was_free, nid) # ops) (free, free_set) =
     (if was_free then undo_free_operations ops (free, free_set - {nid})
      else undo_free_operations ops (nid # free, insert nid free_set))"

definition RollbackTransaction :: "NodeArena \<Rightarrow> NodeArena" where
  "RollbackTransaction a =
     (case m_transaction a of
        None \<Rightarrow> a
      | Some t \<Rightarrow>
          (let dirty = (\<lambda>nid. case t nid of
                  None \<Rightarrow> m_dirty a nid
                | Some original \<Rightarrow>
                    if orig_was_dirty original then Some (orig_record original) else None);
               (free, free_set) =
                 undo_free_operations (rev (m_free_operations a)) (m_free a, m_free_set a)
           in CommitTransaction
                (a\<lparr>m_dirty := dirty, m_free := free, m_free_set := free_set,
                   m_next := m_transaction_next a, m_live := m_transaction_live a\<rparr>)))"

section \<open>Laws of reading and writing\<close>

lemma find_delta_conv: "find_delta runs nid = (case filter (\<lambda>run. run nid \<noteq> None) runs of
    [] \<Rightarrow> None | run # _ \<Rightarrow> run nid)"
  by (induction runs) auto

lemma Mutable_frame [simp]:
  "m_ram (Mutable a nid) = m_ram a" "m_free (Mutable a nid) = m_free a"
  "m_free_set (Mutable a nid) = m_free_set a" "m_base (Mutable a nid) = m_base a"
  "m_delta_runs (Mutable a nid) = m_delta_runs a"
  "m_free_operations (Mutable a nid) = m_free_operations a"
  "m_transaction_next (Mutable a nid) = m_transaction_next a"
  "m_transaction_live (Mutable a nid) = m_transaction_live a"
  "m_next (Mutable a nid) = m_next a" "m_live (Mutable a nid) = m_live a"
  "m_base_next (Mutable a nid) = m_base_next a" "m_base_capacity (Mutable a nid) = m_base_capacity a"
  "m_mapped (Mutable a nid) = m_mapped a"
  "m_transaction (Mutable a nid) = None \<longleftrightarrow> m_transaction a = None"
  by (simp_all add: Mutable_def Let_def split: option.splits)

lemma Mutable_dirty [simp]:
  "m_dirty (Mutable a nid) =
     (m_dirty a)(nid \<mapsto> (case m_dirty a nid of Some r \<Rightarrow> r | None \<Rightarrow> Read a nid))"
  by (simp add: Mutable_def Let_def split: option.splits)

lemma update_record_frame [simp]:
  "m_free (update_record a nid f) = m_free a" "m_free_set (update_record a nid f) = m_free_set a"
  "m_base (update_record a nid f) = m_base a"
  "m_delta_runs (update_record a nid f) = m_delta_runs a"
  "m_free_operations (update_record a nid f) = m_free_operations a"
  "m_transaction_next (update_record a nid f) = m_transaction_next a"
  "m_transaction_live (update_record a nid f) = m_transaction_live a"
  "m_next (update_record a nid f) = m_next a" "m_live (update_record a nid f) = m_live a"
  "m_base_next (update_record a nid f) = m_base_next a"
  "m_base_capacity (update_record a nid f) = m_base_capacity a"
  "m_mapped (update_record a nid f) = m_mapped a"
  "m_transaction (update_record a nid f) = None \<longleftrightarrow> m_transaction a = None"
  by (simp_all add: update_record_def Let_def)

lemma Read_update_record:
  "Read (update_record a nid f) = (Read a)(nid := f (Read a nid))"
  by (rule ext)
     (auto simp: update_record_def Read_def FindDeltaRecord_def ReadPhysicalBase_def Let_def
       split: option.splits)

lemma Read_cong:
  "m_mapped a = m_mapped b \<Longrightarrow> m_ram a = m_ram b \<Longrightarrow> m_dirty a = m_dirty b \<Longrightarrow>
   m_delta_runs a = m_delta_runs b \<Longrightarrow> m_base a = m_base b \<Longrightarrow> m_base_next a = m_base_next b \<Longrightarrow>
   m_base_capacity a = m_base_capacity b \<Longrightarrow> Read a = Read b"
  by (rule ext) (simp only: Read_def FindDeltaRecord_def ReadPhysicalBase_def)

lemma Read_bookkeeping [simp]:
  "Read (a\<lparr>m_free := x1\<rparr>) = Read a" "Read (a\<lparr>m_free_set := x2\<rparr>) = Read a"
  "Read (a\<lparr>m_free_operations := x3\<rparr>) = Read a" "Read (a\<lparr>m_next := x4\<rparr>) = Read a"
  "Read (a\<lparr>m_live := x5\<rparr>) = Read a" "Read (a\<lparr>m_transaction := x6\<rparr>) = Read a"
  "Read (a\<lparr>m_transaction_next := x4\<rparr>) = Read a" "Read (a\<lparr>m_transaction_live := x5\<rparr>) = Read a"
  by (rule Read_cong; simp)+

lemma Read_Write: "Read (Write a nid r) = (Read a)(nid := r)"
  by (simp add: Write_def Read_update_record)

lemmas update_defs = SetHash_def SetParent_def SetLeft_def SetRight_def Write_def

section \<open>Well-formed arenas\<close>

definition free_ids :: "NodeArena \<Rightarrow> NodeId set" where
  "free_ids a = (if m_mapped a then m_free_set a else set (m_free a))"

text \<open>The free list holds exactly the free slots below \<open>m_next\<close>; in mapped mode the stack may
  hold stale entries besides.\<close>

definition arena_wf :: "NodeArena \<Rightarrow> bool" where
  "arena_wf a \<longleftrightarrow>
     free_ids a = {nid. nid < m_next a \<and> rec_type (Read a nid) = FREE} \<and>
     (if m_mapped a then m_free_set a \<subseteq> set (m_free a)
      else distinct (m_free a) \<and> m_transaction a = None) \<and>
     unat (m_base_next a) \<le> unat (m_base_capacity a)"

lemma arena_wfI:
  "(\<And>nid. nid \<in> free_ids a \<longleftrightarrow> nid < m_next a \<and> rec_type (Read a nid) = FREE) \<Longrightarrow>
   (m_mapped a \<Longrightarrow> m_free_set a \<subseteq> set (m_free a)) \<Longrightarrow> (\<not> m_mapped a \<Longrightarrow> distinct (m_free a)) \<Longrightarrow>
   (\<not> m_mapped a \<Longrightarrow> m_transaction a = None) \<Longrightarrow>
   unat (m_base_next a) \<le> unat (m_base_capacity a) \<Longrightarrow> arena_wf a"
  by (auto simp: arena_wf_def)

lemma arena_wfD:
  assumes "arena_wf a"
  shows "nid \<in> free_ids a \<longleftrightarrow> nid < m_next a \<and> rec_type (Read a nid) = FREE"
    and "m_mapped a \<Longrightarrow> m_free_set a \<subseteq> set (m_free a)"
    and "\<not> m_mapped a \<Longrightarrow> distinct (m_free a)" and "\<not> m_mapped a \<Longrightarrow> m_transaction a = None"
    and "unat (m_base_next a) \<le> unat (m_base_capacity a)"
  using assms unfolding arena_wf_def by auto

lemma arena_Hash_eq [simp]: "arena_wf a \<Longrightarrow> arena_Hash a nid = rec_hash (Read a nid)"
proof -
  assume "arena_wf a"
  then have "unat (m_base_next a) \<le> unat (m_base_capacity a)" by (simp add: arena_wf_def)
  then have "nid < m_base_next a \<Longrightarrow> ucast nid < m_base_capacity a"
    by (simp add: word_less_nat_alt unat_ucast_u32_u64)
  then show ?thesis
    by (auto simp: arena_Hash_def Read_def ReadPhysicalBase_def empty_record_def not_le split: option.splits)
qed

lemma arena_wf_update:
  assumes "arena_wf a" "\<And>r. rec_type (f r) = FREE \<longleftrightarrow> rec_type r = FREE"
  shows "arena_wf (update_record a nid f)"
  using assms by (auto simp: arena_wf_def free_ids_def Read_update_record)

lemma arena_wf_sets [simp]:
  assumes "arena_wf a"
  shows "arena_wf (SetHash a nid h)" "arena_wf (SetParent a nid p)" "arena_wf (SetLeft a nid p)"
    "arena_wf (SetRight a nid p)"
  using assms by (simp_all add: update_defs arena_wf_update)

lemma Read_sets:
  "Read (SetHash a nid h) = (Read a)(nid := (Read a nid)\<lparr>rec_hash := h\<rparr>)"
  "Read (SetParent a nid p) = (Read a)(nid := (Read a nid)\<lparr>rec_parent := p\<rparr>)"
  "Read (SetLeft a nid p) = (Read a)(nid := (Read a nid)\<lparr>rec_left := p\<rparr>)"
  "Read (SetRight a nid p) = (Read a)(nid := (Read a nid)\<lparr>rec_right := p\<rparr>)"
  by (simp_all add: update_defs Read_update_record)

lemma next_sets [simp]:
  "m_next (SetHash a nid h) = m_next a" "m_next (SetParent a nid p) = m_next a"
  "m_next (SetLeft a nid p) = m_next a" "m_next (SetRight a nid p) = m_next a"
  by (simp_all add: update_defs)

lemma free_ids_sets [simp]:
  "free_ids (SetHash a nid h) = free_ids a" "free_ids (SetParent a nid p) = free_ids a"
  "free_ids (SetLeft a nid p) = free_ids a" "free_ids (SetRight a nid p) = free_ids a"
  by (simp_all add: update_defs free_ids_def)

lemma empty_arena_wf: "arena_wf empty_arena"
  by (simp add: arena_wf_def free_ids_def empty_arena_def)

section \<open>Laws of allocation\<close>

definition live_ids :: "NodeArena \<Rightarrow> NodeId set" where
  "live_ids a = {nid. Live a nid}"

lemma Live_iff: "Live a nid \<longleftrightarrow> nid < m_next a \<and> rec_type (Read a nid) \<noteq> FREE"
  by (simp add: Live_def arena_Type_def)

lemma IsLeaf_iff: "IsLeaf a nid \<longleftrightarrow> nid < m_next a \<and> rec_type (Read a nid) = LEAF"
  by (auto simp: IsLeaf_def Live_def arena_Type_def)

lemma drop_stale_frame [simp]:
  "Read (drop_stale a) = Read a" "m_next (drop_stale a) = m_next a"
  "m_live (drop_stale a) = m_live a" "m_mapped (drop_stale a) = m_mapped a"
  "m_free_set (drop_stale a) = m_free_set a" "m_transaction (drop_stale a) = m_transaction a"
  "m_base_next (drop_stale a) = m_base_next a"
  "m_base_capacity (drop_stale a) = m_base_capacity a"
  "m_free_operations (drop_stale a) = m_free_operations a"
  "m_dirty (drop_stale a) = m_dirty a" "m_transaction_next (drop_stale a) = m_transaction_next a"
  "m_transaction_live (drop_stale a) = m_transaction_live a"
  by (simp_all add: drop_stale_def)

lemma subset_dropWhile: "S \<subseteq> set xs \<Longrightarrow> S \<subseteq> set (dropWhile (\<lambda>x. x \<notin> S) xs)"
  by (induction xs) auto

lemma drop_stale_wf: "arena_wf a \<Longrightarrow> arena_wf (drop_stale a)"
proof (rule arena_wfI)
  assume wf: "arena_wf a"
  have "free_ids (drop_stale a) = free_ids a" by (simp add: free_ids_def drop_stale_def)
  then show "nid \<in> free_ids (drop_stale a) \<longleftrightarrow>
      nid < m_next (drop_stale a) \<and> rec_type (Read (drop_stale a) nid) = FREE" for nid
    using arena_wfD(1) [OF wf] by simp
  show "m_free_set (drop_stale a) \<subseteq> set (m_free (drop_stale a))" if "m_mapped (drop_stale a)"
  proof -
    have "m_mapped a" using that by simp
    then show ?thesis using subset_dropWhile [OF arena_wfD(2) [OF wf]] by (simp add: drop_stale_def)
  qed
qed (use arena_wfD in \<open>auto simp: drop_stale_def\<close>)

lemma drop_stale_hd:
  assumes "arena_wf a" "m_mapped a" "m_free_set a \<noteq> {}"
  obtains nid rest where "m_free (drop_stale a) = nid # rest" "nid \<in> m_free_set a"
proof -
  have ne: "m_free (drop_stale a) \<noteq> []"
    using assms subset_dropWhile [OF arena_wfD(2) [OF assms(1,2)]]
    by (auto simp: drop_stale_def simp del: dropWhile_eq_Nil_conv)
  then obtain nid rest where e: "m_free (drop_stale a) = nid # rest" by (cases "m_free (drop_stale a)") auto
  moreover have "nid \<in> m_free_set a"
    using e assms(2) by (auto simp: drop_stale_def dropWhile_eq_Cons_conv)
  ultimately show ?thesis using that by blast
qed

text \<open>The slot \<open>take_slot\<close> hands out is not live, and only the bookkeeping changes.\<close>

lemma take_slot_Ok:
  assumes wf: "arena_wf a" and ts: "take_slot (drop_stale a) = (Ok nid, a1)"
  shows "Read a1 = Read a" "m_mapped a1 = m_mapped a" "m_live a1 = m_live a"
    "m_base_next a1 = m_base_next a" "m_base_capacity a1 = m_base_capacity a"
    "m_transaction a1 = m_transaction a"
    "nid \<in> free_ids a \<and> m_next a1 = m_next a \<or> nid = m_next a \<and> nid \<noteq> NO_NODE \<and> m_next a1 = m_next a + 1"
    "free_ids a1 = free_ids a - {nid}"
    "if m_mapped a then m_free_set a1 \<subseteq> set (m_free a1) else distinct (m_free a1)"
proof -
  let ?b = "drop_stale a"
  have wfb: "arena_wf ?b" by (rule drop_stale_wf) (rule wf)
  have nf: "m_next a \<notin> free_ids a" using arena_wfD(1) [OF wf] by simp
  consider (free) rest where "m_free ?b = nid # rest" "nid \<in> free_ids a"
      "a1 = snd (take_free ?b)" "take_free ?b = (Ok nid, a1)"
    | (fresh) "nid = m_next a" "nid \<noteq> NO_NODE" "a1 = ?b\<lparr>m_next := m_next a + 1\<rparr>"
  proof (cases "(\<not> m_mapped ?b \<and> m_free ?b \<noteq> []) \<or> (m_mapped ?b \<and> m_free_set ?b \<noteq> {})")
    case True
    then have tf: "take_free ?b = (Ok nid, a1)" using ts by (simp add: take_slot_def)
    then obtain rest where r: "m_free ?b = nid # rest"
      by (auto simp: take_free_def split: list.splits)
    moreover have "nid \<in> free_ids a"
    proof (cases "m_mapped a")
      case True
      then show ?thesis using drop_stale_hd [OF wf] r \<open>_ \<or> _\<close> by (auto simp: free_ids_def)
    next
      case False
      then show ?thesis using r by (auto simp: free_ids_def drop_stale_def)
    qed
    ultimately show thesis using free tf by simp
  next
    case False
    then show thesis using ts fresh by (auto simp: take_slot_def split: if_splits)
  qed
  note cs = this
  show "Read a1 = Read a" "m_mapped a1 = m_mapped a" "m_live a1 = m_live a"
    "m_base_next a1 = m_base_next a" "m_base_capacity a1 = m_base_capacity a"
    "m_transaction a1 = m_transaction a"
    using cs by (cases; auto simp: take_free_def)+
  show "nid \<in> free_ids a \<and> m_next a1 = m_next a \<or> nid = m_next a \<and> nid \<noteq> NO_NODE \<and> m_next a1 = m_next a + 1"
    using cs by cases (auto simp: take_free_def)
  show "free_ids a1 = free_ids a - {nid}"
    using cs
  proof cases
    case free
    have "nid \<notin> set rest" if "\<not> m_mapped a"
      using arena_wfD(3) [OF wfb] that free by simp
    moreover have "m_free a = nid # rest" if "\<not> m_mapped a"
      using that free by (simp add: drop_stale_def)
    ultimately show ?thesis
      using free by (cases "m_mapped a") (simp_all add: take_free_def free_ids_def)
  next
    case fresh
    then show ?thesis using nf by (auto simp: free_ids_def drop_stale_def)
  qed
  show "if m_mapped a then m_free_set a1 \<subseteq> set (m_free a1) else distinct (m_free a1)"
    using cs arena_wfD(2,3) [OF wfb] by cases (auto simp: take_free_def)
qed

lemma Allocate_Ok:
  assumes wf: "arena_wf a" and al: "Allocate a ty h l r = (Ok nid, a')" and ty: "ty \<noteq> FREE"
  shows "Read a' = (Read a)(nid := \<lparr>rec_hash = h, rec_parent = NO_NODE, rec_left = l,
            rec_right = r, rec_type = ty\<rparr>)"
    and "arena_wf a'" and "\<not> Live a nid" and "nid \<noteq> NO_NODE"
    and "live_ids a' = insert nid (live_ids a)" and "m_next a \<le> m_next a'"
    and "m_live a' = m_live a + 1" and "m_mapped a' = m_mapped a"
proof -
  obtain a1 where ts: "take_slot (drop_stale a) = (Ok nid, a1)"
    and a': "a' = (let a2 = Write a1 nid \<lparr>rec_hash = h, rec_parent = NO_NODE, rec_left = l,
            rec_right = r, rec_type = ty\<rparr> in a2\<lparr>m_live := m_live a2 + 1\<rparr>)"
    using al by (auto simp: Allocate_def Let_def split: prod.splits Result.splits)
  note t = take_slot_Ok [OF wf ts]
  note fr = arena_wfD(1) [OF wf]
  show R: "Read a' = (Read a)(nid := \<lparr>rec_hash = h, rec_parent = NO_NODE, rec_left = l,
            rec_right = r, rec_type = ty\<rparr>)"
    by (simp add: a' Let_def Read_Write t(1))
  have nx: "m_next a' = m_next a1" "m_mapped a' = m_mapped a" "free_ids a' = free_ids a1"
    "m_free_set a' = m_free_set a1" "m_free a' = m_free a1" "m_base_next a' = m_base_next a"
    "m_base_capacity a' = m_base_capacity a" "m_transaction a' = None \<longleftrightarrow> m_transaction a = None"
    using t(2-6) by (simp_all add: a' Let_def Write_def free_ids_def)
  have suc: "n < m_next a + 1 \<longleftrightarrow> n < m_next a \<or> n = m_next a" if "m_next a \<noteq> NO_NODE" for n
    using that unfolding NO_NODE_def by (rule word_less_plus_one)
  show "\<not> Live a nid" using t(7) fr by (auto simp: Live_iff)
  show nn: "nid \<noteq> NO_NODE"
    using t(7) fr [of nid] by (metis NO_NODE_def word_order.extremum_strict)
  have mem: "n < m_next a' \<longleftrightarrow> n < m_next a \<or> n = nid" for n
    using t(7) fr [of nid] suc [of n] nx(1) by auto
  have fi: "free_ids a' = free_ids a - {nid}" using t(8) nx(3) by simp
  from mem show "live_ids a' = insert nid (live_ids a)"
    using ty by (auto simp: live_ids_def Live_iff R)
  show "m_next a \<le> m_next a'"
    by (metis mem linorder_not_le order_less_irrefl)
  show "m_live a' = m_live a + 1" "m_mapped a' = m_mapped a"
    using t by (simp_all add: a' Let_def Write_def)
  show "arena_wf a'"
  proof (rule arena_wfI)
    show "n \<in> free_ids a' \<longleftrightarrow> n < m_next a' \<and> rec_type (Read a' n) = FREE" for n
      by (cases "n = nid") (simp_all add: fi mem fr R ty)
    show "m_free_set a' \<subseteq> set (m_free a')" if "m_mapped a'" using that t(9) nx by simp
    show "distinct (m_free a')" if "\<not> m_mapped a'" using that t(9) nx by simp
    show "m_transaction a' = None" if "\<not> m_mapped a'" using that arena_wfD(4) [OF wf] nx by simp
    show "unat (m_base_next a') \<le> unat (m_base_capacity a')" using arena_wfD(5) [OF wf] nx by simp
  qed
qed

lemma Allocate_succeeds:
  assumes wf: "arena_wf a" and "free_ids a \<noteq> {} \<or> m_next a \<noteq> NO_NODE"
  shows "\<exists>nid a'. Allocate a ty h l r = (Ok nid, a')"
proof -
  have "\<exists>nid a1. take_slot (drop_stale a) = (Ok nid, a1)"
  proof (cases "m_mapped a")
    case True
    show ?thesis
    proof (cases "m_free_set a = {}")
      case False
      then obtain nid rest where "m_free (drop_stale a) = nid # rest"
        using drop_stale_hd [OF wf True] by blast
      then show ?thesis using True False by (simp add: take_slot_def take_free_def)
    next
      case empty: True
      then show ?thesis using True assms(2) by (simp add: take_slot_def free_ids_def)
    qed
  next
    case False
    then have "drop_stale a = a" by (simp add: drop_stale_def)
    then show ?thesis
      using False assms(2) by (cases "m_free a") (simp_all add: take_slot_def take_free_def free_ids_def)
  qed
  then show ?thesis by (auto simp: Allocate_def Let_def)
qed

lemma Allocate_not_Err: "Allocate a ty h l r \<noteq> (Err e, a')"
  by (auto simp: Allocate_def take_slot_def take_free_def Let_def split: prod.splits Result.splits if_splits list.splits)

lemma Free_law:
  assumes wf: "arena_wf a" and live: "Live a nid"
  shows "Read (Free a nid) = (Read a)(nid := \<lparr>rec_hash = rec_hash (Read a nid), rec_parent = NO_NODE,
            rec_left = NO_NODE, rec_right = NO_NODE, rec_type = FREE\<rparr>)"
    and "arena_wf (Free a nid)" and "live_ids (Free a nid) = live_ids a - {nid}"
    and "m_next (Free a nid) = m_next a" and "free_ids (Free a nid) = insert nid (free_ids a)"
    and "m_live (Free a nid) = m_live a - 1" and "m_mapped (Free a nid) = m_mapped a"
proof -
  show R: "Read (Free a nid) = (Read a)(nid := \<lparr>rec_hash = rec_hash (Read a nid), rec_parent = NO_NODE,
            rec_left = NO_NODE, rec_right = NO_NODE, rec_type = FREE\<rparr>)"
    by (cases "Read a nid") (simp add: Free_def Let_def Read_Write)
  show nx: "m_next (Free a nid) = m_next a" by (simp add: Free_def Let_def Write_def)
  show "m_live (Free a nid) = m_live a - 1" by (simp add: Free_def Let_def Write_def)
  show mp: "m_mapped (Free a nid) = m_mapped a" by (simp add: Free_def Let_def Write_def)
  show fi: "free_ids (Free a nid) = insert nid (free_ids a)"
    by (simp add: Free_def Let_def Write_def free_ids_def)
  show "live_ids (Free a nid) = live_ids a - {nid}"
    by (auto simp: live_ids_def Live_iff R nx)
  have lt: "nid < m_next a" "nid \<notin> free_ids a"
    using live arena_wfD(1) [OF wf] by (auto simp: Live_iff)
  show "arena_wf (Free a nid)"
  proof (rule arena_wfI)
    show "n \<in> free_ids (Free a nid) \<longleftrightarrow> n < m_next (Free a nid) \<and> rec_type (Read (Free a nid) n) = FREE" for n
      by (cases "n = nid") (simp_all add: fi nx R lt arena_wfD(1) [OF wf])
    show "m_free_set (Free a nid) \<subseteq> set (m_free (Free a nid))" if "m_mapped (Free a nid)"
      using that arena_wfD(2) [OF wf] unfolding mp by (auto simp: Free_def Let_def Write_def)
    show "distinct (m_free (Free a nid))" if "\<not> m_mapped (Free a nid)"
      using that arena_wfD(3) [OF wf] lt unfolding mp
      by (simp add: Free_def Let_def Write_def free_ids_def)
    show "m_transaction (Free a nid) = None" if "\<not> m_mapped (Free a nid)"
      using that arena_wfD(4) [OF wf] unfolding mp by (simp add: Free_def Let_def Write_def)
    show "unat (m_base_next (Free a nid)) \<le> unat (m_base_capacity (Free a nid))"
      using arena_wfD(5) [OF wf] by (simp add: Free_def Let_def Write_def)
  qed
qed

section \<open>The interface the forest relies on\<close>

text \<open>
  What a client of the arena may assume: a record store with allocation. The forest reads and
  writes nodes only through these operations, so its lemmas hold in RAM mode and in mapped mode.
\<close>

locale node_store =
  fixes wf :: "'a \<Rightarrow> bool" and get :: "'a \<Rightarrow> NodeId \<Rightarrow> NodeRecord" and live :: "'a \<Rightarrow> NodeId set"
    and put :: "'a \<Rightarrow> NodeId \<Rightarrow> (NodeRecord \<Rightarrow> NodeRecord) \<Rightarrow> 'a"
    and alloc :: "'a \<Rightarrow> NodeType \<Rightarrow> hash256 \<Rightarrow> NodeId \<Rightarrow> NodeId \<Rightarrow> NodeId Result \<times> 'a"
    and dealloc :: "'a \<Rightarrow> NodeId \<Rightarrow> 'a"
  assumes get_put: "get (put a n f) = (get a)(n := f (get a n))"
    and put_wf: "wf a \<Longrightarrow> (\<And>r. rec_type (f r) = rec_type r) \<Longrightarrow> wf (put a n f) \<and> live (put a n f) = live a"
    and alloc_law: "wf a \<Longrightarrow> ty \<noteq> FREE \<Longrightarrow> alloc a ty h l r = (Ok n, a') \<Longrightarrow>
       wf a' \<and> n \<notin> live a \<and> n \<noteq> NO_NODE \<and> live a' = insert n (live a) \<and>
       get a' = (get a)(n := \<lparr>rec_hash = h, rec_parent = NO_NODE, rec_left = l, rec_right = r, rec_type = ty\<rparr>)"
    and dealloc_law: "wf a \<Longrightarrow> n \<in> live a \<Longrightarrow>
       wf (dealloc a n) \<and> live (dealloc a n) = live a - {n} \<and> (\<forall>m. m \<noteq> n \<longrightarrow> get (dealloc a n) m = get a m)"
    and live_not_null: "wf a \<Longrightarrow> NO_NODE \<notin> live a"
    and live_type: "wf a \<Longrightarrow> n \<in> live a \<Longrightarrow> rec_type (get a n) \<noteq> FREE"
begin

lemma get_put_other: "m \<noteq> n \<Longrightarrow> get (put a n f) m = get a m"
  by (simp add: get_put)

lemma alloc_other:
  "wf a \<Longrightarrow> ty \<noteq> FREE \<Longrightarrow> alloc a ty h l r = (Ok n, a') \<Longrightarrow> m \<in> live a \<Longrightarrow> get a' m = get a m"
  using alloc_law [of a ty h l r n a'] by auto

lemma alloc_dealloc_live:
  assumes "wf a" "ty \<noteq> FREE" "alloc a ty h l r = (Ok n, a')"
  shows "live (dealloc a' n) = live a" and "m \<in> live a \<Longrightarrow> get (dealloc a' n) m = get a m"
  using alloc_law [OF assms] dealloc_law [of a' n] by auto

end

interpretation arena: node_store arena_wf Read live_ids update_record Allocate Free
proof unfold_locales
  fix a :: NodeArena and f :: "NodeRecord \<Rightarrow> NodeRecord" and n
  assume "arena_wf a" "\<And>r. rec_type (f r) = rec_type r"
  then show "arena_wf (update_record a n f) \<and> live_ids (update_record a n f) = live_ids a"
    by (auto simp: arena_wf_update live_ids_def Live_iff Read_update_record)
next
  fix a ty h l r n a'
  assume "arena_wf a" "ty \<noteq> FREE" "Allocate a ty h l r = (Ok n, a')"
  note al = Allocate_Ok [OF this(1,3,2)]
  then show "arena_wf a' \<and> n \<notin> live_ids a \<and> n \<noteq> NO_NODE \<and> live_ids a' = insert n (live_ids a) \<and>
      Read a' = (Read a)(n := \<lparr>rec_hash = h, rec_parent = NO_NODE, rec_left = l, rec_right = r, rec_type = ty\<rparr>)"
    by (simp add: live_ids_def)
next
  fix a n
  assume "arena_wf a" "n \<in> live_ids a"
  then show "arena_wf (Free a n) \<and> live_ids (Free a n) = live_ids a - {n} \<and>
      (\<forall>m. m \<noteq> n \<longrightarrow> Read (Free a n) m = Read a m)"
    using Free_law [of a n] by (simp add: live_ids_def)
next
  fix a
  show "NO_NODE \<notin> live_ids a" by (auto simp: live_ids_def Live_iff NO_NODE_def)
qed (auto simp: Read_update_record live_ids_def Live_iff)

section \<open>Rolling a transaction back\<close>

text \<open>Any sequence of writes, allocations (also failed ones) and frees of slots that are not
  already free.\<close>

inductive arena_run :: "NodeArena \<Rightarrow> NodeArena \<Rightarrow> bool" where
  start: "arena_run a a"
| put: "arena_run a b \<Longrightarrow> arena_run a (update_record b nid f)"
| alloc: "arena_run a b \<Longrightarrow> arena_run a (snd (Allocate b ty h l r))"
| free: "arena_run a b \<Longrightarrow> nid \<notin> m_free_set b \<Longrightarrow> arena_run a (Free b nid)"

definition before_images ::
    "(NodeId \<rightharpoonup> OriginalRecord) \<Rightarrow> (NodeId \<rightharpoonup> NodeRecord) \<Rightarrow> (NodeId \<rightharpoonup> NodeRecord) \<Rightarrow> bool" where
  "before_images t dirty dirty0 \<longleftrightarrow>
     (\<forall>n. (t n = None \<longrightarrow> dirty n = dirty0 n) \<and>
          (\<forall>original. t n = Some original \<longrightarrow> dirty0 n =
             (if orig_was_dirty original then Some (orig_record original) else None)))"

lemma before_images_put:
  assumes "before_images t d d0"
    and "record = (case d nid of Some r \<Rightarrow> r | None \<Rightarrow> x)"
  shows "before_images (if t nid = None then t(nid \<mapsto> \<lparr>orig_record = record, orig_was_dirty = (d nid \<noteq> None)\<rparr>) else t)
     (d(nid \<mapsto> y)) d0"
  using assms unfolding before_images_def by (auto split: option.splits)

definition txn_inv :: "NodeArena \<Rightarrow> NodeArena \<Rightarrow> bool" where
  "txn_inv s b \<longleftrightarrow>
     m_mapped b \<and> m_ram b = m_ram s \<and> m_base b = m_base s \<and> m_delta_runs b = m_delta_runs s \<and>
     m_base_next b = m_base_next s \<and> m_base_capacity b = m_base_capacity s \<and>
     m_transaction_next b = m_next s \<and> m_transaction_live b = m_live s \<and>
     m_free_set b \<subseteq> set (m_free b) \<and>
     snd (undo_free_operations (rev (m_free_operations b)) (m_free b, m_free_set b)) = m_free_set s \<and>
     (\<exists>t. m_transaction b = Some t \<and> before_images t (m_dirty b) (m_dirty s))"

lemma snd_undo_free: "snd (undo_free_operations ops (f, S)) = snd (undo_free_operations ops (g, S))"
proof (induction ops arbitrary: f g S)
  case (Cons op ops)
  obtain w n where "op = (w, n)" by (cases op)
  then show ?case using Cons.IH [of f _ g] Cons.IH [of "n # f" _ "n # g"] by simp
qed simp

lemma undo_free_stack:
  "S \<subseteq> set f \<Longrightarrow> snd (undo_free_operations ops (f, S)) \<subseteq> set (fst (undo_free_operations ops (f, S)))"
proof (induction ops arbitrary: f S)
  case (Cons op ops)
  obtain w n where "op = (w, n)" by (cases op)
  then show ?case using Cons.prems by (auto intro!: Cons.IH)
qed simp

lemma txn_inv_update: "txn_inv s b \<Longrightarrow> txn_inv s (update_record b nid f)"
proof -
  assume inv: "txn_inv s b"
  then obtain t where t: "m_transaction b = Some t" "before_images t (m_dirty b) (m_dirty s)"
    by (auto simp: txn_inv_def)
  define ri where "ri = (case m_dirty b nid of Some r \<Rightarrow> r | None \<Rightarrow> Read b nid)"
  define t' where "t' = (if t nid = None
    then t(nid \<mapsto> \<lparr>orig_record = ri, orig_was_dirty = (m_dirty b nid \<noteq> None)\<rparr>) else t)"
  have m: "m_mapped b" using inv by (simp add: txn_inv_def)
  have "m_transaction (update_record b nid f) = Some t'"
    using t(1) m by (simp add: update_record_def Mutable_def Let_def t'_def ri_def)
  moreover have "m_dirty (update_record b nid f) = (m_dirty b)(nid \<mapsto> f ri)"
    using m by (simp add: update_record_def Let_def ri_def)
  moreover have "before_images t' ((m_dirty b)(nid \<mapsto> f ri)) (m_dirty s)"
    unfolding t'_def by (rule before_images_put [OF t(2) ri_def])
  moreover have "m_ram (update_record b nid f) = m_ram b"
    using m by (simp add: update_record_def Let_def)
  ultimately show ?thesis using inv by (simp add: txn_inv_def)
qed

lemma txn_inv_drop_stale:
  assumes "txn_inv s b"
  shows "txn_inv s (drop_stale b)"
proof -
  have "m_free_set b \<subseteq> set (m_free (drop_stale b))"
    using assms subset_dropWhile [of "m_free_set b" "m_free b"] by (simp add: txn_inv_def drop_stale_def)
  moreover have "snd (undo_free_operations (rev (m_free_operations b)) (m_free (drop_stale b), m_free_set b)) = m_free_set s"
    using assms snd_undo_free unfolding txn_inv_def by metis
  moreover have "m_ram (drop_stale b) = m_ram b" "m_base (drop_stale b) = m_base b"
      "m_delta_runs (drop_stale b) = m_delta_runs b"
    by (simp_all add: drop_stale_def)
  ultimately show ?thesis using assms by (simp add: txn_inv_def)
qed

lemma txn_inv_take_slot:
  assumes inv: "txn_inv s b" and hd: "m_free_set b \<noteq> {} \<longrightarrow> hd (m_free b) \<in> m_free_set b"
  shows "txn_inv s (snd (take_slot b))"
proof (cases "m_free_set b = {}")
  case True
  then show ?thesis using inv by (auto simp: take_slot_def txn_inv_def)
next
  case False
  then obtain n rest where f: "m_free b = n # rest" using inv by (cases "m_free b") (auto simp: txn_inv_def)
  then have n: "n \<in> m_free_set b" using hd False by simp
  have "snd (undo_free_operations (rev (m_free_operations b)) (n # rest, insert n (m_free_set b - {n}))) = m_free_set s"
    using inv f n by (simp add: txn_inv_def insert_absorb)
  then show ?thesis
    using inv f n False by (auto simp: take_slot_def take_free_def txn_inv_def)
qed

lemma txn_inv_Allocate:
  assumes "txn_inv s b"
  shows "txn_inv s (snd (Allocate b ty h l r))"
proof -
  let ?d = "drop_stale b"
  have d: "txn_inv s ?d" using assms by (rule txn_inv_drop_stale)
  have "m_free_set ?d \<noteq> {} \<longrightarrow> hd (m_free ?d) \<in> m_free_set ?d"
  proof
    assume ne: "m_free_set ?d \<noteq> {}"
    then have "m_free ?d \<noteq> []" using d by (auto simp: txn_inv_def)
    then show "hd (m_free ?d) \<in> m_free_set ?d"
      using assms hd_dropWhile [of "\<lambda>n. n \<notin> m_free_set b" "m_free b"]
      by (auto simp: txn_inv_def drop_stale_def)
  qed
  then have ts: "txn_inv s (snd (take_slot ?d))" by (rule txn_inv_take_slot [OF d])
  obtain res a1 where tse: "take_slot ?d = (res, a1)" by (cases "take_slot ?d")
  show ?thesis
  proof (cases res)
    case (Ok nid)
    have "txn_inv s (Write a1 nid rec)" for rec
      using ts tse by (simp add: Write_def txn_inv_update)
    then show ?thesis using tse Ok by (simp add: Allocate_def Let_def txn_inv_def)
  qed (use ts tse in \<open>simp_all add: Allocate_def\<close>)
qed

lemma txn_inv_Free:
  assumes inv: "txn_inv s b" and n: "nid \<notin> m_free_set b"
  shows "txn_inv s (Free b nid)"
proof -
  define w where "w = Write b nid ((Read b nid)\<lparr>rec_type := FREE, rec_parent := NO_NODE,
      rec_left := NO_NODE, rec_right := NO_NODE\<rparr>)"
  have w: "txn_inv s w" using inv by (simp add: w_def Write_def txn_inv_update)
  have fs: "m_free_set w = m_free_set b" by (simp add: w_def Write_def)
  have "snd (undo_free_operations (rev (m_free_operations w)) (nid # m_free w, m_free_set b)) = m_free_set s"
    using w snd_undo_free unfolding txn_inv_def fs by metis
  then show ?thesis
    using w n unfolding Free_def Let_def w_def [symmetric]
    by (auto simp: txn_inv_def fs)
qed

lemma arena_run_txn_inv: "arena_run a b \<Longrightarrow> txn_inv s a \<Longrightarrow> txn_inv s b"
  by (induction rule: arena_run.induct)
     (auto intro: txn_inv_update txn_inv_Allocate txn_inv_Free)

lemma BeginTransaction_inv:
  assumes "arena_wf a" "m_mapped a" "BeginTransaction a = (Ok (), s)"
  shows "txn_inv a s"
  using assms arena_wfD(2) [OF assms(1,2)]
  by (auto simp: BeginTransaction_def txn_inv_def before_images_def split: if_splits)

lemma RollbackTransaction_inv:
  assumes wf: "arena_wf s" and inv: "txn_inv s b"
  shows "m_mapped s \<Longrightarrow> Read (RollbackTransaction b) = Read s" "m_dirty (RollbackTransaction b) = m_dirty s"
    "m_next (RollbackTransaction b) = m_next s" "m_live (RollbackTransaction b) = m_live s"
    "m_free_set (RollbackTransaction b) = m_free_set s"
    "m_transaction (RollbackTransaction b) = None"
    "m_mapped s \<Longrightarrow> arena_wf (RollbackTransaction b)"
proof -
  let ?c = "RollbackTransaction b"
  obtain t where t: "m_transaction b = Some t" "before_images t (m_dirty b) (m_dirty s)"
    using inv by (auto simp: txn_inv_def)
  obtain free fset where u: "undo_free_operations (rev (m_free_operations b)) (m_free b, m_free_set b) = (free, fset)"
    by (cases "undo_free_operations (rev (m_free_operations b)) (m_free b, m_free_set b)")
  have fset: "fset = m_free_set s" using inv u by (simp add: txn_inv_def)
  have stack: "fset \<subseteq> set free"
    using undo_free_stack [of "m_free_set b" "m_free b" "rev (m_free_operations b)"] inv u
    by (simp add: txn_inv_def)
  define dirty where "dirty = (\<lambda>nid. case t nid of None \<Rightarrow> m_dirty b nid
      | Some original \<Rightarrow> if orig_was_dirty original then Some (orig_record original) else None)"
  have d: "dirty = m_dirty s"
    using t(2) by (auto simp: dirty_def before_images_def split: option.splits)
  have c: "?c = CommitTransaction (b\<lparr>m_dirty := m_dirty s, m_free := free, m_free_set := m_free_set s,
      m_next := m_transaction_next b, m_live := m_transaction_live b\<rparr>)"
    using t(1) u d [unfolded dirty_def] fset by (simp add: RollbackTransaction_def)
  note i = inv [unfolded txn_inv_def]
  show "m_dirty ?c = m_dirty s" "m_next ?c = m_next s" "m_live ?c = m_live s"
    "m_free_set ?c = m_free_set s" "m_transaction ?c = None"
    using i by (simp_all add: c CommitTransaction_def)
  show "Read ?c = Read s" if "m_mapped s"
    using i that by (intro Read_cong) (simp_all add: c CommitTransaction_def)
  show "arena_wf ?c" if "m_mapped s"
  proof (rule arena_wfI)
    have R: "Read ?c = Read s"
      using i that by (intro Read_cong) (simp_all add: c CommitTransaction_def)
    have f: "free_ids ?c = free_ids s" "m_next ?c = m_next s" "m_mapped ?c"
      using i that by (simp_all add: c CommitTransaction_def free_ids_def)
    show "n \<in> free_ids ?c \<longleftrightarrow> n < m_next ?c \<and> rec_type (Read ?c n) = FREE" for n
      using arena_wfD(1) [OF wf] by (simp add: R f)
    show "m_free_set ?c \<subseteq> set (m_free ?c)" using stack fset by (simp add: c CommitTransaction_def)
    show "unat (m_base_next ?c) \<le> unat (m_base_capacity ?c)"
      using i arena_wfD(5) [OF wf] by (simp add: c CommitTransaction_def)
  qed (use i in \<open>simp_all add: c CommitTransaction_def\<close>)
qed

section \<open>Node ids as a resource\<close>

lemma card_below: "card {n :: NodeId. n < m} = unat m"
proof -
  have "unat ` {n :: NodeId. n < m} = {..< unat m}"
  proof (intro equalityI subsetI)
    fix k assume "k \<in> {..< unat m}"
    then have k: "k < unat m" by simp
    then have "k < 2 ^ 32" using unat_u32_less [of m] by simp
    then have "unat (of_nat k :: NodeId) = k" by (simp add: unat_of_nat take_bit_nat_eq_self)
    then show "k \<in> unat ` {n :: NodeId. n < m}" using k by (intro image_eqI [of _ _ "of_nat k"]) (auto simp: word_less_nat_alt)
  qed (auto simp: word_less_nat_alt)
  moreover have "inj_on unat {n :: NodeId. n < m}" by (auto simp: inj_on_def word_unat_eq_iff)
  ultimately show ?thesis by (metis card_image card_lessThan)
qed

lemma card_live_free: "arena_wf a \<Longrightarrow> card (live_ids a) + card (free_ids a) = unat (m_next a)"
proof -
  assume wf: "arena_wf a"
  have "live_ids a \<union> free_ids a = {n. n < m_next a}" "live_ids a \<inter> free_ids a = {}"
    using arena_wfD(1) [OF wf] by (auto simp: live_ids_def Live_iff)
  then show ?thesis by (metis card_Un_disjoint card_below finite)
qed

lemma unat_NO_NODE: "unat NO_NODE = 2 ^ 32 - 1"
  by (simp add: NO_NODE_def unsigned_minus_1_eq_mask mask_eq_exp_minus_1)

lemma Allocate_room:
  assumes wf: "arena_wf a" and "card (live_ids a) < 2 ^ 32 - 1"
  shows "\<exists>nid a'. Allocate a ty h l r = (Ok nid, a')"
proof (rule Allocate_succeeds [OF wf])
  show "free_ids a \<noteq> {} \<or> m_next a \<noteq> NO_NODE"
    using card_live_free [OF wf] assms(2) unat_NO_NODE by auto
qed

lemma FreeCount_card: "arena_wf a \<Longrightarrow> FreeCount a = card (free_ids a)"
  using arena_wfD(3) [of a] by (simp add: FreeCount_def free_ids_def distinct_card)

lemma PrepareAllocations_room:
  assumes wf: "arena_wf a" and n: "unat n < 2 ^ 63"
  shows "PrepareAllocations a n = Ok () \<longleftrightarrow> card (live_ids a) + unat n \<le> 2 ^ 32 - 1"
proof -
  have mx: "unat (m_next a) \<le> 2 ^ 32 - 1" using unat_u32_less [of "m_next a"] by simp
  note lf = card_live_free [OF wf]
  have fc: "unat (of_nat (FreeCount a) :: u64) = card (free_ids a)"
    using lf mx unfolding FreeCount_card [OF wf] by (simp add: unat_of_nat take_bit_nat_eq_self)
  show ?thesis
  proof (cases "n \<le> of_nat (FreeCount a)")
    case True
    then have "unat n \<le> card (free_ids a)" using fc by (simp add: word_le_nat_alt)
    then show ?thesis using True lf mx by (simp add: PrepareAllocations_def Let_def)
  next
    case False
    let ?new = "n - of_nat (FreeCount a)"
    have lt: "card (free_ids a) < unat n" using False fc by (simp add: word_le_nat_alt)
    have new: "unat ?new = unat n - card (free_ids a)"
      using False fc by (simp add: unat_sub word_le_nat_alt)
    have "unat (ucast (m_next a) + ?new :: u64) = unat (m_next a) + unat ?new"
    proof -
      have "unat (m_next a) + unat ?new < 2 ^ 64" using mx n new by simp
      then show ?thesis using unat_add_lem [of "ucast (m_next a) :: u64" ?new] by simp
    qed
    moreover have "ucast (m_next a) + ?new \<noteq> (0 :: u64)"
      using calculation new lt by (metis add_is_0 diff_is_0_eq leD unat_0)
    ultimately have last: "unat (ucast (m_next a) + ?new - 1 :: u64) = unat (m_next a) + (unat n - card (free_ids a)) - 1"
      using new by (simp add: unat_minus_one)
    have "ucast (m_next a) + ?new - 1 \<ge> (ucast NO_NODE :: u64) \<longleftrightarrow>
        2 ^ 32 - 1 \<le> unat (m_next a) + (unat n - card (free_ids a)) - 1"
      using last unat_NO_NODE by (simp add: word_le_nat_alt)
    then show ?thesis using False lf lt by (auto simp: PrepareAllocations_def Let_def)
  qed
qed

section \<open>Properties\<close>

text \<open>C7: An allocation in a well-formed arena returns a slot that was not live and is not
  \<open>NO_NODE\<close>, makes exactly that slot live with the given record and no parent, leaves every other
  slot as it was, and keeps the arena well-formed; freeing the slot again restores the set of live
  slots and their records.\<close>

theorem Allocate_Free_correct:
  assumes "arena_wf a" "ty \<noteq> FREE" "Allocate a ty h l r = (Ok n, a')"
  shows "arena_wf a' \<and> n \<notin> live_ids a \<and> n \<noteq> NO_NODE \<and> live_ids a' = insert n (live_ids a) \<and>
    Read a' = (Read a)(n := \<lparr>rec_hash = h, rec_parent = NO_NODE, rec_left = l, rec_right = r, rec_type = ty\<rparr>) \<and>
    live_ids (Free a' n) = live_ids a \<and> (\<forall>m. m \<noteq> n \<longrightarrow> Read (Free a' n) m = Read a m)"
  using arena.alloc_law [OF assms] arena.alloc_dealloc_live(1) [OF assms] arena.dealloc_law [of a' n]
  by simp

lemma empty_mapped_arena_wf: "arena_wf (empty_arena\<lparr>m_mapped := True\<rparr>)"
  by (auto intro!: arena_wfI simp: empty_arena_def free_ids_def)

theorem Allocate_Free_correct_witness:
  "\<exists>a'. Allocate empty_arena LEAF null_hash NO_NODE NO_NODE = (Ok 0, a') \<and> live_ids a' = {0} \<and>
     live_ids (Free a' 0) = {}"
proof -
  let ?A = "Allocate empty_arena LEAF null_hash NO_NODE NO_NODE"
  have e: "?A = (Ok 0, snd ?A)"
    by (simp add: Allocate_def take_slot_def drop_stale_def empty_arena_def NO_NODE_def Let_def)
  have "live_ids empty_arena = {}" by (simp add: live_ids_def Live_def empty_arena_def)
  with Allocate_Free_correct [OF empty_arena_wf _ e] show ?thesis
    by (intro exI [of _ "snd ?A"]) (use e in auto)
qed



end
