(* ===== verification/LeafIndex.thy ===== *)
theory LeafIndex
  imports Arena Position Bytes
begin

unbundle bit_operations_syntax

text \<open>
  The keyless leaf index (\<open>KeylessLeafIndex\<close> of \<^verbatim>\<open>src/src/forest.cpp\<close>): an open-addressing
  table with linear probing whose buckets hold node ids only; the key of a bucket is the hash
  the arena stores for that node. Deletion shifts the following probe cluster back instead of
  leaving a tombstone.

  A probe loop of the source that has no bound of its own (\<open>Insert\<close>, \<open>Erase\<close>, \<open>Rehash\<close>) is run
  here for at most one round of the table and gives \<open>None\<close> if it has not stopped by then: the
  loop changes no control byte it tests, so after a full round it would never stop. The lemmas
  show that this does not happen under the index invariant.
\<close>

section \<open>State and operations\<close>

datatype control = EMPTY | FULL | DELETED

record KeylessLeafIndex =
  m_slots :: "NodeId list"
  m_control :: "control list"
  m_size :: nat
  m_tombstones :: nat

text \<open>\<open>memcpy\<close> of the first eight bytes into a \<open>uint64_t\<close> on a little-endian machine.\<close>

definition load_le64 :: "byte list \<Rightarrow> u64" where
  "load_le64 bs = read_le (take 8 bs)"

definition Bucket :: "hash256 \<Rightarrow> u64" where
  "Bucket hash =
     (let v0 = load_le64 (Bytes hash);
          v1 = v0 XOR drop_bit 33 v0;
          v2 = v1 * 0xff51afd7ed558ccd;
          v3 = v2 XOR drop_bit 33 v2;
          v4 = v3 * 0xc4ceb9fe1a85ec53
      in v4 XOR drop_bit 33 v4)"

definition home_slot :: "nat \<Rightarrow> hash256 \<Rightarrow> nat" where
  "home_slot capacity hash = unat (Bucket hash AND (of_nat capacity - 1))"

definition next_slot :: "nat \<Rightarrow> nat \<Rightarrow> nat" where
  "next_slot capacity slot = unat ((of_nat slot + 1 :: u64) AND (of_nat capacity - 1))"

definition slot_distance :: "nat \<Rightarrow> nat \<Rightarrow> nat \<Rightarrow> nat" where
  "slot_distance capacity slot home =
     unat ((of_nat slot - of_nat home :: u64) AND (of_nat capacity - 1))"

fun find_loop :: "NodeArena \<Rightarrow> KeylessLeafIndex \<Rightarrow> hash256 \<Rightarrow> nat \<Rightarrow> nat \<Rightarrow> NodeId option" where
  "find_loop arena index hash slot 0 = None"
| "find_loop arena index hash slot (Suc probes) =
     (if m_control index ! slot = EMPTY then None
      else let nid = m_slots index ! slot
           in if m_control index ! slot = FULL \<and> IsLeaf arena nid \<and> arena_Hash arena nid = hash
              then Some nid
              else find_loop arena index hash (next_slot (length (m_slots index)) slot) probes)"

definition Find :: "NodeArena \<Rightarrow> KeylessLeafIndex \<Rightarrow> hash256 \<Rightarrow> NodeId option" where
  "Find arena index hash =
     find_loop arena index hash (home_slot (length (m_slots index)) hash) (length (m_slots index))"

text \<open>\<open>std::bit_ceil\<close>.\<close>

definition bit_ceil :: "nat \<Rightarrow> nat" where
  "bit_ceil n = (if n \<le> 1 then 1 else 2 ^ bit_width (of_nat (n - 1)))"

fun first_not_full :: "control list \<Rightarrow> nat \<Rightarrow> nat \<Rightarrow> nat option" where
  "first_not_full control slot 0 = None"
| "first_not_full control slot (Suc fuel) =
     (if control ! slot = FULL then first_not_full control (next_slot (length control) slot) fuel
      else Some slot)"

fun rehash_loop ::
    "NodeArena \<Rightarrow> (NodeId \<times> control) list \<Rightarrow> NodeId list \<times> control list \<times> nat \<Rightarrow>
     (NodeId list \<times> control list \<times> nat) option" where
  "rehash_loop arena [] acc = Some acc"
| "rehash_loop arena ((nid, c) # old) (slots, control, sz) =
     (if c = FULL \<and> IsLeaf arena nid
      then case first_not_full control (home_slot (length control) (arena_Hash arena nid)) (length control) of
             None \<Rightarrow> None
           | Some slot \<Rightarrow> rehash_loop arena old (slots[slot := nid], control[slot := FULL], sz + 1)
      else rehash_loop arena old (slots, control, sz))"

definition Rehash :: "NodeArena \<Rightarrow> KeylessLeafIndex \<Rightarrow> nat \<Rightarrow> KeylessLeafIndex option" where
  "Rehash arena index capacity0 =
     (let capacity = max 16 (bit_ceil capacity0)
      in case rehash_loop arena (zip (m_slots index) (m_control index))
                (replicate capacity NO_NODE, replicate capacity EMPTY, 0) of
           None \<Rightarrow> None
         | Some (slots, control, sz) \<Rightarrow>
             Some \<lparr>m_slots = slots, m_control = control, m_size = sz, m_tombstones = 0\<rparr>)"

text \<open>The constructor of the index: \<open>Rehash(16)\<close> of an empty table.\<close>

definition empty_index :: KeylessLeafIndex where
  "empty_index = \<lparr>m_slots = replicate 16 NO_NODE, m_control = replicate 16 EMPTY,
     m_size = 0, m_tombstones = 0\<rparr>"

fun insert_loop ::
    "KeylessLeafIndex \<Rightarrow> NodeId \<Rightarrow> nat \<Rightarrow> nat option \<Rightarrow> nat \<Rightarrow> KeylessLeafIndex option" where
  "insert_loop index nid slot tombstone 0 = None"
| "insert_loop index nid slot tombstone (Suc fuel) =
     (if m_control index ! slot = EMPTY
      then let destination = (case tombstone of None \<Rightarrow> slot | Some t \<Rightarrow> t)
           in Some (index\<lparr>m_slots := (m_slots index)[destination := nid],
                          m_control := (m_control index)[destination := FULL],
                          m_size := m_size index + 1,
                          m_tombstones := (if tombstone \<noteq> None then m_tombstones index - 1
                                           else m_tombstones index)\<rparr>)
      else insert_loop index nid (next_slot (length (m_slots index)) slot)
             (if m_control index ! slot = DELETED \<and> tombstone = None then Some slot else tombstone)
             fuel)"

definition grow_for_insert :: "NodeArena \<Rightarrow> KeylessLeafIndex \<Rightarrow> KeylessLeafIndex option" where
  "grow_for_insert arena index =
     (if (m_size index + m_tombstones index + 1) * 10 \<ge> length (m_slots index) * 8
      then Rehash arena index
             (if (m_size index + 1) * 10 < length (m_slots index) * 8
              then length (m_slots index) else length (m_slots index) * 2)
      else Some index)"

definition Insert :: "NodeArena \<Rightarrow> KeylessLeafIndex \<Rightarrow> hash256 \<Rightarrow> NodeId \<Rightarrow> KeylessLeafIndex option" where
  "Insert arena index hash nid =
     (case grow_for_insert arena index of
        None \<Rightarrow> None
      | Some index' \<Rightarrow>
          insert_loop index' nid (home_slot (length (m_slots index')) hash) None
            (length (m_slots index')))"

text \<open>The inner loop of \<open>Erase\<close>: close the hole with the items of the cluster that may move.\<close>

fun back_shift :: "NodeArena \<Rightarrow> KeylessLeafIndex \<Rightarrow> nat \<Rightarrow> nat \<Rightarrow> nat \<Rightarrow> KeylessLeafIndex option" where
  "back_shift arena index hole cursor 0 = None"
| "back_shift arena index hole cursor (Suc fuel) =
     (if m_control index ! cursor = EMPTY
      then Some (index\<lparr>m_slots := (m_slots index)[hole := NO_NODE],
                       m_control := (m_control index)[hole := EMPTY]\<rparr>)
      else let capacity = length (m_slots index);
               home = home_slot capacity (arena_Hash arena (m_slots index ! cursor))
           in if m_control index ! cursor = FULL \<and>
                 slot_distance capacity hole home < slot_distance capacity cursor home
              then back_shift arena
                     (index\<lparr>m_slots := (m_slots index)[hole := m_slots index ! cursor],
                            m_control := (m_control index)[hole := FULL]\<rparr>)
                     cursor (next_slot capacity cursor) fuel
              else back_shift arena index hole (next_slot capacity cursor) fuel)"

fun erase_loop ::
    "NodeArena \<Rightarrow> KeylessLeafIndex \<Rightarrow> NodeId \<Rightarrow> nat \<Rightarrow> nat \<Rightarrow> (bool \<times> KeylessLeafIndex) option" where
  "erase_loop arena index nid slot 0 = None"
| "erase_loop arena index nid slot (Suc fuel) =
     (if m_control index ! slot = EMPTY then Some (False, index)
      else if m_control index ! slot = FULL \<and> m_slots index ! slot = nid
      then map_option (Pair True)
             (back_shift arena (index\<lparr>m_size := m_size index - 1\<rparr>) slot
               (next_slot (length (m_slots index)) slot) (length (m_slots index)))
      else erase_loop arena index nid (next_slot (length (m_slots index)) slot) fuel)"

definition Erase ::
    "NodeArena \<Rightarrow> KeylessLeafIndex \<Rightarrow> hash256 \<Rightarrow> NodeId \<Rightarrow> (bool \<times> KeylessLeafIndex) option" where
  "Erase arena index hash nid =
     erase_loop arena index nid (home_slot (length (m_slots index)) hash) (length (m_slots index))"

definition PrepareInsertions ::
    "NodeArena \<Rightarrow> KeylessLeafIndex \<Rightarrow> nat \<Rightarrow> nat \<Rightarrow> KeylessLeafIndex option" where
  "PrepareInsertions arena index deletions additions =
     (let needed = m_size index + m_tombstones index + additions + 1;
          capacity_needed = (needed * 10 + 7) div 8
      in if capacity_needed > length (m_slots index)
         then let live_needed = m_size index + additions + 1;
                  live_capacity = (live_needed * 10 + 7) div 8
              in Rehash arena index (max (length (m_slots index)) live_capacity)
         else Some index)"

section \<open>Slot arithmetic\<close>

text \<open>For a capacity \<open>2 ^ k\<close> the masked word operations are arithmetic in the ring of slots.\<close>

definition cdist :: "nat \<Rightarrow> nat \<Rightarrow> nat \<Rightarrow> nat" where
  "cdist C a b = (if a \<le> b then b - a else C + b - a)"

lemma and_capacity_mask:
  assumes "k \<le> 63"
  shows "unat ((w :: u64) AND (of_nat (2 ^ k) - 1)) = unat w mod 2 ^ k"
proof -
  have "w AND (of_nat (2 ^ k) - 1) = take_bit k w"
    by (simp add: take_bit_eq_mask mask_eq_exp_minus_1)
  then show ?thesis by (metis unsigned_take_bit_eq take_bit_eq_mod)
qed

lemma home_slot_less: "C = 2 ^ k \<Longrightarrow> k \<le> 63 \<Longrightarrow> home_slot C h < C"
  by (simp add: home_slot_def and_capacity_mask del: of_nat_power)

lemma mod_mask_of_int:
  assumes "k \<le> 63"
  shows "int (unat ((of_int z :: u64) AND (of_nat (2 ^ k) - 1))) = z mod 2 ^ k"
proof -
  have "(2 ^ k :: int) dvd 2 ^ 64" using assms by (intro le_imp_power_dvd) simp
  moreover have "int (unat ((of_int z :: u64) AND (of_nat (2 ^ k) - 1))) = int (unat (of_int z :: u64)) mod 2 ^ k"
    by (subst and_capacity_mask [OF assms]) (simp add: zmod_int)
  moreover have "int (unat (of_int z :: u64)) = z mod 2 ^ 64"
    by (simp add: unsigned_of_int take_bit_eq_mod)
  ultimately show ?thesis by (simp add: mod_mod_cancel)
qed

definition slot_at :: "nat \<Rightarrow> nat \<Rightarrow> nat \<Rightarrow> nat" where
  "slot_at C h d = (h + d) mod C"

lemma slot_at_0 [simp]: "h < C \<Longrightarrow> slot_at C h 0 = h"
  by (simp add: slot_at_def)

lemma slot_at_less [simp]: "0 < C \<Longrightarrow> slot_at C h d < C"
  by (simp add: slot_at_def)

lemma slot_at_add: "slot_at C (slot_at C h d) e = slot_at C h (d + e)"
  by (simp add: slot_at_def mod_add_left_eq add.assoc)

lemma next_slot_eq:
  assumes "C = 2 ^ k" "k \<le> 63"
  shows "next_slot C s = slot_at C s 1"
proof -
  have "(of_nat s + 1 :: u64) = of_int (int s + 1)" by simp
  then have "int (next_slot C s) = (int s + 1) mod 2 ^ k"
    unfolding next_slot_def using assms mod_mask_of_int [of k "int s + 1"] by simp
  also have "\<dots> = int (slot_at C s 1)" using assms by (simp add: slot_at_def zmod_int add.commute)
  finally show ?thesis by simp
qed

lemma slot_distance_eq:
  assumes "C = 2 ^ k" "k \<le> 63" "s < C" "h < C"
  shows "slot_distance C s h = cdist C h s"
proof -
  have "(of_nat s - of_nat h :: u64) = of_int (int s - int h)" by simp
  then have "int (slot_distance C s h) = (int s - int h) mod int C"
    unfolding slot_distance_def using assms mod_mask_of_int [of k "int s - int h"] by simp
  also have "\<dots> = int (cdist C h s)"
  proof (cases "h \<le> s")
    case True
    then show ?thesis using assms(3) by (simp add: cdist_def of_nat_diff)
  next
    case False
    then have "(int s - int h) mod int C = (int s - int h + int C) mod int C" by simp
    also have "\<dots> = int s - int h + int C" using False assms(3,4) by (intro mod_pos_pos_trivial) auto
    finally show ?thesis using False assms(4) by (simp add: cdist_def of_nat_diff)
  qed
  finally show ?thesis by simp
qed

lemma cdist_less [simp]: "a < C \<Longrightarrow> b < C \<Longrightarrow> cdist C a b < C"
  by (auto simp: cdist_def)

lemma slot_at_cdist [simp]: "h < C \<Longrightarrow> s < C \<Longrightarrow> slot_at C h (cdist C h s) = s"
  by (auto simp: cdist_def slot_at_def)

lemma cdist_slot_at [simp]: "h < C \<Longrightarrow> d < C \<Longrightarrow> cdist C h (slot_at C h d) = d"
  by (auto simp: cdist_def slot_at_def mod_if)

lemma cdist_self_iff [simp]: "a < C \<Longrightarrow> b < C \<Longrightarrow> cdist C a b = 0 \<longleftrightarrow> a = b"
  by (auto simp: cdist_def)

lemma cdist_via: "cdist C h g < cdist C h s \<Longrightarrow> h < C \<Longrightarrow> g < C \<Longrightarrow> s < C \<Longrightarrow>
    cdist C h s = cdist C h g + cdist C g s"
  by (auto simp: cdist_def split: if_splits)

lemma slot_at_via: "h < C \<Longrightarrow> g < C \<Longrightarrow> slot_at C h (cdist C h g + i) = slot_at C g i"
  by (metis slot_at_add slot_at_cdist)

section \<open>The table invariant\<close>

text \<open>
  \<open>table hsh C slots control S\<close>: the buckets that are full hold exactly the ids of \<open>S\<close>, each once,
  none is a tombstone, and every bucket between the home of an id and the bucket it is in is
  full, so that a probe from the home reaches it.
\<close>

definition path_full :: "nat \<Rightarrow> control list \<Rightarrow> nat \<Rightarrow> nat \<Rightarrow> bool" where
  "path_full C control h s \<longleftrightarrow> (\<forall>d < cdist C h s. control ! slot_at C h d = FULL)"

definition table ::
    "(NodeId \<Rightarrow> hash256) \<Rightarrow> nat \<Rightarrow> NodeId list \<Rightarrow> control list \<Rightarrow> NodeId set \<Rightarrow> bool" where
  "table hsh C slots control S \<longleftrightarrow>
     length slots = C \<and> length control = C \<and>
     (\<forall>s < C. control ! s \<noteq> DELETED) \<and>
     inj_on ((!) slots) {s. s < C \<and> control ! s = FULL} \<and>
     S = (!) slots ` {s. s < C \<and> control ! s = FULL} \<and>
     (\<forall>s < C. control ! s = FULL \<longrightarrow> path_full C control (home_slot C (hsh (slots ! s))) s)"

definition index_inv :: "(NodeId \<Rightarrow> hash256) \<Rightarrow> KeylessLeafIndex \<Rightarrow> NodeId set \<Rightarrow> bool" where
  "index_inv hsh index S \<longleftrightarrow>
     (\<exists>k. 4 \<le> k \<and> k \<le> 63 \<and> length (m_slots index) = 2 ^ k) \<and>
     table hsh (length (m_slots index)) (m_slots index) (m_control index) S \<and>
     m_tombstones index = 0 \<and> m_size index = card S \<and>
     card S * 10 < length (m_slots index) * 8"

lemma table_cong: "table hsh C slots control S \<Longrightarrow> (\<And>n. n \<in> S \<Longrightarrow> hsh' n = hsh n) \<Longrightarrow>
    table hsh' C slots control S"
  by (auto simp: table_def)

lemma index_inv_cong: "index_inv hsh index S \<Longrightarrow> (\<And>n. n \<in> S \<Longrightarrow> hsh' n = hsh n) \<Longrightarrow> index_inv hsh' index S"
  using table_cong unfolding index_inv_def by metis

lemma table_card: "table hsh C slots control S \<Longrightarrow> card S = card {s. s < C \<and> control ! s = FULL}"
  by (auto simp: table_def card_image)

lemma table_has_empty:
  assumes "table hsh C slots control S" "card S < C"
  obtains e where "e < C" "control ! e = EMPTY"
proof (rule ccontr)
  assume no: "\<not> thesis"
  have "control ! s = FULL" if "s < C" for s
    using that no assms(1) \<open>\<And>e. \<lbrakk>e < C; control ! e = EMPTY\<rbrakk> \<Longrightarrow> thesis\<close>
    by (cases "control ! s") (auto simp: table_def)
  then have "{s. s < C \<and> control ! s = FULL} = {..< C}" by auto
  then show False using table_card [OF assms(1)] assms(2) by simp
qed

lemma table_finite: "table hsh C slots control S \<Longrightarrow> finite S"
  by (auto simp: table_def)

lemma first_empty:
  assumes "table hsh C slots control S" "card S < C" "h < C"
  obtains d where "d < C" "control ! slot_at C h d = EMPTY" "\<forall>j < d. control ! slot_at C h j = FULL"
proof -
  obtain e where e: "e < C" "control ! e = EMPTY" using table_has_empty [OF assms(1,2)] .
  define d where "d = (LEAST d. control ! slot_at C h d = EMPTY)"
  have w: "control ! slot_at C h (cdist C h e) = EMPTY" using e assms(3) by simp
  then have d1: "control ! slot_at C h d = EMPTY" unfolding d_def by (rule LeastI)
  have "d \<le> cdist C h e" unfolding d_def by (rule Least_le) (rule w)
  then have "d < C" using cdist_less [OF assms(3) e(1)] by linarith
  moreover have "control ! slot_at C h j = FULL" if "j < d" for j
  proof -
    have "control ! slot_at C h j \<noteq> EMPTY" using not_less_Least that unfolding d_def by blast
    moreover have "slot_at C h j < C" using assms(3) by simp
    ultimately show ?thesis using assms(1) by (cases "control ! slot_at C h j") (auto simp: table_def)
  qed
  ultimately show thesis using that d1 by blast
qed

lemma path_full_update: "path_full C control h s \<Longrightarrow> path_full C (control[g := FULL]) h s"
  unfolding path_full_def by (metis nth_list_update length_list_update list_update_beyond not_less)

lemma table_insert:
  assumes t: "table hsh C slots control S" and n: "n \<notin> S" and C: "0 < C"
    and h: "h = home_slot C (hsh n)" "h < C" and d: "d < C" "control ! slot_at C h d = EMPTY"
    and path: "\<forall>j < d. control ! slot_at C h j = FULL"
  shows "table hsh C (slots[slot_at C h d := n]) (control[slot_at C h d := FULL]) (insert n S)"
proof -
  let ?g = "slot_at C h d"
  let ?F = "{s. s < C \<and> control ! s = FULL}"
  have g: "?g < C" "?g \<notin> ?F" using C d by auto
  have len: "length slots = C" "length control = C" using t by (auto simp: table_def)
  have F: "{s. s < C \<and> control[?g := FULL] ! s = FULL} = insert ?g ?F"
    using g len by (auto simp: nth_list_update)
  have img: "(!) (slots[?g := n]) ` ?F = (!) slots ` ?F" using g by (intro image_cong) (auto intro: nth_list_update_neq)
  have inj: "inj_on ((!) (slots[?g := n])) ?F"
    using t g by (auto simp: table_def inj_on_def nth_list_update)
  have S: "S = (!) slots ` ?F" using t by (simp add: table_def)
  have "path_full C (control[?g := FULL]) (home_slot C (hsh (slots[?g := n] ! s))) s"
    if "s < C" "control[?g := FULL] ! s = FULL" for s
  proof (cases "s = ?g")
    case True
    have "path_full C control h ?g" using path d h by (simp add: path_full_def)
    then show ?thesis using True g len h by (simp add: path_full_update)
  next
    case False
    then have "path_full C control (home_slot C (hsh (slots ! s))) s"
      using that t len by (auto simp: table_def nth_list_update)
    then show ?thesis using False by (simp add: path_full_update)
  qed
  moreover have "inj_on ((!) (slots[?g := n])) (insert ?g ?F)"
    using inj img n S g len by (auto simp: nth_list_update)
  moreover have "insert n S = (!) (slots[?g := n]) ` insert ?g ?F"
    using img S g len by simp
  moreover have "\<forall>s < C. control[?g := FULL] ! s \<noteq> DELETED"
    using t len by (auto simp: table_def nth_list_update)
  ultimately show ?thesis unfolding table_def F using len by simp
qed

section \<open>Probing\<close>

lemma next_slot_step: "C = 2 ^ k \<Longrightarrow> k \<le> 63 \<Longrightarrow> next_slot C (slot_at C g j) = slot_at C g (Suc j)"
  using slot_at_add [of C g j 1] by (simp add: next_slot_eq)

lemma find_loop_Some:
  assumes "C = length (m_slots index)" "C = 2 ^ k" "k \<le> 63"
    and "find_loop arena index h (slot_at C g j) fuel = Some n"
  shows "\<exists>s < C. m_control index ! s = FULL \<and> m_slots index ! s = n \<and> IsLeaf arena n \<and> arena_Hash arena n = h"
  using assms(4)
proof (induction fuel arbitrary: j)
  case (Suc fuel)
  have C: "0 < C" using assms(2) by simp
  then have "find_loop arena index h (slot_at C g (Suc j)) fuel = Some n \<or>
      m_control index ! slot_at C g j = FULL \<and> m_slots index ! slot_at C g j = n \<and>
      IsLeaf arena n \<and> arena_Hash arena n = h"
    using Suc.prems by (auto simp: Let_def next_slot_step [OF assms(2,3)] assms(1) [symmetric] split: if_splits)
  then show ?case using Suc.IH C slot_at_less by blast
qed simp

lemma find_loop_None:
  assumes "C = length (m_slots index)" "C = 2 ^ k" "k \<le> 63"
    and "find_loop arena index h (slot_at C g j) fuel = None"
    and "j \<le> d" "d < j + fuel" "\<forall>i. j \<le> i \<and> i \<le> d \<longrightarrow> m_control index ! slot_at C g i = FULL"
    and "IsLeaf arena (m_slots index ! slot_at C g d)"
  shows "arena_Hash arena (m_slots index ! slot_at C g d) \<noteq> h"
  using assms(4-7)
proof (induction fuel arbitrary: j)
  case (Suc fuel)
  then have full: "m_control index ! slot_at C g j = FULL" by simp
  show ?case
  proof (cases "j = d")
    case True
    then show ?thesis using Suc.prems full assms(8) by (auto simp: Let_def split: if_splits)
  next
    case False
    then have "find_loop arena index h (slot_at C g (Suc j)) fuel = None"
      using Suc.prems full by (auto simp: Let_def next_slot_step [OF assms(2,3)] assms(1) [symmetric] split: if_splits)
    then show ?thesis using Suc.IH [of "Suc j"] Suc.prems False by auto
  qed
qed simp

lemma insert_loop_at:
  assumes "C = length (m_slots index)" "C = 2 ^ k" "k \<le> 63"
    and "j \<le> d" "d < j + fuel" "m_control index ! slot_at C g d = EMPTY"
    and "\<forall>i. j \<le> i \<and> i < d \<longrightarrow> m_control index ! slot_at C g i = FULL"
  shows "insert_loop index nid (slot_at C g j) None fuel =
    Some (index\<lparr>m_slots := (m_slots index)[slot_at C g d := nid],
                m_control := (m_control index)[slot_at C g d := FULL],
                m_size := m_size index + 1\<rparr>)"
  using assms(4,5,7)
proof (induction fuel arbitrary: j)
  case (Suc fuel)
  show ?case
  proof (cases "j = d")
    case True
    then show ?thesis using assms(6) by (simp add: Let_def)
  next
    case False
    then have "m_control index ! slot_at C g j = FULL" using Suc.prems by simp
    then show ?thesis
      using Suc.IH [of "Suc j"] Suc.prems False
      by (simp add: next_slot_step [OF assms(2,3)] assms(1) [symmetric])
  qed
qed simp

lemma first_not_full_at:
  assumes "C = length control" "C = 2 ^ k" "k \<le> 63"
    and "j \<le> d" "d < j + fuel" "control ! slot_at C g d \<noteq> FULL"
    and "\<forall>i. j \<le> i \<and> i < d \<longrightarrow> control ! slot_at C g i = FULL"
  shows "first_not_full control (slot_at C g j) fuel = Some (slot_at C g d)"
  using assms(4,5,7)
proof (induction fuel arbitrary: j)
  case (Suc fuel)
  show ?case
  proof (cases "j = d")
    case True
    then show ?thesis using assms(6) by simp
  next
    case False
    then show ?thesis
      using Suc.IH [of "Suc j"] Suc.prems
      by (simp add: next_slot_step [OF assms(2,3)] assms(1) [symmetric])
  qed
qed simp

lemma erase_loop_at:
  assumes "C = length (m_slots index)" "C = 2 ^ k" "k \<le> 63"
    and "j \<le> d" "d < j + fuel"
    and "m_control index ! slot_at C g d = EMPTY \<or>
         m_control index ! slot_at C g d = FULL \<and> m_slots index ! slot_at C g d = nid"
    and "\<forall>i. j \<le> i \<and> i < d \<longrightarrow> m_control index ! slot_at C g i = FULL \<and> m_slots index ! slot_at C g i \<noteq> nid"
  shows "erase_loop arena index nid (slot_at C g j) fuel =
    (if m_control index ! slot_at C g d = EMPTY then Some (False, index)
     else map_option (Pair True)
            (back_shift arena (index\<lparr>m_size := m_size index - 1\<rparr>) (slot_at C g d) (slot_at C g (Suc d)) C))"
  using assms(4,5,7)
proof (induction fuel arbitrary: j)
  case (Suc fuel)
  show ?case
  proof (cases "j = d")
    case True
    then show ?thesis using assms(6) by (auto simp: next_slot_step [OF assms(2,3)] assms(1) [symmetric])
  next
    case False
    then have "m_control index ! slot_at C g j = FULL" "m_slots index ! slot_at C g j \<noteq> nid"
      using Suc.prems by simp_all
    then show ?thesis
      using Suc.IH [of "Suc j"] Suc.prems False
      by (simp add: next_slot_step [OF assms(2,3)] assms(1) [symmetric])
  qed
qed simp

section \<open>Back-shift deletion\<close>

text \<open>
  The state inside the back-shift loop: bucket \<open>g\<close> is the hole, its contents do not count, the
  cursor is \<open>j\<close> buckets further, and an item whose probe path crosses the hole is not before the
  cursor.
\<close>

definition hole_inv ::
    "(NodeId \<Rightarrow> hash256) \<Rightarrow> nat \<Rightarrow> NodeId list \<Rightarrow> control list \<Rightarrow> nat \<Rightarrow> nat \<Rightarrow> NodeId set \<Rightarrow> bool" where
  "hole_inv hsh C slots control g j S \<longleftrightarrow>
     length slots = C \<and> length control = C \<and> g < C \<and> 1 \<le> j \<and>
     (\<forall>s < C. control ! s \<noteq> DELETED) \<and>
     (\<forall>i < j. control ! slot_at C g i = FULL) \<and>
     inj_on ((!) slots) {s. s < C \<and> control ! s = FULL \<and> s \<noteq> g} \<and>
     S = (!) slots ` {s. s < C \<and> control ! s = FULL \<and> s \<noteq> g} \<and>
     (\<forall>s < C. control ! s = FULL \<and> s \<noteq> g \<longrightarrow>
        path_full C control (home_slot C (hsh (slots ! s))) s \<and>
        (cdist C (home_slot C (hsh (slots ! s))) g < cdist C (home_slot C (hsh (slots ! s))) s \<longrightarrow>
           j \<le> cdist C g s))"

lemma hole_inv_skip:
  assumes inv: "hole_inv hsh C slots control g j S" and c: "j < C" "control ! slot_at C g j = FULL"
    and keep: "\<not> cdist C (home_slot C (hsh (slots ! slot_at C g j))) g <
                 cdist C (home_slot C (hsh (slots ! slot_at C g j))) (slot_at C g j)"
  shows "hole_inv hsh C slots control g (Suc j) S"
proof -
  have "Suc j \<le> cdist C g s"
    if "j \<le> cdist C g s" "s < C" "s \<noteq> slot_at C g j" for s
  proof -
    have "g < C" using inv by (simp add: hole_inv_def)
    then have "cdist C g s \<noteq> j" using that by (metis slot_at_cdist)
    then show ?thesis using that(1) by simp
  qed
  then show ?thesis
    using inv c keep unfolding hole_inv_def by (auto simp: less_Suc_eq)
qed

lemma hole_inv_move:
  assumes inv: "hole_inv hsh C slots control g j S" and c: "j < C" "control ! slot_at C g j = FULL"
    and h: "h = home_slot C (hsh (slots ! slot_at C g j))" "h < C"
    and mv: "cdist C h g < cdist C h (slot_at C g j)"
  shows "hole_inv hsh C (slots[g := slots ! slot_at C g j]) control (slot_at C g j) 1 S"
proof -
  let ?c = "slot_at C g j"
  let ?slots = "slots[g := slots ! ?c]"
  let ?F = "{s. s < C \<and> control ! s = FULL \<and> s \<noteq> g}"
  let ?F' = "{s. s < C \<and> control ! s = FULL \<and> s \<noteq> ?c}"
  have g: "g < C" "control ! g = FULL" and len: "length slots = C"
    using inv by (auto simp: hole_inv_def dest: spec [of _ 0])
  have cg: "?c < C" "?c \<noteq> g" using g mv by auto
  have cF: "?c \<in> ?F" using cg c by simp
  have F': "?F' = insert g (?F - {?c})" using g cg by auto
  have at: "?slots ! s = slots ! (if s = g then ?c else s)" for s using g len by simp
  have inj: "inj_on ((!) slots) ?F" using inv by (simp add: hole_inv_def)
  have "inj_on ((!) ?slots) ?F'"
  proof (rule inj_onI)
    fix s t assume st: "s \<in> ?F'" "t \<in> ?F'" "?slots ! s = ?slots ! t"
    then have "(if s = g then ?c else s) = (if t = g then ?c else t)"
      using inj_onD [OF inj] cF by (simp add: at)
    then show "s = t" using st by (auto split: if_splits)
  qed
  moreover have "S = (!) ?slots ` ?F'"
  proof -
    have "(!) ?slots ` (?F - {?c}) = (!) slots ` (?F - {?c})" by (intro image_cong) auto
    then have "(!) ?slots ` ?F' = insert (slots ! ?c) ((!) slots ` (?F - {?c}))"
      unfolding F' using g len by simp
    also have "\<dots> = (!) slots ` ?F" using cF by auto
    finally show ?thesis using inv by (simp add: hole_inv_def)
  qed
  moreover have "path_full C control (home_slot C (hsh (?slots ! s))) s" if "s \<in> ?F'" for s
  proof (cases "s = g")
    case True
    have "path_full C control h ?c" using inv cF h by (auto simp: hole_inv_def)
    then show ?thesis using True at h mv by (auto simp: path_full_def)
  next
    case False
    then show ?thesis using that inv at by (auto simp: hole_inv_def)
  qed
  moreover have "1 \<le> cdist C ?c s" if "s \<in> ?F'" for s
    using that cg cdist_self_iff [of ?c C s] by (auto simp: Suc_le_eq simp del: cdist_self_iff)
  ultimately show ?thesis
    using inv cg c unfolding hole_inv_def by auto
qed

lemma hole_inv_final:
  assumes inv: "hole_inv hsh C slots control g j S" and c: "j < C" "control ! slot_at C g j = EMPTY"
    and home: "\<And>h. home_slot C h < C"
  shows "table hsh C (slots[g := NO_NODE]) (control[g := EMPTY]) S"
proof -
  let ?F = "{s. s < C \<and> control ! s = FULL \<and> s \<noteq> g}"
  have g: "g < C" and len: "length slots = C" "length control = C"
    using inv by (auto simp: hole_inv_def)
  have F: "{s. s < C \<and> control[g := EMPTY] ! s = FULL} = ?F"
    using g len by (auto simp: nth_list_update)
  have img: "(!) (slots[g := NO_NODE]) ` ?F = (!) slots ` ?F" by (intro image_cong) auto
  have inj: "inj_on ((!) (slots[g := NO_NODE])) ?F"
    using inv by (auto simp: hole_inv_def inj_on_def)
  have "path_full C (control[g := EMPTY]) (home_slot C (hsh (slots ! s))) s" if s: "s \<in> ?F" for s
  proof -
    let ?h = "home_slot C (hsh (slots ! s))"
    have pf: "path_full C control ?h s" using inv s by (auto simp: hole_inv_def)
    have nog: "\<not> cdist C ?h g < cdist C ?h s"
    proof
      assume lt: "cdist C ?h g < cdist C ?h s"
      then have "j \<le> cdist C g s" using inv s by (auto simp: hole_inv_def)
      moreover have "cdist C g s \<noteq> j" using s c g by (metis (mono_tags, lifting) slot_at_cdist mem_Collect_eq control.distinct(1))
      ultimately have "cdist C ?h g + j < cdist C ?h s"
        using cdist_via [OF lt home g] s by simp
      then have "control ! slot_at C ?h (cdist C ?h g + j) = FULL" using pf by (simp add: path_full_def)
      then show False using c slot_at_via [OF home g] by simp
    qed
    have "slot_at C ?h d \<noteq> g" if "d < cdist C ?h s" for d
      using that nog cdist_slot_at [OF home, of d] cdist_less [OF home, of s] s
      by (metis (mono_tags, lifting) less_trans mem_Collect_eq)
    then show ?thesis using pf unfolding path_full_def by (metis nth_list_update_neq)
  qed
  then show ?thesis
    using inv len img inj unfolding table_def F hole_inv_def
    by (auto simp: nth_list_update)
qed

lemma back_shift_correct:
  assumes "C = 2 ^ k" "k \<le> 63" and "\<And>n. n \<in> S \<Longrightarrow> arena_Hash arena n = hsh n"
    and "length (m_slots index) = C" "hole_inv hsh C (m_slots index) (m_control index) g j S"
    and "j \<le> d" "d < j + fuel" "d < C" "m_control index ! slot_at C g d = EMPTY"
    and "\<forall>i. j \<le> i \<and> i < d \<longrightarrow> m_control index ! slot_at C g i = FULL"
  shows "\<exists>index'. back_shift arena index g (slot_at C g j) fuel = Some index' \<and>
    length (m_slots index') = C \<and> table hsh C (m_slots index') (m_control index') S \<and>
    m_size index' = m_size index \<and> m_tombstones index' = m_tombstones index"
  using assms(4-10)
proof (induction fuel arbitrary: index g j d)
  case (Suc fuel)
  have home: "home_slot C h < C" for h by (rule home_slot_less [OF assms(1,2)])
  have g: "g < C" "m_control index ! g = FULL" and j: "1 \<le> j"
    using Suc.prems(2) by (auto simp: hole_inv_def dest: spec [of _ 0])
  let ?c = "slot_at C g j"
  show ?case
  proof (cases "j = d")
    case True
    then show ?thesis
      using hole_inv_final [OF Suc.prems(2) _ _ home] Suc.prems by simp
  next
    case False
    then have full: "m_control index ! ?c = FULL" and jC: "j < C" using Suc.prems by auto
    have c: "?c < C" "?c \<noteq> g" using g jC j cdist_slot_at [of g C j] by (auto simp: cdist_def)
    then have "m_slots index ! ?c \<in> S" using full Suc.prems(2) by (auto simp: hole_inv_def)
    then have hash: "arena_Hash arena (m_slots index ! ?c) = hsh (m_slots index ! ?c)" by (rule assms(3))
    let ?h = "home_slot C (hsh (m_slots index ! ?c))"
    show ?thesis
    proof (cases "cdist C ?h g < cdist C ?h ?c")
      case mv: True
      let ?index = "index\<lparr>m_slots := (m_slots index)[g := m_slots index ! ?c],
        m_control := (m_control index)[g := FULL]\<rparr>"
      have ctl: "m_control ?index = m_control index" using g by (simp add: list_update_same_conv) (metis list_update_id)
      have at: "slot_at C ?c i = slot_at C g (j + i)" for i by (rule slot_at_add)
      have "hole_inv hsh C (m_slots ?index) (m_control ?index) ?c 1 S"
        using hole_inv_move [OF Suc.prems(2) jC full refl home mv] unfolding ctl by simp
      moreover have step: "back_shift arena index g ?c (Suc fuel) = back_shift arena ?index ?c (slot_at C ?c 1) fuel"
        using full mv hash Suc.prems(1) slot_distance_eq [OF assms(1,2) g(1) home]
          slot_distance_eq [OF assms(1,2) c(1) home]
        by (simp add: Let_def next_slot_step [OF assms(1,2)] at)
      moreover have "m_control ?index ! slot_at C ?c i = m_control index ! slot_at C g (j + i)" for i
        unfolding ctl at ..
      ultimately have "\<exists>index'. back_shift arena ?index ?c (slot_at C ?c 1) fuel = Some index' \<and>
          length (m_slots index') = C \<and> table hsh C (m_slots index') (m_control index') S \<and>
          m_size index' = m_size ?index \<and> m_tombstones index' = m_tombstones ?index"
        using Suc.prems False by (intro Suc.IH [of ?index ?c 1 "d - j"]) auto
      then show ?thesis using step by simp
    next
      case keep: False
      then have "hole_inv hsh C (m_slots index) (m_control index) g (Suc j) S"
        by (rule hole_inv_skip [OF Suc.prems(2) jC full])
      moreover have "back_shift arena index g ?c (Suc fuel) = back_shift arena index g (slot_at C g (Suc j)) fuel"
        using full keep hash Suc.prems(1) slot_distance_eq [OF assms(1,2) g(1) home]
          slot_distance_eq [OF assms(1,2) c(1) home]
        by (simp add: Let_def next_slot_step [OF assms(1,2)])
      ultimately show ?thesis using Suc.IH [of index g "Suc j" d] Suc.prems False by auto
    qed
  qed
qed simp

section \<open>The operations under the invariant\<close>

lemma index_invE:
  assumes "index_inv hsh index S"
  obtains k C where "C = length (m_slots index)" "C = 2 ^ k" "4 \<le> k" "k \<le> 63"
    "table hsh C (m_slots index) (m_control index) S" "card S < C" "0 < C" "\<And>h. home_slot C h < C"
    "m_size index = card S" "m_tombstones index = 0" "card S * 10 < C * 8"
proof -
  obtain k where k: "4 \<le> k" "k \<le> 63" "length (m_slots index) = 2 ^ k"
    using assms by (auto simp: index_inv_def)
  show thesis
  proof (rule that [of "length (m_slots index)" k])
    show "home_slot (length (m_slots index)) h < length (m_slots index)" for h
      by (rule home_slot_less [OF k(3,2)])
  qed (use assms k in \<open>simp_all add: index_inv_def\<close>)
qed

lemma index_invI:
  "length (m_slots index) = C \<Longrightarrow> C = 2 ^ k \<Longrightarrow> 4 \<le> k \<Longrightarrow> k \<le> 63 \<Longrightarrow>
   table hsh C (m_slots index) (m_control index) S \<Longrightarrow> m_size index = card S \<Longrightarrow>
   m_tombstones index = 0 \<Longrightarrow> card S * 10 < C * 8 \<Longrightarrow> index_inv hsh index S"
  by (auto simp: index_inv_def)

lemma Find_Some:
  assumes "index_inv hsh index S" "Find arena index h = Some n"
  shows "n \<in> S \<and> IsLeaf arena n \<and> arena_Hash arena n = h"
proof -
  from assms(1) obtain k C where C: "C = length (m_slots index)" "C = 2 ^ k" "4 \<le> k" "k \<le> 63"
    "table hsh C (m_slots index) (m_control index) S" "card S < C" "0 < C" "\<And>h. home_slot C h < C"
    by (elim index_invE) blast
  have "find_loop arena index h (slot_at C (home_slot C h) 0) C = Some n"
    using assms(2) C(1) C(8) by (simp add: Find_def)
  from find_loop_Some [OF C(1,2,4) this] C(5) show ?thesis by (auto simp: table_def)
qed

lemma Find_None:
  assumes "index_inv hsh index S" "Find arena index h = None" "n \<in> S"
    and "IsLeaf arena n" "arena_Hash arena n = hsh n"
  shows "hsh n \<noteq> h"
proof
  assume eq: "hsh n = h"
  from assms(1) obtain k C where C: "C = length (m_slots index)" "C = 2 ^ k" "4 \<le> k" "k \<le> 63"
    "table hsh C (m_slots index) (m_control index) S" "card S < C" "0 < C" "\<And>h. home_slot C h < C"
    by (elim index_invE) blast
  obtain s where s: "s < C" "m_control index ! s = FULL" "m_slots index ! s = n"
    using C(5) assms(3) by (auto simp: table_def)
  let ?h = "home_slot C h"
  let ?d = "cdist C ?h s"
  have pf: "path_full C (m_control index) ?h s" using C(5) s eq by (auto simp: table_def)
  have at: "slot_at C ?h ?d = s" using C(8) s(1) by simp
  have "find_loop arena index h (slot_at C ?h 0) C = None"
    using assms(2) C(1) C(8) by (simp add: Find_def)
  moreover have "\<forall>i. 0 \<le> i \<and> i \<le> ?d \<longrightarrow> m_control index ! slot_at C ?h i = FULL"
    using pf s at by (auto simp: path_full_def le_less)
  moreover have "?d < 0 + C" using C(8) s(1) by simp
  ultimately have "arena_Hash arena (m_slots index ! slot_at C ?h ?d) \<noteq> h"
    using s(3) at assms(4) by (intro find_loop_None [OF C(1,2,4), where j = 0 and fuel = C]) simp_all
  then show False using at s eq assms(5) by simp
qed

lemma bit_ceil_exp: "k \<le> 63 \<Longrightarrow> bit_ceil (2 ^ k) = 2 ^ k"
proof (cases "k = 0")
  case False
  assume k: "k \<le> 63"
  have "(2::nat) ^ k \<le> 2 ^ 63" using k by (intro power_increasing) auto
  then have u: "unat (of_nat (2 ^ k - 1) :: u64) = 2 ^ k - 1" by (intro unat_of_nat_small) simp
  have "bit_width (of_nat (2 ^ k - 1)) \<le> r \<longleftrightarrow> k \<le> r" if "r \<le> 64" for r
    using that by (simp only: bit_width_le_iff u) (auto simp: less_diff_conv2 Suc_le_eq [symmetric] simp flip: Suc_le_eq)
  from this [of k] this [of "bit_width (of_nat (2 ^ k - 1))"] k
  have "bit_width (of_nat (2 ^ k - 1)) = k" by (simp add: bit_width_def)
  then show ?thesis using False one_less_power [of "2::nat" k] by (simp add: bit_ceil_def)
qed (simp add: bit_ceil_def)

lemma bit_ceil_ge:
  assumes "n \<le> 2 ^ 63"
  obtains r where "r \<le> 63" "bit_ceil n = 2 ^ r" "n \<le> 2 ^ r"
proof (cases "n \<le> 1")
  case True
  then show thesis using that [of 0] by (simp add: bit_ceil_def)
next
  case False
  have u: "unat (of_nat (n - 1) :: u64) = n - 1" using assms by (intro unat_of_nat_small) simp
  let ?r = "bit_width (of_nat (n - 1))"
  have "?r \<le> 63" using assms False bit_width_le_iff [of 63 "of_nat (n - 1)"] u by auto
  moreover have "n \<le> 2 ^ ?r" using False bit_width_le_iff [of ?r "of_nat (n - 1)"] u by (auto simp: bit_width_def)
  ultimately show thesis using that False by (simp add: bit_ceil_def)
qed

lemma rehash_loop_correct:
  assumes "C = 2 ^ k" "k \<le> 63"
    and "table hsh C slots control T" "distinct (map fst (filter (\<lambda>p. snd p = FULL) old))"
    and "set (map fst (filter (\<lambda>p. snd p = FULL) old)) \<inter> T = {}"
    and "\<And>n. n \<in> set (map fst (filter (\<lambda>p. snd p = FULL) old)) \<Longrightarrow> IsLeaf arena n \<and> arena_Hash arena n = hsh n"
    and "card T + length (filter (\<lambda>p. snd p = FULL) old) < C"
  shows "\<exists>slots' control'. rehash_loop arena old (slots, control, card T) =
      Some (slots', control', card T + length (filter (\<lambda>p. snd p = FULL) old)) \<and>
    table hsh C slots' control' (T \<union> set (map fst (filter (\<lambda>p. snd p = FULL) old)))"
  using assms(3-7)
proof (induction old arbitrary: slots control T)
  case (Cons p old)
  obtain n c where p: "p = (n, c)" by (cases p)
  show ?case
  proof (cases "c = FULL")
    case True
    have leaf: "IsLeaf arena n" "arena_Hash arena n = hsh n" using Cons.prems(4) [of n] p True by auto
    have n: "n \<notin> T" and fin: "finite T" using Cons.prems(1,3) p True table_finite by auto
    let ?h = "home_slot C (hsh n)"
    have h: "?h < C" by (rule home_slot_less [OF assms(1,2)])
    have len: "C = length control" using Cons.prems(1) by (simp add: table_def)
    obtain d where d: "d < C" "control ! slot_at C ?h d = EMPTY" "\<forall>j < d. control ! slot_at C ?h j = FULL"
      using first_empty [OF Cons.prems(1) _ h] Cons.prems(5) by auto
    have "first_not_full control (slot_at C ?h 0) C = Some (slot_at C ?h d)"
      using d by (intro first_not_full_at [OF len assms(1,2)]) auto
    moreover have "table hsh C (slots[slot_at C ?h d := n]) (control[slot_at C ?h d := FULL]) (insert n T)"
      using table_insert [OF Cons.prems(1) n _ refl h d] h by linarith
    note Cons.IH [OF this]
    ultimately show ?thesis
      using Cons.prems p True leaf n fin h by (simp add: len [symmetric])
  next
    case False
    then show ?thesis using Cons.IH [OF Cons.prems(1)] Cons.prems p by simp
  qed
qed simp

lemma full_ids:
  assumes "table hsh C slots control S"
  shows "set (map fst (filter (\<lambda>p. snd p = FULL) (zip slots control))) = S"
    and "distinct (map fst (filter (\<lambda>p. snd p = FULL) (zip slots control)))"
    and "length (filter (\<lambda>p. snd p = FULL) (zip slots control)) = card S"
proof -
  let ?L = "filter (\<lambda>p. snd p = FULL) (zip slots control)"
  have z: "zip slots control = map (\<lambda>i. (slots ! i, control ! i)) [0..<C]"
    using assms by (auto simp: table_def list_eq_iff_nth_eq)
  have m: "map fst ?L = map ((!) slots) (filter (\<lambda>i. control ! i = FULL) [0..<C])"
    by (simp add: z filter_map comp_def)
  show S: "set (map fst ?L) = S" using assms unfolding m by (auto simp: table_def)
  show d: "distinct (map fst ?L)" using assms unfolding m by (auto simp: table_def distinct_map inj_on_def)
  show "length ?L = card S" using distinct_card [OF d] S by simp
qed

lemma table_empty: "table hsh C (replicate C NO_NODE) (replicate C EMPTY) {}"
  by (auto simp: table_def inj_on_def)

lemma Rehash_correct:
  assumes inv: "index_inv hsh index S" and leaf: "\<And>n. n \<in> S \<Longrightarrow> IsLeaf arena n \<and> arena_Hash arena n = hsh n"
    and cap: "max 16 (bit_ceil capacity) = 2 ^ k" "4 \<le> k" "k \<le> 63" and room: "card S * 10 < 2 ^ k * 8"
  shows "\<exists>index'. Rehash arena index capacity = Some index' \<and> index_inv hsh index' S \<and>
    length (m_slots index') = 2 ^ k"
proof -
  let ?C = "2 ^ k :: nat"
  have t: "table hsh (length (m_slots index)) (m_slots index) (m_control index) S"
    using inv by (simp add: index_inv_def)
  note f = full_ids [OF t]
  let ?old = "zip (m_slots index) (m_control index)"
  have "\<exists>slots' control'. rehash_loop arena ?old (replicate ?C NO_NODE, replicate ?C EMPTY, card ({} :: NodeId set)) =
      Some (slots', control', card ({} :: NodeId set) + length (filter (\<lambda>p. snd p = FULL) ?old)) \<and>
    table hsh ?C slots' control' ({} \<union> set (map fst (filter (\<lambda>p. snd p = FULL) ?old)))"
  proof (rule rehash_loop_correct [OF refl cap(3) table_empty f(2)])
    show "card ({} :: NodeId set) + length (filter (\<lambda>p. snd p = FULL) ?old) < ?C" using room by (simp add: f(3))
  qed (simp_all only: f(1) Int_empty_right leaf)
  then obtain slots control where r: "rehash_loop arena (zip (m_slots index) (m_control index))
      (replicate ?C NO_NODE, replicate ?C EMPTY, 0) = Some (slots, control, card S)"
    and t': "table hsh ?C slots control S"
    unfolding f by auto
  then show ?thesis
    using cap room by (auto simp: Rehash_def index_inv_def table_def)
qed

text \<open>Ids are 32-bit, so the set of indexed ids bounds the capacity a growth step can ask for.\<close>

lemma card_ids: "card (S :: NodeId set) \<le> 2 ^ 32"
proof -
  have "card S = card (unat ` S)" by (rule card_image [symmetric]) (simp add: inj_on_def word_unat_eq_iff)
  also have "\<dots> \<le> card {..< 2 ^ 32 :: nat}"
    by (intro card_mono) (auto intro: less_le_trans [OF unsigned_less])
  finally show ?thesis by simp
qed

lemma grow_for_insert_correct:
  assumes inv: "index_inv hsh index S" and leaf: "\<And>n. n \<in> S \<Longrightarrow> IsLeaf arena n \<and> arena_Hash arena n = hsh n"
  shows "\<exists>index'. grow_for_insert arena index = Some index' \<and> index_inv hsh index' S \<and>
    (card S + 1) * 10 < length (m_slots index') * 8"
proof -
  from inv obtain k C where C: "C = length (m_slots index)" "C = 2 ^ k" "4 \<le> k" "k \<le> 63"
    "m_size index = card S" "m_tombstones index = 0" "card S * 10 < C * 8"
    by (elim index_invE) blast
  show ?thesis
  proof (cases "(card S + 1) * 10 < C * 8")
    case True
    then show ?thesis using inv C by (simp add: grow_for_insert_def)
  next
    case False
    have "(2::nat) ^ k < 2 ^ 34" using False card_ids [of S] C(2) by simp
    then have k: "k < 34" by (rule power_less_imp_less_exp [rotated]) simp
    have c16: "16 \<le> (2::nat) ^ k" using power_increasing [OF C(3), of "2::nat"] by simp
    have bc: "bit_ceil (2 ^ Suc k) = 2 ^ Suc k" using bit_ceil_exp [of "Suc k"] k by simp
    have "\<exists>index'. Rehash arena index (2 ^ Suc k) = Some index' \<and> index_inv hsh index' S \<and>
        length (m_slots index') = 2 ^ Suc k"
    proof (rule Rehash_correct [OF inv leaf])
      show "max 16 (bit_ceil (2 ^ Suc k)) = 2 ^ Suc k" unfolding bc using c16 by simp
      show "card S * 10 < 2 ^ Suc k * 8" using C(2,7) by simp
    qed (use C k in simp_all)
    moreover have "grow_for_insert arena index = Rehash arena index (2 ^ Suc k)"
      using False C by (simp add: grow_for_insert_def mult.commute)
    moreover have "(card S + 1) * 10 < 2 ^ Suc k * 8" using C(2,7) c16 by simp
    ultimately show ?thesis by auto
  qed
qed

lemma insert_loop_correct:
  assumes inv: "index_inv hsh index S" and n: "nid \<notin> S" and room: "(card S + 1) * 10 < length (m_slots index) * 8"
  shows "\<exists>index'. insert_loop index nid (home_slot (length (m_slots index)) (hsh nid)) None (length (m_slots index)) =
      Some index' \<and> index_inv hsh index' (insert nid S) \<and> length (m_slots index') = length (m_slots index)"
proof -
  from inv obtain k C where C: "C = length (m_slots index)" "C = 2 ^ k" "4 \<le> k" "k \<le> 63"
    "table hsh C (m_slots index) (m_control index) S" "card S < C" "0 < C" "\<And>h. home_slot C h < C"
    "m_size index = card S" "m_tombstones index = 0"
    by (elim index_invE) blast
  let ?h = "home_slot C (hsh nid)"
  obtain d where d: "d < C" "m_control index ! slot_at C ?h d = EMPTY"
      "\<forall>j < d. m_control index ! slot_at C ?h j = FULL"
    using first_empty [OF C(5,6,8)] .
  have "insert_loop index nid (slot_at C ?h 0) None C =
      Some (index\<lparr>m_slots := (m_slots index)[slot_at C ?h d := nid],
        m_control := (m_control index)[slot_at C ?h d := FULL], m_size := m_size index + 1\<rparr>)"
    using d by (intro insert_loop_at [OF C(1,2,4)]) auto
  moreover have "table hsh C ((m_slots index)[slot_at C ?h d := nid]) ((m_control index)[slot_at C ?h d := FULL]) (insert nid S)"
    using table_insert [OF C(5) n C(7) refl C(8) d] .
  ultimately show ?thesis
    using C(1,8-10) n room table_finite [OF C(5)] by (auto intro!: index_invI [OF _ C(2-4)])
qed

lemma Insert_correct:
  assumes inv: "index_inv hsh index S" and leaf: "\<And>n. n \<in> S \<Longrightarrow> IsLeaf arena n \<and> arena_Hash arena n = hsh n"
    and n: "nid \<notin> S"
  shows "\<exists>index'. Insert arena index (hsh nid) nid = Some index' \<and> index_inv hsh index' (insert nid S)"
proof -
  obtain index1 where g: "grow_for_insert arena index = Some index1" "index_inv hsh index1 S"
      "(card S + 1) * 10 < length (m_slots index1) * 8"
    using grow_for_insert_correct [OF inv leaf] by blast
  then show ?thesis using insert_loop_correct [OF g(2) n g(3)] by (auto simp: Insert_def)
qed

lemma table_hole:
  assumes t: "table hsh C slots control S" and s: "s < C" "control ! s = FULL"
  shows "hole_inv hsh C slots control s 1 (S - {slots ! s})"
proof -
  let ?F = "{t. t < C \<and> control ! t = FULL}"
  have F: "{t. t < C \<and> control ! t = FULL \<and> t \<noteq> s} = ?F - {s}" by auto
  have inj: "inj_on ((!) slots) ?F" and S: "S = (!) slots ` ?F" using t by (auto simp: table_def)
  have "S - {slots ! s} = (!) slots ` (?F - {s})"
    unfolding S using inj_on_image_set_diff [OF inj, of ?F "{s}"] s by auto
  moreover have "1 \<le> cdist C s u" if "u < C" "u \<noteq> s" for u
    using that s cdist_self_iff [of s C u] by (auto simp: Suc_le_eq simp del: cdist_self_iff)
  ultimately show ?thesis
    using t s inj_on_subset [OF inj, of "?F - {s}"] unfolding hole_inv_def F by (auto simp: table_def)
qed

lemma Erase_correct:
  assumes inv: "index_inv hsh index S" and hash: "\<And>n. n \<in> S \<Longrightarrow> arena_Hash arena n = hsh n"
    and n: "nid \<in> S"
  shows "\<exists>index'. Erase arena index (hsh nid) nid = Some (True, index') \<and> index_inv hsh index' (S - {nid})"
proof -
  from inv obtain k C where C: "C = length (m_slots index)" "C = 2 ^ k" "4 \<le> k" "k \<le> 63"
    "table hsh C (m_slots index) (m_control index) S" "card S < C" "0 < C" "\<And>h. home_slot C h < C"
    "m_size index = card S" "m_tombstones index = 0" "card S * 10 < C * 8"
    by (elim index_invE) blast
  let ?h = "home_slot C (hsh nid)"
  obtain s where s: "s < C" "m_control index ! s = FULL" "m_slots index ! s = nid"
    using C(5) n by (auto simp: table_def)
  have pf: "path_full C (m_control index) ?h s" using C(5) s by (auto simp: table_def)
  let ?d = "cdist C ?h s"
  have at: "slot_at C ?h ?d = s" "?d < C" using C(8) s(1) by simp_all
  have other: "m_slots index ! slot_at C ?h i \<noteq> nid" if "i < ?d" for i
  proof
    assume eq: "m_slots index ! slot_at C ?h i = nid"
    have "slot_at C ?h i = s"
      using C(5,7) that pf s eq inj_onD [of "(!) (m_slots index)" "{s. s < C \<and> m_control index ! s = FULL}" "slot_at C ?h i" s]
      by (simp add: table_def path_full_def)
    then show False using cdist_slot_at [OF C(8), of i "hsh nid"] that at(2) by simp
  qed
  have e: "Erase arena index (hsh nid) nid = map_option (Pair True)
      (back_shift arena (index\<lparr>m_size := m_size index - 1\<rparr>) s (slot_at C s 1) C)"
    using erase_loop_at [OF C(1,2,4), of 0 ?d C ?h nid arena] pf other s at C(8) slot_at_add [of C ?h ?d 1]
    by (simp add: Erase_def C(1) [symmetric] path_full_def)
  obtain d where d: "d < C" "m_control index ! slot_at C s d = EMPTY" "\<forall>j < d. m_control index ! slot_at C s j = FULL"
    using first_empty [OF C(5,6) s(1)] .
  have d1: "1 \<le> d" using d s by (cases d) auto
  let ?index = "index\<lparr>m_size := m_size index - 1\<rparr>"
  have "\<exists>index'. back_shift arena ?index s (slot_at C s 1) C = Some index' \<and>
      length (m_slots index') = C \<and> table hsh C (m_slots index') (m_control index') (S - {nid}) \<and>
      m_size index' = m_size ?index \<and> m_tombstones index' = m_tombstones ?index"
    using table_hole [OF C(5) s(1,2)] s(3) C(1) d d1 hash
    by (intro back_shift_correct [OF C(2,4), where d = d]) auto
  moreover have "card (S - {nid}) = card S - 1" using n table_finite [OF C(5)] by simp
  ultimately show ?thesis using e C(9-11) index_invI [OF _ C(2-4)] by fastforce
qed

lemma Erase_absent:
  assumes inv: "index_inv hsh index S" and n: "nid \<notin> S"
  shows "Erase arena index h nid = Some (False, index)"
proof -
  from inv obtain k C where C: "C = length (m_slots index)" "C = 2 ^ k" "4 \<le> k" "k \<le> 63"
    "table hsh C (m_slots index) (m_control index) S" "card S < C" "0 < C" "\<And>h. home_slot C h < C"
    by (elim index_invE) blast
  let ?h = "home_slot C h"
  obtain d where d: "d < C" "m_control index ! slot_at C ?h d = EMPTY"
      "\<forall>j < d. m_control index ! slot_at C ?h j = FULL"
    using first_empty [OF C(5,6,8)] .
  have "m_slots index ! s \<noteq> nid" if "s < C" "m_control index ! s = FULL" for s
    using that n C(5) by (auto simp: table_def)
  then show ?thesis
    using erase_loop_at [OF C(1,2,4), of 0 d C ?h nid arena] d C(7,8)
    by (simp add: Erase_def C(1) [symmetric])
qed

lemma empty_index_inv: "index_inv hsh empty_index {}"
  by (rule index_invI [where C = 16 and k = 4])
     (use table_empty [of hsh 16] in \<open>simp_all add: empty_index_def\<close>)

text \<open>After \<open>PrepareInsertions\<close> the announced number of insertions finds enough room.\<close>

lemma PrepareInsertions_correct:
  assumes inv: "index_inv hsh index S" and leaf: "\<And>n. n \<in> S \<Longrightarrow> IsLeaf arena n \<and> arena_Hash arena n = hsh n"
    and adds: "additions < 2 ^ 61"
  shows "\<exists>index'. PrepareInsertions arena index deletions additions = Some index' \<and> index_inv hsh index' S \<and>
    (card S + additions) * 10 < length (m_slots index') * 8"
proof -
  from inv obtain k C where C: "C = length (m_slots index)" "C = 2 ^ k" "4 \<le> k" "k \<le> 63"
    "m_size index = card S" "m_tombstones index = 0" "card S * 10 < C * 8"
    by (elim index_invE) blast
  define need where "need = ((card S + additions + 1) * 10 + 7) div 8"
  have need: "(card S + additions + 1) * 10 \<le> need * 8" unfolding need_def by linarith
  show ?thesis
  proof (cases "need > C")
    case False
    then have "PrepareInsertions arena index deletions additions = Some index"
      using C by (simp add: PrepareInsertions_def Let_def need_def)
    then show ?thesis using inv need False C(1) by (intro exI [of _ index]) auto
  next
    case True
    have p: "PrepareInsertions arena index deletions additions = Rehash arena index need"
      using True C by (simp add: PrepareInsertions_def Let_def need_def)
    have "need \<le> 2 ^ 63" using adds card_ids [of S] unfolding need_def by simp
    then obtain r where r: "r \<le> 63" "bit_ceil need = 2 ^ r" "need \<le> 2 ^ r" by (rule bit_ceil_ge)
    have "(2::nat) ^ k < 2 ^ r" using True C(2) r(3) by linarith
    then have kr: "k < r" by (rule power_less_imp_less_exp [rotated]) simp
    have "16 \<le> (2::nat) ^ r" using kr C(3) power_increasing [of 4 r "2::nat"] by simp
    then have "max 16 (bit_ceil need) = 2 ^ r" using r(2) by simp
    moreover have "(card S + additions) * 10 < 2 ^ r * 8"
    proof -
      have "(card S + additions) * 10 < need * 8" using need by simp
      also have "\<dots> \<le> 2 ^ r * 8" using r(3) by simp
      finally show ?thesis .
    qed
    ultimately show ?thesis
      unfolding p using Rehash_correct [OF inv leaf, of need r] kr C(3) r(1) by auto
  qed
qed

lemma grow_for_insert_id:
  "index_inv hsh index S \<Longrightarrow> (card S + 1) * 10 < length (m_slots index) * 8 \<Longrightarrow>
   grow_for_insert arena index = Some index"
  by (auto simp: grow_for_insert_def index_inv_def)

section \<open>The interface of the index\<close>

text \<open>
  What the forest relies on: an index \<open>ix\<close> represents a set of leaf ids, keyed by the hash each id
  has in the arena. The client lemmas are proved from these laws alone.
\<close>

lemma option_eqI: "(\<And>m. a = Some m \<longleftrightarrow> b = Some m) \<Longrightarrow> a = b"
  by (cases a) force+

locale leaf_index =
  fixes inv :: "('n \<Rightarrow> 'h) \<Rightarrow> 'ix \<Rightarrow> 'n set \<Rightarrow> bool"
    and leaf :: "'a \<Rightarrow> 'n \<Rightarrow> bool"
    and key :: "'a \<Rightarrow> 'n \<Rightarrow> 'h"
    and find :: "'a \<Rightarrow> 'ix \<Rightarrow> 'h \<Rightarrow> 'n option"
    and ins :: "'a \<Rightarrow> 'ix \<Rightarrow> 'h \<Rightarrow> 'n \<Rightarrow> 'ix option"
    and del :: "'a \<Rightarrow> 'ix \<Rightarrow> 'h \<Rightarrow> 'n \<Rightarrow> (bool \<times> 'ix) option"
  assumes find_Some: "inv k ix S \<Longrightarrow> find a ix h = Some n \<Longrightarrow> n \<in> S \<and> leaf a n \<and> key a n = h"
    and find_None: "inv k ix S \<Longrightarrow> find a ix h = None \<Longrightarrow> n \<in> S \<Longrightarrow> leaf a n \<Longrightarrow> key a n = k n \<Longrightarrow> k n \<noteq> h"
    and ins_law: "inv k ix S \<Longrightarrow> (\<And>n. n \<in> S \<Longrightarrow> leaf a n \<and> key a n = k n) \<Longrightarrow> n \<notin> S \<Longrightarrow>
      \<exists>ix'. ins a ix (k n) n = Some ix' \<and> inv k ix' (insert n S)"
    and del_law: "inv k ix S \<Longrightarrow> (\<And>n. n \<in> S \<Longrightarrow> key a n = k n) \<Longrightarrow> n \<in> S \<Longrightarrow>
      \<exists>ix'. del a ix (k n) n = Some (True, ix') \<and> inv k ix' (S - {n})"
    and del_absent: "inv k ix S \<Longrightarrow> n \<notin> S \<Longrightarrow> del a ix h n = Some (False, ix)"
    and inv_cong: "inv k ix S \<Longrightarrow> (\<And>n. n \<in> S \<Longrightarrow> k' n = k n) \<Longrightarrow> inv k' ix S"
begin

text \<open>With distinct keys the index is the partial inverse of the key function.\<close>

definition keyed :: "'a \<Rightarrow> 'ix \<Rightarrow> 'n set \<Rightarrow> bool" where
  "keyed a ix S \<longleftrightarrow> inv (key a) ix S \<and> (\<forall>n \<in> S. leaf a n) \<and> inj_on (key a) S"

lemma find_iff: "keyed a ix S \<Longrightarrow> find a ix h = Some n \<longleftrightarrow> n \<in> S \<and> key a n = h"
  using find_Some [of "key a" ix S a h] find_None [of "key a" ix S a h n]
  by (cases "find a ix h") (auto simp: keyed_def dest: inj_onD)

lemma find_None_iff: "keyed a ix S \<Longrightarrow> find a ix h = None \<longleftrightarrow> h \<notin> key a ` S"
  using find_iff [of a ix S h] by (metis image_iff not_None_eq)

lemma find_insert:
  assumes "keyed a ix S" "leaf a n" "n \<notin> S" "key a n \<notin> key a ` S"
  obtains ix' where "ins a ix (key a n) n = Some ix'" "keyed a ix' (insert n S)"
    "\<And>h. find a ix' h = (if h = key a n then Some n else find a ix h)"
proof -
  obtain ix' where i: "ins a ix (key a n) n = Some ix'" "inv (key a) ix' (insert n S)"
    using ins_law [of "key a" ix S a n] assms by (auto simp: keyed_def)
  have fresh: "key a m \<noteq> key a n" if "m \<in> S" for m using that assms(4) by (metis imageI)
  from i have k: "keyed a ix' (insert n S)" using assms by (auto simp: keyed_def)
  have "find a ix' h = (if h = key a n then Some n else find a ix h)" for h
    using fresh by (intro option_eqI) (auto simp: find_iff [OF k] find_iff [OF assms(1)])
  then show thesis using that i k by blast
qed

lemma find_delete:
  assumes "keyed a ix S" "n \<in> S"
  obtains ix' where "del a ix (key a n) n = Some (True, ix')" "keyed a ix' (S - {n})"
    "\<And>h. find a ix' h = (if h = key a n then None else find a ix h)"
proof -
  obtain ix' where i: "del a ix (key a n) n = Some (True, ix')" "inv (key a) ix' (S - {n})"
    using del_law [of "key a" ix S a n] assms by (auto simp: keyed_def)
  then have k: "keyed a ix' (S - {n})" using assms by (auto simp: keyed_def inj_on_diff)
  have inj: "m = n" if "m \<in> S" "key a m = key a n" for m
    using that assms by (auto simp: keyed_def dest: inj_onD)
  have "find a ix' h = (if h = key a n then None else find a ix h)" for h
    using inj by (intro option_eqI) (auto simp: find_iff [OF k] find_iff [OF assms(1)])
  then show thesis using that i k by blast
qed

end

interpretation index: leaf_index index_inv IsLeaf arena_Hash Find Insert Erase
  by unfold_locales
     (rule Find_Some Find_None Insert_correct Erase_correct Erase_absent index_inv_cong; assumption)+

section \<open>Properties\<close>

text \<open>\<open>leaf_table arena index S\<close>: the index satisfies its invariant for the leaves \<open>S\<close> of the arena,
  whose hashes are pairwise different.\<close>

definition leaf_table :: "NodeArena \<Rightarrow> KeylessLeafIndex \<Rightarrow> NodeId set \<Rightarrow> bool" where
  "leaf_table arena index S \<longleftrightarrow>
     index_inv (arena_Hash arena) index S \<and> (\<forall>n \<in> S. IsLeaf arena n) \<and> inj_on (arena_Hash arena) S"

lemma leaf_table_keyed: "leaf_table = index.keyed"
  by (intro ext) (simp add: leaf_table_def index.keyed_def)

text \<open>An arena with a single leaf, for the witnesses.\<close>

definition one_leaf :: NodeArena where
  "one_leaf = snd (Allocate empty_arena LEAF null_hash NO_NODE NO_NODE)"

lemma one_leaf: "IsLeaf one_leaf 0" "arena_Hash one_leaf 0 = null_hash"
proof -
  let ?A = "Allocate empty_arena LEAF null_hash NO_NODE NO_NODE"
  have e: "?A = (Ok 0, one_leaf)"
    by (simp add: one_leaf_def Allocate_def take_slot_def drop_stale_def empty_arena_def NO_NODE_def Let_def)
  note al = arena.alloc_law [OF empty_arena_wf _ e]
  then have "Live one_leaf 0" by (auto simp: live_ids_def)
  with al show "IsLeaf one_leaf 0" "arena_Hash one_leaf 0 = null_hash"
    by (auto simp: IsLeaf_def arena_Type_def)
qed

lemma empty_index_table: "leaf_table arena empty_index {}"
  by (simp add: leaf_table_def empty_index_inv)

text \<open>C10: Inserting a leaf with a new hash always returns (no probe loop runs forever, the table
  grows first if it has to), keeps the index invariant, and changes the lookup of exactly that hash.\<close>

theorem Insert_then_Find:
  assumes "leaf_table arena index S" "IsLeaf arena nid" "nid \<notin> S"
    and "arena_Hash arena nid \<notin> arena_Hash arena ` S"
  shows "\<exists>index'. Insert arena index (arena_Hash arena nid) nid = Some index' \<and>
    leaf_table arena index' (insert nid S) \<and>
    (\<forall>h. Find arena index' h = (if h = arena_Hash arena nid then Some nid else Find arena index h))"
  using index.find_insert [OF assms(1) [unfolded leaf_table_keyed] assms(2-4)]
  unfolding leaf_table_keyed by blast

theorem Insert_then_Find_witness:
  "\<exists>index'. Insert one_leaf empty_index null_hash 0 = Some index' \<and> Find one_leaf index' null_hash = Some 0"
  using Insert_then_Find [OF empty_index_table one_leaf(1)] by (auto simp: one_leaf(2))

text \<open>C11: Erasing an indexed leaf always returns true, closes the gap in its probe cluster by
  back-shifting so that no tombstone is left, keeps the index invariant, and changes the lookup of
  exactly that leaf's hash; erasing an id that is not indexed returns false and changes nothing.\<close>

theorem Erase_then_Find:
  assumes "leaf_table arena index S"
  shows "(nid \<in> S \<longrightarrow> (\<exists>index'. Erase arena index (arena_Hash arena nid) nid = Some (True, index') \<and>
      leaf_table arena index' (S - {nid}) \<and> m_tombstones index' = 0 \<and>
      (\<forall>h. Find arena index' h = (if h = arena_Hash arena nid then None else Find arena index h)))) \<and>
    (nid \<notin> S \<longrightarrow> Erase arena index h nid = Some (False, index))"
proof (intro conjI impI)
  assume "nid \<in> S"
  then obtain index' where i: "Erase arena index (arena_Hash arena nid) nid = Some (True, index')"
      "leaf_table arena index' (S - {nid})"
      "\<And>h. Find arena index' h = (if h = arena_Hash arena nid then None else Find arena index h)"
    using index.find_delete [OF assms [unfolded leaf_table_keyed]] unfolding leaf_table_keyed by blast
  moreover have "m_tombstones index' = 0" using i(2) by (simp add: leaf_table_def index_inv_def)
  ultimately show "\<exists>index'. Erase arena index (arena_Hash arena nid) nid = Some (True, index') \<and>
      leaf_table arena index' (S - {nid}) \<and> m_tombstones index' = 0 \<and>
      (\<forall>h. Find arena index' h = (if h = arena_Hash arena nid then None else Find arena index h))"
    by blast
next
  assume "nid \<notin> S"
  then show "Erase arena index h nid = Some (False, index)"
    using Erase_absent assms by (auto simp: leaf_table_def)
qed

theorem Erase_then_Find_witness:
  "\<exists>index1 index2. Insert one_leaf empty_index null_hash 0 = Some index1 \<and>
     Erase one_leaf index1 null_hash 0 = Some (True, index2) \<and> Find one_leaf index2 null_hash = None \<and>
     Erase one_leaf empty_index null_hash 0 = Some (False, empty_index)"
proof -
  obtain index1 where i: "Insert one_leaf empty_index null_hash 0 = Some index1" "leaf_table one_leaf index1 {0}"
    using index.find_insert [of one_leaf empty_index "{}" 0] one_leaf empty_index_table [of one_leaf]
    unfolding leaf_table_keyed by auto
  then show ?thesis
    using Erase_then_Find [OF i(2), of 0 null_hash] Erase_then_Find [OF empty_index_table, of 0 one_leaf null_hash]
    by (auto simp: one_leaf(2))
qed



end
