(* ===== verification/Forest.thy ===== *)
theory Forest
  imports LeafIndex Verify
begin

unbundle bit_operations_syntax

text \<open>
  The forest (\<open>PackedForest::Impl\<close> of \<^verbatim>\<open>src/src/forest.cpp\<close>): the node arena, the leaf index, one root
  slot per row and the number of leaves ever added. An operation returns its \<open>Result\<close> and the new
  state, also when it fails half-way; \<open>None\<close> stands for a call that never returns (a probe loop of
  the index or a walk along parent links that does not end).
\<close>

section \<open>State\<close>

record forest =
  arena :: NodeArena
  index :: KeylessLeafIndex
  roots :: "NodeId list"
  num_leaves :: u64
  online :: bool

definition empty_forest :: forest where
  "empty_forest = \<lparr>arena = empty_arena, index = empty_index, roots = replicate 64 NO_NODE,
     num_leaves = 0, online = False\<rparr>"

type_synonym 'a outcome = "('a Result \<times> forest) option"

section \<open>Adding a leaf\<close>

function add_loop :: "u64 \<Rightarrow> nat \<Rightarrow> NodeId \<Rightarrow> forest \<Rightarrow> unit Result \<times> forest" where
  "add_loop leaves row node f =
     (if leaves AND 1 \<noteq> 0
      then let left = roots f ! row;
               f1 = f\<lparr>roots := (roots f)[row := NO_NODE]\<rparr>
           in if left \<noteq> NO_NODE
              then case Allocate (arena f1) BRANCH
                          (ParentHash (arena_Hash (arena f1) left) (arena_Hash (arena f1) node)) left node of
                     (Ok branch, a) \<Rightarrow>
                       add_loop (drop_bit 1 leaves) (row + 1) branch
                         (f1\<lparr>arena := SetParent (SetParent a left branch) node branch\<rparr>)
                   | (Err e, a) \<Rightarrow> (Err e, f1\<lparr>arena := a\<rparr>)
                   | (Throw e, a) \<Rightarrow> (Throw e, f1\<lparr>arena := a\<rparr>)
              else add_loop (drop_bit 1 leaves) (row + 1) node f1
      else (Ok (), f\<lparr>roots := (roots f)[row := node], num_leaves := num_leaves f + 1\<rparr>))"
  by pat_completeness auto

lemma drop_one_less: "leaves AND 1 \<noteq> 0 \<Longrightarrow> unat (drop_bit 1 leaves) < unat (leaves :: u64)"
proof -
  assume "leaves AND 1 \<noteq> 0"
  then have "leaves \<noteq> 0" by auto
  then have "0 < unat leaves" by (simp add: unat_gt_0)
  then show ?thesis by (simp add: drop_bit_eq_div unat_div)
qed

termination add_loop
  by (relation "measure (\<lambda>(leaves, row, node, f). unat leaves)") (auto dest: drop_one_less simp del: drop_bit_Suc)

declare add_loop.simps [simp del]

definition Add :: "forest \<Rightarrow> hash256 \<Rightarrow> unit outcome" where
  "Add f hash =
     (case Allocate (arena f) LEAF hash NO_NODE NO_NODE of
        (Ok node, a) \<Rightarrow>
          (case Insert a (index f) hash node of
             None \<Rightarrow> None
           | Some ix \<Rightarrow> Some (add_loop (num_leaves f) 0 node (f\<lparr>arena := a, index := ix\<rparr>)))
      | (Err e, a) \<Rightarrow> Some (Err e, f\<lparr>arena := a\<rparr>)
      | (Throw e, a) \<Rightarrow> Some (Throw e, f\<lparr>arena := a\<rparr>))"

section \<open>Deleting a leaf\<close>

partial_function (option) Recompute :: "NodeArena \<Rightarrow> NodeId \<Rightarrow> NodeArena option" where
  "Recompute a node =
     (if node = NO_NODE then Some a
      else let a1 = SetHash a node
                 (ParentHash (arena_Hash a (arena_Left a node)) (arena_Hash a (arena_Right a node)))
           in Recompute a1 (arena_Parent a1 node))"

definition find_root :: "NodeId list \<Rightarrow> NodeId \<Rightarrow> nat option" where
  "find_root rs nid = find (\<lambda>row. rs ! row = nid) [0..<length rs]"

text \<open>Both endings of \<open>DeleteId\<close>: the index entry goes, then the freed slots.\<close>

definition erase_leaf :: "forest \<Rightarrow> hash256 \<Rightarrow> NodeId \<Rightarrow> NodeId list \<Rightarrow> unit outcome" where
  "erase_leaf f hash leaf slots =
     (case Erase (arena f) (index f) hash leaf of
        None \<Rightarrow> None
      | Some (_, ix) \<Rightarrow> Some (Ok (), f\<lparr>index := ix, arena := foldl Free (arena f) slots\<rparr>))"

definition DeleteId :: "forest \<Rightarrow> NodeId \<Rightarrow> unit outcome" where
  "DeleteId f leaf =
     (if \<not> IsLeaf (arena f) leaf then Some (Err ''node is not a live leaf'', f)
      else let hash = arena_Hash (arena f) leaf;
               parent = arena_Parent (arena f) leaf
           in if parent = NO_NODE
              then case find_root (roots f) leaf of
                     None \<Rightarrow> Some (Err ''leaf root is not registered'', f)
                   | Some row \<Rightarrow> erase_leaf (f\<lparr>roots := (roots f)[row := NO_NODE]\<rparr>) hash leaf [leaf]
              else let sibling = (if arena_Left (arena f) parent = leaf
                                  then arena_Right (arena f) parent else arena_Left (arena f) parent);
                       grandparent = arena_Parent (arena f) parent
                   in if grandparent = NO_NODE
                      then case find_root (roots f) parent of
                             None \<Rightarrow> Some (Err ''branch root is not registered'', f)
                           | Some row \<Rightarrow>
                               erase_leaf (f\<lparr>roots := (roots f)[row := sibling],
                                             arena := SetParent (arena f) sibling NO_NODE\<rparr>)
                                 hash leaf [leaf, parent]
                      else if arena_Left (arena f) grandparent \<noteq> parent \<and>
                              arena_Right (arena f) grandparent \<noteq> parent
                      then Some (Err ''parent is detached from grandparent'', f)
                      else let a1 = (if arena_Left (arena f) grandparent = parent
                                     then SetLeft (arena f) grandparent sibling
                                     else SetRight (arena f) grandparent sibling);
                               a2 = SetParent a1 sibling grandparent
                           in case Recompute a2 grandparent of
                                None \<Rightarrow> None
                              | Some a3 \<Rightarrow> erase_leaf (f\<lparr>arena := a3\<rparr>) hash leaf [leaf, parent])"

section \<open>Positions\<close>

partial_function (option) climb ::
    "NodeArena \<Rightarrow> NodeId \<Rightarrow> u64 \<Rightarrow> u8 \<Rightarrow> (u64 \<times> u8 \<times> NodeId) Result option" where
  "climb a node directions distance =
     (if arena_Parent a node = NO_NODE then Some (Ok (directions, distance, node))
      else let parent = arena_Parent a node
           in if arena_Right a parent = node
              then climb a parent (push_bit 1 directions OR 1) (distance + 1)
              else if arena_Left a parent \<noteq> node
              then Some (Err ''node parent link is inconsistent'')
              else climb a parent (push_bit 1 directions) (distance + 1))"

primrec descend_pos :: "nat \<Rightarrow> nat \<Rightarrow> u64 \<Rightarrow> u64 \<Rightarrow> u64" where
  "descend_pos forest_rows 0 pos directions = pos"
| "descend_pos forest_rows (Suc n) pos directions =
     descend_pos forest_rows n
       (if directions AND 1 = 0 then LeftChild pos forest_rows else RightChild pos forest_rows)
       (drop_bit 1 directions)"

definition PositionOf :: "forest \<Rightarrow> NodeId \<Rightarrow> u64 Result option" where
  "PositionOf f leaf =
     (case climb (arena f) leaf 0 0 of
        None \<Rightarrow> None
      | Some (Ok (directions, distance, node)) \<Rightarrow>
          (let forest_rows = TreeRows (num_leaves f)
           in case find (\<lambda>row. drop_bit row (num_leaves f) AND 1 \<noteq> 0 \<and> roots f ! row = node)
                     [0..<forest_rows + 1] of
                None \<Rightarrow> Some (Err ''could not locate the leaf's root'')
              | Some root_row \<Rightarrow>
                  Some (Ok (descend_pos forest_rows (unat distance)
                              (RootPosition (num_leaves f) root_row forest_rows) directions)))
      | Some (Err e) \<Rightarrow> Some (Err e)
      | Some (Throw e) \<Rightarrow> Some (Throw e))"

fun pick_root :: "forest \<Rightarrow> nat \<Rightarrow> nat \<Rightarrow> nat list \<Rightarrow> NodeId" where
  "pick_root f wanted tree_idx [] = NO_NODE"
| "pick_root f wanted tree_idx (row # rows) =
     (if drop_bit row (num_leaves f) AND 1 = 0 then pick_root f wanted tree_idx rows
      else if tree_idx = wanted then roots f ! row
      else pick_root f wanted (tree_idx + 1) rows)"

primrec descend_node :: "NodeArena \<Rightarrow> u64 \<Rightarrow> nat \<Rightarrow> NodeId \<Rightarrow> NodeId Result" where
  "descend_node a bits 0 node = Ok node"
| "descend_node a bits (Suc row) node =
     (if \<not> Live a node \<or> IsLeaf a node then Err ''position descends past a leaf''
      else let niece = drop_bit row bits AND 1;
               child = (if niece = 0 then arena_Right a node else arena_Left a node)
           in if child = NO_NODE then Err ''position has no live node''
              else descend_node a bits row child)"

definition NodeAt :: "forest \<Rightarrow> u64 \<Rightarrow> NodeId Result" where
  "NodeAt f pos =
     (if num_leaves f = 0 then Err ''forest is empty''
      else let offset = DetectOffset pos (num_leaves f);
               forest_rows = TreeRows (num_leaves f);
               node = pick_root f (tree_index offset) 0 (rev [0..<forest_rows + 1])
           in if node = NO_NODE then Err ''position belongs to a deleted subtree''
              else descend_node (arena f) (path_bits offset) (branch_length offset) node)"

section \<open>Blocks of changes\<close>

definition branch_count :: "u64 \<Rightarrow> nat \<Rightarrow> u64" where
  "branch_count leaves additions =
     foldl (\<lambda>branches i. branches + of_nat (countr_one (leaves + of_nat i))) 0 [0..<additions]"

definition PrepareModify :: "forest \<Rightarrow> nat \<Rightarrow> nat \<Rightarrow> unit outcome" where
  "PrepareModify f additions deletions =
     (case PrepareInsertions (arena f) (index f) deletions additions of
        None \<Rightarrow> None
      | Some ix \<Rightarrow>
          Some (PrepareAllocations (arena f) (of_nat additions + branch_count (num_leaves f) additions),
                f\<lparr>index := ix\<rparr>))"

fun find_deletions ::
    "forest \<Rightarrow> hash256 list \<Rightarrow> hash256 set \<Rightarrow> (u64 \<times> NodeId) list \<Rightarrow> (u64 \<times> NodeId) list Result option" where
  "find_deletions f [] deleting nodes = Some (Ok nodes)"
| "find_deletions f (hash # deletions) deleting nodes =
     (if hash \<in> deleting then Some (Err ''duplicate deletion'')
      else case Find (arena f) (index f) hash of
             None \<Rightarrow> Some (Err ''deletion is not in forest'')
           | Some nid \<Rightarrow>
               (case PositionOf f nid of
                  None \<Rightarrow> None
                | Some (Ok pos) \<Rightarrow> find_deletions f deletions (insert hash deleting) (nodes @ [(pos, nid)])
                | Some (Err e) \<Rightarrow> Some (Err e)
                | Some (Throw e) \<Rightarrow> Some (Throw e)))"

fun delete_all :: "(u64 \<times> NodeId) list \<Rightarrow> forest \<Rightarrow> unit outcome" where
  "delete_all [] f = Some (Ok (), f)"
| "delete_all ((_, nid) # nodes) f =
     (case DeleteId f nid of
        None \<Rightarrow> None
      | Some (Ok _, f1) \<Rightarrow> delete_all nodes f1
      | Some (Err e, f1) \<Rightarrow> Some (Err e, f1)
      | Some (Throw e, f1) \<Rightarrow> Some (Throw e, f1))"

fun add_all :: "hash256 list \<Rightarrow> forest \<Rightarrow> unit outcome" where
  "add_all [] f = Some (Ok (), f)"
| "add_all (hash # additions) f =
     (case Add f hash of
        None \<Rightarrow> None
      | Some (Ok _, f1) \<Rightarrow> add_all additions f1
      | Some (Err e, f1) \<Rightarrow> Some (Err e, f1)
      | Some (Throw e, f1) \<Rightarrow> Some (Throw e, f1))"

definition Modify :: "forest \<Rightarrow> hash256 list \<Rightarrow> hash256 list \<Rightarrow> unit outcome" where
  "Modify f additions deletions =
     (case find_deletions f deletions {} [] of
        None \<Rightarrow> None
      | Some (Ok nodes) \<Rightarrow>
          (case PrepareModify f (length additions) (length deletions) of
             None \<Rightarrow> None
           | Some (Ok _, f1) \<Rightarrow>
               (case delete_all (sort_key fst nodes) f1 of
                  None \<Rightarrow> None
                | Some (Ok _, f2) \<Rightarrow> add_all additions f2
                | Some (Err e, f2) \<Rightarrow> Some (Err e, f2)
                | Some (Throw e, f2) \<Rightarrow> Some (Throw e, f2))
           | Some (Err e, f1) \<Rightarrow> Some (Err e, f1)
           | Some (Throw e, f1) \<Rightarrow> Some (Throw e, f1))
      | Some (Err e) \<Rightarrow> Some (Err e, f)
      | Some (Throw e) \<Rightarrow> Some (Throw e, f))"

section \<open>The public operations\<close>

definition PackedForest_Add :: "forest \<Rightarrow> hash256 \<Rightarrow> unit outcome" where
  "PackedForest_Add f leaf =
     (if online f then Some (Err ''use ModifyBlock for an online forest'', f) else Add f leaf)"

definition PackedForest_Delete :: "forest \<Rightarrow> hash256 \<Rightarrow> unit outcome" where
  "PackedForest_Delete f leaf =
     (if online f then Some (Err ''use ModifyBlock for an online forest'', f)
      else case Find (arena f) (index f) leaf of
             None \<Rightarrow> Some (Err ''leaf does not exist in forest'', f)
           | Some nid \<Rightarrow> DeleteId f nid)"

definition PackedForest_Modify :: "forest \<Rightarrow> hash256 list \<Rightarrow> hash256 list \<Rightarrow> unit outcome" where
  "PackedForest_Modify f additions deletions =
     (if online f then Some (Err ''use ModifyBlock for an online forest'', f)
      else Modify f additions deletions)"

fun target_positions :: "forest \<Rightarrow> hash256 list \<Rightarrow> u64 list Result option" where
  "target_positions f [] = Some (Ok [])"
| "target_positions f (target # ts) =
     (case Find (arena f) (index f) target of
        None \<Rightarrow> Some (Err ''proof target is not in forest'')
      | Some nid \<Rightarrow>
          (case PositionOf f nid of
             None \<Rightarrow> None
           | Some (Ok pos) \<Rightarrow> map_option (\<lambda>rest. and_then rest (\<lambda>ps. Ok (pos # ps))) (target_positions f ts)
           | Some (Err e) \<Rightarrow> Some (Err e)
           | Some (Throw e) \<Rightarrow> Some (Throw e)))"

fun proof_hashes :: "forest \<Rightarrow> u64 list \<Rightarrow> hash256 list Result" where
  "proof_hashes f [] = Ok []"
| "proof_hashes f (pos # ps) =
     (case NodeAt f pos of
        Ok node \<Rightarrow> and_then (proof_hashes f ps) (\<lambda>hs. Ok (arena_Hash (arena f) node # hs))
      | Err e \<Rightarrow> Err e
      | Throw e \<Rightarrow> Throw e)"

definition Prove :: "forest \<Rightarrow> hash256 list \<Rightarrow> Proof Result option" where
  "Prove f target_hashes =
     map_option (\<lambda>positions. and_then positions (\<lambda>ts.
        and_then (proof_hashes f (ProofPositions ts (num_leaves f) (TreeRows (num_leaves f))))
          (\<lambda>hs. Ok \<lparr>targets = ts, hashes = hs\<rparr>)))
       (target_positions f target_hashes)"

definition Contains :: "forest \<Rightarrow> hash256 \<Rightarrow> bool" where
  "Contains f leaf \<longleftrightarrow> Find (arena f) (index f) leaf \<noteq> None"

definition Roots :: "forest \<Rightarrow> hash256 option list" where
  "Roots f = map (\<lambda>row. if roots f ! row = NO_NODE then None
                        else Some (arena_Hash (arena f) (roots f ! row))) (root_rows (num_leaves f))"

end
