(* ===== verification/ForestTree.thy ===== *)
theory ForestTree
  imports Forest
begin

unbundle bit_operations_syntax

text \<open>
  The forest as trees. A tree names the slot of every node; \<open>links\<close> says that the arena stores the
  tree's structure and leaf hashes, \<open>hashed\<close> that every branch stores the parent hash of its
  children. \<open>forest_inv f ts\<close> relates the state of the forest to one optional tree per row, with
  nothing else live in the arena and exactly the leaves in the index. The operations of \<open>Forest\<close> are
  refined against operations on such trees.
\<close>

section \<open>Trees\<close>

datatype itree = ILeaf (root_slot: NodeId) hash256 | INode (root_slot: NodeId) itree itree

primrec ids :: "itree \<Rightarrow> NodeId list" where
  "ids (ILeaf n h) = [n]"
| "ids (INode n l r) = n # ids l @ ids r"

primrec leaf_slots :: "itree \<Rightarrow> NodeId list" where
  "leaf_slots (ILeaf n h) = [n]"
| "leaf_slots (INode n l r) = leaf_slots l @ leaf_slots r"

primrec leaf_hashes :: "itree \<Rightarrow> hash256 list" where
  "leaf_hashes (ILeaf n h) = [h]"
| "leaf_hashes (INode n l r) = leaf_hashes l @ leaf_hashes r"

primrec ihash :: "itree \<Rightarrow> hash256" where
  "ihash (ILeaf n h) = h"
| "ihash (INode n l r) = ParentHash (ihash l) (ihash r)"

primrec iheight :: "itree \<Rightarrow> nat" where
  "iheight (ILeaf n h) = 0"
| "iheight (INode n l r) = Suc (max (iheight l) (iheight r))"

fun links :: "(NodeId \<Rightarrow> NodeRecord) \<Rightarrow> NodeId \<Rightarrow> itree \<Rightarrow> bool" where
  "links m p (ILeaf n h) \<longleftrightarrow>
     m n = \<lparr>rec_hash = h, rec_parent = p, rec_left = NO_NODE, rec_right = NO_NODE, rec_type = LEAF\<rparr>"
| "links m p (INode n l r) \<longleftrightarrow>
     rec_parent (m n) = p \<and> rec_left (m n) = root_slot l \<and> rec_right (m n) = root_slot r \<and>
     rec_type (m n) = BRANCH \<and> links m n l \<and> links m n r"

fun hashed :: "(NodeId \<Rightarrow> NodeRecord) \<Rightarrow> itree \<Rightarrow> bool" where
  "hashed m (ILeaf n h) \<longleftrightarrow> True"
| "hashed m (INode n l r) \<longleftrightarrow> rec_hash (m n) = ParentHash (ihash l) (ihash r) \<and> hashed m l \<and> hashed m r"

definition rep :: "(NodeId \<Rightarrow> NodeRecord) \<Rightarrow> NodeId \<Rightarrow> itree \<Rightarrow> bool" where
  "rep m p t \<longleftrightarrow> links m p t \<and> hashed m t"

lemma root_slot_ids [simp]: "root_slot t \<in> set (ids t)"
  by (cases t) auto

lemma leaf_slots_ids: "set (leaf_slots t) \<subseteq> set (ids t)"
  by (induction t) auto

lemma ids_not_Nil [simp]: "ids t \<noteq> []"
  by (cases t) auto

lemma links_frame: "(\<And>n. n \<in> set (ids t) \<Longrightarrow> m' n = m n) \<Longrightarrow> links m' p t = links m p t"
  by (induction t arbitrary: p) auto

lemma hashed_frame: "(\<And>n. n \<in> set (ids t) \<Longrightarrow> m' n = m n) \<Longrightarrow> hashed m' t = hashed m t"
  by (induction t) auto

lemma rep_frame: "(\<And>n. n \<in> set (ids t) \<Longrightarrow> m' n = m n) \<Longrightarrow> rep m' p t = rep m p t"
  using links_frame [of t m' m p] hashed_frame [of t m' m] by (simp add: rep_def)

lemma links_root_parent: "links m p t \<Longrightarrow> rec_parent (m (root_slot t)) = p"
  by (cases t) auto

lemma rep_root_hash: "rep m p t \<Longrightarrow> rec_hash (m (root_slot t)) = ihash t"
  by (cases t) (auto simp: rep_def)

lemma links_leaf: "links m p t \<Longrightarrow> n \<in> set (leaf_slots t) \<Longrightarrow> rec_type (m n) = LEAF"
  by (induction t arbitrary: p) auto

lemma links_live: "links m p t \<Longrightarrow> n \<in> set (ids t) \<Longrightarrow> rec_type (m n) \<noteq> FREE"
  by (induction t arbitrary: p) auto

lemma leaf_hashes_read: "links m p t \<Longrightarrow> map (\<lambda>n. rec_hash (m n)) (leaf_slots t) = leaf_hashes t"
  by (induction t arbitrary: p) auto

lemma links_leaf_iff:
  "links m p t \<Longrightarrow> n \<in> set (ids t) \<Longrightarrow> rec_type (m n) = LEAF \<longleftrightarrow> n \<in> set (leaf_slots t)"
proof (induction t arbitrary: p)
  case (INode k l r)
  show ?case
  proof (cases "n = k")
    case True
    have "rec_type (m k) = BRANCH" using INode.prems by simp
    then show ?thesis using True INode.prems links_leaf [of m k l k] links_leaf [of m k r k] by auto
  next
    case False
    then consider "n \<in> set (ids l)" | "n \<in> set (ids r)" using INode.prems by auto
    then show ?thesis
    proof cases
      case 1
      then show ?thesis
        using INode.IH(1) [of k] INode.prems links_leaf [of m k r n] by auto
    next
      case 2
      then show ?thesis
        using INode.IH(2) [of k] INode.prems links_leaf [of m k l n] by auto
    qed
  qed
qed auto

text \<open>Giving the root of a tree another parent.\<close>

lemma links_reparent:
  assumes "links m p t" "distinct (ids t)"
    and "m' (root_slot t) = (m (root_slot t))\<lparr>rec_parent := q\<rparr>"
    and "\<And>n. n \<in> set (ids t) \<Longrightarrow> n \<noteq> root_slot t \<Longrightarrow> m' n = m n"
  shows "links m' q t"
proof (cases t)
  case (INode k l r)
  have "links m' k l" "links m' k r"
    using assms INode links_frame [of l m' m k] links_frame [of r m' m k] by auto
  then show ?thesis using assms INode by simp
qed (use assms in simp)

lemma hashed_same_hash:
  "(\<And>n. n \<in> set (ids t) \<Longrightarrow> rec_hash (m' n) = rec_hash (m n)) \<Longrightarrow> hashed m' t = hashed m t"
  by (induction t) auto

lemma rep_reparent:
  assumes "rep m p t" "distinct (ids t)"
    and "m' (root_slot t) = (m (root_slot t))\<lparr>rec_parent := q\<rparr>"
    and "\<And>n. n \<in> set (ids t) \<Longrightarrow> n \<noteq> root_slot t \<Longrightarrow> m' n = m n"
  shows "rep m' q t"
proof -
  have "rec_hash (m' n) = rec_hash (m n)" if "n \<in> set (ids t)" for n
    using assms(3,4) that by (cases "n = root_slot t") auto
  then show ?thesis
    using assms links_reparent [of m p t m' q] hashed_same_hash [of t m' m] by (simp add: rep_def)
qed

section \<open>Rows of trees\<close>

definition gather :: "(itree \<Rightarrow> 'a list) \<Rightarrow> itree option list \<Rightarrow> 'a list" where
  "gather g ts = concat (map (case_option [] g) ts)"

abbreviation all_ids :: "itree option list \<Rightarrow> NodeId list" where
  "all_ids \<equiv> gather ids"

abbreviation all_leaves :: "itree option list \<Rightarrow> NodeId list" where
  "all_leaves \<equiv> gather leaf_slots"

abbreviation all_hashes :: "itree option list \<Rightarrow> hash256 list" where
  "all_hashes \<equiv> gather leaf_hashes"

lemma set_gather: "n \<in> set (gather g ts) \<longleftrightarrow> (\<exists>row t. row < length ts \<and> ts ! row = Some t \<and> n \<in> set (g t))"
proof
  assume "n \<in> set (gather g ts)"
  then obtain x where "x \<in> set ts" "n \<in> set (case_option [] g x)" by (auto simp: gather_def)
  then obtain t where "Some t \<in> set ts" "n \<in> set (g t)" by (cases x) auto
  then show "\<exists>row t. row < length ts \<and> ts ! row = Some t \<and> n \<in> set (g t)"
    by (metis in_set_conv_nth)
next
  assume "\<exists>row t. row < length ts \<and> ts ! row = Some t \<and> n \<in> set (g t)"
  then obtain row t where r: "row < length ts" "ts ! row = Some t" "n \<in> set (g t)" by blast
  then have "Some t \<in> set ts" by (metis nth_mem)
  then show "n \<in> set (gather g ts)" using r(3) by (auto simp: gather_def intro!: bexI [of _ "Some t"])
qed

lemma mset_gather_update:
  "row < length ts \<Longrightarrow>
   mset (gather g (ts[row := x])) + mset (case_option [] g (ts ! row)) = mset (gather g ts) + mset (case_option [] g x)"
proof (induction ts arbitrary: row)
  case (Cons y ts)
  show ?case
  proof (cases row)
    case (Suc k)
    then show ?thesis using Cons.IH [of k] Cons.prems by (simp add: gather_def)
  qed (simp add: gather_def)
qed simp

lemma set_gather_update:
  "row < length ts \<Longrightarrow> distinct (gather g ts) \<Longrightarrow>
   set (gather g (ts[row := x])) = (set (gather g ts) - set (case_option [] g (ts ! row))) \<union> set (case_option [] g x)"
proof (induction ts arbitrary: row)
  case (Cons y ts)
  have d: "set (case_option [] g y) \<inter> set (gather g ts) = {}" "distinct (gather g ts)" "gather g (y # ts) = case_option [] g y @ gather g ts"
    using Cons.prems(2) by (auto simp: gather_def)
  show ?case
  proof (cases row)
    case 0
    then show ?thesis using d by (auto simp: gather_def)
  next
    case (Suc k)
    then have k: "k < length ts" using Cons.prems by simp
    have "set (case_option [] g (ts ! k)) \<subseteq> set (gather g ts)"
      using k by (cases "ts ! k") (use set_gather in fastforce)+
    moreover have "set (gather g ((y # ts)[row := x])) = set (case_option [] g y) \<union> set (gather g (ts[k := x]))"
      "set (gather g (y # ts)) = set (case_option [] g y) \<union> set (gather g ts)" "(y # ts) ! row = ts ! k"
      using Suc by (simp_all add: gather_def)
    ultimately show ?thesis using Cons.IH [OF k d(2)] d(1) by (simp only:) blast
  qed
qed simp

lemma gather_nth_subset: "row < length ts \<Longrightarrow> ts ! row = Some t \<Longrightarrow> set (g t) \<subseteq> set (gather g ts)"
  using set_gather by fastforce

lemma distinct_gather_nth: "distinct (gather g ts) \<Longrightarrow> row < length ts \<Longrightarrow> ts ! row = Some t \<Longrightarrow> distinct (g t)"
  by (induction ts arbitrary: row) (auto simp: gather_def nth_Cons split: nat.splits)

lemma gather_disjoint:
  "distinct (gather g ts) \<Longrightarrow> i < length ts \<Longrightarrow> j < length ts \<Longrightarrow> i \<noteq> j \<Longrightarrow> ts ! i = Some s \<Longrightarrow> ts ! j = Some t \<Longrightarrow>
   set (g s) \<inter> set (g t) = {}"
proof (induction ts arbitrary: i j)
  case (Cons y ts)
  have d: "set (case_option [] g y) \<inter> set (gather g ts) = {}" "distinct (gather g ts)"
    using Cons.prems(1) by (auto simp: gather_def)
  show ?case
  proof (cases i)
    case 0
    then show ?thesis using Cons.prems d gather_nth_subset [of "j - 1" ts t g] by (cases j) auto
  next
    case (Suc i')
    show ?thesis
    proof (cases j)
      case 0
      then show ?thesis using Cons.prems d Suc gather_nth_subset [of i' ts s g] by auto
    next
      case (Suc j')
      then show ?thesis using Cons.IH [OF d(2), of i' j'] Cons.prems \<open>i = Suc i'\<close> by auto
    qed
  qed
qed simp

section \<open>The invariant\<close>

definition slot_of :: "itree option \<Rightarrow> NodeId" where
  "slot_of x = (case x of None \<Rightarrow> NO_NODE | Some t \<Rightarrow> root_slot t)"

definition row_ok :: "(NodeId \<Rightarrow> NodeRecord) \<Rightarrow> u64 \<Rightarrow> nat \<Rightarrow> itree option \<Rightarrow> bool" where
  "row_ok m leaves row x \<longleftrightarrow>
     (\<forall>t. x = Some t \<longrightarrow> rep m NO_NODE t \<and> iheight t \<le> row \<and> bit leaves row)"

definition forest_inv :: "forest \<Rightarrow> itree option list \<Rightarrow> bool" where
  "forest_inv f ts \<longleftrightarrow>
     arena_wf (arena f) \<and> length ts = 64 \<and> roots f = map slot_of ts \<and>
     (\<forall>row < 64. row_ok (Read (arena f)) (num_leaves f) row (ts ! row)) \<and>
     distinct (all_ids ts) \<and> live_ids (arena f) = set (all_ids ts) \<and>
     index_inv (\<lambda>n. rec_hash (Read (arena f) n)) (index f) (set (all_leaves ts))"

lemma forest_invD:
  assumes "forest_inv f ts"
  shows "arena_wf (arena f)" "length ts = 64" "roots f = map slot_of ts" "length (roots f) = 64"
    "\<And>row. row < 64 \<Longrightarrow> roots f ! row = slot_of (ts ! row)"
    "\<And>row t. row < 64 \<Longrightarrow> ts ! row = Some t \<Longrightarrow> rep (Read (arena f)) NO_NODE t"
    "\<And>row t. row < 64 \<Longrightarrow> ts ! row = Some t \<Longrightarrow> iheight t \<le> row"
    "\<And>row t. row < 64 \<Longrightarrow> ts ! row = Some t \<Longrightarrow> bit (num_leaves f) row"
    "distinct (all_ids ts)" "live_ids (arena f) = set (all_ids ts)"
    "index_inv (\<lambda>n. rec_hash (Read (arena f) n)) (index f) (set (all_leaves ts))"
    "NO_NODE \<notin> set (all_ids ts)"
  using assms arena.live_not_null [of "arena f"] by (auto simp: forest_inv_def row_ok_def)

lemma all_leaves_subset: "set (all_leaves ts) \<subseteq> set (all_ids ts)"
  using leaf_slots_ids by (force simp: set_gather)

lemma IsLeaf_in_forest:
  assumes "forest_inv f ts"
  shows "IsLeaf (arena f) n \<longleftrightarrow> n \<in> set (all_leaves ts)"
proof -
  note D = forest_invD [OF assms]
  have "IsLeaf (arena f) n \<longleftrightarrow> n \<in> set (all_ids ts) \<and> rec_type (Read (arena f) n) = LEAF"
    unfolding D(10) [symmetric] by (auto simp: IsLeaf_iff live_ids_def Live_iff)
  also have "\<dots> \<longleftrightarrow> n \<in> set (all_leaves ts)"
  proof
    assume n: "n \<in> set (all_ids ts) \<and> rec_type (Read (arena f) n) = LEAF"
    then obtain row t where t: "row < length ts" "ts ! row = Some t" "n \<in> set (ids t)" by (auto simp: set_gather)
    then have "links (Read (arena f)) NO_NODE t" using D(2,6) by (auto simp: rep_def)
    then show "n \<in> set (all_leaves ts)" using links_leaf_iff t n by (force simp: set_gather)
  next
    assume n: "n \<in> set (all_leaves ts)"
    then obtain row t where t: "row < length ts" "ts ! row = Some t" "n \<in> set (leaf_slots t)" by (auto simp: set_gather)
    then have "links (Read (arena f)) NO_NODE t" using D(2,6) by (auto simp: rep_def)
    then show "n \<in> set (all_ids ts) \<and> rec_type (Read (arena f) n) = LEAF"
      using links_leaf t n all_leaves_subset by blast
  qed
  finally show ?thesis .
qed

lemma empty_forest_inv: "forest_inv empty_forest (replicate 64 None)"
proof -
  have "live_ids empty_arena = {}" by (simp add: live_ids_def Live_iff empty_arena_def)
  then show ?thesis
    using empty_index_inv empty_arena_wf
    by (auto simp: forest_inv_def empty_forest_def slot_of_def row_ok_def gather_def)
qed

section \<open>Adding a leaf\<close>

text \<open>Trees without slots, and what adding a leaf does to the rows.\<close>

datatype htree = HLeaf hash256 | HNode htree htree

primrec strip :: "itree \<Rightarrow> htree" where
  "strip (ILeaf n h) = HLeaf h"
| "strip (INode n l r) = HNode (strip l) (strip r)"

definition forest_abs :: "itree option list \<Rightarrow> htree option list" where
  "forest_abs ts = map (map_option strip) ts"

function add_spec :: "nat \<Rightarrow> nat \<Rightarrow> htree \<Rightarrow> htree option list \<Rightarrow> htree option list" where
  "add_spec n row t ts =
     (if odd n then add_spec (n div 2) (row + 1) (case ts ! row of None \<Rightarrow> t | Some l \<Rightarrow> HNode l t) (ts[row := None])
      else ts[row := Some t])"
  by pat_completeness auto
termination
  by (relation "measure (\<lambda>(n, row, t, ts). n)") (auto elim: oddE)

declare add_spec.simps [simp del]

function trailing_ones :: "nat \<Rightarrow> nat" where
  "trailing_ones n = (if odd n then Suc (trailing_ones (n div 2)) else 0)"
  by pat_completeness auto
termination
  by (relation "measure (\<lambda>n. n)") (auto elim: oddE)

declare trailing_ones.simps [simp del]

definition carry_inv :: "forest \<Rightarrow> itree option list \<Rightarrow> itree \<Rightarrow> nat \<Rightarrow> bool" where
  "carry_inv f ts t row \<longleftrightarrow>
     arena_wf (arena f) \<and> length ts = 64 \<and> roots f = map slot_of ts \<and>
     (\<forall>r < 64. row_ok (Read (arena f)) (num_leaves f) r (ts ! r)) \<and>
     rep (Read (arena f)) NO_NODE t \<and> iheight t \<le> row \<and>
     distinct (ids t @ all_ids ts) \<and> live_ids (arena f) = set (ids t) \<union> set (all_ids ts) \<and>
     index_inv (\<lambda>n. rec_hash (Read (arena f) n)) (index f) (set (leaf_slots t) \<union> set (all_leaves ts)) \<and>
     (\<forall>r < row. ts ! r = None)"

lemma carry_end_bits:
  assumes "\<forall>k < row. bit (N :: u64) k" "\<not> bit N row" "N \<noteq> - 1"
  shows "bit (N + 1) row" and "row < r \<Longrightarrow> bit (N + 1) r = bit N r"
proof -
  have N1: "unat (N + 1) = unat N + 1" using assms(3) by (rule unat_plus_one)
  have "take_bit row (unat N) = 2 ^ row - 1"
  proof -
    have "take_bit row (unat N) = mask row"
      by (rule bit_eqI) (use assms(1) in \<open>auto simp: bit_take_bit_iff bit_mask_iff bit_unsigned_iff dest: bit_imp_le_length\<close>)
    then show ?thesis by (simp add: mask_eq_exp_minus_1)
  qed
  then have m: "unat N mod 2 ^ row = 2 ^ row - 1" by (simp add: take_bit_eq_mod)
  have "even (unat N div 2 ^ row)" using assms(2) by (simp add: bit_u64_odd_div)
  then obtain q where q: "unat N div 2 ^ row = 2 * q" by (elim evenE)
  have "unat N = 2 ^ row * (2 * q) + (2 ^ row - 1)"
    using mult_div_mod_eq [of "2 ^ row" "unat N"] m q by simp
  then have N: "unat N + 1 = 2 ^ row * (2 * q + 1)" "unat N = 2 ^ row * (2 * q) + (2 ^ row - 1)"
    using one_le_power [of "2::nat" row] by (auto simp: algebra_simps)
  then have "(unat N + 1) div 2 ^ row = 2 * q + 1" by simp
  then show "bit (N + 1) row" by (simp add: bit_u64_odd_div N1)
  assume r: "row < r"
  have "(unat N + 1) div 2 ^ Suc row = unat N div 2 ^ Suc row"
    using q \<open>(unat N + 1) div 2 ^ row = 2 * q + 1\<close> by (simp add: div_exp_step del: power_Suc)
  then have "(unat N + 1) div (2 ^ Suc row * 2 ^ (r - Suc row)) = unat N div (2 ^ Suc row * 2 ^ (r - Suc row))"
    by (simp add: div_mult2_eq)
  then have "(unat N + 1) div 2 ^ r = unat N div 2 ^ r" using r by (simp only: power_add [symmetric]) simp
  then show "bit (N + 1) r = bit N r" by (simp add: bit_u64_odd_div N1)
qed

lemma carry_finish:
  assumes inv: "carry_inv f ts t row" and row: "row < 64"
    and bits: "\<forall>k < row. bit (num_leaves f) k" "\<not> bit (num_leaves f) row" "num_leaves f \<noteq> - 1"
    and free: "ts ! row = None"
  shows "forest_inv (f\<lparr>roots := (roots f)[row := root_slot t], num_leaves := num_leaves f + 1\<rparr>) (ts[row := Some t])"
proof -
  note b = carry_end_bits [OF bits]
  let ?ts = "ts[row := Some t]"
  have len: "length ts = 64" and d: "distinct (ids t @ all_ids ts)" using inv by (auto simp: carry_inv_def)
  have ms: "mset (all_ids ?ts) = mset (ids t @ all_ids ts)"
    using mset_gather_update [of row ts ids "Some t"] row len free by simp
  have "distinct (all_ids ?ts)" using d ms mset_eq_imp_distinct_iff by blast
  moreover have "set (all_ids ?ts) = set (ids t) \<union> set (all_ids ts)" using ms by (metis set_append set_mset_mset)
  moreover have "mset (all_leaves ?ts) = mset (leaf_slots t @ all_leaves ts)"
    using mset_gather_update [of row ts leaf_slots "Some t"] row len free by simp
  then have "set (all_leaves ?ts) = set (leaf_slots t) \<union> set (all_leaves ts)" by (metis set_append set_mset_mset)
  moreover have "row_ok (Read (arena f)) (num_leaves f + 1) r (?ts ! r)" if "r < 64" for r
  proof -
    consider "r < row" | "r = row" | "row < r" by linarith
    then show ?thesis
    proof cases
      case 1
      then show ?thesis using inv row by (simp add: carry_inv_def row_ok_def)
    next
      case 2
      then show ?thesis using inv b row len by (simp add: carry_inv_def row_ok_def)
    next
      case 3
      then show ?thesis using inv b that by (auto simp: carry_inv_def row_ok_def)
    qed
  qed
  ultimately show ?thesis
    using inv row by (auto simp: forest_inv_def carry_inv_def map_update slot_of_def)
qed

lemma carry_merge:
  assumes inv: "carry_inv f ts t row" and row: "row < 64" and l: "ts ! row = Some l"
    and al: "Allocate (arena f) BRANCH h (root_slot l) (root_slot t) = (Ok b, a)"
    and h: "h = ParentHash (ihash l) (ihash t)"
  shows "carry_inv (f\<lparr>roots := (roots f)[row := NO_NODE],
           arena := SetParent (SetParent a (root_slot l) b) (root_slot t) b\<rparr>) (ts[row := None]) (INode b l t) (row + 1)"
    and "live_ids (SetParent (SetParent a (root_slot l) b) (root_slot t) b) = insert b (live_ids (arena f))"
    and "b \<notin> live_ids (arena f)"
proof -
  let ?m = "Read (arena f)" and ?ts = "ts[row := None]" and ?l = "root_slot l" and ?t = "root_slot t"
  let ?a = "SetParent (SetParent a ?l b) ?t b"
  let ?m' = "Read ?a"
  have wf: "arena_wf (arena f)" and len: "length ts = 64" and d: "distinct (ids t @ all_ids ts)"
    and live: "live_ids (arena f) = set (ids t) \<union> set (all_ids ts)"
    and rt: "rep ?m NO_NODE t" and ok: "\<And>r. r < 64 \<Longrightarrow> row_ok ?m (num_leaves f) r (ts ! r)"
    and hl: "iheight t \<le> row" and empty: "\<forall>r < row. ts ! r = None"
    using inv by (auto simp: carry_inv_def)
  note law = arena.alloc_law [OF wf _ al, simplified]
  then have wfa: "arena_wf a" and bl: "b \<notin> live_ids (arena f)" and la: "live_ids a = insert b (live_ids (arena f))"
    and Ra: "Read a = ?m(b := \<lparr>rec_hash = h, rec_parent = NO_NODE, rec_left = ?l, rec_right = ?t, rec_type = BRANCH\<rparr>)"
    by auto
  show "b \<notin> live_ids (arena f)" by (rule bl)
  have ts_l: "set (ids l) \<subseteq> set (all_ids ts)" using gather_nth_subset [of row ts l ids] row len l by simp
  have dl: "distinct (ids l)" using distinct_gather_nth [of ids ts row l] d row len l by simp
  have disj: "set (ids l) \<inter> set (ids t) = {}" "b \<notin> set (ids l)" "b \<notin> set (ids t)" "b \<notin> set (all_ids ts)"
    using d ts_l bl live by auto
  then have ne: "?l \<noteq> ?t" "?l \<noteq> b" "?t \<noteq> b" using root_slot_ids by (metis IntI empty_iff, metis, metis)
  have R: "?m' = ?m(b := \<lparr>rec_hash = h, rec_parent = NO_NODE, rec_left = ?l, rec_right = ?t, rec_type = BRANCH\<rparr>,
      ?l := (?m ?l)\<lparr>rec_parent := b\<rparr>, ?t := (?m ?t)\<lparr>rec_parent := b\<rparr>)"
    unfolding Read_sets Ra using ne by (auto simp: fun_eq_iff)
  have wf': "arena_wf ?a" and live': "live_ids ?a = insert b (live_ids (arena f))"
    using wfa la unfolding SetParent_def
    by (auto simp: arena_wf_update arena.put_wf live_ids_def Live_iff Read_update_record)
  then show "live_ids ?a = insert b (live_ids (arena f))" by simp
  have rl: "rep ?m NO_NODE l" and hlr: "iheight l \<le> row" using ok [OF row] l by (auto simp: row_ok_def)
  have out: "?l \<notin> set (ids t)" "?t \<notin> set (ids l)" using disj(1) root_slot_ids by blast+
  have "rep ?m' b l" by (rule rep_reparent [OF rl dl]) (use R ne disj out in auto)
  moreover have "rep ?m' b t" by (rule rep_reparent [OF rt]) (use R ne disj out d in auto)
  moreover have "?m' b = \<lparr>rec_hash = h, rec_parent = NO_NODE, rec_left = ?l, rec_right = ?t, rec_type = BRANCH\<rparr>"
    using R ne by simp
  ultimately have rep: "rep ?m' NO_NODE (INode b l t)" using h by (simp add: rep_def)
  have other: "?m' n = ?m n" if "n \<noteq> b" "n \<noteq> ?l" "n \<noteq> ?t" for n using that R by simp
  have ms: "mset (all_ids ?ts) + mset (ids l) = mset (all_ids ts)"
    using mset_gather_update [of row ts ids None] row len l by simp
  have sub: "set (all_ids ?ts) \<subseteq> set (all_ids ts)" using ms by (metis set_mset_mset union_iff subsetI)
  have "mset (ids (INode b l t) @ all_ids ?ts) = mset (b # ids t @ all_ids ts)"
    by (simp add: ms [symmetric])
  moreover have "distinct (b # ids t @ all_ids ts)" using d disj by auto
  ultimately have dd: "distinct (ids (INode b l t) @ all_ids ?ts)" using mset_eq_imp_distinct_iff by blast
  have ss: "set (ids (INode b l t)) \<union> set (all_ids ?ts) = insert b (live_ids (arena f))"
    unfolding live using set_gather_update [of row ts ids None] row len l d ts_l by auto
  have ix: "index_inv (\<lambda>n. rec_hash (?m' n)) (index f) (set (leaf_slots t) \<union> set (all_leaves ts))"
  proof (rule index_inv_cong)
    show "index_inv (\<lambda>n. rec_hash (?m n)) (index f) (set (leaf_slots t) \<union> set (all_leaves ts))"
      using inv by (simp add: carry_inv_def)
    fix n
    assume "n \<in> set (leaf_slots t) \<union> set (all_leaves ts)"
    then have "n \<noteq> b" using bl live all_leaves_subset leaf_slots_ids by blast
    then show "rec_hash (?m' n) = rec_hash (?m n)" using R by auto
  qed
  have lv: "set (leaf_slots t) \<union> set (all_leaves ts) = set (leaf_slots (INode b l t)) \<union> set (all_leaves ?ts)"
  proof -
    have "mset (all_leaves ?ts) + mset (leaf_slots l) = mset (all_leaves ts)"
      using mset_gather_update [of row ts leaf_slots None] row len l by simp
    then have "set (all_leaves ts) = set (all_leaves ?ts) \<union> set (leaf_slots l)" by (metis set_mset_mset set_mset_union)
    then show ?thesis by auto
  qed
  have rows: "row_ok ?m' (num_leaves f) r (?ts ! r)" if r: "r < 64" for r
  proof (cases "r = row")
    case False
    show ?thesis unfolding row_ok_def
    proof (intro allI impI)
      fix u
      assume u: "?ts ! r = Some u"
      then have tsr: "ts ! r = Some u" using False by simp
      have "n \<noteq> b \<and> n \<noteq> ?l \<and> n \<noteq> ?t" if n: "n \<in> set (ids u)" for n
      proof -
        have "n \<in> set (all_ids ts)" using n gather_nth_subset [of r ts u ids] r len tsr by auto
        moreover have "n \<notin> set (ids l)"
          using gather_disjoint [of ids ts r row u l] d r row len tsr l False n by auto
        ultimately show ?thesis using disj d root_slot_ids by (metis disjoint_iff distinct_append)
      qed
      then have "rep ?m' NO_NODE u = rep ?m NO_NODE u" by (intro rep_frame) (auto simp: other)
      then show "rep ?m' NO_NODE u \<and> iheight u \<le> r \<and> bit (num_leaves f) r" using ok [OF r] tsr by (auto simp: row_ok_def)
    qed
  qed (use row len in \<open>simp add: row_ok_def\<close>)
  show "carry_inv (f\<lparr>roots := (roots f)[row := NO_NODE], arena := ?a\<rparr>) ?ts (INode b l t) (row + 1)"
    unfolding carry_inv_def using wf' len inv rows rep hl hlr dd ss live' ix lv empty row
    by (simp add: carry_inv_def map_update slot_of_def less_Suc_eq)
qed

lemma forest_abs_update: "forest_abs (ts[row := x]) = (forest_abs ts)[row := map_option strip x]"
  by (simp add: forest_abs_def map_update)

lemma forest_abs_nth: "row < length ts \<Longrightarrow> forest_abs ts ! row = map_option strip (ts ! row)"
  by (simp add: forest_abs_def)

lemma add_loop_correct:
  assumes "carry_inv f ts t row" "leaves = drop_bit row (num_leaves f)" "unat (num_leaves f) < 2 ^ 63"
    and "\<forall>k < row. bit (num_leaves f) k" "row < 64"
    and "card (live_ids (arena f)) + trailing_ones (unat leaves) \<le> 2 ^ 32 - 1"
  shows "\<exists>f' ts'. add_loop leaves row (root_slot t) f = (Ok (), f') \<and> forest_inv f' ts' \<and>
    num_leaves f' = num_leaves f + 1 \<and> online f' = online f \<and>
    forest_abs ts' = add_spec (unat leaves) row (strip t) (forest_abs ts) \<and>
    set (all_leaves ts') = set (leaf_slots t) \<union> set (all_leaves ts) \<and>
    mset (all_hashes ts') = mset (leaf_hashes t) + mset (all_hashes ts) \<and>
    card (live_ids (arena f')) \<le> card (live_ids (arena f)) + trailing_ones (unat leaves)"
  using assms
proof (induction "unat leaves" arbitrary: leaves row f t ts rule: less_induct)
  case less
  note prems = less.prems and IH = less.hyps
  have len: "length ts = 64" and rs: "roots f = map slot_of ts" and wf: "arena_wf (arena f)"
    using prems(1) by (auto simp: carry_inv_def)
  have odd_iff: "leaves AND 1 \<noteq> 0 \<longleftrightarrow> bit (num_leaves f) row" "odd (unat leaves) \<longleftrightarrow> bit (num_leaves f) row"
    using bit_u64_odd_div [of leaves 0] by (simp_all add: prems(2) and_one_zero bit_drop_bit_eq)
  show ?case
  proof (cases "leaves AND 1 \<noteq> 0")
    case True
    then have b: "bit (num_leaves f) row" using odd_iff by simp
    have "row \<noteq> 63"
      using b bit_imp_exp_le_unat [of "num_leaves f" row] prems(3) by auto
    then have row: "row + 1 < 64" using prems(5) by simp
    have half: "drop_bit 1 leaves = drop_bit (row + 1) (num_leaves f)"
      unfolding prems(2) by (simp only: drop_bit_drop_bit) (simp only: add.commute)
    have lt: "unat (drop_bit 1 leaves) < unat leaves" by (rule drop_one_less [OF True])
    have uh: "unat (drop_bit 1 leaves) = unat leaves div 2" by (simp add: drop_bit_eq_div unat_div)
    have tones: "trailing_ones (unat leaves) = Suc (trailing_ones (unat leaves div 2))"
      using True odd_iff by (subst trailing_ones.simps) simp
    have bits: "\<forall>k < row + 1. bit (num_leaves f) k" using prems(4) b by (auto simp: less_Suc_eq)
    have left: "roots f ! row = slot_of (ts ! row)" using rs len prems(5) by simp
    have spec: "add_spec (unat leaves) row (strip t) (forest_abs ts) =
        add_spec (unat leaves div 2) (row + 1)
          (case forest_abs ts ! row of None \<Rightarrow> strip t | Some l \<Rightarrow> HNode l (strip t)) ((forest_abs ts)[row := None])"
      using True odd_iff by (subst add_spec.simps) simp
    let ?f1 = "f\<lparr>roots := (roots f)[row := NO_NODE]\<rparr>"
    show ?thesis
    proof (cases "ts ! row")
      case None
      have f1: "(roots f)[row := NO_NODE] = map slot_of ts"
        using rs left None len prems(5) by (simp add: list_update_same_conv slot_of_def)
      have ts: "(forest_abs ts)[row := None] = forest_abs ts"
        using None forest_abs_update [of ts row None] by (metis list_update_id option.simps(8))
      have ci: "carry_inv ?f1 ts t (row + 1)"
        using prems(1) None f1 by (auto simp: carry_inv_def less_Suc_eq)
      from IH [OF lt ci] prems row half bits uh tones
      obtain f' ts' where r: "add_loop (drop_bit 1 leaves) (row + 1) (root_slot t) ?f1 = (Ok (), f')" "forest_inv f' ts'"
        "num_leaves f' = num_leaves f + 1" "online f' = online f"
        "forest_abs ts' = add_spec (unat leaves div 2) (row + 1) (strip t) (forest_abs ts)"
        "set (all_leaves ts') = set (leaf_slots t) \<union> set (all_leaves ts)"
        "mset (all_hashes ts') = mset (leaf_hashes t) + mset (all_hashes ts)"
        "card (live_ids (arena f')) \<le> card (live_ids (arena f)) + trailing_ones (unat leaves div 2)"
        by (auto simp: slot_of_def)
      have "add_loop leaves row (root_slot t) f = (Ok (), f')"
        using True left None r(1) by (subst add_loop.simps) (simp add: Let_def slot_of_def)
      then show ?thesis using r spec None prems(5) len ts tones
        by (intro exI [of _ f'] exI [of _ ts']) (simp add: forest_abs_nth)
    next
      case (Some l)
      have ll: "roots f ! row = root_slot l" using left Some by (simp add: slot_of_def)
      have "set (ids l) \<subseteq> set (all_ids ts)" using prems(5) len Some by (intro gather_nth_subset [of row]) simp_all
      then have "root_slot l \<in> set (all_ids ts)" using root_slot_ids by blast
      then have "root_slot l \<in> live_ids (arena f)" using prems(1) by (simp add: carry_inv_def)
      then have nn: "root_slot l \<noteq> NO_NODE" using arena.live_not_null [OF wf] by metis
      have "rep (Read (arena f)) NO_NODE l" "rep (Read (arena f)) NO_NODE t"
        using prems(1,5) Some by (auto simp: carry_inv_def row_ok_def)
      then have hash: "arena_Hash (arena f) (root_slot l) = ihash l" "arena_Hash (arena f) (root_slot t) = ihash t"
        using wf rep_root_hash by auto
      let ?h = "ParentHash (ihash l) (ihash t)"
      have "card (live_ids (arena f)) < 2 ^ 32 - 1" using prems(6) tones by simp
      then obtain br a where al: "Allocate (arena f) BRANCH ?h (root_slot l) (root_slot t) = (Ok br, a)"
        using Allocate_room [OF wf] by blast
      let ?a = "SetParent (SetParent a (root_slot l) br) (root_slot t) br"
      let ?f2 = "?f1\<lparr>arena := ?a\<rparr>"
      note cm = carry_merge [OF prems(1,5) Some al refl]
      have card: "card (live_ids ?a) = Suc (card (live_ids (arena f)))" using cm(2,3) by simp
      have ms: "mset (all_leaves (ts[row := None])) + mset (leaf_slots l) = mset (all_leaves ts)"
        "mset (all_hashes (ts[row := None])) + mset (leaf_hashes l) = mset (all_hashes ts)"
        using mset_gather_update [of row ts leaf_slots None] mset_gather_update [of row ts leaf_hashes None] prems(5) len Some
        by simp_all
      then have ls: "set (all_leaves ts) = set (all_leaves (ts[row := None])) \<union> set (leaf_slots l)"
        by (metis set_mset_mset set_mset_union)
      from IH [OF lt cm(1)] prems row half bits uh tones card
      obtain f' ts' where r: "add_loop (drop_bit 1 leaves) (row + 1) br ?f2 = (Ok (), f')" "forest_inv f' ts'"
        "num_leaves f' = num_leaves f + 1" "online f' = online f"
        "forest_abs ts' = add_spec (unat leaves div 2) (row + 1) (HNode (strip l) (strip t)) (forest_abs (ts[row := None]))"
        "set (all_leaves ts') = set (leaf_slots l) \<union> set (leaf_slots t) \<union> set (all_leaves (ts[row := None]))"
        "mset (all_hashes ts') = mset (leaf_hashes l) + mset (leaf_hashes t) + mset (all_hashes (ts[row := None]))"
        "card (live_ids (arena f')) \<le> Suc (card (live_ids (arena f))) + trailing_ones (unat leaves div 2)"
        by auto
      have "add_loop leaves row (root_slot t) f = (Ok (), f')"
        using True ll nn al hash r(1) by (subst add_loop.simps) (simp add: Let_def)
      then show ?thesis using r spec Some prems(5) len tones ls ms
        by (intro exI [of _ f'] exI [of _ ts']) (auto simp: forest_abs_nth forest_abs_update ac_simps)
    qed
  next
    case False
    then have nb: "\<not> bit (num_leaves f) row" using odd_iff by simp
    then have none: "ts ! row = None" using prems(1,5) by (cases "ts ! row") (auto simp: carry_inv_def row_ok_def)
    have neq: "num_leaves f \<noteq> - 1" using prems(3) by (auto simp: unsigned_minus_1_eq_mask mask_eq_exp_minus_1)
    let ?f = "f\<lparr>roots := (roots f)[row := root_slot t], num_leaves := num_leaves f + 1\<rparr>"
    have "add_loop leaves row (root_slot t) f = (Ok (), ?f)"
      using False by (subst add_loop.simps) simp
    moreover have "forest_inv ?f (ts[row := Some t])"
      using carry_finish [OF prems(1,5,4) nb neq none] .
    moreover have "add_spec (unat leaves) row (strip t) (forest_abs ts) = forest_abs (ts[row := Some t])"
      using False odd_iff by (subst add_spec.simps) (simp add: forest_abs_update)
    moreover have "mset (all_leaves (ts[row := Some t])) = mset (leaf_slots t @ all_leaves ts)"
      "mset (all_hashes (ts[row := Some t])) = mset (leaf_hashes t @ all_hashes ts)"
      using mset_gather_update [of row ts leaf_slots "Some t"] mset_gather_update [of row ts leaf_hashes "Some t"] prems(5) len none
      by simp_all
    then have "set (all_leaves (ts[row := Some t])) = set (leaf_slots t) \<union> set (all_leaves ts)"
      "mset (all_hashes (ts[row := Some t])) = mset (leaf_hashes t) + mset (all_hashes ts)"
      by (metis set_append set_mset_mset, simp)
    ultimately show ?thesis by (intro exI [of _ ?f] exI [of _ "ts[row := Some t]"]) simp
  qed
qed

lemma Add_refines:
  assumes inv: "forest_inv f ts" and N: "unat (num_leaves f) < 2 ^ 63"
    and room: "card (live_ids (arena f)) + 1 + trailing_ones (unat (num_leaves f)) \<le> 2 ^ 32 - 1"
  shows "\<exists>f' ts'. Add f h = Some (Ok (), f') \<and> forest_inv f' ts' \<and> num_leaves f' = num_leaves f + 1 \<and>
    online f' = online f \<and> forest_abs ts' = add_spec (unat (num_leaves f)) 0 (HLeaf h) (forest_abs ts) \<and>
    mset (all_hashes ts') = add_mset h (mset (all_hashes ts)) \<and>
    set (all_leaves ts) \<subseteq> set (all_leaves ts') \<and>
    card (live_ids (arena f')) \<le> card (live_ids (arena f)) + 1 + trailing_ones (unat (num_leaves f))"
proof -
  note D = forest_invD [OF inv]
  obtain n a where al: "Allocate (arena f) LEAF h NO_NODE NO_NODE = (Ok n, a)"
    using Allocate_room [OF D(1)] room by fastforce
  let ?rec = "\<lparr>rec_hash = h, rec_parent = NO_NODE, rec_left = NO_NODE, rec_right = NO_NODE, rec_type = LEAF\<rparr>"
  note law = arena.alloc_law [OF D(1) _ al, simplified]
  then have wf: "arena_wf a" and n: "n \<notin> set (all_ids ts)" and la: "live_ids a = insert n (set (all_ids ts))"
    and R: "Read a = (Read (arena f))(n := ?rec)"
    using D(10) by auto
  have nl: "n \<notin> set (all_leaves ts)" using n all_leaves_subset by blast
  have same: "m \<in> set (all_ids ts) \<Longrightarrow> Read a m = Read (arena f) m" for m using R n by auto
  have ix: "index_inv (\<lambda>m. rec_hash (Read a m)) (index f) (set (all_leaves ts))"
    using D(11) by (rule index_inv_cong) (use same all_leaves_subset in force)
  have leaf: "IsLeaf a m \<and> arena_Hash a m = rec_hash (Read a m)" if "m \<in> set (all_leaves ts)" for m
  proof -
    have m: "m \<in> set (all_ids ts)" using that all_leaves_subset by blast
    have "IsLeaf (arena f) m" using IsLeaf_in_forest [OF inv] that by simp
    then have "rec_type (Read a m) = LEAF" using same [OF m] by (simp add: IsLeaf_iff)
    moreover have "m \<in> live_ids a" using la m by simp
    ultimately show ?thesis using wf by (simp add: IsLeaf_iff live_ids_def Live_iff)
  qed
  obtain ix' where ins: "Insert a (index f) (rec_hash (Read a n)) n = Some ix'"
      "index_inv (\<lambda>m. rec_hash (Read a m)) ix' (insert n (set (all_leaves ts)))"
    using index.ins_law [OF ix leaf nl] by blast
  let ?f = "f\<lparr>arena := a, index := ix'\<rparr>"
  have "carry_inv ?f ts (ILeaf n h) 0"
    unfolding carry_inv_def
  proof (intro conjI allI impI)
    show "row_ok (Read (arena ?f)) (num_leaves ?f) r (ts ! r)" if "r < 64" for r
      unfolding row_ok_def
    proof (intro allI impI)
      fix t
      assume t: "ts ! r = Some t"
      then have "set (ids t) \<subseteq> set (all_ids ts)" using gather_nth_subset [of r ts t ids] that D(2) by simp
      then have "rep (Read a) NO_NODE t = rep (Read (arena f)) NO_NODE t" using same by (intro rep_frame) blast
      then show "rep (Read (arena ?f)) NO_NODE t \<and> iheight t \<le> r \<and> bit (num_leaves ?f) r"
        using D(6-8) [OF that t] by simp
    qed
  qed (use wf D(2,3,9) n la ins(2) R in \<open>auto simp: rep_def\<close>)
  from add_loop_correct [OF this, of "num_leaves f"] N room la n
  obtain f' ts' where "add_loop (num_leaves f) 0 n ?f = (Ok (), f')" "forest_inv f' ts'"
      "num_leaves f' = num_leaves f + 1" "online f' = online f"
      "forest_abs ts' = add_spec (unat (num_leaves f)) 0 (HLeaf h) (forest_abs ts)"
      "set (all_leaves ts') = insert n (set (all_leaves ts))" "mset (all_hashes ts') = add_mset h (mset (all_hashes ts))"
      "card (live_ids (arena f')) \<le> card (insert n (set (all_ids ts))) + trailing_ones (unat (num_leaves f))"
    by (auto simp: D(10))
  then show ?thesis
    using al ins(1) R n by (intro exI [of _ f'] exI [of _ ts']) (auto simp: Add_def D(10))
qed

end
