(* ===== verification/ForestDelete.thy ===== *)
theory ForestDelete
  imports ForestTree
begin

unbundle bit_operations_syntax

text \<open>
  Deleting a leaf (\<open>DeleteId\<close>, \<open>Recompute\<close>): the sibling takes the place of the parent, the hashes
  from the grandparent up to the root are recomputed, the leaf and its parent are freed. A node of a
  tree is named by its path from the root; \<open>hashed_off\<close> describes the tree while the hashes along one
  path are stale.
\<close>

section \<open>Paths\<close>

fun subtree :: "itree \<Rightarrow> bool list \<Rightarrow> itree option" where
  "subtree t [] = Some t"
| "subtree (ILeaf n h) (b # p) = None"
| "subtree (INode n l r) (b # p) = subtree (if b then r else l) p"

fun replace_at :: "itree \<Rightarrow> bool list \<Rightarrow> itree \<Rightarrow> itree" where
  "replace_at t [] s = s"
| "replace_at (ILeaf n h) (b # p) s = ILeaf n h"
| "replace_at (INode n l r) (b # p) s =
     (if b then INode n l (replace_at r p s) else INode n (replace_at l p s) r)"

fun parent_of :: "NodeId \<Rightarrow> itree \<Rightarrow> bool list \<Rightarrow> NodeId" where
  "parent_of q t [] = q"
| "parent_of q (ILeaf n h) (b # p) = q"
| "parent_of q (INode n l r) (b # p) = parent_of n (if b then r else l) p"

lemma subtree_append: "subtree t (p @ q) = Option.bind (subtree t p) (\<lambda>s. subtree s q)"
  by (induction t p rule: subtree.induct) auto

lemma leaf_path: "n \<in> set (leaf_slots t) \<Longrightarrow> \<exists>p h. subtree t p = Some (ILeaf n h)"
proof (induction t)
  case (ILeaf k h)
  then show ?case by (intro exI [of _ "[]"]) simp
next
  case (INode k l r)
  then consider p h where "subtree l p = Some (ILeaf n h)" | p h where "subtree r p = Some (ILeaf n h)" by auto
  then show ?case
  proof cases
    case (1 p h)
    then show ?thesis by (intro exI [of _ "False # p"] exI [of _ h]) simp
  next
    case (2 p h)
    then show ?thesis by (intro exI [of _ "True # p"] exI [of _ h]) simp
  qed
qed

lemma links_subtree: "links m q t \<Longrightarrow> subtree t p = Some s \<Longrightarrow> links m (parent_of q t p) s"
  by (induction q t p rule: parent_of.induct) (auto split: if_splits)

lemma hashed_subtree: "hashed m t \<Longrightarrow> subtree t p = Some s \<Longrightarrow> hashed m s"
  by (induction t p rule: subtree.induct) (auto split: if_splits)

lemma ids_subtree: "subtree t p = Some s \<Longrightarrow> set (ids s) \<subseteq> set (ids t)"
  by (induction t p rule: subtree.induct) (auto split: if_splits)

lemma leaf_slots_subtree: "subtree t p = Some s \<Longrightarrow> set (leaf_slots s) \<subseteq> set (leaf_slots t)"
  by (induction t p rule: subtree.induct) (auto split: if_splits)

lemma distinct_subtree: "distinct (ids t) \<Longrightarrow> subtree t p = Some s \<Longrightarrow> distinct (ids s)"
  by (induction t p rule: subtree.induct) (auto split: if_splits)

lemma parent_of_snoc: "subtree t p = Some (INode k l r) \<Longrightarrow> parent_of q t (p @ [b]) = k"
  by (induction q t p rule: parent_of.induct) (auto split: if_splits)

lemma subtree_parent:
  assumes "subtree t (p @ [b]) = Some s"
  obtains k l r where "subtree t p = Some (INode k l r)" "s = (if b then r else l)"
  using assms by (auto simp: subtree_append bind_eq_Some_conv elim: subtree.elims split: if_splits)

lemma height_subtree: "subtree t p = Some s \<Longrightarrow> length p + iheight s \<le> iheight t"
  by (induction t p rule: subtree.induct) (fastforce split: if_splits)+

text \<open>Replacing a subtree, counted in slots, leaves and hashes.\<close>

lemma mset_replace:
  assumes "subtree t p = Some u"
  shows "mset (ids (replace_at t p s)) + mset (ids u) = mset (ids t) + mset (ids s)"
    and "mset (leaf_slots (replace_at t p s)) + mset (leaf_slots u) = mset (leaf_slots t) + mset (leaf_slots s)"
    and "mset (leaf_hashes (replace_at t p s)) + mset (leaf_hashes u) = mset (leaf_hashes t) + mset (leaf_hashes s)"
  using assms by (induction t p rule: subtree.induct) (auto split: if_splits simp: ac_simps)

lemma height_replace:
  "subtree t p = Some u \<Longrightarrow> iheight s \<le> iheight u \<Longrightarrow> iheight (replace_at t p s) \<le> iheight t"
  by (induction t p rule: subtree.induct) (fastforce split: if_splits)+

section \<open>Deletion on trees\<close>

fun del_leaf :: "NodeId \<Rightarrow> itree \<Rightarrow> itree option" where
  "del_leaf n (ILeaf k h) = (if k = n then None else Some (ILeaf k h))"
| "del_leaf n (INode k l r) =
     (case del_leaf n l of
        None \<Rightarrow> Some r
      | Some l' \<Rightarrow> (case del_leaf n r of None \<Rightarrow> Some l | Some r' \<Rightarrow> Some (INode k l' r')))"

lemma del_leaf_other: "n \<notin> set (leaf_slots t) \<Longrightarrow> del_leaf n t = Some t"
  by (induction t) auto

lemma distinct_leaf_slots: "distinct (ids t) \<Longrightarrow> distinct (leaf_slots t)"
  using leaf_slots_ids by (induction t) (auto, fastforce)

lemma del_leaf_replace:
  assumes "distinct (leaf_slots t)" "subtree t q = Some (INode k l r)" "(if b then r else l) = ILeaf n h"
  shows "del_leaf n t = Some (replace_at t q (if b then l else r))"
  using assms
proof (induction t q rule: subtree.induct)
  case (1 t)
  then show ?case by (cases b) (auto simp: del_leaf_other)
next
  case (3 j l' r' c p)
  let ?u = "if c then r' else l'" and ?o = "if c then l' else r'"
  have "subtree ?u (p @ [b]) = Some (ILeaf n h)" using 3(3,4) by (simp add: subtree_append)
  then have n: "n \<in> set (leaf_slots ?u)" using leaf_slots_subtree by fastforce
  then have "n \<notin> set (leaf_slots ?o)" using 3(2) by auto
  then have o: "del_leaf n ?o = Some ?o" by (rule del_leaf_other)
  have u: "del_leaf n ?u = Some (replace_at ?u p (if b then l else r))" using 3 by (auto split: if_splits)
  show ?case using o u by (cases c) auto
qed simp

section \<open>Surgery\<close>

lemma links_replace:
  assumes "links m p t" "distinct (ids t)" "subtree t q = Some (INode g gl gr)"
    and "u = (if c then gr else gl)" "set (ids s) \<subseteq> set (ids u)" "links m x s" "distinct (ids s)"
    and "m' (root_slot s) = (m (root_slot s))\<lparr>rec_parent := g\<rparr>"
    and "m' g = (if c then (m g)\<lparr>rec_right := root_slot s\<rparr> else (m g)\<lparr>rec_left := root_slot s\<rparr>)"
    and "\<And>n. n \<in> set (ids t) \<Longrightarrow> n \<noteq> g \<Longrightarrow> n \<noteq> root_slot s \<Longrightarrow> m' n = m n"
  shows "links m' p (replace_at t (q @ [c]) s)"
  using assms(1-3,10)
proof (induction t q arbitrary: p rule: subtree.induct)
  case (1 t)
  then have t: "t = INode g gl gr" by simp
  let ?o = "if c then gl else gr"
  have disj: "set (ids u) \<inter> set (ids ?o) = {}" "g \<notin> set (ids u)" "g \<notin> set (ids ?o)"
    using "1.prems"(2) t assms(4) by auto
  have rs: "root_slot s \<in> set (ids u)" using assms(5) root_slot_ids by blast
  then have "root_slot s \<noteq> g" "root_slot s \<notin> set (ids ?o)" using disj by auto
  then have "links m' g ?o" using links_frame [of ?o m' m g] "1.prems" t disj by (auto split: if_splits)
  moreover have "links m' g s"
    by (rule links_reparent [OF assms(6,7), of m' g, OF assms(8)]) (use "1.prems"(4) t assms(4,5) disj in \<open>auto split: if_splits\<close>)
  ultimately show ?case using "1.prems"(1) t assms(9) by (cases c) auto
next
  case (3 j l r b q)
  let ?d = "if b then r else l" and ?o = "if b then l else r"
  have sub: "set (ids (INode g gl gr)) \<subseteq> set (ids ?d)" using 3(4) ids_subtree by fastforce
  moreover have "root_slot s \<in> set (ids u)" using assms(5) root_slot_ids by blast
  ultimately have g: "g \<in> set (ids ?d)" and "root_slot s \<in> set (ids ?d)"
    using assms(4) by (auto split: if_splits)
  then have out: "j \<noteq> g" "j \<noteq> root_slot s" "g \<notin> set (ids ?o)" "root_slot s \<notin> set (ids ?o)"
    using 3(3) by (auto split: if_splits)
  have "links m' j (replace_at ?d (q @ [c]) s)"
    using 3(1) [of j] 3(2-5) by (auto split: if_splits)
  moreover have "links m' j ?o" using links_frame [of ?o m' m j] 3(2,5) out by (auto split: if_splits)
  moreover have "m' j = m j" using 3(5) out by auto
  moreover have "root_slot (replace_at ?d (q @ [c]) s) = root_slot ?d"
    using 3(4) by (cases ?d; cases q) (auto split: if_splits)
  ultimately show ?case using 3(2) by (cases b) auto
qed simp

fun hashed_off :: "(NodeId \<Rightarrow> NodeRecord) \<Rightarrow> itree \<Rightarrow> bool list \<Rightarrow> bool" where
  "hashed_off m (ILeaf n h) p \<longleftrightarrow> True"
| "hashed_off m (INode n l r) [] \<longleftrightarrow> hashed m l \<and> hashed m r"
| "hashed_off m (INode n l r) (b # p) \<longleftrightarrow>
     (if b then hashed m l \<and> hashed_off m r p else hashed_off m l p \<and> hashed m r)"

lemma hashed_off_replace:
  assumes "hashed m t" "subtree t q = Some (INode g gl gr)" "hashed m s"
    and "\<And>n. rec_hash (m' n) = rec_hash (m n)"
  shows "hashed_off m' (replace_at t (q @ [c]) s) q"
  using assms(1,2)
  by (induction t q rule: subtree.induct)
     (use assms(3,4) hashed_same_hash [of _ m' m] in \<open>auto split: if_splits\<close>)

section \<open>Recomputing hashes\<close>

lemma hashed_off_children: "hashed_off m t q \<Longrightarrow> subtree t q = Some (INode g gl gr) \<Longrightarrow> hashed m gl \<and> hashed m gr"
  by (induction t q rule: subtree.induct) (auto split: if_splits)

lemma hashed_update_out:
  "g \<notin> set (ids t) \<Longrightarrow> hashed (m(g := x)) t = hashed m t"
  by (rule hashed_frame) auto

lemma hashed_off_fix:
  assumes "hashed_off m t (q @ [b])" "subtree t (q @ [b]) = Some (INode g gl gr)" "distinct (ids t)"
    and "m' = m(g := (m g)\<lparr>rec_hash := ParentHash (ihash gl) (ihash gr)\<rparr>)"
  shows "hashed_off m' t q"
  using assms(1-3)
proof (induction t q rule: subtree.induct)
  case (1 t)
  then obtain k l r where t: "t = INode k l r" by (cases t) auto
  have g: "g \<in> set (ids (if b then r else l))" using 1 t ids_subtree [of t "[b]" "INode g gl gr"] by (auto split: if_splits)
  have e: "(if b then r else l) = INode g gl gr" using 1 t by (simp split: if_splits)
  have "hashed m (if b then l else r)" "hashed m gl" "hashed m gr" using 1 t e by (auto split: if_splits)
  moreover have "g \<notin> set (ids (if b then l else r))" "g \<notin> set (ids gl)" "g \<notin> set (ids gr)"
    using 1(3) t e by (cases b; auto)+
  ultimately have "hashed m' (if b then l else r)" "hashed m' (INode g gl gr)"
    using assms(4) by (auto simp: hashed_update_out)
  then show ?case using t e by (cases b) auto
next
  case (3 j l r c q)
  let ?d = "if c then r else l" and ?o = "if c then l else r"
  have "set (ids (INode g gl gr)) \<subseteq> set (ids ?d)" using 3(3) ids_subtree [of ?d "q @ [b]"] by auto
  then have "g \<notin> set (ids ?o)" using 3(4) by (auto split: if_splits)
  then have "hashed m' ?o = hashed m ?o" using assms(4) by (simp add: hashed_update_out)
  moreover have "hashed_off m' ?d q" using 3 by (auto split: if_splits)
  ultimately show ?case using 3(2) by (auto split: if_splits)
qed simp

lemma links_hash_update:
  "links m p t \<Longrightarrow> rec_type (m g) = BRANCH \<Longrightarrow> links (m(g := (m g)\<lparr>rec_hash := h\<rparr>)) p t"
  by (induction t arbitrary: p) auto

lemma Recompute_correct:
  assumes "arena_wf a" "links (Read a) NO_NODE t" "distinct (ids t)" "NO_NODE \<notin> set (ids t)"
    and "subtree t q = Some (INode g gl gr)" "hashed_off (Read a) t q"
  shows "\<exists>a'. Recompute a g = Some a' \<and> arena_wf a' \<and> live_ids a' = live_ids a \<and>
    rep (Read a') NO_NODE t \<and> (\<forall>n. n \<notin> set (ids t) \<longrightarrow> Read a' n = Read a n)"
  using assms
proof (induction q arbitrary: a g gl gr rule: rev_induct)
  case Nil
  then have t: "t = INode g gl gr" by simp
  let ?h = "ParentHash (ihash gl) (ihash gr)"
  let ?a = "SetHash a g ?h"
  have hs: "hashed (Read a) gl" "hashed (Read a) gr" using Nil(6) t by simp_all
  have stored: "arena_Hash a (arena_Left a g) = ihash gl" "arena_Hash a (arena_Right a g) = ihash gr"
    using Nil(1,2) t hs rep_root_hash [of "Read a" g gl] rep_root_hash [of "Read a" g gr]
    by (auto simp: arena_Left_def arena_Right_def rep_def)
  have R: "Read ?a = (Read a)(g := (Read a g)\<lparr>rec_hash := ?h\<rparr>)" by (rule Read_sets)
  have ln: "links (Read ?a) NO_NODE t" unfolding R using Nil(2) t by (intro links_hash_update) simp_all
  have p: "arena_Parent ?a g = NO_NODE" using ln t by (simp add: arena_Parent_def)
  have "g \<noteq> NO_NODE" using Nil(4) t by auto
  then have "Recompute a g = Some ?a"
    using stored p by (simp add: Recompute.simps [of a g] Recompute.simps [of ?a NO_NODE] Let_def)
  moreover have "hashed (Read ?a) t" unfolding R t using hs Nil(3) t by (simp add: hashed_update_out)
  then have "rep (Read ?a) NO_NODE t" using ln by (simp add: rep_def)
  moreover have "live_ids ?a = live_ids a" using Nil(1) by (simp add: SetHash_def arena.put_wf)
  moreover have "\<forall>n. n \<notin> set (ids t) \<longrightarrow> Read ?a n = Read a n" using t by (simp add: R)
  moreover have "arena_wf ?a" using Nil(1) by simp
  ultimately show ?case by blast
next
  case (snoc b q)
  note pr = snoc.prems
  let ?h = "ParentHash (ihash gl) (ihash gr)"
  let ?a = "SetHash a g ?h"
  have gt: "g \<in> set (ids t)" using ids_subtree [OF pr(5)] by auto
  have lg: "links (Read a) (parent_of NO_NODE t (q @ [b])) (INode g gl gr)" using links_subtree [OF pr(2,5)] .
  have hs: "hashed (Read a) gl" "hashed (Read a) gr" using hashed_off_children [OF pr(6,5)] by simp_all
  have stored: "arena_Hash a (arena_Left a g) = ihash gl" "arena_Hash a (arena_Right a g) = ihash gr"
    using pr(1) lg hs rep_root_hash [of "Read a" g gl] rep_root_hash [of "Read a" g gr]
    by (auto simp: arena_Left_def arena_Right_def rep_def)
  obtain k l r where par: "subtree t q = Some (INode k l r)" using subtree_parent [OF pr(5)] by metis
  have R: "Read ?a = (Read a)(g := (Read a g)\<lparr>rec_hash := ?h\<rparr>)" by (rule Read_sets)
  have ln: "links (Read ?a) NO_NODE t" unfolding R using pr(2) lg by (intro links_hash_update) simp_all
  have p: "arena_Parent ?a g = k" using lg parent_of_snoc [OF par] by (simp add: arena_Parent_def R)
  have live: "live_ids ?a = live_ids a" using pr(1) by (simp add: SetHash_def arena.put_wf)
  have off: "hashed_off (Read ?a) t q" using hashed_off_fix [OF pr(6,5,3) R] .
  obtain a' where a': "Recompute ?a k = Some a'" "arena_wf a'" "live_ids a' = live_ids ?a" "rep (Read a') NO_NODE t"
      "\<forall>n. n \<notin> set (ids t) \<longrightarrow> Read a' n = Read ?a n"
    using snoc.IH [OF _ ln pr(3,4) par off] pr(1) by auto
  have "g \<noteq> NO_NODE" using gt pr(4) by auto
  then have "Recompute a g = Some a'"
    using stored p a'(1) by (simp add: Recompute.simps [of a g] Let_def)
  then show ?case using a' live R gt by (intro exI [of _ a']) auto
qed

section \<open>The operation\<close>

lemma foldl_Free:
  "arena_wf a \<Longrightarrow> set ds \<subseteq> live_ids a \<Longrightarrow> distinct ds \<Longrightarrow>
   arena_wf (foldl Free a ds) \<and> live_ids (foldl Free a ds) = live_ids a - set ds \<and>
   (\<forall>m. m \<notin> set ds \<longrightarrow> Read (foldl Free a ds) m = Read a m)"
proof (induction ds arbitrary: a)
  case (Cons d ds)
  note law = arena.dealloc_law [of a d]
  then have f: "arena_wf (Free a d)" "live_ids (Free a d) = live_ids a - {d}" "\<And>m. m \<noteq> d \<Longrightarrow> Read (Free a d) m = Read a m"
    using Cons.prems by auto
  have "set ds \<subseteq> live_ids (Free a d)" "distinct ds" using f(2) Cons.prems by auto
  from Cons.IH [OF f(1) this] f show ?case by auto
qed simp

lemma find_root_row:
  assumes inv: "forest_inv f ts" and row: "row < 64" "ts ! row = Some t"
  shows "find_root (roots f) (root_slot t) = Some row"
proof -
  note D = forest_invD [OF inv]
  have "roots f ! r \<noteq> root_slot t" if r: "r < 64" "r \<noteq> row" for r
  proof (cases "ts ! r")
    case None
    have "root_slot t \<in> set (all_ids ts)" using gather_nth_subset [of row ts t ids] row D(2) root_slot_ids by auto
    then show ?thesis using None D(5) [OF r(1)] D(12) by (auto simp: slot_of_def)
  next
    case (Some u)
    have "set (ids u) \<inter> set (ids t) = {}" using gather_disjoint [OF D(9), of r row u t] r row Some D(2) by simp
    then have "root_slot u \<noteq> root_slot t" using root_slot_ids by (metis IntI empty_iff)
    then show ?thesis using Some D(5) [OF r(1)] by (simp add: slot_of_def)
  qed
  moreover have "roots f ! row = root_slot t" using D(5) row by (simp add: slot_of_def)
  ultimately show ?thesis
    unfolding find_root_def find_Some_iff using row D(4) by (intro exI [of _ row]) auto
qed

lemma finish_delete:
  assumes inv: "forest_inv f ts" and row: "row < 64" "ts ! row = Some t"
    and wf: "arena_wf a" and live: "live_ids a = live_ids (arena f)"
    and x: "\<And>t'. x = Some t' \<Longrightarrow> rep (Read a) NO_NODE t' \<and> iheight t' \<le> iheight t"
    and frame: "\<And>n. n \<notin> set (ids t) \<Longrightarrow> Read a n = Read (arena f) n"
    and hash: "\<And>n. n \<in> set (leaf_slots t) \<Longrightarrow> rec_hash (Read a n) = rec_hash (Read (arena f) n)"
    and slots: "mset (ids t) = mset (case_option [] ids x) + mset ds"
    and leaves: "mset (leaf_slots t) = add_mset n (mset (case_option [] leaf_slots x))"
    and h: "h = rec_hash (Read (arena f) n)" and rs: "rs = (roots f)[row := slot_of x]"
  shows "\<exists>f'. erase_leaf (f\<lparr>roots := rs, arena := a\<rparr>) h n ds = Some (Ok (), f') \<and> forest_inv f' (ts[row := x]) \<and>
    num_leaves f' = num_leaves f \<and> online f' = online f \<and> live_ids (arena f') = live_ids (arena f) - set ds"
proof -
  note D = forest_invD [OF inv]
  let ?ts = "ts[row := x]" and ?b = "foldl Free a ds"
  have dt: "distinct (ids t)" using distinct_gather_nth [OF D(9), of row t] row D(2) by simp
  have "distinct (case_option [] ids x @ ds)" using dt slots by (metis mset_append mset_eq_imp_distinct_iff)
  then have dd: "distinct ds" "set ds \<inter> set (case_option [] ids x) = {}" "distinct (case_option [] ids x)" by auto
  have st: "set (ids t) = set (case_option [] ids x) \<union> set ds" using slots by (metis set_mset_mset set_mset_union)
  have sub: "set (ids t) \<subseteq> set (all_ids ts)" using gather_nth_subset [of row ts t ids] row D(2) by simp
  have fr: "arena_wf ?b" "live_ids ?b = live_ids (arena f) - set ds" "\<forall>m. m \<notin> set ds \<longrightarrow> Read ?b m = Read a m"
    using foldl_Free [OF wf _ dd(1)] live D(10) st sub by auto
  have nt: "n \<in> set (leaf_slots t)" using leaves by (metis set_mset_mset union_single_eq_member)
  then have nl: "n \<in> set (all_leaves ts)" using gather_nth_subset [of row ts t leaf_slots] row D(2) by auto
  have same: "rec_hash (Read a m) = rec_hash (Read (arena f) m)" if m: "m \<in> set (all_leaves ts)" for m
  proof (cases "m \<in> set (ids t)")
    case True
    obtain r u where u: "r < length ts" "ts ! r = Some u" "m \<in> set (leaf_slots u)" using m by (auto simp: set_gather)
    then have "r = row"
      using gather_disjoint [OF D(9) u(1), of row u t] row D(2) True leaf_slots_ids [of u] by auto
    then show ?thesis using u row hash by simp
  qed (use frame in simp)
  then obtain ix where ix: "Erase a (index f) h n = Some (True, ix)"
      "index_inv (\<lambda>m. rec_hash (Read (arena f) m)) ix (set (all_leaves ts) - {n})"
    using index.del_law [OF D(11), of a n] nl wf h by auto
  have lv: "set (all_leaves ?ts) = set (all_leaves ts) - {n}"
  proof -
    have "distinct (all_leaves ts)"
    proof -
      have "distinct (concat (map (case_option [] leaf_slots) xs))" if "distinct (all_ids xs)" for xs
        using that all_leaves_subset
        by (induction xs) (fastforce simp: gather_def distinct_leaf_slots split: option.splits dest: leaf_slots_ids [THEN subsetD])+
      then show ?thesis using D(9) by (simp add: gather_def)
    qed
    moreover have "mset (all_leaves ?ts) + {#n#} = mset (all_leaves ts)"
      using mset_gather_update [of row ts leaf_slots x] row D(2) leaves by simp
    then have "mset (all_leaves ts) = mset (all_leaves ?ts @ [n])" by simp
    ultimately have "distinct (all_leaves ?ts @ [n])" "set (all_leaves ts) = set (all_leaves ?ts @ [n])"
      using mset_eq_imp_distinct_iff by (blast, metis set_mset_mset)
    then show ?thesis by auto
  qed
  have ids': "mset (all_ids ?ts) + mset ds = mset (all_ids ts)"
    using mset_gather_update [of row ts ids x] row D(2) slots by (simp add: ac_simps)
  then have di: "distinct (all_ids ?ts)" "set (all_ids ?ts) = set (all_ids ts) - set ds"
  proof -
    have "mset (all_ids ts) = mset (all_ids ?ts @ ds)" using ids' by simp
    then have "distinct (all_ids ?ts @ ds)" "set (all_ids ts) = set (all_ids ?ts @ ds)"
      using D(9) mset_eq_imp_distinct_iff by (blast, metis set_mset_mset)
    then show "distinct (all_ids ?ts)" "set (all_ids ?ts) = set (all_ids ts) - set ds" by auto
  qed
  have notds: "m \<notin> set ds" if "m \<in> set (all_ids ?ts)" for m using that di by simp
  have rows: "row_ok (Read ?b) (num_leaves f) r (?ts ! r)" if r: "r < 64" for r
    unfolding row_ok_def
  proof (intro allI impI)
    fix u
    assume u: "?ts ! r = Some u"
    have us: "set (ids u) \<subseteq> set (all_ids ?ts)" using gather_nth_subset [of r ?ts u ids] r u D(2) by simp
    have "rep (Read a) NO_NODE u \<and> iheight u \<le> r \<and> bit (num_leaves f) r"
    proof (cases "r = row")
      case True
      then have "x = Some u" using u r D(2) by simp
      then show ?thesis using x True D(7,8) [OF row] by auto
    next
      case False
      then have tr: "ts ! r = Some u" using u by simp
      have "set (ids u) \<inter> set (ids t) = {}" using gather_disjoint [OF D(9), of r row u t] r row tr D(2) False by simp
      then have "rep (Read a) NO_NODE u = rep (Read (arena f)) NO_NODE u" using frame by (intro rep_frame) blast
      then show ?thesis using D(6-8) [OF r tr] by simp
    qed
    moreover have "rep (Read ?b) NO_NODE u = rep (Read a) NO_NODE u" using fr(3) us notds by (intro rep_frame) blast
    ultimately show "rep (Read ?b) NO_NODE u \<and> iheight u \<le> r \<and> bit (num_leaves f) r" by simp
  qed
  have ixb: "index_inv (\<lambda>m. rec_hash (Read ?b m)) ix (set (all_leaves ?ts))"
  proof (rule index_inv_cong [OF ix(2) [folded lv]])
    fix m
    assume m: "m \<in> set (all_leaves ?ts)"
    then have "m \<notin> set ds" using notds all_leaves_subset by blast
    moreover have "m \<in> set (all_leaves ts)" using m lv by simp
    ultimately show "rec_hash (Read ?b m) = rec_hash (Read (arena f) m)" using fr(3) same by simp
  qed
  let ?f = "f\<lparr>roots := rs, index := ix, arena := ?b\<rparr>"
  have "erase_leaf (f\<lparr>roots := rs, arena := a\<rparr>) h n ds = Some (Ok (), ?f)"
    using ix(1) by (simp add: erase_leaf_def)
  moreover have "forest_inv ?f ?ts"
    unfolding forest_inv_def using fr D(2,3,10) rows di ixb rs by (simp add: map_update)
  ultimately show ?thesis using fr(2) by (intro exI [of _ ?f]) simp
qed

lemma DeleteId_root_leaf:
  assumes inv: "forest_inv f ts" and row: "row < 64" "ts ! row = Some (ILeaf n h)"
  shows "\<exists>f'. DeleteId f n = Some (Ok (), f') \<and> forest_inv f' (ts[row := None]) \<and>
    num_leaves f' = num_leaves f \<and> online f' = online f \<and> live_ids (arena f') \<subseteq> live_ids (arena f)"
proof -
  note D = forest_invD [OF inv]
  have R: "Read (arena f) n = \<lparr>rec_hash = h, rec_parent = NO_NODE, rec_left = NO_NODE, rec_right = NO_NODE, rec_type = LEAF\<rparr>"
    using D(6) [OF row] by (simp add: rep_def)
  have leaf: "IsLeaf (arena f) n" using IsLeaf_in_forest [OF inv] row D(2) by (auto simp: set_gather intro!: exI [of _ row])
  have fr: "find_root (roots f) n = Some row" using find_root_row [OF inv row] by simp
  have "DeleteId f n = erase_leaf (f\<lparr>roots := (roots f)[row := NO_NODE], arena := arena f\<rparr>) h n [n]"
    using leaf fr D(1) R by (simp add: DeleteId_def Let_def arena_Parent_def)
  moreover have "\<exists>f'. erase_leaf (f\<lparr>roots := (roots f)[row := NO_NODE], arena := arena f\<rparr>) h n [n] = Some (Ok (), f') \<and>
      forest_inv f' (ts[row := None]) \<and> num_leaves f' = num_leaves f \<and> online f' = online f \<and>
      live_ids (arena f') = live_ids (arena f) - set [n]"
    by (rule finish_delete [OF inv row D(1)]) (use R in \<open>auto simp: slot_of_def\<close>)
  ultimately show ?thesis by auto
qed

lemma sibling_choice:
  assumes "links m p (INode k l r)" "distinct (ids (INode k l r))" "(if b then r else l) = ILeaf n h" "s = (if b then l else r)"
  shows "(if rec_left (m k) = n then rec_right (m k) else rec_left (m k)) = root_slot s"
proof -
  have "root_slot l \<noteq> root_slot r" using assms(2) root_slot_ids [of l] root_slot_ids [of r] by (auto simp del: root_slot_ids)
  then show ?thesis using assms(1,3,4) by (cases b) auto
qed

lemma DeleteId_below_root:
  assumes inv: "forest_inv f ts" and row: "row < 64" "ts ! row = Some (INode k l r)"
    and b: "(if b then r else l) = ILeaf n h" and s: "s = (if b then l else r)"
  shows "\<exists>f'. DeleteId f n = Some (Ok (), f') \<and> forest_inv f' (ts[row := Some s]) \<and>
    num_leaves f' = num_leaves f \<and> online f' = online f \<and> live_ids (arena f') \<subseteq> live_ids (arena f)"
proof -
  note D = forest_invD [OF inv]
  let ?t = "INode k l r" and ?m = "Read (arena f)"
  let ?a = "SetParent (arena f) (root_slot s) NO_NODE"
  have rp: "rep ?m NO_NODE ?t" using D(6) [OF row] .
  have dt: "distinct (ids ?t)" using distinct_gather_nth [OF D(9), of row ?t] row D(2) by simp
  have rn: "?m n = \<lparr>rec_hash = h, rec_parent = k, rec_left = NO_NODE, rec_right = NO_NODE, rec_type = LEAF\<rparr>"
    using rp b by (cases b) (auto simp: rep_def)
  have nt: "n \<in> set (leaf_slots ?t)" using b by (cases b) auto
  then have leaf: "IsLeaf (arena f) n"
    using IsLeaf_in_forest [OF inv] gather_nth_subset [of row ts ?t leaf_slots] row D(2) by auto
  have kk: "k \<noteq> NO_NODE" using D(12) gather_nth_subset [of row ts ?t ids] row D(2) by auto
  have sib: "(if rec_left (?m k) = n then rec_right (?m k) else rec_left (?m k)) = root_slot s"
    using sibling_choice [OF _ dt b s] rp by (simp add: rep_def)
  have fr: "find_root (roots f) k = Some row" using find_root_row [OF inv row] by simp
  have "DeleteId f n = erase_leaf (f\<lparr>roots := (roots f)[row := root_slot s], arena := ?a\<rparr>) h n [n, k]"
  proof -
    have "arena_Parent (arena f) n = k" "arena_Parent (arena f) k = NO_NODE" "arena_Hash (arena f) n = h"
      using rn rp D(1) by (simp_all add: arena_Parent_def rep_def)
    moreover have "(if arena_Left (arena f) k = n then arena_Right (arena f) k else arena_Left (arena f) k) = root_slot s"
      using sib by (simp only: arena_Left_def arena_Right_def)
    ultimately show ?thesis using leaf fr kk by (simp add: DeleteId_def Let_def)
  qed
  moreover have "\<exists>f'. erase_leaf (f\<lparr>roots := (roots f)[row := root_slot s], arena := ?a\<rparr>) h n [n, k] = Some (Ok (), f') \<and>
      forest_inv f' (ts[row := Some s]) \<and> num_leaves f' = num_leaves f \<and> online f' = online f \<and>
      live_ids (arena f') = live_ids (arena f) - set [n, k]"
  proof (rule finish_delete [OF inv row])
    have "root_slot s \<in> set (ids s)" by (rule root_slot_ids)
    then have rs: "root_slot s \<in> set (ids ?t)" using s by (cases b) (simp_all del: root_slot_ids)
    show "arena_wf ?a" using D(1) by simp
    show "live_ids ?a = live_ids (arena f)" using D(1) by (simp add: SetParent_def arena.put_wf)
    have "rep ?m k s" using rp s by (auto simp: rep_def)
    then have "rep (Read ?a) NO_NODE s" by (rule rep_reparent) (use dt s in \<open>auto simp: Read_sets\<close>)
    then show "rep (Read ?a) NO_NODE t' \<and> iheight t' \<le> iheight ?t" if "Some s = Some t'" for t' using that s by auto
    show "Read ?a m = ?m m" if "m \<notin> set (ids ?t)" for m using that rs by (auto simp: Read_sets)
    show "rec_hash (Read ?a m) = rec_hash (?m m)" for m by (simp add: Read_sets)
    show "mset (ids ?t) = mset (case_option [] ids (Some s)) + mset [n, k]"
      "mset (leaf_slots ?t) = add_mset n (mset (case_option [] leaf_slots (Some s)))" using b s by (cases b; auto)+
  qed (use rn in \<open>simp_all add: slot_of_def\<close>)
  ultimately show ?thesis by auto
qed

lemma DeleteId_inner:
  assumes inv: "forest_inv f ts" and row: "row < 64" "ts ! row = Some t"
    and g: "subtree t q = Some (INode g gl gr)" and k: "(if c then gr else gl) = INode k l r"
    and b: "(if b then r else l) = ILeaf n h" and s: "s = (if b then l else r)"
  shows "\<exists>f'. DeleteId f n = Some (Ok (), f') \<and> forest_inv f' (ts[row := Some (replace_at t (q @ [c]) s)]) \<and>
    num_leaves f' = num_leaves f \<and> online f' = online f \<and> live_ids (arena f') \<subseteq> live_ids (arena f)"
proof -
  note D = forest_invD [OF inv]
  let ?m = "Read (arena f)" and ?k = "INode k l r"
  let ?t = "replace_at t (q @ [c]) s"
  have rp: "links ?m NO_NODE t" "hashed ?m t" using D(6) [OF row] by (simp_all add: rep_def)
  have dt: "distinct (ids t)" using distinct_gather_nth [OF D(9), of row t] row D(2) by simp
  have ids_all: "set (ids t) \<subseteq> set (all_ids ts)" using gather_nth_subset [of row ts t ids] row D(2) by simp
  have sk: "subtree t (q @ [c]) = Some ?k" using g k by (simp add: subtree_append)
  have lg: "links ?m (parent_of NO_NODE t q) (INode g gl gr)" using links_subtree [OF rp(1) g] .
  then have lk: "links ?m g ?k" using k by (cases c) auto
  then have ls: "links ?m k s" and rn: "?m n = \<lparr>rec_hash = h, rec_parent = k, rec_left = NO_NODE, rec_right = NO_NODE, rec_type = LEAF\<rparr>"
    using b s by (cases b; auto)+
  have dg: "distinct (ids (INode g gl gr))" using distinct_subtree [OF dt g] .
  then have dk: "distinct (ids ?k)" using k by (cases c) auto
  have sub: "set (ids (INode g gl gr)) \<subseteq> set (ids t)" using ids_subtree [OF g] .
  have ksub: "set (ids ?k) \<subseteq> set (ids (INode g gl gr))" using k by (cases c) auto
  have ssub: "set (ids s) \<subseteq> set (ids ?k)" using s by auto
  have gk: "g \<notin> set (ids ?k)" using dg k by (cases c) auto
  have gN: "g \<noteq> NO_NODE" "k \<noteq> NO_NODE" using D(12) ids_all sub ksub by auto
  have nt: "n \<in> set (leaf_slots t)" using leaf_slots_subtree [OF sk] b by (cases b) auto
  then have leaf: "IsLeaf (arena f) n"
    using IsLeaf_in_forest [OF inv] gather_nth_subset [of row ts t leaf_slots] row D(2) by auto
  have sib: "(if rec_left (?m k) = n then rec_right (?m k) else rec_left (?m k)) = root_slot s"
    using sibling_choice [OF lk dk b s] .
  have rsk: "root_slot s \<in> set (ids ?k)" using ssub root_slot_ids [of s] by blast
  have lr: "root_slot gl \<noteq> root_slot gr"
    using dg root_slot_ids [of gl] root_slot_ids [of gr] by (auto simp del: root_slot_ids)
  let ?a1 = "if c then SetRight (arena f) g (root_slot s) else SetLeft (arena f) g (root_slot s)"
  let ?a2 = "SetParent ?a1 (root_slot s) g"
  have rs_ne: "root_slot s \<noteq> g" using rsk gk by metis
  have R2: "Read ?a2 = ?m(g := (if c then (?m g)\<lparr>rec_right := root_slot s\<rparr> else (?m g)\<lparr>rec_left := root_slot s\<rparr>),
      root_slot s := (?m (root_slot s))\<lparr>rec_parent := g\<rparr>)"
    using rs_ne by (auto simp: Read_sets)
  have hash2: "rec_hash (Read ?a2 m) = rec_hash (?m m)" for m using R2 by simp
  have wf2: "arena_wf ?a2" and live2: "live_ids ?a2 = live_ids (arena f)"
    using D(1) by (simp_all add: SetParent_def SetLeft_def SetRight_def arena.put_wf)
  have l2: "links (Read ?a2) NO_NODE ?t"
    by (rule links_replace [OF rp(1) dt g k [symmetric] _ ls]) (use ssub dk s R2 rs_ne in auto)
  have ms: "mset (ids ?t) + mset [n, k] = mset (ids t)" "mset (leaf_slots t) = add_mset n (mset (leaf_slots ?t))"
    using mset_replace(1,2) [OF sk, of s] b s by (cases b; simp)+
  have dt': "distinct (ids ?t)" and st: "set (ids t) = set (ids ?t) \<union> {n, k}"
  proof -
    have e: "mset (ids t) = mset (ids ?t @ [n, k])" using ms(1) by simp
    then show "distinct (ids ?t)" using dt by (metis distinct_append mset_eq_imp_distinct_iff)
    have "set (ids t) = set (ids ?t @ [n, k])" using e by (metis set_mset_mset)
    then show "set (ids t) = set (ids ?t) \<union> {n, k}" by simp
  qed
  have g': "\<exists>gl' gr'. subtree ?t q = Some (INode g gl' gr')"
    using g by (induction t q rule: subtree.induct) (auto split: if_splits)
  then obtain gl' gr' where g': "subtree ?t q = Some (INode g gl' gr')" by blast
  have off: "hashed_off (Read ?a2) ?t q"
    by (rule hashed_off_replace [OF rp(2) g _ hash2]) (use hashed_subtree [OF rp(2) sk] s in \<open>auto split: if_splits\<close>)
  have "NO_NODE \<notin> set (ids ?t)" using D(12) ids_all st by auto
  then obtain a3 where a3: "Recompute ?a2 g = Some a3" "arena_wf a3" "live_ids a3 = live_ids (arena f)"
      "rep (Read a3) NO_NODE ?t" "\<forall>m. m \<notin> set (ids ?t) \<longrightarrow> Read a3 m = Read ?a2 m"
    using Recompute_correct [OF wf2 l2 dt' _ g' off] live2 by auto
  have "DeleteId f n = erase_leaf (f\<lparr>roots := roots f, arena := a3\<rparr>) h n [n, k]"
  proof -
    have "(arena_Left (arena f) g = k) = (\<not> c)" "c \<longrightarrow> arena_Right (arena f) g = k"
      using lg k lr by (cases c; auto simp: arena_Left_def arena_Right_def)+
    moreover have "arena_Parent (arena f) n = k" "arena_Parent (arena f) k = g" "arena_Hash (arena f) n = h"
      using rn lk D(1) by (simp_all add: arena_Parent_def)
    moreover have "(if arena_Left (arena f) k = n then arena_Right (arena f) k else arena_Left (arena f) k) = root_slot s"
      using sib by (simp only: arena_Left_def arena_Right_def)
    ultimately show ?thesis
      using leaf gN a3(1) by (cases c) (simp_all add: DeleteId_def Let_def)
  qed
  moreover have "\<exists>f'. erase_leaf (f\<lparr>roots := roots f, arena := a3\<rparr>) h n [n, k] = Some (Ok (), f') \<and>
      forest_inv f' (ts[row := Some ?t]) \<and> num_leaves f' = num_leaves f \<and> online f' = online f \<and>
      live_ids (arena f') = live_ids (arena f) - set [n, k]"
  proof (rule finish_delete [OF inv row a3(2,3)])
    have "iheight ?t \<le> iheight t" by (rule height_replace [OF sk]) (use s in auto)
    then show "rep (Read a3) NO_NODE t' \<and> iheight t' \<le> iheight t" if "Some ?t = Some t'" for t' using that a3(4) by auto
    show "Read a3 m = ?m m" if m: "m \<notin> set (ids t)" for m
    proof -
      have "m \<noteq> g" "m \<noteq> root_slot s" using m sub ksub rsk by auto
      then show ?thesis using m st a3(5) R2 by auto
    qed
    show "rec_hash (Read a3 m) = rec_hash (?m m)" if m: "m \<in> set (leaf_slots t)" for m
    proof (cases "m \<in> set (leaf_slots ?t)")
      case True
      have "map (\<lambda>n. rec_hash (Read a3 n)) (leaf_slots ?t) = map (\<lambda>n. rec_hash (Read ?a2 n)) (leaf_slots ?t)"
        using leaf_hashes_read [OF l2] leaf_hashes_read [of "Read a3" NO_NODE ?t] a3(4) by (simp add: rep_def)
      then show ?thesis using True hash2 by simp
    next
      case False
      have "m = n" using m ms(2) False by (metis add_mset_remove_trivial_eq insertE set_mset_add_mset_insert set_mset_mset)
      moreover have "n \<notin> set (ids ?t)"
      proof -
        have "mset (ids t) = mset (ids ?t @ [n, k])" using ms(1) by simp
        then have "distinct (ids ?t @ [n, k])" using dt mset_eq_imp_distinct_iff by blast
        then show ?thesis by auto
      qed
      ultimately show ?thesis using a3(5) hash2 by simp
    qed
    show "mset (ids t) = mset (case_option [] ids (Some ?t)) + mset [n, k]" using ms(1) by simp
    have "root_slot ?t = root_slot t" using g by (cases t; cases q) auto
    then show "roots f = (roots f)[row := slot_of (Some ?t)]"
      using D(5) [OF row(1)] row D(4) by (simp add: slot_of_def) (metis list_update_id)
  qed (use rn ms(2) in simp_all)
  ultimately show ?thesis by auto
qed

definition delete_forest :: "NodeId \<Rightarrow> itree option list \<Rightarrow> itree option list" where
  "delete_forest n ts = map (\<lambda>x. Option.bind x (del_leaf n)) ts"

lemma delete_forest_row:
  assumes "distinct (all_ids ts)" "row < length ts" "ts ! row = Some t" "n \<in> set (leaf_slots t)"
  shows "delete_forest n ts = ts[row := del_leaf n t]"
proof (rule nth_equalityI)
  fix r
  assume "r < length (delete_forest n ts)"
  then have r: "r < length ts" by (simp add: delete_forest_def)
  show "delete_forest n ts ! r = ts[row := del_leaf n t] ! r"
  proof (cases "r = row")
    case False
    have "del_leaf n u = Some u" if "ts ! r = Some u" for u
      using gather_disjoint [OF assms(1) r assms(2) False that assms(3)] assms(4) leaf_slots_ids
      by (intro del_leaf_other) blast
    then show ?thesis using False r by (cases "ts ! r") (auto simp: delete_forest_def)
  qed (use assms in \<open>simp add: delete_forest_def\<close>)
qed (simp add: delete_forest_def)

lemma DeleteId_refines:
  assumes inv: "forest_inv f ts" and n: "n \<in> set (all_leaves ts)"
  shows "\<exists>f'. DeleteId f n = Some (Ok (), f') \<and> forest_inv f' (delete_forest n ts) \<and>
    num_leaves f' = num_leaves f \<and> online f' = online f \<and> live_ids (arena f') \<subseteq> live_ids (arena f)"
proof -
  note D = forest_invD [OF inv]
  obtain row t where t: "row < 64" "ts ! row = Some t" "n \<in> set (leaf_slots t)" using n D(2) by (auto simp: set_gather)
  have e: "delete_forest n ts = ts[row := del_leaf n t]"
    using delete_forest_row [OF D(9)] t D(2) by simp
  have dl: "distinct (leaf_slots t)" using distinct_leaf_slots distinct_gather_nth [OF D(9), of row t] t D(2) by simp
  obtain p h where p: "subtree t p = Some (ILeaf n h)" using leaf_path [OF t(3)] by blast
  show ?thesis
  proof (cases p rule: rev_cases)
    case Nil
    then show ?thesis using DeleteId_root_leaf [OF inv t(1)] t(2) p e by auto
  next
    case (snoc q b)
    then obtain k l r where kl: "subtree t q = Some (INode k l r)" "ILeaf n h = (if b then r else l)"
      using subtree_parent p by metis
    have del: "del_leaf n t = Some (replace_at t q (if b then l else r))"
      using del_leaf_replace [OF dl kl(1) kl(2) [symmetric]] .
    show ?thesis
    proof (cases q rule: rev_cases)
      case Nil
      then show ?thesis using DeleteId_below_root [OF inv t(1) _ kl(2) [symmetric] refl, of k] t(2) kl(1) e del by auto
    next
      case (snoc q' c)
      then obtain g gl gr where g: "subtree t q' = Some (INode g gl gr)" "INode k l r = (if c then gr else gl)"
        using subtree_parent kl(1) by metis
      show ?thesis
        using DeleteId_inner [OF inv t(1,2) g(1) g(2) [symmetric] kl(2) [symmetric] refl] e del snoc by simp
    qed
  qed
qed

end
