(* ===== verification/ForestProof.thy ===== *)
theory ForestProof
  imports ForestDelete
begin

unbundle bit_operations_syntax

text \<open>
  Positions and proofs of the forest (\<open>PositionOf\<close>, \<open>NodeAt\<close>, \<open>Prove\<close>). The node at a row and an
  offset is found from the root of its tree; the two walks of the code, up from a leaf and down from
  a root, are shown to agree with it. The forest is then an instance of the interface that proof
  verification relies on.
\<close>

section \<open>The node at a coordinate\<close>

function node_coord :: "itree option list \<Rightarrow> nat \<Rightarrow> nat \<Rightarrow> nat \<Rightarrow> itree option" where
  "node_coord ts N r i =
     (if is_root_coord N r i then ts ! r
      else if N \<le> 2 ^ r then None
      else case node_coord ts N (r + 1) (i div 2) of
             Some (INode n left right) \<Rightarrow> Some (if even i then left else right)
           | _ \<Rightarrow> None)"
  by pat_completeness auto
termination
proof (relation "measure (\<lambda>(ts, N, r, i). N - 2 ^ r)")
  fix ts :: "itree option list" and N r i :: nat
  assume "\<not> N \<le> 2 ^ r"
  moreover have "(2::nat) ^ r < 2 ^ (r + 1)" by simp
  ultimately show "((ts, N, r + 1, i div 2), ts, N, r, i) \<in> measure (\<lambda>(ts, N, r, i). N - 2 ^ r)"
    by (simp only: in_measure prod.case)
qed simp

declare node_coord.simps [simp del]

lemma node_coord_root: "is_root_coord N r i \<Longrightarrow> node_coord ts N r i = ts ! r"
  by (subst node_coord.simps) simp

lemma node_coord_child:
  assumes "node_coord ts N r i = Some s" "\<not> is_root_coord N r i"
  obtains n left right where "node_coord ts N (r + 1) (i div 2) = Some (INode n left right)"
    "s = (if even i then left else right)"
  using assms by (auto simp: node_coord.simps [of ts N r i] split: if_splits option.splits itree.splits)

lemma double_not_root: "(i::nat) < m div 2 \<Longrightarrow> \<not> (odd m \<and> 2 * i + 1 = m) \<and> \<not> (odd m \<and> 2 * i + 1 + 1 = m)"
  by presburger

lemma double_in: "(i::nat) < m div 2 \<Longrightarrow> 2 * i < m \<and> 2 * i + 1 < m"
  by presburger

lemma in_forest_children:
  assumes "in_forest N (r + 1) i"
  shows "in_forest N r (2 * i)" "in_forest N r (2 * i + 1)"
    "\<not> is_root_coord N r (2 * i)" "\<not> is_root_coord N r (2 * i + 1)" "2 ^ r < N"
proof -
  have i: "i < N div 2 ^ r div 2" using assms unfolding in_forest_def div_exp_Suc .
  show "in_forest N r (2 * i)" "in_forest N r (2 * i + 1)" using double_in [OF i] by (simp_all add: in_forest_def)
  show "\<not> is_root_coord N r (2 * i)" "\<not> is_root_coord N r (2 * i + 1)"
    using double_not_root [OF i] unfolding is_root_coord_def by blast+
  have "N div 2 ^ (r + 1) \<noteq> 0" using assms by (auto simp: in_forest_def)
  then have "2 ^ (r + 1) \<le> N" by (simp add: div_eq_0_iff not_less)
  moreover have "(2::nat) ^ r < 2 ^ (r + 1)" by simp
  ultimately show "2 ^ r < N" by linarith
qed

lemma node_coord_children:
  assumes "in_forest N (r + 1) i" "node_coord ts N (r + 1) i = Some (INode n left right)"
  shows "node_coord ts N r (2 * i) = Some left" "node_coord ts N r (2 * i + 1) = Some right"
proof -
  note c = in_forest_children [OF assms(1)]
  show "node_coord ts N r (2 * i) = Some left"
    using c(3,5) assms(2) by (subst node_coord.simps) simp
  show "node_coord ts N r (2 * i + 1) = Some right"
    using c(4,5) assms(2) by (subst node_coord.simps) simp
qed

lemma node_coord_path:
  assumes "subtree t p = Some s" "in_forest N r i" "node_coord ts N r i = Some t" "length p \<le> r"
  shows "\<exists>r' i'. in_forest N r' i' \<and> node_coord ts N r' i' = Some s"
  using assms
proof (induction t p arbitrary: r i rule: subtree.induct)
  case (3 n l rr b p)
  obtain r' where r: "r = r' + 1" using 3(5) by (cases r) auto
  let ?i = "2 * i + (if b then 1 else 0)"
  have "in_forest N r' ?i" "node_coord ts N r' ?i = Some (if b then rr else l)"
    using in_forest_children [of N r' i] node_coord_children [of N r' i ts n l rr] 3(3,4) r by auto
  then show ?case using 3(1) [of r' ?i] 3(2,5) r by auto
qed auto

lemma root_row_bound: "is_root_coord (unat (n :: u64)) r i \<Longrightarrow> r < 64"
proof (rule ccontr)
  assume "is_root_coord (unat n) r i" "\<not> r < 64"
  then have "bit n r" "64 \<le> r" by (auto simp: is_root_coord_def bit_u64_odd_div)
  then show False using bit_imp_le_length [of n r] by simp
qed

lemma parent_cases:
  assumes "in_forest N r i" "\<not> is_root_coord N r i"
  shows "in_forest N (r + 1) (i div 2)" "N - 2 ^ (r + 1) < N - 2 ^ r"
proof -
  show "in_forest N (r + 1) (i div 2)" using in_forest_Parent [OF assms] .
  have "2 ^ r < N" using in_forest_top_root [OF assms(1)] assms(2) by (metis not_le)
  moreover have "(2::nat) ^ r < 2 ^ (r + 1)" by simp
  ultimately show "N - 2 ^ (r + 1) < N - 2 ^ r" by linarith
qed

text \<open>A node of the forest is represented in the arena below the slot of its parent.\<close>

definition parent_slot :: "itree option list \<Rightarrow> nat \<Rightarrow> nat \<Rightarrow> nat \<Rightarrow> NodeId" where
  "parent_slot ts N r i =
     (if is_root_coord N r i then NO_NODE
      else case node_coord ts N (r + 1) (i div 2) of Some t \<Rightarrow> root_slot t | None \<Rightarrow> NO_NODE)"

lemma node_rep:
  assumes inv: "forest_inv f ts" and "in_forest (unat (num_leaves f)) r i"
    and "node_coord ts (unat (num_leaves f)) r i = Some s"
  shows "rep (Read (arena f)) (parent_slot ts (unat (num_leaves f)) r i) s \<and> distinct (ids s) \<and>
    set (ids s) \<subseteq> set (all_ids ts) \<and> set (leaf_slots s) \<subseteq> set (all_leaves ts) \<and> iheight s \<le> r"
  using assms(2,3)
proof (induction "unat (num_leaves f) - 2 ^ r" arbitrary: r i s rule: less_induct)
  case less
  note D = forest_invD [OF inv]
  let ?N = "unat (num_leaves f)"
  show ?case
  proof (cases "is_root_coord ?N r i")
    case True
    then have r: "r < 64" and s: "ts ! r = Some s" using root_row_bound less.prems node_coord_root by auto
    show ?thesis
      using D(6,7) [OF r s] distinct_gather_nth [OF D(9), of r s] gather_nth_subset [of r ts s ids] gather_nth_subset [of r ts s leaf_slots] r s D(2) True
      by (simp add: parent_slot_def)
  next
    case False
    note p = parent_cases [OF less.prems(1) False]
    obtain n left right where n: "node_coord ts ?N (r + 1) (i div 2) = Some (INode n left right)"
        "s = (if even i then left else right)"
      using node_coord_child [OF less.prems(2) False] .
    from less.hyps [OF p(2,1) n(1)] n show ?thesis
      using False by (auto simp: rep_def parent_slot_def)
  qed
qed

section \<open>The walk up\<close>

primrec rev_dirs :: "nat \<Rightarrow> nat \<Rightarrow> u64 \<Rightarrow> u64" where
  "rev_dirs 0 i w = w"
| "rev_dirs (Suc d) i w = rev_dirs d (i div 2) (if odd i then push_bit 1 w OR 1 else push_bit 1 w)"

lemma climb_node:
  assumes inv: "forest_inv f ts" and "in_forest (unat (num_leaves f)) r i"
    and "node_coord ts (unat (num_leaves f)) r i = Some s"
  shows "\<exists>d t. is_root_coord (unat (num_leaves f)) (r + d) (i div 2 ^ d) \<and> ts ! (r + d) = Some t \<and>
    climb (arena f) (root_slot s) w dist = Some (Ok (rev_dirs d i w, dist + of_nat d, root_slot t))"
  using assms(2,3)
proof (induction "unat (num_leaves f) - 2 ^ r" arbitrary: r i s w dist rule: less_induct)
  case less
  note D = forest_invD [OF inv]
  let ?N = "unat (num_leaves f)" and ?a = "arena f"
  have rp: "links (Read ?a) (parent_slot ts ?N r i) s"
    using node_rep [OF inv less.prems] by (simp add: rep_def)
  then have par: "arena_Parent ?a (root_slot s) = parent_slot ts ?N r i"
    using links_root_parent by (simp add: arena_Parent_def)
  show ?case
  proof (cases "is_root_coord ?N r i")
    case True
    then have "climb ?a (root_slot s) w dist = Some (Ok (w, dist, root_slot s))"
      using par by (simp add: climb.simps parent_slot_def)
    then show ?thesis using True node_coord_root [OF True, of ts] less.prems(2)
      by (intro exI [of _ 0] exI [of _ s]) simp
  next
    case False
    note p = parent_cases [OF less.prems(1) False]
    obtain n left right where n: "node_coord ts ?N (r + 1) (i div 2) = Some (INode n left right)"
        "s = (if even i then left else right)"
      using node_coord_child [OF less.prems(2) False] .
    have nr: "links (Read ?a) (parent_slot ts ?N (r + 1) (i div 2)) (INode n left right)"
        "distinct (ids (INode n left right))" "n \<in> set (all_ids ts)"
      using node_rep [OF inv p(1) n(1)] by (auto simp: rep_def)
    have par': "arena_Parent ?a (root_slot s) = n" using par False n(1) by (simp add: parent_slot_def)
    have lr: "arena_Left ?a n = root_slot left" "arena_Right ?a n = root_slot right"
      using nr(1) by (simp_all add: arena_Left_def arena_Right_def)
    have "root_slot left \<noteq> root_slot right"
      using nr(2) root_slot_ids [of left] root_slot_ids [of right] by (auto simp del: root_slot_ids)
    moreover have "n \<noteq> NO_NODE" using nr(3) D(12) by auto
    ultimately have step: "climb ?a (root_slot s) w dist =
        climb ?a n (if odd i then push_bit 1 w OR 1 else push_bit 1 w) (dist + 1)"
      using par' lr n(2) by (subst climb.simps) simp
    obtain d t where d: "is_root_coord ?N (r + 1 + d) (i div 2 div 2 ^ d)" "ts ! (r + 1 + d) = Some t"
        "climb ?a n (if odd i then push_bit 1 w OR 1 else push_bit 1 w) (dist + 1) =
         Some (Ok (rev_dirs d (i div 2) (if odd i then push_bit 1 w OR 1 else push_bit 1 w), dist + 1 + of_nat d, root_slot t))"
      using less.hyps [OF p(2,1) n(1)] by fastforce
    have "i div 2 ^ Suc d = i div 2 div 2 ^ d" by (simp add: div_mult2_eq)
    then show ?thesis using d step by (intro exI [of _ "Suc d"] exI [of _ t]) (simp add: add.assoc)
  qed
qed

lemma shift_dir:
  assumes "unat w < 2 ^ 63" "w' = (if b then push_bit 1 w OR 1 else push_bit 1 w :: u64)"
  shows "unat w' = 2 * unat w + (if b then 1 else 0)" "w' AND 1 = 0 \<longleftrightarrow> \<not> b" "drop_bit 1 w' = w"
proof -
  have u: "unat (push_bit 1 w) = 2 * unat w" using assms(1) by (simp add: push_bit_eq_mult unat_word_ariths)
  have e: "\<not> bit (push_bit 1 w) 0" by (simp only: bit_push_bit_iff) simp
  show "w' AND 1 = 0 \<longleftrightarrow> \<not> b" using e assms(2) by (simp add: and_one_zero bit_or_iff)
  show w': "unat w' = 2 * unat w + (if b then 1 else 0)"
    using u assms(2) by (simp add: unat_or_one)
  then show "drop_bit 1 w' = w" by (intro u64_eqI) (simp add: drop_bit_eq_div unat_div)
qed

lemma descend_rev_dirs:
  assumes "R \<le> 62" "coord R (r + d) (i div 2 ^ d)" "unat w < 2 ^ (64 - d)" "d \<le> 64" "coord R r i"
  shows "descend_pos R (d + n) (wpos R (r + d) (i div 2 ^ d)) (rev_dirs d i w) = descend_pos R n (wpos R r i) w"
  using assms
proof (induction d arbitrary: r i w n)
  case (Suc d)
  have e: "i div 2 ^ Suc d = i div 2 div 2 ^ d" by (simp add: div_mult2_eq)
  define w' where w': "w' = (if odd i then push_bit 1 w OR 1 else push_bit 1 w)"
  have r: "r + Suc d \<le> R" using Suc.prems(2) by (simp add: coord_def)
  have c: "coord R (r + 1) (i div 2)" using coord_Parent [OF Suc.prems(5)] r by simp
  have s: "Suc (64 - Suc d) = 64 - d" using Suc.prems(4) by auto
  have "(2::nat) ^ (64 - Suc d) \<le> 2 ^ 63" by (intro power_increasing) auto
  then have "unat w < 2 ^ 63" using Suc.prems(3) by linarith
  note sd = shift_dir [OF this w']
  have "(2::nat) ^ (64 - d) = 2 * 2 ^ (64 - Suc d)" using s by (metis power_Suc)
  then have small: "unat w' < 2 ^ (64 - d)" using sd(1) Suc.prems(3) by simp
  have "descend_pos R (d + Suc n) (wpos R (r + 1 + d) (i div 2 div 2 ^ d)) (rev_dirs d (i div 2) w') =
      descend_pos R (Suc n) (wpos R (r + 1) (i div 2)) w'"
    using Suc.prems small c e by (intro Suc.IH) simp_all
  moreover have "(if w' AND 1 = 0 then LeftChild (wpos R (r + 1) (i div 2)) R else RightChild (wpos R (r + 1) (i div 2)) R) = wpos R r i"
    using sd(2) LeftChild_wpos [OF c Suc.prems(1)] RightChild_wpos [OF c Suc.prems(1)] by (cases "odd i") (auto elim: oddE)
  then have "descend_pos R (Suc n) (wpos R (r + 1) (i div 2)) w' = descend_pos R n (wpos R r i) w"
    by (simp only: descend_pos.simps sd(3))
  moreover have "rev_dirs (Suc d) i w = rev_dirs d (i div 2) w'" "Suc d + n = d + Suc n" "r + Suc d = r + 1 + d"
    by (simp_all add: w')
  ultimately show ?case by (simp only: e)
qed simp

lemma root_row_le: "is_root_coord (unat (n :: u64)) r i \<Longrightarrow> r \<le> TreeRows n"
proof (rule ccontr)
  assume a: "is_root_coord (unat n) r i" "\<not> r \<le> TreeRows n"
  then have "(2::nat) ^ TreeRows n < 2 ^ r" by (intro power_strict_increasing) auto
  moreover have "2 ^ r \<le> unat n" using a(1) by (intro bit_imp_exp_le_unat) (simp add: is_root_coord_def bit_u64_odd_div)
  ultimately show False using leaves_le_TreeRows [of n] by linarith
qed

lemma root_slot_row:
  assumes inv: "forest_inv f ts" and "r < 64" "row < 64" "ts ! row = Some t"
  shows "roots f ! r = root_slot t \<longleftrightarrow> r = row"
proof
  assume r: "roots f ! r = root_slot t"
  show "r = row"
  proof (rule ccontr)
    assume ne: "r \<noteq> row"
    note D = forest_invD [OF inv]
    show False
    proof (cases "ts ! r")
      case None
      have "root_slot t \<in> set (all_ids ts)" using gather_nth_subset [of row ts t ids] assms(3,4) D(2) root_slot_ids by auto
      then show False using None r D(5) [OF assms(2)] D(12) by (auto simp: slot_of_def)
    next
      case (Some u)
      have "set (ids u) \<inter> set (ids t) = {}" using gather_disjoint [OF D(9), of r row u t] assms(2-4) ne Some D(2) by simp
      then show False using r Some D(5) [OF assms(2)] root_slot_ids by (metis IntI empty_iff option.simps(5) slot_of_def)
    qed
  qed
next
  assume "r = row"
  then show "roots f ! r = root_slot t" using forest_invD(5) [OF inv assms(2)] assms(4) by (simp add: slot_of_def)
qed

lemma PositionOf_node:
  assumes inv: "forest_inv f ts" and R: "TreeRows (num_leaves f) \<le> 62"
    and n: "in_forest (unat (num_leaves f)) r i" "node_coord ts (unat (num_leaves f)) r i = Some s"
  shows "PositionOf f (root_slot s) = Some (Ok (wpos (TreeRows (num_leaves f)) r i))"
proof -
  let ?N = "num_leaves f" and ?R = "TreeRows (num_leaves f)"
  obtain d t where d: "is_root_coord (unat ?N) (r + d) (i div 2 ^ d)" "ts ! (r + d) = Some t"
      "climb (arena f) (root_slot s) 0 0 = Some (Ok (rev_dirs d i 0, of_nat d, root_slot t))"
    using climb_node [OF inv n, of 0 0] by auto
  have le: "r + d \<le> ?R" using root_row_le [OF d(1)] .
  have b: "bit ?N (r + d)" using d(1) by (simp add: is_root_coord_def bit_u64_odd_div)
  have row: "(drop_bit k ?N AND 1 \<noteq> 0 \<and> roots f ! k = root_slot t) \<longleftrightarrow> k = r + d" if "k \<le> ?R" for k
    using root_slot_row [OF inv _ _ d(2), of k] b that le R by (auto simp: and_one_zero bit_drop_bit_eq)
  have find: "find (\<lambda>row. drop_bit row ?N AND 1 \<noteq> 0 \<and> roots f ! row = root_slot t) [0..<?R + 1] = Some (r + d)"
    unfolding find_Some_iff using row le by (intro exI [of _ "r + d"]) (auto simp del: upt_Suc)
  have i: "i div 2 ^ d = 2 * (unat ?N div 2 ^ (r + d + 1))"
    using d(1) odd_div_exp [of "unat ?N" "r + d"] by (simp add: is_root_coord_def)
  have c: "coord ?R r i" "coord ?R (r + d) (i div 2 ^ d)"
    using n(1) leaves_le_TreeRows in_forest_coord coord_root [OF le leaves_le_TreeRows d(1)] by blast+
  have pos: "RootPosition ?N (r + d) ?R = wpos ?R (r + d) (i div 2 ^ d)"
    using RootPosition_eq [OF le R leaves_le_TreeRows] i by simp
  have "d < 2 ^ 8" using le R by simp
  then have u: "unat (of_nat d :: u8) = d" by (simp add: unat_of_nat)
  have "descend_pos ?R (d + 0) (wpos ?R (r + d) (i div 2 ^ d)) (rev_dirs d i 0) = descend_pos ?R 0 (wpos ?R r i) 0"
    by (rule descend_rev_dirs [OF R c(2) _ _ c(1)]) (use le R in simp_all)
  then show ?thesis
    using d(3) find pos u by (simp add: PositionOf_def Let_def del: upt_Suc)
qed

section \<open>The walk down\<close>

lemma pick_root_rows:
  assumes "sorted_wrt (>) rows" "t \<in> set rows" "bit (num_leaves f) t"
  shows "pick_root f (k + card {v \<in> set rows. t < v \<and> bit (num_leaves f) v}) k rows = roots f ! t"
  using assms
proof (induction rows arbitrary: k)
  case (Cons row rows)
  have b: "drop_bit row (num_leaves f) AND 1 = 0 \<longleftrightarrow> \<not> bit (num_leaves f) row"
    by (simp add: and_one_zero bit_drop_bit_eq)
  show ?case
  proof (cases "t = row")
    case True
    then have "{v \<in> set (row # rows). t < v \<and> bit (num_leaves f) v} = {}" using Cons.prems by force
    then show ?thesis using True b Cons.prems(3) by simp
  next
    case False
    then have t: "t \<in> set rows" "t < row" using Cons.prems by auto
    show ?thesis
    proof (cases "bit (num_leaves f) row")
      case True
      have "{v \<in> set (row # rows). t < v \<and> bit (num_leaves f) v} = insert row {v \<in> set rows. t < v \<and> bit (num_leaves f) v}"
        using True t by auto
      moreover have "row \<notin> set rows" using Cons.prems(1) by auto
      ultimately have "card {v \<in> set (row # rows). t < v \<and> bit (num_leaves f) v} = Suc (card {v \<in> set rows. t < v \<and> bit (num_leaves f) v})"
        by simp
      then show ?thesis using True b Cons.IH [of "k + 1"] Cons.prems t by simp
    next
      case False
      then have "{v \<in> set (row # rows). t < v \<and> bit (num_leaves f) v} = {v \<in> set rows. t < v \<and> bit (num_leaves f) v}" by auto
      then show ?thesis using False b Cons.IH [of k] Cons.prems t by simp
    qed
  qed
qed simp

lemma node_coord_ancestor:
  assumes "in_forest N r i" "node_coord ts N r i = Some s" "\<forall>k < d. \<not> is_root_coord N (r + k) (i div 2 ^ k)"
  shows "in_forest N (r + d) (i div 2 ^ d) \<and> (\<exists>u. node_coord ts N (r + d) (i div 2 ^ d) = Some u)"
  using assms(3)
proof (induction d)
  case (Suc d)
  then obtain u where u: "in_forest N (r + d) (i div 2 ^ d)" "node_coord ts N (r + d) (i div 2 ^ d) = Some u"
    "\<not> is_root_coord N (r + d) (i div 2 ^ d)" by auto
  have e: "i div 2 ^ Suc d = i div 2 ^ d div 2" "r + Suc d = r + d + 1" by (rule div_exp_step) simp
  show ?case using parent_cases(1) [OF u(1,3)] node_coord_child [OF u(2,3)] unfolding e by blast
qed (use assms in simp)

lemma descend_node_coord:
  assumes inv: "forest_inv f ts"
    and n: "in_forest (unat (num_leaves f)) r i" "node_coord ts (unat (num_leaves f)) r i = Some s"
    and "node_coord ts (unat (num_leaves f)) (r + d) (i div 2 ^ d) = Some u"
    and "\<forall>k < d. \<not> is_root_coord (unat (num_leaves f)) (r + k) (i div 2 ^ k)"
    and "\<forall>k < d. bit bits k = even (i div 2 ^ k)"
  shows "descend_node (arena f) bits d (root_slot u) = Ok (root_slot s)"
  using assms(4-6)
proof (induction d arbitrary: u)
  case 0
  then show ?case using n(2) by simp
next
  case (Suc d)
  note D = forest_invD [OF inv]
  let ?N = "unat (num_leaves f)" and ?a = "arena f" and ?i = "i div 2 ^ d"
  have e: "i div 2 ^ Suc d = ?i div 2" "r + Suc d = r + d + 1" by (rule div_exp_step) simp
  have nr: "\<not> is_root_coord ?N (r + d) ?i" using Suc.prems by simp
  obtain v where v: "in_forest ?N (r + d) ?i" "node_coord ts ?N (r + d) ?i = Some v"
    using node_coord_ancestor [OF n, of d] Suc.prems by auto
  obtain k left right where u: "u = INode k left right" "v = (if even ?i then left else right)"
    using node_coord_child [OF v(2) nr] Suc.prems(1) unfolding e by auto
  have "node_coord ts ?N (r + d + 1) (?i div 2) = Some u" using Suc.prems(1) unfolding e .
  then have ru: "links (Read ?a) (parent_slot ts ?N (r + d + 1) (?i div 2)) u" "set (ids u) \<subseteq> set (all_ids ts)"
    using node_rep [OF inv parent_cases(1) [OF v(1) nr]] by (auto simp: rep_def)
  have lr: "arena_Left ?a k = root_slot left" "arena_Right ?a k = root_slot right" "rec_type (Read ?a k) = BRANCH"
    using ru(1) u(1) by (simp_all add: arena_Left_def arena_Right_def)
  have "k \<in> live_ids ?a" using D(10) ru(2) u(1) by auto
  then have live: "Live ?a k" "\<not> IsLeaf ?a k" using lr(3) by (simp_all add: live_ids_def IsLeaf_iff)
  have "root_slot v \<in> set (ids u)" using u root_slot_ids [of v] by (auto split: if_splits simp del: root_slot_ids)
  then have vn: "root_slot v \<noteq> NO_NODE" using ru(2) D(12) by auto
  have "drop_bit d bits AND 1 = 0 \<longleftrightarrow> odd ?i" using Suc.prems(3) by (simp add: and_one_zero bit_drop_bit_eq)
  then have "(if drop_bit d bits AND 1 = 0 then arena_Right ?a k else arena_Left ?a k) = root_slot v"
    using lr u(2) by simp
  moreover have "descend_node ?a bits d (root_slot v) = Ok (root_slot s)"
    using Suc.IH [OF v(2)] Suc.prems by simp
  ultimately show ?case using live vn u(1) by (simp add: Let_def)
qed

lemma no_root_below:
  assumes "is_root_coord N (r + k) (i div 2 ^ k)" "k < d"
  shows "\<not> in_forest N (r + d) (i div 2 ^ d)"
proof -
  have "N div 2 ^ (r + k) = 2 * (N div 2 ^ (r + k + 1)) + 1" "i div 2 ^ k + 1 = N div 2 ^ (r + k)"
    using assms(1) odd_div_exp by (auto simp: is_root_coord_def)
  then have "i div 2 ^ k = 2 * (N div 2 ^ (r + k + 1))" by linarith
  then have "i div 2 ^ Suc k = N div 2 ^ (r + Suc k)" unfolding div_exp_step by simp
  then have "i div 2 ^ Suc k div 2 ^ (d - Suc k) = N div 2 ^ (r + Suc k) div 2 ^ (d - Suc k)" by (simp only:)
  moreover have "Suc k + (d - Suc k) = d" "r + Suc k + (d - Suc k) = r + d" using assms(2) by auto
  ultimately have "i div 2 ^ d = N div 2 ^ (r + d)" by (metis div_mult2_eq power_add)
  then show ?thesis by (simp add: in_forest_def)
qed

lemma NodeAt_node:
  assumes inv: "forest_inv f ts" and R: "TreeRows (num_leaves f) \<le> 62"
    and n: "in_forest (unat (num_leaves f)) r i" "node_coord ts (unat (num_leaves f)) r i = Some s"
  shows "NodeAt f (wpos (TreeRows (num_leaves f)) r i) = Ok (root_slot s)"
proof -
  note D = forest_invD [OF inv]
  let ?N = "num_leaves f" and ?R = "TreeRows (num_leaves f)"
  let ?o = "DetectOffset (wpos ?R r i) ?N"
  obtain t where t: "t \<le> ?R" "t = r + branch_length ?o" "is_root_coord (unat ?N) t (i div 2 ^ (t - r))"
      "tree_index ?o = card {v. t < v \<and> v \<le> ?R \<and> bit ?N v}"
      "\<forall>k < t - r. bit (path_bits ?o) k = even (i div 2 ^ k)"
    using DetectOffset_tree [OF n(1) R] by blast
  define d where "d = branch_length ?o"
  have d: "t = r + d" "t - r = d" using t(2) by (simp_all add: d_def)
  have "in_forest (unat ?N) (r + d) (i div 2 ^ d)" using t(3) unfolding d(2) d(1) by (auto simp: is_root_coord_def in_forest_def)
  then have nr: "\<not> is_root_coord (unat ?N) (r + k) (i div 2 ^ k)" if "k < d" for k
    using no_root_below [OF _ that] by blast
  obtain u where u: "node_coord ts (unat ?N) (r + d) (i div 2 ^ d) = Some u"
    using node_coord_ancestor [OF n, of d] nr by blast
  have tu: "ts ! t = Some u" using u node_coord_root [of "unat ?N" t "i div 2 ^ d" ts] t(3) d by simp
  have row: "roots f ! t = root_slot u" using D(5) [of t] tu t(1) R by (simp add: slot_of_def)
  have b: "bit ?N t" using t(3) by (simp add: is_root_coord_def bit_u64_odd_div)
  have "sorted_wrt (>) (rev [0..<?R + 1])" by (simp add: sorted_wrt_rev del: upt_Suc)
  moreover have "{v \<in> set (rev [0..<?R + 1]). t < v \<and> bit ?N v} = {v. t < v \<and> v \<le> ?R \<and> bit ?N v}" by auto
  ultimately have pick: "pick_root f (tree_index ?o) 0 (rev [0..<?R + 1]) = root_slot u"
    using pick_root_rows [of "rev [0..<?R + 1]" t f 0] t(1,4) b row by (simp del: upt_Suc)
  have "root_slot u \<in> set (all_ids ts)"
    using gather_nth_subset [of t ts u ids] tu t(1) R D(2) root_slot_ids by auto
  then have "root_slot u \<noteq> NO_NODE" using D(12) by auto
  moreover have "?N \<noteq> 0" using n(1) by (auto simp: in_forest_def)
  moreover have "descend_node (arena f) (path_bits ?o) d (root_slot u) = Ok (root_slot s)"
    using descend_node_coord [OF inv n u] nr t(5) d(2) by blast
  ultimately show ?thesis using pick d_def by (simp add: NodeAt_def Let_def del: upt_Suc)
qed

section \<open>The forest as a hash assignment\<close>

text \<open>A leaf of the forest is the node at some coordinate.\<close>

lemma leaf_coord:
  assumes inv: "forest_inv f ts" and "n \<in> set (all_leaves ts)"
  shows "\<exists>r i h. in_forest (unat (num_leaves f)) r i \<and> node_coord ts (unat (num_leaves f)) r i = Some (ILeaf n h) \<and>
    rec_hash (Read (arena f) n) = h"
proof -
  note D = forest_invD [OF inv]
  let ?N = "unat (num_leaves f)"
  obtain row t where t: "row < 64" "ts ! row = Some t" "n \<in> set (leaf_slots t)"
    using assms(2) D(2) by (auto simp: set_gather)
  obtain p h where p: "subtree t p = Some (ILeaf n h)" using leaf_path [OF t(3)] by blast
  let ?i = "?N div 2 ^ row - 1"
  have "odd (?N div 2 ^ row)" using D(8) [OF t(1,2)] by (simp add: bit_u64_odd_div)
  then have root: "is_root_coord ?N row ?i" "in_forest ?N row ?i" using odd_pos by (auto simp: is_root_coord_def in_forest_def)
  have "length p \<le> row" using height_subtree [OF p] D(7) [OF t(1,2)] by simp
  then obtain r i where ri: "in_forest ?N r i" "node_coord ts ?N r i = Some (ILeaf n h)"
    using node_coord_path [OF p root(2), of ts] node_coord_root [OF root(1), of ts] t(2) by metis
  then show ?thesis using node_rep [OF inv ri] by (auto simp: rep_def)
qed

definition valid_forest :: "forest \<Rightarrow> itree option list \<Rightarrow> bool" where
  "valid_forest f ts \<longleftrightarrow> forest_inv f ts \<and> TreeRows (num_leaves f) \<le> 62"

definition leaves_of :: "forest \<Rightarrow> itree option list \<Rightarrow> u64" where
  "leaves_of f ts = (if valid_forest f ts then num_leaves f else 0)"

definition node_hash :: "forest \<Rightarrow> itree option list \<Rightarrow> nat \<Rightarrow> nat \<Rightarrow> hash256 option" where
  "node_hash f ts r i =
     (if valid_forest f ts \<and> in_forest (unat (num_leaves f)) r i
      then map_option ihash (node_coord ts (unat (num_leaves f)) r i) else None)"

definition is_leaf_at :: "forest \<Rightarrow> itree option list \<Rightarrow> nat \<Rightarrow> nat \<Rightarrow> bool" where
  "is_leaf_at f ts r i \<longleftrightarrow>
     (case node_coord ts (unat (num_leaves f)) r i of Some (ILeaf n h) \<Rightarrow> True | _ \<Rightarrow> False)"

interpretation forest_hashes: hash_forest "leaves_of f ts" "node_hash f ts" "is_leaf_at f ts" for f ts
proof
  show "TreeRows (leaves_of f ts) \<le> 62"
    by (simp add: leaves_of_def valid_forest_def TreeRows_le_iff)
  show "\<exists>a b. node_hash f ts r (2 * i) = Some a \<and> node_hash f ts r (2 * i + 1) = Some b \<and> h = ParentHash a b"
    if H: "node_hash f ts (r + 1) i = Some h" "\<not> is_leaf_at f ts (r + 1) i" for r i h
  proof -
    obtain t where t: "in_forest (unat (num_leaves f)) (r + 1) i" "valid_forest f ts"
        "node_coord ts (unat (num_leaves f)) (r + 1) i = Some t" "h = ihash t"
      using H(1) by (auto simp: node_hash_def split: if_splits)
    then obtain n left right where "t = INode n left right" using H(2) by (cases t) (auto simp: is_leaf_at_def)
    then show ?thesis
      using t node_coord_children [OF t(1)] in_forest_children(1,2) [OF t(1)] by (auto simp: node_hash_def)
  qed
  show "node_hash f ts (r + 1) (i div 2) \<noteq> None \<and> \<not> is_leaf_at f ts (r + 1) (i div 2)"
    if H: "in_forest (unat (leaves_of f ts)) r i" "\<not> is_root_coord (unat (leaves_of f ts)) r i" "node_hash f ts r i = Some h" for r i h
  proof -
    obtain s where s: "valid_forest f ts" "node_coord ts (unat (num_leaves f)) r i = Some s"
      using H(3) by (auto simp: node_hash_def split: if_splits)
    then have i: "in_forest (unat (num_leaves f)) r i" "\<not> is_root_coord (unat (num_leaves f)) r i"
      using H(1,2) by (auto simp: leaves_of_def)
    obtain n left right where "node_coord ts (unat (num_leaves f)) (r + 1) (i div 2) = Some (INode n left right)"
      using node_coord_child [OF s(2) i(2)] .
    then show ?thesis using parent_cases(1) [OF i] s(1) by (simp add: node_hash_def is_leaf_at_def)
  qed
qed

lemma valid_forestI:
  assumes "forest_inv f ts" "TreeRows (num_leaves f) \<le> 62"
  shows "valid_forest f ts" "leaves_of f ts = num_leaves f"
  using assms by (simp_all add: valid_forest_def leaves_of_def)

lemma at_iff:
  assumes "forest_inv f ts" "TreeRows (num_leaves f) \<le> 62"
  shows "forest_hashes.at f ts p h \<longleftrightarrow>
    (\<exists>r i s. in_forest (unat (num_leaves f)) r i \<and> p = wpos (TreeRows (num_leaves f)) r i \<and>
       node_coord ts (unat (num_leaves f)) r i = Some s \<and> h = ihash s)"
  unfolding forest_hashes.at_def using valid_forestI [OF assms] by (auto simp: node_hash_def)

text \<open>A collision of one of the pairs \<open>P\<close> with a node of the forest.\<close>

definition hash_collision :: "itree option list \<Rightarrow> nat \<Rightarrow> (hash256 \<times> hash256) set \<Rightarrow> bool" where
  "hash_collision ts N P \<longleftrightarrow>
     (\<exists>r i n left right c d. in_forest N r i \<and> node_coord ts N r i = Some (INode n left right) \<and> (c, d) \<in> P \<and>
        (ihash left, ihash right) \<noteq> (c, d) \<and> ParentHash (ihash left) (ihash right) = ParentHash c d) \<or>
     (\<exists>r i n c d. in_forest N r i \<and> node_coord ts N r i = Some (ILeaf n (ParentHash c d)) \<and> (c, d) \<in> P)"

lemma collision_forest:
  assumes "forest_inv f ts" "TreeRows (num_leaves f) \<le> 62" "forest_hashes.collision f ts P"
  shows "hash_collision ts (unat (num_leaves f)) P"
proof -
  note v = valid_forestI [OF assms(1,2)]
  let ?N = "unat (num_leaves f)"
  from assms(3) [unfolded forest_hashes.collision_def, unfolded v(2)] consider
    (pair) r i a b c d where "in_forest ?N (r + 1) i" "node_hash f ts r (2 * i) = Some a" "node_hash f ts r (2 * i + 1) = Some b"
      "(c, d) \<in> P" "(a, b) \<noteq> (c, d)" "ParentHash a b = ParentHash c d"
  | (leaf) r i c d where "in_forest ?N r i" "is_leaf_at f ts r i" "(c, d) \<in> P" "node_hash f ts r i = Some (ParentHash c d)"
    by blast
  then show ?thesis
  proof cases
    case pair
    note c = in_forest_children [OF pair(1)]
    obtain s where s: "node_coord ts ?N r (2 * i) = Some s" using pair(2) by (auto simp: node_hash_def split: if_splits)
    obtain n left right where n: "node_coord ts ?N (r + 1) (2 * i div 2) = Some (INode n left right)"
      using node_coord_child [OF s c(3)] by metis
    then have "node_coord ts ?N (r + 1) i = Some (INode n left right)" by simp
    note ch = node_coord_children [OF pair(1) this]
    then have "a = ihash left" "b = ihash right" using pair(2,3) by (auto simp: node_hash_def split: if_splits)
    then show ?thesis using pair n unfolding hash_collision_def by (intro disjI1 exI) auto
  next
    case leaf
    then obtain n where "node_coord ts ?N r i = Some (ILeaf n (ParentHash c d))"
      by (auto simp: node_hash_def is_leaf_at_def split: if_splits option.splits itree.splits)
    then show ?thesis using leaf unfolding hash_collision_def by blast
  qed
qed

lemma Roots_are:
  assumes inv: "forest_inv f ts" and "TreeRows (num_leaves f) \<le> 62" "Roots f = map Some rs"
  shows "forest_hashes.roots_are f ts rs"
proof -
  note D = forest_invD [OF inv] and v = valid_forestI [OF inv assms(2)]
  let ?N = "num_leaves f"
  have "(if roots f ! row = NO_NODE then None else Some (arena_Hash (arena f) (roots f ! row))) =
      node_hash f ts row (unat ?N div 2 ^ row - 1)" if row: "row \<in> set (root_rows ?N)" for row
  proof -
    have r: "row < 64" "odd (unat ?N div 2 ^ row)" using row assms(2) by (auto simp: set_root_rows)
    then have root: "is_root_coord (unat ?N) row (unat ?N div 2 ^ row - 1)" "in_forest (unat ?N) row (unat ?N div 2 ^ row - 1)"
      using odd_pos by (auto simp: is_root_coord_def in_forest_def)
    show ?thesis
    proof (cases "ts ! row")
      case None
      then show ?thesis using D(5) [OF r(1)] root v by (simp add: slot_of_def node_hash_def node_coord_root)
    next
      case (Some t)
      have "root_slot t \<in> set (all_ids ts)" using gather_nth_subset [of row ts t ids] Some r D(2) root_slot_ids by auto
      then have "root_slot t \<noteq> NO_NODE" using D(12) by auto
      moreover have "arena_Hash (arena f) (root_slot t) = ihash t" using D(1) rep_root_hash [OF D(6) [OF r(1) Some]] by simp
      ultimately show ?thesis using Some D(5) [OF r(1)] root v by (simp add: slot_of_def node_hash_def node_coord_root)
    qed
  qed
  then have "Roots f = map (\<lambda>row. node_hash f ts row (unat ?N div 2 ^ row - 1)) (root_rows ?N)"
    unfolding Roots_def by (intro map_cong refl)
  then show ?thesis unfolding forest_hashes.roots_are_def unfolding v(2) assms(3) [symmetric] .
qed

section \<open>Proofs\<close>

lemma Find_leaf:
  assumes inv: "forest_inv f ts"
  shows "Find (arena f) (index f) h = None \<longleftrightarrow> h \<notin> set (all_hashes ts)"
    and "Find (arena f) (index f) h = Some n \<Longrightarrow> n \<in> set (all_leaves ts) \<and> rec_hash (Read (arena f) n) = h"
proof -
  note D = forest_invD [OF inv]
  show some: "n \<in> set (all_leaves ts) \<and> rec_hash (Read (arena f) n) = h" if "Find (arena f) (index f) h = Some n" for n
    using index.find_Some [OF D(11) that] D(1) by simp
  have hs: "set (all_hashes ts) = (\<lambda>n. rec_hash (Read (arena f) n)) ` set (all_leaves ts)"
  proof -
    have "set (leaf_hashes t) = (\<lambda>n. rec_hash (Read (arena f) n)) ` set (leaf_slots t)" if "row < 64" "ts ! row = Some t" for row t
      using D(6) [OF that] leaf_hashes_read [of "Read (arena f)" NO_NODE t] unfolding rep_def by (metis set_map)
    then show ?thesis unfolding set_eq_iff image_iff using D(2) by (fastforce simp: set_gather)
  qed
  show "Find (arena f) (index f) h = None \<longleftrightarrow> h \<notin> set (all_hashes ts)"
  proof
    assume f: "Find (arena f) (index f) h = None"
    have "rec_hash (Read (arena f) n) \<noteq> h" if "n \<in> set (all_leaves ts)" for n
      using index.find_None [OF D(11) f that] IsLeaf_in_forest [OF inv] that D(1) by simp
    then show "h \<notin> set (all_hashes ts)" unfolding hs by auto
  next
    assume "h \<notin> set (all_hashes ts)"
    then show "Find (arena f) (index f) h = None" using some unfolding hs by (cases "Find (arena f) (index f) h") auto
  qed
qed

lemma PositionOf_leaf:
  assumes inv: "forest_inv f ts" and R: "TreeRows (num_leaves f) \<le> 62" and n: "n \<in> set (all_leaves ts)"
  shows "\<exists>r i. in_forest (unat (num_leaves f)) r i \<and>
    node_coord ts (unat (num_leaves f)) r i = Some (ILeaf n (rec_hash (Read (arena f) n))) \<and>
    PositionOf f n = Some (Ok (wpos (TreeRows (num_leaves f)) r i))"
proof -
  obtain r i where ri: "in_forest (unat (num_leaves f)) r i"
      "node_coord ts (unat (num_leaves f)) r i = Some (ILeaf n (rec_hash (Read (arena f) n)))"
    using leaf_coord [OF inv n] by blast
  then show ?thesis using PositionOf_node [OF inv R ri] by auto
qed

definition leaf_position :: "forest \<Rightarrow> itree option list \<Rightarrow> u64 \<Rightarrow> hash256 \<Rightarrow> bool" where
  "leaf_position f ts p h \<longleftrightarrow>
     (\<exists>r i n. in_forest (unat (num_leaves f)) r i \<and> p = wpos (TreeRows (num_leaves f)) r i \<and>
        node_coord ts (unat (num_leaves f)) r i = Some (ILeaf n h))"

lemma target_positions_correct:
  assumes inv: "forest_inv f ts" and R: "TreeRows (num_leaves f) \<le> 62" and "set hs \<subseteq> set (all_hashes ts)"
  shows "\<exists>ps. target_positions f hs = Some (Ok ps) \<and> list_all2 (leaf_position f ts) ps hs"
  using assms(3)
proof (induction hs)
  case (Cons h hs)
  then obtain ps where ps: "target_positions f hs = Some (Ok ps)" "list_all2 (leaf_position f ts) ps hs" by auto
  obtain n where n: "Find (arena f) (index f) h = Some n" using Find_leaf(1) [OF inv, of h] Cons.prems by fastforce
  from PositionOf_leaf [OF inv R] Find_leaf(2) [OF inv n] obtain r i where
    "in_forest (unat (num_leaves f)) r i" "node_coord ts (unat (num_leaves f)) r i = Some (ILeaf n h)"
    "PositionOf f n = Some (Ok (wpos (TreeRows (num_leaves f)) r i))" by blast
  moreover from this have "leaf_position f ts (wpos (TreeRows (num_leaves f)) r i) h"
    unfolding leaf_position_def by blast
  ultimately show ?case using ps n by simp
qed simp

lemma proof_hashes_correct:
  assumes inv: "forest_inv f ts" and R: "TreeRows (num_leaves f) \<le> 62" and "\<forall>p \<in> set ps. \<exists>h. forest_hashes.at f ts p h"
  shows "\<exists>hs. proof_hashes f ps = Ok hs \<and> list_all2 (forest_hashes.at f ts) ps hs"
  using assms(3)
proof (induction ps)
  case (Cons p ps)
  then obtain hs where hs: "proof_hashes f ps = Ok hs" "list_all2 (forest_hashes.at f ts) ps hs" by auto
  obtain h where h: "forest_hashes.at f ts p h" using Cons.prems by auto
  then obtain r i s where s: "in_forest (unat (num_leaves f)) r i" "p = wpos (TreeRows (num_leaves f)) r i"
      "node_coord ts (unat (num_leaves f)) r i = Some s" "h = ihash s" by (auto simp: at_iff [OF inv R])
  have "arena_Hash (arena f) (root_slot s) = h"
    using forest_invD(1) [OF inv] node_rep [OF inv s(1,3)] rep_root_hash s(4) by fastforce
  then show ?case using hs h NodeAt_node [OF inv R s(1,3)] s(2) by auto
qed simp

lemma leaf_position_at:
  assumes "forest_inv f ts" "TreeRows (num_leaves f) \<le> 62" "leaf_position f ts p h"
  shows "forest_hashes.at f ts p h" "forest_hashes.leaf_targets f ts {p}"
proof -
  obtain r i n where n: "in_forest (unat (num_leaves f)) r i" "p = wpos (TreeRows (num_leaves f)) r i"
      "node_coord ts (unat (num_leaves f)) r i = Some (ILeaf n h)"
    using assms(3) by (auto simp: leaf_position_def)
  then show "forest_hashes.at f ts p h" unfolding at_iff [OF assms(1,2)] by (intro exI [of _ r] exI [of _ i] exI [of _ "ILeaf n h"]) simp
  show "forest_hashes.leaf_targets f ts {p}"
    unfolding forest_hashes.leaf_targets_def using valid_forestI [OF assms(1,2)] n
    by (intro ballI exI [of _ r] exI [of _ i]) (auto simp: is_leaf_at_def node_hash_def)
qed

lemma leaf_position_unique:
  assumes "forest_inv f ts" "TreeRows (num_leaves f) \<le> 62" "leaf_position f ts p h" "leaf_position f ts p h'"
  shows "h = h'"
  using forest_hashes.at_unique leaf_position_at(1) [OF assms(1,2)] assms(3,4) by blast

lemma distinct_positions:
  assumes "\<And>p h h'. P p h \<Longrightarrow> P p h' \<Longrightarrow> h = h'" "list_all2 P ps hs" "distinct hs"
  shows "distinct ps"
proof -
  have "ps ! i \<noteq> ps ! j" if "i < length ps" "j < length ps" "i \<noteq> j" for i j
    using assms that list_all2_nthD [OF assms(2)] list_all2_lengthD [OF assms(2)] by (metis nth_eq_iff_index_eq)
  then show ?thesis by (simp add: distinct_conv_nth)
qed

lemma Prove_forest:
  assumes inv: "forest_inv f ts" and R: "TreeRows (num_leaves f) \<le> 62"
    and hs: "distinct hs" "set hs \<subseteq> set (all_hashes ts)" and rs: "Roots f = map Some rs"
  shows "\<exists>pf. Prove f hs = Some (Ok pf) \<and> list_all2 (leaf_position f ts) (targets pf) hs \<and>
    VerifyProof pf hs rs (num_leaves f) = Ok True"
proof -
  let ?N = "num_leaves f"
  obtain ps where ps: "target_positions f hs = Some (Ok ps)" "list_all2 (leaf_position f ts) ps hs"
    using target_positions_correct [OF inv R hs(2)] by blast
  let ?pp = "ProofPositions ps ?N (TreeRows ?N)"
  note v = valid_forestI [OF inv R]
  have lp: "\<exists>h. leaf_position f ts p h" if "p \<in> set ps" for p
    using ps(2) that by (metis in_set_conv_nth list_all2_conv_all_nth)
  have lt: "forest_hashes.leaf_targets f ts (set ps)"
    using leaf_position_at(2) [OF inv R] lp unfolding forest_hashes.leaf_targets_def by blast
  have ins: "\<forall>t \<in> set ps. \<exists>r i. in_forest (unat ?N) r i \<and> t = wpos (TreeRows ?N) r i"
    using lp unfolding leaf_position_def by blast
  have "set ?pp \<subseteq> forest_hashes.needed f ts (set ps)"
    unfolding ProofPositions_frontier [OF R leaves_le_TreeRows ins] forest_hashes.needed_def unfolding v(2) by blast
  then have "\<forall>p \<in> set ?pp. \<exists>h. forest_hashes.at f ts p h"
    using forest_hashes.needed_closed [OF lt] unfolding forest_hashes.closed_def by blast
  from proof_hashes_correct [OF inv R this] obtain ph where
    ph: "proof_hashes f ?pp = Ok ph" "list_all2 (forest_hashes.at f ts) ?pp ph" by blast
  have "Prove f hs = Some (Ok \<lparr>targets = ps, hashes = ph\<rparr>)" using ps(1) ph(1) by (simp add: Prove_def)
  moreover have "VerifyProof \<lparr>targets = ps, hashes = ph\<rparr> hs rs ?N = Ok True"
  proof -
    have "distinct ps" using distinct_positions [OF leaf_position_unique [OF inv R] ps(2) hs(1)] .
    moreover have "list_all2 (forest_hashes.at f ts) ps hs"
      using ps(2) by (rule list_all2_mono) (rule leaf_position_at(1) [OF inv R])
    ultimately show ?thesis
      using forest_hashes.VerifyProof_complete [OF lt _ _ Roots_are [OF inv R rs], of hs ph] ph(2) v(2) by simp
  qed
  ultimately show ?thesis using ps(2) by (intro exI [of _ "\<lparr>targets = ps, hashes = ph\<rparr>"]) simp
qed

text \<open>The roots of the forest are the hashes of its trees.\<close>

primrec hhash :: "htree \<Rightarrow> hash256" where
  "hhash (HLeaf h) = h"
| "hhash (HNode l r) = ParentHash (hhash l) (hhash r)"

lemma hhash_strip [simp]: "hhash (strip t) = ihash t"
  by (induction t) auto

lemma Roots_abs:
  assumes inv: "forest_inv f ts" and R: "TreeRows (num_leaves f) \<le> 62"
  shows "Roots f = map (\<lambda>row. map_option hhash (forest_abs ts ! row)) (root_rows (num_leaves f))"
proof -
  note D = forest_invD [OF inv]
  have "(if roots f ! row = NO_NODE then None else Some (arena_Hash (arena f) (roots f ! row))) =
      map_option hhash (forest_abs ts ! row)" if row: "row \<in> set (root_rows (num_leaves f))" for row
  proof -
    have r: "row < 64" using row R by (auto simp: set_root_rows)
    show ?thesis
    proof (cases "ts ! row")
      case (Some t)
      have "root_slot t \<in> set (all_ids ts)" using gather_nth_subset [of row ts t ids] Some r D(2) root_slot_ids by auto
      then have "root_slot t \<noteq> NO_NODE" using D(12) by auto
      moreover have "arena_Hash (arena f) (root_slot t) = ihash t" using D(1) rep_root_hash [OF D(6) [OF r Some]] by simp
      ultimately show ?thesis using Some D(2) D(5) [OF r] r by (simp add: slot_of_def forest_abs_nth)
    qed (use D(2,5) r in \<open>simp add: slot_of_def forest_abs_nth\<close>)
  qed
  then show ?thesis unfolding Roots_def by (intro map_cong refl)
qed

section \<open>A forest of two leaves\<close>

lemma two_leaf_forest:
  "\<exists>f1 f2 ts. Add empty_forest h0 = Some (Ok (), f1) \<and> Add f1 h1 = Some (Ok (), f2) \<and> forest_inv f2 ts \<and>
     num_leaves f2 = 2 \<and> online f2 = False \<and> TreeRows (num_leaves f2) \<le> 62 \<and>
     forest_abs ts = (replicate 64 None)[1 := Some (HNode (HLeaf h0) (HLeaf h1))] \<and>
     set (all_hashes ts) = {h0, h1} \<and> card (live_ids (arena f2)) \<le> 3 \<and> Roots f2 = map Some [ParentHash h0 h1]"
proof -
  have e: "live_ids (arena empty_forest) = {}" "num_leaves empty_forest = 0" "online empty_forest = False"
    by (simp_all add: live_ids_def Live_iff empty_arena_def empty_forest_def)
  obtain f1 ts1 where 1: "Add empty_forest h0 = Some (Ok (), f1)" "forest_inv f1 ts1" "num_leaves f1 = 1" "online f1 = False"
      "forest_abs ts1 = add_spec 0 0 (HLeaf h0) (forest_abs (replicate 64 None))"
      "mset (all_hashes ts1) = {#h0#}" "card (live_ids (arena f1)) \<le> 1"
    using Add_refines [OF empty_forest_inv, of h0] e by (auto simp: trailing_ones.simps [of 0] gather_def)
  have t1: "trailing_ones (unat (1 :: u64)) = 1" by (simp add: trailing_ones.simps)
  have "card (live_ids (arena f1)) + 1 + trailing_ones (unat (num_leaves f1)) \<le> 2 ^ 32 - 1"
    using 1(3,7) t1 by simp
  from Add_refines [OF 1(2) _ this, of h1] 1(3,4,6,7) t1
  obtain f2 ts2 where 2: "Add f1 h1 = Some (Ok (), f2)" "forest_inv f2 ts2" "num_leaves f2 = 2" "online f2 = False"
      "forest_abs ts2 = add_spec 1 0 (HLeaf h1) (forest_abs ts1)"
      "mset (all_hashes ts2) = {#h1, h0#}" "card (live_ids (arena f2)) \<le> 3"
    by auto
  have abs: "forest_abs ts2 = (replicate 64 None)[1 := Some (HNode (HLeaf h0) (HLeaf h1))]"
  proof -
    have r0: "(replicate 64 None)[0 := None] = (replicate 64 None :: htree option list)"
      using list_update_id [of "replicate 64 None :: htree option list" 0] by simp
    then show ?thesis unfolding 2(5) 1(5) by (simp add: add_spec.simps forest_abs_def r0)
  qed
  have R: "TreeRows 2 = 1" "root_rows 2 = [1]" by code_simp+
  have "Roots f2 = map Some [ParentHash h0 h1]"
    using Roots_abs [OF 2(2)] 2(3) R abs by simp
  moreover have "set (all_hashes ts2) = {h0, h1}" using 2(6) by (metis insert_commute set_mset_add_mset_insert set_mset_empty set_mset_mset)
  ultimately show ?thesis using 1 2 abs R by auto
qed

section \<open>Properties\<close>

text \<open>C8: \<open>PositionOf\<close> and \<open>NodeAt\<close> agree with the structure of the forest and are inverse to each
  other: for the node at row \<open>r\<close> and offset \<open>i\<close>, the walk up its parent links returns the position of
  that coordinate, and the walk down from the root of the tree to that position returns its slot.\<close>

theorem PositionOf_NodeAt_correct:
  assumes "forest_inv f ts" "TreeRows (num_leaves f) \<le> 62"
    and "in_forest (unat (num_leaves f)) r i" "node_coord ts (unat (num_leaves f)) r i = Some s"
  shows "PositionOf f (root_slot s) = Some (Ok (wpos (TreeRows (num_leaves f)) r i)) \<and>
    NodeAt f (wpos (TreeRows (num_leaves f)) r i) = Ok (root_slot s)"
  using PositionOf_node [OF assms] NodeAt_node [OF assms] by simp

theorem PositionOf_NodeAt_correct_witness:
  "\<exists>f ts n h r i. forest_inv f ts \<and> node_coord ts (unat (num_leaves f)) r i = Some (ILeaf n h) \<and>
     PositionOf f n = Some (Ok (wpos (TreeRows (num_leaves f)) r i)) \<and>
     NodeAt f (wpos (TreeRows (num_leaves f)) r i) = Ok n"
proof -
  obtain f ts where e: "forest_inv f ts" "TreeRows (num_leaves f) \<le> 62" "set (all_hashes ts) = {null_hash}"
    using two_leaf_forest [of null_hash null_hash] by auto
  then obtain n where "n \<in> set (all_leaves ts)" using Find_leaf [OF e(1), of null_hash] by fastforce
  then obtain r i h where ri: "in_forest (unat (num_leaves f)) r i" "node_coord ts (unat (num_leaves f)) r i = Some (ILeaf n h)"
    using leaf_coord [OF e(1)] by blast
  show ?thesis using PositionOf_NodeAt_correct [OF e(1,2) ri, simplified] ri(2) e(1) by fast
qed

text \<open>C1: Proofs are complete: for any distinct leaves of the forest \<open>Prove\<close> returns a proof, its targets
  are the positions of those leaves, and \<open>VerifyProof\<close> accepts it against the forest's roots.\<close>

theorem Prove_verifies:
  assumes "forest_inv f ts" "TreeRows (num_leaves f) \<le> 62"
    and "distinct hs" "set hs \<subseteq> set (all_hashes ts)" "Roots f = map Some rs"
  shows "\<exists>pf. Prove f hs = Some (Ok pf) \<and> list_all2 (leaf_position f ts) (targets pf) hs \<and>
    VerifyProof pf hs rs (num_leaves f) = Ok True"
  by (rule Prove_forest [OF assms])

theorem Prove_verifies_witness:
  "\<exists>f1 f2 ts. Add empty_forest null_hash = Some (Ok (), f1) \<and>
     Add f1 (ParentHash null_hash null_hash) = Some (Ok (), f2) \<and>
     (\<exists>pf. Prove f2 [null_hash] = Some (Ok pf) \<and> list_all2 (leaf_position f2 ts) (targets pf) [null_hash] \<and>
        VerifyProof pf [null_hash] [ParentHash null_hash (ParentHash null_hash null_hash)] (num_leaves f2) = Ok True)"
proof -
  obtain f1 f2 ts where e: "Add empty_forest null_hash = Some (Ok (), f1)"
      "Add f1 (ParentHash null_hash null_hash) = Some (Ok (), f2)" "forest_inv f2 ts" "TreeRows (num_leaves f2) \<le> 62"
      "set (all_hashes ts) = {null_hash, ParentHash null_hash null_hash}"
      "Roots f2 = map Some [ParentHash null_hash (ParentHash null_hash null_hash)]"
    using two_leaf_forest [of null_hash "ParentHash null_hash null_hash"] by blast
  show ?thesis using e(1,2) Prove_verifies [OF e(3,4) _ _ e(6), of "[null_hash]"] e(5) by auto
qed

text \<open>C2: Proofs are sound: if \<open>VerifyProof\<close> accepts a proof against the roots of the forest, then for
  every target at the position of a coordinate of the forest the claimed hash is the hash of the node
  there, unless the verifier itself has combined a pair of hashes that collides with the forest, which
  the theorem exhibits.\<close>

theorem accepted_proof_sound:
  assumes "forest_inv f ts" "TreeRows (num_leaves f) \<le> 62" "Roots f = map Some rs"
    and "VerifyProof pf th rs (num_leaves f) = Ok True"
    and "k < length (targets pf)" "targets pf ! k = wpos (TreeRows (num_leaves f)) r i"
    and "in_forest (unat (num_leaves f)) r i"
  shows "map_option ihash (node_coord ts (unat (num_leaves f)) r i) = Some (th ! k) \<or>
    hash_collision ts (unat (num_leaves f)) (verifier_pairs pf th (num_leaves f))"
proof -
  note v = valid_forestI [OF assms(1,2)]
  have ins: "forest_hashes.inside f ts (targets pf ! k)"
    unfolding forest_hashes.inside_def unfolding v(2) using assms(6,7) by blast
  from forest_hashes.VerifyProof_sound [OF _ Roots_are [OF assms(1-3)] assms(5) ins] assms(4) v(2)
  consider "forest_hashes.at f ts (targets pf ! k) (th ! k)" | "forest_hashes.collision f ts (verifier_pairs pf th (num_leaves f))"
    by auto
  then show ?thesis
  proof cases
    case 1
    then obtain r' i' s where s: "in_forest (unat (num_leaves f)) r' i'"
        "targets pf ! k = wpos (TreeRows (num_leaves f)) r' i'"
        "node_coord ts (unat (num_leaves f)) r' i' = Some s" "th ! k = ihash s"
      unfolding at_iff [OF assms(1,2)] by blast
    have "r' = r \<and> i' = i"
      using wpos_inject [OF in_forest_coord [OF s(1)] in_forest_coord [OF assms(7)] assms(2)] s(2) assms(6)
        leaves_le_TreeRows by simp
    then show ?thesis using s by simp
  qed (use collision_forest [OF assms(1,2)] in blast)
qed

theorem accepted_proof_sound_witness:
  "\<exists>f ts pf r i. forest_inv f ts \<and> VerifyProof pf [null_hash] [ParentHash null_hash null_hash] (num_leaves f) = Ok True \<and>
     (map_option ihash (node_coord ts (unat (num_leaves f)) r i) = Some null_hash \<or>
      hash_collision ts (unat (num_leaves f)) (verifier_pairs pf [null_hash] (num_leaves f)))"
proof -
  obtain f ts where e: "forest_inv f ts" "TreeRows (num_leaves f) \<le> 62" "set (all_hashes ts) = {null_hash}"
      "Roots f = map Some [ParentHash null_hash null_hash]"
    using two_leaf_forest [of null_hash null_hash] by auto
  obtain pf where pf: "list_all2 (leaf_position f ts) (targets pf) [null_hash]"
      "VerifyProof pf [null_hash] [ParentHash null_hash null_hash] (num_leaves f) = Ok True"
    using Prove_forest [OF e(1,2) _ _ e(4), of "[null_hash]"] e(3) by auto
  then obtain r i where ri: "0 < length (targets pf)" "in_forest (unat (num_leaves f)) r i"
      "targets pf ! 0 = wpos (TreeRows (num_leaves f)) r i"
    by (auto simp: list_all2_Cons2 leaf_position_def)
  have "map_option ihash (node_coord ts (unat (num_leaves f)) r i) = Some null_hash \<or>
      hash_collision ts (unat (num_leaves f)) (verifier_pairs pf [null_hash] (num_leaves f))"
    using accepted_proof_sound [OF e(1,2,4) pf(2) ri(1,3,2)] by (simp only: nth_Cons_0)
  then show ?thesis using e(1) pf(2) by fast
qed

end
