(* ===== verification/ForestModify.thy ===== *)
theory ForestModify
  imports ForestProof
begin

unbundle bit_operations_syntax

text \<open>
  Block modification (\<open>Modify\<close>, \<open>PrepareModify\<close>): deletions are looked up before anything changes, the
  arena and the index are prepared for the whole block, then the deletions run in the order of their
  positions and the additions follow. The theory shows when the preparation succeeds, that nothing
  fails after it, and what the forest holds afterwards.
\<close>

section \<open>Branches of a run of additions\<close>

lemma trailing_ones_iff: "k \<le> trailing_ones n \<longleftrightarrow> (\<forall>j < k. odd (n div 2 ^ j))"
proof (induction k arbitrary: n)
  case (Suc k)
  show ?case
  proof (cases "odd n")
    case True
    then have "Suc k \<le> trailing_ones n \<longleftrightarrow> k \<le> trailing_ones (n div 2)" by (subst trailing_ones.simps) simp
    also have "\<dots> \<longleftrightarrow> (\<forall>j < k. odd (n div 2 ^ Suc j))" using Suc.IH by (simp add: div_mult2_eq)
    also have "\<dots> \<longleftrightarrow> (\<forall>j < Suc k. odd (n div 2 ^ j))" using True by (auto simp: less_Suc_eq_0_disj)
    finally show ?thesis .
  next
    case False
    then show ?thesis by (subst trailing_ones.simps) (auto intro!: exI [of _ 0])
  qed
qed simp

lemma trailing_ones_le: "trailing_ones (unat (w :: u64)) \<le> 64"
proof (rule ccontr)
  assume "\<not> trailing_ones (unat w) \<le> 64"
  then have "65 \<le> trailing_ones (unat w)" by simp
  then have "\<forall>j < 65. odd (unat w div 2 ^ j)" by (simp only: trailing_ones_iff)
  then have "odd (unat w div 2 ^ 64)" by (rule allE [of _ 64]) simp
  then have "bit w 64" by (rule iffD2 [OF bit_u64_odd_div])
  then show False using bit_imp_le_length [of w 64] by simp
qed

lemma countr_one_eq: "countr_one w = trailing_ones (unat w)"
proof -
  have "k \<le> countr_one w \<longleftrightarrow> k \<le> trailing_ones (unat w)" if "k \<le> 64" for k
    unfolding countr_one_def trailing_ones_iff using that
    by (subst length_takeWhile_ge_iff) (auto simp: bit_u64_odd_div)
  moreover have "countr_one w \<le> 64" unfolding countr_one_def using length_takeWhile_le [of "bit w" "[0..<64]"] by simp
  ultimately show ?thesis using trailing_ones_le [of w] by (meson order_antisym order_refl)
qed

text \<open>The slots a block of \<open>k\<close> additions to a forest of \<open>N\<close> leaves takes: one per leaf and one per branch.\<close>

definition slots_needed :: "nat \<Rightarrow> nat \<Rightarrow> nat" where
  "slots_needed N k = k + (\<Sum>i < k. trailing_ones (N + i))"

lemma slots_needed_0 [simp]: "slots_needed N 0 = 0"
  by (simp add: slots_needed_def)

lemma slots_needed_Suc: "slots_needed N (Suc k) = 1 + trailing_ones N + slots_needed (N + 1) k"
  unfolding slots_needed_def by (subst sum.lessThan_Suc_shift) simp

lemma branch_count_eq:
  assumes "unat N + k < 2 ^ 64" "k < 2 ^ 56"
  shows "unat (branch_count N k) = (\<Sum>i < k. trailing_ones (unat N + i)) \<and> unat (branch_count N k) \<le> 64 * k"
  using assms
proof (induction k)
  case 0
  show ?case by (simp add: branch_count_def)
next
  case (Suc k)
  have "unat (N + of_nat k) = unat N + k" using Suc.prems by (simp add: unat_word_ariths unat_of_nat)
  then have c: "countr_one (N + of_nat k) = trailing_ones (unat N + k)" "trailing_ones (unat N + k) \<le> 64"
    using countr_one_eq [of "N + of_nat k"] trailing_ones_le [of "N + of_nat k"] by simp_all
  have s: "branch_count N (Suc k) = branch_count N k + of_nat (trailing_ones (unat N + k))"
    by (simp add: branch_count_def c)
  have IH: "unat (branch_count N k) = (\<Sum>i < k. trailing_ones (unat N + i))" "unat (branch_count N k) \<le> 64 * k"
    using Suc.IH Suc.prems by simp_all
  have u: "unat (branch_count N (Suc k)) = unat (branch_count N k) + trailing_ones (unat N + k)"
    unfolding s using IH(2) c(2) Suc.prems(2) by (simp add: unat_word_ariths unat_of_nat)
  show ?case using u IH c(2) by simp
qed

lemma PrepareAllocations_cases: "PrepareAllocations a n = Ok () \<or> (\<exists>e. PrepareAllocations a n = Throw e)"
  by (simp add: PrepareAllocations_def Let_def)

lemma PrepareModify_room:
  assumes inv: "forest_inv f ts" and "unat (num_leaves f) + adds < 2 ^ 64" "adds < 2 ^ 56"
  shows "\<exists>ix r. PrepareModify f adds dels = Some (r, f\<lparr>index := ix\<rparr>) \<and> forest_inv (f\<lparr>index := ix\<rparr>) ts \<and>
    (if card (live_ids (arena f)) + slots_needed (unat (num_leaves f)) adds \<le> 2 ^ 32 - 1 then r = Ok () else \<exists>e. r = Throw e)"
proof -
  note D = forest_invD [OF inv] and b = branch_count_eq [OF assms(2,3)]
  have "IsLeaf (arena f) n \<and> arena_Hash (arena f) n = rec_hash (Read (arena f) n)" if "n \<in> set (all_leaves ts)" for n
    using IsLeaf_in_forest [OF inv] that D(1) by simp
  then obtain ix where ix: "PrepareInsertions (arena f) (index f) dels adds = Some ix"
      "index_inv (\<lambda>n. rec_hash (Read (arena f) n)) ix (set (all_leaves ts))"
    using PrepareInsertions_correct [OF D(11), of "arena f" adds dels] assms(3) by auto
  have u: "unat (of_nat adds + branch_count (num_leaves f) adds) = slots_needed (unat (num_leaves f)) adds"
    using b assms(3) by (simp add: slots_needed_def unat_word_ariths unat_of_nat)
  have "slots_needed (unat (num_leaves f)) adds < 2 ^ 63" using b assms(3) by (simp add: slots_needed_def)
  then have "PrepareAllocations (arena f) (of_nat adds + branch_count (num_leaves f) adds) = Ok () \<longleftrightarrow>
      card (live_ids (arena f)) + slots_needed (unat (num_leaves f)) adds \<le> 2 ^ 32 - 1"
    using PrepareAllocations_room [OF D(1), of "of_nat adds + branch_count (num_leaves f) adds"] u by simp
  moreover have "forest_inv (f\<lparr>index := ix\<rparr>) ts" using inv ix(2) by (simp add: forest_inv_def)
  ultimately show ?thesis
    using ix(1) PrepareAllocations_cases [of "arena f" "of_nat adds + branch_count (num_leaves f) adds"]
    by (intro exI [of _ ix] exI [of _ "PrepareAllocations (arena f) (of_nat adds + branch_count (num_leaves f) adds)"])
       (auto simp: PrepareModify_def)
qed

section \<open>The deletions\<close>

lemma del_leaf_mset:
  assumes "distinct (leaf_slots t)" "n \<in> set (leaf_slots t)" "links m p t"
  shows "mset (leaf_slots t) = add_mset n (mset (case_option [] leaf_slots (del_leaf n t))) \<and>
    mset (leaf_hashes t) = add_mset (rec_hash (m n)) (mset (case_option [] leaf_hashes (del_leaf n t)))"
  using assms
proof (induction t arbitrary: p)
  case (INode k l r)
  show ?case
  proof (cases "n \<in> set (leaf_slots l)")
    case True
    then have "n \<notin> set (leaf_slots r)" using INode.prems(1) by auto
    then show ?thesis using INode.IH(1) [of k] INode.prems True by (cases "del_leaf n l") (auto simp: del_leaf_other)
  next
    case False
    then show ?thesis using INode.IH(2) [of k] INode.prems by (cases "del_leaf n r") (auto simp: del_leaf_other)
  qed
qed auto

lemma delete_forest_mset:
  assumes inv: "forest_inv f ts" and n: "n \<in> set (all_leaves ts)"
  shows "mset (all_leaves ts) = add_mset n (mset (all_leaves (delete_forest n ts))) \<and>
    mset (all_hashes ts) = add_mset (rec_hash (Read (arena f) n)) (mset (all_hashes (delete_forest n ts)))"
proof -
  note D = forest_invD [OF inv]
  obtain row t where t: "row < length ts" "ts ! row = Some t" "n \<in> set (leaf_slots t)" using n by (auto simp: set_gather)
  have "distinct (leaf_slots t)" using distinct_leaf_slots distinct_gather_nth [OF D(9) t(1,2)] .
  then have "mset (leaf_slots t) = add_mset n (mset (case_option [] leaf_slots (del_leaf n t)))"
    "mset (leaf_hashes t) = add_mset (rec_hash (Read (arena f) n)) (mset (case_option [] leaf_hashes (del_leaf n t)))"
    using del_leaf_mset [OF _ t(3), of "Read (arena f)" NO_NODE] D(6) [OF _ t(2)] t(1) D(2) by (auto simp: rep_def)
  then show ?thesis
    using mset_gather_update [OF t(1), of leaf_slots "del_leaf n t"] mset_gather_update [OF t(1), of leaf_hashes "del_leaf n t"]
      t(2) delete_forest_row [OF D(9) t] by simp
qed

primrec has_leaf :: "NodeId \<Rightarrow> hash256 \<Rightarrow> itree \<Rightarrow> bool" where
  "has_leaf m h (ILeaf n k) \<longleftrightarrow> n = m \<and> k = h"
| "has_leaf m h (INode n l r) \<longleftrightarrow> has_leaf m h l \<or> has_leaf m h r"

lemma has_leaf_ex: "m \<in> set (leaf_slots t) \<Longrightarrow> \<exists>h. has_leaf m h t"
  by (induction t) auto

lemma has_leaf_read: "has_leaf n h t \<Longrightarrow> links m p t \<Longrightarrow> rec_hash (m n) = h"
  by (induction t arbitrary: p) auto

lemma has_leaf_del: "del_leaf n t = Some t' \<Longrightarrow> has_leaf m h t' \<Longrightarrow> has_leaf m h t"
  by (induction t arbitrary: t') (auto split: option.splits if_splits)

lemma delete_forest_hash:
  assumes "forest_inv f ts" "forest_inv f' (delete_forest n ts)" "m \<in> set (all_leaves (delete_forest n ts))"
  shows "rec_hash (Read (arena f') m) = rec_hash (Read (arena f) m)"
proof -
  note D = forest_invD [OF assms(1)] and D' = forest_invD [OF assms(2)]
  obtain row t' where t': "row < 64" "delete_forest n ts ! row = Some t'" "m \<in> set (leaf_slots t')"
    using assms(3) D'(2) by (auto simp: set_gather)
  obtain t where t: "ts ! row = Some t" "del_leaf n t = Some t'"
    using t'(1,2) D(2) by (auto simp: delete_forest_def bind_eq_Some_conv)
  obtain h where h: "has_leaf m h t'" using has_leaf_ex [OF t'(3)] by blast
  have "rec_hash (Read (arena f') m) = h" using has_leaf_read [OF h, of "Read (arena f')" NO_NODE] D'(6) [OF t'(1,2)] by (simp add: rep_def)
  moreover have "rec_hash (Read (arena f) m) = h"
    using has_leaf_read [OF has_leaf_del [OF t(2) h], of "Read (arena f)" NO_NODE] D(6) [OF t'(1) t(1)] by (simp add: rep_def)
  ultimately show ?thesis by simp
qed

lemma distinct_all_leaves:
  assumes "forest_inv f ts"
  shows "distinct (all_leaves ts)"
proof -
  have "distinct (concat (map (case_option [] leaf_slots) xs))" if "distinct (all_ids xs)" for xs
    using that all_leaves_subset
    by (induction xs) (fastforce simp: gather_def distinct_leaf_slots split: option.splits dest: leaf_slots_ids [THEN subsetD])+
  then show ?thesis using forest_invD(9) [OF assms] by (simp add: gather_def)
qed

lemma DeleteId_step:
  assumes inv: "forest_inv f ts" and n: "n \<in> set (all_leaves ts)"
  shows "\<exists>f' ts'. DeleteId f n = Some (Ok (), f') \<and> forest_inv f' ts' \<and> num_leaves f' = num_leaves f \<and>
    online f' = online f \<and> card (live_ids (arena f')) \<le> card (live_ids (arena f)) \<and>
    set (all_leaves ts') = set (all_leaves ts) - {n} \<and>
    (\<forall>m \<in> set (all_leaves ts'). rec_hash (Read (arena f') m) = rec_hash (Read (arena f) m)) \<and>
    mset (all_hashes ts) = add_mset (rec_hash (Read (arena f) n)) (mset (all_hashes ts'))"
proof -
  obtain f' where f': "DeleteId f n = Some (Ok (), f')" "forest_inv f' (delete_forest n ts)"
      "num_leaves f' = num_leaves f" "online f' = online f" "live_ids (arena f') \<subseteq> live_ids (arena f)"
    using DeleteId_refines [OF inv n] by blast
  note ms = delete_forest_mset [OF inv n]
  have d: "distinct (n # all_leaves (delete_forest n ts))" "set (all_leaves ts) = set (n # all_leaves (delete_forest n ts))"
    using ms distinct_all_leaves [OF inv] by (metis mset.simps(2) mset_eq_imp_distinct_iff, metis mset.simps(2) set_mset_mset)
  have "finite (live_ids (arena f))" by simp
  then have "card (live_ids (arena f')) \<le> card (live_ids (arena f))" using f'(5) by (rule card_mono)
  then show ?thesis
    using f' ms d delete_forest_hash [OF inv f'(2)] by (intro exI [of _ f'] exI [of _ "delete_forest n ts"]) auto
qed

lemma delete_all_correct:
  assumes "forest_inv f ts" "distinct (map snd nodes)" "snd ` set nodes \<subseteq> set (all_leaves ts)"
  shows "\<exists>f' ts'. delete_all nodes f = Some (Ok (), f') \<and> forest_inv f' ts' \<and> num_leaves f' = num_leaves f \<and>
    online f' = online f \<and> card (live_ids (arena f')) \<le> card (live_ids (arena f)) \<and>
    mset (all_hashes ts) = mset (map (\<lambda>x. rec_hash (Read (arena f) (snd x))) nodes) + mset (all_hashes ts')"
  using assms
proof (induction nodes arbitrary: f ts)
  case (Cons x nodes)
  obtain pos n where x: "x = (pos, n)" by (cases x)
  obtain f1 ts1 where 1: "DeleteId f n = Some (Ok (), f1)" "forest_inv f1 ts1" "num_leaves f1 = num_leaves f"
      "online f1 = online f" "card (live_ids (arena f1)) \<le> card (live_ids (arena f))"
      "set (all_leaves ts1) = set (all_leaves ts) - {n}"
      "\<forall>m \<in> set (all_leaves ts1). rec_hash (Read (arena f1) m) = rec_hash (Read (arena f) m)"
      "mset (all_hashes ts) = add_mset (rec_hash (Read (arena f) n)) (mset (all_hashes ts1))"
    using DeleteId_step [OF Cons.prems(1), of n] Cons.prems(3) x by auto
  have sub: "snd ` set nodes \<subseteq> set (all_leaves ts1)" using Cons.prems(2,3) 1(6) x by auto
  then have same: "map (\<lambda>x. rec_hash (Read (arena f1) (snd x))) nodes = map (\<lambda>x. rec_hash (Read (arena f) (snd x))) nodes"
    using 1(7) by (intro map_cong refl) auto
  obtain f' ts' where r: "delete_all nodes f1 = Some (Ok (), f')" "forest_inv f' ts'" "num_leaves f' = num_leaves f1"
      "online f' = online f1" "card (live_ids (arena f')) \<le> card (live_ids (arena f1))"
      "mset (all_hashes ts1) = mset (map (\<lambda>x. rec_hash (Read (arena f1) (snd x))) nodes) + mset (all_hashes ts')"
    using Cons.IH [OF 1(2) _ sub] Cons.prems(2) by auto
  have "mset (all_hashes ts) = mset (map (\<lambda>x. rec_hash (Read (arena f) (snd x))) (x # nodes)) + mset (all_hashes ts')"
    unfolding 1(8) r(6) same x by simp
  then show ?case using 1(1,3-5) r(1-5) x by (intro exI [of _ f'] exI [of _ ts']) simp
qed auto

lemma find_deletions_Ok:
  assumes inv: "forest_inv f ts" and R: "TreeRows (num_leaves f) \<le> 62"
    and "distinct dels" "set dels \<inter> seen = {}" "set dels \<subseteq> set (all_hashes ts)"
  shows "\<exists>ns. find_deletions f dels seen nodes = Some (Ok (nodes @ ns)) \<and> snd ` set ns \<subseteq> set (all_leaves ts) \<and>
    map (\<lambda>x. rec_hash (Read (arena f) (snd x))) ns = dels"
  using assms(3-5)
proof (induction dels arbitrary: seen nodes)
  case (Cons h dels)
  obtain n where n: "Find (arena f) (index f) h = Some n" using Find_leaf(1) [OF inv, of h] Cons.prems by fastforce
  note l = Find_leaf(2) [OF inv n]
  obtain pos where pos: "PositionOf f n = Some (Ok pos)" using PositionOf_leaf [OF inv R] l by blast
  obtain ns where "find_deletions f dels (insert h seen) (nodes @ [(pos, n)]) = Some (Ok ((nodes @ [(pos, n)]) @ ns))"
      "snd ` set ns \<subseteq> set (all_leaves ts)" "map (\<lambda>x. rec_hash (Read (arena f) (snd x))) ns = dels"
    using Cons.IH [of "insert h seen" "nodes @ [(pos, n)]"] Cons.prems by auto
  then show ?case using n pos l Cons.prems by (intro exI [of _ "(pos, n) # ns"]) auto
qed simp

lemma find_deletions_Err:
  assumes inv: "forest_inv f ts" and R: "TreeRows (num_leaves f) \<le> 62"
    and "\<not> (distinct dels \<and> set dels \<inter> seen = {} \<and> set dels \<subseteq> set (all_hashes ts))"
  shows "\<exists>e. find_deletions f dels seen nodes = Some (Err e)"
  using assms(3)
proof (induction dels arbitrary: seen nodes)
  case (Cons h dels)
  show ?case
  proof (cases "h \<in> seen \<or> h \<notin> set (all_hashes ts)")
    case True
    then show ?thesis using Find_leaf(1) [OF inv, of h] by auto
  next
    case False
    then obtain n where n: "Find (arena f) (index f) h = Some n" using Find_leaf(1) [OF inv, of h] by fastforce
    obtain pos where "PositionOf f n = Some (Ok pos)" using PositionOf_leaf [OF inv R] Find_leaf(2) [OF inv n] by blast
    then show ?thesis using n False Cons.IH [of "insert h seen" "nodes @ [(pos, n)]"] Cons.prems by auto
  qed
qed simp

section \<open>The additions\<close>

lemma add_all_correct:
  assumes "forest_inv f ts" "unat (num_leaves f) + length adds \<le> 2 ^ 62"
    and "card (live_ids (arena f)) + slots_needed (unat (num_leaves f)) (length adds) \<le> 2 ^ 32 - 1"
  shows "\<exists>f' ts'. add_all adds f = Some (Ok (), f') \<and> forest_inv f' ts' \<and>
    num_leaves f' = num_leaves f + of_nat (length adds) \<and> online f' = online f \<and>
    mset (all_hashes ts') = mset adds + mset (all_hashes ts)"
  using assms
proof (induction adds arbitrary: f ts)
  case (Cons h adds)
  have s: "slots_needed (unat (num_leaves f)) (length (h # adds)) =
      1 + trailing_ones (unat (num_leaves f)) + slots_needed (unat (num_leaves f) + 1) (length adds)"
    by (simp add: slots_needed_Suc)
  obtain f1 ts1 where 1: "Add f h = Some (Ok (), f1)" "forest_inv f1 ts1" "num_leaves f1 = num_leaves f + 1" "online f1 = online f"
      "mset (all_hashes ts1) = add_mset h (mset (all_hashes ts))"
      "card (live_ids (arena f1)) \<le> card (live_ids (arena f)) + 1 + trailing_ones (unat (num_leaves f))"
    using Add_refines [OF Cons.prems(1), of h] Cons.prems(2,3) s by auto
  have u: "unat (num_leaves f1) = unat (num_leaves f) + 1"
    using 1(3) Cons.prems(2) by (simp add: unat_word_ariths)
  obtain f' ts' where "add_all adds f1 = Some (Ok (), f')" "forest_inv f' ts'"
      "num_leaves f' = num_leaves f1 + of_nat (length adds)" "online f' = online f1"
      "mset (all_hashes ts') = mset adds + mset (all_hashes ts1)"
    using Cons.IH [OF 1(2)] Cons.prems(2,3) u 1(6) s by auto
  then show ?case using 1 by (intro exI [of _ f'] exI [of _ ts']) auto
next
  case Nil
  then show ?case by auto
qed

section \<open>The whole block\<close>

lemma sum_le_TreeRows: "unat n \<le> 2 ^ 62 \<Longrightarrow> TreeRows n \<le> 62"
  by (simp add: TreeRows_le_iff)

lemma sort_key_map_mset: "mset (map g (sort_key k xs)) = mset (map g xs)"
  by simp

lemma Modify_Ok:
  assumes inv: "forest_inv f ts" and N: "unat (num_leaves f) + length adds \<le> 2 ^ 62" and A: "length adds < 2 ^ 56"
    and dels: "distinct dels" "set dels \<subseteq> set (all_hashes ts)"
    and room: "card (live_ids (arena f)) + slots_needed (unat (num_leaves f)) (length adds) \<le> 2 ^ 32 - 1"
  shows "\<exists>f' ts'. Modify f adds dels = Some (Ok (), f') \<and> forest_inv f' ts' \<and>
    num_leaves f' = num_leaves f + of_nat (length adds) \<and> online f' = online f \<and>
    mset (all_hashes ts') + mset dels = mset (all_hashes ts) + mset adds"
proof -
  have R: "TreeRows (num_leaves f) \<le> 62" using N by (intro sum_le_TreeRows) simp
  obtain ns where ns: "find_deletions f dels {} [] = Some (Ok ns)" "snd ` set ns \<subseteq> set (all_leaves ts)"
      "map (\<lambda>x. rec_hash (Read (arena f) (snd x))) ns = dels"
    using find_deletions_Ok [OF inv R dels(1) _ dels(2), of "{}" "[]"] by auto
  obtain ix where ix: "PrepareModify f (length adds) (length dels) = Some (Ok (), f\<lparr>index := ix\<rparr>)" "forest_inv (f\<lparr>index := ix\<rparr>) ts"
    using PrepareModify_room [OF inv _ A, of "length dels"] N room by auto
  let ?f1 = "f\<lparr>index := ix\<rparr>" and ?ns = "sort_key fst ns"
  have "distinct (map (\<lambda>x. rec_hash (Read (arena f) x)) (map snd ns))" using ns(3) dels(1) by (simp add: comp_def)
  then have "distinct (map snd ns)" unfolding distinct_map by blast
  then have "distinct (map snd ?ns)" using sort_key_map_mset mset_eq_imp_distinct_iff by blast
  then obtain f2 ts2 where d: "delete_all ?ns ?f1 = Some (Ok (), f2)" "forest_inv f2 ts2" "num_leaves f2 = num_leaves f"
      "online f2 = online f" "card (live_ids (arena f2)) \<le> card (live_ids (arena f))"
      "mset (all_hashes ts) = mset (map (\<lambda>x. rec_hash (Read (arena f) (snd x))) ?ns) + mset (all_hashes ts2)"
    using delete_all_correct [OF ix(2), of ?ns] ns(2) by auto
  have ms: "mset (all_hashes ts) = mset dels + mset (all_hashes ts2)" using d(6) ns(3) sort_key_map_mset by metis
  obtain f' ts' where a: "add_all adds f2 = Some (Ok (), f')" "forest_inv f' ts'"
      "num_leaves f' = num_leaves f2 + of_nat (length adds)" "online f' = online f2"
      "mset (all_hashes ts') = mset adds + mset (all_hashes ts2)"
    using add_all_correct [OF d(2), of adds] N room d(3,5) by auto
  show ?thesis
    using ns(1) ix(1) d(1,3,4) a ms by (intro exI [of _ f'] exI [of _ ts']) (simp add: Modify_def)
qed

lemma Modify_fails:
  assumes inv: "forest_inv f ts" and N: "unat (num_leaves f) + length adds \<le> 2 ^ 62" and A: "length adds < 2 ^ 56"
    and no: "\<not> (distinct dels \<and> set dels \<subseteq> set (all_hashes ts) \<and>
      card (live_ids (arena f)) + slots_needed (unat (num_leaves f)) (length adds) \<le> 2 ^ 32 - 1)"
  shows "\<exists>r ix. Modify f adds dels = Some (r, f\<lparr>index := ix\<rparr>) \<and> forest_inv (f\<lparr>index := ix\<rparr>) ts \<and> r \<noteq> Ok ()"
proof (cases "distinct dels \<and> set dels \<subseteq> set (all_hashes ts)")
  case False
  have R: "TreeRows (num_leaves f) \<le> 62" using N by (intro sum_le_TreeRows) simp
  obtain e where "find_deletions f dels {} [] = Some (Err e)" using find_deletions_Err [OF inv R, of dels "{}" "[]"] False by auto
  then show ?thesis using inv by (intro exI [of _ "Err e"] exI [of _ "index f"]) (simp add: Modify_def)
next
  case True
  have R: "TreeRows (num_leaves f) \<le> 62" using N by (intro sum_le_TreeRows) simp
  obtain ns where ns: "find_deletions f dels {} [] = Some (Ok ns)"
    using find_deletions_Ok [OF inv R, of dels "{}" "[]"] True by auto
  obtain ix e where "PrepareModify f (length adds) (length dels) = Some (Throw e, f\<lparr>index := ix\<rparr>)" "forest_inv (f\<lparr>index := ix\<rparr>) ts"
    using PrepareModify_room [OF inv _ A, of "length dels"] N no True by auto
  then show ?thesis using ns by (intro exI [of _ "Throw e"] exI [of _ ix]) (simp add: Modify_def)
qed

lemma empty_forest_facts: "live_ids (arena empty_forest) = {}" "num_leaves empty_forest = 0" "online empty_forest = False"
  by (simp_all add: live_ids_def Live_iff empty_arena_def empty_forest_def)

section \<open>Properties\<close>

text \<open>C4: Adding a leaf refines the specification on bare trees: the new leaf is carried through the
  rows of trailing ones of the leaf count, joining the tree it finds in each, and every other tree
  stays as it is. It always succeeds while the arena has room, terminates, keeps the invariant of the
  forest and makes the leaf findable.\<close>

theorem Add_correct:
  assumes "forest_inv f ts" "unat (num_leaves f) < 2 ^ 63"
    and "card (live_ids (arena f)) + 1 + trailing_ones (unat (num_leaves f)) \<le> 2 ^ 32 - 1"
  shows "\<exists>f' ts'. Add f h = Some (Ok (), f') \<and> forest_inv f' ts' \<and> num_leaves f' = num_leaves f + 1 \<and>
    forest_abs ts' = add_spec (unat (num_leaves f)) 0 (HLeaf h) (forest_abs ts) \<and> Contains f' h"
proof -
  obtain f' ts' where f': "Add f h = Some (Ok (), f')" "forest_inv f' ts'" "num_leaves f' = num_leaves f + 1"
      "forest_abs ts' = add_spec (unat (num_leaves f)) 0 (HLeaf h) (forest_abs ts)"
      "mset (all_hashes ts') = add_mset h (mset (all_hashes ts))"
    using Add_refines [OF assms] by blast
  have "h \<in> set (all_hashes ts')" using f'(5) by (metis set_mset_mset union_single_eq_member)
  then show ?thesis using f' Find_leaf(1) [OF f'(2), of h] by (auto simp: Contains_def)
qed

theorem Add_correct_witness:
  "\<exists>f' ts'. Add empty_forest null_hash = Some (Ok (), f') \<and> forest_inv f' ts' \<and> num_leaves f' = 1 \<and>
     forest_abs ts' = (replicate 64 None)[0 := Some (HLeaf null_hash)] \<and> Contains f' null_hash"
  using Add_correct [OF empty_forest_inv, of null_hash] empty_forest_facts
  by (simp add: trailing_ones.simps [of 0] add_spec.simps [of 0] forest_abs_def)

text \<open>C5: Deleting a leaf refines the specification on trees: its sibling takes the place of their
  parent, the hashes on the path to the root are recomputed, no other tree changes and exactly the one
  leaf leaves the forest.\<close>

theorem Delete_correct:
  assumes "forest_inv f ts" "h \<in> set (all_hashes ts)" "\<not> online f"
  shows "\<exists>n f'. Find (arena f) (index f) h = Some n \<and> PackedForest_Delete f h = Some (Ok (), f') \<and>
    forest_inv f' (delete_forest n ts) \<and> num_leaves f' = num_leaves f \<and>
    mset (all_hashes ts) = add_mset h (mset (all_hashes (delete_forest n ts)))"
proof -
  obtain n where n: "Find (arena f) (index f) h = Some n" using Find_leaf(1) [OF assms(1), of h] assms(2) by fastforce
  note l = Find_leaf(2) [OF assms(1) n]
  show ?thesis
    using n DeleteId_refines [OF assms(1), of n] delete_forest_mset [OF assms(1), of n] l assms(3)
    by (auto simp: PackedForest_Delete_def)
qed

theorem Delete_correct_witness:
  "\<exists>f ts n f'. forest_inv f ts \<and> num_leaves f = 2 \<and> PackedForest_Delete f null_hash = Some (Ok (), f') \<and>
     forest_inv f' (delete_forest n ts)"
proof -
  obtain f ts where e: "forest_inv f ts" "num_leaves f = 2" "\<not> online f" "set (all_hashes ts) = {null_hash}"
    using two_leaf_forest [of null_hash null_hash] by auto
  show ?thesis using Delete_correct [OF e(1) _ e(3), of null_hash] e by blast
qed



end
