(* ===== verification/Sync.thy ===== *)
theory Sync
  imports BlockParse ForestModify
begin

text \<open>
  Sequential synchronisation (\<^verbatim>\<open>src/src/sync.cpp\<close>): the processed chain, connecting the next block, and
  rolling back. The block source and the forest are interfaces (\<open>BlockSource\<close> is abstract in the code;
  the forest is used through five operations), given as records of operations on a state of any
  type; the operations of the in-memory forest are \<open>ram_ops\<close>. The clock readings that only fill the
  metrics are left out. The callback before a mutation is an event of the trace \<open>m_events\<close>, as is every
  call that may change the forest. The prefetch thread is a sequence of its own steps, interleaved with
  the main thread by the relation \<open>sync_run\<close>; \<open>NextFetchedBlock\<close> applies to states in which its wait is over.
\<close>

section \<open>Interfaces\<close>

record FetchedBlock =
  fb_height :: u32
  fb_hash :: hash256
  fb_json :: RawJsonValue

record 's source_ops =
  op_TipHeight :: "'s \<Rightarrow> u32 Result \<times> 's"
  op_BlockHash :: "u32 \<Rightarrow> 's \<Rightarrow> hash256 Result \<times> 's"
  op_FetchBlock :: "u32 \<Rightarrow> 's \<Rightarrow> FetchedBlock Result \<times> 's"

record 'f forest_ops =
  op_IsOnline :: "'f \<Rightarrow> bool"
  op_ModifyBlock :: "hash256 list \<Rightarrow> hash256 list \<Rightarrow> ChainPoint \<Rightarrow> 'f \<Rightarrow> unit Result \<times> 'f"
  op_RollbackOnlineBlock :: "'f \<Rightarrow> ChainPoint Result \<times> 'f"
  op_Prove :: "hash256 list \<Rightarrow> 'f \<Rightarrow> Proof Result"
  op_Roots :: "'f \<Rightarrow> hash256 option list"
  op_NumLeaves :: "'f \<Rightarrow> u64"

text \<open>The forest without online storage.\<close>

definition ram_ModifyBlock :: "hash256 list \<Rightarrow> hash256 list \<Rightarrow> ChainPoint \<Rightarrow> forest \<Rightarrow> unit Result \<times> forest" where
  "ram_ModifyBlock added deleted point f = (case Modify f added deleted of Some (r, f') \<Rightarrow> (r, f') | None \<Rightarrow> (Throw ''no result'', f))"

definition ram_ops :: "forest forest_ops" where
  "ram_ops =
     \<lparr>op_IsOnline = online, op_ModifyBlock = ram_ModifyBlock,
      op_RollbackOnlineBlock = (\<lambda>f. (Err ''forest is not using online storage'', f)),
      op_Prove = (\<lambda>hs f. case Prove f hs of Some r \<Rightarrow> r | None \<Rightarrow> Throw ''no result''),
      op_Roots = Roots, op_NumLeaves = num_leaves\<rparr>"

section \<open>State\<close>

record PrefetchState =
  pf_next :: "u32 option"
  pf_target :: u32
  pf_queue :: "(u32 \<times> FetchedBlock Result) list"
  pf_exception :: "string option"
  pf_stop :: bool
  pf_done :: bool

datatype sync_event = BeforeMutation | ForestMutation

record ('s, 'f) sync =
  m_source :: 's
  m_forest :: 'f
  m_chain_hashes :: "hash256 list"
  m_prefetch :: "PrefetchState option"
  m_generate_proofs :: bool
  m_proof_policy :: "(BlockDelta \<Rightarrow> bool Result) option"
  m_before_mutation :: bool
  m_events :: "sync_event list"

record ProcessedBlock =
  pb_delta :: BlockDelta
  pb_proof :: "Proof option"

definition SequentialSync :: "'s \<Rightarrow> 'f \<Rightarrow> hash256 list \<Rightarrow> ('s, 'f) sync" where
  "SequentialSync src f chain =
     \<lparr>m_source = src, m_forest = f, m_chain_hashes = chain, m_prefetch = None, m_generate_proofs = False,
      m_proof_policy = None, m_before_mutation = False, m_events = []\<rparr>"

definition SetProofGeneration :: "bool \<Rightarrow> ('s, 'f) sync \<Rightarrow> ('s, 'f) sync" where
  "SetProofGeneration enabled st = st\<lparr>m_generate_proofs := enabled\<rparr>"

definition SetProofGenerationPolicy :: "(BlockDelta \<Rightarrow> bool Result) \<Rightarrow> ('s, 'f) sync \<Rightarrow> ('s, 'f) sync" where
  "SetProofGenerationPolicy policy st = st\<lparr>m_proof_policy := Some policy\<rparr>"

definition SetBeforeMutation :: "('s, 'f) sync \<Rightarrow> ('s, 'f) sync" where
  "SetBeforeMutation st = st\<lparr>m_before_mutation := True\<rparr>"

definition CurrentPoint :: "('s, 'f) sync \<Rightarrow> ChainPoint option" where
  "CurrentPoint st =
     (if m_chain_hashes st = [] then None
      else Some \<lparr>height = of_nat (length (m_chain_hashes st) - 1), point_hash = last (m_chain_hashes st)\<rparr>)"

definition call_before_mutation :: "('s, 'f) sync \<Rightarrow> ('s, 'f) sync" where
  "call_before_mutation st = (if m_before_mutation st then st\<lparr>m_events := m_events st @ [BeforeMutation]\<rparr> else st)"

definition TipHeight :: "'s source_ops \<Rightarrow> ('s, 'f) sync \<Rightarrow> u32 Result \<times> ('s, 'f) sync" where
  "TipHeight src st = (let (r, s) = op_TipHeight src (m_source st) in (r, st\<lparr>m_source := s\<rparr>))"

definition source_BlockHash :: "'s source_ops \<Rightarrow> u32 \<Rightarrow> ('s, 'f) sync \<Rightarrow> hash256 Result \<times> ('s, 'f) sync" where
  "source_BlockHash src h st = (let (r, s) = op_BlockHash src h (m_source st) in (r, st\<lparr>m_source := s\<rparr>))"

section \<open>Prefetching\<close>

definition StartPrefetch :: "u32 \<Rightarrow> ('s, 'f) sync \<Rightarrow> unit Result \<times> ('s, 'f) sync" where
  "StartPrefetch target_height st =
     (if m_prefetch st \<noteq> None then (Err ''block prefetch is already active'', st)
      else if length (m_chain_hashes st) > unat target_height + 1 then (Ok (), st)
      else (Ok (), st\<lparr>m_prefetch := Some \<lparr>pf_next = Some (of_nat (length (m_chain_hashes st))), pf_target = target_height, pf_queue = [],
                                        pf_exception = None, pf_stop = False, pf_done = False\<rparr>\<rparr>))"

text \<open>The worker: one round of its loop, when its wait is over and it was not stopped; and its end.\<close>

definition worker_can_fetch :: "PrefetchState \<Rightarrow> bool" where
  "worker_can_fetch p \<longleftrightarrow> (case pf_next p of None \<Rightarrow> False | Some h \<Rightarrow> h \<le> pf_target p \<and> \<not> pf_stop p \<and> length (pf_queue p) < 2)"

definition worker_fetch :: "'s source_ops \<Rightarrow> PrefetchState \<Rightarrow> ('s, 'f) sync \<Rightarrow> ('s, 'f) sync" where
  "worker_fetch src p st =
     (case pf_next p of
        None \<Rightarrow> st
      | Some h \<Rightarrow>
          (case op_FetchBlock src h (m_source st) of
             (Throw e, s) \<Rightarrow> st\<lparr>m_source := s, m_prefetch := Some (p\<lparr>pf_next := None, pf_exception := Some e\<rparr>)\<rparr>
           | (fetched, s) \<Rightarrow>
               st\<lparr>m_source := s,
                  m_prefetch := Some (p\<lparr>pf_queue := pf_queue p @ [(h, fetched)],
                                        pf_next := (if \<not> HasValue fetched \<or> h = - 1 then None else Some (h + 1))\<rparr>)\<rparr>))"

definition worker_can_end :: "PrefetchState \<Rightarrow> bool" where
  "worker_can_end p \<longleftrightarrow> (case pf_next p of None \<Rightarrow> True | Some h \<Rightarrow> h > pf_target p \<or> pf_stop p)"

definition worker_end :: "PrefetchState \<Rightarrow> ('s, 'f) sync \<Rightarrow> ('s, 'f) sync" where
  "worker_end p st = st\<lparr>m_prefetch := Some (p\<lparr>pf_done := True\<rparr>)\<rparr>"

text \<open>Stopping sets the flag, waits for the worker's end and drops the queue.\<close>

definition StopPrefetch :: "('s, 'f) sync \<Rightarrow> ('s, 'f) sync" where
  "StopPrefetch st = st\<lparr>m_prefetch := None\<rparr>"

definition fetch_ready :: "('s, 'f) sync \<Rightarrow> bool" where
  "fetch_ready st \<longleftrightarrow> (case m_prefetch st of None \<Rightarrow> True | Some p \<Rightarrow> pf_queue p \<noteq> [] \<or> pf_done p)"

definition NextFetchedBlock :: "'s source_ops \<Rightarrow> u32 \<Rightarrow> ('s, 'f) sync \<Rightarrow> FetchedBlock Result \<times> ('s, 'f) sync" where
  "NextFetchedBlock src h st =
     (case m_prefetch st of
        None \<Rightarrow> (let (r, s) = op_FetchBlock src h (m_source st) in (r, st\<lparr>m_source := s\<rparr>))
      | Some p \<Rightarrow>
          (case pf_queue p of
             [] \<Rightarrow>
               (case pf_exception p of
                  Some e \<Rightarrow> (Err (''block prefetch failed: '' @ e), st)
                | None \<Rightarrow> (Err ''block prefetch ended before the requested height'', st))
           | (item_height, item_result) # rest \<Rightarrow>
               (if item_height \<noteq> h then Err ''block prefetch returned a non-contiguous height'' else item_result,
                st\<lparr>m_prefetch := Some (p\<lparr>pf_queue := rest\<rparr>)\<rparr>)))"

section \<open>Reconciling and rolling back\<close>

definition ValidateCurrentPoint :: "'s source_ops \<Rightarrow> ('s, 'f) sync \<Rightarrow> unit Result \<times> ('s, 'f) sync" where
  "ValidateCurrentPoint src st =
     (case CurrentPoint st of
        None \<Rightarrow> (Err ''cannot validate an empty chain point'', st)
      | Some point \<Rightarrow>
          (case source_BlockHash src (height point) st of
             (Ok active_hash, st1) \<Rightarrow>
               (if active_hash \<noteq> point_hash point
                then Err ''active-chain reorganization detected at or below the sidecar tip; restore the last stable checkpoint''
                else Ok (), st1)
           | (Err e, st1) \<Rightarrow> (Err e, st1)
           | (Throw e, st1) \<Rightarrow> (Throw e, st1)))"

text \<open>One block back: the callback, the forest's rollback, and the check that it went to the block before.\<close>

definition rollback_one :: "'f forest_ops \<Rightarrow> ChainPoint \<Rightarrow> ('s, 'f) sync \<Rightarrow> unit Result \<times> ('s, 'f) sync" where
  "rollback_one ops point st =
     (let st1 = call_before_mutation st;
          (r, f) = op_RollbackOnlineBlock ops (m_forest st1);
          st2 = st1\<lparr>m_forest := f, m_events := m_events st1 @ [ForestMutation]\<rparr>;
          chain = m_chain_hashes st2
      in case r of
           Err e \<Rightarrow> (Err e, st2)
         | Throw e \<Rightarrow> (Throw e, st2)
         | Ok back \<Rightarrow>
             if length chain < 2 \<or> height back + 1 \<noteq> height point \<or>
                \<not> (unat (height back) < length chain \<and> chain ! unat (height back) = point_hash back)
             then (Err ''online rollback returned a non-contiguous chain point'', st2)
             else (Ok (), st2\<lparr>m_chain_hashes := butlast chain\<rparr>))"

lemma rollback_one_chain:
  "rollback_one ops point st = (r, st') \<Longrightarrow> r = Ok () \<Longrightarrow> m_chain_hashes st' = butlast (m_chain_hashes st) \<and> 2 \<le> length (m_chain_hashes st)"
  by (auto simp: rollback_one_def call_before_mutation_def Let_def not_less split: prod.splits Result.splits if_splits)

lemma rollback_one_shorter: "rollback_one ops point st = (Ok u, st') \<Longrightarrow> length (m_chain_hashes st') < length (m_chain_hashes st)"
  using rollback_one_chain [of ops point st "Ok u" st'] by auto

function reconcile_loop :: "'f forest_ops \<Rightarrow> 's source_ops \<Rightarrow> u32 \<Rightarrow> ('s, 'f) sync \<Rightarrow> u32 Result \<times> ('s, 'f) sync" where
  "reconcile_loop ops src disconnected st =
     (case CurrentPoint st of
        None \<Rightarrow> (Err ''cannot reconcile an empty chain point'', st)
      | Some point \<Rightarrow>
          (case source_BlockHash src (height point) st of
             (Err e, st1) \<Rightarrow> (Err e, st1)
           | (Throw e, st1) \<Rightarrow> (Throw e, st1)
           | (Ok active_hash, st1) \<Rightarrow>
               if active_hash = point_hash point then (Ok disconnected, st1)
               else if \<not> op_IsOnline ops (m_forest st1)
               then (Err ''active-chain reorganization requires online WAL before-images or checkpoint restore'', st1)
               else case rollback_one ops point st1 of
                      (Ok _, st2) \<Rightarrow> reconcile_loop ops src (disconnected + 1) st2
                    | (Err e, st2) \<Rightarrow> (Err e, st2)
                    | (Throw e, st2) \<Rightarrow> (Throw e, st2)))"
  by pat_completeness auto
termination
by (relation "measure (\<lambda>(ops, src, d, st). length (m_chain_hashes st))")
    (auto simp: source_BlockHash_def dest!: sym [of "(_, _)" "rollback_one _ _ _"] rollback_one_shorter split: prod.splits)

declare reconcile_loop.simps [simp del]

definition ReconcileCurrentPoint :: "'f forest_ops \<Rightarrow> 's source_ops \<Rightarrow> ('s, 'f) sync \<Rightarrow> u32 Result \<times> ('s, 'f) sync" where
  "ReconcileCurrentPoint ops src st = reconcile_loop ops src 0 st"

function rollback_loop :: "'f forest_ops \<Rightarrow> u32 \<Rightarrow> u32 \<Rightarrow> ('s, 'f) sync \<Rightarrow> u32 Result \<times> ('s, 'f) sync" where
  "rollback_loop ops target_height disconnected st =
     (if \<not> length (m_chain_hashes st) - 1 > unat target_height then (Ok disconnected, st)
      else case CurrentPoint st of
             None \<Rightarrow> (Err ''online rollback returned a non-contiguous chain point'', st)
           | Some previous \<Rightarrow>
               (case rollback_one ops previous st of
                  (Ok _, st1) \<Rightarrow> rollback_loop ops target_height (disconnected + 1) st1
                | (Err e, st1) \<Rightarrow> (Err e, st1)
                | (Throw e, st1) \<Rightarrow> (Throw e, st1)))"
  by pat_completeness auto
termination
by (relation "measure (\<lambda>(ops, h, d, st). length (m_chain_hashes st))")
    (auto dest!: sym [of "(_, _)" "rollback_one _ _ _"] rollback_one_shorter)

declare rollback_loop.simps [simp del]

definition RollbackTo :: "'f forest_ops \<Rightarrow> ChainPoint \<Rightarrow> ('s, 'f) sync \<Rightarrow> u32 Result \<times> ('s, 'f) sync" where
  "RollbackTo ops target st =
     (case CurrentPoint st of
        None \<Rightarrow> (Err ''cannot roll back an empty chain point'', st)
      | Some current \<Rightarrow>
          if height target > height current then (Err ''rollback target is above the current point'', st)
          else if \<not> op_IsOnline ops (m_forest st) \<and> target \<noteq> current
          then (Err ''explicit rollback requires online WAL before-images'', st)
          else case rollback_loop ops (height target) 0 st of
                 (Ok disconnected, st1) \<Rightarrow>
                   (if CurrentPoint st1 \<noteq> Some target then Err ''rollback target hash is not in the retained online chain'' else Ok disconnected, st1)
               | (Err e, st1) \<Rightarrow> (Err e, st1)
               | (Throw e, st1) \<Rightarrow> (Throw e, st1))"

section \<open>Connecting the next block\<close>

definition chain_resolver :: "hash256 list \<Rightarrow> resolver" where
  "chain_resolver chain creation_height =
     (if unat creation_height \<ge> length chain then Err ''creation height is not in the processed chain-hash index''
      else Ok (chain ! unat creation_height))"

fun present_roots :: "hash256 option list \<Rightarrow> hash256 list option" where
  "present_roots [] = Some []"
| "present_roots (None # rs) = None"
| "present_roots (Some r # rs) = map_option (\<lambda>hs. r # hs) (present_roots rs)"

text \<open>The proof of the deletions against the forest before the block, generated and verified.\<close>

definition pre_block_proof :: "'f forest_ops \<Rightarrow> hash256 list \<Rightarrow> 'f \<Rightarrow> Proof Result" where
  "pre_block_proof ops deleted f =
     (case op_Prove ops deleted f of
        Err e \<Rightarrow> Err (''could not generate pre-block proof: '' @ e)
      | Throw e \<Rightarrow> Throw e
      | Ok pf \<Rightarrow>
          (case present_roots (op_Roots ops f) of
             None \<Rightarrow> Err ''pre-block forest contains a missing root''
           | Some rs \<Rightarrow>
               (case VerifyProof pf deleted rs (op_NumLeaves ops f) of
                  Err e \<Rightarrow> Err (''could not verify generated pre-block proof: '' @ e)
                | Throw e \<Rightarrow> Throw e
                | Ok verified \<Rightarrow> if verified then Ok pf else Err ''generated pre-block proof does not match forest roots'')))"

definition proof_decision :: "BlockDelta \<Rightarrow> ('s, 'f) sync \<Rightarrow> bool Result" where
  "proof_decision delta st =
     (case m_proof_policy st of
        None \<Rightarrow> Ok (m_generate_proofs st)
      | Some policy \<Rightarrow>
          (case policy delta of
             Ok b \<Rightarrow> Ok b
           | Err e \<Rightarrow> Err (''proof-generation policy failed: '' @ e)
           | Throw e \<Rightarrow> Throw e))"

text \<open>From the fetched block to the transition and the proof; nothing has changed yet.\<close>

definition check_block ::
    "'f forest_ops \<Rightarrow> (string \<Rightarrow> UniValue option) \<Rightarrow> FetchedBlock \<Rightarrow> ('s, 'f) sync \<Rightarrow> (BlockDelta \<times> Proof option) Result" where
  "check_block ops read fetched st =
     (let chain = m_chain_hashes st; h = of_nat (length chain)
      in if fb_height fetched \<noteq> h then Err ''fetched block height does not match the requested height''
         else and_then (ParseVerboseBlockJson read (raw_Value (fb_json fetched)) (chain_resolver chain)) (\<lambda>delta.
           if height (delta_point delta) \<noteq> h \<or> point_hash (delta_point delta) \<noteq> fb_hash fetched
           then Err ''getblock result does not match the requested active-chain block''
           else if h > 0 \<and> previous_block_hash delta \<noteq> last chain then Err ''block does not connect to the sidecar chain tip''
           else and_then (proof_decision delta st) (\<lambda>generate.
             if generate then and_then (pre_block_proof ops (deletions delta) (m_forest st)) (\<lambda>pf. Ok (delta, Some pf))
             else Ok (delta, None))))"

definition connect_block ::
    "'f forest_ops \<Rightarrow> FetchedBlock \<Rightarrow> BlockDelta \<Rightarrow> Proof option \<Rightarrow> ('s, 'f) sync \<Rightarrow> ProcessedBlock Result \<times> ('s, 'f) sync" where
  "connect_block ops fetched delta pf st =
     (let st1 = call_before_mutation st;
          st2 = st1\<lparr>m_chain_hashes := m_chain_hashes st1 @ [fb_hash fetched]\<rparr>;
          (r, f) = op_ModifyBlock ops (additions delta) (deletions delta) (delta_point delta) (m_forest st2);
          st3 = st2\<lparr>m_forest := f, m_events := m_events st2 @ [ForestMutation]\<rparr>
      in case r of
           Ok _ \<Rightarrow> (Ok \<lparr>pb_delta = delta, pb_proof = pf\<rparr>, st3)
         | Err e \<Rightarrow> (Err (''could not apply block transition: '' @ e), st3\<lparr>m_chain_hashes := butlast (m_chain_hashes st3)\<rparr>)
         | Throw e \<Rightarrow> (Throw e, st3\<lparr>m_chain_hashes := butlast (m_chain_hashes st3)\<rparr>))"

definition ProcessNext ::
    "'f forest_ops \<Rightarrow> 's source_ops \<Rightarrow> (string \<Rightarrow> UniValue option) \<Rightarrow> ('s, 'f) sync \<Rightarrow> ProcessedBlock Result \<times> ('s, 'f) sync" where
  "ProcessNext ops src read st =
     (if length (m_chain_hashes st) > 2 ^ 32 - 1 then (Err ''chain height exceeds the sidecar format'', st)
      else case NextFetchedBlock src (of_nat (length (m_chain_hashes st))) st of
             (Err e, st1) \<Rightarrow> (Err e, st1)
           | (Throw e, st1) \<Rightarrow> (Throw e, st1)
           | (Ok fetched, st1) \<Rightarrow>
               (case check_block ops read fetched st1 of
                  Err e \<Rightarrow> (Err e, st1)
                | Throw e \<Rightarrow> (Throw e, st1)
                | Ok (delta, pf) \<Rightarrow> connect_block ops fetched delta pf st1))"

lemma NextFetchedBlock_keeps:
  "NextFetchedBlock src h st = (x, st1) \<Longrightarrow>
     m_chain_hashes st1 = m_chain_hashes st \<and> m_forest st1 = m_forest st \<and> m_events st1 = m_events st \<and> m_before_mutation st1 = m_before_mutation st"
  by (auto simp: NextFetchedBlock_def Let_def split: option.splits list.splits prod.splits)

lemma present_roots_Some: "present_roots xs = Some rs \<longleftrightarrow> xs = map Some rs"
  by (induction xs arbitrary: rs rule: present_roots.induct) (auto simp: map_eq_Cons_conv Cons_eq_map_conv)

lemma pre_block_proof_Ok:
  "pre_block_proof ops deleted f = Ok pf \<Longrightarrow>
     \<exists>rs. op_Roots ops f = map Some rs \<and> VerifyProof pf deleted rs (op_NumLeaves ops f) = Ok True"
  by (auto simp: pre_block_proof_def present_roots_Some split: Result.splits option.splits if_splits)

lemma check_block_Ok:
  assumes "check_block ops read fetched st = Ok (delta, pf)"
  shows "ParseVerboseBlockJson read (raw_Value (fb_json fetched)) (chain_resolver (m_chain_hashes st)) = Ok delta"
    "height (delta_point delta) = of_nat (length (m_chain_hashes st))" "point_hash (delta_point delta) = fb_hash fetched"
    "(of_nat (length (m_chain_hashes st)) :: u32) > 0 \<Longrightarrow> previous_block_hash delta = last (m_chain_hashes st)"
    "pf = Some p \<Longrightarrow> \<exists>rs. op_Roots ops (m_forest st) = map Some rs \<and> VerifyProof p (deletions delta) rs (op_NumLeaves ops (m_forest st)) = Ok True"
  using assms pre_block_proof_Ok [of ops "deletions delta" "m_forest st" p]
  by (auto simp: check_block_def Let_def and_then_Ok_iff split: if_splits)

section \<open>What a forest promises\<close>

text \<open>The leaves a forest holds, as a multiset, and a bound on its leaf count.\<close>

locale block_forest =
  fixes ops :: "'f forest_ops"
    and holds :: "'f \<Rightarrow> hash256 multiset \<Rightarrow> nat \<Rightarrow> bool"
  assumes modify_ok: "holds f M n \<Longrightarrow> n + length added \<le> 2 ^ 62 \<Longrightarrow> length added < 2 ^ 56 \<Longrightarrow>
      op_ModifyBlock ops added deleted point f = (Ok u, f') \<Longrightarrow>
      mset deleted \<subseteq># M \<and> (\<exists>N. N + mset deleted = M + mset added \<and> holds f' N (n + length added))"
    and modify_fails: "holds f M n \<Longrightarrow> n + length added \<le> 2 ^ 62 \<Longrightarrow> length added < 2 ^ 56 \<Longrightarrow>
      op_ModifyBlock ops added deleted point f = (r, f') \<Longrightarrow> \<not> HasValue r \<Longrightarrow> holds f' M n"
begin

lemma connect_block_keeps:
  assumes "holds (m_forest st) M n" "n + length (additions delta) \<le> 2 ^ 62" "length (additions delta) < 2 ^ 56"
    "connect_block ops fetched delta pf st = (r, st')"
  shows "case r of
      Ok pb \<Rightarrow> pb = \<lparr>pb_delta = delta, pb_proof = pf\<rparr> \<and> m_chain_hashes st' = m_chain_hashes st @ [fb_hash fetched] \<and>
        mset (deletions delta) \<subseteq># M \<and>
        (\<exists>N. N + mset (deletions delta) = M + mset (additions delta) \<and> holds (m_forest st') N (n + length (additions delta)))
    | _ \<Rightarrow> m_chain_hashes st' = m_chain_hashes st \<and> holds (m_forest st') M n"
proof -
  obtain m f where m: "op_ModifyBlock ops (additions delta) (deletions delta) (delta_point delta) (m_forest st) = (m, f)" by force
  have c: "m_forest (call_before_mutation st) = m_forest st" "m_chain_hashes (call_before_mutation st) = m_chain_hashes st"
    by (simp_all add: call_before_mutation_def)
  show ?thesis
    using assms(4) m modify_ok [OF assms(1-3)] modify_fails [OF assms(1-3) m]
    by (cases m) (auto simp: connect_block_def Let_def c)
qed

lemma ProcessNext_keeps:
  assumes "holds (m_forest st) M n"
    "\<forall>raw d. ParseVerboseBlockJson read raw (chain_resolver (m_chain_hashes st)) = Ok d \<longrightarrow> n + length (additions d) \<le> 2 ^ 62 \<and> length (additions d) < 2 ^ 56"
    "ProcessNext ops src read st = (r, st')"
  shows "case r of
      Ok pb \<Rightarrow> m_chain_hashes st' = m_chain_hashes st @ [point_hash (delta_point (pb_delta pb))] \<and>
        height (delta_point (pb_delta pb)) = of_nat (length (m_chain_hashes st)) \<and>
        (m_chain_hashes st \<noteq> [] \<longrightarrow> previous_block_hash (pb_delta pb) = last (m_chain_hashes st)) \<and>
        mset (deletions (pb_delta pb)) \<subseteq># M \<and>
        (\<exists>N. N + mset (deletions (pb_delta pb)) = M + mset (additions (pb_delta pb)) \<and> holds (m_forest st') N (n + length (additions (pb_delta pb)))) \<and>
        (\<forall>pf. pb_proof pb = Some pf \<longrightarrow> (\<exists>rs. op_Roots ops (m_forest st) = map Some rs \<and>
           VerifyProof pf (deletions (pb_delta pb)) rs (op_NumLeaves ops (m_forest st)) = Ok True))
    | _ \<Rightarrow> m_chain_hashes st' = m_chain_hashes st \<and> holds (m_forest st') M n"
proof -
  obtain x st1 where x: "NextFetchedBlock src (of_nat (length (m_chain_hashes st))) st = (x, st1)" by force
  have kept: "m_chain_hashes st1 = m_chain_hashes st" "m_forest st1 = m_forest st" using NextFetchedBlock_keeps [OF x] by auto
  show ?thesis
  proof (cases "\<exists>fetched delta pf. length (m_chain_hashes st) \<le> 2 ^ 32 - 1 \<and> x = Ok fetched \<and> check_block ops read fetched st1 = Ok (delta, pf)")
    case False
    then have "\<not> HasValue r \<and> (st' = st \<or> st' = st1)" using assms(3) x
      by (auto simp: ProcessNext_def not_le split: if_splits Result.splits prod.splits)
    then show ?thesis using assms(1) kept by (cases r) auto
  next
    case True
    then obtain fetched delta pf where c: "length (m_chain_hashes st) \<le> 2 ^ 32 - 1" "x = Ok fetched" "check_block ops read fetched st1 = Ok (delta, pf)" by blast
    note cb = check_block_Ok [OF c(3), unfolded kept]
    have e: "connect_block ops fetched delta pf st1 = (r, st')" using assms(3) x c by (auto simp: ProcessNext_def not_less)
    have l: "m_chain_hashes st \<noteq> [] \<Longrightarrow> (of_nat (length (m_chain_hashes st)) :: u32) > 0"
      using c(1) by (simp add: word_less_nat_alt unsigned_of_nat take_bit_nat_eq_self)
    show ?thesis
      using connect_block_keeps [OF _ _ _ e, of M n] assms(1) assms(2) [rule_format, OF cb(1)] kept cb l by (cases r) auto
  qed
qed

end

definition ram_holds :: "forest \<Rightarrow> hash256 multiset \<Rightarrow> nat \<Rightarrow> bool" where
  "ram_holds f M n \<longleftrightarrow> (\<exists>ts. forest_inv f ts \<and> mset (all_hashes ts) = M \<and> unat (num_leaves f) = n \<and> \<not> online f)"

lemma ram_ModifyBlock_cases:
  assumes "ram_holds f M n" "n + length added \<le> 2 ^ 62" "length added < 2 ^ 56" "ram_ModifyBlock added deleted point f = (r, f')"
  shows "if r = Ok () then mset deleted \<subseteq># M \<and> (\<exists>N. N + mset deleted = M + mset added \<and> ram_holds f' N (n + length added))
    else ram_holds f' M n"
proof -
  obtain ts where ts: "forest_inv f ts" "mset (all_hashes ts) = M" "unat (num_leaves f) = n" "\<not> online f" using assms(1) by (auto simp: ram_holds_def)
  have n: "unat (num_leaves f) + length added \<le> 2 ^ 62" using ts(3) assms(2) by simp
  show ?thesis
  proof (cases "distinct deleted \<and> set deleted \<subseteq> set (all_hashes ts) \<and>
      card (live_ids (arena f)) + slots_needed (unat (num_leaves f)) (length added) \<le> 2 ^ 32 - 1")
    case True
    then obtain g ts' where g: "Modify f added deleted = Some (Ok (), g)" "forest_inv g ts'" "num_leaves g = num_leaves f + of_nat (length added)"
      "online g = online f" "mset (all_hashes ts') + mset deleted = mset (all_hashes ts) + mset added"
      using Modify_Ok [OF ts(1) n assms(3), of deleted] by blast
    have "unat (num_leaves g) = n + length added" unfolding g(3)
      using assms(2) ts(3) by (simp add: unat_word_ariths(1) unsigned_of_nat take_bit_nat_eq_self)
    then have h: "ram_holds f' (mset (all_hashes ts')) (n + length added)" "r = Ok ()"
      using g ts(4) assms(4) by (auto simp: ram_holds_def ram_ModifyBlock_def)
    have "mset deleted \<subseteq># M" unfolding ts(2) [symmetric] subseteq_mset_def
    proof
      fix a
      have "count (mset deleted) a \<le> (if a \<in> set deleted then 1 else 0)" using True by (simp add: distinct_count_atmost_1)
      also have "\<dots> \<le> count (mset (all_hashes ts)) a" using True by (auto simp: count_greater_eq_one_iff)
      finally show "count (mset deleted) a \<le> count (mset (all_hashes ts)) a" .
    qed
    then show ?thesis using h g(5) ts(2) by auto
  next
    case False
    then obtain r' ix where "Modify f added deleted = Some (r', f\<lparr>index := ix\<rparr>)" "forest_inv (f\<lparr>index := ix\<rparr>) ts" "r' \<noteq> Ok ()"
      using Modify_fails [OF ts(1) n assms(3) False] by blast
    then show ?thesis using assms(4) ts by (auto simp: ram_ModifyBlock_def ram_holds_def)
  qed
qed

interpretation ram: block_forest ram_ops ram_holds
proof
  fix f M n added deleted point u f'
  assume "ram_holds f M n" "n + length added \<le> 2 ^ 62" "length added < 2 ^ 56" "op_ModifyBlock ram_ops added deleted point f = (Ok u, f')"
  then show "mset deleted \<subseteq># M \<and> (\<exists>N. N + mset deleted = M + mset added \<and> ram_holds f' N (n + length added))"
    using ram_ModifyBlock_cases [of f M n added deleted point "Ok ()" f'] by (simp add: ram_ops_def)
next
  fix f M n added deleted point r f'
  assume "ram_holds f M n" "n + length added \<le> 2 ^ 62" "length added < 2 ^ 56" "op_ModifyBlock ram_ops added deleted point f = (r, f')" "\<not> HasValue r"
  then show "ram_holds f' M n" using ram_ModifyBlock_cases [of f M n added deleted point r f'] by (cases r) (simp_all add: ram_ops_def)
qed

section \<open>Rolling back\<close>

text \<open>The last \<open>k\<close> blocks are gone after \<open>c\<close> calls of the forest's rollback, each after the callback.\<close>

definition before_event :: "('s, 'f) sync \<Rightarrow> sync_event list" where
  "before_event st = (if m_before_mutation st then [BeforeMutation] else [])"

definition rolled_back :: "nat \<Rightarrow> nat \<Rightarrow> ('s, 'f) sync \<Rightarrow> ('s, 'f) sync \<Rightarrow> bool" where
  "rolled_back k c st st' \<longleftrightarrow> k \<le> c \<and> c \<le> k + 1 \<and> (k = 0 \<or> k < length (m_chain_hashes st)) \<and>
     m_chain_hashes st' = take (length (m_chain_hashes st) - k) (m_chain_hashes st) \<and> m_before_mutation st' = m_before_mutation st \<and>
     m_events st' = m_events st @ concat (replicate c (before_event st @ [ForestMutation]))"

lemma rolled_back_0: "m_chain_hashes st' = m_chain_hashes st \<Longrightarrow> m_before_mutation st' = m_before_mutation st \<Longrightarrow> m_events st' = m_events st \<Longrightarrow>
    rolled_back 0 0 st st'"
  by (simp add: rolled_back_def)

lemma rolled_back_Suc:
  assumes "m_chain_hashes st1 = butlast (m_chain_hashes st)" "2 \<le> length (m_chain_hashes st)" "m_before_mutation st1 = m_before_mutation st"
    "m_events st1 = m_events st @ before_event st @ [ForestMutation]" "rolled_back k c st1 st'"
  shows "rolled_back (Suc k) (Suc c) st st'"
proof -
  have "before_event st1 = before_event st" using assms(3) by (simp add: before_event_def)
  then show ?thesis using assms by (auto simp: rolled_back_def butlast_conv_take)
qed

lemma rollback_one_trace:
  assumes "rollback_one ops point st = (r, st')"
  shows "m_before_mutation st' = m_before_mutation st" "m_events st' = m_events st @ before_event st @ [ForestMutation]"
    "r \<noteq> Ok () \<Longrightarrow> m_chain_hashes st' = m_chain_hashes st" "m_source st' = m_source st"
  using assms
  by (auto simp: rollback_one_def call_before_mutation_def before_event_def Let_def split: prod.splits Result.splits if_splits)

lemma rollback_one_fails:
  assumes "rollback_one ops point st = (r, st')" "r \<noteq> Ok ()"
  shows "rolled_back 0 1 st st'"
  using rollback_one_trace [OF assms(1)] assms(2) by (simp add: rolled_back_def)

text \<open>A block that was disconnected was not the one the source reported.\<close>

definition inactive :: "'s source_ops \<Rightarrow> hash256 list \<Rightarrow> nat \<Rightarrow> bool" where
  "inactive src chain i \<longleftrightarrow> (\<exists>s s' h. op_BlockHash src (of_nat i) s = (Ok h, s') \<and> h \<noteq> chain ! i)"

lemma inactive_butlast: "i < length chain - 1 \<Longrightarrow> inactive src (butlast chain) i \<longleftrightarrow> inactive src chain i"
  by (simp add: inactive_def nth_butlast)

lemma reconcile_loop_ok:
  assumes "reconcile_loop ops src d st = (r, st')"
  shows "\<exists>k c. rolled_back k c st st' \<and> (\<forall>i. length (m_chain_hashes st) - k \<le> i \<and> i < length (m_chain_hashes st) \<longrightarrow> inactive src (m_chain_hashes st) i) \<and>
    (\<forall>n. r = Ok n \<longrightarrow> n = d + of_nat k \<and> c = k \<and> m_chain_hashes st' \<noteq> [] \<and>
      (\<exists>s. op_BlockHash src (of_nat (length (m_chain_hashes st') - 1)) s = (Ok (last (m_chain_hashes st')), m_source st')))"
  using assms
proof (induction ops src d st rule: reconcile_loop.induct)
  case (1 ops src d st)
  show ?case
  proof (cases "m_chain_hashes st = []")
    case True
    then have "r = Err ''cannot reconcile an empty chain point''" "st' = st" using "1.prems" by (auto simp: reconcile_loop.simps [of _ _ _ st] CurrentPoint_def)
    then show ?thesis using rolled_back_0 [of st st] by (intro exI [of _ 0]) auto
  next
    case False
    let ?chain = "m_chain_hashes st" and ?point = "\<lparr>height = of_nat (length (m_chain_hashes st) - 1), point_hash = last (m_chain_hashes st)\<rparr>"
    have p: "CurrentPoint st = Some ?point" using False by (simp add: CurrentPoint_def)
    obtain b s where b: "op_BlockHash src (of_nat (length ?chain - 1)) (m_source st) = (b, s)" by force
    let ?st1 = "st\<lparr>m_source := s\<rparr>"
    have sb: "source_BlockHash src (height ?point) st = (b, ?st1)" using b by (simp add: source_BlockHash_def)
    show ?thesis
    proof (cases "\<exists>active. b = Ok active \<and> active \<noteq> last ?chain \<and> op_IsOnline ops (m_forest st)")
      case False
      then have e: "st' = ?st1" "r = Ok n \<Longrightarrow> b = Ok (last ?chain) \<and> n = d" for n
        using "1.prems" sb p by (auto simp: reconcile_loop.simps [of _ _ _ st] split: Result.splits if_splits)
      then show ?thesis using rolled_back_0 [of ?st1 st] b \<open>?chain \<noteq> []\<close> by (intro exI [of _ 0]) auto
    next
      case True
      then obtain h where h: "b = Ok h" "h \<noteq> last ?chain" "op_IsOnline ops (m_forest st)" by blast
      obtain x st2 where x: "rollback_one ops ?point ?st1 = (x, st2)" by force
      note tr = rollback_one_trace [OF x]
      have last_inactive: "inactive src ?chain (length ?chain - 1)" unfolding inactive_def using b h(1,2) False by (auto simp: last_conv_nth)
      show ?thesis
      proof (cases "x = Ok ()")
        case True
        have rec: "reconcile_loop ops src (d + 1) st2 = (r, st')"
          using "1.prems" p sb h x True by (auto simp: reconcile_loop.simps [of _ _ d st])
        note ch = rollback_one_chain [OF x True]
        obtain k c where kc: "rolled_back k c st2 st'"
            "\<forall>i. length (m_chain_hashes st2) - k \<le> i \<and> i < length (m_chain_hashes st2) \<longrightarrow> inactive src (m_chain_hashes st2) i"
            "\<forall>n. r = Ok n \<longrightarrow> n = d + 1 + of_nat k \<and> c = k \<and> m_chain_hashes st' \<noteq> [] \<and>
              (\<exists>s. op_BlockHash src (of_nat (length (m_chain_hashes st') - 1)) s = (Ok (last (m_chain_hashes st')), m_source st'))"
          using "1.IH" [OF p sb [symmetric] h(1) _ _ x [symmetric] True rec] h(2,3) by auto
        have "rolled_back (Suc k) (Suc c) st st'" by (rule rolled_back_Suc [of st2]) (use ch tr kc(1) in \<open>auto simp: before_event_def\<close>)
        moreover have "inactive src ?chain i" if i: "length ?chain - Suc k \<le> i" "i < length ?chain" for i
          using kc(2) ch i last_inactive inactive_butlast [of i ?chain src] by (cases "i = length ?chain - 1") auto
        ultimately show ?thesis using kc(3) by (intro exI [of _ "Suc k"] exI [of _ "Suc c"]) auto
      next
        case x': False
        then have "st' = st2" "\<forall>n. r \<noteq> Ok n" using "1.prems" p sb h x by (auto simp: reconcile_loop.simps [of _ _ d st] split: Result.splits)
        moreover have "rolled_back 0 1 st st2" using rollback_one_fails [OF x x'] by (simp add: rolled_back_def before_event_def)
        ultimately show ?thesis by (intro exI [of _ 0] exI [of _ 1]) auto
      qed
    qed
  qed
qed

lemma rollback_loop_ok:
  assumes "rollback_loop ops h d st = (r, st')"
  shows "\<exists>k c. rolled_back k c st st' \<and>
    (\<forall>n. r = Ok n \<longrightarrow> n = d + of_nat k \<and> c = k \<and> length (m_chain_hashes st') - 1 \<le> unat h \<and>
      (k = 0 \<or> length (m_chain_hashes st') - 1 = unat h))"
  using assms
proof (induction ops h d st rule: rollback_loop.induct)
  case (1 ops h d st)
  show ?case
  proof (cases "length (m_chain_hashes st) - 1 > unat h")
    case False
    then have "r = Ok d" "st' = st" using "1.prems" by (auto simp: rollback_loop.simps [of _ _ _ st])
    then show ?thesis using rolled_back_0 [of st st] False by (intro exI [of _ 0]) auto
  next
    case True
    let ?chain = "m_chain_hashes st" and ?point = "\<lparr>height = of_nat (length (m_chain_hashes st) - 1), point_hash = last (m_chain_hashes st)\<rparr>"
    have p: "CurrentPoint st = Some ?point" using True by (auto simp: CurrentPoint_def)
    obtain x st1 where x: "rollback_one ops ?point st = (x, st1)" by force
    note tr = rollback_one_trace [OF x]
    show ?thesis
    proof (cases "x = Ok ()")
      case ok: True
      have rec: "rollback_loop ops h (d + 1) st1 = (r, st')"
        using "1.prems" p x ok True by (auto simp: rollback_loop.simps [of _ _ d st])
      note ch = rollback_one_chain [OF x ok]
      obtain k c where kc: "rolled_back k c st1 st'"
          "\<forall>n. r = Ok n \<longrightarrow> n = d + 1 + of_nat k \<and> c = k \<and> length (m_chain_hashes st') - 1 \<le> unat h \<and> (k = 0 \<or> length (m_chain_hashes st') - 1 = unat h)"
        using "1.IH" [OF _ p x [symmetric] ok rec] True by auto
      have "rolled_back (Suc k) (Suc c) st st'" by (rule rolled_back_Suc [of st1]) (use ch tr kc(1) in auto)
      moreover have "k = 0 \<Longrightarrow> length (m_chain_hashes st') - 1 \<ge> unat h" using kc(1) ch True by (auto simp: rolled_back_def)
      moreover have "n = d + of_nat (Suc k) \<and> Suc c = Suc k \<and> length (m_chain_hashes st') - 1 \<le> unat h \<and> length (m_chain_hashes st') - 1 = unat h"
        if "r = Ok n" for n
        using kc(2) that calculation(2) by (cases "k = 0") auto
      ultimately show ?thesis by blast
    next
      case False
      then have "st' = st1" "\<forall>n. r \<noteq> Ok n" using "1.prems" p x True by (auto simp: rollback_loop.simps [of _ _ d st] split: Result.splits)
      then show ?thesis using rollback_one_fails [OF x False] by (intro exI [of _ 0] exI [of _ 1]) auto
    qed
  qed
qed

lemma RollbackTo_ok:
  assumes "RollbackTo ops target st = (r, st')"
  shows "\<exists>k c. rolled_back k c st st' \<and> (\<forall>n. r = Ok n \<longrightarrow> n = of_nat k \<and> c = k \<and> CurrentPoint st' = Some target)"
proof (cases "CurrentPoint st = None \<or> height target > height (the (CurrentPoint st)) \<or> \<not> op_IsOnline ops (m_forest st) \<and> Some target \<noteq> CurrentPoint st")
  case True
  then have "st' = st" "\<forall>n. r \<noteq> Ok n" using assms by (auto simp: RollbackTo_def split: if_splits option.splits)
  then show ?thesis using rolled_back_0 [of st st] by (intro exI [of _ 0]) auto
next
  case False
  obtain x st1 where x: "rollback_loop ops (height target) 0 st = (x, st1)" by force
  then have "st' = st1" "r = Ok n \<Longrightarrow> x = Ok n \<and> CurrentPoint st1 = Some target" for n
    using assms False by (auto simp: RollbackTo_def split: option.splits if_splits Result.splits)
  then show ?thesis using rollback_loop_ok [OF x] by auto
qed

section \<open>Prefetching\<close>

text \<open>The main thread connects blocks while the worker fetches; a failed block ends the run.\<close>

inductive prefetch_run :: "'f forest_ops \<Rightarrow> 's source_ops \<Rightarrow> (string \<Rightarrow> UniValue option) \<Rightarrow> ('s, 'f) sync \<Rightarrow> bool"
  for ops :: "'f forest_ops" and src :: "'s source_ops" and read :: "string \<Rightarrow> UniValue option" where
  run_start: "m_prefetch st = None \<Longrightarrow> length (m_chain_hashes st) \<le> 2 ^ 32 - 1 \<Longrightarrow> StartPrefetch target_height st = (Ok (), st') \<Longrightarrow>
    prefetch_run ops src read st'"
| run_fetch: "prefetch_run ops src read st \<Longrightarrow> m_prefetch st = Some p \<Longrightarrow> worker_can_fetch p \<Longrightarrow> prefetch_run ops src read (worker_fetch src p st)"
| run_end: "prefetch_run ops src read st \<Longrightarrow> m_prefetch st = Some p \<Longrightarrow> worker_can_end p \<Longrightarrow> prefetch_run ops src read (worker_end p st)"
| run_connect: "prefetch_run ops src read st \<Longrightarrow> fetch_ready st \<Longrightarrow> ProcessNext ops src read st = (Ok pb, st') \<Longrightarrow> prefetch_run ops src read st'"
| run_stop: "prefetch_run ops src read st \<Longrightarrow> prefetch_run ops src read (StopPrefetch st)"

definition prefetch_inv :: "('s, 'f) sync \<Rightarrow> bool" where
  "prefetch_inv st \<longleftrightarrow> (case m_prefetch st of
     None \<Rightarrow> True
   | Some p \<Rightarrow> length (pf_queue p) \<le> 2 \<and>
       (\<forall>i < length (pf_queue p). unat (fst (pf_queue p ! i)) = length (m_chain_hashes st) + i \<and> length (m_chain_hashes st) + i \<le> unat (pf_target p)) \<and>
       (\<forall>h. pf_next p = Some h \<longrightarrow> unat h = length (m_chain_hashes st) + length (pf_queue p)))"

lemma prefetch_inv_fetch:
  assumes "prefetch_inv st" "m_prefetch st = Some p" "worker_can_fetch p"
  shows "prefetch_inv (worker_fetch src p st)"
proof -
  obtain h where h: "pf_next p = Some h" "h \<le> pf_target p" "length (pf_queue p) < 2" using assms(3) by (auto simp: worker_can_fetch_def split: option.splits)
  have inv: "unat h = length (m_chain_hashes st) + length (pf_queue p)"
    "\<forall>i < length (pf_queue p). unat (fst (pf_queue p ! i)) = length (m_chain_hashes st) + i \<and> length (m_chain_hashes st) + i \<le> unat (pf_target p)"
    using assms(1,2) h(1) by (auto simp: prefetch_inv_def)
  have le: "length (m_chain_hashes st) + length (pf_queue p) \<le> unat (pf_target p)" using h(2) inv(1) by (simp add: word_le_nat_alt)
  obtain x s where x: "op_FetchBlock src h (m_source st) = (x, s)" by force
  have nxt: "h \<noteq> - 1 \<Longrightarrow> unat (h + 1) = Suc (unat h)" using unat_plus_one by fastforce
  show ?thesis
    using x h inv le nxt by (cases x) (auto simp: worker_fetch_def prefetch_inv_def nth_append less_Suc_eq)
qed

lemma prefetch_inv_connect:
  assumes "prefetch_inv st" "ProcessNext ops src read st = (Ok pb, st')"
  shows "prefetch_inv st'"
proof -
  obtain fetched st1 delta pf where n: "NextFetchedBlock src (of_nat (length (m_chain_hashes st))) st = (Ok fetched, st1)"
      "check_block ops read fetched st1 = Ok (delta, pf)" "connect_block ops fetched delta pf st1 = (Ok pb, st')"
    using assms(2) by (auto simp: ProcessNext_def split: if_splits prod.splits Result.splits)
  have c: "m_chain_hashes st' = m_chain_hashes st1 @ [fb_hash fetched]" "m_prefetch st' = m_prefetch st1"
    using n(3) by (auto simp: connect_block_def call_before_mutation_def Let_def split: prod.splits Result.splits if_splits)
  have ch: "m_chain_hashes st1 = m_chain_hashes st" using NextFetchedBlock_keeps [OF n(1)] by simp
  show ?thesis
  proof (cases "m_prefetch st")
    case None
    then have "m_prefetch st1 = None" using n(1) by (auto simp: NextFetchedBlock_def Let_def split: prod.splits)
    then show ?thesis using c(2) by (simp add: prefetch_inv_def)
  next
    case (Some p)
    then obtain item rest where q: "pf_queue p = item # rest" "m_prefetch st1 = Some (p\<lparr>pf_queue := rest\<rparr>)"
      using n(1) by (auto simp: NextFetchedBlock_def split: list.splits option.splits)
    have "\<forall>i < length rest. unat (fst (rest ! i)) = Suc (length (m_chain_hashes st)) + i \<and> Suc (length (m_chain_hashes st)) + i \<le> unat (pf_target p)"
      using assms(1) Some q(1) by (auto simp: prefetch_inv_def)
    then show ?thesis using assms(1) Some q c ch by (simp add: prefetch_inv_def)
  qed
qed

lemma prefetch_run_inv: "prefetch_run ops src read st \<Longrightarrow> prefetch_inv st"
proof (induction rule: prefetch_run.induct)
  case (run_start st target_height st')
  then show ?case
    by (auto simp: StartPrefetch_def prefetch_inv_def unsigned_of_nat take_bit_nat_eq_self split: if_splits)
next
  case (run_end st p)
  then show ?case by (simp add: prefetch_inv_def worker_end_def)
next
  case (run_stop st)
  then show ?case by (simp add: prefetch_inv_def StopPrefetch_def)
qed (auto intro: prefetch_inv_fetch prefetch_inv_connect)

section \<open>Properties\<close>


text \<open>C30: Disconnecting is exact. Whatever the forest and the source answer, reconciling and rolling back remove a final
  stretch of the chain and never its first block, and call the callback before every rollback of the forest. A
  reconciliation removes only blocks that the source contradicted and ends at a block that the source
  confirmed; a rollback that succeeds ends exactly at its target; both report the number of removed blocks.\<close>

theorem chain_rollback_correct:
  assumes "length (m_chain_hashes st) < 2 ^ 32"
  shows "(ReconcileCurrentPoint ops src st = (r, st') \<longrightarrow>
      (\<exists>k c. rolled_back k c st st' \<and> (\<forall>i. length (m_chain_hashes st) - k \<le> i \<and> i < length (m_chain_hashes st) \<longrightarrow> inactive src (m_chain_hashes st) i) \<and>
        (\<forall>n. r = Ok n \<longrightarrow> unat n = k \<and> c = k \<and> m_chain_hashes st' \<noteq> [] \<and>
          (\<exists>s. op_BlockHash src (of_nat (length (m_chain_hashes st') - 1)) s = (Ok (last (m_chain_hashes st')), m_source st'))))) \<and>
    (RollbackTo ops target st = (r, st') \<longrightarrow>
      (\<exists>k c. rolled_back k c st st' \<and> (\<forall>n. r = Ok n \<longrightarrow> unat n = k \<and> c = k \<and> CurrentPoint st' = Some target)))"
proof -
  have k: "unat (of_nat k :: u32) = k" if "rolled_back k c st st'" for k c
    using that assms by (auto simp: rolled_back_def unsigned_of_nat take_bit_nat_eq_self)
  show ?thesis
  proof (intro conjI impI)
    assume "ReconcileCurrentPoint ops src st = (r, st')"
    then obtain k c where kc: "rolled_back k c st st'"
        "\<forall>i. length (m_chain_hashes st) - k \<le> i \<and> i < length (m_chain_hashes st) \<longrightarrow> inactive src (m_chain_hashes st) i"
        "\<forall>n. r = Ok n \<longrightarrow> n = 0 + of_nat k \<and> c = k \<and> m_chain_hashes st' \<noteq> [] \<and>
          (\<exists>s. op_BlockHash src (of_nat (length (m_chain_hashes st') - 1)) s = (Ok (last (m_chain_hashes st')), m_source st'))"
      unfolding ReconcileCurrentPoint_def by (elim reconcile_loop_ok [elim_format] exE conjE)
    then show "\<exists>k c. rolled_back k c st st' \<and> (\<forall>i. length (m_chain_hashes st) - k \<le> i \<and> i < length (m_chain_hashes st) \<longrightarrow> inactive src (m_chain_hashes st) i) \<and>
        (\<forall>n. r = Ok n \<longrightarrow> unat n = k \<and> c = k \<and> m_chain_hashes st' \<noteq> [] \<and>
          (\<exists>s. op_BlockHash src (of_nat (length (m_chain_hashes st') - 1)) s = (Ok (last (m_chain_hashes st')), m_source st')))"
      using k [OF kc(1)] by - (rule exI [of _ k], rule exI [of _ c], auto)
  next
    assume "RollbackTo ops target st = (r, st')"
    then obtain k c where kc: "rolled_back k c st st'" "\<forall>n. r = Ok n \<longrightarrow> n = of_nat k \<and> c = k \<and> CurrentPoint st' = Some target"
      by (elim RollbackTo_ok [elim_format] exE conjE)
    then show "\<exists>k c. rolled_back k c st st' \<and> (\<forall>n. r = Ok n \<longrightarrow> unat n = k \<and> c = k \<and> CurrentPoint st' = Some target)"
      using k [OF kc(1)] by - (rule exI [of _ k], rule exI [of _ c], auto)
  qed
qed

text \<open>C31: Prefetching keeps the order: however the worker and the main thread interleave, at most two blocks are queued,
  their heights are consecutive from the next height of the chain and at most the target, and the next
  block taken from the queue has the requested height, so the check for a gap never fails while blocks connect.\<close>

theorem prefetch_in_order:
  assumes "prefetch_run ops src read st" "m_prefetch st = Some p"
  shows "length (pf_queue p) \<le> 2 \<and>
    (\<forall>i < length (pf_queue p). unat (fst (pf_queue p ! i)) = length (m_chain_hashes st) + i \<and> length (m_chain_hashes st) + i \<le> unat (pf_target p)) \<and>
    (pf_queue p \<noteq> [] \<longrightarrow> fst (NextFetchedBlock src (of_nat (length (m_chain_hashes st))) st) = snd (hd (pf_queue p)))"
proof (intro conjI impI)
  note inv = prefetch_run_inv [OF assms(1), unfolded prefetch_inv_def assms(2) option.case]
  show "length (pf_queue p) \<le> 2" "\<forall>i < length (pf_queue p). unat (fst (pf_queue p ! i)) = length (m_chain_hashes st) + i \<and> length (m_chain_hashes st) + i \<le> unat (pf_target p)"
    using inv by auto
  assume "pf_queue p \<noteq> []"
  then obtain h x rest where q: "pf_queue p = (h, x) # rest" by (cases "pf_queue p") auto
  then have "unat h = length (m_chain_hashes st)" using inv by auto
  then have "h = of_nat (length (m_chain_hashes st))" by (simp flip: \<open>unat h = length (m_chain_hashes st)\<close>)
  then show "fst (NextFetchedBlock src (of_nat (length (m_chain_hashes st))) st) = snd (hd (pf_queue p))"
    using q assms(2) by (simp add: NextFetchedBlock_def)
qed

section \<open>An example\<close>

definition genesis_json :: UniValue where
  "genesis_json = VOBJ [(''hash'', zero_id), (''height'', VNUM ''0''),
     (''tx'', VARR [VOBJ [(''txid'', zero_id), (''vin'', VARR []), (''vout'', VARR [])]])]"

text \<open>A source that has one block, whose text is an empty object that the parser reads as the block.\<close>

definition demo_source :: "unit source_ops" where
  "demo_source =
     \<lparr>op_TipHeight = (\<lambda>s. (Ok 0, s)), op_BlockHash = (\<lambda>h s. (Ok null_hash, s)),
      op_FetchBlock = (\<lambda>h s. (Ok \<lparr>fb_height = h, fb_hash = null_hash, fb_json = \<lparr>raw_json = ''{}'', value_offset = 0, value_size = 2\<rparr>\<rparr>, s))\<rparr>"

lemma genesis_delta:
  "ParseVerboseBlockJson (\<lambda>_. Some genesis_json) raw res = Ok d \<Longrightarrow>
     d = \<lparr>delta_point = \<lparr>height = 0, point_hash = null_hash\<rparr>, previous_block_hash = null_hash, additions = [], deletions = [], proof_leaves = []\<rparr>"
  "ParseVerboseBlockJson (\<lambda>_. Some genesis_json) ''{}'' res =
     Ok \<lparr>delta_point = \<lparr>height = 0, point_hash = null_hash\<rparr>, previous_block_hash = null_hash, additions = [], deletions = [], proof_leaves = []\<rparr>"
proof -
  have zid: "JsonBitcoinHash zero_id f = Ok null_hash" for f
    by (simp add: zero_id_def JsonBitcoinHash_def FromBitcoinHex_def ToBitcoinHex_def FromHex_ToHex)
  have n0: "getInt32 (VNUM ''0'') = Ok 0" by (simp add: getInt32_def from_chars_def digit_value_def HexDigit_def)
  have p: "ParseVerboseBlock genesis_json res =
      Ok \<lparr>delta_point = \<lparr>height = 0, point_hash = null_hash\<rparr>, previous_block_hash = null_hash, additions = [], deletions = [], proof_leaves = []\<rparr>" for res
    by (simp add: ParseVerboseBlock_def parse_block_def genesis_json_def isObject_def find_value_def zid n0 process_tx_def List.map_filter_simps)
  show "ParseVerboseBlockJson (\<lambda>_. Some genesis_json) raw res = Ok d \<Longrightarrow>
     d = \<lparr>delta_point = \<lparr>height = 0, point_hash = null_hash\<rparr>, previous_block_hash = null_hash, additions = [], deletions = [], proof_leaves = []\<rparr>"
    by (auto simp: ParseVerboseBlockJson_def p split: Result.splits)
  have "ProjectVerboseBlock ''{}'' = Ok ''{}''"
    by (simp add: ProjectVerboseBlock_def Consume_def Whitespace_def ws_def Finished_def eval_nat_numeral)
  then show "ParseVerboseBlockJson (\<lambda>_. Some genesis_json) ''{}'' res =
     Ok \<lparr>delta_point = \<lparr>height = 0, point_hash = null_hash\<rparr>, previous_block_hash = null_hash, additions = [], deletions = [], proof_leaves = []\<rparr>"
    by (simp add: ParseVerboseBlockJson_def p)
qed


theorem chain_rollback_correct_witness:
  "\<exists>st'. ReconcileCurrentPoint ram_ops demo_source (SequentialSync () empty_forest [null_hash]) = (Ok 0, st') \<and> m_chain_hashes st' = [null_hash]"
proof -
  let ?st = "SequentialSync () empty_forest [null_hash]"
  obtain st' where e: "ReconcileCurrentPoint ram_ops demo_source ?st = (Ok 0, st')"
    by (simp add: ReconcileCurrentPoint_def reconcile_loop.simps CurrentPoint_def SequentialSync_def source_BlockHash_def demo_source_def)
  then have "\<exists>k c. rolled_back k c ?st st' \<and> unat (0 :: u32) = k"
    using chain_rollback_correct [of ?st ram_ops demo_source "Ok 0" st'] by (simp add: SequentialSync_def) blast
  then show ?thesis using e by (auto simp: rolled_back_def SequentialSync_def)
qed

theorem prefetch_in_order_witness:
  "\<exists>st p. prefetch_run ram_ops demo_source (\<lambda>_. None) st \<and> m_prefetch st = Some p \<and> length (pf_queue p) = 1 \<and> unat (fst (hd (pf_queue p))) = 0"
proof -
  define st where "st = snd (StartPrefetch 5 (SequentialSync () empty_forest []))"
  define p where "p = the (m_prefetch st)"
  have st: "m_prefetch st = Some p" "worker_can_fetch p" "pf_queue p = []" "pf_next p = Some 0" "m_chain_hashes st = []"
    by (simp_all add: st_def p_def StartPrefetch_def SequentialSync_def worker_can_fetch_def)
  have "prefetch_run ram_ops demo_source (\<lambda>_. None) st"
    by (rule run_start [of "SequentialSync () empty_forest []" 5]) (simp_all add: st_def StartPrefetch_def SequentialSync_def)
  then have run: "prefetch_run ram_ops demo_source (\<lambda>_. None) (worker_fetch demo_source p st)" by (rule run_fetch [OF _ st(1,2)])
  obtain q where q: "m_prefetch (worker_fetch demo_source p st) = Some q" "length (pf_queue q) = 1" "m_chain_hashes (worker_fetch demo_source p st) = []"
    using st by (simp add: worker_fetch_def demo_source_def)
  then have "pf_queue q ! 0 = hd (pf_queue q)" by (metis hd_conv_nth length_0_conv zero_neq_one)
  then show ?thesis using prefetch_in_order [OF run q(1)] run q by auto
qed

end
