(* ===== verification/RpcClient.thy ===== *)
theory RpcClient
  imports Http Sync
begin

text \<open>
  The JSON-RPC client and the block source built on it (\<^verbatim>\<open>src/src/core_rpc.cpp\<close>, \<open>CoreRpcClient\<close> and
  \<open>CoreRpcBlockSource\<close>). The transport is an interface (the class \<open>RpcTransport\<close>): a post and a reading of the clock
  in microseconds, on a state of any type. The text of a request is written by UniValue, a parameter, as is its
  parser. The pause before a retry and the log lines are left out. The block source provides the
  operations that the synchronisation uses, the client those that the transaction relay uses.
\<close>

section \<open>State\<close>

record 't transport_ops =
  op_Post :: "string \<Rightarrow> 't \<Rightarrow> string Result \<times> 't"
  op_now :: "'t \<Rightarrow> u64 \<times> 't"

record json_ops =
  json_write :: "UniValue \<Rightarrow> string"
  json_read :: "string \<Rightarrow> UniValue option"

record RpcCallMetrics =
  cm_method :: string
  cm_request_bytes :: u64
  cm_response_bytes :: u64
  cm_elapsed_us :: u64
  cm_attempts :: u32
  cm_retries :: u32
  cm_success :: bool

record RpcAggregateMetrics =
  am_calls :: u64
  am_failures :: u64
  am_retries :: u64
  am_request_bytes :: u64
  am_response_bytes :: u64
  am_elapsed_us :: u64
  am_largest_response_bytes :: u64
  am_largest_response_method :: string
  am_slowest_call_us :: u64
  am_slowest_call_method :: string

record 't client =
  m_transport :: "'t option"
  m_request_id :: u64
  m_max_retries :: u32
  m_last_call :: RpcCallMetrics
  m_aggregate :: RpcAggregateMetrics

definition new_call :: "string \<Rightarrow> u64 \<Rightarrow> RpcCallMetrics" where
  "new_call method bytes =
     \<lparr>cm_method = method, cm_request_bytes = bytes, cm_response_bytes = 0, cm_elapsed_us = 0, cm_attempts = 0, cm_retries = 0, cm_success = False\<rparr>"

definition CoreRpcClient :: "'t option \<Rightarrow> u32 \<Rightarrow> 't client" where
  "CoreRpcClient t retries =
     \<lparr>m_transport = t, m_request_id = 0, m_max_retries = retries, m_last_call = new_call [] 0,
      m_aggregate = \<lparr>am_calls = 0, am_failures = 0, am_retries = 0, am_request_bytes = 0, am_response_bytes = 0, am_elapsed_us = 0,
        am_largest_response_bytes = 0, am_largest_response_method = [], am_slowest_call_us = 0, am_slowest_call_method = []\<rparr>\<rparr>"

section \<open>Calls\<close>

definition RecordLastCall :: "'t client \<Rightarrow> 't client" where
  "RecordLastCall c =
     (let l = m_last_call c; a = m_aggregate c;
          a1 = a\<lparr>am_calls := am_calls a + 1, am_failures := (if cm_success l then am_failures a else am_failures a + 1),
                 am_retries := am_retries a + ucast (cm_retries l), am_request_bytes := am_request_bytes a + cm_request_bytes l,
                 am_response_bytes := am_response_bytes a + cm_response_bytes l, am_elapsed_us := am_elapsed_us a + cm_elapsed_us l\<rparr>;
          a2 = (if cm_response_bytes l > am_largest_response_bytes a1
                then a1\<lparr>am_largest_response_bytes := cm_response_bytes l, am_largest_response_method := cm_method l\<rparr> else a1);
          a3 = (if cm_elapsed_us l > am_slowest_call_us a2
                then a2\<lparr>am_slowest_call_us := cm_elapsed_us l, am_slowest_call_method := cm_method l\<rparr> else a2)
      in c\<lparr>m_aggregate := a3\<rparr>)"

text \<open>The loop of attempts, where \<open>left\<close> retries remain.\<close>

fun call_loop :: "'t transport_ops \<Rightarrow> string \<Rightarrow> nat \<Rightarrow> 't \<Rightarrow> RpcCallMetrics \<Rightarrow> string Result \<times> 't \<times> RpcCallMetrics" where
  "call_loop ops body left t m =
     (let m1 = m\<lparr>cm_attempts := cm_attempts m + 1\<rparr>; (r, t1) = op_Post ops body t
      in case (r, left) of
           (Err e, Suc k) \<Rightarrow> if IsRetryableTransportError e then call_loop ops body k t1 (m1\<lparr>cm_retries := cm_retries m1 + 1\<rparr>) else (r, t1, m1)
         | _ \<Rightarrow> (r, t1, m1))"

declare call_loop.simps [simp del]

definition request_json :: "u64 \<Rightarrow> string \<Rightarrow> UniValue list \<Rightarrow> UniValue" where
  "request_json i method params =
     VOBJ [(''jsonrpc'', VSTR ''1.0''), (''id'', VNUM (show_digits (unat i))), (''method'', VSTR method), (''params'', VARR params)]"

text \<open>What becomes of the answer of the transport.\<close>

definition call_result :: "string Result \<Rightarrow> 't client \<Rightarrow> RawJsonValue Result \<times> 't client" where
  "call_result body c =
     (case body of
        Throw e \<Rightarrow> (Throw e, c)
      | Err e \<Rightarrow> (Err e, RecordLastCall c)
      | Ok b \<Rightarrow>
          let c1 = c\<lparr>m_last_call := (m_last_call c)\<lparr>cm_response_bytes := of_nat (length b)\<rparr>\<rparr>
          in case ExtractJsonRpcResult b of
               Throw e \<Rightarrow> (Throw e, c1)
             | Err e \<Rightarrow> (Err e, RecordLastCall c1)
             | Ok v \<Rightarrow> (Ok v, RecordLastCall (c1\<lparr>m_last_call := (m_last_call c1)\<lparr>cm_success := True\<rparr>\<rparr>)))"

definition CallRaw :: "'t transport_ops \<Rightarrow> json_ops \<Rightarrow> string \<Rightarrow> UniValue list \<Rightarrow> 't client \<Rightarrow> RawJsonValue Result \<times> 't client" where
  "CallRaw ops js method params c =
     (case m_transport c of
        None \<Rightarrow> (Err ''RPC transport is not configured'', RecordLastCall (c\<lparr>m_last_call := new_call method 0\<rparr>))
      | Some t \<Rightarrow>
          let i = m_request_id c + 1;
              body = json_write js (request_json i method params);
              (start, t1) = op_now ops t;
              (r, t2, m) = call_loop ops body (unat (m_max_retries c)) t1 (new_call method (of_nat (length body)));
              (now, t3) = (case r of Throw _ \<Rightarrow> (start, t2) | _ \<Rightarrow> op_now ops t2)
          in call_result r (c\<lparr>m_transport := Some t3, m_request_id := i, m_last_call := m\<lparr>cm_elapsed_us := now - start\<rparr>\<rparr>))"

definition Call :: "'t transport_ops \<Rightarrow> json_ops \<Rightarrow> string \<Rightarrow> UniValue list \<Rightarrow> 't client \<Rightarrow> UniValue Result \<times> 't client" where
  "Call ops js method params c =
     (let (raw, c1) = CallRaw ops js method params c
      in (and_then raw (\<lambda>v. case json_read js (raw_Value v) of
                              None \<Rightarrow> Err ''Bitcoin Core returned invalid JSON-RPC result''
                            | Some j \<Rightarrow> Ok j), c1))"

section \<open>The block source\<close>

record 't block_source =
  m_client :: "'t client"
  m_largest_block_response_bytes :: u64
  m_largest_block_response_elapsed_us :: u64
  m_largest_block_response_hash :: hash256

definition CoreRpcBlockSource :: "'t client \<Rightarrow> 't block_source" where
  "CoreRpcBlockSource c =
     \<lparr>m_client = c, m_largest_block_response_bytes = 0, m_largest_block_response_elapsed_us = 0, m_largest_block_response_hash = null_hash\<rparr>"

definition source_call :: "'t transport_ops \<Rightarrow> json_ops \<Rightarrow> string \<Rightarrow> UniValue list \<Rightarrow> 't block_source \<Rightarrow> UniValue Result \<times> 't block_source" where
  "source_call ops js method params s = (let (r, c) = Call ops js method params (m_client s) in (r, s\<lparr>m_client := c\<rparr>))"

definition core_TipHeight :: "'t transport_ops \<Rightarrow> json_ops \<Rightarrow> 't block_source \<Rightarrow> u32 Result \<times> 't block_source" where
  "core_TipHeight ops js s =
     (let (r, s1) = source_call ops js ''getblockcount'' [] s
      in (and_then r (\<lambda>v. case getInt32 v of Throw e \<Rightarrow> Err (''invalid getblockcount result: '' @ e) | h \<Rightarrow> h), s1))"

definition core_BlockHash :: "'t transport_ops \<Rightarrow> json_ops \<Rightarrow> u32 \<Rightarrow> 't block_source \<Rightarrow> hash256 Result \<times> 't block_source" where
  "core_BlockHash ops js h s =
     (let (r, s1) = source_call ops js ''getblockhash'' [VNUM (show_digits (unat h))] s
      in (and_then r (\<lambda>v. JsonBitcoinHash v ''getblockhash result''), s1))"

definition note_block :: "hash256 \<Rightarrow> 't block_source \<Rightarrow> 't block_source" where
  "note_block h s =
     (let l = m_last_call (m_client s)
      in if cm_response_bytes l > m_largest_block_response_bytes s
         then s\<lparr>m_largest_block_response_bytes := cm_response_bytes l, m_largest_block_response_elapsed_us := cm_elapsed_us l,
                m_largest_block_response_hash := h\<rparr>
         else s)"

definition core_FetchBlock :: "'t transport_ops \<Rightarrow> json_ops \<Rightarrow> u32 \<Rightarrow> 't block_source \<Rightarrow> FetchedBlock Result \<times> 't block_source" where
  "core_FetchBlock ops js h s =
     (case core_BlockHash ops js h s of
        (Err e, s1) \<Rightarrow> (Err e, s1)
      | (Throw e, s1) \<Rightarrow> (Throw e, s1)
      | (Ok hash, s1) \<Rightarrow>
          (case CallRaw ops js ''getblock'' [VSTR (ToBitcoinHex hash), VNUM ''3''] (m_client s1) of
             (Err e, c) \<Rightarrow> (Err e, s1\<lparr>m_client := c\<rparr>)
           | (Throw e, c) \<Rightarrow> (Throw e, s1\<lparr>m_client := c\<rparr>)
           | (Ok v, c) \<Rightarrow> (Ok \<lparr>fb_height = h, fb_hash = hash, fb_json = v\<rparr>, note_block hash (s1\<lparr>m_client := c\<rparr>))))"

definition core_source :: "'t transport_ops \<Rightarrow> json_ops \<Rightarrow> 't block_source source_ops" where
  "core_source ops js = \<lparr>op_TipHeight = core_TipHeight ops js, op_BlockHash = core_BlockHash ops js, op_FetchBlock = core_FetchBlock ops js\<rparr>"

section \<open>Retries\<close>

text \<open>Posting the same body again and again, each time with one of the errors as the answer.\<close>

fun failed_posts :: "'t transport_ops \<Rightarrow> string \<Rightarrow> 't \<Rightarrow> string list \<Rightarrow> 't \<Rightarrow> bool" where
  "failed_posts ops body t [] t' \<longleftrightarrow> t' = t"
| "failed_posts ops body t (e # es) t' \<longleftrightarrow> (\<exists>t1. op_Post ops body t = (Err e, t1) \<and> failed_posts ops body t1 es t')"

lemma call_loop_posts:
  assumes "call_loop ops body left t m = (r, t', m')"
  shows "\<exists>es t1. failed_posts ops body t es t1 \<and> (\<forall>e \<in> set es. IsRetryableTransportError e) \<and> op_Post ops body t1 = (r, t') \<and>
    length es \<le> left \<and> (\<forall>e. r = Err e \<longrightarrow> IsRetryableTransportError e \<longrightarrow> length es = left) \<and>
    m' = m\<lparr>cm_attempts := cm_attempts m + of_nat (length es) + 1, cm_retries := cm_retries m + of_nat (length es)\<rparr>"
  using assms
proof (induction left arbitrary: t m)
  case 0
  then show ?case by (intro exI [of _ "[]"]) (auto simp: call_loop.simps [of _ _ 0] Let_def split: prod.splits Result.splits)
next
  case (Suc k)
  obtain r1 t1 where p: "op_Post ops body t = (r1, t1)" by (cases "op_Post ops body t")
  show ?case
  proof (cases "\<exists>e. r1 = Err e \<and> IsRetryableTransportError e")
    case True
    then obtain e where e: "r1 = Err e" "IsRetryableTransportError e" by blast
    let ?m = "m\<lparr>cm_attempts := cm_attempts m + 1, cm_retries := cm_retries m + 1\<rparr>"
    have "call_loop ops body k t1 ?m = (r, t', m')" using Suc.prems p e by (simp add: call_loop.simps [of _ _ "Suc k"] Let_def)
    then obtain es t2 where IH: "failed_posts ops body t1 es t2" "\<forall>e \<in> set es. IsRetryableTransportError e" "op_Post ops body t2 = (r, t')"
      "length es \<le> k" "\<forall>e. r = Err e \<longrightarrow> IsRetryableTransportError e \<longrightarrow> length es = k"
      "m' = ?m\<lparr>cm_attempts := cm_attempts ?m + of_nat (length es) + 1, cm_retries := cm_retries ?m + of_nat (length es)\<rparr>"
      using Suc.IH by blast
    then show ?thesis using p e by (intro exI [of _ "e # es"] exI [of _ t2]) (auto simp: algebra_simps)
  next
    case False
    then have "r = r1" "t' = t1" "m' = m\<lparr>cm_attempts := cm_attempts m + 1\<rparr>"
      using Suc.prems p by (auto simp: call_loop.simps [of _ _ "Suc k"] Let_def split: Result.splits if_splits)
    then show ?thesis using False p by (intro exI [of _ "[]"]) auto
  qed
qed

lemma RecordLastCall_facts [simp]:
  "m_request_id (RecordLastCall c) = m_request_id c" "m_last_call (RecordLastCall c) = m_last_call c" "m_transport (RecordLastCall c) = m_transport c"
  "am_calls (m_aggregate (RecordLastCall c)) = am_calls (m_aggregate c) + 1"
  "am_failures (m_aggregate (RecordLastCall c)) = am_failures (m_aggregate c) + (if cm_success (m_last_call c) then 0 else 1)"
  "am_retries (m_aggregate (RecordLastCall c)) = am_retries (m_aggregate c) + ucast (cm_retries (m_last_call c))"
  by (simp_all add: RecordLastCall_def Let_def)

lemma call_result_facts:
  assumes "call_result body c = (r, c')" "\<not> cm_success (m_last_call c)"
  shows "r = and_then body ExtractJsonRpcResult \<and> m_request_id c' = m_request_id c \<and>
    cm_attempts (m_last_call c') = cm_attempts (m_last_call c) \<and> cm_retries (m_last_call c') = cm_retries (m_last_call c) \<and>
    ((\<forall>e. r \<noteq> Throw e) \<longrightarrow> am_calls (m_aggregate c') = am_calls (m_aggregate c) + 1 \<and>
       am_failures (m_aggregate c') = am_failures (m_aggregate c) + (if \<exists>v. r = Ok v then 0 else 1) \<and>
       am_retries (m_aggregate c') = am_retries (m_aggregate c) + ucast (cm_retries (m_last_call c)))"
proof -
  have rc: "r = fst (call_result body c)" "c' = snd (call_result body c)" using assms(1) by simp_all
  show ?thesis
  proof (cases body)
    case (Ok b)
    then show ?thesis unfolding rc using assms(2) by (cases "ExtractJsonRpcResult b") (simp_all add: call_result_def Let_def)
  qed (use assms(2) in \<open>simp_all add: rc call_result_def\<close>)
qed

text \<open>C36: A call posts one request, with a new id, and repeats that same request only after errors of the transport that
  may pass, at most as often as configured; the result is what the envelope of the last answer says, or the last
  error, and the counters record the attempts, the retries and the outcome.\<close>

theorem CallRaw_correct:
  assumes "m_transport c = Some t" "CallRaw ops js method params c = (r, c')"
    "body = json_write js (request_json (m_request_id c + 1) method params)"
  shows "\<exists>es t1 answer t2. failed_posts ops body (snd (op_now ops t)) es t1 \<and> (\<forall>e \<in> set es. IsRetryableTransportError e) \<and>
    length es \<le> unat (m_max_retries c) \<and> op_Post ops body t1 = (answer, t2) \<and>
    (\<forall>e. answer = Err e \<longrightarrow> IsRetryableTransportError e \<longrightarrow> length es = unat (m_max_retries c)) \<and>
    r = and_then answer ExtractJsonRpcResult \<and> m_request_id c' = m_request_id c + 1 \<and>
    cm_attempts (m_last_call c') = of_nat (length es) + 1 \<and> cm_retries (m_last_call c') = of_nat (length es) \<and>
    ((\<forall>e. r \<noteq> Throw e) \<longrightarrow> am_calls (m_aggregate c') = am_calls (m_aggregate c) + 1 \<and>
      am_failures (m_aggregate c') = am_failures (m_aggregate c) + (if \<exists>v. r = Ok v then 0 else 1) \<and>
      am_retries (m_aggregate c') = am_retries (m_aggregate c) + of_nat (length es))"
proof -
  obtain start t0 where s: "op_now ops t = (start, t0)" by (cases "op_now ops t")
  obtain answer t2 m where l: "call_loop ops body (unat (m_max_retries c)) t0 (new_call method (of_nat (length body))) = (answer, t2, m)"
    by (metis prod_cases3)
  obtain es t1 where es: "failed_posts ops body t0 es t1" "\<forall>e \<in> set es. IsRetryableTransportError e" "op_Post ops body t1 = (answer, t2)"
    "length es \<le> unat (m_max_retries c)" "\<forall>e. answer = Err e \<longrightarrow> IsRetryableTransportError e \<longrightarrow> length es = unat (m_max_retries c)"
    and m: "m = (new_call method (of_nat (length body)))\<lparr>cm_attempts := of_nat (length es) + 1, cm_retries := of_nat (length es)\<rparr>"
    using call_loop_posts [OF l] by (auto simp: new_call_def)
  obtain now t3 where n: "(case answer of Throw _ \<Rightarrow> (start, t2) | _ \<Rightarrow> op_now ops t2) = (now, t3)" by (metis surj_pair)
  let ?c = "c\<lparr>m_transport := Some t3, m_request_id := m_request_id c + 1, m_last_call := m\<lparr>cm_elapsed_us := now - start\<rparr>\<rparr>"
  have "call_result answer ?c = (r, c')"
    using assms(2) unfolding CallRaw_def assms(1) option.case assms(3) [symmetric] s l n Let_def prod.case by simp
  note f = call_result_facts [OF this]

  have small: "ucast (of_nat (length es) :: u32) = (of_nat (length es) :: u64)"
  proof -
    have "length es < 2 ^ 32" using es(4) unat_u32_less [of "m_max_retries c"] by simp
    then show ?thesis by (simp add: word_eq_iff_unsigned unsigned_ucast_eq unsigned_of_nat take_bit_nat_eq_self)
  qed
  show ?thesis unfolding s snd_conv
    using es f small m by (intro exI [of _ es] exI [of _ t1] exI [of _ answer] exI [of _ t2]) (auto simp: new_call_def)
qed

section \<open>An example\<close>

text \<open>A transport whose state is the list of the answers to come.\<close>

definition demo_transport :: "string Result list transport_ops" where
  "demo_transport = \<lparr>op_Post = (\<lambda>body t. case t of [] \<Rightarrow> (Err ''timed out'', []) | r # rs \<Rightarrow> (r, rs)), op_now = (\<lambda>t. (0, t))\<rparr>"

definition demo_json :: json_ops where
  "demo_json = \<lparr>json_write = (\<lambda>_. ''{}''), json_read = (\<lambda>_. None)\<rparr>"

lemma demo_retryable: "IsRetryableTransportError ''timed out''" "\<not> IsRetryableTransportError ''refused''"
  by code_simp+

theorem CallRaw_correct_witness:
  "\<exists>c'. CallRaw demo_transport demo_json ''m'' [] (CoreRpcClient (Some [Err ''timed out'', Err ''refused'', Ok ''late'']) 3) = (Err ''refused'', c') \<and>
     cm_attempts (m_last_call c') = 2"
proof -
  let ?c = "CoreRpcClient (Some [Err ''timed out'', Err ''refused'', Ok ''late'']) 3"
  obtain c' where c: "CallRaw demo_transport demo_json ''m'' [] ?c = (Err ''refused'', c')"
    by (simp add: CallRaw_def CoreRpcClient_def demo_transport_def demo_json_def call_loop.simps demo_retryable call_result_def)
  have t: "m_transport ?c = Some [Err ''timed out'', Err ''refused'', Ok ''late'']" by (simp add: CoreRpcClient_def)
  from CallRaw_correct [OF t c refl] obtain es t1 answer t2 where e:
    "failed_posts demo_transport ''{}'' [Err ''timed out'', Err ''refused'', Ok ''late''] es t1" "\<forall>e \<in> set es. IsRetryableTransportError e"
    "op_Post demo_transport ''{}'' t1 = (answer, t2)" "Err ''refused'' = and_then answer ExtractJsonRpcResult" "length es \<le> 3"
    "\<forall>e. answer = Err e \<longrightarrow> IsRetryableTransportError e \<longrightarrow> length es = 3" "cm_attempts (m_last_call c') = of_nat (length es) + 1"
    by (auto simp: demo_transport_def demo_json_def CoreRpcClient_def)
  have "length es = 1"
  proof (cases es)
    case (Cons x xs)
    then show ?thesis using e(1,2) demo_retryable(2) by (cases xs) (auto simp: demo_transport_def)
  qed (use e(1,3,4) in \<open>auto simp: demo_transport_def\<close>)
  then show ?thesis using c e(7) by simp
qed

end
