(* ===== verification/Relay.thy ===== *)
theory Relay
  imports RpcClient
begin

text \<open>
  Preparing transaction proofs from Core's mempool (\<^verbatim>\<open>src/src/transaction_relay.cpp\<close>). The RPC client is an
  interface, operations on a state of any type, which the client of \<open>RpcClient\<close> provides; the JSON parser, the clock (one reading per tick) and the
  memory cost of a cache entry are parameters, collected in the record \<open>relay_env\<close>. The relay uses the
  forest and the chain of the synchronisation and the transaction proof cache; no other thread uses the
  cache in the middle of a poll here. Log lines are left out. An action maps the state of the relay to a
  result and a new state; an exception is the outcome \<open>Throw\<close>, which \<open>Poll\<close> catches.
\<close>

section \<open>State\<close>

record 'r rpc_ops =
  op_Call :: "string \<Rightarrow> UniValue list \<Rightarrow> 'r \<Rightarrow> UniValue Result \<times> 'r"
  op_CallRaw :: "string \<Rightarrow> 'r \<Rightarrow> RawJsonValue Result \<times> 'r"

text \<open>The client of \<open>RpcClient\<close> provides them.\<close>

definition client_ops :: "'t transport_ops \<Rightarrow> json_ops \<Rightarrow> 't client rpc_ops" where
  "client_ops ops js = \<lparr>op_Call = RpcClient.Call ops js, op_CallRaw = (\<lambda>method. RpcClient.CallRaw ops js method [])\<rparr>"

record ('r, 'f) relay_env =
  env_rpc :: "'r rpc_ops"
  env_forest :: "'f forest_ops"
  env_read :: "string \<Rightarrow> UniValue option"
  env_cost :: "PreparedTransactionProof \<Rightarrow> u64"
  env_clock :: "nat \<Rightarrow> int"

record TransactionRelayConfig =
  batch_size :: u32
  recovery_interval :: int

record ('r, 's, 'f) relay =
  m_client :: 'r
  m_sync :: "('s, 'f) sync"
  m_cache :: cache
  m_config :: TransactionRelayConfig
  m_scan_cursor :: u64
  m_epoch :: u64
  m_next_recovery :: int
  m_tick :: nat

type_synonym ('r, 's, 'f, 'a) action = "('r, 's, 'f) relay \<Rightarrow> 'a Result \<times> ('r, 's, 'f) relay"

definition act_then :: "('r, 's, 'f, 'a) action \<Rightarrow> ('a \<Rightarrow> ('r, 's, 'f, 'b) action) \<Rightarrow> ('r, 's, 'f, 'b) action" where
  "act_then m k rl = (case m rl of (Ok a, rl1) \<Rightarrow> k a rl1 | (Err e, rl1) \<Rightarrow> (Err e, rl1) | (Throw e, rl1) \<Rightarrow> (Throw e, rl1))"

definition act_result :: "'a Result \<Rightarrow> ('r, 's, 'f, 'a) action" where
  "act_result r rl = (r, rl)"

text \<open>A call of the cache at the next reading of the clock.\<close>

definition at_cache :: "('r, 'f) relay_env \<Rightarrow> (int \<Rightarrow> cache \<Rightarrow> 'a \<times> cache) \<Rightarrow> ('r, 's, 'f, 'a) action" where
  "at_cache env m rl = (let (a, c) = m (env_clock env (m_tick rl)) (m_cache rl) in (Ok a, rl\<lparr>m_cache := c, m_tick := m_tick rl + 1\<rparr>))"

definition relay_config_ok :: "TransactionRelayConfig \<Rightarrow> bool" where
  "relay_config_ok cfg \<longleftrightarrow> batch_size cfg \<noteq> 0 \<and> batch_size cfg \<le> 1024 \<and> recovery_interval cfg > 0 \<and> recovery_interval cfg \<le> 300"

definition TransactionRelay :: "'r \<Rightarrow> ('s, 'f) sync \<Rightarrow> cache \<Rightarrow> TransactionRelayConfig \<Rightarrow> ('r, 's, 'f) relay Result" where
  "TransactionRelay client sy c cfg =
     (if \<not> relay_config_ok cfg then Throw ''invalid Core transaction relay settings''
      else Ok \<lparr>m_client = client, m_sync = sy, m_cache = c, m_config = cfg, m_scan_cursor = 0, m_epoch = - 1, m_next_recovery = 0, m_tick = 0\<rparr>)"

section \<open>Helpers\<close>

definition TxidParams :: "hash256 \<Rightarrow> UniValue list" where
  "TxidParams txid = [VSTR (ToBitcoinHex txid)]"

fun decode_pairs :: "string \<Rightarrow> byte list" where
  "decode_pairs (c1 # c2 # hex) = of_int (push_bit 4 (HexDigit c1) OR HexDigit c2) # decode_pairs hex"
| "decode_pairs _ = []"

definition DecodeHex :: "string \<Rightarrow> nat \<Rightarrow> byte list Result" where
  "DecodeHex hex limit =
     (if length hex mod 2 \<noteq> 0 \<or> length hex div 2 > limit then Err ''hex data exceeds transaction metadata bounds''
      else if \<exists>c \<in> set hex. HexDigit c < 0 then Err ''invalid transaction metadata hex''
      else Ok (decode_pairs hex))"

definition getInt_signed :: "UniValue \<Rightarrow> int Result" where
  "getInt_signed v =
     (case v of
        VNUM s \<Rightarrow> (case from_chars_int s of Some x \<Rightarrow> Ok x | None \<Rightarrow> Throw ''JSON integer out of range'')
      | _ \<Rightarrow> Throw (type_error v ''number''))"

definition isNum :: "UniValue \<Rightarrow> bool" where
  "isNum v \<longleftrightarrow> (case v of VNUM _ \<Rightarrow> True | _ \<Rightarrow> False)"

definition MissingTransaction :: "(string \<Rightarrow> UniValue option) \<Rightarrow> string \<Rightarrow> bool Result" where
  "MissingTransaction read error =
     (if \<not> starts_with error RPC_PREFIX then Ok False
      else case read (drop (length RPC_PREFIX) error) of
             None \<Rightarrow> Ok False
           | Some v \<Rightarrow>
               if \<not> isObject v \<or> \<not> isNum (find_value ''code'' v) then Ok False
               else and_then (getInt_signed (find_value ''code'' v)) (\<lambda>code. Ok (code = -5)))"

definition Call :: "('r, 'f) relay_env \<Rightarrow> string \<Rightarrow> UniValue list \<Rightarrow> ('r, 's, 'f, UniValue) action" where
  "Call env method params rl = (let (r, c) = op_Call (env_rpc env) method params (m_client rl) in (r, rl\<lparr>m_client := c\<rparr>))"

text \<open>A call whose answer may be that the transaction is unknown.\<close>

definition call_member :: "('r, 'f) relay_env \<Rightarrow> string \<Rightarrow> UniValue list \<Rightarrow> ('r, 's, 'f, UniValue option) action" where
  "call_member env method params rl =
     (case Call env method params rl of
        (Ok v, rl1) \<Rightarrow> (Ok (Some v), rl1)
      | (Throw e, rl1) \<Rightarrow> (Throw e, rl1)
      | (Err e, rl1) \<Rightarrow>
          (case MissingTransaction (env_read env) e of
             Ok True \<Rightarrow> (Ok None, rl1)
           | Ok False \<Rightarrow> (Err e, rl1)
           | Err e' \<Rightarrow> (Err e', rl1)
           | Throw e' \<Rightarrow> (Throw e', rl1)))"

definition CheckTip :: "('r, 'f) relay_env \<Rightarrow> ChainPoint \<Rightarrow> ('r, 's, 'f, unit) action" where
  "CheckTip env point =
     act_then (Call env ''getbestblockhash'' []) (\<lambda>tip.
       act_result (if tip \<noteq> VSTR (ToBitcoinHex (point_hash point)) then Err ''Core tip differs from transaction proof accumulator''
                   else Ok ()))"

section \<open>Preparing a transaction\<close>

definition getInt64 :: "UniValue \<Rightarrow> u64 Result" where
  "getInt64 v =
     (case v of
        VNUM s \<Rightarrow> (case from_chars 10 (2 ^ 64) s of Some x \<Rightarrow> Ok (of_nat x) | None \<Rightarrow> Throw ''JSON integer out of range'')
      | _ \<Rightarrow> Throw (type_error v ''number''))"

text \<open>The leaf of a confirmed input, from Core's answer to \<open>gettxout\<close>.\<close>

definition confirmed_leaf :: "hash256 list \<Rightarrow> ChainPoint \<Rightarrow> OutPoint \<Rightarrow> UniValue \<Rightarrow> LeafData Result" where
  "confirmed_leaf chain point input v =
     (if \<not> isObject v \<or> find_value ''bestblock'' v \<noteq> VSTR (ToBitcoinHex (point_hash point))
      then Err ''confirmed input metadata is anchored at a different Core tip''
      else and_then (getInt64 (find_value ''confirmations'' v)) (\<lambda>confirmations.
        if confirmations = 0 \<or> confirmations > ucast (height point) + 1 then Err ''invalid confirmed input height''
        else let h = ucast (ucast (height point) + 1 - confirmations :: u64) :: u32
             in if unat h \<ge> length chain then Err ''confirmed input block hash is unavailable''
                else and_then (ParseBitcoinAmount (find_value ''value'' v)) (\<lambda>amount.
                  and_then (get_str (find_value ''hex'' (find_value ''scriptPubKey'' v))) (\<lambda>hex.
                  and_then (DecodeHex hex 10000) (\<lambda>script.
                  and_then (get_bool (find_value ''coinbase'' v)) (\<lambda>cb.
                    Ok \<lparr>block_hash = chain ! unat h, outpoint = input, block_height = h, coinbase = cb,
                        leaf_output = \<lparr>tx_value = amount, script_pubkey = script\<rparr>\<rparr>))))))"

text \<open>The loop over the inputs; \<open>None\<close> when a parent is not in the mempool any more.\<close>

fun prepare_inputs ::
    "('r, 'f) relay_env \<Rightarrow> ChainPoint \<Rightarrow> OutPoint list \<Rightarrow> hash256 list \<Rightarrow> CompactLeafData option list \<Rightarrow>
     ('r, 's, 'f, (hash256 list \<times> CompactLeafData option list) option) action" where
  "prepare_inputs env point [] hs ls = act_result (Ok (Some (hs, ls)))"
| "prepare_inputs env point (input # inputs) hs ls =
     act_then (Call env ''gettxout'' (TxidParams (op_txid input) @ [VNUM (show_digits (unat (op_index input))), VBOOL False])) (\<lambda>out.
       if out = VNULL
       then act_then (call_member env ''getmempoolentry'' (TxidParams (op_txid input))) (\<lambda>parent.
              case parent of None \<Rightarrow> act_result (Ok None) | Some _ \<Rightarrow> prepare_inputs env point inputs hs (ls @ [None]))
       else (\<lambda>rl. act_then (act_result (confirmed_leaf (m_chain_hashes (m_sync rl)) point input out)) (\<lambda>leaf.
              prepare_inputs env point inputs (hs @ [LeafHash leaf]) (ls @ [Some (CompactLeaf leaf)])) rl))"

text \<open>The values of the optionals that have one.\<close>

fun somes :: "'a option list \<Rightarrow> 'a list" where
  "somes [] = []"
| "somes (None # xs) = somes xs"
| "somes (Some x # xs) = x # somes xs"

text \<open>The proof of the confirmed inputs against the current forest, generated, verified and prepared for the wire.\<close>

definition prepared_proof ::
    "('r, 'f) relay_env \<Rightarrow> Transaction \<Rightarrow> hash256 list \<Rightarrow> CompactLeafData option list \<Rightarrow> 'f \<Rightarrow> PreparedTransactionProof Result" where
  "prepared_proof env tx hs ls f =
     (case op_Prove (env_forest env) hs f of
        Err e \<Rightarrow> Err (''confirmed inputs not provable at Core tip: '' @ e)
      | Throw e \<Rightarrow> Throw e
      | Ok pf \<Rightarrow>
          (case VerifyProof pf hs (somes (op_Roots (env_forest env) f)) (op_NumLeaves (env_forest env) f) of
             Ok True \<Rightarrow> Create tx pf ls (op_NumLeaves (env_forest env) f)
           | Throw e \<Rightarrow> Throw e
           | _ \<Rightarrow> Err ''generated transaction proof did not verify''))"

definition publish_proof :: "('r, 'f) relay_env \<Rightarrow> ChainPoint \<Rightarrow> PreparedTransactionProof \<Rightarrow> ('r, 's, 'f, bool) action" where
  "publish_proof env point prep rl =
     (let (r, c) = Publish (env_cost env) point prep (env_clock env (m_tick rl)) (env_clock env (m_tick rl + 1)) (m_cache rl)
      in (r, rl\<lparr>m_cache := c, m_tick := m_tick rl + 2\<rparr>))"

definition Prepare :: "('r, 'f) relay_env \<Rightarrow> Transaction \<Rightarrow> ChainPoint \<Rightarrow> ('r, 's, 'f, bool) action" where
  "Prepare env tx point =
     act_then (call_member env ''getmempoolentry'' (TxidParams (m_txid tx))) (\<lambda>member.
       case member of
         None \<Rightarrow> act_result (Ok False)
       | Some m \<Rightarrow>
           if find_value ''wtxid'' m \<noteq> VSTR (ToBitcoinHex (m_wtxid tx))
           then act_result (Err ''Core mempool witness identity differs from relayed transaction'')
           else act_then (prepare_inputs env point (m_inputs tx) [] []) (\<lambda>inputs.
             case inputs of
               None \<Rightarrow> act_result (Ok False)
             | Some (hs, ls) \<Rightarrow>
                 (\<lambda>rl. act_then (act_result (prepared_proof env tx hs ls (m_forest (m_sync rl)))) (\<lambda>prep.
                    act_then (CheckTip env point) (\<lambda>_.
                    act_then (call_member env ''getmempoolentry'' (TxidParams (m_txid (prep_transaction prep)))) (\<lambda>member.
                      case member of
                        None \<Rightarrow> act_result (Ok False)
                      | Some m \<Rightarrow>
                          act_then (act_result (get_str (find_value ''wtxid'' m))) (\<lambda>wtxid.
                            if wtxid \<noteq> ToBitcoinHex (m_wtxid (prep_transaction prep)) then act_result (Ok False)
                            else publish_proof env point prep)))) rl)))"

definition PrepareById :: "('r, 'f) relay_env \<Rightarrow> hash256 \<Rightarrow> ChainPoint \<Rightarrow> ('r, 's, 'f, bool) action" where
  "PrepareById env txid point =
     act_then (call_member env ''getrawtransaction'' (TxidParams txid)) (\<lambda>raw.
       case raw of
         None \<Rightarrow> act_result (Ok False)
       | Some v \<Rightarrow>
           act_then (act_result (get_str v)) (\<lambda>hex.
           act_then (act_result (DecodeHex hex MAX_TX_PAYLOAD)) (\<lambda>bytes.
             case Transaction_Parse bytes (of_nat MAX_TX_PAYLOAD) of
               Ok tx \<Rightarrow> if m_txid tx \<noteq> txid then act_result (Err ''invalid Core recovery transaction'') else Prepare env tx point
             | Throw e \<Rightarrow> act_result (Throw e)
             | Err e \<Rightarrow> act_result (Err ''invalid Core recovery transaction''))))"

section \<open>Recovering the mempool\<close>

record scan =
  sc_missing :: "hash256 list"
  sc_candidates :: "hash256 list"
  sc_count :: u64
  sc_next_cursor :: u64

text \<open>One transaction id of the inventory.\<close>

definition scan_txid :: "('r, 'f) relay_env \<Rightarrow> hash256 \<Rightarrow> scan \<Rightarrow> ('r, 's, 'f, scan) action" where
  "scan_txid env txid sc rl =
     (let sc1 = sc\<lparr>sc_missing := removeAll txid (sc_missing sc)\<rparr>
      in if sc_count sc1 \<ge> m_scan_cursor rl \<and> length (sc_candidates sc1) < unat (batch_size (m_config rl))
         then act_then (at_cache env (cache_Find txid None)) (\<lambda>found. act_result (Ok
                (sc1\<lparr>sc_next_cursor := sc_count sc1 + 1,
                     sc_candidates := (if found = None then sc_candidates sc1 @ [txid] else sc_candidates sc1),
                     sc_count := sc_count sc1 + 1\<rparr>))) rl
         else (Ok (sc1\<lparr>sc_count := sc_count sc1 + 1\<rparr>), rl))"

lemma Whitespace_rest_shorter: "Whitespace s = c # rest \<Longrightarrow> length (Whitespace rest) < length s"
  using Whitespace_length [of s] Whitespace_length [of rest] by simp

function scan_inventory :: "('r, 'f) relay_env \<Rightarrow> string \<Rightarrow> scan \<Rightarrow> ('r, 's, 'f, scan \<times> string) action" where
  "scan_inventory env json sc rl =
     (if length json < 66 \<or> json ! 0 \<noteq> CHR 0x22 \<or> json ! 65 \<noteq> CHR 0x22 then (Err ''invalid Core mempool transaction id'', rl)
      else act_then (act_result (FromBitcoinHex (take 64 (drop 1 json)))) (\<lambda>txid.
        act_then (scan_txid env txid sc) (\<lambda>sc1 rl1.
          case Whitespace (drop 66 json) of
            [] \<Rightarrow> (Err ''truncated Core mempool inventory'', rl1)
          | c # rest \<Rightarrow>
              if c = CHR '']'' then (Ok (sc1, c # rest), rl1)
              else if c \<noteq> CHR '','' then (Err ''invalid Core mempool inventory separator'', rl1)
              else scan_inventory env (Whitespace rest) sc1 rl1)) rl)"
  by pat_completeness auto

termination
proof (relation "measure (\<lambda>(env, json, sc, rl). length json)")
qed (auto dest!: Whitespace_rest_shorter)

declare scan_inventory.simps [simp del]

definition CallRaw :: "('r, 'f) relay_env \<Rightarrow> string \<Rightarrow> ('r, 's, 'f, RawJsonValue) action" where
  "CallRaw env method rl = (let (r, c) = op_CallRaw (env_rpc env) method (m_client rl) in (r, rl\<lparr>m_client := c\<rparr>))"

definition erase_missing :: "hash256 list \<Rightarrow> ('r, 's, 'f, unit) action" where
  "erase_missing missing rl = (Ok (), rl\<lparr>m_cache := fold cache_Erase missing (m_cache rl)\<rparr>)"

text \<open>The array after its bracket, then the end of the inventory.\<close>

definition scan_array :: "('r, 'f) relay_env \<Rightarrow> string \<Rightarrow> scan \<Rightarrow> ('r, 's, 'f, scan) action" where
  "scan_array env json sc =
     act_then (if json \<noteq> [] \<and> hd json \<noteq> CHR '']'' then scan_inventory env json sc else act_result (Ok (sc, json))) (\<lambda>(sc1, rest).
       act_result (if rest = [] \<or> hd rest \<noteq> CHR '']'' then Err ''truncated Core mempool inventory''
                   else if Whitespace (tl rest) \<noteq> [] then Err ''trailing Core mempool inventory data''
                   else Ok sc1))"

text \<open>The set of retained ids that are missing from the inventory is a list here: the order in which they
  are erased makes no difference to the cache.\<close>

definition RecoveryCandidates :: "('r, 'f) relay_env \<Rightarrow> ('r, 's, 'f, hash256 list) action" where
  "RecoveryCandidates env =
     act_then (CallRaw env ''getrawmempool'') (\<lambda>inventory.
     act_then (at_cache env Txids) (\<lambda>retained.
       case Whitespace (raw_Value inventory) of
         [] \<Rightarrow> act_result (Err ''Core mempool inventory is not an array'')
       | c # json \<Rightarrow>
           if c \<noteq> CHR ''['' then act_result (Err ''Core mempool inventory is not an array'')
           else (\<lambda>rl. act_then (scan_array env (Whitespace json)
                          \<lparr>sc_missing = retained, sc_candidates = [], sc_count = 0, sc_next_cursor = m_scan_cursor rl\<rparr>) (\<lambda>sc rl1.
                  act_then (erase_missing (sc_missing sc)) (\<lambda>_. act_result (Ok (sc_candidates sc)))
                    (rl1\<lparr>m_scan_cursor := (if sc_next_cursor sc \<ge> sc_count sc then 0 else sc_next_cursor sc)\<rparr>)) rl)))"

section \<open>Polling\<close>

definition take_request :: "('r, 's, 'f, TransactionRegenerationRequest option) action" where
  "take_request rl = (let (r, c) = TakeRegeneration (m_cache rl) in (r, rl\<lparr>m_cache := c\<rparr>))"

text \<open>A new epoch of the cache restarts the recovery.\<close>

definition enter_epoch :: "u64 \<Rightarrow> ChainPoint \<Rightarrow> ('r, 's, 'f, unit) action" where
  "enter_epoch e point rl =
     (let rl1 = (if e \<noteq> m_epoch rl then rl\<lparr>m_scan_cursor := 0, m_next_recovery := 0, m_epoch := e\<rparr> else rl)
      in (Ok (), rl1\<lparr>m_cache := Activate point (m_cache rl1)\<rparr>))"

text \<open>At most \<open>n\<close> requests are served; the result is how many were.\<close>

fun regenerate :: "('r, 'f) relay_env \<Rightarrow> ChainPoint \<Rightarrow> nat \<Rightarrow> nat \<Rightarrow> ('r, 's, 'f, nat) action" where
  "regenerate env point 0 served = act_result (Ok served)"
| "regenerate env point (Suc n) served =
     act_then take_request (\<lambda>request.
       case request of
         None \<Rightarrow> act_result (Ok served)
       | Some request \<Rightarrow>
           act_then (at_cache env (FindMatching request)) (\<lambda>found.
           act_then (if found = None then PrepareById env (req_txid request) point else act_result (Ok True)) (\<lambda>_.
           act_then (at_cache env (CompleteRegeneration request)) (\<lambda>_. regenerate env point n (served + 1)))))"

fun prepare_incoming :: "('r, 'f) relay_env \<Rightarrow> ChainPoint \<Rightarrow> Transaction list \<Rightarrow> ('r, 's, 'f, unit) action" where
  "prepare_incoming env point [] = act_result (Ok ())"
| "prepare_incoming env point (tx # txs) =
     act_then (at_cache env (cache_Find (m_txid tx) None)) (\<lambda>found.
     act_then (if found = None then Prepare env tx point else act_result (Ok True)) (\<lambda>_. prepare_incoming env point txs))"

fun prepare_candidates :: "('r, 'f) relay_env \<Rightarrow> ChainPoint \<Rightarrow> hash256 list \<Rightarrow> ('r, 's, 'f, unit) action" where
  "prepare_candidates env point [] = act_result (Ok ())"
| "prepare_candidates env point (txid # txids) =
     act_then (PrepareById env txid point) (\<lambda>_. prepare_candidates env point txids)"

definition read_clock :: "('r, 'f) relay_env \<Rightarrow> ('r, 's, 'f, int) action" where
  "read_clock env rl = (Ok (env_clock env (m_tick rl)), rl\<lparr>m_tick := m_tick rl + 1\<rparr>)"

definition schedule :: "int \<Rightarrow> nat \<Rightarrow> ('r, 's, 'f, unit) action" where
  "schedule now n rl =
     (Ok (), rl\<lparr>m_next_recovery := now + (if n = unat (batch_size (m_config rl)) then 0 else recovery_interval (m_config rl))\<rparr>)"

definition recover :: "('r, 'f) relay_env \<Rightarrow> ChainPoint \<Rightarrow> nat \<Rightarrow> ('r, 's, 'f, unit) action" where
  "recover env point served =
     (if served \<noteq> 0 then act_result (Ok ())
      else act_then (read_clock env) (\<lambda>now rl.
             if now < m_next_recovery rl then (Ok (), rl)
             else act_then (RecoveryCandidates env) (\<lambda>candidates.
                  act_then (prepare_candidates env point candidates) (\<lambda>_.
                  act_then (read_clock env) (\<lambda>now. schedule now (length candidates)))) rl))"

text \<open>The closure \<open>work\<close> of the method.\<close>

definition poll_work :: "('r, 'f) relay_env \<Rightarrow> Transaction list \<Rightarrow> ('r, 's, 'f, unit) action" where
  "poll_work env incoming rl =
     (case CurrentPoint (m_sync rl) of
        None \<Rightarrow> (Err ''transaction relay requires an accumulator chain point'', rl)
      | Some point \<Rightarrow>
          act_then (CheckTip env point) (\<lambda>_.
          act_then (at_cache env Stats) (\<lambda>st.
          act_then (enter_epoch (epoch st) point) (\<lambda>_.
          act_then (regenerate env point 4 0) (\<lambda>served.
          act_then (prepare_incoming env point incoming) (\<lambda>_.
          act_then (recover env point served) (\<lambda>_.
          CheckTip env point)))))) rl)"

definition withdraw :: "('r, 's, 'f) relay \<Rightarrow> ('r, 's, 'f) relay" where
  "withdraw rl = rl\<lparr>m_cache := Invalidate (m_cache rl)\<rparr>"

definition Poll :: "('r, 'f) relay_env \<Rightarrow> Transaction list \<Rightarrow> ('r, 's, 'f, unit) action" where
  "Poll env incoming rl =
     (case poll_work env incoming rl of
        (Ok u, rl1) \<Rightarrow> (Ok u, rl1)
      | (Err e, rl1) \<Rightarrow> (Err e, withdraw rl1)
      | (Throw e, rl1) \<Rightarrow> (Err (''Core transaction metadata error: '' @ e), withdraw rl1))"

section \<open>What a poll leaves in the cache\<close>

text \<open>The anchor and the flag are as before, and every entry was there before or is one of \<open>X\<close>.\<close>

definition cache_within :: "PreparedTransactionEntry set \<Rightarrow> cache \<Rightarrow> cache \<Rightarrow> bool" where
  "cache_within X c c' \<longleftrightarrow> anchor c' = anchor c \<and> ready (stats c') = ready (stats c) \<and>
     snd ` set (entries c') \<subseteq> snd ` set (entries c) \<union> X"

lemma cache_within_refl: "cache_within X c c"
  by (simp add: cache_within_def)

lemma cache_within_trans: "cache_within X a b \<Longrightarrow> cache_within X b c \<Longrightarrow> cache_within X a c"
  unfolding cache_within_def by (simp add: subset_iff) blast

lemma cache_within_mono: "cache_within {} a b \<Longrightarrow> cache_within X a b"
  by (auto simp: cache_within_def)

lemma erase_entry_within: "cache_within {} c (erase_entry x c)"
  by (auto simp: cache_within_def)

lemma erase_sequence_within: "cache_within {} c (erase_sequence k c)"
  by (simp add: erase_sequence_def cache_within_refl erase_entry_within split: option.splits)

lemma cache_Erase_within: "cache_within {} c (cache_Erase t c)"
  by (simp add: cache_Erase_def cache_within_refl erase_sequence_within split: option.splits)

lemma Expire_within: "cache_within {} c (Expire now c)"
proof (induction now c rule: Expire.induct)
  case (1 now c)
  show ?case
  proof (cases "\<exists>x xs. entries c = x # xs \<and> expires (snd x) \<le> now")
    case True
    then obtain x xs where x: "entries c = x # xs" "expires (snd x) \<le> now" by blast
    let ?c1 = "erase_entry x c"
    let ?c2 = "?c1\<lparr>stats := (stats ?c1)\<lparr>expired := expired (stats ?c1) + 1\<rparr>\<rparr>"
    have "cache_within {} c ?c2" using erase_entry_within [of c x] by (simp add: cache_within_def)
    moreover have "Expire now c = Expire now ?c2" using x by (subst Expire.simps) (simp add: Let_def)
    ultimately show ?thesis using 1 [OF x(1) x(2) refl] cache_within_trans by metis
  next
    case False
    then have "Expire now c = c" by (subst Expire.simps) (auto split: list.splits)
    then show ?thesis by (simp add: cache_within_refl)
  qed
qed

lemma evict_within: "cache_within {} c (evict bytes c)"
proof (induction bytes c rule: evict.induct)
  case (1 bytes c)
  show ?case
  proof (cases "evict bytes c = c")
    case True
    then show ?thesis by (simp add: cache_within_refl)
  next
    case False
    then obtain x xs where x: "entries c = x # xs" "length (entries c) \<ge> unat (max_entries (config c)) \<or> bytes > max_bytes (config c) - st_bytes (stats c)"
      by (subst (asm) evict.simps) (auto split: list.splits if_splits)
    let ?c1 = "erase_entry x c"
    let ?c2 = "?c1\<lparr>stats := (stats ?c1)\<lparr>evicted := evicted (stats ?c1) + 1\<rparr>\<rparr>"
    have "cache_within {} c ?c2" using erase_entry_within [of c x] by (simp add: cache_within_def)
    moreover have "evict bytes c = evict bytes ?c2" using x by (subst evict.simps) (simp add: Let_def)
    ultimately show ?thesis using 1 [OF x(1) x(2) refl] cache_within_trans by metis
  qed
qed

lemma Match_within: "cache_within {} c (snd (Match request now c))"
  using Expire_within by (auto simp: Match_def Let_def split: option.splits)

lemma reads_within:
  "cache_within {} c (snd (cache_Find txid sequence now c))" "cache_within {} c (snd (FindMatching request now c))"
  "cache_within {} c (snd (Txids now c))" "cache_within {} c (snd (Stats now c))"
  using Expire_within Match_within by (auto simp: cache_Find_def FindMatching_def Txids_def Stats_def Let_def split: option.splits)

lemma regeneration_within:
  "cache_within {} c (snd (TakeRegeneration c))" "cache_within {} c (snd (CompleteRegeneration request now c))"
proof -
  show "cache_within {} c (snd (TakeRegeneration c))"
    by (auto simp: TakeRegeneration_def cache_within_def set_job_def Let_def split: list.splits option.splits)
  show "cache_within {} c (snd (CompleteRegeneration request now c))"
    using Match_within [of c request now]
    by (cases "Match request now c")
      (simp add: CompleteRegeneration_def cache_within_def set_job_def Let_def split: option.splits)
qed

lemma fold_Erase_within: "cache_within {} c (fold cache_Erase ts c)"
proof (induction ts arbitrary: c)
  case (Cons t ts)
  then show ?case using cache_Erase_within [of c t] cache_within_trans by fastforce
qed (simp add: cache_within_refl)

lemma add_entry_within:
  "cache_within {e. entry_point e = point \<and> entry_proof e = prep} c (add_entry point prep now bytes d c)"
  by (auto simp: cache_within_def add_entry_def new_entry_def Let_def set_insort_key)

lemma Publish_within:
  "cache_within {e. entry_point e = point \<and> entry_proof e = prep} c (snd (Publish cost point prep now now2 c))"
proof -
  let ?X = "{e. entry_point e = point \<and> entry_proof e = prep}"
  let ?c1 = "Expire now c"
  let ?c2 = "cache_Erase (m_txid (prep_transaction prep)) ?c1"
  have e: "cache_within ?X c ?c1" using Expire_within cache_within_mono by blast
  then have "cache_within ?X c ?c2" using cache_Erase_within cache_within_mono cache_within_trans by blast
  then have "cache_within ?X c (evict (cost prep) ?c2)" using evict_within cache_within_mono cache_within_trans by blast
  then have "cache_within ?X c (add_entry point prep now2 (cost prep) d (evict (cost prep) ?c2))" for d
    using add_entry_within cache_within_trans by blast
  moreover have "cache_within ?X c (?c1\<lparr>stats := (stats ?c1)\<lparr>oversized := a\<rparr>\<rparr>)" for a using e by (simp add: cache_within_def)
  ultimately show ?thesis
    by (auto simp: Publish_def Let_def cache_Erase_def cache_within_refl split: Result.splits)
qed

text \<open>A proof that was generated for the confirmed inputs of its transaction, and verified, in the forest \<open>f\<close>.\<close>

definition verified_in :: "('r, 'f) relay_env \<Rightarrow> 'f \<Rightarrow> PreparedTransactionProof \<Rightarrow> bool" where
  "verified_in env f prep \<longleftrightarrow>
     (\<exists>tx leaves pf. list_all2 (\<lambda>input leaf. \<forall>l. leaf = Some l \<longrightarrow> outpoint l = input) (m_inputs tx) leaves \<and>
        VerifyProof pf (map LeafHash (somes leaves)) (somes (op_Roots (env_forest env) f)) (op_NumLeaves (env_forest env) f) = Ok True \<and>
        Create tx pf (map (map_option CompactLeaf) leaves) (op_NumLeaves (env_forest env) f) = Ok prep)"

definition serves :: "('r, 'f) relay_env \<Rightarrow> ('s, 'f) sync \<Rightarrow> ChainPoint \<Rightarrow> ('r, 's, 'f) relay \<Rightarrow> bool" where
  "serves env sy point rl \<longleftrightarrow> m_sync rl = sy \<and> anchor (m_cache rl) = Some point \<and> ready (stats (m_cache rl)) \<and>
     (\<forall>e \<in> snd ` set (entries (m_cache rl)). entry_point e = point \<and> verified_in env (m_forest sy) (entry_proof e))"

text \<open>The action keeps \<open>P\<close>, and its value, if it returns one, satisfies \<open>Q\<close>.\<close>

definition keeps :: "(('r, 's, 'f) relay \<Rightarrow> bool) \<Rightarrow> ('r, 's, 'f, 'a) action \<Rightarrow> ('a \<Rightarrow> bool) \<Rightarrow> bool" where
  "keeps P m Q \<longleftrightarrow> (\<forall>rl. P rl \<longrightarrow> P (snd (m rl)) \<and> (\<forall>a. fst (m rl) = Ok a \<longrightarrow> Q a))"

abbreviation (input) "anyway \<equiv> \<lambda>_. True"

lemma keeps_then: "keeps P m Q \<Longrightarrow> (\<And>a. Q a \<Longrightarrow> keeps P (k a) R) \<Longrightarrow> keeps P (act_then m k) R"
  unfolding keeps_def act_then_def by (auto split: prod.splits Result.splits)

lemma keeps_result: "(\<And>a. r = Ok a \<Longrightarrow> Q a) \<Longrightarrow> keeps P (act_result r) Q"
  by (simp add: keeps_def act_result_def)

lemma keeps_weaken: "keeps P m Q \<Longrightarrow> keeps P m anyway"
  by (simp add: keeps_def)

lemma keeps_state: "(\<And>rl. P rl \<Longrightarrow> keeps P (m rl) Q) \<Longrightarrow> keeps P (\<lambda>rl. m rl rl) Q"
  by (simp add: keeps_def)

text \<open>The actions keep the relay serving.\<close>

lemma serves_rest [simp]:
  "serves env sy point (rl\<lparr>m_client := a\<rparr>) = serves env sy point rl" "serves env sy point (rl\<lparr>m_tick := b\<rparr>) = serves env sy point rl"
  "serves env sy point (rl\<lparr>m_scan_cursor := d\<rparr>) = serves env sy point rl" "serves env sy point (rl\<lparr>m_epoch := g\<rparr>) = serves env sy point rl"
  "serves env sy point (rl\<lparr>m_next_recovery := h\<rparr>) = serves env sy point rl"
  by (simp_all add: serves_def)

lemma serves_within:
  assumes "serves env sy point rl" "cache_within X (m_cache rl) c" "\<And>e. e \<in> X \<Longrightarrow> entry_point e = point \<and> verified_in env (m_forest sy) (entry_proof e)"
  shows "serves env sy point (rl\<lparr>m_cache := c\<rparr>)"
proof -
  have "e \<in> snd ` set (entries (m_cache rl)) \<or> e \<in> X" if "e \<in> snd ` set (entries c)" for e
    using assms(2) that unfolding cache_within_def by blast
  then have "\<forall>e \<in> snd ` set (entries c). entry_point e = point \<and> verified_in env (m_forest sy) (entry_proof e)"
    using assms(1,3) unfolding serves_def by blast
  then show ?thesis using assms(1,2) by (simp add: serves_def cache_within_def)
qed

lemma keeps_Call: "keeps (serves env sy point) (Call env' meth params) anyway"
  by (simp add: keeps_def Call_def Let_def split: prod.splits)

lemma keeps_CallRaw: "keeps (serves env sy point) (CallRaw env' meth) anyway"
  by (simp add: keeps_def CallRaw_def Let_def split: prod.splits)

lemma call_member_state: "snd (call_member env meth params rl) = snd (Call env meth params rl)"
  by (simp add: call_member_def split: prod.splits Result.splits bool.splits)

lemma keeps_call_member: "keeps (serves env sy point) (call_member env' meth params) anyway"
  using keeps_Call [of env sy point env' meth params] by (simp add: keeps_def call_member_state)

lemma keeps_CheckTip: "keeps (serves env sy point) (CheckTip env' pt) anyway"
  unfolding CheckTip_def by (intro keeps_then [OF keeps_Call] keeps_result TrueI)

lemma keeps_read_clock: "keeps (serves env sy point) (read_clock env') anyway"
  by (simp add: keeps_def read_clock_def)

lemma keeps_schedule: "keeps (serves env sy point) (schedule now n) anyway"
  by (simp add: keeps_def schedule_def)

lemma keeps_at_cache:
  assumes "\<And>now c. cache_within {} c (snd (m now c))"
  shows "keeps (serves env sy point) (at_cache env' m) anyway"
proof -
  have "serves env sy point (rl\<lparr>m_cache := c, m_tick := b\<rparr>)" if "serves env sy point rl" "m now (m_cache rl) = (a, c)" for rl now a b c
    using serves_within [OF that(1), of "{}" c] assms [of "m_cache rl" now] that(2) by simp
  then show ?thesis by (simp add: keeps_def at_cache_def Let_def split: prod.splits)
qed

lemma keeps_take_request: "keeps (serves env sy point) take_request anyway"
proof -
  have "serves env sy point (rl\<lparr>m_cache := c\<rparr>)" if "serves env sy point rl" "TakeRegeneration (m_cache rl) = (a, c)" for rl a c
    using serves_within [OF that(1), of "{}" c] regeneration_within(1) [of "m_cache rl"] that(2) by simp
  then show ?thesis by (simp add: keeps_def take_request_def Let_def split: prod.splits)
qed

lemma keeps_erase_missing: "keeps (serves env sy point) (erase_missing ts) anyway"
  unfolding keeps_def erase_missing_def by (auto intro: serves_within [OF _ fold_Erase_within])

lemma keeps_publish:
  assumes "verified_in env (m_forest sy) prep"
  shows "keeps (serves env sy point) (publish_proof env point prep) anyway"
proof -
  have "serves env sy point (rl\<lparr>m_cache := c, m_tick := b\<rparr>)"
    if "serves env sy point rl" "Publish (env_cost env) point prep now now2 (m_cache rl) = (r, c)" for rl now now2 r b c
    using serves_within [OF that(1) Publish_within, of point prep "env_cost env" now now2] assms that(2) by simp
  then show ?thesis by (simp add: keeps_def publish_proof_def Let_def split: prod.splits)
qed

text \<open>The inputs that were collected are those of the leaves \<open>leaves\<close>.\<close>

abbreviation inputs_shape :: "OutPoint list \<Rightarrow> LeafData option list \<Rightarrow> bool" where
  "inputs_shape \<equiv> list_all2 (\<lambda>input leaf. \<forall>l. leaf = Some l \<longrightarrow> outpoint l = input)"

lemma confirmed_leaf_outpoint: "confirmed_leaf chain point input v = Ok leaf \<Longrightarrow> outpoint leaf = input"
  by (auto simp: confirmed_leaf_def Let_def and_then_Ok_iff split: if_splits)

lemma somes_append [simp]: "somes (xs @ ys) = somes xs @ somes ys"
  by (induction xs rule: somes.induct) auto

lemma keeps_if: "(b \<Longrightarrow> keeps P m Q) \<Longrightarrow> (\<not> b \<Longrightarrow> keeps P m' Q) \<Longrightarrow> keeps P (if b then m else m') Q"
  by simp

lemma keeps_option: "(x = None \<Longrightarrow> keeps P m Q) \<Longrightarrow> (\<And>a. x = Some a \<Longrightarrow> keeps P (k a) Q) \<Longrightarrow> keeps P (case x of None \<Rightarrow> m | Some a \<Rightarrow> k a) Q"
  by (simp split: option.splits)

lemma keeps_prepare_inputs:
  assumes "inputs_shape before lfs"
  shows "keeps (serves env sy point)
    (prepare_inputs env pt inputs (map LeafHash (somes lfs)) (map (map_option CompactLeaf) lfs))
    (\<lambda>r. \<forall>hs ls. r = Some (hs, ls) \<longrightarrow> (\<exists>lfs. inputs_shape (before @ inputs) lfs \<and>
       hs = map LeafHash (somes lfs) \<and> ls = map (map_option CompactLeaf) lfs))"
  using assms
proof (induction inputs arbitrary: before lfs)
  case Nil
  then show ?case by (auto intro!: keeps_result)
next
  case (Cons input inputs)
  have step: "keeps (serves env sy point)
    (prepare_inputs env pt inputs (map LeafHash (somes (lfs @ [l]))) (map (map_option CompactLeaf) (lfs @ [l])))
    (\<lambda>r. \<forall>hs ls. r = Some (hs, ls) \<longrightarrow> (\<exists>lfs. inputs_shape (before @ input # inputs) lfs \<and>
       hs = map LeafHash (somes lfs) \<and> ls = map (map_option CompactLeaf) lfs))"
    if "\<forall>x. l = Some x \<longrightarrow> outpoint x = input" for l
    using Cons.IH [of "before @ [input]" "lfs @ [l]"] Cons.prems that by (simp add: list_all2_appendI)
  note none = step [of None, simplified]
  note some = step [of "Some leaf" for leaf, simplified]
  have confirmed: "keeps (serves env sy point)
      (\<lambda>rl. act_then (act_result (confirmed_leaf (m_chain_hashes (m_sync rl)) pt input out)) (\<lambda>leaf.
         prepare_inputs env pt inputs (map LeafHash (somes lfs) @ [LeafHash leaf]) (map (map_option CompactLeaf) lfs @ [Some (CompactLeaf leaf)])) rl)
      (\<lambda>r. \<forall>hs ls. r = Some (hs, ls) \<longrightarrow> (\<exists>lfs. inputs_shape (before @ input # inputs) lfs \<and>
         hs = map LeafHash (somes lfs) \<and> ls = map (map_option CompactLeaf) lfs))" for out
    by (rule keeps_state, rule keeps_then [where Q = "\<lambda>leaf. outpoint leaf = input"], rule keeps_result, erule confirmed_leaf_outpoint,
        rule some)
  have unconfirmed: "keeps (serves env sy point)
      (act_then (call_member env ''getmempoolentry'' (TxidParams (op_txid input))) (\<lambda>parent.
         case parent of None \<Rightarrow> act_result (Ok None)
         | Some _ \<Rightarrow> prepare_inputs env pt inputs (map LeafHash (somes lfs)) (map (map_option CompactLeaf) lfs @ [None])))
      (\<lambda>r. \<forall>hs ls. r = Some (hs, ls) \<longrightarrow> (\<exists>lfs. inputs_shape (before @ input # inputs) lfs \<and>
         hs = map LeafHash (somes lfs) \<and> ls = map (map_option CompactLeaf) lfs))"
    by (rule keeps_then [OF keeps_call_member], rule keeps_option, rule keeps_result, simp, rule none)
  show ?case unfolding prepare_inputs.simps by (rule keeps_then [OF keeps_Call], rule keeps_if, rule unconfirmed, rule confirmed)
qed

lemma prepared_proof_verified:
  "inputs_shape (m_inputs tx) lfs \<Longrightarrow> prepared_proof env tx (map LeafHash (somes lfs)) (map (map_option CompactLeaf) lfs) f = Ok prep \<Longrightarrow>
   verified_in env f prep"
  unfolding verified_in_def prepared_proof_def by (auto split: Result.splits bool.splits)

lemma keeps_publish_checked:
  assumes "verified_in env (m_forest sy) prep"
  shows "keeps (serves env sy point)
    (act_then (CheckTip env point) (\<lambda>_.
     act_then (call_member env ''getmempoolentry'' (TxidParams (m_txid (prep_transaction prep)))) (\<lambda>member.
       case member of
         None \<Rightarrow> act_result (Ok False)
       | Some m \<Rightarrow>
           act_then (act_result (get_str (find_value ''wtxid'' m))) (\<lambda>wtxid.
             if wtxid \<noteq> ToBitcoinHex (m_wtxid (prep_transaction prep)) then act_result (Ok False)
             else publish_proof env point prep)))) anyway"
  by (rule keeps_then [OF keeps_CheckTip], rule keeps_then [OF keeps_call_member], rule keeps_option, rule keeps_result, rule TrueI,
      rule keeps_then [where Q = anyway], rule keeps_result, rule TrueI, rule keeps_if, rule keeps_result, rule TrueI,
      rule keeps_publish [OF assms])

lemma keeps_Prepare: "keeps (serves env sy point) (Prepare env tx point) anyway"
proof -
  have proved: "keeps (serves env sy point)
      (\<lambda>rl. act_then (act_result (prepared_proof env tx (map LeafHash (somes lfs)) (map (map_option CompactLeaf) lfs) (m_forest (m_sync rl)))) (\<lambda>prep.
         act_then (CheckTip env point) (\<lambda>_.
         act_then (call_member env ''getmempoolentry'' (TxidParams (m_txid (prep_transaction prep)))) (\<lambda>member.
           case member of
             None \<Rightarrow> act_result (Ok False)
           | Some m \<Rightarrow>
               act_then (act_result (get_str (find_value ''wtxid'' m))) (\<lambda>wtxid.
                 if wtxid \<noteq> ToBitcoinHex (m_wtxid (prep_transaction prep)) then act_result (Ok False)
                 else publish_proof env point prep)))) rl) anyway"
    if lfs: "inputs_shape (m_inputs tx) lfs" for lfs
    by (rule keeps_state, rule keeps_then [where Q = "verified_in env (m_forest sy)"], rule keeps_result,
        rule prepared_proof_verified [OF lfs], simp add: serves_def, rule keeps_publish_checked)
  have "keeps (serves env sy point) (act_then (prepare_inputs env point (m_inputs tx) [] []) (\<lambda>inputs.
             case inputs of
               None \<Rightarrow> act_result (Ok False)
             | Some (hs, ls) \<Rightarrow>
                 (\<lambda>rl. act_then (act_result (prepared_proof env tx hs ls (m_forest (m_sync rl)))) (\<lambda>prep.
                    act_then (CheckTip env point) (\<lambda>_.
                    act_then (call_member env ''getmempoolentry'' (TxidParams (m_txid (prep_transaction prep)))) (\<lambda>member.
                      case member of
                        None \<Rightarrow> act_result (Ok False)
                      | Some m \<Rightarrow>
                          act_then (act_result (get_str (find_value ''wtxid'' m))) (\<lambda>wtxid.
                            if wtxid \<noteq> ToBitcoinHex (m_wtxid (prep_transaction prep)) then act_result (Ok False)
                            else publish_proof env point prep)))) rl))) anyway"
    using proved
    by (intro keeps_then [OF keeps_prepare_inputs [of "[]" "[]", simplified]] keeps_option)
      (auto intro!: keeps_result split: prod.splits)
  then show ?thesis unfolding Prepare_def
    by (intro keeps_then [OF keeps_call_member] keeps_option keeps_if keeps_result TrueI)
qed

lemma keeps_PrepareById: "keeps (serves env sy point) (PrepareById env txid point) anyway"
proof -
  have p: "keeps (serves env sy point)
      (case Transaction_Parse bytes (of_nat MAX_TX_PAYLOAD) of
         Ok tx \<Rightarrow> if m_txid tx \<noteq> txid then act_result (Err ''invalid Core recovery transaction'') else Prepare env tx point
       | Throw e \<Rightarrow> act_result (Throw e)
       | Err e \<Rightarrow> act_result (Err ''invalid Core recovery transaction'')) anyway" for bytes
    using keeps_Prepare by (auto intro!: keeps_result split: Result.splits)
  show ?thesis unfolding PrepareById_def
    by (rule keeps_then [OF keeps_call_member], rule keeps_option, rule keeps_result, rule TrueI,
        rule keeps_then [where Q = anyway], rule keeps_result, rule TrueI, rule keeps_then [where Q = anyway], rule keeps_result, rule TrueI, rule p)
qed

lemma keeps_Find: "keeps (serves env sy point) (at_cache env' (cache_Find txid sequence)) anyway"
  by (rule keeps_at_cache) (rule reads_within)

lemma keeps_scan_txid: "keeps (serves env sy point) (scan_txid env' txid sc) anyway"
proof -
  have "keeps (serves env sy point) (act_then (at_cache env' (cache_Find txid None)) (\<lambda>found. act_result (Ok (k found)))) anyway" for k :: "_ \<Rightarrow> scan"
    by (rule keeps_then [OF keeps_Find], rule keeps_result, rule TrueI)
  then have a: "serves env sy point rl \<Longrightarrow>
      serves env sy point (snd (act_then (at_cache env' (cache_Find txid None)) (\<lambda>found. act_result (Ok (k found))) rl))" for rl and k :: "_ \<Rightarrow> scan"
    by (simp add: keeps_def)
  show ?thesis unfolding scan_txid_def keeps_def Let_def by (auto intro!: a)
qed

lemma scan_inventory_serves: "serves env sy point rl \<Longrightarrow> serves env sy point (snd (scan_inventory env' json sc rl))"
proof (induction env' json sc rl rule: scan_inventory.induct)
  case (1 env' json sc rl)
  have ok: "scan_txid env' txid sc rl = (r, rl1) \<Longrightarrow> serves env sy point rl1" for txid r rl1
    using keeps_scan_txid [of env sy point env' txid sc] 1(2) by (auto simp: keeps_def dest: spec [of _ rl])
  show ?case
  proof (cases "length json < 66 \<or> json ! 0 \<noteq> CHR 0x22 \<or> json ! 65 \<noteq> CHR 0x22")
    case True
    then show ?thesis using 1(2) by (subst scan_inventory.simps) simp
  next
    case False
    note IH = 1(1) [OF False]
    show ?thesis
      by (subst scan_inventory.simps)
        (use 1(2) IH ok False in \<open>auto simp: act_then_def act_result_def split: Result.splits prod.splits list.splits\<close>)
  qed
qed

lemma keeps_scan_array: "keeps (serves env sy point) (scan_array env' json sc) anyway"
proof -
  have i: "keeps (serves env sy point) (scan_inventory env' json sc) anyway" by (auto simp: keeps_def intro: scan_inventory_serves)
  show ?thesis unfolding scan_array_def
    by (rule keeps_then [where Q = anyway], rule keeps_if, rule i, rule keeps_result, rule TrueI) (auto intro!: keeps_result)
qed

lemma keeps_RecoveryCandidates: "keeps (serves env sy point) (RecoveryCandidates env') anyway"
proof -
  have done_: "keeps (serves env sy point)
      (\<lambda>rl1. act_then (erase_missing (sc_missing sc)) (\<lambda>_. act_result (Ok (sc_candidates sc))) (rl1\<lparr>m_scan_cursor := x\<rparr>)) anyway" for sc x
  proof -
    have "keeps (serves env sy point) (act_then (erase_missing (sc_missing sc)) (\<lambda>_. act_result (Ok (sc_candidates sc)))) anyway"
      by (rule keeps_then [OF keeps_erase_missing], rule keeps_result, rule TrueI)
    then show ?thesis by (simp add: keeps_def)
  qed
  have txids: "keeps (serves env sy point) (at_cache env' Txids) anyway" by (rule keeps_at_cache) (rule reads_within)
  have scan: "keeps (serves env sy point)
      (\<lambda>rl. act_then (scan_array env' json (sc (m_scan_cursor rl))) (\<lambda>sc rl1.
         act_then (erase_missing (sc_missing sc)) (\<lambda>_. act_result (Ok (sc_candidates sc)))
           (rl1\<lparr>m_scan_cursor := (if sc_next_cursor sc \<ge> sc_count sc then 0 else sc_next_cursor sc)\<rparr>)) rl) anyway" for json sc
    by (rule keeps_state, rule keeps_then [OF keeps_scan_array], rule done_)
  show ?thesis unfolding RecoveryCandidates_def
  proof (rule keeps_then [OF keeps_CallRaw], rule keeps_then [OF txids], goal_cases)
    case (1 inventory retained)
    then show ?case
      using scan [of _ "\<lambda>k. \<lparr>sc_missing = retained, sc_candidates = [], sc_count = 0, sc_next_cursor = k\<rparr>"]
      by (cases "Whitespace (raw_Value inventory)") (auto intro!: keeps_result)
  qed
qed

lemma keeps_regenerate: "keeps (serves env sy point) (regenerate env point n k) anyway"
proof (induction n arbitrary: k)
  case (Suc n)
  have find: "keeps (serves env sy point) (at_cache env (FindMatching request)) anyway" for request by (rule keeps_at_cache) (rule reads_within)
  have complete: "keeps (serves env sy point) (at_cache env (CompleteRegeneration request)) anyway" for request
    by (rule keeps_at_cache) (rule regeneration_within)
  show ?case unfolding regenerate.simps
    by (rule keeps_then [OF keeps_take_request], rule keeps_option, rule keeps_result, rule TrueI, rule keeps_then [OF find],
        rule keeps_then [where Q = anyway], rule keeps_if, rule keeps_PrepareById, rule keeps_result, rule TrueI,
        rule keeps_then [OF complete], rule Suc.IH)
qed (auto intro: keeps_result)

lemma keeps_prepare_incoming: "keeps (serves env sy point) (prepare_incoming env point txs) anyway"
proof (induction txs)
  case (Cons tx txs)
  show ?case unfolding prepare_incoming.simps
    by (rule keeps_then [OF keeps_Find], rule keeps_then [where Q = anyway], rule keeps_if, rule keeps_Prepare, rule keeps_result, rule TrueI,
        rule Cons.IH)
qed (auto intro: keeps_result)

lemma keeps_prepare_candidates: "keeps (serves env sy point) (prepare_candidates env point ts) anyway"
proof (induction ts)
  case (Cons t ts)
  show ?case unfolding prepare_candidates.simps by (rule keeps_then [OF keeps_PrepareById], rule Cons.IH)
qed (auto intro: keeps_result)

lemma keeps_recover: "keeps (serves env sy point) (recover env point served) anyway"
proof -
  have r: "keeps (serves env sy point) (act_then (RecoveryCandidates env) (\<lambda>candidates.
      act_then (prepare_candidates env point candidates) (\<lambda>_. act_then (read_clock env) (\<lambda>now. schedule now (length candidates))))) anyway"
    by (rule keeps_then [OF keeps_RecoveryCandidates], rule keeps_then [OF keeps_prepare_candidates], rule keeps_then [OF keeps_read_clock],
        rule keeps_schedule)
  have "keeps (serves env sy point) (\<lambda>rl. if now < m_next_recovery rl then (Ok (), rl)
      else act_then (RecoveryCandidates env) (\<lambda>candidates.
      act_then (prepare_candidates env point candidates) (\<lambda>_. act_then (read_clock env) (\<lambda>now. schedule now (length candidates)))) rl) anyway" for now
    using r by (simp add: keeps_def)
  then show ?thesis unfolding recover_def
    by (intro keeps_if keeps_result TrueI keeps_then [OF keeps_read_clock])
qed

text \<open>Before a poll the entries must be right only if the cache is anchored at the current point.\<close>

definition relay_ok :: "('r, 'f) relay_env \<Rightarrow> ('r, 's, 'f) relay \<Rightarrow> bool" where
  "relay_ok env rl \<longleftrightarrow> (anchor (m_cache rl) = None \<longrightarrow> entries (m_cache rl) = []) \<and>
     (\<forall>point. CurrentPoint (m_sync rl) = Some point \<and> anchor (m_cache rl) = Some point \<longrightarrow>
        (\<forall>e \<in> snd ` set (entries (m_cache rl)). entry_point e = point \<and> verified_in env (m_forest (m_sync rl)) (entry_proof e)))"

lemma enter_epoch_serves:
  assumes "relay_ok env rl" "CurrentPoint (m_sync rl) = Some point"
  shows "serves env (m_sync rl) point (snd (enter_epoch e point rl))"
proof -
  have "\<forall>x \<in> snd ` set (entries (Activate point (m_cache rl))). entry_point x = point \<and> verified_in env (m_forest (m_sync rl)) (entry_proof x)"
    using assms by (cases "anchor (m_cache rl)") (auto simp: relay_ok_def Activate_def Clear_def Let_def)
  then show ?thesis by (simp add: enter_epoch_def serves_def Let_def) (simp add: Activate_def Let_def)
qed

lemma CheckTip_result:
  "CheckTip env point rl = (r, rl') \<Longrightarrow> m_sync rl' = m_sync rl \<and> m_cache rl' = m_cache rl \<and>
   (r = Ok () \<longrightarrow> op_Call (env_rpc env) ''getbestblockhash'' [] (m_client rl) = (Ok (VSTR (ToBitcoinHex (point_hash point))), m_client rl'))"
  by (auto simp: CheckTip_def Call_def act_then_def act_result_def Let_def split: prod.splits Result.splits if_splits)

lemma relay_ok_within:
  assumes "relay_ok env rl" "cache_within {} (m_cache rl) c"
  shows "relay_ok env (rl\<lparr>m_cache := c, m_tick := t\<rparr>)"
proof -
  have c: "snd ` set (entries c) \<subseteq> snd ` set (entries (m_cache rl))" "anchor c = anchor (m_cache rl)" using assms(2) by (simp_all add: cache_within_def)
  then have n: "entries (m_cache rl) = [] \<Longrightarrow> entries c = []" by simp
  show ?thesis unfolding relay_ok_def
  proof (intro conjI allI impI ballI)
    fix point e
    assume "CurrentPoint (m_sync (rl\<lparr>m_cache := c, m_tick := t\<rparr>)) = Some point \<and> anchor (m_cache (rl\<lparr>m_cache := c, m_tick := t\<rparr>)) = Some point"
      "e \<in> snd ` set (entries (m_cache (rl\<lparr>m_cache := c, m_tick := t\<rparr>)))"
    moreover from this(2) have "e \<in> snd ` set (entries (m_cache rl))" using subsetD [OF c(1)] by simp
    ultimately show "entry_point e = point" "verified_in env (m_forest (m_sync (rl\<lparr>m_cache := c, m_tick := t\<rparr>))) (entry_proof e)"
      using assms(1) c(2) by (auto simp: relay_ok_def)
  qed (use assms(1) c(2) n in \<open>simp add: relay_ok_def\<close>)
qed

lemma act_then_Ok:
  "act_then m k rl = (Ok b, rl2) \<longleftrightarrow> (\<exists>a rl1. m rl = (Ok a, rl1) \<and> k a rl1 = (Ok b, rl2))"
  by (auto simp: act_then_def split: prod.splits Result.splits)

lemma keepsD: "keeps P m Q \<Longrightarrow> m rl = (r, rl') \<Longrightarrow> P rl \<Longrightarrow> P rl'"
  unfolding keeps_def by (metis snd_conv)

lemma poll_work_Ok:
  assumes "relay_ok env rl" "poll_work env incoming rl = (Ok (), rl')"
  shows "\<exists>point client. CurrentPoint (m_sync rl) = Some point \<and> serves env (m_sync rl) point rl' \<and>
    op_Call (env_rpc env) ''getbestblockhash'' [] client = (Ok (VSTR (ToBitcoinHex (point_hash point))), m_client rl')"
proof -
  obtain point where p: "CurrentPoint (m_sync rl) = Some point" using assms(2) by (auto simp: poll_work_def split: option.splits)
  obtain rl1 st rl2 rl3 k rl4 rl5 rl6 where steps: "CheckTip env point rl = (Ok (), rl1)" "at_cache env Stats rl1 = (Ok st, rl2)"
    "enter_epoch (epoch st) point rl2 = (Ok (), rl3)" "regenerate env point 4 0 rl3 = (Ok k, rl4)"
    "prepare_incoming env point incoming rl4 = (Ok (), rl5)" "recover env point k rl5 = (Ok (), rl6)" "CheckTip env point rl6 = (Ok (), rl')"
    using assms(2) unfolding poll_work_def p option.case act_then_Ok by auto
  have 1: "relay_ok env rl1" "m_sync rl1 = m_sync rl" using CheckTip_result [OF steps(1)] assms(1) by (auto simp: relay_ok_def)
  have "relay_ok env rl2 \<and> m_sync rl2 = m_sync rl"
    using steps(2) relay_ok_within [OF 1(1) reads_within(4)] 1(2) by (auto simp: at_cache_def Let_def split: prod.splits) (metis snd_conv)
  then have "serves env (m_sync rl) point rl3" using enter_epoch_serves [of env rl2 point "epoch st"] steps(3) p by simp
  then have "serves env (m_sync rl) point rl6" using keepsD keeps_regenerate keeps_prepare_incoming keeps_recover steps(4-6) by metis
  then have "serves env (m_sync rl) point rl'" using keepsD [OF keeps_CheckTip steps(7)] by blast
  then show ?thesis using p CheckTip_result [OF steps(7)] by blast
qed


section \<open>An example\<close>

definition demo_rpc :: "unit rpc_ops" where
  "demo_rpc = \<lparr>op_Call = (\<lambda>method params c. (Ok zero_id, c)),
     op_CallRaw = (\<lambda>method c. (Ok \<lparr>raw_json = ''[]'', value_offset = 0, value_size = 2\<rparr>, c))\<rparr>"

definition demo_env :: "(unit, forest) relay_env" where
  "demo_env = \<lparr>env_rpc = demo_rpc, env_forest = ram_ops, env_read = (\<lambda>_. None), env_cost = (\<lambda>_. 10), env_clock = (\<lambda>_. 0)\<rparr>"

definition demo_relay :: "(unit, unit, forest) relay" where
  "demo_relay = \<lparr>m_client = (), m_sync = SequentialSync () empty_forest [null_hash], m_cache = demo_empty,
     m_config = \<lparr>batch_size = 64, recovery_interval = 5\<rparr>, m_scan_cursor = 0, m_epoch = - 1, m_next_recovery = 0, m_tick = 0\<rparr>"

lemma demo_steps:
  assumes "entries (m_cache rl) = []" "pending (m_cache rl) = []"
  shows "CheckTip demo_env \<lparr>height = 0, point_hash = null_hash\<rparr> rl = (Ok (), rl)"
    "\<exists>st. at_cache demo_env Stats rl = (Ok st, rl\<lparr>m_tick := m_tick rl + 1\<rparr>)"
    "regenerate demo_env point (Suc n) 0 rl = (Ok 0, rl)"
    "m_scan_cursor rl = 0 \<Longrightarrow> RecoveryCandidates demo_env rl = (Ok [], rl\<lparr>m_tick := m_tick rl + 1, m_scan_cursor := 0\<rparr>)"
proof -
  have e0: "Expire now (m_cache rl) = m_cache rl" for now using assms by (subst Expire.simps) simp
  show "CheckTip demo_env \<lparr>height = 0, point_hash = null_hash\<rparr> rl = (Ok (), rl)"
    by (simp add: CheckTip_def act_then_def Call_def demo_env_def demo_rpc_def act_result_def zero_id_def)
  show "\<exists>st. at_cache demo_env Stats rl = (Ok st, rl\<lparr>m_tick := m_tick rl + 1\<rparr>)" by (simp add: at_cache_def Stats_def e0 Let_def)
  show "regenerate demo_env point (Suc n) 0 rl = (Ok 0, rl)"
    using assms by (simp add: act_then_def take_request_def TakeRegeneration_def act_result_def)
  have "scan_array demo_env '']'' sc rl1 = (Ok sc, rl1)" for sc and rl1 :: "(unit, 'a, forest) relay"
    by (simp add: scan_array_def act_then_def act_result_def Whitespace_def)
  then show "RecoveryCandidates demo_env rl = (Ok [], rl\<lparr>m_tick := m_tick rl + 1, m_scan_cursor := 0\<rparr>)" if "m_scan_cursor rl = 0"
    using assms that
    by (simp add: RecoveryCandidates_def act_then_def CallRaw_def at_cache_def Txids_def e0 demo_env_def demo_rpc_def raw_Value_def Whitespace_def ws_def
        erase_missing_def act_result_def)
qed


end
