(* ===== verification/BridgeWire.thy ===== *)
theory BridgeWire
  imports Wire Leaf Verify
begin

text \<open>
  The proof data the bridge appends to a block (\<^verbatim>\<open>src/src/bridge_wire.cpp\<close>). The file has its own copies of
  \<open>AppendLE\<close> and \<open>AppendCompactSize\<close>, equal to those of the transaction wire format. The code has no reader
  of this format: \<open>ReadUData\<close> is the reference that states what a peer can read from the bytes, built from
  the readers of the transaction wire format.
\<close>

section \<open>The writer\<close>

definition udata_leaf :: "CompactLeafData \<Rightarrow> byte list Result" where
  "udata_leaf leaf =
     (let front = write_le 4 (header_code leaf) @ write_le 8 (amount leaf) @ [script_type leaf]
      in if script_type leaf = OTHER then Ok (front @ AppendCompactSize (of_nat (length (compact_script leaf))) @ compact_script leaf)
         else if compact_script leaf \<noteq> [] then Err ''standard compact leaf unexpectedly contains a script''
         else Ok front)"

fun udata_leaves :: "CompactLeafData list \<Rightarrow> byte list \<Rightarrow> byte list Result" where
  "udata_leaves [] out = Ok out"
| "udata_leaves (leaf # ls) out = and_then (udata_leaf leaf) (\<lambda>bs. udata_leaves ls (out @ bs))"

definition SerializeUData :: "Proof \<Rightarrow> CompactLeafData list \<Rightarrow> byte list Result" where
  "SerializeUData pf ls =
     (if length (targets pf) \<noteq> length ls then Err ''proof target and compact-leaf counts differ''
      else udata_leaves ls
        (AppendCompactSize 0 @
         AppendCompactSize (of_nat (length (targets pf))) @ concat (map AppendCompactSize (targets pf)) @
         AppendCompactSize (of_nat (length (hashes pf))) @ concat (map Bytes (hashes pf)) @
         AppendCompactSize (of_nat (length ls))))"

section \<open>The reference reader\<close>

definition ReadLeaf :: "CompactLeafData reader" where
  "ReadLeaf bs =
     (case pair_dec (LE 4) (pair_dec (LE 8) (LE 1)) bs of
        None \<Rightarrow> None
      | Some ((h, a, t), bs1) \<Rightarrow>
          if t \<noteq> OTHER then Some (\<lparr>header_code = h, amount = a, script_type = t, compact_script = []\<rparr>, bs1)
          else case CompactSize bs1 of
                 None \<Rightarrow> None
               | Some (n, bs2) \<Rightarrow>
                   if unat n > length bs2 then None
                   else Some (\<lparr>header_code = h, amount = a, script_type = t, compact_script = take (unat n) bs2\<rparr>, drop (unat n) bs2))"

definition read_list :: "'a reader \<Rightarrow> 'a list reader" where
  "read_list dec bs = (case CompactSize bs of None \<Rightarrow> None | Some (n, bs1) \<Rightarrow> read_many (unat n) dec bs1)"

definition ReadUData :: "(Proof \<times> CompactLeafData list) reader" where
  "ReadUData bs =
     (case pair_dec CompactSize (pair_dec (read_list CompactSize) (pair_dec (read_list ReadHash) (read_list ReadLeaf))) bs of
        None \<Rightarrow> None
      | Some ((r, ts, hs, ls), rest) \<Rightarrow>
          if r \<noteq> 0 \<or> length ts \<noteq> length ls then None else Some ((\<lparr>targets = ts, hashes = hs\<rparr>, ls), rest))"

section \<open>The writer and the reader agree\<close>

definition leaf_writable :: "CompactLeafData \<Rightarrow> bool" where
  "leaf_writable l \<longleftrightarrow> length (compact_script l) < 2 ^ 64 \<and> (script_type l \<noteq> OTHER \<longrightarrow> compact_script l = [])"

definition leaf_enc :: "CompactLeafData \<Rightarrow> byte list" where
  "leaf_enc l = write_le 4 (header_code l) @ write_le 8 (amount l) @ [script_type l] @
     (if script_type l = OTHER then AppendCompactSize (of_nat (length (compact_script l))) @ compact_script l else [])"

lemma udata_leaf_enc:
  "udata_leaf l = (if script_type l \<noteq> OTHER \<and> compact_script l \<noteq> [] then Err ''standard compact leaf unexpectedly contains a script'' else Ok (leaf_enc l))"
  by (simp add: udata_leaf_def leaf_enc_def Let_def)

lemma header_codec:
  "codec (pair_enc (write_le 4 :: u32 \<Rightarrow> byte list) (pair_enc (write_le 8 :: u64 \<Rightarrow> byte list) (\<lambda>b :: u8. [b])))
     (pair_dec (LE 4) (pair_dec (LE 8) (LE 1))) (\<lambda>(a, b). True \<and> (case b of (a, b) \<Rightarrow> True \<and> True))"
  by (intro codec_pair u32le.codec_axioms u64le.codec_axioms u8le.codec_axioms)

lemma header_iff:
  "pair_dec (LE 4) (pair_dec (LE 8) (LE 1)) bs = Some ((h :: u32, a :: u64, t :: u8), rest) \<longleftrightarrow> bs = write_le 4 h @ write_le 8 a @ t # rest"
  using codec.dec_iff [OF header_codec, of bs "(h, a, t)" rest] by (simp add: pair_enc_def)

lemma of_nat_unat_len: "length xs = unat (n :: u64) \<longleftrightarrow> length xs < 2 ^ 64 \<and> n = of_nat (length xs)"
proof
  assume "length xs = unat n"
  then show "length xs < 2 ^ 64 \<and> n = of_nat (length xs)" using unat_u64_less [of n] by simp
qed (simp add: unsigned_of_nat take_bit_nat_eq_self)

lemma ReadLeaf_iff: "ReadLeaf bs = Some (l, rest) \<longleftrightarrow> leaf_writable l \<and> bs = leaf_enc l @ rest"
proof
  assume "ReadLeaf bs = Some (l, rest)"
  then obtain h a t bs1 where h: "pair_dec (LE 4) (pair_dec (LE 8) (LE 1)) bs = Some ((h :: u32, a :: u64, t :: u8), bs1)"
    and l: "t \<noteq> OTHER \<and> l = \<lparr>header_code = h, amount = a, script_type = t, compact_script = []\<rparr> \<and> rest = bs1 \<or>
      t = OTHER \<and> (\<exists>n bs2. CompactSize bs1 = Some (n, bs2) \<and> unat n \<le> length bs2 \<and>
        l = \<lparr>header_code = h, amount = a, script_type = t, compact_script = take (unat n) bs2\<rparr> \<and> rest = drop (unat n) bs2)"
    by (auto simp: ReadLeaf_def not_less split: option.splits prod.splits if_splits)
  have bs: "bs = write_le 4 h @ write_le 8 a @ t # bs1" using h unfolding header_iff .
  from l show "leaf_writable l \<and> bs = leaf_enc l @ rest"
  proof
    assume "t = OTHER \<and> (\<exists>n bs2. CompactSize bs1 = Some (n, bs2) \<and> unat n \<le> length bs2 \<and>
        l = \<lparr>header_code = h, amount = a, script_type = t, compact_script = take (unat n) bs2\<rparr> \<and> rest = drop (unat n) bs2)"
    then obtain n bs2 where n: "t = OTHER" "bs1 = AppendCompactSize n @ bs2" "unat n \<le> length bs2"
        "l = \<lparr>header_code = h, amount = a, script_type = t, compact_script = take (unat n) bs2\<rparr>" "rest = drop (unat n) bs2"
      by (auto simp: CompactSize_iff)
    have "length (take (unat n) bs2) = unat n" using n(3) by simp
    then have "length (take (unat n) bs2) < 2 ^ 64" "n = of_nat (length (take (unat n) bs2))" using of_nat_unat_len [of "take (unat n) bs2" n] by blast+
    then show ?thesis using bs n by (simp add: leaf_enc_def leaf_writable_def del: length_take)
  qed (use bs in \<open>simp add: leaf_enc_def leaf_writable_def\<close>)
next
  assume r: "leaf_writable l \<and> bs = leaf_enc l @ rest"
  let ?tail = "(if script_type l = OTHER then AppendCompactSize (of_nat (length (compact_script l))) @ compact_script l else []) @ rest"
  have "pair_dec (LE 4) (pair_dec (LE 8) (LE 1)) bs = Some ((header_code l, amount l, script_type l), ?tail)"
    unfolding header_iff using r by (simp add: leaf_enc_def)
  moreover have "script_type l = OTHER \<Longrightarrow> CompactSize ?tail = Some (of_nat (length (compact_script l)), compact_script l @ rest)"
    by (simp add: CompactSize_iff)
  moreover have "unat (of_nat (length (compact_script l)) :: u64) = length (compact_script l)"
    using r by (simp add: leaf_writable_def unsigned_of_nat take_bit_nat_eq_self)
  ultimately show "ReadLeaf bs = Some (l, rest)" using r by (cases l) (auto simp: ReadLeaf_def leaf_writable_def)
qed

interpretation udata_leaf: codec leaf_enc ReadLeaf leaf_writable
  by unfold_locales (rule ReadLeaf_iff)

definition list_enc :: "('a \<Rightarrow> byte list) \<Rightarrow> 'a list \<Rightarrow> byte list" where
  "list_enc enc xs = AppendCompactSize (of_nat (length xs)) @ concat (map enc xs)"

lemma codec_list:
  assumes "codec enc dec P"
  shows "codec (list_enc enc) (read_list dec) (\<lambda>xs. length xs < 2 ^ 64 \<and> (\<forall>x \<in> set xs. P x))"
proof
  fix bs xs rest
  have "read_list dec bs = Some (xs, rest) \<longleftrightarrow> (\<exists>n bs1. CompactSize bs = Some (n, bs1) \<and> read_many (unat n) dec bs1 = Some (xs, rest))"
    by (auto simp: read_list_def split: option.splits)
  also have "\<dots> \<longleftrightarrow> (\<exists>n. length xs = unat n \<and> (\<forall>x \<in> set xs. P x) \<and> bs = AppendCompactSize n @ concat (map enc xs) @ rest)"
    by (auto simp: CompactSize_iff codec.read_many_iff [OF assms])
  also have "\<dots> \<longleftrightarrow> (length xs < 2 ^ 64 \<and> (\<forall>x \<in> set xs. P x)) \<and> bs = list_enc enc xs @ rest"
    by (auto simp: of_nat_unat_len list_enc_def)
  finally show "read_list dec bs = Some (xs, rest) \<longleftrightarrow> (length xs < 2 ^ 64 \<and> (\<forall>x \<in> set xs. P x)) \<and> bs = list_enc enc xs @ rest" .
qed

lemma udata_leaves_enc:
  "udata_leaves ls out =
     (if \<exists>l \<in> set ls. script_type l \<noteq> OTHER \<and> compact_script l \<noteq> [] then Err ''standard compact leaf unexpectedly contains a script''
      else Ok (out @ concat (map leaf_enc ls)))"
  by (induction ls arbitrary: out) (auto simp: udata_leaf_enc)

text \<open>What can be written: a compact leaf for every target, and no script beside a standard type.\<close>

definition udata_ok :: "Proof \<Rightarrow> CompactLeafData list \<Rightarrow> bool" where
  "udata_ok pf ls \<longleftrightarrow> length (targets pf) = length ls \<and> (\<forall>l \<in> set ls. script_type l \<noteq> OTHER \<longrightarrow> compact_script l = [])"

lemma SerializeUData_enc:
  "udata_ok pf ls \<Longrightarrow> SerializeUData pf ls =
     Ok (AppendCompactSize 0 @ list_enc AppendCompactSize (targets pf) @ list_enc Bytes (hashes pf) @ list_enc leaf_enc ls)"
  "\<not> udata_ok pf ls \<Longrightarrow> \<exists>e. SerializeUData pf ls = Err e"
  by (auto simp: SerializeUData_def udata_leaves_enc udata_ok_def list_enc_def)

lemma ReadUData_iff:
  "ReadUData bs = Some ((pf, ls), rest) \<longleftrightarrow> length (targets pf) = length ls \<and> length (targets pf) < 2 ^ 64 \<and> length (hashes pf) < 2 ^ 64 \<and>
     (\<forall>l \<in> set ls. leaf_writable l) \<and>
     bs = AppendCompactSize 0 @ list_enc AppendCompactSize (targets pf) @ list_enc Bytes (hashes pf) @ list_enc leaf_enc ls @ rest"
proof -
  note c = codec_pair [OF compact.codec_axioms codec_pair [OF codec_list [OF compact.codec_axioms]
    codec_pair [OF codec_list [OF hashes.codec_axioms] codec_list [OF udata_leaf.codec_axioms]]]]
  have "ReadUData bs = Some ((pf, ls), rest) \<longleftrightarrow> length (targets pf) = length ls \<and>
    pair_dec CompactSize (pair_dec (read_list CompactSize) (pair_dec (read_list ReadHash) (read_list ReadLeaf))) bs =
      Some ((0, targets pf, hashes pf, ls), rest)"
    by (cases pf) (auto simp: ReadUData_def split: option.splits prod.splits if_splits)
  then show ?thesis unfolding codec.dec_iff [OF c] by (auto simp: pair_enc_def)
qed

text \<open>C33: The proof data of a block is unambiguous: it is written exactly when there is a compact leaf for every
  target and no standard leaf has a script, and a reader recovers the proof and the leaves from the bytes, whatever
  follows them, for all that fits the length fields; nothing else is read as this data.\<close>

theorem SerializeUData_roundtrip:
  assumes "length (hashes pf) < 2 ^ 64" "length ls < 2 ^ 64" "\<forall>l \<in> set ls. length (compact_script l) < 2 ^ 64"
  shows "(udata_ok pf ls \<longleftrightarrow> (\<exists>bs. SerializeUData pf ls = Ok bs)) \<and>
    (\<forall>bs rest. SerializeUData pf ls = Ok bs \<longrightarrow> ReadUData (bs @ rest) = Some ((pf, ls), rest)) \<and>
    (\<forall>s rest. ReadUData s = Some ((pf, ls), rest) \<longrightarrow> (\<exists>bs. SerializeUData pf ls = Ok bs \<and> s = bs @ rest))"
proof (cases "udata_ok pf ls")
  case True
  then have "\<forall>l \<in> set ls. leaf_writable l" "length (targets pf) = length ls" using assms by (auto simp: udata_ok_def leaf_writable_def)
  then show ?thesis using True assms by (simp add: SerializeUData_enc(1) ReadUData_iff)
next
  case False
  then have "\<not> (length (targets pf) = length ls \<and> (\<forall>l \<in> set ls. leaf_writable l))" by (auto simp: udata_ok_def leaf_writable_def)
  then show ?thesis using False SerializeUData_enc(2) [OF False] by (auto simp: ReadUData_iff)
qed

theorem SerializeUData_roundtrip_witness:
  "\<exists>bs. SerializeUData \<lparr>targets = [300], hashes = [null_hash]\<rparr> [\<lparr>header_code = 7, amount = 50, script_type = 0, compact_script = [1, 2]\<rparr>] = Ok bs \<and>
     ReadUData (bs @ [9]) = Some ((\<lparr>targets = [300], hashes = [null_hash]\<rparr>, [\<lparr>header_code = 7, amount = 50, script_type = 0, compact_script = [1, 2]\<rparr>]), [9])"
proof -
  let ?pf = "\<lparr>targets = [300], hashes = [null_hash]\<rparr>" and ?ls = "[\<lparr>header_code = 7, amount = 50, script_type = 0, compact_script = [1, 2]\<rparr>]"
  have "udata_ok ?pf ?ls" by (simp add: udata_ok_def)
  then show ?thesis using SerializeUData_roundtrip [of ?pf ?ls] by auto
qed

end
