(* ===== verification/Wal.thy ===== *)
theory Wal
  imports Arena Wire TransactionCache
begin

unbundle bit_operations_syntax

text \<open>
  The write-ahead log of the online forest (\<^verbatim>\<open>src/src/forest.cpp\<close>, \<open>WalTransaction\<close>, \<open>SerializeWal\<close>, \<open>ParseWal\<close> and the
  recovery of \<open>OnlineStore\<close>). A segment file is its list of bytes; the files of a directory are given in the
  order of their names. The reader of a fixed number of little-endian bytes is that of the wire format. The field
  \<open>was_dirty\<close> of a node change is written by the code and read nowhere, and is left out. Truncating a file and
  forcing it to disk are taken to succeed.
\<close>

section \<open>Transactions and their bytes\<close>

datatype WalKind = CONNECT | DISCONNECT

record NodeChange =
  change_id :: NodeId
  change_before :: NodeRecord
  change_after :: NodeRecord

record WalTransaction =
  wal_kind :: WalKind
  wal_lsn :: u64
  wal_previous :: ChainPoint
  wal_point :: ChainPoint
  before_num_leaves :: u64
  after_num_leaves :: u64
  before_next :: NodeId
  after_next :: NodeId
  before_roots :: "NodeId list"
  after_roots :: "NodeId list"
  wal_changes :: "NodeChange list"

definition WAL_MAGIC :: "byte list" where
  "WAL_MAGIC = [0x55, 0x54, 0x52, 0x57, 0x41, 0x4c, 0x30, 0x31]"

definition WAL_COMMIT :: "byte list" where
  "WAL_COMMIT = [0x43, 0x4f, 0x4d, 0x4d, 0x49, 0x54, 0x30, 0x31]"

definition ONLINE_FORMAT_VERSION :: u32 where
  "ONLINE_FORMAT_VERSION = 2"

definition LEGACY_ONLINE_FORMAT_VERSION :: u32 where
  "LEGACY_ONLINE_FORMAT_VERSION = 1"

definition ExtendChecksum :: "u64 \<Rightarrow> byte list \<Rightarrow> u64" where
  "ExtendChecksum v bs = fold (\<lambda>b v. (v XOR ucast b) * 1099511628211) bs v"

definition Checksum :: "byte list \<Rightarrow> u64" where
  "Checksum bs = ExtendChecksum 14695981039346656037 bs"

fun type_byte :: "NodeType \<Rightarrow> u8" where
  "type_byte FREE = 0"
| "type_byte LEAF = 1"
| "type_byte BRANCH = 2"

fun kind_word :: "WalKind \<Rightarrow> u32" where
  "kind_word CONNECT = 1"
| "kind_word DISCONNECT = 2"

definition AppendRecord :: "NodeRecord \<Rightarrow> byte list" where
  "AppendRecord r =
     Bytes (rec_hash r) @ write_le 4 (rec_parent r) @ write_le 4 (rec_left r) @ write_le 4 (rec_right r) @ [type_byte (rec_type r)] @ [0, 0, 0]"

definition AppendPoint :: "ChainPoint \<Rightarrow> byte list" where
  "AppendPoint p = write_le 4 (height p) @ Bytes (point_hash p)"

definition AppendChange :: "NodeChange \<Rightarrow> byte list" where
  "AppendChange c = write_le 4 (change_id c) @ AppendRecord (change_before c) @ AppendRecord (change_after c)"

definition wal_payload :: "WalTransaction \<Rightarrow> byte list" where
  "wal_payload t =
     write_le 4 ONLINE_FORMAT_VERSION @ write_le 4 (kind_word (wal_kind t)) @ write_le 8 (wal_lsn t) @
     AppendPoint (wal_previous t) @ AppendPoint (wal_point t) @
     write_le 8 (before_num_leaves t) @ write_le 8 (after_num_leaves t) @ write_le 4 (before_next t) @ write_le 4 (after_next t) @
     concat (map (write_le 4) (before_roots t)) @ concat (map (write_le 4) (after_roots t)) @
     write_le 8 (of_nat (length (wal_changes t)) :: u64) @ concat (map AppendChange (wal_changes t))"

definition SerializeWal :: "WalTransaction \<Rightarrow> byte list" where
  "SerializeWal t =
     (let payload = wal_payload t;
          record = WAL_MAGIC @ write_le 8 (of_nat (length payload) :: u64) @ payload
      in record @ write_le 8 (Checksum record) @ WAL_COMMIT)"

section \<open>Reading\<close>

text \<open>\<open>ReadUnsigned\<close> is \<open>LE\<close> and \<open>ReadHash\<close> that of the wire format. Readers in sequence:\<close>

definition read_then :: "'a reader \<Rightarrow> ('a \<Rightarrow> 'b reader) \<Rightarrow> 'b reader" where
  "read_then f g bs = (case f bs of None \<Rightarrow> None | Some (a, bs1) \<Rightarrow> g a bs1)"

definition read_value :: "'a \<Rightarrow> 'a reader" where
  "read_value a bs = Some (a, bs)"

definition read_if :: "bool \<Rightarrow> 'a reader \<Rightarrow> 'a reader" where
  "read_if c f bs = (if c then f bs else None)"

definition ReadRecord :: "NodeRecord reader" where
  "ReadRecord =
     read_then ReadHash (\<lambda>h. read_then (LE 4) (\<lambda>p. read_then (LE 4) (\<lambda>l. read_then (LE 4) (\<lambda>r. read_then (LE 1) (\<lambda>t :: u8.
       read_if (t \<le> 2) (read_then (Skip 3) (\<lambda>_.
         read_value \<lparr>rec_hash = h, rec_parent = p, rec_left = l, rec_right = r,
           rec_type = (if t = 0 then FREE else if t = 1 then LEAF else BRANCH)\<rparr>)))))))"

definition ReadPoint :: "ChainPoint reader" where
  "ReadPoint = read_then (LE 4) (\<lambda>h. read_then ReadHash (\<lambda>b. read_value \<lparr>height = h, point_hash = b\<rparr>))"

definition ReadChange :: "NodeChange reader" where
  "ReadChange = read_then (LE 4) (\<lambda>i. read_then ReadRecord (\<lambda>b. read_then ReadRecord (\<lambda>a.
     read_value \<lparr>change_id = i, change_before = b, change_after = a\<rparr>)))"

text \<open>The metadata in front of the roots.\<close>

definition ReadMetadata :: "WalTransaction reader" where
  "ReadMetadata =
     read_then (LE 4) (\<lambda>version :: u32.
     read_if (version = LEGACY_ONLINE_FORMAT_VERSION \<or> version = ONLINE_FORMAT_VERSION) (
     read_then (LE 4) (\<lambda>kind :: u32.
     read_if (1 \<le> kind \<and> kind \<le> 2) (
     read_then (LE 8) (\<lambda>lsn.
     read_then ReadPoint (\<lambda>previous.
     read_then ReadPoint (\<lambda>point.
     read_then (LE 8) (\<lambda>before.
     read_then (LE 8) (\<lambda>after.
     read_then (LE 4) (\<lambda>bnext.
     read_then (LE 4) (\<lambda>anext.
       read_value \<lparr>wal_kind = (if kind = 1 then CONNECT else DISCONNECT), wal_lsn = lsn, wal_previous = previous, wal_point = point,
         before_num_leaves = before, after_num_leaves = after, before_next = bnext, after_next = anext,
         before_roots = [], after_roots = [], wal_changes = []\<rparr>)))))))))))"

definition height_valid :: "WalTransaction \<Rightarrow> bool" where
  "height_valid t \<longleftrightarrow> wal_kind t = CONNECT \<and> height (wal_point t) = height (wal_previous t) + 1 \<or>
     wal_kind t = DISCONNECT \<and> height (wal_previous t) = height (wal_point t) + 1"

definition parse_payload :: "byte list \<Rightarrow> WalTransaction Result" where
  "parse_payload bs =
     (case ReadMetadata bs of
        None \<Rightarrow> Err ''invalid WAL transaction metadata''
      | Some (t, bs1) \<Rightarrow>
     (case read_many 64 (LE 4) bs1 of
        None \<Rightarrow> Err ''truncated WAL before-roots''
      | Some (broots, bs2) \<Rightarrow>
     (case read_many 64 (LE 4) bs2 of
        None \<Rightarrow> Err ''truncated WAL after-roots''
      | Some (aroots, bs3) \<Rightarrow>
     (case LE 8 bs3 of
        None \<Rightarrow> Err ''invalid WAL node-change count''
      | Some (n :: u64, bs4) \<Rightarrow>
          if n > ucast NO_NODE then Err ''invalid WAL node-change count''
          else case read_many (unat n) ReadChange bs4 of
                 None \<Rightarrow> Err ''truncated WAL node change''
               | Some (changes, bs5) \<Rightarrow>
                   let t1 = t\<lparr>before_roots := broots, after_roots := aroots, wal_changes := changes\<rparr>
                   in if bs5 \<noteq> [] \<or> \<not> height_valid t1 \<or> after_next t1 \<ge> NO_NODE then Err ''WAL transaction is inconsistent''
                      else Ok t1))))"

definition ParseWal :: "byte list \<Rightarrow> WalTransaction Result" where
  "ParseWal record =
     (if length record < 8 + 2 * 8 + 8 then Err ''WAL record is truncated''
      else if drop (length record - 8) record \<noteq> WAL_COMMIT then Err ''WAL commit marker is missing''
      else let checksum_offset = length record - 8 - 8
           in if read_le (take 8 (drop checksum_offset record)) \<noteq> Checksum (take checksum_offset record) then Err ''committed WAL checksum mismatch''
              else if take 8 record \<noteq> WAL_MAGIC \<or> unat (read_le (take 8 (drop 8 record)) :: u64) \<noteq> checksum_offset - 8 - 8 then Err ''invalid WAL record header''
              else parse_payload (take (checksum_offset - 16) (drop 16 record)))"

section \<open>Recovery\<close>

lemma and_then_cong [fundef_cong]: "r = r' \<Longrightarrow> (\<And>a. r' = Ok a \<Longrightarrow> f a = f' a) \<Longrightarrow> and_then r f = and_then r' f'"
  by (cases r') simp_all

text \<open>The size that a record at the front of the bytes claims to have, in 64 bits; nothing if the header is incomplete.\<close>

datatype record_header = NoHeader | BadMagic | Claims u64

definition claimed_size :: "byte list \<Rightarrow> record_header" where
  "claimed_size bs =
     (if length bs < 8 + 8 then NoHeader
      else if take 8 bs \<noteq> WAL_MAGIC then BadMagic
      else Claims (8 + 8 + read_le (take 8 (drop 8 bs)) + 8 + 8))"

record recovery =
  rcv_arena :: NodeArena
  rcv_roots :: "NodeId list"
  rcv_num_leaves :: u64
  rcv_point :: ChainPoint
  rcv_chain :: "hash256 list"
  rcv_last_lsn :: u64
  rcv_durable_lsn :: u64
  rcv_redo_wal_bytes :: u64
  rcv_wal_bytes :: u64

definition ApplyRecovered :: "NodeChange \<Rightarrow> NodeArena \<Rightarrow> NodeArena" where
  "ApplyRecovered c a =
     (let a1 = (if change_id c \<ge> m_next a then a\<lparr>m_next := change_id c + 1\<rparr> else a)
      in a1\<lparr>m_dirty := (m_dirty a1)(change_id c \<mapsto> change_after c)\<rparr>)"

definition extends_chain :: "WalTransaction \<Rightarrow> ChainPoint \<Rightarrow> hash256 list \<Rightarrow> bool" where
  "extends_chain t point chain \<longleftrightarrow> wal_previous t = point \<and>
     (wal_kind t = CONNECT \<and> unat (height (wal_point t)) = length chain \<or>
      wal_kind t = DISCONNECT \<and> length chain \<ge> 2 \<and> unat (height (wal_previous t) + 1) = length chain \<and>
        height (wal_point t) + 1 = height (wal_previous t) \<and> chain ! unat (height (wal_point t)) = point_hash (wal_point t))"

definition replay :: "WalTransaction \<Rightarrow> recovery \<Rightarrow> recovery" where
  "replay t s =
     s\<lparr>rcv_arena := (fold ApplyRecovered (wal_changes t) (rcv_arena s))\<lparr>m_next := after_next t\<rparr>,
       rcv_roots := after_roots t, rcv_num_leaves := after_num_leaves t, rcv_point := wal_point t,
       rcv_chain := (if wal_kind t = CONNECT then rcv_chain s @ [point_hash (wal_point t)] else butlast (rcv_chain s)),
       rcv_last_lsn := wal_lsn t\<rparr>"

text \<open>One complete record; those up to the durable one are already in the base.\<close>

definition recover_record :: "WalTransaction \<Rightarrow> u64 \<Rightarrow> recovery \<Rightarrow> recovery Result" where
  "recover_record t claimed s =
     (if wal_lsn t \<le> rcv_durable_lsn s then Ok s
      else if wal_lsn t \<noteq> rcv_last_lsn s + 1 then Err ''non-contiguous WAL LSN after durable base''
      else if \<not> extends_chain t (rcv_point s) (rcv_chain s) \<or> before_num_leaves t \<noteq> rcv_num_leaves s
      then Err ''WAL does not extend the recovered online state''
      else Ok (let s1 = replay t s in s1\<lparr>rcv_redo_wal_bytes := rcv_redo_wal_bytes s1 + claimed\<rparr>))"

definition in_file :: "string \<Rightarrow> 'a Result \<Rightarrow> 'a Result" where
  "in_file path r = (case r of Err e \<Rightarrow> Err (path @ '': '' @ e) | _ \<Rightarrow> r)"

text \<open>The loop over the bytes behind the offset; the result has the offset where the valid records end.\<close>

function recover_loop :: "string \<Rightarrow> byte list \<Rightarrow> nat \<Rightarrow> recovery \<Rightarrow> (nat \<times> recovery) Result" where
  "recover_loop path bs offset s =
     (if bs = [] then Ok (offset, s)
      else case claimed_size bs of
             NoHeader \<Rightarrow> Ok (offset, s)
           | BadMagic \<Rightarrow> Err (''invalid WAL magic in '' @ path)
           | Claims claimed \<Rightarrow>
               if unat claimed > length bs then Ok (offset, s)
               else and_then (in_file path (ParseWal (take (unat claimed) bs))) (\<lambda>t.
                    and_then (recover_record t claimed s) (\<lambda>s1.
                      recover_loop path (drop (unat claimed) bs) (offset + unat claimed) s1)))"
  by pat_completeness auto

termination
proof (relation "measure (\<lambda>(path, bs, offset, s). length bs)", simp, goal_cases)
  case (1 path bs offset s claimed t s1)
  then have "0 < unat claimed" by (cases "unat claimed") (auto simp: ParseWal_def in_file_def)
  then show ?case using 1 by simp
qed

declare recover_loop.simps [simp del]

text \<open>A segment is recovered, and what follows its last complete record is cut off.\<close>

definition RecoverSegment :: "string \<Rightarrow> byte list \<Rightarrow> recovery \<Rightarrow> (byte list \<times> recovery) Result" where
  "RecoverSegment path bytes s =
     and_then (recover_loop path bytes 0 s) (\<lambda>(valid, s1).
       Ok (take valid bytes, s1\<lparr>rcv_wal_bytes := rcv_wal_bytes s1 + of_nat valid\<rparr>))"

fun recover_segments :: "(string \<times> byte list) list \<Rightarrow> recovery \<Rightarrow> ((string \<times> byte list) list \<times> recovery) Result" where
  "recover_segments [] s = Ok ([], s)"
| "recover_segments ((path, f) # fs) s =
     and_then (RecoverSegment path f s) (\<lambda>(f1, s1). and_then (recover_segments fs s1) (\<lambda>(fs1, s2). Ok ((path, f1) # fs1, s2)))"

text \<open>The recovery starts behind the durable log sequence number; the result has the current one.\<close>

definition Recover :: "(string \<times> byte list) list \<Rightarrow> recovery \<Rightarrow> ((string \<times> byte list) list \<times> recovery \<times> u64) Result" where
  "Recover segments s =
     and_then (recover_segments segments (s\<lparr>rcv_last_lsn := rcv_durable_lsn s\<rparr>)) (\<lambda>(fs, s1).
       Ok (fs, s1, max (rcv_durable_lsn s1) (rcv_last_lsn s1)))"

section \<open>Looking a block up\<close>

function find_connect :: "ChainPoint \<Rightarrow> byte list \<Rightarrow> WalTransaction option \<Rightarrow> WalTransaction option Result" where
  "find_connect point bs found =
     (if bs = [] then Ok found
      else case claimed_size bs of
             Claims claimed \<Rightarrow>
               if unat claimed > length bs then Ok found
               else and_then (ParseWal (take (unat claimed) bs)) (\<lambda>t.
                      find_connect point (drop (unat claimed) bs) (if wal_kind t = CONNECT \<and> wal_point t = point then Some t else found))
           | _ \<Rightarrow> Ok found)"
  by pat_completeness auto

termination
proof (relation "measure (\<lambda>(point, bs, found). length bs)", simp, goal_cases)
  case (1 point bs found claimed t)
  then have "0 < unat claimed" by (cases "unat claimed") (auto simp: ParseWal_def)
  then show ?case using 1 by simp
qed

declare find_connect.simps [simp del]

fun find_in_segments :: "ChainPoint \<Rightarrow> byte list list \<Rightarrow> WalTransaction option \<Rightarrow> WalTransaction option Result" where
  "find_in_segments point [] found = Ok found"
| "find_in_segments point (f # fs) found = and_then (find_connect point f found) (find_in_segments point fs)"

definition ReadConnectTransaction :: "ChainPoint \<Rightarrow> byte list list \<Rightarrow> WalTransaction Result" where
  "ReadConnectTransaction point segments =
     and_then (find_in_segments point segments None) (\<lambda>found.
       case found of None \<Rightarrow> Err ''tip before-images are outside the retained WAL window'' | Some t \<Rightarrow> Ok t)"

section \<open>Appending\<close>

text \<open>The part of \<open>OnlineStore\<close> that the log concerns; the segment files are listed by the log sequence number in their names.\<close>

record OnlineStore =
  os_point :: ChainPoint
  os_chain_hashes :: "hash256 list"
  os_current_lsn :: u64
  os_sync_wal :: bool
  os_wal_segment_bytes :: u64
  os_segments :: "(u64 \<times> byte list) list"
  os_open :: "u64 option"
  os_segment_size :: u64
  os_wal_bytes :: u64
  os_redo_wal_bytes :: u64
  os_wal_segment_directory_syncs :: u64
  os_last_transaction_nodes :: u64
  os_last_transaction_wal_bytes :: u64

definition append_file :: "u64 \<Rightarrow> byte list \<Rightarrow> (u64 \<times> byte list) list \<Rightarrow> (u64 \<times> byte list) list" where
  "append_file k bs fs =
     (if k \<in> fst ` set fs then map (\<lambda>(j, f). if j = k then (j, f @ bs) else (j, f)) fs else insort_key fst (k, bs) fs)"

text \<open>What the file system does: everything succeeds, the segment cannot be opened, its directory entry cannot be made
  durable (or the file cannot be inspected), the write fails after some bytes, or all bytes are in the file but not
  forced to disk. The outcome of a step that is not taken has no effect.\<close>

datatype write_outcome = Written | OpenFailed string | EntryFailed string | WriteFailed nat string | SyncFailed string

definition OpenAppendSegment :: "write_outcome \<Rightarrow> nat \<Rightarrow> OnlineStore \<Rightarrow> unit Result \<times> OnlineStore" where
  "OpenAppendSegment outcome record_size s =
     (if os_open s \<noteq> None \<and> (os_segment_size s = 0 \<or> os_segment_size s + of_nat record_size \<le> os_wal_segment_bytes s) then (Ok (), s)
      else let k = os_current_lsn s + 1;
               s1 = s\<lparr>os_open := None\<rparr>;
               s2 = s1\<lparr>os_segments := append_file k [] (os_segments s1)\<rparr>;
               file_size = length (the (map_of (os_segments s2) k))
           in case outcome of
                OpenFailed e \<Rightarrow> (Err e, s1)
              | EntryFailed e \<Rightarrow> (Err e, s2)
              | _ \<Rightarrow> (Ok (), s2\<lparr>os_open := Some k, os_segment_size := of_nat file_size,
                              os_wal_segment_directory_syncs := os_wal_segment_directory_syncs s2 + (if file_size = 0 then 1 else 0)\<rparr>))"

definition chain_valid :: "WalTransaction \<Rightarrow> OnlineStore \<Rightarrow> bool" where
  "chain_valid t s \<longleftrightarrow> wal_previous t = os_point s \<and>
     (wal_kind t = CONNECT \<and> unat (height (wal_point t)) = length (os_chain_hashes s) \<and> height (wal_previous t) + 1 = height (wal_point t) \<or>
      wal_kind t = DISCONNECT \<and> length (os_chain_hashes s) = unat (height (wal_previous t)) + 1 \<and>
        height (wal_previous t) = height (wal_point t) + 1 \<and> length (os_chain_hashes s) \<ge> 2 \<and>
        os_chain_hashes s ! unat (height (wal_point t)) = point_hash (wal_point t))"

definition publish :: "WalTransaction \<Rightarrow> nat \<Rightarrow> u64 \<Rightarrow> OnlineStore \<Rightarrow> OnlineStore" where
  "publish t n changed s =
     (let s1 = (if os_sync_wal s then s\<lparr>os_segment_size := os_segment_size s + of_nat n, os_wal_bytes := os_wal_bytes s + of_nat n,
                                       os_redo_wal_bytes := os_redo_wal_bytes s + of_nat n\<rparr> else s)
      in s1\<lparr>os_last_transaction_nodes := changed, os_last_transaction_wal_bytes := of_nat n, os_current_lsn := wal_lsn t, os_point := wal_point t,
            os_chain_hashes := (if wal_kind t = CONNECT then os_chain_hashes s @ [point_hash (wal_point t)] else butlast (os_chain_hashes s))\<rparr>)"

definition Append :: "write_outcome \<Rightarrow> WalTransaction \<Rightarrow> u64 \<Rightarrow> OnlineStore \<Rightarrow> unit Result \<times> OnlineStore" where
  "Append outcome t changed s =
     (if \<not> chain_valid t s then (Err ''WAL transaction does not extend the online chain'', s)
      else let t1 = t\<lparr>wal_lsn := os_current_lsn s + 1\<rparr>
           in if \<not> os_sync_wal s then (Ok (), publish t1 0 changed s)
              else let bytes = SerializeWal t1
                   in case OpenAppendSegment outcome (length bytes) s of
                        (Err e, s1) \<Rightarrow> (Err e, s1)
                      | (Throw e, s1) \<Rightarrow> (Throw e, s1)
                      | (Ok _, s1) \<Rightarrow>
                          let write = (\<lambda>bs. s1\<lparr>os_segments := append_file (the (os_open s1)) bs (os_segments s1)\<rparr>)
                          in case outcome of
                               WriteFailed k e \<Rightarrow> (Err e, write (take k bytes))
                             | SyncFailed e \<Rightarrow> (Err e, write bytes)
                             | _ \<Rightarrow> (Ok (), publish t1 (length bytes) changed (write bytes)))"

section \<open>What is written is read back\<close>

locale decoder =
  fixes enc :: "'a \<Rightarrow> byte list" and dec :: "'a reader"
  assumes dec_enc: "dec (enc a @ rest) = Some (a, rest)"
begin

lemma read_many_enc: "read_many (length xs) dec (concat (map enc xs) @ rest) = Some (xs, rest)"
  by (induction xs) (simp_all add: dec_enc)

end

lemma read_then_simp [simp]: "read_then f g bs = (case f bs of None \<Rightarrow> None | Some (a, bs1) \<Rightarrow> g a bs1)"
  by (simp add: read_then_def)

lemma read_value_simp [simp]: "read_value a bs = Some (a, bs)" "read_if c f bs = (if c then f bs else None)"
  by (simp_all add: read_value_def read_if_def)

lemmas field_reads = u32le.dec_enc [OF TrueI] u64le.dec_enc [OF TrueI] hashes.dec_enc [OF TrueI]

lemma u8_read: "LE 1 (b # rest) = Some (b :: u8, rest)"
  using u8le.dec_enc [OF TrueI, of b rest] by simp

interpretation wal_record: decoder AppendRecord ReadRecord
proof
  fix r rest
  have t: "type_byte ty \<le> 2" "(if type_byte ty = 0 then FREE else if type_byte ty = 1 then LEAF else BRANCH) = ty" for ty
    by (cases ty; simp)+
  show "ReadRecord (AppendRecord r @ rest) = Some (r, rest)"
    by (simp only: AppendRecord_def ReadRecord_def read_then_simp read_value_simp field_reads append_assoc append_Cons append_Nil u8_read
        option.case prod.case t) (simp add: Skip_def)
qed

interpretation wal_point: decoder AppendPoint ReadPoint
  by unfold_locales (simp add: AppendPoint_def ReadPoint_def field_reads)

interpretation wal_change: decoder AppendChange ReadChange
  by unfold_locales (simp add: AppendChange_def ReadChange_def field_reads wal_record.dec_enc)

interpretation wal_root: decoder "write_le 4 :: NodeId \<Rightarrow> byte list" "LE 4"
  by unfold_locales (simp add: field_reads)

text \<open>The transactions that the code writes.\<close>

definition wal_ok :: "WalTransaction \<Rightarrow> bool" where
  "wal_ok t \<longleftrightarrow> length (before_roots t) = 64 \<and> length (after_roots t) = 64 \<and> length (wal_changes t) \<le> unat NO_NODE \<and>
     height_valid t \<and> after_next t < NO_NODE"

lemma ReadMetadata_payload:
  "ReadMetadata (wal_payload t) =
     Some (t\<lparr>before_roots := [], after_roots := [], wal_changes := []\<rparr>,
       concat (map (write_le 4) (before_roots t)) @ concat (map (write_le 4) (after_roots t)) @
       write_le 8 (of_nat (length (wal_changes t)) :: u64) @ concat (map AppendChange (wal_changes t)))"
proof -
  have k: "(1 :: u32) \<le> kind_word k \<and> kind_word k \<le> 2" "(if kind_word k = 1 then CONNECT else DISCONNECT) = k" for k by (cases k; simp)+
  show ?thesis
    by (simp only: wal_payload_def ReadMetadata_def read_then_simp read_value_simp field_reads append_assoc option.case prod.case k
        wal_point.dec_enc if_True simp_thms)
      (cases t, simp add: k)
qed

lemma parse_payload_wal:
  assumes "wal_ok t"
  shows "parse_payload (wal_payload t) = Ok t"
proof -
  have n: "unat NO_NODE = 4294967295" by (simp add: unat_NO_NODE)
  have small: "length (wal_changes t) < 2 ^ 64" "length (wal_changes t) \<le> 4294967295" using assms n by (simp_all add: wal_ok_def)
  then have u: "unat (of_nat (length (wal_changes t)) :: u64) = length (wal_changes t)" by (simp add: unsigned_of_nat take_bit_nat_eq_self)
  then have le: "\<not> of_nat (length (wal_changes t)) > (ucast NO_NODE :: u64)" using small(2) n by (simp add: word_less_nat_alt)
  have b: "read_many 64 (LE 4) (concat (map (write_le 4) (before_roots t)) @ rest) = Some (before_roots t, rest)" for rest
    using wal_root.read_many_enc [of "before_roots t"] assms by (simp add: wal_ok_def)
  have a: "read_many 64 (LE 4) (concat (map (write_le 4) (after_roots t)) @ rest) = Some (after_roots t, rest)" for rest
    using wal_root.read_many_enc [of "after_roots t"] assms by (simp add: wal_ok_def)
  have c: "read_many (length (wal_changes t)) ReadChange (concat (map AppendChange (wal_changes t))) = Some (wal_changes t, [])"
    using wal_change.read_many_enc [of "wal_changes t" "[]"] by simp
  have "height_valid t" "\<not> after_next t \<ge> NO_NODE" using assms by (auto simp: wal_ok_def)
  then show ?thesis
    unfolding parse_payload_def ReadMetadata_payload option.case prod.case b a field_reads using le by (simp add: u c)
qed

lemma length_AppendRecord [simp]: "length (AppendRecord r) = 48"
  by (simp add: AppendRecord_def)

lemma length_AppendChange [simp]: "length (AppendChange c) = 100"
  by (simp add: AppendChange_def)

lemma length_concat_fixed: "(\<And>x. length (f x) = n) \<Longrightarrow> length (concat (map f xs)) = n * length xs"
  by (induction xs) simp_all

lemma length_wal_payload: "wal_ok t \<Longrightarrow> length (wal_payload t) = 632 + 100 * length (wal_changes t)"
  by (simp add: wal_payload_def wal_ok_def AppendPoint_def length_concat_fixed [of _ 4] length_concat_fixed [of AppendChange 100])

lemma wal_payload_small: "wal_ok t \<Longrightarrow> length (wal_payload t) < 2 ^ 63"
  using length_wal_payload [of t] by (simp add: wal_ok_def unat_NO_NODE)

lemma length_SerializeWal: "length (SerializeWal t) = 32 + length (wal_payload t)"
  by (simp add: SerializeWal_def Let_def WAL_MAGIC_def WAL_COMMIT_def)

lemma magic_length [simp]: "length WAL_MAGIC = 8" "length WAL_COMMIT = 8"
  by (simp_all add: WAL_MAGIC_def WAL_COMMIT_def)

lemma unat_of_nat_u64: "n < 2 ^ 64 \<Longrightarrow> unat (of_nat n :: u64) = n"
  by (simp add: unsigned_of_nat take_bit_nat_eq_self)

lemma read_le_u64 [simp]: "read_le (write_le 8 v) = (v :: u64)"
  by (simp add: read_le_write_le take_bit_word_eq_self)

lemma ParseWal_SerializeWal:
  assumes "wal_ok t"
  shows "ParseWal (SerializeWal t) = Ok t"
proof -
  let ?p = "wal_payload t"
  let ?r = "WAL_MAGIC @ write_le 8 (of_nat (length ?p) :: u64) @ ?p"
  have s: "SerializeWal t = ?r @ write_le 8 (Checksum ?r) @ WAL_COMMIT" by (simp add: SerializeWal_def Let_def)
  have len: "length (SerializeWal t) = 32 + length ?p" by (rule length_SerializeWal)
  have 1: "drop (length (SerializeWal t) - 8) (SerializeWal t) = WAL_COMMIT" unfolding len by (simp add: s)
  have 2: "take (length (SerializeWal t) - 8 - 8) (SerializeWal t) = ?r"
    "take 8 (drop (length (SerializeWal t) - 8 - 8) (SerializeWal t)) = write_le 8 (Checksum ?r)" unfolding len by (simp_all add: s)
  have 3: "take 8 (SerializeWal t) = WAL_MAGIC" "take 8 (drop 8 (SerializeWal t)) = write_le 8 (of_nat (length ?p) :: u64)"
    "take (length (SerializeWal t) - 8 - 8 - 16) (drop 16 (SerializeWal t)) = ?p" unfolding len by (simp_all add: s)
  have 4: "unat (of_nat (length ?p) :: u64) = length (SerializeWal t) - 8 - 8 - 8 - 8"
    using wal_payload_small [OF assms] by (simp add: len unsigned_of_nat take_bit_nat_eq_self)
  show ?thesis unfolding ParseWal_def Let_def 1 2 3 using 4 parse_payload_wal [OF assms] len by simp
qed

lemma claimed_size_prefix:
  assumes "wal_ok t" "SerializeWal t = p @ q" "16 \<le> length p"
  shows "claimed_size (p @ r) = Claims (of_nat (length (SerializeWal t)))" "unat (of_nat (length (SerializeWal t)) :: u64) = length (SerializeWal t)"
proof -
  let ?p = "wal_payload t"
  have "take 16 (SerializeWal t) = WAL_MAGIC @ write_le 8 (of_nat (length ?p) :: u64)" by (simp add: SerializeWal_def Let_def)
  then have p: "take 16 p = WAL_MAGIC @ write_le 8 (of_nat (length ?p) :: u64)" using assms(2,3) by simp
  have "take 8 (p @ r) = take 8 (take 16 p)" "take 8 (drop 8 (p @ r)) = drop 8 (take 16 p)" using assms(3) by (simp_all add: min_def take_drop)
  then have "take 8 (p @ r) = WAL_MAGIC" "take 8 (drop 8 (p @ r)) = write_le 8 (of_nat (length ?p) :: u64)" unfolding p by simp_all
  then show "claimed_size (p @ r) = Claims (of_nat (length (SerializeWal t)))"
    using assms(3) by (simp add: claimed_size_def length_SerializeWal)
  show "unat (of_nat (length (SerializeWal t)) :: u64) = length (SerializeWal t)"
    using wal_payload_small [OF assms(1)] by (intro unat_of_nat_u64) (simp add: length_SerializeWal)
qed

section \<open>Recovery reads what was written\<close>

text \<open>What recovery does with one record that it accepts, and that it accepts it.\<close>

definition redo :: "WalTransaction \<Rightarrow> recovery \<Rightarrow> recovery" where
  "redo t s =
     (if wal_lsn t \<le> rcv_durable_lsn s then s
      else (replay t s)\<lparr>rcv_redo_wal_bytes := rcv_redo_wal_bytes s + of_nat (length (SerializeWal t))\<rparr>)"

definition accepts :: "recovery \<Rightarrow> WalTransaction \<Rightarrow> bool" where
  "accepts s t \<longleftrightarrow> wal_ok t \<and> (wal_lsn t \<le> rcv_durable_lsn s \<or>
     wal_lsn t = rcv_last_lsn s + 1 \<and> extends_chain t (rcv_point s) (rcv_chain s) \<and> before_num_leaves t = rcv_num_leaves s)"

fun log_extends :: "WalTransaction list \<Rightarrow> recovery \<Rightarrow> bool" where
  "log_extends [] s = True"
| "log_extends (t # ts) s = (accepts s t \<and> log_extends ts (redo t s))"

abbreviation log_bytes :: "WalTransaction list \<Rightarrow> byte list" where
  "log_bytes ts \<equiv> concat (map SerializeWal ts)"

lemma recover_record_redo:
  assumes "accepts s t"
  shows "recover_record t (of_nat (length (SerializeWal t))) s = Ok (redo t s)"
  using assms by (auto simp: accepts_def recover_record_def redo_def replay_def Let_def)

lemma claimed_size_record: "wal_ok t \<Longrightarrow> claimed_size (SerializeWal t @ r) = Claims (of_nat (length (SerializeWal t)))"
  using claimed_size_prefix(1) [of t "SerializeWal t" "[]" r] by (simp add: length_SerializeWal)

lemma unat_length_record: "wal_ok t \<Longrightarrow> unat (of_nat (length (SerializeWal t)) :: u64) = length (SerializeWal t)"
  using claimed_size_prefix(2) [of t "SerializeWal t" "[]"] by (simp add: length_SerializeWal)

text \<open>Complete records are replayed.\<close>

lemma recover_loop_records:
  assumes "log_extends ts s"
  shows "recover_loop path (log_bytes ts @ tail) offset s = recover_loop path tail (offset + length (log_bytes ts)) (fold redo ts s)"
  using assms
proof (induction ts arbitrary: s offset)
  case (Cons t ts)
  let ?b = "SerializeWal t"
  have ok: "wal_ok t" and acc: "accepts s t" and ext: "log_extends ts (redo t s)" using Cons.prems by (simp_all add: accepts_def)
  have ne: "?b \<noteq> []" using length_SerializeWal [of t] by auto
  have "recover_loop path (?b @ log_bytes ts @ tail) offset s = recover_loop path (log_bytes ts @ tail) (offset + length ?b) (redo t s)"
    using ne by (subst recover_loop.simps)
      (simp add: claimed_size_record [OF ok] unat_length_record [OF ok] ParseWal_SerializeWal [OF ok] in_file_def recover_record_redo [OF acc]
        del: of_nat_add)
  then show ?case using Cons.IH [OF ext] by (simp add: add.assoc)
qed simp

text \<open>An incomplete record at the end is left out.\<close>

lemma recover_loop_torn:
  assumes "wal_ok t" "SerializeWal t = p @ q" "q \<noteq> []"
  shows "recover_loop path p offset s = Ok (offset, s)"
proof (cases "length p < 16")
  case True
  then show ?thesis by (subst recover_loop.simps) (simp add: claimed_size_def)
next
  case False
  have c: "claimed_size p = Claims (of_nat (length (SerializeWal t)))"
    using claimed_size_prefix(1) [OF assms(1,2), of "[]"] False by simp
  have "\<not> unat (of_nat (length (SerializeWal t)) :: u64) \<le> length p" unfolding unat_length_record [OF assms(1)] using assms(2,3) by simp
  then show ?thesis by (subst recover_loop.simps) (simp add: c not_le)
qed

lemma RecoverSegment_log:
  assumes "log_extends ts s" "p = [] \<or> (\<exists>t q. wal_ok t \<and> SerializeWal t = p @ q \<and> q \<noteq> [])"
  shows "RecoverSegment path (log_bytes ts @ p) s =
     Ok (log_bytes ts, (fold redo ts s)\<lparr>rcv_wal_bytes := rcv_wal_bytes s + of_nat (length (log_bytes ts))\<rparr>)"
proof -
  have "recover_loop path p (length (log_bytes ts)) s' = Ok (length (log_bytes ts), s')" for s'
    using assms(2) by (auto intro: recover_loop_torn simp: recover_loop.simps [of path "[]"])
  moreover have "rcv_wal_bytes (fold redo ts s) = rcv_wal_bytes s"
    by (induction ts arbitrary: s) (simp_all add: redo_def replay_def)
  ultimately show ?thesis using recover_loop_records [OF assms(1), of path p 0] by (simp add: RecoverSegment_def)
qed

lemma redo_wal_bytes: "redo t (s\<lparr>rcv_wal_bytes := x\<rparr>) = (redo t s)\<lparr>rcv_wal_bytes := x\<rparr>"
  by (simp add: redo_def replay_def)

lemma fold_redo_wal_bytes: "fold redo ts (s\<lparr>rcv_wal_bytes := x\<rparr>) = (fold redo ts s)\<lparr>rcv_wal_bytes := x\<rparr>"
  by (induction ts arbitrary: s) (simp_all add: redo_wal_bytes)

lemma log_extends_wal_bytes: "log_extends ts (s\<lparr>rcv_wal_bytes := x\<rparr>) = log_extends ts s"
  by (induction ts arbitrary: s) (simp_all add: redo_wal_bytes accepts_def)

lemma log_extends_append: "log_extends (ts @ us) s \<longleftrightarrow> log_extends ts s \<and> log_extends us (fold redo ts s)"
  by (induction ts arbitrary: s) simp_all

text \<open>A log is a list of segments, each with a name and whole records; only the last may end in an incomplete one.\<close>

abbreviation segment_file :: "'k \<times> WalTransaction list \<Rightarrow> 'k \<times> byte list" where
  "segment_file \<equiv> map_prod (\<lambda>k. k) log_bytes"

lemma recover_segments_log:
  assumes "log_extends (concat (map snd segs) @ us) s" "p = [] \<or> (\<exists>t q. wal_ok t \<and> SerializeWal t = p @ q \<and> q \<noteq> [])"
  shows "recover_segments (map segment_file segs @ [(path, log_bytes us @ p)]) s =
     Ok (map segment_file segs @ [(path, log_bytes us)], (fold redo (concat (map snd segs) @ us) s)\<lparr>rcv_wal_bytes :=
       rcv_wal_bytes s + of_nat (length (log_bytes (concat (map snd segs) @ us)))\<rparr>)"
  using assms(1)
proof (induction segs arbitrary: s)
  case Nil
  then show ?case using RecoverSegment_log [OF _ assms(2), of us s path] by simp
next
  case (Cons seg segs)
  obtain k ts where seg: "seg = (k, ts)" by (cases seg)
  let ?s = "(fold redo ts s)\<lparr>rcv_wal_bytes := rcv_wal_bytes s + of_nat (length (log_bytes ts))\<rparr>"
  have ts: "log_extends ts s" and rest: "log_extends (concat (map snd segs) @ us) ?s"
    using Cons.prems by (simp_all add: seg log_extends_append log_extends_wal_bytes fold_redo_wal_bytes)
  have "RecoverSegment k (log_bytes ts) s = Ok (log_bytes ts, ?s)" using RecoverSegment_log [OF ts, of "[]" k] by simp
  then show ?case using Cons.IH [OF rest] by (simp add: seg fold_redo_wal_bytes add.assoc)
qed

lemma recover_segments_whole:
  assumes "log_extends (concat (map snd segs)) s"
  shows "\<exists>x. recover_segments (map segment_file segs) s = Ok (map segment_file segs, (fold redo (concat (map snd segs)) s)\<lparr>rcv_wal_bytes := x\<rparr>)"
proof (cases segs rule: rev_cases)
  case Nil
  then show ?thesis by (intro exI [of _ "rcv_wal_bytes s"]) simp
next
  case (snoc pre seg)
  then show ?thesis using recover_segments_log [of pre "snd seg" s "[]" "fst seg"] assms by (cases seg) auto
qed

section \<open>Runs of the log\<close>

text \<open>A run appends transactions that the forest builds: each starts from the leaf count that the one before it left.\<close>

definition logged_leaves :: "u64 \<Rightarrow> WalTransaction list \<Rightarrow> u64" where
  "logged_leaves n ts = (if ts = [] then n else after_num_leaves (last ts))"

definition stamp :: "OnlineStore \<Rightarrow> WalTransaction \<Rightarrow> WalTransaction" where
  "stamp s t = t\<lparr>wal_lsn := os_current_lsn s + 1\<rparr>"

inductive log_run :: "u64 \<Rightarrow> OnlineStore \<Rightarrow> WalTransaction list \<Rightarrow> OnlineStore \<Rightarrow> bool" for n s where
  log_start: "log_run n s [] s"
| log_append: "log_run n s ts s1 \<Longrightarrow> wal_ok t \<Longrightarrow> before_num_leaves t = logged_leaves n ts \<Longrightarrow>
    Append outcome t changed s1 = (Ok (), s2) \<Longrightarrow> log_run n s (ts @ [stamp s1 t]) s2"

definition log_inv :: "WalTransaction list \<Rightarrow> OnlineStore \<Rightarrow> bool" where
  "log_inv ts s \<longleftrightarrow> os_sync_wal s \<and>
     (\<exists>segs. os_segments s = map segment_file segs \<and> concat (map snd segs) = ts \<and> sorted_wrt (<) (map fst segs) \<and>
        (\<forall>k \<in> fst ` set segs. k \<le> os_current_lsn s) \<and> (\<forall>k. os_open s = Some k \<longrightarrow> segs \<noteq> [] \<and> fst (last segs) = k))"

lemma append_file_last: "k \<notin> fst ` set fs \<Longrightarrow> append_file k bs (fs @ [(k, f)]) = fs @ [(k, f @ bs)]"
  by (auto simp: append_file_def rev_image_eqI intro!: map_idI)

lemma append_file_new: "(\<forall>j \<in> fst ` set fs. j < k) \<Longrightarrow> append_file k bs fs = fs @ [(k, bs)]"
proof -
  assume lt: "\<forall>j \<in> fst ` set fs. j < k"
  then have "insort_key fst (k, bs) fs = fs @ [(k, bs)]" by (induction fs) auto
  then show ?thesis using lt by (auto simp: append_file_def)
qed

text \<open>The segment that a record goes to is the last one.\<close>

lemma OpenAppendSegment_Ok:
  assumes inv: "log_inv ts s" and lsn: "os_current_lsn s < os_current_lsn s + 1" and op: "OpenAppendSegment outcome n s = (Ok u, s1)"
  shows "\<exists>pre k us. concat (map snd pre) @ us = ts \<and> os_open s1 = Some k \<and> sorted_wrt (<) (map fst pre @ [k]) \<and> k \<le> os_current_lsn s + 1 \<and>
     (\<forall>bs. append_file k bs (os_segments s1) = map segment_file pre @ [(k, log_bytes us @ bs)])" (is "\<exists>pre k us. ?P pre k us s1")
    "os_point s1 = os_point s" "os_chain_hashes s1 = os_chain_hashes s" "os_current_lsn s1 = os_current_lsn s" "os_sync_wal s1 = os_sync_wal s"
proof -
  obtain segs where segs: "os_segments s = map segment_file segs" "concat (map snd segs) = ts" "sorted_wrt (<) (map fst segs)"
      "\<forall>k \<in> fst ` set segs. k \<le> os_current_lsn s" "\<forall>k. os_open s = Some k \<longrightarrow> segs \<noteq> [] \<and> fst (last segs) = k"
    using inv by (auto simp: log_inv_def)
  have keys: "fst ` set (map segment_file xs) = fst ` set xs" for xs :: "(u64 \<times> WalTransaction list) list" by force
  let ?k = "os_current_lsn s + 1"
  have below: "\<forall>j \<in> fst ` set (os_segments s). j < ?k" unfolding segs(1) keys using segs(4) lsn by (meson le_less_trans)
  consider (reuse) k where "os_open s = Some k" "s1 = s"
    | (new) "os_open s1 = Some ?k" "os_segments s1 = append_file ?k [] (os_segments s)"
    using op by (auto simp: OpenAppendSegment_def Let_def split: if_splits write_outcome.splits)
  then show "\<exists>pre k us. ?P pre k us s1"
  proof cases
    case reuse
    then obtain pre us where pre: "segs = pre @ [(k, us)]" using segs(5) by (metis append_butlast_last_id prod.collapse)
    have k: "k \<notin> fst ` set (map segment_file pre)" unfolding keys using segs(3) by (auto simp: pre sorted_wrt_append)
    have "k \<le> ?k" using segs(4) lsn by (simp add: pre) (meson le_less_trans order_less_imp_le)
    then have "?P pre k us s1" using segs reuse append_file_last [OF k] by (simp add: pre sorted_wrt_append)
    then show ?thesis by blast
  next
    case new
    have s1: "os_segments s1 = os_segments s @ [(?k, [])]" using new(2) append_file_new [OF below] by simp
    have nk: "?k \<notin> fst ` set (os_segments s)" using below by blast
    have "sorted_wrt (<) (map fst segs @ [?k])" using segs(3) below unfolding segs(1) keys by (auto simp: sorted_wrt_append)
    moreover have "append_file ?k bs (os_segments s1) = map segment_file segs @ [(?k, bs)]" for bs
      using append_file_last [OF nk, of bs "[]"] by (simp add: s1 segs(1))
    ultimately have "?P segs ?k [] s1" using segs new by simp
    then show ?thesis by blast
  qed
  show "os_point s1 = os_point s" "os_chain_hashes s1 = os_chain_hashes s" "os_current_lsn s1 = os_current_lsn s" "os_sync_wal s1 = os_sync_wal s"
    using op by (auto simp: OpenAppendSegment_def Let_def split: if_splits write_outcome.splits)
qed

lemma OpenAppendSegment_Err:
  assumes inv: "log_inv ts s" and lsn: "os_current_lsn s < os_current_lsn s + 1" and op: "OpenAppendSegment outcome n s = (res, s1)" "res \<noteq> Ok ()"
  shows "(\<exists>e. res = Err e) \<and> (\<exists>segs. os_segments s1 = map segment_file segs \<and> concat (map snd segs) = ts)"
proof -
  obtain segs where segs: "os_segments s = map segment_file segs" "concat (map snd segs) = ts" "\<forall>k \<in> fst ` set segs. k \<le> os_current_lsn s"
    using inv by (auto simp: log_inv_def)
  let ?k = "os_current_lsn s + 1"
  have "\<forall>j \<in> fst ` set (os_segments s). j < ?k" unfolding segs(1) using segs(3) lsn by force
  then have new: "append_file ?k [] (os_segments s) = map segment_file (segs @ [(?k, [])])" using append_file_new by (simp add: segs(1))
  have r: "(\<exists>e. res = Err e) \<and> (os_segments s1 = os_segments s \<or> os_segments s1 = append_file ?k [] (os_segments s))"
    using op by (auto simp: OpenAppendSegment_def Let_def split: if_splits write_outcome.splits)
  then consider "os_segments s1 = map segment_file segs" | "os_segments s1 = map segment_file (segs @ [(?k, [])])" using new segs(1) by auto
  then have "\<exists>segs. os_segments s1 = map segment_file segs \<and> concat (map snd segs) = ts"
  proof cases
    case 1 then show ?thesis using segs(2) by blast
  next
    case 2 then show ?thesis using segs(2) by (intro exI [of _ "segs @ [(?k, [])]"]) simp
  qed
  then show ?thesis using r by blast
qed

text \<open>What a log holds after an append, whatever its outcome.\<close>

lemma Append_outcomes:
  assumes inv: "log_inv ts s" and lsn: "os_current_lsn s < os_current_lsn s + 1" and ap: "Append outcome t changed s = (res, s1)"
  shows "res = Ok () \<and> chain_valid t s \<and> log_inv (ts @ [stamp s t]) s1 \<and> os_current_lsn s1 = os_current_lsn s + 1 \<and> os_point s1 = wal_point t \<and>
       os_chain_hashes s1 = (if wal_kind t = CONNECT then os_chain_hashes s @ [point_hash (wal_point t)] else butlast (os_chain_hashes s)) \<or>
     res \<noteq> Ok () \<and> (\<exists>segs. os_segments s1 = map segment_file segs \<and> concat (map snd segs) = ts) \<or>
     res \<noteq> Ok () \<and> chain_valid t s \<and> (\<exists>pre k us p q. os_segments s1 = map segment_file pre @ [(k, log_bytes us @ p)] \<and>
       concat (map snd pre) @ us = ts \<and> SerializeWal (stamp s t) = p @ q)"
proof (cases "chain_valid t s")
  case False
  then show ?thesis using ap inv by (auto simp: Append_def log_inv_def)
next
  case cv: True
  let ?b = "SerializeWal (stamp s t)"
  have sync: "os_sync_wal s" using inv by (simp add: log_inv_def)
  obtain ores s2 where op: "OpenAppendSegment outcome (length ?b) s = (ores, s2)" by (cases "OpenAppendSegment outcome (length ?b) s")
  note ap = ap [unfolded Append_def stamp_def [symmetric] Let_def]
  show ?thesis
  proof (cases "ores = Ok ()")
    case False
    note e = OpenAppendSegment_Err [OF inv lsn op False]
    then have "res \<noteq> Ok ()" "s1 = s2" using ap cv sync op by auto
    then show ?thesis using e by blast
  next
    case True
    note o = OpenAppendSegment_Ok [OF inv lsn op [unfolded True]]
    obtain pre k us where P: "concat (map snd pre) @ us = ts" "os_open s2 = Some k" "sorted_wrt (<) (map fst pre @ [k])" "k \<le> os_current_lsn s + 1"
        "\<And>bs. append_file k bs (os_segments s2) = map segment_file pre @ [(k, log_bytes us @ bs)]"
      using o(1) by blast
    consider (full) "res = Ok ()" "s1 = publish (stamp s t) (length ?b) changed (s2\<lparr>os_segments := append_file k ?b (os_segments s2)\<rparr>)"
      | (torn) n where "res \<noteq> Ok ()" "os_segments s1 = append_file k (take n ?b) (os_segments s2)"
    proof (cases outcome)
      case (WriteFailed n e)
      then show thesis using torn [of n] ap cv sync op True P(2) by auto
    next
      case (SyncFailed e)
      then show thesis using torn [of "length ?b"] ap cv sync op True P(2) by auto
    qed (use full ap cv sync op True P(2) in auto)
    then show ?thesis
    proof cases
      case torn
      then show ?thesis using P(1,5) cv append_take_drop_id [of n ?b] by metis
    next
      case full
      have st: "wal_kind (stamp s t) = wal_kind t" "wal_point (stamp s t) = wal_point t" "wal_lsn (stamp s t) = os_current_lsn s + 1" by (simp_all add: stamp_def)
      have "\<forall>j \<in> fst ` set (pre @ [(k, us @ [stamp s t])]). j \<le> os_current_lsn s + 1"
        using P(3,4) by (auto simp: sorted_wrt_append)
      moreover have "os_segments s1 = map segment_file (pre @ [(k, us @ [stamp s t])])" "os_open s1 = Some k" "os_sync_wal s1"
          "os_current_lsn s1 = os_current_lsn s + 1"
        using full(2) P(2,5) o(5) sync by (simp_all add: publish_def Let_def st)
      ultimately have "log_inv (ts @ [stamp s t]) s1"
        unfolding log_inv_def using P(1,3) by (intro conjI exI [of _ "pre @ [(k, us @ [stamp s t])]"]) auto
      then show ?thesis using full cv o(2-5) by (simp add: publish_def Let_def st)
    qed
  qed
qed

text \<open>A store and a recovered state that are at the same point.\<close>

definition matches :: "OnlineStore \<Rightarrow> recovery \<Rightarrow> bool" where
  "matches s r \<longleftrightarrow> rcv_point r = os_point s \<and> rcv_chain r = os_chain_hashes s \<and> rcv_last_lsn r = os_current_lsn s \<and>
     rcv_durable_lsn r \<le> os_current_lsn s"

lemma stamp_simps [simp]:
  "wal_kind (stamp s t) = wal_kind t" "wal_point (stamp s t) = wal_point t" "wal_previous (stamp s t) = wal_previous t"
  "wal_lsn (stamp s t) = os_current_lsn s + 1" "before_num_leaves (stamp s t) = before_num_leaves t" "after_num_leaves (stamp s t) = after_num_leaves t"
  "wal_ok (stamp s t) = wal_ok t"
  by (simp_all add: stamp_def wal_ok_def height_valid_def)

lemma unat_Suc_word: "unat (w :: 'a::len word) + 1 < 2 ^ LENGTH('a) \<Longrightarrow> unat (w + 1) = unat w + 1"
  by (metis add.commute unat_add_lem unat_1)

lemma chain_valid_extends:
  assumes "chain_valid t s" "length (os_chain_hashes s) < 2 ^ 32"
  shows "extends_chain t (os_point s) (os_chain_hashes s)"
  using assms unat_Suc_word [of "height (wal_previous t)"] by (auto simp: chain_valid_def extends_chain_def)

lemma accepts_stamp:
  assumes "matches s r" "chain_valid t s" "wal_ok t" "before_num_leaves t = rcv_num_leaves r"
    "os_current_lsn s < os_current_lsn s + 1" "length (os_chain_hashes s) < 2 ^ 32"
  shows "accepts r (stamp s t)" "rcv_num_leaves (redo (stamp s t) r) = after_num_leaves t" "rcv_last_lsn (redo (stamp s t) r) = os_current_lsn s + 1"
    "rcv_point (redo (stamp s t) r) = wal_point t" "rcv_durable_lsn (redo (stamp s t) r) = rcv_durable_lsn r"
    "rcv_chain (redo (stamp s t) r) = (if wal_kind t = CONNECT then os_chain_hashes s @ [point_hash (wal_point t)] else butlast (os_chain_hashes s))"
proof -
  have "\<not> os_current_lsn s + 1 \<le> rcv_durable_lsn r" using assms(1,5) by (auto simp: matches_def)
  then show "rcv_num_leaves (redo (stamp s t) r) = after_num_leaves t" "rcv_last_lsn (redo (stamp s t) r) = os_current_lsn s + 1"
    "rcv_point (redo (stamp s t) r) = wal_point t" "rcv_durable_lsn (redo (stamp s t) r) = rcv_durable_lsn r"
    "rcv_chain (redo (stamp s t) r) = (if wal_kind t = CONNECT then os_chain_hashes s @ [point_hash (wal_point t)] else butlast (os_chain_hashes s))"
    using assms(1) by (simp_all add: redo_def replay_def matches_def)
  have "extends_chain (stamp s t) (rcv_point r) (rcv_chain r)"
    using chain_valid_extends [OF assms(2,6)] assms(1) by (auto simp: matches_def extends_chain_def)
  then show "accepts r (stamp s t)" using assms by (simp add: accepts_def matches_def)
qed

lemma log_extends_old:
  assumes "\<forall>t \<in> set ts. wal_ok t \<and> wal_lsn t \<le> rcv_durable_lsn r"
  shows "log_extends ts r \<and> fold redo ts r = r"
  using assms by (induction ts) (simp_all add: accepts_def redo_def)

lemma logged_leaves_append: "logged_leaves n (ts @ us) = logged_leaves (logged_leaves n ts) us"
  by (simp add: logged_leaves_def)

text \<open>A run keeps the shape of the log, numbers its transactions, and can be replayed.\<close>

lemma log_run_inv:
  assumes "log_run n s ts s'" "log_inv us s" "unat (os_current_lsn s) + length ts < 2 ^ 64"
  shows "log_inv (us @ ts) s'" "unat (os_current_lsn s') = unat (os_current_lsn s) + length ts"
    "\<forall>t \<in> set ts. wal_ok t \<and> os_current_lsn s < wal_lsn t \<and> wal_lsn t \<le> os_current_lsn s'" "length (os_chain_hashes s') \<le> length (os_chain_hashes s) + length ts"
proof -
  have "log_inv (us @ ts) s' \<and> unat (os_current_lsn s') = unat (os_current_lsn s) + length ts \<and>
      (\<forall>t \<in> set ts. wal_ok t \<and> os_current_lsn s < wal_lsn t \<and> wal_lsn t \<le> os_current_lsn s') \<and> length (os_chain_hashes s') \<le> length (os_chain_hashes s) + length ts"
    using assms
  proof (induction rule: log_run.induct)
    case (log_append ts s1 t outcome changed s2)
    then have IH: "log_inv (us @ ts) s1" "unat (os_current_lsn s1) = unat (os_current_lsn s) + length ts" "\<forall>t \<in> set ts. wal_ok t \<and> os_current_lsn s < wal_lsn t \<and> wal_lsn t \<le> os_current_lsn s1"
        "length (os_chain_hashes s1) \<le> length (os_chain_hashes s) + length ts"
      by simp_all
    have u: "unat (os_current_lsn s1 + 1) = unat (os_current_lsn s1) + 1" using log_append.prems(2) IH(2) by (intro unat_Suc_word) simp
    then have lt: "os_current_lsn s1 < os_current_lsn s1 + 1" "os_current_lsn s < os_current_lsn s1 + 1" using IH(2) by (simp_all add: word_less_nat_alt)
    have "log_inv ((us @ ts) @ [stamp s1 t]) s2" "os_current_lsn s2 = os_current_lsn s1 + 1" "length (os_chain_hashes s2) \<le> length (os_chain_hashes s1) + 1"
      using Append_outcomes [OF IH(1) lt(1) log_append.hyps(4)] by auto
    then show ?case using IH u lt log_append.hyps(2) by (auto intro: order_less_imp_le order.trans)
  qed simp
  then show "log_inv (us @ ts) s'" "unat (os_current_lsn s') = unat (os_current_lsn s) + length ts"
    "\<forall>t \<in> set ts. wal_ok t \<and> os_current_lsn s < wal_lsn t \<and> wal_lsn t \<le> os_current_lsn s'" "length (os_chain_hashes s') \<le> length (os_chain_hashes s) + length ts" by auto
qed

lemma log_run_replays:
  assumes "log_run n s ts s'" "log_inv us s" "unat (os_current_lsn s) + length ts < 2 ^ 64" "length (os_chain_hashes s) + length ts < 2 ^ 32"
    "matches s r" "rcv_num_leaves r = n"
  shows "log_extends ts r \<and> matches s' (fold redo ts r) \<and> rcv_num_leaves (fold redo ts r) = logged_leaves n ts"
  using assms
proof (induction rule: log_run.induct)
  case (log_append ts s1 t outcome changed s2)
  then have IH: "log_extends ts r" "matches s1 (fold redo ts r)" "rcv_num_leaves (fold redo ts r) = logged_leaves n ts" by simp_all
  have b: "unat (os_current_lsn s) + length ts < 2 ^ 64" using log_append.prems by simp
  note inv = log_run_inv [OF log_append.hyps(1) log_append.prems(1) b]
  have "unat (os_current_lsn s1 + 1) = unat (os_current_lsn s1) + 1" using log_append.prems(2) inv(2) by (intro unat_Suc_word) simp
  then have lt: "os_current_lsn s1 < os_current_lsn s1 + 1" by (simp add: word_less_nat_alt)
  have ap: "chain_valid t s1" "os_current_lsn s2 = os_current_lsn s1 + 1" "os_point s2 = wal_point t"
      "os_chain_hashes s2 = (if wal_kind t = CONNECT then os_chain_hashes s1 @ [point_hash (wal_point t)] else butlast (os_chain_hashes s1))"
    using Append_outcomes [OF inv(1) lt log_append.hyps(4)] by auto
  have "length (os_chain_hashes s1) < 2 ^ 32" using inv(4) log_append.prems(3) by simp
  note acc = accepts_stamp [OF IH(2) ap(1) log_append.hyps(2) _ lt this, unfolded IH(3), OF log_append.hyps(3)]
  have d: "rcv_durable_lsn (fold redo ts r) \<le> os_current_lsn s1 + 1" using IH(2) lt by (auto simp: matches_def)
  show ?case using IH(1) acc ap(2-4) d by (simp add: log_extends_append matches_def logged_leaves_def)
qed (simp add: logged_leaves_def)

lemma fold_redo_replay:
  assumes "\<forall>t \<in> set ts. rcv_durable_lsn r < wal_lsn t"
  shows "\<exists>x. fold redo ts r = (fold replay ts r)\<lparr>rcv_redo_wal_bytes := x\<rparr>"
proof -
  have replay_bytes: "replay t (s\<lparr>rcv_redo_wal_bytes := x\<rparr>) = (replay t s)\<lparr>rcv_redo_wal_bytes := x\<rparr>" for t s x by (simp add: replay_def)
  have "\<exists>y. fold redo ts (s\<lparr>rcv_redo_wal_bytes := x\<rparr>) = (fold replay ts s)\<lparr>rcv_redo_wal_bytes := y\<rparr>"
    if "\<forall>t \<in> set ts. rcv_durable_lsn s < wal_lsn t" for s x
    using that
  proof (induction ts arbitrary: s x)
    case (Cons t ts)
    have "rcv_durable_lsn (replay t s) = rcv_durable_lsn s" by (simp add: replay_def)
    moreover have "\<exists>y. redo t (s\<lparr>rcv_redo_wal_bytes := x\<rparr>) = (replay t s)\<lparr>rcv_redo_wal_bytes := y\<rparr>"
      using Cons.prems by (auto simp: redo_def replay_bytes)
    ultimately show ?case using Cons by auto
  qed auto
  from this [OF assms, of "rcv_redo_wal_bytes r"] show ?thesis by simp
qed

definition log_files :: "(u64 \<Rightarrow> string) \<Rightarrow> OnlineStore \<Rightarrow> (string \<times> byte list) list" where
  "log_files path s = map (map_prod path (\<lambda>f. f)) (os_segments s)"

lemma log_files_segments:
  "map (map_prod path (\<lambda>f. f)) (map segment_file segs) = map segment_file (map (map_prod path (\<lambda>f. f)) segs)"
  "concat (map snd (map (map_prod path (\<lambda>f. f)) segs)) = concat (map snd segs)"
  "concat (map snd (map segment_file segs)) = log_bytes (concat (map snd segs))"
  by (induction segs) auto

text \<open>Recovery of a log of whole records, and of one with a record cut short or unpublished at its end.\<close>

definition recovers_to :: "(u64 \<Rightarrow> string) \<Rightarrow> OnlineStore \<Rightarrow> recovery \<Rightarrow> WalTransaction list \<Rightarrow> bool" where
  "recovers_to path s r ts \<longleftrightarrow> (\<exists>files x. let r' = (fold redo ts (r\<lparr>rcv_last_lsn := rcv_durable_lsn r\<rparr>))\<lparr>rcv_wal_bytes := x\<rparr>
     in Recover (log_files path s) r = Ok (files, r', max (rcv_durable_lsn r') (rcv_last_lsn r')) \<and> concat (map snd files) = log_bytes ts)"

lemma Recover_whole:
  assumes "os_segments s = map segment_file segs" "log_extends (concat (map snd segs)) (r\<lparr>rcv_last_lsn := rcv_durable_lsn r\<rparr>)"
  shows "recovers_to path s r (concat (map snd segs))"
proof -
  let ?segs = "map (map_prod path (\<lambda>f. f)) segs"
  have c: "concat (map snd ?segs) = concat (map snd segs)" by (rule log_files_segments)
  obtain x where "recover_segments (map segment_file ?segs) (r\<lparr>rcv_last_lsn := rcv_durable_lsn r\<rparr>) =
      Ok (map segment_file ?segs, (fold redo (concat (map snd ?segs)) (r\<lparr>rcv_last_lsn := rcv_durable_lsn r\<rparr>))\<lparr>rcv_wal_bytes := x\<rparr>)"
    using recover_segments_whole [of ?segs] assms(2) unfolding c by blast
  then show ?thesis unfolding recovers_to_def Recover_def log_files_def assms(1) log_files_segments(1) Let_def c
    by (intro exI [of _ "map segment_file ?segs"] exI [of _ x]) (simp only: and_then.simps prod.case log_files_segments(2,3) simp_thms)
qed

lemma Recover_torn:
  assumes "os_segments s = map segment_file pre @ [(k, log_bytes us @ p)]" "wal_ok t" "SerializeWal t = p @ q" "q \<noteq> []"
    "log_extends (concat (map snd pre) @ us) (r\<lparr>rcv_last_lsn := rcv_durable_lsn r\<rparr>)"
  shows "recovers_to path s r (concat (map snd pre) @ us)"
proof -
  let ?pre = "map (map_prod path (\<lambda>f. f)) pre"
  have c: "concat (map snd ?pre) = concat (map snd pre)" by (rule log_files_segments)
  have f: "log_files path s = map segment_file ?pre @ [(path k, log_bytes us @ p)]" unfolding log_files_def assms(1) map_append log_files_segments(1) by simp
  have "concat (map snd (map segment_file ?pre @ [(path k, log_bytes us)])) = log_bytes (concat (map snd pre) @ us)"
    unfolding map_append concat_append log_files_segments(3) c by simp
  moreover have "p = [] \<or> (\<exists>t q. wal_ok t \<and> SerializeWal t = p @ q \<and> q \<noteq> [])" using assms(2-4) by blast
  ultimately show ?thesis
    using recover_segments_log [of ?pre us _ p "path k"] assms(5) unfolding recovers_to_def Recover_def f c Let_def by auto
qed

lemma Append_recovers:
  assumes inv: "log_inv ts s" and lsn: "os_current_lsn s < os_current_lsn s + 1" and ap: "Append outcome t changed s = (res, s1)" and ok: "wal_ok t"
    and ext: "log_extends ts (r\<lparr>rcv_last_lsn := rcv_durable_lsn r\<rparr>)"
    and acc: "chain_valid t s \<Longrightarrow> accepts (fold redo ts (r\<lparr>rcv_last_lsn := rcv_durable_lsn r\<rparr>)) (stamp s t)"
  shows "res \<noteq> Ok () \<and> recovers_to path s1 r ts \<or> recovers_to path s1 r (ts @ [stamp s t])"
proof -
  let ?t = "stamp s t"
  have ext1: "log_extends (ts @ [?t]) (r\<lparr>rcv_last_lsn := rcv_durable_lsn r\<rparr>)" if "chain_valid t s" using ext acc [OF that] by (simp add: log_extends_append)
  show ?thesis
    using Append_outcomes [OF inv lsn ap]
  proof (elim disjE conjE exE)
    assume o: "chain_valid t s" "log_inv (ts @ [?t]) s1"
    obtain segs where "os_segments s1 = map segment_file segs" "concat (map snd segs) = ts @ [?t]"
      using o(2) unfolding log_inv_def by blast
    then show ?thesis using Recover_whole [of s1 segs r path] ext1 [OF o(1)] by simp
  next
    fix segs
    assume "res \<noteq> Ok ()" "os_segments s1 = map segment_file segs" "concat (map snd segs) = ts"
    then show ?thesis using Recover_whole [of s1 segs r path] ext by simp
  next
    fix pre k us p q
    assume o: "res \<noteq> Ok ()" "chain_valid t s" "os_segments s1 = map segment_file pre @ [(k, log_bytes us @ p)]"
      "concat (map snd pre) @ us = ts" "SerializeWal ?t = p @ q"
    show ?thesis
    proof (cases "q = []")
      case True
      then have f: "os_segments s1 = map segment_file (pre @ [(k, us @ [?t])])" using o(3,5) by simp
      have c: "concat (map snd (pre @ [(k, us @ [?t])])) = ts @ [?t]" using o(4) by simp
      show ?thesis using Recover_whole [OF f, unfolded c, OF ext1 [OF o(2)]] by blast
    next
      case False
      then show ?thesis using Recover_torn [OF o(3) _ o(5) False, of r path] o(1,4) ok ext by simp
    qed
  qed
qed

section \<open>Properties\<close>

text \<open>The base that recovery starts from: the state after the transactions that are already durable.\<close>

definition base_of :: "OnlineStore \<Rightarrow> u64 \<Rightarrow> recovery \<Rightarrow> bool" where
  "base_of s n r \<longleftrightarrow> rcv_point r = os_point s \<and> rcv_chain r = os_chain_hashes s \<and> rcv_durable_lsn r = os_current_lsn s \<and> rcv_num_leaves r = n"

definition new_log :: "OnlineStore \<Rightarrow> bool" where
  "new_log s \<longleftrightarrow> os_sync_wal s \<and> os_segments s = [] \<and> os_open s = None"

definition log_room :: "OnlineStore \<Rightarrow> nat \<Rightarrow> bool" where
  "log_room s k \<longleftrightarrow> unat (os_current_lsn s) + k < 2 ^ 64 \<and> length (os_chain_hashes s) + k < 2 ^ 32"

text \<open>The state \<open>r'\<close> holds what replaying \<open>us\<close> on the base gives, and is at the point of the store \<open>s\<close>.\<close>

definition replayed :: "WalTransaction list \<Rightarrow> recovery \<Rightarrow> recovery \<Rightarrow> bool" where
  "replayed us r r' \<longleftrightarrow> rcv_arena r' = rcv_arena (fold replay us r) \<and> rcv_roots r' = rcv_roots (fold replay us r) \<and>
     rcv_num_leaves r' = rcv_num_leaves (fold replay us r) \<and> rcv_point r' = rcv_point (fold replay us r) \<and> rcv_chain r' = rcv_chain (fold replay us r)"

definition at_store :: "OnlineStore \<Rightarrow> recovery \<Rightarrow> u64 \<Rightarrow> bool" where
  "at_store s r lsn \<longleftrightarrow> rcv_point r = os_point s \<and> rcv_chain r = os_chain_hashes s \<and> lsn = os_current_lsn s"

lemma replayed_redo:
  assumes "\<forall>t \<in> set us. rcv_durable_lsn r < wal_lsn t"
  shows "replayed us r ((fold redo us (r\<lparr>rcv_last_lsn := x\<rparr>))\<lparr>rcv_wal_bytes := w\<rparr>)"
proof -
  have "\<exists>z. fold replay us (r\<lparr>rcv_last_lsn := x\<rparr>) = (fold replay us r)\<lparr>rcv_last_lsn := z\<rparr>" for r x
  proof (cases us)
    case (Cons u us)
    have "replay u (r\<lparr>rcv_last_lsn := x\<rparr>) = replay u r" by (simp add: replay_def)
    then have "fold replay (u # us) (r\<lparr>rcv_last_lsn := x\<rparr>) = (fold replay (u # us) r)\<lparr>rcv_last_lsn := rcv_last_lsn (fold replay (u # us) r)\<rparr>" by simp
    then show ?thesis using Cons by blast
  qed auto
  then obtain z where "fold replay us (r\<lparr>rcv_last_lsn := x\<rparr>) = (fold replay us r)\<lparr>rcv_last_lsn := z\<rparr>" by blast
  moreover obtain y where "fold redo us (r\<lparr>rcv_last_lsn := x\<rparr>) = (fold replay us (r\<lparr>rcv_last_lsn := x\<rparr>))\<lparr>rcv_redo_wal_bytes := y\<rparr>"
    using fold_redo_replay [of us "r\<lparr>rcv_last_lsn := x\<rparr>"] assms by auto
  ultimately show ?thesis by (simp add: replayed_def)
qed

text \<open>What the two runs establish: the older transactions are skipped and the newer ones replayed.\<close>

lemma two_runs:
  assumes "new_log s0" "log_run n s0 old s1" "log_run (logged_leaves n old) s1 new s2" "log_room s0 (length old + length new + 1)"
    and "base_of s1 (logged_leaves n old) r"
  defines "r0 \<equiv> r\<lparr>rcv_last_lsn := rcv_durable_lsn r\<rparr>"
  shows "log_inv (old @ new) s2" "os_current_lsn s2 < os_current_lsn s2 + 1" "length (os_chain_hashes s2) < 2 ^ 32"
    "log_extends (old @ new) r0" "fold redo (old @ new) r0 = fold redo new r0" "matches s2 (fold redo new r0)"
    "rcv_num_leaves (fold redo new r0) = logged_leaves n (old @ new)" "\<forall>t \<in> set new \<union> {stamp s2 t}. rcv_durable_lsn r < wal_lsn t"
proof -
  have room: "unat (os_current_lsn s0) + (length old + length new + 1) < 2 ^ 64" "length (os_chain_hashes s0) + (length old + length new + 1) < 2 ^ 32"
    using assms(4) by (simp_all add: log_room_def)
  have i0: "log_inv [] s0" using assms(1) by (auto simp: new_log_def log_inv_def intro: exI [of _ "[]"])
  have "unat (os_current_lsn s0) + length old < 2 ^ 64" using room(1) by simp
  note i1 = log_run_inv [OF assms(2) i0 this]
  have i1i: "log_inv old s1" using i1(1) by simp
  have b2: "unat (os_current_lsn s1) + length new < 2 ^ 64" using room(1) i1(2) by simp
  note i2 = log_run_inv [OF assms(3) i1i b2]
  show "log_inv (old @ new) s2" by (rule i2)
  have "unat (os_current_lsn s2 + 1) = unat (os_current_lsn s2) + 1" using room(1) i1(2) i2(2) by (intro unat_Suc_word) simp
  then show lt: "os_current_lsn s2 < os_current_lsn s2 + 1" by (simp add: word_less_nat_alt)
  have len: "length (os_chain_hashes s1) + length new < 2 ^ 32" using i1(4) room(2) by simp
  then show "length (os_chain_hashes s2) < 2 ^ 32" using i2(4) by simp
  have m: "matches s1 r0" and d: "rcv_durable_lsn r0 = os_current_lsn s1" "rcv_num_leaves r0 = logged_leaves n old"
    using assms(5) by (simp_all add: base_of_def matches_def r0_def)
  have old: "log_extends old r0" "fold redo old r0 = r0" using log_extends_old [of old r0] i1(3) d(1) by auto
  note rep = log_run_replays [OF assms(3) i1i b2 len m d(2)]
  then show "log_extends (old @ new) r0" "fold redo (old @ new) r0 = fold redo new r0" "matches s2 (fold redo new r0)"
    "rcv_num_leaves (fold redo new r0) = logged_leaves n (old @ new)"
    using old by (simp_all add: log_extends_append logged_leaves_append)
  have "os_current_lsn s1 \<le> os_current_lsn s2" using i2(2) by (simp add: word_le_nat_alt)
  then show "\<forall>t \<in> set new \<union> {stamp s2 t}. rcv_durable_lsn r < wal_lsn t" using i2(3) d(1) lt by (auto simp: r0_def)
qed

lemma at_store_matches: "matches s r \<Longrightarrow> at_store s (r\<lparr>rcv_wal_bytes := x\<rparr>) (max (rcv_durable_lsn r) (rcv_last_lsn r))"
  by (simp add: matches_def at_store_def max_def)

text \<open>C37: The log makes blocks durable and atomic. Take a log to which transactions were appended, of which the first ones are
  already in the durable base, and one more append that ends in any way: it succeeds, the segment cannot be opened, the write
  stops after some bytes, or the bytes are not forced to disk. Recovery from the files then succeeds. It replays exactly the
  transactions behind the base, without the last one or with all of it, and with it if the append succeeded; the files
  keep exactly the records of these transactions, and the recovered point, chain and log sequence number
  are those of the store.\<close>

theorem Recover_durable_atomic:
  assumes "new_log s0" "log_run n s0 old s1" "log_run (logged_leaves n old) s1 new s2" "log_room s0 (length old + length new + 1)"
    and "base_of s1 (logged_leaves n old) r"
    and "wal_ok t" "before_num_leaves t = logged_leaves n (old @ new)" "Append outcome t changed s2 = (res, s3)"
  shows "\<exists>us files r' lsn. Recover (log_files path s3) r = Ok (files, r', lsn) \<and> replayed us r r' \<and> concat (map snd files) = log_bytes (old @ us) \<and>
    (us = new \<and> res \<noteq> Ok () \<and> at_store s2 r' lsn \<or> us = new @ [stamp s2 t] \<and> (res = Ok () \<longrightarrow> at_store s3 r' lsn))"
proof -
  let ?r = "r\<lparr>rcv_last_lsn := rcv_durable_lsn r\<rparr>"
  let ?t = "stamp s2 t"
  note run = two_runs [OF assms(1-5)]
  note acc = accepts_stamp [OF run(6) _ assms(6) _ run(2,3), unfolded run(7), OF _ assms(7)]
  have rec: "res \<noteq> Ok () \<and> recovers_to path s3 r (old @ new) \<or> recovers_to path s3 r ((old @ new) @ [?t])"
    using Append_recovers [OF run(1,2) assms(8,6) run(4), unfolded run(5), OF acc(1)] .
  have new: "replayed new r ((fold redo new ?r)\<lparr>rcv_wal_bytes := x\<rparr>)" "at_store s2 ((fold redo new ?r)\<lparr>rcv_wal_bytes := x\<rparr>)
      (max (rcv_durable_lsn (fold redo new ?r)) (rcv_last_lsn (fold redo new ?r)))" for x
    using replayed_redo [of new] run(6,8) by (auto intro: at_store_matches)
  have all: "fold redo ((old @ new) @ [?t]) ?r = redo ?t (fold redo new ?r)" using run(5) by simp
  have newer: "replayed (new @ [?t]) r ((redo ?t (fold redo new ?r))\<lparr>rcv_wal_bytes := x\<rparr>)" for x
    using replayed_redo [of "new @ [?t]" r x "rcv_durable_lsn r"] run(8) [of t] by simp
  have m: "matches s3 (redo ?t (fold redo new ?r))" if "res = Ok ()"
    using Append_outcomes [OF run(1,2) assms(8)] acc(3-6) run(2,6) that unfolding matches_def by auto
  show ?thesis
    using rec
  proof
    assume "res \<noteq> Ok () \<and> recovers_to path s3 r (old @ new)"
    then obtain files x where "res \<noteq> Ok ()" "concat (map snd files) = log_bytes (old @ new)" "Recover (log_files path s3) r =
        Ok (files, (fold redo new ?r)\<lparr>rcv_wal_bytes := x\<rparr>, max (rcv_durable_lsn (fold redo new ?r)) (rcv_last_lsn (fold redo new ?r)))"
      unfolding recovers_to_def Let_def run(5) by auto
    then show ?thesis using new [of x] by blast
  next
    assume "recovers_to path s3 r ((old @ new) @ [?t])"
    then obtain files x where "concat (map snd files) = log_bytes (old @ new @ [?t])" "Recover (log_files path s3) r =
        Ok (files, (redo ?t (fold redo new ?r))\<lparr>rcv_wal_bytes := x\<rparr>, max (rcv_durable_lsn (redo ?t (fold redo new ?r))) (rcv_last_lsn (redo ?t (fold redo new ?r))))"
      unfolding recovers_to_def Let_def all by auto
    then show ?thesis using newer [of x] at_store_matches [OF m, of x] by blast
  qed
qed

text \<open>An empty log at the genesis block, and a block with one new node.\<close>

definition example_store :: OnlineStore where
  "example_store = \<lparr>os_point = \<lparr>height = 0, point_hash = null_hash\<rparr>, os_chain_hashes = [null_hash], os_current_lsn = 7, os_sync_wal = True,
     os_wal_segment_bytes = 1024, os_segments = [], os_open = None, os_segment_size = 0, os_wal_bytes = 0, os_redo_wal_bytes = 0,
     os_wal_segment_directory_syncs = 0, os_last_transaction_nodes = 0, os_last_transaction_wal_bytes = 0\<rparr>"

definition example_transaction :: WalTransaction where
  "example_transaction = \<lparr>wal_kind = CONNECT, wal_lsn = 0, wal_previous = \<lparr>height = 0, point_hash = null_hash\<rparr>,
     wal_point = \<lparr>height = 1, point_hash = null_hash\<rparr>, before_num_leaves = 0, after_num_leaves = 1, before_next = 0, after_next = 1,
     before_roots = replicate 64 NO_NODE, after_roots = 0 # replicate 63 NO_NODE,
     wal_changes = [\<lparr>change_id = 0, change_before = empty_record, change_after = empty_record\<lparr>rec_type := LEAF\<rparr>\<rparr>]\<rparr>"

definition example_base :: recovery where
  "example_base = \<lparr>rcv_arena = empty_arena\<lparr>m_mapped := True\<rparr>, rcv_roots = replicate 64 NO_NODE, rcv_num_leaves = 0,
     rcv_point = \<lparr>height = 0, point_hash = null_hash\<rparr>, rcv_chain = [null_hash], rcv_last_lsn = 0, rcv_durable_lsn = 7,
     rcv_redo_wal_bytes = 0, rcv_wal_bytes = 0\<rparr>"

theorem Recover_durable_atomic_witness:
  "(\<exists>s3 files r'. Append Written example_transaction 1 example_store = (Ok (), s3) \<and>
      Recover (log_files (\<lambda>_. ''wal'') s3) example_base = Ok (files, r', 8) \<and> m_dirty (rcv_arena r') 0 = Some (empty_record\<lparr>rec_type := LEAF\<rparr>)) \<and>
   (\<exists>s3 files r' lsn. Append (WriteFailed 100 ''write'') example_transaction 1 example_store = (Err ''write'', s3) \<and>
      Recover (log_files (\<lambda>_. ''wal'') s3) example_base = Ok (files, r', lsn))"
proof -
  let ?s = example_store
  have h: "new_log ?s" "log_room ?s (length ([] :: WalTransaction list) + length ([] :: WalTransaction list) + 1)"
    "base_of ?s (logged_leaves 0 []) example_base" "wal_ok example_transaction" "before_num_leaves example_transaction = logged_leaves 0 ([] @ [])"
    by (simp_all add: new_log_def log_room_def base_of_def wal_ok_def height_valid_def logged_leaves_def example_store_def example_base_def
        example_transaction_def unat_NO_NODE word_less_nat_alt [of _ NO_NODE])
  let ?a1 = "Append Written example_transaction 1 ?s" and ?a2 = "Append (WriteFailed 100 ''write'') example_transaction 1 ?s"
  have f: "fst ?a1 = Ok ()" "fst ?a2 = Err ''write''" "os_current_lsn (snd ?a1) = 8"
    by (simp_all add: Append_def OpenAppendSegment_def chain_valid_def publish_def example_store_def example_transaction_def Let_def)
  then obtain s1 s2 where a1: "?a1 = (Ok (), s1)" and a2: "?a2 = (Err ''write'', s2)" by (metis prod.collapse)
  note run = Recover_durable_atomic [OF h(1) log_start log_start h(2-5)]
  obtain files r' lsn where r: "Recover (log_files (\<lambda>_. ''wal'') s1) example_base = Ok (files, r', lsn)" "replayed [stamp ?s example_transaction] example_base r'"
      "at_store s1 r' lsn"
    using run [OF a1, of "\<lambda>_. ''wal''"] by auto
  have "lsn = 8" using r(3) f(3) a1 by (simp add: at_store_def)
  moreover have "m_dirty (rcv_arena r') 0 = Some (empty_record\<lparr>rec_type := LEAF\<rparr>)"
    using r(2) by (simp add: replayed_def replay_def stamp_def example_transaction_def ApplyRecovered_def Let_def)
  moreover obtain files2 r2 lsn2 where "Recover (log_files (\<lambda>_. ''wal'') s2) example_base = Ok (files2, r2, lsn2)"
    using run [OF a2, of "\<lambda>_. ''wal''"] by auto
  ultimately show ?thesis using a1 a2 r(1) by blast
qed

end
