(* ===== verification/DeltaRun.thy ===== *)
theory DeltaRun
  imports Wal
begin

unbundle bit_operations_syntax

text \<open>
  A delta run of the online forest (\<open>MappedDeltaRun\<close>, \<open>SerializeDeltaHeader\<close> and \<open>WriteDeltaRun\<close> of
  \<^verbatim>\<open>src/src/forest.cpp\<close>): an immutable file with the changed node records in the order of their ids, found
  through a blocked Bloom filter, an index of every 64th id and a binary search. A run that is open is its header, its
  records, the chain hashes behind those of the base, the filter and the index. Reading and writing the file
  in pieces is reading and writing its bytes; the memory mapping, the permissions of the file and the metrics are left out.
\<close>

section \<open>Records, header and state\<close>

record DeltaDiskRecord =
  d_id :: NodeId
  d_hash :: hash256
  d_parent :: NodeId
  d_left :: NodeId
  d_right :: NodeId
  d_type :: u8
  d_reserved :: "byte list"

record DeltaState =
  ds_snapshot :: bool
  ds_generation :: u64
  ds_previous_generation :: u64
  ds_base_generation :: u64
  ds_physical_base_lsn :: u64
  ds_base_fingerprint :: hash256
  ds_previous_lsn :: u64
  ds_end_lsn :: u64
  ds_base_chain_count :: u64
  ds_point :: ChainPoint
  ds_num_leaves :: u64
  ds_next :: NodeId
  ds_live_nodes :: u64
  ds_chain_hash_count :: u64
  ds_record_count :: u64
  ds_roots :: "NodeId list"

record MappedDeltaRun =
  run_state :: DeltaState
  run_records :: "DeltaDiskRecord list"
  run_chain_suffix :: "hash256 list"
  run_filter :: "u64 list"
  run_fences :: "NodeId list"

definition DELTA_MAGIC :: "byte list" where
  "DELTA_MAGIC = [0x55, 0x54, 0x52, 0x44, 0x45, 0x4c, 0x54, 0x31]"

definition DELTA_COMMIT :: "byte list" where
  "DELTA_COMMIT = [0x44, 0x45, 0x4c, 0x54, 0x41, 0x4f, 0x4b, 0x31]"

definition DELTA_FORMAT_VERSION :: u32 where
  "DELTA_FORMAT_VERSION = 1"

definition DELTA_FLAG_SNAPSHOT :: u32 where
  "DELTA_FLAG_SNAPSHOT = 1"

definition DELTA_HEADER_SIZE :: nat where
  "DELTA_HEADER_SIZE = 432"

definition DELTA_TRAILER_SIZE :: nat where
  "DELTA_TRAILER_SIZE = 16"

definition DELTA_FENCE_RECORDS :: nat where
  "DELTA_FENCE_RECORDS = 64"

definition to_disk :: "NodeId \<Rightarrow> NodeRecord \<Rightarrow> DeltaDiskRecord" where
  "to_disk nid r = \<lparr>d_id = nid, d_hash = rec_hash r, d_parent = rec_parent r, d_left = rec_left r, d_right = rec_right r,
     d_type = type_byte (rec_type r), d_reserved = [0, 0, 0]\<rparr>"

definition FromDisk :: "DeltaDiskRecord \<Rightarrow> NodeRecord" where
  "FromDisk d = \<lparr>rec_hash = d_hash d, rec_parent = d_parent d, rec_left = d_left d, rec_right = d_right d,
     rec_type = (if d_type d = 0 then FREE else if d_type d = 1 then LEAF else BRANCH)\<rparr>"

section \<open>The Bloom filter\<close>

definition MixDeltaNodeId :: "u64 \<Rightarrow> u64" where
  "MixDeltaNodeId value =
     (let v1 = value + 0x9e3779b97f4a7c15;
          v2 = (v1 XOR drop_bit 30 v1) * 0xbf58476d1ce4e5b9;
          v3 = (v2 XOR drop_bit 27 v2) * 0x94d049bb133111eb
      in v3 XOR drop_bit 31 v3)"

definition DeltaBloomMask :: "NodeId \<Rightarrow> u64" where
  "DeltaBloomMask nid =
     (let hash = MixDeltaNodeId (ucast nid XOR 0xd6e8feb86659fd93)
      in fold (\<lambda>probe mask. mask OR push_bit (unat (drop_bit (probe * 10) hash AND 63)) 1) [0..<6] 0)"

definition filter_index :: "u64 list \<Rightarrow> NodeId \<Rightarrow> nat" where
  "filter_index bloom nid = unat (MixDeltaNodeId (ucast nid)) mod length bloom"

definition MayContain :: "u64 list \<Rightarrow> NodeId \<Rightarrow> bool" where
  "MayContain bloom nid =
     (if bloom = [] then False
      else bloom ! filter_index bloom nid AND DeltaBloomMask nid = DeltaBloomMask nid)"

definition add_to_filter :: "NodeId \<Rightarrow> u64 list \<Rightarrow> u64 list" where
  "add_to_filter nid bloom = bloom[filter_index bloom nid := bloom ! filter_index bloom nid OR DeltaBloomMask nid]"

section \<open>Looking a record up\<close>

text \<open>\<open>std::upper_bound\<close> in the sorted fences: how many are at most the id.\<close>

definition upper_bound :: "NodeId list \<Rightarrow> NodeId \<Rightarrow> nat" where
  "upper_bound fences nid = length (takeWhile (\<lambda>f. f \<le> nid) fences)"

function lower_id :: "DeltaDiskRecord list \<Rightarrow> NodeId \<Rightarrow> nat \<Rightarrow> nat \<Rightarrow> nat" where
  "lower_id records nid first limit =
     (if first < limit
      then let middle = first + (limit - first) div 2
           in if d_id (records ! middle) < nid then lower_id records nid (middle + 1) limit else lower_id records nid first middle
      else first)"
  by pat_completeness auto

termination
  by (relation "measure (\<lambda>(records, nid, first, limit). limit - first)") auto

declare lower_id.simps [simp del]

definition Find_delta :: "MappedDeltaRun \<Rightarrow> NodeId \<Rightarrow> DeltaDiskRecord option" where
  "Find_delta run nid =
     (if \<not> MayContain (run_filter run) nid then None
      else let upper = upper_bound (run_fences run) nid
           in if upper = 0 then None
              else let count = length (run_records run);
                       block = (upper - 1) * DELTA_FENCE_RECORDS;
                       first = lower_id (run_records run) nid block (min (block + DELTA_FENCE_RECORDS) count)
                   in if first = count \<or> d_id (run_records run ! first) \<noteq> nid then None else Some (run_records run ! first))"

section \<open>Writing a run\<close>

definition SerializeDeltaHeader :: "DeltaState \<Rightarrow> byte list" where
  "SerializeDeltaHeader s =
     DELTA_MAGIC @ write_le 4 DELTA_FORMAT_VERSION @ write_le 4 (if ds_snapshot s then DELTA_FLAG_SNAPSHOT else 0) @
     write_le 8 (ds_generation s) @ write_le 8 (ds_previous_generation s) @ write_le 8 (ds_base_generation s) @
     write_le 8 (ds_physical_base_lsn s) @ Bytes (ds_base_fingerprint s) @ write_le 8 (ds_previous_lsn s) @ write_le 8 (ds_end_lsn s) @
     write_le 8 (ds_base_chain_count s) @ AppendPoint (ds_point s) @
     write_le 8 (ds_num_leaves s) @ write_le 4 (ds_next s) @ write_le 8 (ds_live_nodes s) @ write_le 8 (ds_chain_hash_count s) @
     write_le 8 (ds_record_count s) @ concat (map (write_le 4) (ds_roots s))"

definition disk_bytes :: "DeltaDiskRecord \<Rightarrow> byte list" where
  "disk_bytes d = write_le 4 (d_id d) @ Bytes (d_hash d) @ write_le 4 (d_parent d) @ write_le 4 (d_left d) @ write_le 4 (d_right d) @
     [d_type d] @ d_reserved d"

text \<open>The records are checked while they are written; the first bad one ends the visit.\<close>

fun emit_records :: "NodeId \<Rightarrow> NodeId \<Rightarrow> (NodeId \<times> NodeRecord) list \<Rightarrow> DeltaDiskRecord list Result" where
  "emit_records next previous [] = Ok []"
| "emit_records next previous ((nid, r) # rs) =
     (if nid \<ge> next \<or> previous \<noteq> NO_NODE \<and> nid \<le> previous then Err ''forest delta records are outside the arena or unsorted''
      else and_then (emit_records next nid rs) (\<lambda>ds. Ok (to_disk nid r # ds)))"

definition delta_file :: "DeltaState \<Rightarrow> DeltaDiskRecord list \<Rightarrow> hash256 list \<Rightarrow> byte list" where
  "delta_file s records chain_suffix =
     (let body = SerializeDeltaHeader s @ concat (map disk_bytes records) @ concat (map Bytes chain_suffix)
      in body @ write_le 8 (Checksum body) @ DELTA_COMMIT)"

section \<open>Opening a run\<close>

definition ReadDisk :: "DeltaDiskRecord reader" where
  "ReadDisk =
     read_then (LE 4) (\<lambda>i. read_then ReadHash (\<lambda>h. read_then (LE 4) (\<lambda>p. read_then (LE 4) (\<lambda>l. read_then (LE 4) (\<lambda>r. read_then (LE 1) (\<lambda>t.
       read_then (LE 1) (\<lambda>b0. read_then (LE 1) (\<lambda>b1. read_then (LE 1) (\<lambda>b2.
         read_value \<lparr>d_id = i, d_hash = h, d_parent = p, d_left = l, d_right = r, d_type = t, d_reserved = [b0, b1, b2]\<rparr>)))))))))"

definition ReadDeltaHeader :: "DeltaState reader" where
  "ReadDeltaHeader =
     read_then (LE 4) (\<lambda>version :: u32.
     read_then (LE 4) (\<lambda>flags :: u32.
     read_if (version = DELTA_FORMAT_VERSION \<and> flags AND NOT DELTA_FLAG_SNAPSHOT = 0) (
     read_then (LE 8) (\<lambda>generation.
     read_then (LE 8) (\<lambda>previous_generation.
     read_then (LE 8) (\<lambda>base_generation.
     read_then (LE 8) (\<lambda>physical_base_lsn.
     read_then ReadHash (\<lambda>base_fingerprint.
     read_then (LE 8) (\<lambda>previous_lsn.
     read_then (LE 8) (\<lambda>end_lsn.
     read_then (LE 8) (\<lambda>base_chain_count.
     read_then ReadPoint (\<lambda>point.
     read_then (LE 8) (\<lambda>num_leaves.
     read_then (LE 4) (\<lambda>next.
     read_then (LE 8) (\<lambda>live_nodes.
     read_then (LE 8) (\<lambda>chain_hash_count.
     read_then (LE 8) (\<lambda>record_count.
       read_value \<lparr>ds_snapshot = (flags AND DELTA_FLAG_SNAPSHOT \<noteq> 0), ds_generation = generation, ds_previous_generation = previous_generation,
         ds_base_generation = base_generation, ds_physical_base_lsn = physical_base_lsn, ds_base_fingerprint = base_fingerprint,
         ds_previous_lsn = previous_lsn, ds_end_lsn = end_lsn, ds_base_chain_count = base_chain_count, ds_point = point,
         ds_num_leaves = num_leaves, ds_next = next, ds_live_nodes = live_nodes, ds_chain_hash_count = chain_hash_count,
         ds_record_count = record_count, ds_roots = []\<rparr>)))))))))))))))))"

definition fields_consistent :: "DeltaState \<Rightarrow> bool" where
  "fields_consistent s \<longleftrightarrow> ds_generation s \<noteq> 0 \<and> ds_previous_generation s < ds_generation s \<and> ds_previous_lsn s \<le> ds_end_lsn s \<and>
     ds_next s < NO_NODE \<and> ds_live_nodes s \<le> ucast (ds_next s) \<and> ds_base_chain_count s \<noteq> 0 \<and>
     ds_base_chain_count s \<le> ds_chain_hash_count s \<and> ds_chain_hash_count s = ucast (height (ds_point s)) + 1"

definition size_max :: nat where
  "size_max = 2 ^ 64 - 1"

definition filter_fits :: "nat \<Rightarrow> bool" where
  "filter_fits record_count \<longleftrightarrow> (record_count + 7) div 8 \<le> size_max div 8"

definition fences_fit :: "nat \<Rightarrow> bool" where
  "fences_fit record_count \<longleftrightarrow> (record_count + DELTA_FENCE_RECORDS - 1) div DELTA_FENCE_RECORDS \<le> size_max div 4"

definition InitializeLookupIndex :: "nat \<Rightarrow> (u64 list \<times> NodeId list) Result" where
  "InitializeLookupIndex record_count =
     (if record_count = 0 then Ok ([], [])
      else if \<not> filter_fits record_count then Err ''forest delta filter size overflows this platform''
      else if \<not> fences_fit record_count then Err ''forest delta fence index overflows this platform''
      else Ok (replicate ((record_count + 7) div 8) 0, []))"

definition valid_link :: "NodeId \<Rightarrow> NodeId \<Rightarrow> bool" where
  "valid_link next link \<longleftrightarrow> link = NO_NODE \<or> link < next"

fun index_records :: "NodeId \<Rightarrow> nat \<Rightarrow> NodeId \<Rightarrow> DeltaDiskRecord list \<Rightarrow> u64 list \<times> NodeId list \<Rightarrow> (u64 list \<times> NodeId list) Result" where
  "index_records next i previous [] ix = Ok ix"
| "index_records next i previous (d # ds) (bloom, fences) =
     (if d_id d \<ge> next \<or> previous \<noteq> NO_NODE \<and> d_id d \<le> previous \<or> d_type d > 2 \<or> d_reserved d \<noteq> [0, 0, 0] \<or>
         \<not> valid_link next (d_parent d) \<or> \<not> valid_link next (d_left d) \<or> \<not> valid_link next (d_right d)
      then Err ''forest delta records are invalid or unsorted''
      else index_records next (i + 1) (d_id d) ds
             (add_to_filter (d_id d) bloom, if i mod DELTA_FENCE_RECORDS = 0 then fences @ [d_id d] else fences))"

definition run_fits :: "nat \<Rightarrow> nat \<Rightarrow> bool" where
  "run_fits records suffix_count \<longleftrightarrow>
     records \<le> (size_max - DELTA_HEADER_SIZE - DELTA_TRAILER_SIZE) div 52 \<and>
     suffix_count \<le> (size_max - DELTA_HEADER_SIZE - DELTA_TRAILER_SIZE - records * 52) div 32"

text \<open>The last checks, of the roots and the chain suffix.\<close>

definition checked_run :: "DeltaState \<Rightarrow> DeltaDiskRecord list \<Rightarrow> hash256 list \<Rightarrow> u64 list \<times> NodeId list \<Rightarrow> MappedDeltaRun Result" where
  "checked_run s records chain_suffix ix =
     (if \<not> list_all (valid_link (ds_next s)) (ds_roots s) then Err ''forest delta root is out of range''
      else if chain_suffix \<noteq> [] \<and> last chain_suffix \<noteq> point_hash (ds_point s) then Err ''forest delta chain suffix has the wrong tip''
      else Ok \<lparr>run_state = s, run_records = records, run_chain_suffix = chain_suffix, run_filter = fst ix, run_fences = snd ix\<rparr>)"

text \<open>The part of \<open>Parse\<close> behind the header: sizes, records, roots and the chain suffix.\<close>

definition parse_body :: "DeltaState \<Rightarrow> byte list \<Rightarrow> MappedDeltaRun Result" where
  "parse_body s bytes =
     (let count = unat (ds_record_count s); suffix_count = unat (ds_chain_hash_count s - ds_base_chain_count s)
      in if \<not> run_fits count suffix_count then Err ''forest delta size overflows this platform''
         else if DELTA_HEADER_SIZE + count * 52 + suffix_count * 32 + DELTA_TRAILER_SIZE \<noteq> length bytes then Err ''forest delta size is inconsistent''
         else case read_many count ReadDisk (drop DELTA_HEADER_SIZE bytes) of
                None \<Rightarrow> Err ''forest delta size is inconsistent''
              | Some (records, rest) \<Rightarrow>
         (case read_many suffix_count ReadHash rest of
                None \<Rightarrow> Err ''forest delta size is inconsistent''
              | Some (chain_suffix, _) \<Rightarrow>
         and_then (InitializeLookupIndex count) (\<lambda>ix.
         and_then (index_records (ds_next s) 0 NO_NODE records ix) (checked_run s records chain_suffix))))"

definition Parse_delta :: "byte list \<Rightarrow> MappedDeltaRun Result" where
  "Parse_delta bytes =
     (let checksum_offset = length bytes - DELTA_TRAILER_SIZE
      in if drop (length bytes - 8) bytes \<noteq> DELTA_COMMIT then Err ''forest delta commit marker is missing''
         else if Checksum (take checksum_offset bytes) \<noteq> read_le (take 8 (drop checksum_offset bytes)) then Err ''forest delta checksum mismatch''
         else if take 8 bytes \<noteq> DELTA_MAGIC then Err ''forest delta header is invalid''
         else case ReadDeltaHeader (drop 8 (take DELTA_HEADER_SIZE bytes)) of
                None \<Rightarrow> Err ''forest delta header is invalid''
              | Some (s, rest) \<Rightarrow>
         (case read_many 64 (LE 4) rest of
                None \<Rightarrow> Err ''forest delta roots are truncated''
              | Some (roots, rest1) \<Rightarrow>
                  let s1 = s\<lparr>ds_roots := roots\<rparr>
                  in if rest1 \<noteq> [] \<or> \<not> fields_consistent s1 then Err ''forest delta fields are inconsistent'' else parse_body s1 bytes))"

definition Open_delta :: "string \<Rightarrow> byte list \<Rightarrow> MappedDeltaRun Result" where
  "Open_delta path bytes =
     (if length bytes < DELTA_HEADER_SIZE + DELTA_TRAILER_SIZE then Err (''forest delta run is truncated: '' @ path)
      else in_file path (Parse_delta bytes))"

text \<open>\<open>WriteDeltaRun\<close> with the name of the final file and whether it exists: the bytes it writes and the run it opens from them.
  Writing, renaming and forcing to disk are taken to succeed.\<close>

definition publication_valid :: "DeltaState \<Rightarrow> hash256 list \<Rightarrow> bool" where
  "publication_valid s chain_hashes \<longleftrightarrow> \<not> (ds_generation s = 0 \<or> ds_record_count s \<ge> ucast NO_NODE \<or> ds_base_chain_count s = 0 \<or>
     ds_chain_hash_count s \<noteq> of_nat (length chain_hashes) \<or> unat (ds_base_chain_count s) > length chain_hashes \<or> chain_hashes = [] \<or>
     last chain_hashes \<noteq> point_hash (ds_point s))"

definition WriteDeltaRun :: "string \<Rightarrow> bool \<Rightarrow> DeltaState \<Rightarrow> hash256 list \<Rightarrow> (NodeId \<times> NodeRecord) list \<Rightarrow> (byte list \<times> MappedDeltaRun) Result" where
  "WriteDeltaRun path file_exists s chain_hashes visit =
     (if \<not> publication_valid s chain_hashes then Err ''invalid forest delta publication state''
      else if file_exists then Err (''forest delta generation already exists: '' @ path)
      else if length (SerializeDeltaHeader s) \<noteq> DELTA_HEADER_SIZE then Err ''forest delta header has an unexpected size''
      else and_then (emit_records (ds_next s) NO_NODE visit) (\<lambda>records.
        if of_nat (length records) \<noteq> ds_record_count s then Err ''forest delta record count changed during publication''
        else let bytes = delta_file s records (drop (unat (ds_base_chain_count s)) chain_hashes)
             in and_then (Open_delta path bytes) (\<lambda>run. Ok (bytes, run))))"

section \<open>The filter has no false negatives\<close>

lemma length_add_to_filter [simp]: "length (add_to_filter nid bloom) = length bloom"
  by (simp add: add_to_filter_def)

lemma add_to_filter_Nil [simp]: "add_to_filter nid bloom = [] \<longleftrightarrow> bloom = []"
  by (simp add: add_to_filter_def)

lemma and_or_absorb: "(a OR m) AND m = (m :: 'a::len word)"
  by (rule bit_word_eqI) (auto simp: bit_and_iff bit_or_iff)

lemma and_or_mono: "a AND m = m \<Longrightarrow> (a OR b) AND m = (m :: 'a::len word)"
proof (rule bit_word_eqI)
  fix n
  assume "a AND m = m"
  then have "bit (a AND m) n = bit m n" by simp
  then show "bit ((a OR b) AND m) n = bit m n" by (auto simp: bit_and_iff bit_or_iff)
qed

lemma MayContain_add:
  "bloom \<noteq> [] \<Longrightarrow> MayContain (add_to_filter nid bloom) nid"
  "MayContain bloom i \<Longrightarrow> MayContain (add_to_filter nid bloom) i"
proof -
  have ix: "filter_index (add_to_filter nid bloom) = filter_index bloom" by (rule ext) (simp add: filter_index_def)
  have lt: "filter_index bloom i < length bloom" if "bloom \<noteq> []" for i using that by (simp add: filter_index_def)
  show "MayContain (add_to_filter nid bloom) nid" if "bloom \<noteq> []"
    unfolding MayContain_def ix using lt [OF that] that by (simp add: add_to_filter_def and_or_absorb)
  show "MayContain (add_to_filter nid bloom) i" if m: "MayContain bloom i"
  proof -
    have f: "bloom \<noteq> []" "bloom ! filter_index bloom i AND DeltaBloomMask i = DeltaBloomMask i" using m by (auto simp: MayContain_def split: if_splits)
    show ?thesis
      unfolding MayContain_def ix using lt [OF f(1)] f by (auto simp: add_to_filter_def nth_list_update and_or_mono)
  qed
qed

section \<open>The index of the records\<close>

lemma sorted_ids_Cons:
  "sorted_wrt (<) (map d_id (d # ds)) \<longleftrightarrow> (\<forall>e \<in> set ds. d_id d < d_id e) \<and> sorted_wrt (<) (map d_id ds)"
  by simp

definition fence_ids :: "nat \<Rightarrow> DeltaDiskRecord list \<Rightarrow> NodeId list" where
  "fence_ids i ds = map (\<lambda>j. d_id (ds ! j)) (filter (\<lambda>j. (i + j) mod DELTA_FENCE_RECORDS = 0) [0..<length ds])"

lemma fence_ids_Cons:
  "fence_ids i (d # ds) = (if i mod DELTA_FENCE_RECORDS = 0 then [d_id d] else []) @ fence_ids (i + 1) ds"
proof -
  have "[0..<length (d # ds)] = 0 # map Suc [0..<length ds]" by (simp add: map_Suc_upt upt_conv_Cons del: upt_Suc)
  then show ?thesis by (simp add: fence_ids_def filter_map comp_def del: upt_Suc)
qed

definition disk_ok :: "NodeId \<Rightarrow> DeltaDiskRecord \<Rightarrow> bool" where
  "disk_ok next d \<longleftrightarrow> d_id d < next \<and> d_type d \<le> 2 \<and> d_reserved d = [0, 0, 0] \<and>
     valid_link next (d_parent d) \<and> valid_link next (d_left d) \<and> valid_link next (d_right d)"

lemma index_records_Ok_iff:
  assumes "next < NO_NODE"
  shows "(\<exists>ix. index_records next i previous ds (bloom, fences) = Ok ix) \<longleftrightarrow>
     (\<forall>d \<in> set ds. disk_ok next d) \<and> sorted_wrt (<) (map d_id ds) \<and> (previous \<noteq> NO_NODE \<longrightarrow> (\<forall>d \<in> set ds. previous < d_id d))"
proof (induction ds arbitrary: i previous bloom fences)
  case (Cons d ds)
  have ne: "d_id d \<noteq> NO_NODE" if "d_id d < next" using that assms by auto
  show ?case using Cons.IH ne by (auto simp: disk_ok_def not_le)
qed simp

lemma index_records_index:
  assumes "index_records next i previous ds (bloom, fences) = Ok (bloom', fences')" "bloom \<noteq> []"
  shows "fences' = fences @ fence_ids i ds \<and> (\<forall>d \<in> set ds. MayContain bloom' (d_id d)) \<and> (\<forall>j. MayContain bloom j \<longrightarrow> MayContain bloom' j)"
  using assms
proof (induction ds arbitrary: i previous bloom fences)
  case (Cons d ds)
  let ?f = "if i mod DELTA_FENCE_RECORDS = 0 then fences @ [d_id d] else fences"
  have r: "index_records next (i + 1) (d_id d) ds (add_to_filter (d_id d) bloom, ?f) = Ok (bloom', fences')"
    using Cons.prems(1) by (simp split: if_splits)
  have IH: "fences' = ?f @ fence_ids (i + 1) ds" "\<forall>e \<in> set ds. MayContain bloom' (d_id e)" "\<forall>j. MayContain (add_to_filter (d_id d) bloom) j \<longrightarrow> MayContain bloom' j"
    using Cons.IH [OF r] Cons.prems(2) by simp_all
  then show ?case using MayContain_add(1) [OF Cons.prems(2), of "d_id d"] MayContain_add(2) [of bloom] by (simp add: fence_ids_Cons)
qed (simp add: fence_ids_def)

lemma multiples_below: "filter (\<lambda>j. j mod k = 0) [0..<n] = map (\<lambda>j. k * j) [0..<(n + k - 1) div k]" if "0 < k"
proof (induction n)
  case 0
  then show ?case using that by simp
next
  case (Suc n)
  show ?case
  proof (cases "n mod k = 0")
    case True
    then obtain m where m: "n = k * m" by (auto simp: mod_eq_0_iff_dvd elim: dvdE)
    have "(n + k - 1) div k = m" using that by (intro div_nat_eqI) (simp_all add: m algebra_simps)
    moreover have "(Suc n + k - 1) div k = Suc m" using that by (simp add: m)
    ultimately show ?thesis using Suc True m by simp
  next
    case False
    have "(Suc n + k - 1) div k = (n + k - 1) div k"
    proof -
      define q r where "q = n div k" and "r = n mod k"
      have n: "n = k * q + r" and r: "0 < r" "r < k" using False that by (simp_all add: q_def r_def)
      have "(n + k) div k = Suc q" using r by (intro div_nat_eqI) (simp_all add: n)
      moreover have "(n + k - 1) div k = Suc q" using r by (intro div_nat_eqI) (simp_all add: n)
      ultimately show ?thesis by simp
    qed
    then show ?thesis using Suc False by simp
  qed
qed

lemma fence_ids_0: "fence_ids 0 ds = map (\<lambda>j. d_id (ds ! (64 * j))) [0..<(length ds + 63) div 64]"
  using multiples_below [of 64 "length ds"] by (simp add: fence_ids_def DELTA_FENCE_RECORDS_def comp_def add.commute)

section \<open>The search\<close>

lemma lower_id_spec:
  assumes "first \<le> limit" "limit \<le> length ds" "sorted_wrt (<) (map d_id ds)"
    "\<forall>j < first. d_id (ds ! j) < nid" "\<forall>j < length ds. limit \<le> j \<longrightarrow> nid \<le> d_id (ds ! j)"
  shows "lower_id ds nid first limit \<le> length ds \<and> (\<forall>j < lower_id ds nid first limit. d_id (ds ! j) < nid) \<and>
     (\<forall>j < length ds. lower_id ds nid first limit \<le> j \<longrightarrow> nid \<le> d_id (ds ! j))"
  using assms
proof (induction ds nid first limit rule: lower_id.induct)
  case (1 ds nid first limit)
  have mono: "d_id (ds ! i) < d_id (ds ! j)" if "i < j" "j < length ds" for i j
    using sorted_wrt_nth_less [OF "1.prems"(3), of i j] that by simp
  show ?case
  proof (cases "first < limit")
    case True
    define m where "m = first + (limit - first) div 2"
    have m: "first \<le> m" "m < limit" using True by (simp_all add: m_def)
    have step: "lower_id ds nid first limit = (if d_id (ds ! m) < nid then lower_id ds nid (m + 1) limit else lower_id ds nid first m)"
      using True by (subst lower_id.simps) (simp add: m_def Let_def)
    show ?thesis
    proof (cases "d_id (ds ! m) < nid")
      case lt: True
      have "d_id (ds ! j) < nid" if "j < m + 1" for j
        using mono [of j m] that lt m "1.prems"(2) by (cases "j = m") (auto intro: order.strict_trans)
      then show ?thesis unfolding step if_P [OF lt] using "1.IH"(1) [OF True m_def lt _ "1.prems"(2,3) _ "1.prems"(5)] m by simp
    next
      case ge: False
      have "nid \<le> d_id (ds ! j)" if "m \<le> j" "j < length ds" for j
        using mono [of m j] that ge by (cases "j = m") (auto simp: not_less intro: order.trans)
      then show ?thesis unfolding step if_not_P [OF ge] using "1.IH"(2) [OF True m_def ge _ _ "1.prems"(3,4)] m "1.prems"(2) by simp
    qed
  next
    case False
    then have "lower_id ds nid first limit = first" by (subst lower_id.simps) simp
    then show ?thesis using "1.prems" False by simp
  qed
qed

lemma map_of_sorted:
  assumes "sorted_wrt (<) (map d_id ds)" "r \<le> length ds" "\<forall>j < r. d_id (ds ! j) < nid" "\<forall>j < length ds. r \<le> j \<longrightarrow> nid \<le> d_id (ds ! j)"
  shows "map_of (map (\<lambda>d. (d_id d, d)) ds) nid = (if r = length ds \<or> d_id (ds ! r) \<noteq> nid then None else Some (ds ! r))"
proof -
  have dist: "distinct (map fst (map (\<lambda>d. (d_id d, d)) ds))" using strict_sorted_iff [of "map d_id ds"] assms(1) by (simp add: comp_def)
  show ?thesis
  proof (cases "r = length ds \<or> d_id (ds ! r) \<noteq> nid")
    case True
    have "d_id (ds ! j) \<noteq> nid" if j: "j < length ds" for j
    proof (cases j r rule: linorder_cases)
      case greater
      then have "d_id (ds ! r) < d_id (ds ! j)" using sorted_wrt_nth_less [OF assms(1) greater] j by simp
      moreover have "nid \<le> d_id (ds ! r)" using assms(4) greater j by simp
      ultimately show ?thesis by auto
    qed (use True assms(3) j in auto)
    then have "nid \<notin> d_id ` set ds" by (metis imageE in_set_conv_nth)
    then have "nid \<notin> fst ` set (map (\<lambda>d. (d_id d, d)) ds)" by (simp add: image_image)
    then have "map_of (map (\<lambda>d. (d_id d, d)) ds) nid = None" unfolding map_of_eq_None_iff .
    then show ?thesis using True by simp
  next
    case False
    then have "(nid, ds ! r) \<in> set (map (\<lambda>d. (d_id d, d)) ds)" using assms(2) nth_mem [of r ds] by (auto simp: image_iff)
    then show ?thesis using False map_of_is_SomeI [OF dist] by simp
  qed
qed

text \<open>What holds of an open run.\<close>

definition run_wf :: "MappedDeltaRun \<Rightarrow> bool" where
  "run_wf run \<longleftrightarrow> sorted_wrt (<) (map d_id (run_records run)) \<and> (\<forall>d \<in> set (run_records run). disk_ok (ds_next (run_state run)) d) \<and>
     (\<forall>d \<in> set (run_records run). MayContain (run_filter run) (d_id d)) \<and> run_fences run = fence_ids 0 (run_records run)"

lemma Find_delta_map_of:
  assumes "run_wf run"
  shows "Find_delta run nid = map_of (map (\<lambda>d. (d_id d, d)) (run_records run)) nid"
proof -
  let ?ds = "run_records run"
  let ?n = "length ?ds"
  have s: "sorted_wrt (<) (map d_id ?ds)" and f: "run_fences run = map (\<lambda>j. d_id (?ds ! (64 * j))) [0..<(?n + 63) div 64]"
    using assms by (simp_all add: run_wf_def fence_ids_0)
  have mono: "d_id (?ds ! i) < d_id (?ds ! j)" if "i < j" "j < ?n" for i j using sorted_wrt_nth_less [OF s, of i j] that by simp
  show ?thesis
  proof (cases "MayContain (run_filter run) nid")
    case False
    then have "nid \<notin> d_id ` set ?ds" using assms by (auto simp: run_wf_def)
    then have "map_of (map (\<lambda>d. (d_id d, d)) ?ds) nid = None" by (force simp: map_of_eq_None_iff)
    then show ?thesis using False by (simp add: Find_delta_def)
  next
    case may: True
    define u where "u = upper_bound (run_fences run) nid"
    have u: "u \<le> (?n + 63) div 64" "\<forall>j < u. d_id (?ds ! (64 * j)) \<le> nid" "u < (?n + 63) div 64 \<longrightarrow> nid < d_id (?ds ! (64 * u))"
    proof -
      have l: "length (run_fences run) = (?n + 63) div 64" by (simp add: f)
      show "u \<le> (?n + 63) div 64" unfolding u_def upper_bound_def using length_takeWhile_le [of _ "run_fences run"] l by metis
      show "\<forall>j < u. d_id (?ds ! (64 * j)) \<le> nid"
      proof (intro allI impI)
        fix j assume j: "j < u"
        then have "run_fences run ! j \<le> nid" unfolding u_def upper_bound_def by (metis nth_mem set_takeWhileD takeWhile_nth)
        moreover have "j < (?n + 63) div 64" using j \<open>u \<le> _\<close> by simp
        ultimately show "d_id (?ds ! (64 * j)) \<le> nid" by (simp add: f)
      qed
      show "u < (?n + 63) div 64 \<longrightarrow> nid < d_id (?ds ! (64 * u))"
        using nth_length_takeWhile [of "\<lambda>f. f \<le> nid" "run_fences run"] unfolding u_def upper_bound_def by (simp add: f not_le)
    qed
    show ?thesis
    proof (cases "u = 0")
      case True
      have pos: "0 < (?n + 63) div 64" if "j < ?n" for j using that by (simp add: div_greater_zero_iff)
      have "nid \<le> d_id (?ds ! j)" if "j < ?n" for j
        using u(3) True mono [of 0 j] pos [OF that] that by (cases j) auto
      then have "map_of (map (\<lambda>d. (d_id d, d)) ?ds) nid = (if 0 = ?n \<or> d_id (?ds ! 0) \<noteq> nid then None else Some (?ds ! 0))"
        using map_of_sorted [OF s, of 0 nid] by simp
      moreover have "?n \<noteq> 0 \<Longrightarrow> d_id (?ds ! 0) \<noteq> nid" using u(3) True pos [of 0] by auto
      ultimately show ?thesis using True may u_def by (auto simp: Find_delta_def Let_def)
    next
      case False
      let ?b = "(u - 1) * DELTA_FENCE_RECORDS"
      let ?l = "min (?b + DELTA_FENCE_RECORDS) ?n"
      have b: "?b = 64 * (u - 1)" "?b + DELTA_FENCE_RECORDS = 64 * u" using False by (cases u; simp add: DELTA_FENCE_RECORDS_def)+
      have bn: "?b < ?n" using u(1) False unfolding b(1) by simp
      have lo: "\<forall>j < ?b. d_id (?ds ! j) < nid"
        using u(2) [rule_format, of "u - 1"] False mono [OF _ bn] unfolding b(1) by (auto intro: less_le_trans)
      have hi: "\<forall>j < ?n. ?l \<le> j \<longrightarrow> nid \<le> d_id (?ds ! j)"
      proof (intro allI impI)
        fix j assume j: "j < ?n" "?l \<le> j"
        then have ju: "64 * u \<le> j" using b(2) by simp
        then have "nid < d_id (?ds ! (64 * u))" using u(3) j(1) by simp
        then show "nid \<le> d_id (?ds ! j)" using mono [of "64 * u" j] ju j(1) by (cases "j = 64 * u") auto
      qed
      have "?b \<le> ?l" "?l \<le> ?n" using bn by simp_all
      note spec = lower_id_spec [OF this s lo hi]
      show ?thesis
        using map_of_sorted [OF s, of "lower_id ?ds nid ?b ?l" nid] spec False may u_def unfolding Find_delta_def Let_def by simp
    qed
  qed
qed

section \<open>An accepted file\<close>

lemma InitializeLookupIndex_Ok: "InitializeLookupIndex n = Ok ix \<Longrightarrow> \<exists>bloom. ix = (bloom, []) \<and> (0 < n \<longrightarrow> bloom \<noteq> [])"
proof (cases "n = 0")
  case False
  have "0 < (n + 7) div 8" using False by (simp add: div_greater_zero_iff)
  moreover assume "InitializeLookupIndex n = Ok ix"
  then have "ix = (replicate ((n + 7) div 8) 0, [])" using False unfolding InitializeLookupIndex_def by (auto simp del: div_add_self1 split: if_split_asm)
  ultimately show ?thesis by (intro exI [of _ "replicate ((n + 7) div 8) 0"]) (metis length_greater_0_conv length_replicate)
next
  case True
  moreover assume "InitializeLookupIndex n = Ok ix"
  ultimately have "ix = ([], [])" by (simp add: InitializeLookupIndex_def)
  then show ?thesis using True by blast
qed

lemma read_many_length: "read_many n dec bs = Some (xs, rest) \<Longrightarrow> length xs = n"
  by (induction n arbitrary: bs xs) (auto split: option.splits)

lemma parse_body_wf:
  assumes "parse_body s bytes = Ok run" "ds_next s < NO_NODE"
  shows "run_wf run \<and> run_state run = s"
proof -
  let ?n = "unat (ds_record_count s)"
  have "\<exists>records rest chain_suffix. read_many ?n ReadDisk (drop DELTA_HEADER_SIZE bytes) = Some (records, rest) \<and>
      and_then (InitializeLookupIndex ?n) (\<lambda>ix. and_then (index_records (ds_next s) 0 NO_NODE records ix) (checked_run s records chain_suffix)) = Ok run"
    using assms(1) unfolding parse_body_def Let_def
    by (simp only: Result.distinct prod.case split: if_split_asm option.split_asm prod.split_asm) (simp only: option.inject prod.inject; blast)
  then obtain records rest chain_suffix ix ix' where r: "read_many ?n ReadDisk (drop DELTA_HEADER_SIZE bytes) = Some (records, rest)"
      "InitializeLookupIndex ?n = Ok ix" "index_records (ds_next s) 0 NO_NODE records ix = Ok ix'" "checked_run s records chain_suffix ix' = Ok run"
    unfolding and_then_Ok_iff by (elim exE conjE)
  obtain bloom fences where ix': "ix' = (bloom, fences)" by (cases ix')
  have run: "run = \<lparr>run_state = s, run_records = records, run_chain_suffix = chain_suffix, run_filter = bloom, run_fences = fences\<rparr>"
    using r(4) by (simp add: checked_run_def ix' split: if_split_asm)
  obtain b0 where ix: "ix = (b0, [])" "0 < ?n \<longrightarrow> b0 \<noteq> []" using InitializeLookupIndex_Ok [OF r(2)] by (elim exE conjE)
  have len: "length records = ?n" by (rule read_many_length [OF r(1)])
  have ok: "(\<forall>d \<in> set records. disk_ok (ds_next s) d) \<and> sorted_wrt (<) (map d_id records)"
    using index_records_Ok_iff [OF assms(2), of 0 NO_NODE records b0 "[]"] r(3) ix(1) by auto
  have "fences = fence_ids 0 records \<and> (\<forall>d \<in> set records. MayContain bloom (d_id d))"
  proof (cases "records = []")
    case True
    then show ?thesis using r(3) ix(1) ix' by (simp add: fence_ids_def)
  next
    case False
    then have "0 < ?n" using len by (metis length_greater_0_conv)
    then show ?thesis using index_records_index [OF r(3) [unfolded ix(1) ix']] ix(2) by simp
  qed
  then show ?thesis using ok run by (simp add: run_wf_def)
qed

lemma Open_delta_wf:
  assumes "Open_delta path bytes = Ok run"
  shows "run_wf run \<and> fields_consistent (run_state run)"
proof -
  have "Parse_delta bytes = Ok run"
    using assms by (auto simp: Open_delta_def in_file_def split: if_splits Result.splits)
  then obtain s where "fields_consistent s" "parse_body s bytes = Ok run"
    by (auto simp: Parse_delta_def Let_def split: if_splits option.splits)
  then show ?thesis using parse_body_wf [of s bytes run] unfolding fields_consistent_def by metis
qed

section \<open>What is written is opened\<close>

lemma ReadDisk_bytes: "length (d_reserved d) = 3 \<Longrightarrow> ReadDisk (disk_bytes d @ rest) = Some (d, rest)"
proof -
  assume "length (d_reserved d) = 3"
  then obtain b0 b1 b2 where b: "d_reserved d = [b0, b1, b2]" by (auto simp: length_Suc_conv eval_nat_numeral)
  show ?thesis
    by (simp only: disk_bytes_def ReadDisk_def read_then_simp read_value_simp field_reads append_assoc append_Cons append_Nil u8_read
        option.case prod.case b) (cases d, use b in simp)
qed

lemma read_many_disk: "\<forall>d \<in> set ds. length (d_reserved d) = 3 \<Longrightarrow> read_many (length ds) ReadDisk (concat (map disk_bytes ds) @ rest) = Some (ds, rest)"
  by (induction ds) (simp_all add: ReadDisk_bytes)

interpretation chain_hash: decoder Bytes ReadHash
  by unfold_locales (simp add: field_reads)

lemma ReadDeltaHeader_bytes:
  "\<exists>bs. SerializeDeltaHeader s = DELTA_MAGIC @ bs \<and> ReadDeltaHeader bs = Some (s\<lparr>ds_roots := []\<rparr>, concat (map (write_le 4) (ds_roots s)))"
proof -
  have f: "(if ds_snapshot s then DELTA_FLAG_SNAPSHOT else 0) AND NOT DELTA_FLAG_SNAPSHOT = 0"
    "((if ds_snapshot s then DELTA_FLAG_SNAPSHOT else 0) AND DELTA_FLAG_SNAPSHOT \<noteq> 0) = ds_snapshot s"
    by (simp_all add: DELTA_FLAG_SNAPSHOT_def)
  show ?thesis
    unfolding SerializeDeltaHeader_def
    by (intro exI conjI, rule refl)
      (simp only: ReadDeltaHeader_def read_then_simp read_value_simp field_reads wal_point.dec_enc append_assoc option.case prod.case f simp_thms if_True,
        cases s, simp)
qed

lemma length_SerializeDeltaHeader: "length (ds_roots s) = 64 \<Longrightarrow> length (SerializeDeltaHeader s) = 432"
  by (simp add: SerializeDeltaHeader_def DELTA_MAGIC_def AppendPoint_def length_concat_fixed [of _ 4])

lemma length_disk_bytes: "length (d_reserved d) = 3 \<Longrightarrow> length (disk_bytes d) = 52"
  by (simp add: disk_bytes_def)

lemma length_disk_records: "\<forall>d \<in> set ds. length (d_reserved d) = 3 \<Longrightarrow> length (concat (map disk_bytes ds)) = 52 * length ds"
  by (induction ds) (simp_all add: length_disk_bytes)

lemma FromDisk_to_disk [simp]: "FromDisk (to_disk nid r) = r" "d_id (to_disk nid r) = nid"
  by (cases r; cases "rec_type r"; simp add: FromDisk_def to_disk_def)+

lemma emit_records_Ok:
  assumes "next < NO_NODE" "\<forall>(i, r) \<in> set visit. i < next" "sorted_wrt (<) (map fst visit)" "previous \<noteq> NO_NODE \<longrightarrow> (\<forall>i \<in> fst ` set visit. previous < i)"
  shows "emit_records next previous visit = Ok (map (\<lambda>(i, r). to_disk i r) visit)"
  using assms
proof (induction visit arbitrary: previous)
  case (Cons x visit)
  obtain i r where x: "x = (i, r)" by (cases x)
  have "emit_records next i visit = Ok (map (\<lambda>(i, r). to_disk i r) visit)" using Cons x by (intro Cons.IH) auto
  then show ?case using Cons.prems x by (auto simp: not_le)
qed simp

text \<open>What the caller of \<open>WriteDeltaRun\<close> has to provide.\<close>

definition delta_input_ok :: "DeltaState \<Rightarrow> hash256 list \<Rightarrow> (NodeId \<times> NodeRecord) list \<Rightarrow> bool" where
  "delta_input_ok s chain_hashes visit \<longleftrightarrow> publication_valid s chain_hashes \<and> fields_consistent s \<and> length (ds_roots s) = 64 \<and>
     list_all (valid_link (ds_next s)) (ds_roots s) \<and> unat (ds_record_count s) = length visit \<and> length chain_hashes < 2 ^ 64 \<and>
     sorted_wrt (<) (map fst visit) \<and>
     (\<forall>(i, r) \<in> set visit. i < ds_next s \<and> valid_link (ds_next s) (rec_parent r) \<and> valid_link (ds_next s) (rec_left r) \<and> valid_link (ds_next s) (rec_right r))"

lemma index_records_disk:
  assumes "ds_next s < NO_NODE" "sorted_wrt (<) (map fst visit)"
    "\<forall>(i, r) \<in> set visit. i < ds_next s \<and> valid_link (ds_next s) (rec_parent r) \<and> valid_link (ds_next s) (rec_left r) \<and> valid_link (ds_next s) (rec_right r)"
  shows "\<exists>ix'. index_records (ds_next s) 0 NO_NODE (map (\<lambda>(i, r). to_disk i r) visit) ix = Ok ix'"
proof -
  have t: "type_byte t \<le> 2" for t by (cases t) simp_all
  let ?ds = "map (\<lambda>(i, r). to_disk i r) visit"
  have m: "map d_id ?ds = map fst visit" by (simp add: case_prod_beta)
  have "\<forall>d \<in> set ?ds. disk_ok (ds_next s) d" using assms(3) t by (auto simp: disk_ok_def to_disk_def)
  then show ?thesis using index_records_Ok_iff [OF assms(1), of 0 NO_NODE ?ds "fst ix" "snd ix", unfolded m prod.collapse] assms(2) by blast
qed

text \<open>The sizes never come near the limits of the platform: both counts are below \<open>2 ^ 32 + 1\<close>.\<close>

lemma sizes_fit:
  assumes "n < 2 ^ 32" "m \<le> 2 ^ 32"
  shows "run_fits n m" "InitializeLookupIndex n = Ok (replicate ((n + 7) div 8) 0, [])"
proof -
  have "n \<le> (size_max - DELTA_HEADER_SIZE - DELTA_TRAILER_SIZE) div 52"
    using assms(1) by (simp add: size_max_def DELTA_HEADER_SIZE_def DELTA_TRAILER_SIZE_def)
  moreover have "m \<le> (size_max - DELTA_HEADER_SIZE - DELTA_TRAILER_SIZE - n * 52) div 32"
  proof -
    have "(2 ^ 32 :: nat) \<le> (2 ^ 63) div 32" by simp
    also have "\<dots> \<le> (size_max - DELTA_HEADER_SIZE - DELTA_TRAILER_SIZE - n * 52) div 32"
      using assms(1) by (intro div_le_mono) (simp add: size_max_def DELTA_HEADER_SIZE_def DELTA_TRAILER_SIZE_def)
    finally show ?thesis using assms(2) by simp
  qed
  ultimately show "run_fits n m" by (simp add: run_fits_def)
  have "filter_fits n" "fences_fit n"
  proof -
    have "(n + 7) div 8 \<le> (2 ^ 33) div 8" using assms(1) by (intro div_le_mono) simp
    then show "filter_fits n" by (simp add: filter_fits_def size_max_def)
    have "(n + DELTA_FENCE_RECORDS - 1) div DELTA_FENCE_RECORDS \<le> (2 ^ 33) div DELTA_FENCE_RECORDS"
      using assms(1) by (intro div_le_mono) (simp add: DELTA_FENCE_RECORDS_def)
    then show "fences_fit n" by (simp add: fences_fit_def size_max_def DELTA_FENCE_RECORDS_def)
  qed
  then show "InitializeLookupIndex n = Ok (replicate ((n + 7) div 8) 0, [])" by (simp add: InitializeLookupIndex_def)
qed

lemma parse_body_file:
  assumes ok: "delta_input_ok s chain_hashes visit"
    and b: "bytes = SerializeDeltaHeader s @ concat (map disk_bytes (map (\<lambda>(i, r). to_disk i r) visit)) @
      concat (map Bytes (drop (unat (ds_base_chain_count s)) chain_hashes)) @ trailer" "length trailer = 16"
  shows "\<exists>run. parse_body s bytes = Ok run \<and> run_records run = map (\<lambda>(i, r). to_disk i r) visit \<and>
     run_chain_suffix run = drop (unat (ds_base_chain_count s)) chain_hashes"
proof -
  let ?ds = "map (\<lambda>(i, r). to_disk i r) visit" and ?hs = "drop (unat (ds_base_chain_count s)) chain_hashes"
  let ?n = "unat (ds_record_count s)" and ?m = "unat (ds_chain_hash_count s - ds_base_chain_count s)"
  note i = ok [unfolded delta_input_ok_def publication_valid_def fields_consistent_def]
  have n: "?n = length ?ds" "?n < 2 ^ 32" using i unat_NO_NODE by (auto simp: word_le_nat_alt)
  have c: "unat (ds_chain_hash_count s) = length chain_hashes" using i by (metis unat_of_nat_u64)
  have "ds_base_chain_count s \<le> ds_chain_hash_count s" using i by blast
  then have m: "?m = length ?hs" using c by (metis unat_sub length_drop)
  have h: "unat (ds_chain_hash_count s) \<le> 2 ^ 32"
  proof -
    have u: "unat (ucast (height (ds_point s)) :: u64) = unat (height (ds_point s))" by (rule unat_ucast_u32_u64)
    then have "unat (ucast (height (ds_point s)) + 1 :: u64) = unat (height (ds_point s)) + 1"
      using unat_u32_less [of "height (ds_point s)"] by (subst unat_Suc_word) simp_all
    moreover have "ds_chain_hash_count s = ucast (height (ds_point s)) + 1" using i by blast
    ultimately show ?thesis using unat_u32_less [of "height (ds_point s)"] by simp
  qed
  have m2: "?m \<le> 2 ^ 32" using m h c by simp
  have res: "\<forall>d \<in> set ?ds. length (d_reserved d) = 3" by (auto simp: to_disk_def)
  have H: "length (SerializeDeltaHeader s) = DELTA_HEADER_SIZE" using length_SerializeDeltaHeader i by (simp add: DELTA_HEADER_SIZE_def)
  have len: "DELTA_HEADER_SIZE + ?n * 52 + ?m * 32 + DELTA_TRAILER_SIZE = length bytes"
    using H b(2) n(1) m length_disk_records [OF res] by (simp add: b(1) DELTA_TRAILER_SIZE_def length_concat_fixed [of Bytes 32])
  have rd: "read_many ?n ReadDisk (drop DELTA_HEADER_SIZE bytes) = Some (?ds, concat (map Bytes ?hs) @ trailer)"
    using read_many_disk [OF res] H n(1) by (simp add: b(1))
  have rh: "read_many ?m ReadHash (concat (map Bytes ?hs) @ trailer) = Some (?hs, trailer)"
    using chain_hash.read_many_enc [of ?hs] m by simp
  obtain ix' where ix': "index_records (ds_next s) 0 NO_NODE ?ds (replicate ((?n + 7) div 8) 0, []) = Ok ix'"
    using index_records_disk [of s visit] i by blast
  have roots: "list_all (valid_link (ds_next s)) (ds_roots s)" using i by blast
  have tip: "\<not> (?hs \<noteq> [] \<and> last ?hs \<noteq> point_hash (ds_point s))"
    using i last_drop [of "unat (ds_base_chain_count s)" chain_hashes] by (metis drop_all not_le)
  show ?thesis
    unfolding parse_body_def Let_def len rd rh option.case prod.case sizes_fit(2) [OF n(2) m2] and_then.simps ix' checked_run_def if_not_P [OF tip]
    using sizes_fit(1) [OF n(2) m2] roots by simp
qed

lemma Open_delta_file:
  assumes ok: "delta_input_ok s chain_hashes visit"
  defines "ds \<equiv> map (\<lambda>(i, r). to_disk i r) visit" and "hs \<equiv> drop (unat (ds_base_chain_count s)) chain_hashes"
  shows "\<exists>run. Open_delta path (delta_file s ds hs) = Ok run \<and> run_state run = s \<and> run_records run = ds \<and> run_chain_suffix run = hs"
proof -
  let ?H = "SerializeDeltaHeader s"
  let ?body = "?H @ concat (map disk_bytes ds) @ concat (map Bytes hs)"
  let ?t = "write_le 8 (Checksum ?body) @ DELTA_COMMIT"
  let ?f = "delta_file s ds hs"
  note i = ok [unfolded delta_input_ok_def]
  have f: "?f = ?body @ ?t" by (simp add: delta_file_def Let_def)
  have t: "length ?t = 16" by (simp add: DELTA_COMMIT_def)
  have H: "length ?H = 432" using length_SerializeDeltaHeader i by blast
  have len: "length ?f = length ?body + 16" unfolding f using t by simp
  have 1: "drop (length ?f - 8) ?f = DELTA_COMMIT" unfolding len by (simp add: f DELTA_COMMIT_def)
  have 2: "take (length ?f - DELTA_TRAILER_SIZE) ?f = ?body" "take 8 (drop (length ?f - DELTA_TRAILER_SIZE) ?f) = write_le 8 (Checksum ?body)"
    unfolding len DELTA_TRAILER_SIZE_def by (simp_all add: f)
  obtain bs where bs: "?H = DELTA_MAGIC @ bs" "ReadDeltaHeader bs = Some (s\<lparr>ds_roots := []\<rparr>, concat (map (write_le 4) (ds_roots s)))"
    using ReadDeltaHeader_bytes by blast
  have m: "length DELTA_MAGIC = 8" by (simp add: DELTA_MAGIC_def)
  have 3: "take 8 ?f = DELTA_MAGIC" "drop 8 (take DELTA_HEADER_SIZE ?f) = bs" using H m by (simp_all add: f bs(1) DELTA_HEADER_SIZE_def)
  have 4: "read_many 64 (LE 4) (concat (map (write_le 4) (ds_roots s))) = Some (ds_roots s, [])"
    using wal_root.read_many_enc [of "ds_roots s" "[]"] i by simp
  obtain run where run: "parse_body s ?f = Ok run" "run_records run = ds" "run_chain_suffix run = hs"
    using parse_body_file [OF ok _ t, folded ds_def hs_def, of ?f] by (auto simp: f)
  have "Parse_delta ?f = Ok run"
    unfolding Parse_delta_def Let_def 1 2 3 bs(2) option.case prod.case 4 using i run(1) by simp
  moreover have "run_state run = s" using parse_body_wf [OF run(1)] i by (simp add: fields_consistent_def)
  moreover have "\<not> length ?f < DELTA_HEADER_SIZE + DELTA_TRAILER_SIZE" using len H by (simp add: DELTA_HEADER_SIZE_def DELTA_TRAILER_SIZE_def)
  ultimately show ?thesis using run by (simp add: Open_delta_def in_file_def)
qed

lemma map_of_records:
  "map_option FromDisk (map_of (map (\<lambda>d. (d_id d, d)) (map (\<lambda>(i, r). to_disk i r) visit)) nid) = map_of visit nid"
  by (induction visit) auto

lemma WriteDeltaRun_Ok:
  assumes "delta_input_ok s chain_hashes visit"
  shows "\<exists>bytes run. WriteDeltaRun path False s chain_hashes visit = Ok (bytes, run) \<and> Open_delta path bytes = Ok run \<and> run_wf run \<and>
    run_state run = s \<and> run_chain_suffix run = drop (unat (ds_base_chain_count s)) chain_hashes \<and>
    (\<forall>nid. map_option FromDisk (Find_delta run nid) = map_of visit nid)"
proof -
  let ?ds = "map (\<lambda>(i, r). to_disk i r) visit"
  let ?f = "delta_file s ?ds (drop (unat (ds_base_chain_count s)) chain_hashes)"
  obtain run where run: "Open_delta path ?f = Ok run" "run_state run = s" "run_records run = ?ds"
      "run_chain_suffix run = drop (unat (ds_base_chain_count s)) chain_hashes"
    using Open_delta_file [OF assms] by blast
  note i = assms [unfolded delta_input_ok_def]
  have H: "length (SerializeDeltaHeader s) = DELTA_HEADER_SIZE" using length_SerializeDeltaHeader i by (simp add: DELTA_HEADER_SIZE_def)
  have "ds_next s < NO_NODE" using i by (simp add: fields_consistent_def)
  then have e: "emit_records (ds_next s) NO_NODE visit = Ok ?ds" using i by (intro emit_records_Ok) auto
  have n: "of_nat (length ?ds) = ds_record_count s" using i by (metis length_map of_nat_unat ucast_id)
  have "WriteDeltaRun path False s chain_hashes visit = Ok (?f, run)"
    unfolding WriteDeltaRun_def e and_then.simps n Let_def run(1) using i H by simp
  moreover have "map_option FromDisk (Find_delta run nid) = map_of visit nid" for nid
    using Find_delta_map_of [of run nid] Open_delta_wf [OF run(1)] map_of_records [of visit nid] run(3) by simp
  ultimately show ?thesis using run Open_delta_wf [OF run(1)] by blast
qed

section \<open>Properties\<close>

text \<open>C38: A delta run is written, opened and searched right. Whenever the state is consistent and the records are sorted, inside the
  arena and linked inside it, writing succeeds, the file it writes opens as a run with the same state, records and chain suffix, and
  looking any node up in it, through the Bloom filter, the fences and the binary search, gives the record that was
  written for that node, and nothing for a node that was not written.\<close>

theorem WriteDeltaRun_correct:
  assumes "delta_input_ok s chain_hashes visit"
  shows "\<exists>bytes run. WriteDeltaRun path False s chain_hashes visit = Ok (bytes, run) \<and> Open_delta path bytes = Ok run \<and>
    run_state run = s \<and> run_chain_suffix run = drop (unat (ds_base_chain_count s)) chain_hashes \<and>
    (\<forall>nid. map_option FromDisk (Find_delta run nid) = map_of visit nid)"
  using WriteDeltaRun_Ok [OF assms, of path] by blast

theorem WriteDeltaRun_correct_witness:
  "\<exists>s bytes run. WriteDeltaRun ''d'' False s [null_hash, null_hash] [(1, empty_record\<lparr>rec_type := LEAF\<rparr>)] = Ok (bytes, run) \<and>
     map_option FromDisk (Find_delta run 1) = Some (empty_record\<lparr>rec_type := LEAF\<rparr>) \<and> Find_delta run 0 = None"
proof -
  define s where "s = \<lparr>ds_snapshot = False, ds_generation = 1, ds_previous_generation = 0, ds_base_generation = 1, ds_physical_base_lsn = 0,
    ds_base_fingerprint = null_hash, ds_previous_lsn = 0, ds_end_lsn = 1, ds_base_chain_count = 1, ds_point = \<lparr>height = 1, point_hash = null_hash\<rparr>,
    ds_num_leaves = 1, ds_next = 2, ds_live_nodes = 1, ds_chain_hash_count = 2, ds_record_count = 1, ds_roots = replicate 64 NO_NODE\<rparr>"
  have "delta_input_ok s [null_hash, null_hash] [(1, empty_record\<lparr>rec_type := LEAF\<rparr>)]"
    by (simp add: delta_input_ok_def publication_valid_def fields_consistent_def s_def valid_link_def empty_record_def list_all_iff
        word_le_nat_alt word_less_nat_alt unat_NO_NODE)
  from WriteDeltaRun_correct [OF this, of "''d''"] obtain bytes run where
    r: "WriteDeltaRun ''d'' False s [null_hash, null_hash] [(1, empty_record\<lparr>rec_type := LEAF\<rparr>)] = Ok (bytes, run)"
      "\<And>nid. map_option FromDisk (Find_delta run nid) = map_of [(1, empty_record\<lparr>rec_type := LEAF\<rparr>)] nid" by blast
  have "Find_delta run 0 = None" using r(2) [of 0] by simp
  then show ?thesis using r by (intro exI [of _ s] exI [of _ bytes] exI [of _ run]) simp
qed

end
