(* ===== verification/DeltaMerge.thy ===== *)
theory DeltaMerge
  imports DeltaRun
begin

text \<open>
  The merge of the delta runs (\<open>NodeArena::ForEachLatestDeltaRecordFrom\<close> of \<^verbatim>\<open>src/src/forest.cpp\<close>). Every run has a cursor
  in a priority queue ordered by the node id under it and then by the age of the run; the loop takes all occurrences of the
  smallest id and keeps the one of the newest run. A cursor is the index of its run with the records from
  it to the end of the run. The queue is the list of its cursors in their order, so that \<open>top\<close> is the head. The callback is
  given as the list of what it is called with.
\<close>

section \<open>The queue\<close>

type_synonym cursor = "nat \<times> DeltaDiskRecord list"

definition cursor_id :: "cursor \<Rightarrow> NodeId" where
  "cursor_id c = d_id (hd (snd c))"

definition sooner :: "cursor \<Rightarrow> cursor \<Rightarrow> bool" where
  "sooner c d \<longleftrightarrow> (if cursor_id c \<noteq> cursor_id d then cursor_id c < cursor_id d else fst c < fst d)"

fun push :: "cursor \<Rightarrow> cursor list \<Rightarrow> cursor list" where
  "push c [] = [c]"
| "push c (d # q) = (if sooner c d then c # d # q else d # push c q)"

definition queue_size :: "cursor list \<Rightarrow> nat" where
  "queue_size q = sum_list (map (\<lambda>c. Suc (length (snd c))) q)"

lemma queue_size_simps [simp]:
  "queue_size [] = 0" "queue_size (c # q) = Suc (length (snd c)) + queue_size q" "queue_size (push c q) = Suc (length (snd c)) + queue_size q"
proof -
  show "queue_size [] = 0" "queue_size (c # q) = Suc (length (snd c)) + queue_size q" by (simp_all add: queue_size_def)
  show "queue_size (push c q) = Suc (length (snd c)) + queue_size q" by (induction q) (simp_all add: queue_size_def)
qed

section \<open>The merge\<close>

text \<open>Taking the cursor at the top: the newest record so far, and the queue without the record under the cursor.\<close>

definition newer :: "(nat \<times> DeltaDiskRecord) option \<Rightarrow> cursor \<Rightarrow> (nat \<times> DeltaDiskRecord) option" where
  "newer newest c =
     (case newest of
        None \<Rightarrow> Some (fst c, hd (snd c))
      | Some (run, d) \<Rightarrow> if fst c > run then Some (fst c, hd (snd c)) else newest)"

definition advance :: "cursor \<Rightarrow> cursor list \<Rightarrow> cursor list" where
  "advance c q = (if tl (snd c) \<noteq> [] then push (fst c, tl (snd c)) q else q)"

lemma queue_size_advance: "queue_size (advance c q) < queue_size (c # q)"
  by (cases "snd c") (auto simp: advance_def)

function take_id :: "NodeId \<Rightarrow> (nat \<times> DeltaDiskRecord) option \<Rightarrow> cursor list \<Rightarrow> (nat \<times> DeltaDiskRecord) option \<times> cursor list" where
  "take_id nid newest [] = (newest, [])"
| "take_id nid newest (c # q) =
     (if advance c q \<noteq> [] \<and> cursor_id (hd (advance c q)) = nid
      then take_id nid (newer newest c) (advance c q)
      else (newer newest c, advance c q))"
  by pat_completeness auto

termination
  by (relation "measure (\<lambda>(nid, newest, q). queue_size q)") (simp_all only: in_measure wf_measure prod.case queue_size_advance)

lemma take_id_smaller: "queue_size (snd (take_id nid newest (c # q))) < queue_size (c # q)"
proof -
  have le: "queue_size (snd (take_id nid newest q)) \<le> queue_size q" for newest q
  proof (induction nid newest q rule: take_id.induct)
    case (2 nid newest c q)
    show ?case
    proof (cases "advance c q \<noteq> [] \<and> cursor_id (hd (advance c q)) = nid")
      case True
      then have "take_id nid newest (c # q) = take_id nid (newer newest c) (advance c q)" by simp
      then show ?thesis using 2 [OF True] queue_size_advance [of c q] by (simp only:)
    next
      case False
      then have "take_id nid newest (c # q) = (newer newest c, advance c q)" by auto
      then show ?thesis using queue_size_advance [of c q] by (simp only: snd_conv)
    qed
  qed simp
  show ?thesis
  proof (cases "advance c q \<noteq> [] \<and> cursor_id (hd (advance c q)) = nid")
    case True
    then have "take_id nid newest (c # q) = take_id nid (newer newest c) (advance c q)" by simp
    then show ?thesis using le [of "newer newest c" "advance c q"] queue_size_advance [of c q] by (simp only:)
  next
    case False
    then have "take_id nid newest (c # q) = (newer newest c, advance c q)" by auto
    then show ?thesis using queue_size_advance [of c q] by (simp only: snd_conv)
  qed
qed

function merge_runs :: "cursor list \<Rightarrow> (NodeId \<times> DeltaDiskRecord) list" where
  "merge_runs [] = []"
| "merge_runs (c # q) =
     (let r = take_id (cursor_id c) None (c # q)
      in (cursor_id c, snd (the (fst r))) # merge_runs (snd r))"
  by pat_completeness auto

termination
  by (relation "measure queue_size") (simp_all only: in_measure wf_measure take_id_smaller)

definition initial_queue :: "MappedDeltaRun list \<Rightarrow> cursor list" where
  "initial_queue runs = fold (\<lambda>(i, run) q. if run_records run \<noteq> [] then push (i, run_records run) q else q) (enumerate 0 runs) []"

definition LatestDeltaRecords :: "NodeId \<Rightarrow> MappedDeltaRun list \<Rightarrow> (NodeId \<times> NodeRecord) list" where
  "LatestDeltaRecords next runs = map (\<lambda>(nid, d). (nid, FromDisk d)) (filter (\<lambda>(nid, d). nid < next) (merge_runs (initial_queue runs)))"

definition UniqueDeltaRecords :: "NodeId \<Rightarrow> MappedDeltaRun list \<Rightarrow> u64" where
  "UniqueDeltaRecords next runs = of_nat (length (LatestDeltaRecords next runs))"

section \<open>The order of the queue\<close>

definition content :: "cursor list \<Rightarrow> (nat \<times> DeltaDiskRecord) set" where
  "content q = {(r, d). \<exists>ds. (r, ds) \<in> set q \<and> d \<in> set ds}"

definition queue_ok :: "cursor list \<Rightarrow> bool" where
  "queue_ok q \<longleftrightarrow> sorted_wrt sooner q \<and> distinct (map fst q) \<and> (\<forall>(r, ds) \<in> set q. ds \<noteq> [] \<and> sorted_wrt (<) (map d_id ds))"

lemma set_push [simp]: "set (push c q) = insert c (set q)"
  by (induction q) auto

lemma content_simps [simp]:
  "content [] = {}" "content ((r, ds) # q) = {r} \<times> set ds \<union> content q" "content (push (r, ds) q) = {r} \<times> set ds \<union> content q"
  by (auto simp: content_def)

lemma sooner_trans: "sooner a b \<Longrightarrow> sooner b c \<Longrightarrow> sooner a c"
  by (auto simp: sooner_def split: if_splits)

lemma push_sorted:
  assumes "sorted_wrt sooner q" "\<forall>d \<in> set q. fst d \<noteq> fst c"
  shows "sorted_wrt sooner (push c q)"
  using assms
proof (induction q)
  case (Cons d q)
  have "sooner d c" if "\<not> sooner c d" using that Cons.prems(2) by (auto simp: sooner_def split: if_splits)
  then show ?case using Cons sooner_trans by auto
qed simp

lemma push_distinct: "distinct (map fst q) \<Longrightarrow> \<forall>d \<in> set q. fst d \<noteq> fst c \<Longrightarrow> distinct (map fst (push c q))"
  by (induction q) auto

lemma queue_ok_push:
  assumes "queue_ok q" "\<forall>d \<in> set q. fst d \<noteq> r" "ds \<noteq> []" "sorted_wrt (<) (map d_id ds)"
  shows "queue_ok (push (r, ds) q)"
  using assms push_sorted [of q "(r, ds)"] push_distinct [of q "(r, ds)"] by (auto simp: queue_ok_def)

lemma queue_ok_advance:
  assumes "queue_ok ((r, ds) # q)"
  shows "queue_ok (advance (r, ds) q)" "content (advance (r, ds) q) = content ((r, ds) # q) - {(r, hd ds)}"
    "\<forall>d \<in> set (tl ds). d_id (hd ds) < d_id d" "ds \<noteq> []"
proof -
  have ok: "queue_ok q" "\<forall>d \<in> set q. fst d \<noteq> r" "sorted_wrt (<) (map d_id ds)" and ne: "ds \<noteq> []"
    using assms by (auto simp: queue_ok_def)
  show "ds \<noteq> []" by (rule ne)
  obtain d ds' where ds: "ds = d # ds'" using ne by (cases ds) auto
  show lt: "\<forall>d \<in> set (tl ds). d_id (hd ds) < d_id d" using ok(3) by (simp add: ds)
  show "queue_ok (advance (r, ds) q)" using queue_ok_push [OF ok(1,2), of ds'] ok by (simp add: advance_def ds)
  have "(r, d) \<notin> content q" using ok(2) by (force simp: content_def)
  moreover have "d \<notin> set ds'" using lt ds by auto
  ultimately show "content (advance (r, ds) q) = content ((r, ds) # q) - {(r, hd ds)}" by (auto simp: advance_def ds)
qed

lemma queue_min:
  assumes "queue_ok (c # q)" "(r, d) \<in> content (c # q)"
  shows "cursor_id c \<le> d_id d"
proof -
  obtain ds where ds: "(r, ds) \<in> set (c # q)" "d \<in> set ds" using assms(2) by (auto simp: content_def)
  have "ds \<noteq> []" "sorted_wrt (<) (map d_id ds)" using assms(1) ds(1) by (auto simp: queue_ok_def)
  then have "cursor_id (r, ds) \<le> d_id d" using ds(2) by (cases ds) (auto simp: cursor_id_def)
  moreover have "cursor_id c \<le> cursor_id (r, ds)" using assms(1) ds(1) by (auto simp: queue_ok_def sooner_def split: if_splits)
  ultimately show ?thesis by simp
qed

section \<open>The merge is right\<close>

definition newest_in :: "(nat \<times> DeltaDiskRecord) set \<Rightarrow> NodeId \<Rightarrow> nat \<Rightarrow> DeltaDiskRecord \<Rightarrow> bool" where
  "newest_in C nid r d \<longleftrightarrow> (r, d) \<in> C \<and> d_id d = nid \<and> (\<forall>(r', d') \<in> C. d_id d' = nid \<longrightarrow> r' \<le> r)"

lemma newer_Some:
  "\<exists>r d. newer newest c = Some (r, d) \<and> ((r, d) = (fst c, hd (snd c)) \<or> newest = Some (r, d)) \<and> fst c \<le> r \<and> (\<forall>r' d'. newest = Some (r', d') \<longrightarrow> r' \<le> r)"
  by (cases newest) (auto simp: newer_def)

lemma take_id_correct:
  assumes "queue_ok (c # q)" "cursor_id c = nid"
  shows "queue_ok (snd (take_id nid newest (c # q)))"
    "content (snd (take_id nid newest (c # q))) = {x \<in> content (c # q). d_id (snd x) \<noteq> nid}"
    "\<exists>r d. fst (take_id nid newest (c # q)) = Some (r, d) \<and>
       ((r, d) \<in> content (c # q) \<and> d_id d = nid \<or> newest = Some (r, d)) \<and>
       (\<forall>(r', d') \<in> content (c # q). d_id d' = nid \<longrightarrow> r' \<le> r) \<and> (\<forall>r' d'. newest = Some (r', d') \<longrightarrow> r' \<le> r)"
proof -
  have "queue_ok (snd (take_id nid newest (c # q))) \<and>
    content (snd (take_id nid newest (c # q))) = {x \<in> content (c # q). d_id (snd x) \<noteq> nid} \<and>
    (\<exists>r d. fst (take_id nid newest (c # q)) = Some (r, d) \<and>
       ((r, d) \<in> content (c # q) \<and> d_id d = nid \<or> newest = Some (r, d)) \<and>
       (\<forall>(r', d') \<in> content (c # q). d_id d' = nid \<longrightarrow> r' \<le> r) \<and> (\<forall>r' d'. newest = Some (r', d') \<longrightarrow> r' \<le> r))"
    using assms
  proof (induction "queue_size (c # q)" arbitrary: c q newest rule: less_induct)
    case less
    obtain r ds where c: "c = (r, ds)" by (cases c)
    note adv = queue_ok_advance [OF less.prems(1) [unfolded c], folded c]
    let ?q = "advance c q"
    have hd: "(r, hd ds) \<in> content (c # q)" "d_id (hd ds) = nid" using adv(4) less.prems(2) by (auto simp: c cursor_id_def)
    have C: "content (c # q) = insert (r, hd ds) (content ?q)" using adv(2) hd(1) by (auto simp: c)
    obtain r1 d1 where n: "newer newest c = Some (r1, d1)" "(r1, d1) = (r, hd ds) \<or> newest = Some (r1, d1)" "r \<le> r1"
        "\<forall>r' d'. newest = Some (r', d') \<longrightarrow> r' \<le> r1"
      using newer_Some [of newest c] by (auto simp: c)
    show ?case
    proof (cases "?q \<noteq> [] \<and> cursor_id (hd ?q) = nid")
      case True
      then obtain c1 q1 where q1: "?q = c1 # q1" "cursor_id c1 = nid" by (cases ?q) auto
      have t: "take_id nid newest (c # q) = take_id nid (Some (r1, d1)) (c1 # q1)" using True n(1) q1 by simp
      have "queue_size (c1 # q1) < queue_size (c # q)" using queue_size_advance [of c q] q1(1) by simp
      from less.hyps [OF this _ q1(2), of "Some (r1, d1)"] adv(1) q1(1)
      obtain r2 d2 where IH: "queue_ok (snd (take_id nid (Some (r1, d1)) (c1 # q1)))"
          "content (snd (take_id nid (Some (r1, d1)) (c1 # q1))) = {x \<in> content ?q. d_id (snd x) \<noteq> nid}"
          "fst (take_id nid (Some (r1, d1)) (c1 # q1)) = Some (r2, d2)" "(r2, d2) \<in> content ?q \<and> d_id d2 = nid \<or> (r1, d1) = (r2, d2)"
          "\<forall>(r', d') \<in> content ?q. d_id d' = nid \<longrightarrow> r' \<le> r2" "r1 \<le> r2"
        by auto
      have "(\<forall>(r', d') \<in> content (c # q). d_id d' = nid \<longrightarrow> r' \<le> r2) \<and> (\<forall>r' d'. newest = Some (r', d') \<longrightarrow> r' \<le> r2)"
        using IH(5,6) n(3,4) unfolding C by fastforce
      moreover have "(r2, d2) \<in> content (c # q) \<and> d_id d2 = nid \<or> newest = Some (r2, d2)" using IH(4) n(2) hd(2) unfolding C by auto
      moreover have "{x \<in> content ?q. d_id (snd x) \<noteq> nid} = {x \<in> content (c # q). d_id (snd x) \<noteq> nid}" using hd(2) unfolding C by auto
      ultimately show ?thesis unfolding t using IH(1-3) by blast
    next
      case False
      have t: "take_id nid newest (c # q) = (Some (r1, d1), ?q)" using False n(1) by auto
      have above: "d_id d \<noteq> nid" if m: "(r', d) \<in> content ?q" for r' d
      proof -
        obtain c1 q1 where q1: "?q = c1 # q1" using m by (cases ?q) auto
        have "cursor_id c1 \<le> d_id d" using queue_min [of c1 q1 r' d] adv(1) m q1 by simp
        moreover have "nid \<le> cursor_id c1" "cursor_id c1 \<noteq> nid"
        proof -
          have "queue_ok (c1 # q1)" using adv(1) q1 by simp
          then obtain r2 d2 where "(r2, d2) \<in> content ?q" "d_id d2 = cursor_id c1"
            unfolding q1 by (cases c1) (auto simp: queue_ok_def cursor_id_def intro!: hd_in_set)
          then show "nid \<le> cursor_id c1" using queue_min [OF less.prems(1), of r2 d2] less.prems(2) unfolding C by auto
          show "cursor_id c1 \<noteq> nid" using False q1 by simp
        qed
        ultimately show ?thesis by auto
      qed
      then have "content ?q = {x \<in> content (c # q). d_id (snd x) \<noteq> nid}" using hd(2) unfolding C by auto
      moreover have "(r1, d1) \<in> content (c # q) \<and> d_id d1 = nid \<or> newest = Some (r1, d1)" using n(2) hd by auto
      moreover have "\<forall>(r', d') \<in> content (c # q). d_id d' = nid \<longrightarrow> r' \<le> r1" using above n(3) unfolding C by auto
      ultimately show ?thesis unfolding t using adv(1) n(4) by simp
    qed
  qed
  then show "queue_ok (snd (take_id nid newest (c # q)))"
    "content (snd (take_id nid newest (c # q))) = {x \<in> content (c # q). d_id (snd x) \<noteq> nid}"
    "\<exists>r d. fst (take_id nid newest (c # q)) = Some (r, d) \<and>
       ((r, d) \<in> content (c # q) \<and> d_id d = nid \<or> newest = Some (r, d)) \<and>
       (\<forall>(r', d') \<in> content (c # q). d_id d' = nid \<longrightarrow> r' \<le> r) \<and> (\<forall>r' d'. newest = Some (r', d') \<longrightarrow> r' \<le> r)" by blast+
qed

lemma content_unique:
  assumes "(r, d) \<in> content q" "d_id d = nid" "(r, e) \<in> content q" "d_id e = nid" "queue_ok q"
  shows "d = e"
proof -
  obtain ds es where m: "(r, ds) \<in> set q" "d \<in> set ds" "(r, es) \<in> set q" "e \<in> set es" using assms(1,3) by (auto simp: content_def)
  then have "ds = es" using assms(5) by (auto simp: queue_ok_def dest: eq_key_imp_eq_value)
  moreover have "distinct (map d_id ds)" using assms(5) m(1) strict_sorted_iff by (auto simp: queue_ok_def)
  ultimately show ?thesis using m assms(2,4) by (metis distinct_map inj_onD)
qed

lemma merge_runs_correct:
  assumes "queue_ok q"
  shows "sorted_wrt (<) (map fst (merge_runs q))" "(nid, d) \<in> set (merge_runs q) \<longleftrightarrow> (\<exists>r. newest_in (content q) nid r d)"
proof -
  have "sorted_wrt (<) (map fst (merge_runs q)) \<and> (\<forall>nid d. (nid, d) \<in> set (merge_runs q) \<longleftrightarrow> (\<exists>r. newest_in (content q) nid r d))"
    using assms
  proof (induction q rule: merge_runs.induct)
    case (2 c q)
    let ?i = "cursor_id c"
    let ?t = "take_id ?i None (c # q)"
    note t = take_id_correct [OF "2.prems" refl, of None]
    obtain r0 d0 where n: "fst ?t = Some (r0, d0)" "(r0, d0) \<in> content (c # q)" "d_id d0 = ?i"
        "\<forall>(r', d') \<in> content (c # q). d_id d' = ?i \<longrightarrow> r' \<le> r0"
      using t(3) by auto
    have m: "merge_runs (c # q) = (?i, d0) # merge_runs (snd ?t)" using n(1) by (simp add: Let_def del: take_id.simps)
    have IH: "sorted_wrt (<) (map fst (merge_runs (snd ?t)))" "\<And>nid d. (nid, d) \<in> set (merge_runs (snd ?t)) \<longleftrightarrow> (\<exists>r. newest_in (content (snd ?t)) nid r d)"
      using "2.IH" [OF refl t(1)] by blast+
    have rest: "newest_in (content (snd ?t)) nid r d \<longleftrightarrow> nid \<noteq> ?i \<and> newest_in (content (c # q)) nid r d" for nid r d
      unfolding newest_in_def t(2) by auto metis
    have first: "(\<exists>r. newest_in (content (c # q)) ?i r d) \<longleftrightarrow> d = d0" for d
    proof
      assume "\<exists>r. newest_in (content (c # q)) ?i r d"
      then obtain r where r: "newest_in (content (c # q)) ?i r d" by blast
      then have "r = r0" using n(2-4) by (force simp: newest_in_def intro: order.antisym)
      moreover have "d = d0" if "(r0, d) \<in> content (c # q)" "d_id d = ?i"
        using that n(2,3) "2.prems" by (rule content_unique)
      ultimately show "d = d0" using r by (auto simp: newest_in_def)
    next
      assume "d = d0"
      then show "\<exists>r. newest_in (content (c # q)) ?i r d" using n(2-4) by (auto simp: newest_in_def)
    qed
    have "?i < i" if "(i, d) \<in> set (merge_runs (snd ?t))" for i d
      using that queue_min [OF "2.prems"] unfolding IH(2) rest by (auto simp: newest_in_def order.strict_iff_order)
    moreover have "(nid, d) \<in> set (merge_runs (c # q)) \<longleftrightarrow> (\<exists>r. newest_in (content (c # q)) nid r d)" for nid d
      unfolding m using first [of d] IH(2) [of nid d] rest by (cases "nid = ?i") auto
    ultimately show ?case unfolding m using IH(1) by auto
  qed (simp add: newest_in_def)
  then show "sorted_wrt (<) (map fst (merge_runs q))" "(nid, d) \<in> set (merge_runs q) \<longleftrightarrow> (\<exists>r. newest_in (content q) nid r d)" by blast+
qed

section \<open>The newest records of the runs\<close>

definition lookup :: "MappedDeltaRun \<Rightarrow> NodeId \<rightharpoonup> NodeRecord" where
  "lookup run nid = map_option FromDisk (Find_delta run nid)"

lemma initial_queue_ok:
  assumes "\<forall>run \<in> set runs. run_wf run"
  shows "queue_ok (initial_queue runs)" "content (initial_queue runs) = {(r, d). r < length runs \<and> d \<in> set (run_records (runs ! r))}"
proof -
  have "queue_ok (initial_queue runs) \<and> content (initial_queue runs) = {(r, d). r < length runs \<and> d \<in> set (run_records (runs ! r))} \<and>
      (\<forall>c \<in> set (initial_queue runs). fst c < length runs)"
    using assms
  proof (induction runs rule: rev_induct)
    case Nil
    then show ?case by (simp add: initial_queue_def queue_ok_def)
  next
    case (snoc run runs)
    let ?q = "initial_queue runs"
    have IH: "queue_ok ?q" "content ?q = {(r, d). r < length runs \<and> d \<in> set (run_records (runs ! r))}" "\<forall>c \<in> set ?q. fst c < length runs"
      using snoc by auto
    have q: "initial_queue (runs @ [run]) = (if run_records run \<noteq> [] then push (length runs, run_records run) ?q else ?q)"
      by (simp add: initial_queue_def enumerate_append_eq)
    have wf: "sorted_wrt (<) (map d_id (run_records run))" using snoc.prems by (simp add: run_wf_def)
    have "\<forall>d \<in> set ?q. fst d \<noteq> length runs" using IH(3) by auto
    then have "queue_ok (initial_queue (runs @ [run]))" using queue_ok_push [OF IH(1) _ _ wf, of "length runs"] IH(1) q by simp
    moreover have "content (initial_queue (runs @ [run])) = {(r, d). r < length (runs @ [run]) \<and> d \<in> set (run_records ((runs @ [run]) ! r))}"
      unfolding q using IH(2) by (auto simp: nth_append less_Suc_eq)
    moreover have "\<forall>c \<in> set (initial_queue (runs @ [run])). fst c < length (runs @ [run])" unfolding q using IH(3) by auto
    ultimately show ?case by blast
  qed
  then show "queue_ok (initial_queue runs)" "content (initial_queue runs) = {(r, d). r < length runs \<and> d \<in> set (run_records (runs ! r))}" by blast+
qed

lemma lookup_Some: "run_wf run \<Longrightarrow> lookup run nid = Some x \<longleftrightarrow> (\<exists>d \<in> set (run_records run). d_id d = nid \<and> FromDisk d = x)"
proof -
  assume wf: "run_wf run"
  then have "distinct (map d_id (run_records run))" using strict_sorted_iff by (auto simp: run_wf_def)
  then have "map_of (map (\<lambda>d. (d_id d, d)) (run_records run)) nid = Some d \<longleftrightarrow> d \<in> set (run_records run) \<and> d_id d = nid" for d
    using map_of_eq_Some_iff [of "map (\<lambda>d. (d_id d, d)) (run_records run)" nid d] by (auto simp: comp_def)
  then show ?thesis using Find_delta_map_of [OF wf, of nid] by (auto simp: lookup_def)
qed

text \<open>Looking through the runs from the newest to the oldest finds the newest record.\<close>

lemma find_delta_newest:
  assumes "\<forall>run \<in> set runs. run_wf run"
  shows "find_delta (rev (map lookup runs)) nid = Some x \<longleftrightarrow>
     (\<exists>r d. newest_in {(r, d). r < length runs \<and> d \<in> set (run_records (runs ! r))} nid r d \<and> FromDisk d = x)"
  using assms
proof (induction runs rule: rev_induct)
  case (snoc run runs)
  let ?C = "{(r, d). r < length runs \<and> d \<in> set (run_records (runs ! r))}"
  let ?D = "{(r, d). r < length (runs @ [run]) \<and> d \<in> set (run_records ((runs @ [run]) ! r))}"
  have D: "?D = ?C \<union> {length runs} \<times> set (run_records run)" by (auto simp: nth_append less_Suc_eq)
  have wf: "run_wf run" using snoc.prems by simp
  have IH: "find_delta (rev (map lookup runs)) nid = Some x \<longleftrightarrow> (\<exists>r d. newest_in ?C nid r d \<and> FromDisk d = x)" using snoc by simp
  show ?case
  proof (cases "lookup run nid")
    case None
    then have no: "\<forall>d \<in> set (run_records run). d_id d \<noteq> nid" using lookup_Some [OF wf] by (metis not_Some_eq)
    have "newest_in ?D nid r d \<longleftrightarrow> newest_in ?C nid r d" for r d unfolding D newest_in_def using no by auto
    then show ?thesis using IH None by simp
  next
    case (Some y)
    then obtain d0 where d0: "d0 \<in> set (run_records run)" "d_id d0 = nid" "FromDisk d0 = y" using lookup_Some [OF wf] by blast
    have uniq: "d = d0" if "d \<in> set (run_records run)" "d_id d = nid" for d
      using that d0 wf strict_sorted_iff [of "map d_id (run_records run)"] by (auto simp: run_wf_def distinct_map dest: inj_onD)
    have "newest_in ?D nid r d \<longleftrightarrow> r = length runs \<and> d = d0" for r d
    proof
      assume n: "newest_in ?D nid r d"
      then have "length runs \<le> r" using d0 unfolding D newest_in_def by blast
      then show "r = length runs \<and> d = d0" using n uniq unfolding D newest_in_def by auto
    next
      assume "r = length runs \<and> d = d0"
      then show "newest_in ?D nid r d" using d0 unfolding D newest_in_def by auto
    qed
    then show ?thesis using Some d0(3) by simp
  qed
qed (simp add: newest_in_def)

lemma LatestDeltaRecords_correct:
  assumes "\<forall>run \<in> set runs. run_wf run"
  shows "sorted_wrt (<) (map fst (LatestDeltaRecords next runs))"
    "map_of (LatestDeltaRecords next runs) nid = (if nid < next then find_delta (rev (map lookup runs)) nid else None)"
proof -
  let ?m = "merge_runs (initial_queue runs)"
  note q = initial_queue_ok [OF assms]
  note m = merge_runs_correct [OF q(1), unfolded q(2)]
  have fst: "map fst (LatestDeltaRecords next runs) = filter (\<lambda>i. i < next) (map fst ?m)"
    by (simp add: LatestDeltaRecords_def comp_def case_prod_unfold filter_map)
  show s: "sorted_wrt (<) (map fst (LatestDeltaRecords next runs))" unfolding fst using m(1) by (rule sorted_wrt_filter)
  then have d: "distinct (map fst (LatestDeltaRecords next runs))" using strict_sorted_iff by blast
  have "(nid, x) \<in> set (LatestDeltaRecords next runs) \<longleftrightarrow> nid < next \<and> (\<exists>d. (nid, d) \<in> set ?m \<and> FromDisk d = x)" for x
    by (force simp: LatestDeltaRecords_def image_iff)
  then have "(nid, x) \<in> set (LatestDeltaRecords next runs) \<longleftrightarrow> nid < next \<and> find_delta (rev (map lookup runs)) nid = Some x" for x
    unfolding find_delta_newest [OF assms] m(2) by blast
  then have e: "map_of (LatestDeltaRecords next runs) nid = Some x \<longleftrightarrow> (if nid < next then find_delta (rev (map lookup runs)) nid else None) = Some x" for x
    by (simp add: map_of_eq_Some_iff [OF d])
  then show "map_of (LatestDeltaRecords next runs) nid = (if nid < next then find_delta (rev (map lookup runs)) nid else None)"
    by (metis not_Some_eq)
qed

end
