(* ===== verification/DeltaStore.thy ===== *)
theory DeltaStore
  imports DeltaMerge Hash
begin

unbundle bit_operations_syntax

text \<open>
  Sealing, compacting and recovering the delta runs of an online forest (\<open>OnlineSuperblock\<close>, \<open>OnlineBaseFingerprint\<close> and
  \<open>OnlineStore::SealDelta\<close>, \<open>CompactDeltas\<close>, \<open>RecoverDeltas\<close> and \<open>PruneWal\<close> of \<^verbatim>\<open>src/src/forest.cpp\<close>). The state joins the part of the
  store that the log concerns, the arena, the open runs in the order of their age and the delta files by the generation in
  their names. Every operation of the file system on delta files is taken to succeed; of the metrics of the last flush only
  whether it compacted is kept. The counts in the garbage quota are far below the precision of \<open>long double\<close>, so the quota is stated on integers.
\<close>

section \<open>The superblock\<close>

record OnlineSuperblock =
  sb_format_version :: u32
  sb_generation :: u64
  sb_base_lsn :: u64
  sb_point :: ChainPoint
  sb_num_leaves :: u64
  sb_next :: NodeId
  sb_live_nodes :: u64
  sb_capacity_slots :: u64
  sb_chain_hash_count :: u64
  sb_roots :: "NodeId list"

definition ONLINE_MAGIC :: "byte list" where
  "ONLINE_MAGIC = [0x55, 0x54, 0x52, 0x4f, 0x4e, 0x4c, 0x4e, 0x31]"

definition superblock_body :: "OnlineSuperblock \<Rightarrow> byte list" where
  "superblock_body s =
     ONLINE_MAGIC @ write_le 4 ONLINE_FORMAT_VERSION @ write_le 8 (sb_generation s) @ write_le 8 (sb_base_lsn s) @ AppendPoint (sb_point s) @
     write_le 8 (sb_num_leaves s) @ write_le 4 (sb_next s) @ write_le 8 (sb_live_nodes s) @ write_le 8 (sb_capacity_slots s) @
     write_le 8 (sb_chain_hash_count s) @ concat (map (write_le 4) (sb_roots s))"

definition SerializeSuperblock :: "OnlineSuperblock \<Rightarrow> byte list" where
  "SerializeSuperblock s = superblock_body s @ write_le 8 (Checksum (superblock_body s))"

definition ReadSuperblock :: "OnlineSuperblock reader" where
  "ReadSuperblock =
     read_then (LE 4) (\<lambda>version :: u32.
     read_if (version = LEGACY_ONLINE_FORMAT_VERSION \<or> version = ONLINE_FORMAT_VERSION) (
     read_then (LE 8) (\<lambda>generation.
     read_then (LE 8) (\<lambda>base_lsn.
     read_then ReadPoint (\<lambda>point.
     read_then (LE 8) (\<lambda>num_leaves.
     read_then (LE 4) (\<lambda>next.
     read_then (LE 8) (\<lambda>live_nodes.
     read_then (LE 8) (\<lambda>capacity_slots.
     read_then (LE 8) (\<lambda>chain_hash_count.
       read_value \<lparr>sb_format_version = version, sb_generation = generation, sb_base_lsn = base_lsn, sb_point = point, sb_num_leaves = num_leaves,
         sb_next = next, sb_live_nodes = live_nodes, sb_capacity_slots = capacity_slots, sb_chain_hash_count = chain_hash_count, sb_roots = []\<rparr>))))))))))"

definition superblock_consistent :: "OnlineSuperblock \<Rightarrow> bool" where
  "superblock_consistent s \<longleftrightarrow> sb_next s < NO_NODE \<and> ucast (sb_next s) \<le> sb_capacity_slots s \<and> sb_capacity_slots s < ucast NO_NODE \<and>
     sb_chain_hash_count s = ucast (height (sb_point s)) + 1"

definition ParseSuperblock :: "byte list \<Rightarrow> OnlineSuperblock Result" where
  "ParseSuperblock bytes =
     (if length bytes < 8 + 8 then Err ''online superblock is truncated''
      else let body = take (length bytes - 8) bytes
           in if Checksum body \<noteq> read_le (drop (length bytes - 8) bytes) then Err ''online superblock checksum mismatch''
              else if take 8 body \<noteq> ONLINE_MAGIC then Err ''invalid online superblock''
              else case ReadSuperblock (drop 8 body) of
                     None \<Rightarrow> Err ''invalid online superblock''
                   | Some (s, rest) \<Rightarrow>
              (case read_many 64 (LE 4) rest of
                     None \<Rightarrow> Err ''truncated online roots''
                   | Some (roots, rest1) \<Rightarrow>
                       let s1 = s\<lparr>sb_roots := roots\<rparr>
                       in if rest1 \<noteq> [] \<or> \<not> superblock_consistent s1 then Err ''online superblock fields are inconsistent'' else Ok s1))"

text \<open>The fingerprint binds the runs to the superblock and to the hashes of the roots in the mapped base.\<close>

definition BaseRecord :: "NodeArena \<Rightarrow> NodeId \<Rightarrow> NodeRecord Result" where
  "BaseRecord a nid =
     (if \<not> m_mapped a \<or> nid \<ge> m_base_next a then Err ''base forest node is outside the mapped arena'' else Ok (m_base a nid))"

fun root_bytes :: "NodeArena \<Rightarrow> NodeId list \<Rightarrow> byte list Result" where
  "root_bytes a [] = Ok []"
| "root_bytes a (root # roots) =
     and_then (if root = NO_NODE then Ok (replicate 32 0) else and_then (BaseRecord a root) (\<lambda>r. Ok (Bytes (rec_hash r)))) (\<lambda>bs.
     and_then (root_bytes a roots) (\<lambda>rest. Ok (bs @ rest)))"

definition OnlineBaseFingerprint :: "OnlineSuperblock \<Rightarrow> NodeArena \<Rightarrow> hash256 Result" where
  "OnlineBaseFingerprint s a = and_then (root_bytes a (sb_roots s)) (\<lambda>bs. Ok (Sha512_256 (SerializeSuperblock s @ bs)))"

section \<open>State\<close>

record OnlineForestConfig =
  max_dirty_bytes :: u64
  undo_depth :: u32
  delta_compaction_min_runs :: u32
  max_delta_runs :: u32
  delta_compaction_garbage_percent :: u32

record DeltaStore =
  dl_log :: OnlineStore
  dl_config :: OnlineForestConfig
  dl_base :: OnlineSuperblock
  dl_arena :: NodeArena
  dl_runs :: "MappedDeltaRun list"
  dl_files :: "u64 \<rightharpoonup> byte list"
  dl_durable_lsn :: u64
  dl_durable_live_nodes :: u64
  dl_generation :: u64
  dl_bytes :: u64
  dl_run_count :: u64
  dl_records :: u64
  dl_unique_records :: u64
  dl_last_flush_compacted :: bool

definition FileBytes :: "MappedDeltaRun \<Rightarrow> u64" where
  "FileBytes run = of_nat (DELTA_HEADER_SIZE + 52 * length (run_records run) + 32 * length (run_chain_suffix run) + DELTA_TRAILER_SIZE)"

definition RefreshDeltaStats :: "DeltaStore \<Rightarrow> DeltaStore" where
  "RefreshDeltaStats s =
     s\<lparr>dl_bytes := sum_list (map FileBytes (dl_runs s)), dl_run_count := of_nat (length (dl_runs s)),
       dl_records := sum_list (map (\<lambda>run. ds_record_count (run_state run)) (dl_runs s)),
       dl_unique_records := UniqueDeltaRecords (m_next (dl_arena s)) (dl_runs s)\<rparr>"

definition AppendDeltaRun :: "MappedDeltaRun \<Rightarrow> DeltaStore \<Rightarrow> DeltaStore" where
  "AppendDeltaRun run s = s\<lparr>dl_runs := dl_runs s @ [run], dl_arena := (dl_arena s)\<lparr>m_delta_runs := m_delta_runs (dl_arena s) @ [lookup run]\<rparr>\<rparr>"

definition ReplaceDeltaRuns :: "MappedDeltaRun \<Rightarrow> DeltaStore \<Rightarrow> DeltaStore" where
  "ReplaceDeltaRuns run s = s\<lparr>dl_runs := [run], dl_arena := (dl_arena s)\<lparr>m_delta_runs := [lookup run]\<rparr>\<rparr>"

definition EqualsPhysicalBase :: "NodeArena \<Rightarrow> NodeId \<Rightarrow> NodeRecord \<Rightarrow> bool" where
  "EqualsPhysicalBase a nid r \<longleftrightarrow> rec_type r = FREE \<and> rec_type (ReadPhysicalBase a nid) = FREE \<or> r = ReadPhysicalBase a nid"

definition SortedDirtyIds :: "NodeArena \<Rightarrow> NodeId list" where
  "SortedDirtyIds a = sorted_list_of_set (dom (m_dirty a))"

definition SortedVisibleDirtyIds :: "NodeArena \<Rightarrow> NodeId list" where
  "SortedVisibleDirtyIds a = takeWhile (\<lambda>nid. nid < m_next a) (SortedDirtyIds a)"

definition ClearDirty :: "NodeArena \<Rightarrow> NodeArena" where
  "ClearDirty a = a\<lparr>m_dirty := (\<lambda>_. None)\<rparr>"

section \<open>Compaction\<close>

definition delta_state :: "bool \<Rightarrow> hash256 \<Rightarrow> u64 \<Rightarrow> nat \<Rightarrow> NodeId list \<Rightarrow> u64 \<Rightarrow> DeltaStore \<Rightarrow> DeltaState" where
  "delta_state snapshot fingerprint end_lsn records roots num_leaves s =
     \<lparr>ds_snapshot = snapshot, ds_generation = dl_generation s + 1, ds_previous_generation = dl_generation s,
       ds_base_generation = sb_generation (dl_base s), ds_physical_base_lsn = sb_base_lsn (dl_base s), ds_base_fingerprint = fingerprint,
       ds_previous_lsn = dl_durable_lsn s, ds_end_lsn = end_lsn, ds_base_chain_count = sb_chain_hash_count (dl_base s),
       ds_point = os_point (dl_log s), ds_num_leaves = num_leaves, ds_next = m_next (dl_arena s), ds_live_nodes = m_live (dl_arena s),
       ds_chain_hash_count = of_nat (length (os_chain_hashes (dl_log s))), ds_record_count = of_nat records, ds_roots = roots\<rparr>"

definition compacted_records :: "DeltaStore \<Rightarrow> (NodeId \<times> NodeRecord) list" where
  "compacted_records s = filter (\<lambda>(nid, r). \<not> EqualsPhysicalBase (dl_arena s) nid r) (LatestDeltaRecords (m_next (dl_arena s)) (dl_runs s))"

definition compacted :: "byte list \<Rightarrow> MappedDeltaRun \<Rightarrow> DeltaStore \<Rightarrow> DeltaStore" where
  "compacted bytes run s =
     (let generation = dl_generation s + 1;
          obsolete = set (map (\<lambda>run. ds_generation (run_state run)) (dl_runs s));
          s1 = ReplaceDeltaRuns run (s\<lparr>dl_files := (dl_files s)(generation \<mapsto> bytes)\<rparr>);
          s2 = RefreshDeltaStats (s1\<lparr>dl_generation := generation, dl_last_flush_compacted := True\<rparr>)
      in s2\<lparr>dl_files := dl_files s2 |` (- obsolete)\<rparr>)"

definition CompactDeltas :: "(u64 \<Rightarrow> string) \<Rightarrow> NodeId list \<Rightarrow> u64 \<Rightarrow> DeltaStore \<Rightarrow> unit Result \<times> DeltaStore" where
  "CompactDeltas path roots num_leaves s =
     (case OnlineBaseFingerprint (dl_base s) (dl_arena s) of
        Err e \<Rightarrow> (Err e, s)
      | Throw e \<Rightarrow> (Throw e, s)
      | Ok fingerprint \<Rightarrow>
          let generation = dl_generation s + 1;
              snapshot = delta_state True fingerprint (dl_durable_lsn s) (length (compacted_records s)) roots num_leaves s
          in case WriteDeltaRun (path generation) (dl_files s generation \<noteq> None) snapshot (os_chain_hashes (dl_log s)) (compacted_records s) of
               Err e \<Rightarrow> (Err e, s)
             | Throw e \<Rightarrow> (Throw e, s)
             | Ok (bytes, run) \<Rightarrow> (Ok (), compacted bytes run s))"

section \<open>Pruning the log\<close>

text \<open>The greatest height and number of the transactions in a segment; nothing if the segment has anything but whole records.\<close>

function segment_summary :: "byte list \<Rightarrow> u32 \<Rightarrow> u64 \<Rightarrow> (u32 \<times> u64) option" where
  "segment_summary bs max_height max_lsn =
     (if bs = [] then Some (max_height, max_lsn)
      else case claimed_size bs of
             Claims claimed \<Rightarrow>
               if unat claimed > length bs then None
               else (case ParseWal (take (unat claimed) bs) of
                       Ok t \<Rightarrow> segment_summary (drop (unat claimed) bs) (max max_height (height (wal_point t))) (max max_lsn (wal_lsn t))
                     | _ \<Rightarrow> None)
           | _ \<Rightarrow> None)"
  by pat_completeness auto

termination
proof (relation "measure (\<lambda>(bs, h, l). length bs)", simp, goal_cases)
  case (1 bs h l claimed t)
  then have "0 < unat claimed" by (cases "unat claimed") (auto simp: ParseWal_def)
  then show ?case using 1 by simp
qed

declare segment_summary.simps [simp del]

definition prunable :: "DeltaStore \<Rightarrow> u64 \<times> byte list \<Rightarrow> bool" where
  "prunable s f \<longleftrightarrow>
     (let depth = undo_depth (dl_config s); h = height (os_point (dl_log s));
          floor_height = (if h > depth then h - depth else 0)
      in os_open (dl_log s) \<noteq> Some (fst f) \<and> snd f \<noteq> [] \<and>
         (case segment_summary (snd f) 0 0 of
            None \<Rightarrow> False
          | Some (max_height, max_lsn) \<Rightarrow> (\<not> os_sync_wal (dl_log s) \<or> max_height < floor_height) \<and> max_lsn \<le> dl_durable_lsn s))"

fun remove_bytes :: "byte list list \<Rightarrow> u64 \<Rightarrow> u64" where
  "remove_bytes [] n = n"
| "remove_bytes (f # fs) n = remove_bytes fs (if of_nat (length f) > n then 0 else n - of_nat (length f))"

definition PruneWal :: "DeltaStore \<Rightarrow> DeltaStore" where
  "PruneWal s =
     (let log = dl_log s; (gone, kept) = partition (prunable s) (os_segments log)
      in s\<lparr>dl_log := log\<lparr>os_segments := kept, os_wal_bytes := remove_bytes (map snd gone) (os_wal_bytes log)\<rparr>\<rparr>)"

section \<open>Sealing\<close>

definition seal_records :: "DeltaStore \<Rightarrow> (NodeId \<times> NodeRecord) list" where
  "seal_records s = map (\<lambda>nid. (nid, the (m_dirty (dl_arena s) nid))) (SortedVisibleDirtyIds (dl_arena s))"

definition sealed :: "byte list \<Rightarrow> MappedDeltaRun \<Rightarrow> DeltaStore \<Rightarrow> DeltaStore" where
  "sealed bytes run s =
     (let generation = dl_generation s + 1;
          s1 = AppendDeltaRun run (s\<lparr>dl_files := (dl_files s)(generation \<mapsto> bytes)\<rparr>);
          s2 = s1\<lparr>dl_arena := ClearDirty (dl_arena s1), dl_generation := generation, dl_durable_lsn := os_current_lsn (dl_log s1),
                  dl_durable_live_nodes := m_live (dl_arena s1), dl_log := (dl_log s1)\<lparr>os_redo_wal_bytes := 0\<rparr>\<rparr>
      in RefreshDeltaStats s2)"

definition compaction_due :: "DeltaStore \<Rightarrow> bool" where
  "compaction_due s \<longleftrightarrow> dl_run_count s \<ge> ucast (max_delta_runs (dl_config s)) \<or>
     dl_run_count s \<ge> ucast (delta_compaction_min_runs (dl_config s)) \<and> dl_records s \<noteq> 0 \<and>
     unat (dl_records s - dl_unique_records s) * 100 \<ge> unat (dl_records s) * unat (delta_compaction_garbage_percent (dl_config s))"

definition SealDelta :: "(u64 \<Rightarrow> string) \<Rightarrow> NodeId list \<Rightarrow> u64 \<Rightarrow> DeltaStore \<Rightarrow> unit Result \<times> DeltaStore" where
  "SealDelta path roots num_leaves s =
     (let s0 = s\<lparr>dl_last_flush_compacted := False\<rparr>
      in case OnlineBaseFingerprint (dl_base s0) (dl_arena s0) of
           Err e \<Rightarrow> (Err e, s0)
         | Throw e \<Rightarrow> (Throw e, s0)
         | Ok fingerprint \<Rightarrow>
             let generation = dl_generation s0 + 1;
                 state = delta_state False fingerprint (os_current_lsn (dl_log s0)) (length (seal_records s0)) roots num_leaves s0
             in case WriteDeltaRun (path generation) (dl_files s0 generation \<noteq> None) state (os_chain_hashes (dl_log s0)) (seal_records s0) of
                  Err e \<Rightarrow> (Err e, s0)
                | Throw e \<Rightarrow> (Throw e, s0)
                | Ok (bytes, run) \<Rightarrow>
                    let s1 = sealed bytes run s0
                    in case (if compaction_due s1 then CompactDeltas path roots num_leaves s1 else (Ok (), s1)) of
                         (Ok _, s2) \<Rightarrow> (Ok (), PruneWal s2)
                       | (Err e, s2) \<Rightarrow> (Err e, s2)
                       | (Throw e, s2) \<Rightarrow> (Throw e, s2))"

section \<open>Recovery of the runs\<close>

fun open_runs :: "(u64 \<Rightarrow> string) \<Rightarrow> u64 \<Rightarrow> (u64 \<times> byte list) list \<Rightarrow> MappedDeltaRun list Result" where
  "open_runs path prior [] = Ok []"
| "open_runs path prior ((generation, bytes) # fs) =
     (if generation = prior then Err ''duplicate forest delta generation''
      else and_then (Open_delta (path generation) bytes) (\<lambda>run.
        if ds_generation (run_state run) \<noteq> generation then Err ''forest delta filename does not match its generation''
        else and_then (open_runs path generation fs) (\<lambda>runs. Ok (run # runs))))"

text \<open>The runs from the last snapshot on.\<close>

definition from_snapshot :: "MappedDeltaRun list \<Rightarrow> MappedDeltaRun list" where
  "from_snapshot runs =
     (let later = takeWhile (\<lambda>run. \<not> ds_snapshot (run_state run)) (rev runs)
      in drop (length runs - length later - 1) runs)"

definition anchored :: "OnlineSuperblock \<Rightarrow> hash256 \<Rightarrow> DeltaState \<Rightarrow> bool" where
  "anchored base fingerprint d \<longleftrightarrow> ds_base_generation d = sb_generation base \<and> ds_physical_base_lsn d = sb_base_lsn base \<and>
     sb_base_lsn base \<le> ds_end_lsn d \<and> ds_base_fingerprint d = fingerprint \<and> ds_base_chain_count d = sb_chain_hash_count base"

definition adopt_run :: "MappedDeltaRun \<Rightarrow> hash256 list \<Rightarrow> DeltaStore \<Rightarrow> DeltaStore" where
  "adopt_run run chain s =
     (let d = run_state run;
          s1 = s\<lparr>dl_arena := (dl_arena s)\<lparr>m_next := ds_next d\<rparr>,
                 dl_log := (dl_log s)\<lparr>os_chain_hashes := chain, os_point := ds_point d, os_current_lsn := ds_end_lsn d\<rparr>,
                 dl_durable_lsn := ds_end_lsn d, dl_durable_live_nodes := ds_live_nodes d, dl_generation := ds_generation d\<rparr>
      in AppendDeltaRun run s1)"

fun recover_runs :: "hash256 \<Rightarrow> bool \<Rightarrow> u64 \<Rightarrow> u64 \<Rightarrow> MappedDeltaRun list \<Rightarrow> DeltaStore \<times> NodeId list \<times> u64 \<Rightarrow>
    (DeltaStore \<times> NodeId list \<times> u64) Result" where
  "recover_runs fingerprint first generation lsn [] st = Ok st"
| "recover_runs fingerprint first generation lsn (run # runs) (s, roots, num_leaves) =
     (let d = run_state run;
          chain = take (unat (sb_chain_hash_count (dl_base s))) (os_chain_hashes (dl_log s)) @ run_chain_suffix run
      in if \<not> anchored (dl_base s) fingerprint d then Err ''forest delta is anchored to a different mmap base''
         else if \<not> (first \<and> ds_snapshot d) \<and>
                 (ds_previous_generation d \<noteq> generation \<or> ds_generation d \<noteq> generation + 1 \<or> ds_previous_lsn d \<noteq> lsn)
         then Err ''forest delta generations or LSNs are not contiguous''
         else if \<not> first \<and> ds_snapshot d then Err ''unexpected forest delta snapshot after recovery start''
         else if chain = [] \<or> last chain \<noteq> point_hash (ds_point d) \<or> run_chain_suffix run = [] \<and> ds_point d \<noteq> sb_point (dl_base s)
         then Err ''forest delta chain does not extend its mmap base''
         else recover_runs fingerprint False (ds_generation d) (ds_end_lsn d) runs (adopt_run run chain s, ds_roots d, ds_num_leaves d))"

definition RecoverDeltas :: "(u64 \<Rightarrow> string) \<Rightarrow> DeltaStore \<Rightarrow> NodeId list \<Rightarrow> u64 \<Rightarrow> (DeltaStore \<times> NodeId list \<times> u64) Result" where
  "RecoverDeltas path s roots num_leaves =
     and_then (open_runs path 0 (map (\<lambda>g. (g, the (dl_files s g))) (sorted_list_of_set (dom (dl_files s))))) (\<lambda>runs.
       if runs = [] then Ok (s, roots, num_leaves)
       else and_then (OnlineBaseFingerprint (dl_base s) (dl_arena s)) (\<lambda>fingerprint.
            and_then (recover_runs fingerprint True 0 (sb_base_lsn (dl_base s)) (from_snapshot runs) (s, roots, num_leaves)) (\<lambda>(s1, roots1, num_leaves1).
              Ok (RefreshDeltaStats s1, roots1, num_leaves1))))"

section \<open>The superblock reads back\<close>

text \<open>A superblock of the current format with consistent fields and all its roots is read back from its bytes.\<close>

lemma ReadSuperblock_bytes:
  "sb_format_version s = ONLINE_FORMAT_VERSION \<Longrightarrow>
    \<exists>bs. superblock_body s = ONLINE_MAGIC @ bs \<and> ReadSuperblock bs = Some (s\<lparr>sb_roots := []\<rparr>, concat (map (write_le 4) (sb_roots s)))"
  unfolding superblock_body_def
  by (intro exI conjI, rule refl)
    (simp only: ReadSuperblock_def read_then_simp read_value_simp field_reads wal_point.dec_enc append_assoc option.case prod.case simp_thms if_True, cases s, simp)

lemma ParseSuperblock_Serialize:
  assumes "sb_format_version s = ONLINE_FORMAT_VERSION" "superblock_consistent s" "length (sb_roots s) = 64"
  shows "ParseSuperblock (SerializeSuperblock s) = Ok s"
proof -
  let ?body = "superblock_body s" and ?sum = "write_le 8 (Checksum (superblock_body s))"
  obtain bs where bs: "?body = ONLINE_MAGIC @ bs" "ReadSuperblock bs = Some (s\<lparr>sb_roots := []\<rparr>, concat (map (write_le 4) (sb_roots s)))"
    using ReadSuperblock_bytes [OF assms(1)] by blast
  have m: "length ONLINE_MAGIC = 8" by (simp add: ONLINE_MAGIC_def)
  have parts: "length (SerializeSuperblock s) = length ?body + 8" "take (length (SerializeSuperblock s) - 8) (SerializeSuperblock s) = ?body"
    "drop (length (SerializeSuperblock s) - 8) (SerializeSuperblock s) = ?sum"
    by (simp_all add: SerializeSuperblock_def)
  have len: "\<not> length (SerializeSuperblock s) < 8 + 8" using parts(1) bs(1) m by simp
  have magic: "take 8 ?body = ONLINE_MAGIC" "drop 8 ?body = bs" using bs(1) m by simp_all
  have roots: "read_many 64 (LE 4) (concat (map (write_le 4) (sb_roots s))) = Some (sb_roots s, [])"
    using wal_root.read_many_enc [of "sb_roots s" "[]"] assms(3) by simp
  have "s\<lparr>sb_roots := []\<rparr>\<lparr>sb_roots := sb_roots s\<rparr> = s" by simp
  then show ?thesis
    unfolding ParseSuperblock_def if_not_P [OF len] Let_def parts(2,3) magic bs(2) option.case prod.case roots using assms(2) by (simp add: read_le_u64)
qed

section \<open>Reading after sealing and compacting\<close>

text \<open>Records that stand for the same node: equal, or both free.\<close>

definition same_node :: "NodeRecord \<Rightarrow> NodeRecord \<Rightarrow> bool" where
  "same_node r r' \<longleftrightarrow> r = r' \<or> rec_type r = FREE \<and> rec_type r' = FREE"

lemma takeWhile_sorted: "sorted xs \<Longrightarrow> takeWhile (\<lambda>x. x < (n :: 'a::linorder)) xs = filter (\<lambda>x. x < n) xs"
proof (induction xs)
  case (Cons x xs)
  have "filter (\<lambda>y. y < n) xs = []" if "\<not> x < n" using that Cons.prems by (auto simp: filter_empty_conv)
  then show ?case using Cons by auto
qed simp

lemma visible_dirty: "set (SortedVisibleDirtyIds a) = {nid \<in> dom (m_dirty a). nid < m_next a}" "sorted_wrt (<) (SortedVisibleDirtyIds a)"
  by (simp_all add: SortedVisibleDirtyIds_def SortedDirtyIds_def takeWhile_sorted sorted_wrt_filter)

lemma map_of_seal_records: "map_of (seal_records s) nid = (if nid < m_next (dl_arena s) then m_dirty (dl_arena s) nid else None)"
proof -
  have m: "map_of (map (\<lambda>i. (i, the (f i))) is) nid = (if nid \<in> set is then Some (the (f nid)) else None)" for f :: "NodeId \<rightharpoonup> NodeRecord" and "is"
    by (induction "is") auto
  show ?thesis unfolding seal_records_def m visible_dirty(1) by (auto simp: dom_def)
qed

lemma find_delta_append: "find_delta (rev (runs @ [run])) nid = (case run nid of Some r \<Rightarrow> Some r | None \<Rightarrow> find_delta (rev runs) nid)"
  by simp

lemma Read_mapped:
  "m_mapped a \<Longrightarrow> m_dirty a nid = None \<Longrightarrow>
    Read a nid = (case find_delta (rev (m_delta_runs a)) nid of Some r \<Rightarrow> r | None \<Rightarrow> ReadPhysicalBase a nid)"
  by (simp add: Read_def FindDeltaRecord_def)

lemma ReadPhysicalBase_frame [simp]:
  "ReadPhysicalBase (a\<lparr>m_delta_runs := runs\<rparr>) = ReadPhysicalBase a" "ReadPhysicalBase (a\<lparr>m_dirty := d\<rparr>) = ReadPhysicalBase a"
  "ReadPhysicalBase (a\<lparr>m_next := n\<rparr>) = ReadPhysicalBase a"
  by (rule ext, simp add: ReadPhysicalBase_def)+

lemma store_simps [simp]:
  "dl_arena (RefreshDeltaStats s) = dl_arena s" "dl_runs (RefreshDeltaStats s) = dl_runs s" "dl_log (RefreshDeltaStats s) = dl_log s"
  "dl_files (RefreshDeltaStats s) = dl_files s" "dl_base (RefreshDeltaStats s) = dl_base s" "dl_durable_lsn (RefreshDeltaStats s) = dl_durable_lsn s"
  "dl_generation (RefreshDeltaStats s) = dl_generation s" "dl_durable_live_nodes (RefreshDeltaStats s) = dl_durable_live_nodes s"
  "dl_config (RefreshDeltaStats s) = dl_config s"
  by (simp_all add: RefreshDeltaStats_def)

lemma sealed_simps [simp]:
  "dl_runs (sealed bytes run s) = dl_runs s @ [run]" "dl_files (sealed bytes run s) = (dl_files s)(dl_generation s + 1 \<mapsto> bytes)"
  "dl_arena (sealed bytes run s) = (dl_arena s)\<lparr>m_delta_runs := m_delta_runs (dl_arena s) @ [lookup run], m_dirty := (\<lambda>_. None)\<rparr>"
  "dl_base (sealed bytes run s) = dl_base s" "dl_generation (sealed bytes run s) = dl_generation s + 1"
  "dl_durable_lsn (sealed bytes run s) = os_current_lsn (dl_log s)" "dl_log (sealed bytes run s) = (dl_log s)\<lparr>os_redo_wal_bytes := 0\<rparr>"
  "dl_durable_live_nodes (sealed bytes run s) = m_live (dl_arena s)"
  by (simp_all add: sealed_def Let_def AppendDeltaRun_def ClearDirty_def)

lemma compacted_simps [simp]:
  "dl_runs (compacted bytes run s) = [run]"
  "dl_files (compacted bytes run s) = (dl_files s)(dl_generation s + 1 \<mapsto> bytes) |` (- (\<lambda>run. ds_generation (run_state run)) ` set (dl_runs s))"
  "dl_arena (compacted bytes run s) = (dl_arena s)\<lparr>m_delta_runs := [lookup run]\<rparr>"
  "dl_base (compacted bytes run s) = dl_base s" "dl_generation (compacted bytes run s) = dl_generation s + 1"
  "dl_durable_lsn (compacted bytes run s) = dl_durable_lsn s" "dl_log (compacted bytes run s) = dl_log s"
  "dl_durable_live_nodes (compacted bytes run s) = dl_durable_live_nodes s"
  by (simp_all add: compacted_def Let_def ReplaceDeltaRuns_def)

lemma Read_sealed:
  assumes "m_mapped (dl_arena s)" "nid < m_next (dl_arena s)" "\<And>nid. lookup run nid = map_of (seal_records s) nid"
  shows "Read (dl_arena (sealed bytes run s)) nid = Read (dl_arena s) nid"
proof (cases "m_dirty (dl_arena s) nid")
  case None
  then show ?thesis using assms Read_mapped [of "dl_arena (sealed bytes run s)" nid] Read_mapped [of "dl_arena s" nid]
    by (simp add: map_of_seal_records cong: option.case_cong)
next
  case (Some r)
  then show ?thesis using assms Read_mapped [of "dl_arena (sealed bytes run s)" nid]
    by (simp add: map_of_seal_records Read_def [of "dl_arena s"])
qed

lemma map_of_filter_fst:
  "distinct (map fst xs) \<Longrightarrow> map_of (filter P xs) k = (case map_of xs k of Some v \<Rightarrow> if P (k, v) then Some v else None | None \<Rightarrow> None)"
proof (induction xs)
  case (Cons x xs)
  have "map_of xs (fst x) = None" using Cons.prems by (auto simp: map_of_eq_None_iff)
  moreover have "map_of (filter P xs) (fst x) = None" using Cons.prems by (auto simp: map_of_eq_None_iff)
  ultimately show ?case using Cons by (cases x) auto
qed simp

lemma Read_compacted:
  assumes "m_mapped (dl_arena s)" "nid < m_next (dl_arena s)" "m_dirty (dl_arena s) = (\<lambda>_. None)" "m_delta_runs (dl_arena s) = map lookup (dl_runs s)"
    "\<forall>run \<in> set (dl_runs s). run_wf run" "\<And>nid. lookup run nid = map_of (compacted_records s) nid"
  shows "same_node (Read (dl_arena (compacted bytes run s)) nid) (Read (dl_arena s) nid)"
proof -
  let ?F = "find_delta (rev (map lookup (dl_runs s))) nid"
  have l: "map_of (LatestDeltaRecords (m_next (dl_arena s)) (dl_runs s)) nid = ?F"
    using LatestDeltaRecords_correct(2) [OF assms(5), of "m_next (dl_arena s)" nid] assms(2) by simp
  have "distinct (map fst (LatestDeltaRecords (m_next (dl_arena s)) (dl_runs s)))"
    using LatestDeltaRecords_correct(1) [OF assms(5)] strict_sorted_iff by blast
  from map_of_filter_fst [OF this, of "\<lambda>(nid, r). \<not> EqualsPhysicalBase (dl_arena s) nid r" nid]
  have c: "lookup run nid = (case ?F of Some r \<Rightarrow> if \<not> EqualsPhysicalBase (dl_arena s) nid r then Some r else None | None \<Rightarrow> None)"
    unfolding assms(6) compacted_records_def l by (simp cong: option.case_cong)
  have "Read (dl_arena (compacted bytes run s)) nid = (case lookup run nid of Some r \<Rightarrow> r | None \<Rightarrow> ReadPhysicalBase (dl_arena s) nid)"
    using Read_mapped [of "dl_arena (compacted bytes run s)" nid] assms(1,3) by (simp split: option.splits)
  moreover have "Read (dl_arena s) nid = (case ?F of Some r \<Rightarrow> r | None \<Rightarrow> ReadPhysicalBase (dl_arena s) nid)"
    using Read_mapped [of "dl_arena s" nid] assms(1,3,4) by simp
  ultimately show ?thesis unfolding c by (cases ?F) (auto simp: same_node_def EqualsPhysicalBase_def)
qed

section \<open>The invariant of the runs\<close>

abbreviation generation_of :: "MappedDeltaRun \<Rightarrow> u64" where
  "generation_of run \<equiv> ds_generation (run_state run)"

fun linked :: "bool \<Rightarrow> u64 \<Rightarrow> u64 \<Rightarrow> MappedDeltaRun list \<Rightarrow> bool" where
  "linked first generation lsn [] = True"
| "linked first generation lsn (run # runs) =
     (let d = run_state run
      in (first \<and> ds_snapshot d \<or> ds_previous_generation d = generation \<and> ds_generation d = generation + 1 \<and> ds_previous_lsn d = lsn) \<and>
         (first \<or> \<not> ds_snapshot d) \<and> linked False (ds_generation d) (ds_end_lsn d) runs)"

definition base_chain :: "DeltaStore \<Rightarrow> hash256 list" where
  "base_chain s = take (unat (sb_chain_hash_count (dl_base s))) (os_chain_hashes (dl_log s))"

definition chain_fits :: "OnlineSuperblock \<Rightarrow> hash256 list \<Rightarrow> MappedDeltaRun \<Rightarrow> bool" where
  "chain_fits base front run \<longleftrightarrow> (let chain = front @ run_chain_suffix run
     in chain \<noteq> [] \<and> last chain = point_hash (ds_point (run_state run)) \<and> (run_chain_suffix run = [] \<longrightarrow> ds_point (run_state run) = sb_point base))"

text \<open>The runs are open and on disk, follow on each other and end at the durable state; the chain of the store extends that of the base.\<close>

definition runs_inv :: "hash256 \<Rightarrow> DeltaStore \<Rightarrow> bool" where
  "runs_inv fp s \<longleftrightarrow> m_mapped (dl_arena s) \<and> m_delta_runs (dl_arena s) = map lookup (dl_runs s) \<and>
     OnlineBaseFingerprint (dl_base s) (dl_arena s) = Ok fp \<and> unat (sb_chain_hash_count (dl_base s)) \<le> length (os_chain_hashes (dl_log s)) \<and>
     (\<forall>run \<in> set (dl_runs s). run_wf run \<and> anchored (dl_base s) fp (run_state run) \<and> chain_fits (dl_base s) (base_chain s) run) \<and>
     linked True 0 (sb_base_lsn (dl_base s)) (dl_runs s)"

definition files_inv :: "(u64 \<Rightarrow> string) \<Rightarrow> DeltaStore \<Rightarrow> bool" where
  "files_inv path s \<longleftrightarrow> sorted_wrt (<) (map generation_of (dl_runs s)) \<and> (\<forall>run \<in> set (dl_runs s). 0 < generation_of run) \<and>
     dom (dl_files s) = generation_of ` set (dl_runs s) \<and>
     (\<forall>run \<in> set (dl_runs s). \<exists>bytes. dl_files s (generation_of run) = Some bytes \<and> Open_delta (path (generation_of run)) bytes = Ok run)"

definition tip_inv :: "DeltaStore \<Rightarrow> bool" where
  "tip_inv s \<longleftrightarrow> (if dl_runs s = [] then dl_generation s = 0 \<and> dl_durable_lsn s = sb_base_lsn (dl_base s)
     else dl_generation s = generation_of (last (dl_runs s)) \<and> dl_durable_lsn s = ds_end_lsn (run_state (last (dl_runs s)))) \<and>
     sb_base_lsn (dl_base s) \<le> dl_durable_lsn s"

definition delta_inv :: "(u64 \<Rightarrow> string) \<Rightarrow> hash256 \<Rightarrow> DeltaStore \<Rightarrow> bool" where
  "delta_inv path fp s \<longleftrightarrow> runs_inv fp s \<and> files_inv path s \<and> tip_inv s"

section \<open>Recovery finds the runs\<close>

lemma linked_no_snapshot: "linked False g l runs \<Longrightarrow> \<forall>run \<in> set runs. \<not> ds_snapshot (run_state run)"
  by (induction runs arbitrary: g l) (auto simp: Let_def)

lemma from_snapshot_linked:
  assumes "linked True g l runs"
  shows "from_snapshot runs = runs"
proof (cases runs)
  case (Cons run rest)
  have no: "\<forall>run \<in> set rest. \<not> ds_snapshot (run_state run)" using assms Cons linked_no_snapshot by (auto simp: Let_def)
  have "takeWhile (\<lambda>run. \<not> ds_snapshot (run_state run)) (rev runs) = rev rest @ (if ds_snapshot (run_state run) then [] else [run])"
    using no takeWhile_append2 [of "rev rest" "\<lambda>run. \<not> ds_snapshot (run_state run)" "[run]"] by (simp add: Cons)
  then show ?thesis by (simp add: from_snapshot_def Let_def Cons)
qed (simp add: from_snapshot_def)

lemma open_runs_Ok:
  assumes "sorted_wrt (<) (map generation_of runs)" "\<forall>run \<in> set runs. prior < generation_of run"
    "\<forall>run \<in> set runs. \<exists>bytes. files (generation_of run) = Some bytes \<and> Open_delta (path (generation_of run)) bytes = Ok run"
  shows "open_runs path prior (map (\<lambda>g. (g, the (files g))) (map generation_of runs)) = Ok runs"
  using assms
proof (induction runs arbitrary: prior)
  case (Cons run runs)
  have "open_runs path (generation_of run) (map (\<lambda>g. (g, the (files g))) (map generation_of runs)) = Ok runs"
    using Cons by (intro Cons.IH) auto
  moreover obtain bytes where "files (generation_of run) = Some bytes" "Open_delta (path (generation_of run)) bytes = Ok run" using Cons.prems(3) by auto
  ultimately show ?case using Cons.prems(2) by auto
qed simp

lemma adopt_run_simps [simp]:
  "dl_base (adopt_run run chain s) = dl_base s" "os_chain_hashes (dl_log (adopt_run run chain s)) = chain"
  "dl_runs (adopt_run run chain s) = dl_runs s @ [run]"
  by (simp_all add: adopt_run_def AppendDeltaRun_def Let_def)

abbreviation adopt_all :: "hash256 list \<Rightarrow> MappedDeltaRun list \<Rightarrow> DeltaStore \<Rightarrow> DeltaStore" where
  "adopt_all front runs s \<equiv> fold (\<lambda>run. adopt_run run (front @ run_chain_suffix run)) runs s"

lemma recover_runs_Ok:
  assumes "linked first generation lsn runs" "\<forall>run \<in> set runs. anchored (dl_base s) fp (run_state run) \<and> chain_fits (dl_base s) (base_chain s) run"
    "unat (sb_chain_hash_count (dl_base s)) \<le> length (os_chain_hashes (dl_log s))"
  shows "recover_runs fp first generation lsn runs (s, roots, num_leaves) =
     Ok (fold (\<lambda>run. adopt_run run (base_chain s @ run_chain_suffix run)) runs s,
         if runs = [] then roots else ds_roots (run_state (last runs)), if runs = [] then num_leaves else ds_num_leaves (run_state (last runs)))"
  using assms
proof (induction runs arbitrary: first generation lsn s roots num_leaves)
  case (Cons run runs)
  let ?c = "base_chain s @ run_chain_suffix run"
  let ?s = "adopt_run run ?c s"
  have len: "length (base_chain s) = unat (sb_chain_hash_count (dl_base s))" using Cons.prems(3) by (simp add: base_chain_def)
  have b: "base_chain ?s = base_chain s" using len by (simp add: base_chain_def [of ?s])
  have IH: "recover_runs fp False (ds_generation (run_state run)) (ds_end_lsn (run_state run)) runs (?s, ds_roots (run_state run), ds_num_leaves (run_state run)) =
      Ok (fold (\<lambda>run. adopt_run run (base_chain s @ run_chain_suffix run)) runs ?s,
         if runs = [] then ds_roots (run_state run) else ds_roots (run_state (last runs)),
         if runs = [] then ds_num_leaves (run_state run) else ds_num_leaves (run_state (last runs)))"
    using Cons.IH [of False "ds_generation (run_state run)" "ds_end_lsn (run_state run)" ?s] Cons.prems(1,2) len
    unfolding b by (simp add: Let_def)
  have "anchored (dl_base s) fp (run_state run)" "chain_fits (dl_base s) (base_chain s) run" using Cons.prems(2) by simp_all
  then show ?case using Cons.prems(1) IH by (auto simp: Let_def chain_fits_def base_chain_def [symmetric])
qed simp

lemma fold_adopt:
  assumes "runs \<noteq> []"
  shows "dl_runs (adopt_all front runs s) = dl_runs s @ runs"
    "dl_arena (adopt_all front runs s) = (dl_arena s)\<lparr>m_delta_runs := m_delta_runs (dl_arena s) @ map lookup runs, m_next := ds_next (run_state (last runs))\<rparr>"
    "dl_log (adopt_all front runs s) = (dl_log s)\<lparr>os_chain_hashes := front @ run_chain_suffix (last runs), os_point := ds_point (run_state (last runs)),
       os_current_lsn := ds_end_lsn (run_state (last runs))\<rparr>"
    "dl_durable_lsn (adopt_all front runs s) = ds_end_lsn (run_state (last runs))" "dl_durable_live_nodes (adopt_all front runs s) = ds_live_nodes (run_state (last runs))"
    "dl_generation (adopt_all front runs s) = generation_of (last runs)" "dl_files (adopt_all front runs s) = dl_files s" "dl_base (adopt_all front runs s) = dl_base s"
  using assms
proof (induction runs arbitrary: s)
  case (Cons run runs)
  {
    case 1 then show ?case using Cons.IH(1) by (cases "runs = []") (simp_all add: adopt_run_def AppendDeltaRun_def Let_def)
  next
    case 2 then show ?case using Cons.IH(2) by (cases "runs = []") (simp_all add: adopt_run_def AppendDeltaRun_def Let_def)
  next
    case 3 then show ?case using Cons.IH(3) by (cases "runs = []") (simp_all add: adopt_run_def AppendDeltaRun_def Let_def)
  next
    case 4 then show ?case using Cons.IH(4) by (cases "runs = []") (simp_all add: adopt_run_def AppendDeltaRun_def Let_def)
  next
    case 5 then show ?case using Cons.IH(5) by (cases "runs = []") (simp_all add: adopt_run_def AppendDeltaRun_def Let_def)
  next
    case 6 then show ?case using Cons.IH(6) by (cases "runs = []") (simp_all add: adopt_run_def AppendDeltaRun_def Let_def)
  next
    case 7 then show ?case using Cons.IH(7) by (cases "runs = []") (simp_all add: adopt_run_def AppendDeltaRun_def Let_def)
  next
    case 8 then show ?case using Cons.IH(8) by (cases "runs = []") simp_all
  }
qed simp_all

section \<open>Sealing keeps the invariant\<close>

lemma OnlineBaseFingerprint_cong:
  assumes "m_mapped a = m_mapped b" "m_base_next a = m_base_next b" "m_base a = m_base b"
  shows "OnlineBaseFingerprint sb a = OnlineBaseFingerprint sb b"
proof -
  have "root_bytes a roots = root_bytes b roots" for roots by (induction roots) (simp_all add: BaseRecord_def assms)
  then show ?thesis by (simp add: OnlineBaseFingerprint_def)
qed

lemma linked_append:
  assumes "linked first g l runs" "runs \<noteq> [] \<or> first" "\<not> ds_snapshot (run_state run)"
    "ds_previous_generation (run_state run) = (if runs = [] then g else generation_of (last runs))"
    "generation_of run = ds_previous_generation (run_state run) + 1"
    "ds_previous_lsn (run_state run) = (if runs = [] then l else ds_end_lsn (run_state (last runs)))"
  shows "linked first g l (runs @ [run])"
  using assms
proof (induction runs arbitrary: first g l)
  case (Cons r runs)
  show ?case
  proof (cases "runs = []")
    case True
    then show ?thesis using Cons.prems by (auto simp: Let_def)
  next
    case False
    then show ?thesis using Cons.prems Cons.IH [of False "generation_of r" "ds_end_lsn (run_state r)"] by (auto simp: Let_def)
  qed
qed (auto simp: Let_def)

text \<open>The store with its chain and its point.\<close>

definition chain_inv :: "DeltaStore \<Rightarrow> bool" where
  "chain_inv s \<longleftrightarrow> os_chain_hashes (dl_log s) \<noteq> [] \<and> last (os_chain_hashes (dl_log s)) = point_hash (os_point (dl_log s)) \<and>
     sb_base_lsn (dl_base s) \<le> os_current_lsn (dl_log s) \<and>
     (length (os_chain_hashes (dl_log s)) = unat (sb_chain_hash_count (dl_base s)) \<longrightarrow> os_point (dl_log s) = sb_point (dl_base s))"

lemma new_generation:
  assumes "files_inv path s" "tip_inv s" "unat (dl_generation s) + 1 < 2 ^ 64"
  shows "\<forall>run \<in> set (dl_runs s). generation_of run < dl_generation s + 1" "dl_files s (dl_generation s + 1) = None" "0 < dl_generation s + 1"
proof -
  have u: "unat (dl_generation s + 1) = unat (dl_generation s) + 1" using assms(3) by (intro unat_Suc_word) simp
  show "0 < dl_generation s + 1" using u by (simp add: word_less_nat_alt)
  show lt: "\<forall>run \<in> set (dl_runs s). generation_of run < dl_generation s + 1"
  proof
    fix run assume run: "run \<in> set (dl_runs s)"
    then have ne: "dl_runs s \<noteq> []" by auto
    then obtain rs r where r: "dl_runs s = rs @ [r]" by (metis rev_exhaust)
    have "generation_of run \<le> generation_of r" using run assms(1) r by (auto simp: files_inv_def sorted_wrt_append)
    also have "generation_of r = dl_generation s" using assms(2) ne r by (simp add: tip_inv_def)
    finally show "generation_of run < dl_generation s + 1" using u by (simp add: word_le_nat_alt word_less_nat_alt)
  qed
  then have "dl_generation s + 1 \<notin> dom (dl_files s)" using assms(1) by (auto simp: files_inv_def)
  then show "dl_files s (dl_generation s + 1) = None" by auto
qed

lemma sealed_inv:
  assumes inv: "delta_inv path fp s" and ch: "chain_inv s" and g: "unat (dl_generation s) + 1 < 2 ^ 64"
    and run: "run_state run = delta_state False fp (os_current_lsn (dl_log s)) n roots num_leaves s" "run_wf run"
      "run_chain_suffix run = drop (unat (sb_chain_hash_count (dl_base s))) (os_chain_hashes (dl_log s))"
      "Open_delta (path (dl_generation s + 1)) bytes = Ok run"
  shows "delta_inv path fp (sealed bytes run s)"
proof -
  let ?s = "sealed bytes run s"
  note ri = inv [unfolded delta_inv_def runs_inv_def] and c = ch [unfolded chain_inv_def]
  have fi: "files_inv path s" and ti: "tip_inv s" using inv by (simp_all add: delta_inv_def)
  note ng = new_generation [OF fi ti g]
  have gen: "generation_of run = dl_generation s + 1" by (simp add: run(1) delta_state_def)
  have bc: "base_chain ?s = base_chain s" by (simp add: base_chain_def)
  have chain: "base_chain s @ run_chain_suffix run = os_chain_hashes (dl_log s)" by (simp add: base_chain_def run(3))
  have "chain_fits (dl_base s) (base_chain s) run"
    unfolding chain_fits_def Let_def chain using c ri by (auto simp: run(1,3) delta_state_def)
  moreover have "anchored (dl_base s) fp (run_state run)" using c by (simp add: run(1) delta_state_def anchored_def)
  moreover have "linked True 0 (sb_base_lsn (dl_base s)) (dl_runs s @ [run])"
    using ri ti by (intro linked_append) (auto simp: run(1) delta_state_def tip_inv_def)
  moreover have "OnlineBaseFingerprint (dl_base s) (dl_arena ?s) = Ok fp" using ri OnlineBaseFingerprint_cong [of "dl_arena ?s" "dl_arena s"] by simp
  ultimately have "runs_inv fp ?s" unfolding runs_inv_def bc using ri run(2) by (simp add: run(1))
  moreover have "files_inv path ?s"
    using fi ng run(4) gen unfolding files_inv_def by (auto simp: sorted_wrt_append)
  moreover have "tip_inv ?s" using c gen by (simp add: tip_inv_def run(1) delta_state_def)
  ultimately show ?thesis by (simp add: delta_inv_def)
qed

lemma compacted_inv:
  assumes inv: "delta_inv path fp s" and ch: "chain_inv s" and g: "unat (dl_generation s) + 1 < 2 ^ 64"
    and run: "run_state run = delta_state True fp (dl_durable_lsn s) n roots num_leaves s" "run_wf run"
      "run_chain_suffix run = drop (unat (sb_chain_hash_count (dl_base s))) (os_chain_hashes (dl_log s))"
      "Open_delta (path (dl_generation s + 1)) bytes = Ok run"
  shows "delta_inv path fp (compacted bytes run s)"
proof -
  let ?s = "compacted bytes run s"
  note ri = inv [unfolded delta_inv_def runs_inv_def] and c = ch [unfolded chain_inv_def]
  have fi: "files_inv path s" and ti: "tip_inv s" using inv by (simp_all add: delta_inv_def)
  note ng = new_generation [OF fi ti g]
  have gen: "generation_of run = dl_generation s + 1" by (simp add: run(1) delta_state_def)
  have bc: "base_chain ?s = base_chain s" by (simp add: base_chain_def)
  have chain: "base_chain s @ run_chain_suffix run = os_chain_hashes (dl_log s)" by (simp add: base_chain_def run(3))
  have "chain_fits (dl_base s) (base_chain s) run"
    unfolding chain_fits_def Let_def chain using c ri by (auto simp: run(1,3) delta_state_def)
  moreover have "anchored (dl_base s) fp (run_state run)" using ti by (simp add: run(1) delta_state_def anchored_def tip_inv_def)
  moreover have "linked True 0 (sb_base_lsn (dl_base s)) [run]" by (simp add: run(1) delta_state_def Let_def)
  moreover have "OnlineBaseFingerprint (dl_base s) (dl_arena ?s) = Ok fp" using ri OnlineBaseFingerprint_cong [of "dl_arena ?s" "dl_arena s"] by simp
  ultimately have "runs_inv fp ?s" unfolding runs_inv_def bc using ri run(2) by (simp add: run(1))
  moreover have "files_inv path ?s"
  proof -
    have d: "dl_files s x = None \<longleftrightarrow> x \<notin> generation_of ` set (dl_runs s)" for x using fi unfolding files_inv_def by (metis domIff)
    then have "dl_generation s + 1 \<notin> generation_of ` set (dl_runs s)" using ng(2) by blast
    then have "dl_files ?s = [dl_generation s + 1 \<mapsto> bytes]" using d by (intro ext) (simp add: restrict_map_def)
    then show ?thesis using ng(3) run(4) gen unfolding files_inv_def by simp
  qed
  moreover have "tip_inv ?s" using ti gen by (simp add: tip_inv_def run(1) delta_state_def)
  ultimately show ?thesis by (simp add: delta_inv_def)
qed

section \<open>Opening the sealed state again\<close>

text \<open>The store as it is opened from the base, before the runs are recovered.\<close>

definition reopened :: "DeltaStore \<Rightarrow> DeltaStore" where
  "reopened s =
     s\<lparr>dl_arena := (dl_arena s)\<lparr>m_delta_runs := [], m_dirty := (\<lambda>_. None), m_next := m_base_next (dl_arena s)\<rparr>, dl_runs := [],
       dl_log := (dl_log s)\<lparr>os_chain_hashes := base_chain s, os_point := sb_point (dl_base s), os_current_lsn := sb_base_lsn (dl_base s)\<rparr>,
       dl_durable_lsn := sb_base_lsn (dl_base s), dl_durable_live_nodes := sb_live_nodes (dl_base s), dl_generation := 0\<rparr>"

lemma from_snapshot_front:
  assumes "linked True g l runs" "old = [] \<or> (\<exists>run rest. runs = run # rest \<and> ds_snapshot (run_state run))"
  shows "from_snapshot (old @ runs) = runs"
proof (cases "old = []")
  case False
  then obtain run rest where r: "runs = run # rest" "ds_snapshot (run_state run)" using assms(2) by blast
  have no: "\<forall>run \<in> set rest. \<not> ds_snapshot (run_state run)" using assms(1) r(1) linked_no_snapshot by (auto simp: Let_def)
  have "takeWhile (\<lambda>run. \<not> ds_snapshot (run_state run)) (rev (old @ runs)) = rev rest"
    using no r takeWhile_append2 [of "rev rest" "\<lambda>run. \<not> ds_snapshot (run_state run)" "run # rev old"] by simp
  then show ?thesis by (simp add: from_snapshot_def Let_def r(1))
qed (use assms(1) from_snapshot_linked in simp)

text \<open>Files of runs that a later snapshot replaced do no harm.\<close>

lemma RecoverDeltas_files:
  assumes inv: "delta_inv path fp s" and ne: "dl_runs s \<noteq> []"
    and old: "old = [] \<or> ds_snapshot (run_state (hd (dl_runs s)))" "sorted_wrt (<) (map generation_of (old @ dl_runs s))" "\<forall>run \<in> set old. 0 < generation_of run"
      "dom files = generation_of ` set (old @ dl_runs s)"
      "\<forall>run \<in> set (old @ dl_runs s). \<exists>bytes. files (generation_of run) = Some bytes \<and> Open_delta (path (generation_of run)) bytes = Ok run"
  shows "RecoverDeltas path ((reopened s)\<lparr>dl_files := files\<rparr>) roots num_leaves =
     Ok (RefreshDeltaStats (adopt_all (base_chain s) (dl_runs s) ((reopened s)\<lparr>dl_files := files\<rparr>)),
       ds_roots (run_state (last (dl_runs s))), ds_num_leaves (run_state (last (dl_runs s))))"
proof -
  let ?s = "(reopened s)\<lparr>dl_files := files\<rparr>" and ?all = "old @ dl_runs s"
  note ri = inv [unfolded delta_inv_def runs_inv_def files_inv_def]
  have "sorted_list_of_set (dom files) = map generation_of ?all"
    using old(2,4) by (intro sorted_list_of_set.idem_if_sorted_distinct [THEN trans, rotated] strict_sorted_equal) (simp_all add: strict_sorted_iff image_Un)
  moreover have "\<forall>run \<in> set ?all. 0 < generation_of run" using ri old(3) by auto
  ultimately have o: "open_runs path 0 (map (\<lambda>g. (g, the (dl_files ?s g))) (sorted_list_of_set (dom (dl_files ?s)))) = Ok ?all"
    using open_runs_Ok [OF old(2) _ old(5)] by simp
  have b: "base_chain ?s = base_chain s" "dl_base ?s = dl_base s" by (simp_all add: base_chain_def reopened_def)
  have fp: "OnlineBaseFingerprint (dl_base ?s) (dl_arena ?s) = Ok fp"
    using ri OnlineBaseFingerprint_cong [of "dl_arena ?s" "dl_arena s"] by (simp add: reopened_def)
  have "from_snapshot ?all = dl_runs s" using ri old(1) ne by (intro from_snapshot_front) (auto simp: neq_Nil_conv)
  moreover have "recover_runs fp True 0 (sb_base_lsn (dl_base ?s)) (dl_runs s) (?s, roots, num_leaves) =
      Ok (adopt_all (base_chain s) (dl_runs s) ?s, ds_roots (run_state (last (dl_runs s))), ds_num_leaves (run_state (last (dl_runs s))))"
    using recover_runs_Ok [of True 0 "sb_base_lsn (dl_base ?s)" "dl_runs s" ?s fp roots num_leaves] ri ne unfolding b
    by (simp add: reopened_def base_chain_def)
  ultimately show ?thesis unfolding RecoverDeltas_def o and_then.simps fp using ne by simp
qed

text \<open>What the caller has to provide: the records that are sealed, and those that a compaction keeps, can be written.\<close>

definition sealable :: "(u64 \<Rightarrow> string) \<Rightarrow> hash256 \<Rightarrow> NodeId list \<Rightarrow> u64 \<Rightarrow> DeltaStore \<Rightarrow> bool" where
  "sealable path fp roots num_leaves s \<longleftrightarrow>
     (let chain = os_chain_hashes (dl_log s);
          state = delta_state False fp (os_current_lsn (dl_log s)) (length (seal_records s)) roots num_leaves s
      in delta_input_ok state chain (seal_records s) \<and>
         (\<forall>bytes run. WriteDeltaRun (path (dl_generation s + 1)) False state chain (seal_records s) = Ok (bytes, run) \<longrightarrow>
            (let s1 = sealed bytes run s
             in compaction_due s1 \<longrightarrow>
                delta_input_ok (delta_state True fp (os_current_lsn (dl_log s)) (length (compacted_records s1)) roots num_leaves s1) chain (compacted_records s1))))"

text \<open>The sealed state, possibly compacted.\<close>

definition seal_result :: "(u64 \<Rightarrow> string) \<Rightarrow> hash256 \<Rightarrow> NodeId list \<Rightarrow> u64 \<Rightarrow> DeltaStore \<Rightarrow> DeltaStore \<Rightarrow> bool" where
  "seal_result path fp roots num_leaves s s' \<longleftrightarrow> delta_inv path fp s' \<and> m_dirty (dl_arena s') = (\<lambda>_. None) \<and>
     (\<forall>nid < m_next (dl_arena s). same_node (Read (dl_arena s') nid) (Read (dl_arena s) nid)) \<and> dl_base s' = dl_base s \<and>
     base_chain s' = base_chain s \<and> m_next (dl_arena s') = m_next (dl_arena s) \<and> dl_runs s' \<noteq> [] \<and>
     (\<exists>snapshot n s1. run_state (last (dl_runs s')) = delta_state snapshot fp (os_current_lsn (dl_log s)) n roots num_leaves s1 \<and>
        os_point (dl_log s1) = os_point (dl_log s) \<and> m_next (dl_arena s1) = m_next (dl_arena s) \<and> m_live (dl_arena s1) = m_live (dl_arena s)) \<and>
     base_chain s @ run_chain_suffix (last (dl_runs s')) = os_chain_hashes (dl_log s)"

lemma sealed_result:
  assumes inv: "delta_inv path fp s" and ch: "chain_inv s" and g: "unat (dl_generation s) + 1 < 2 ^ 64" and ok: "sealable path fp roots num_leaves s"
  defines "state \<equiv> delta_state False fp (os_current_lsn (dl_log s)) (length (seal_records s)) roots num_leaves s"
  shows "\<exists>bytes run. WriteDeltaRun (path (dl_generation s + 1)) False state (os_chain_hashes (dl_log s)) (seal_records s) = Ok (bytes, run) \<and>
     seal_result path fp roots num_leaves s (sealed bytes run s)"
proof -
  have "delta_input_ok state (os_chain_hashes (dl_log s)) (seal_records s)" using ok by (simp add: sealable_def Let_def state_def)
  from WriteDeltaRun_Ok [OF this, of "path (dl_generation s + 1)"]
  obtain bytes run where w: "WriteDeltaRun (path (dl_generation s + 1)) False state (os_chain_hashes (dl_log s)) (seal_records s) = Ok (bytes, run)"
      "Open_delta (path (dl_generation s + 1)) bytes = Ok run" "run_wf run" "run_state run = state"
      "run_chain_suffix run = drop (unat (sb_chain_hash_count (dl_base s))) (os_chain_hashes (dl_log s))"
      "\<And>nid. lookup run nid = map_of (seal_records s) nid"
    by (auto simp: lookup_def state_def delta_state_def)
  have mapped: "m_mapped (dl_arena s)" using inv by (simp add: delta_inv_def runs_inv_def)
  have "delta_inv path fp (sealed bytes run s)" using sealed_inv [OF inv ch g w(4) [unfolded state_def] w(3,5,2)] .
  moreover have "\<forall>nid < m_next (dl_arena s). same_node (Read (dl_arena (sealed bytes run s)) nid) (Read (dl_arena s) nid)"
    using Read_sealed [OF mapped _ w(6)] by (auto simp: same_node_def)
  ultimately have "seal_result path fp roots num_leaves s (sealed bytes run s)"
    unfolding seal_result_def using w(4,5) by (auto simp: state_def base_chain_def)
  then show ?thesis using w(1) by blast
qed

lemma same_node_trans: "same_node a b \<Longrightarrow> same_node b c \<Longrightarrow> same_node a c"
  by (auto simp: same_node_def)

lemma CompactDeltas_Ok:
  assumes inv: "delta_inv path fp s" and ch: "chain_inv s" and g: "unat (dl_generation s) + 1 < 2 ^ 64" and dirty: "m_dirty (dl_arena s) = (\<lambda>_. None)"
    and ok: "delta_input_ok (delta_state True fp (dl_durable_lsn s) (length (compacted_records s)) roots num_leaves s) (os_chain_hashes (dl_log s)) (compacted_records s)"
      (is "delta_input_ok ?state _ _")
  shows "\<exists>bytes run. CompactDeltas path roots num_leaves s = (Ok (), compacted bytes run s) \<and> delta_inv path fp (compacted bytes run s) \<and>
     (\<forall>nid < m_next (dl_arena s). same_node (Read (dl_arena (compacted bytes run s)) nid) (Read (dl_arena s) nid)) \<and>
     run_state run = ?state \<and> run_chain_suffix run = drop (unat (sb_chain_hash_count (dl_base s))) (os_chain_hashes (dl_log s))"
proof -
  note ri = inv [unfolded delta_inv_def runs_inv_def]
  have ng: "dl_files s (dl_generation s + 1) = None" using new_generation(2) [OF _ _ g] ri by blast
  have fp: "OnlineBaseFingerprint (dl_base s) (dl_arena s) = Ok fp" using ri by blast
  from WriteDeltaRun_Ok [OF ok, of "path (dl_generation s + 1)"]
  obtain bytes run where w: "WriteDeltaRun (path (dl_generation s + 1)) False ?state (os_chain_hashes (dl_log s)) (compacted_records s) = Ok (bytes, run)"
      "Open_delta (path (dl_generation s + 1)) bytes = Ok run" "run_wf run" "run_state run = ?state"
      "run_chain_suffix run = drop (unat (sb_chain_hash_count (dl_base s))) (os_chain_hashes (dl_log s))"
      "\<And>nid. lookup run nid = map_of (compacted_records s) nid"
    by (auto simp: lookup_def delta_state_def)
  have "CompactDeltas path roots num_leaves s = (Ok (), compacted bytes run s)"
    unfolding CompactDeltas_def fp Result.case Let_def using ng w(1) by simp
  moreover have "delta_inv path fp (compacted bytes run s)" by (rule compacted_inv [OF inv ch g w(4,3,5,2)])
  moreover have "same_node (Read (dl_arena (compacted bytes run s)) nid) (Read (dl_arena s) nid)" if "nid < m_next (dl_arena s)" for nid
    using ri that by (intro Read_compacted [OF _ that dirty _ _ w(6)]) auto
  ultimately show ?thesis using w(4,5) by blast
qed

lemma sealed_flag: "sealed bytes run (s\<lparr>dl_last_flush_compacted := x\<rparr>) = (sealed bytes run s)\<lparr>dl_last_flush_compacted := x\<rparr>"
  by (simp add: sealed_def Let_def AppendDeltaRun_def RefreshDeltaStats_def)

lemma flag_frame:
  "delta_inv path fp (s\<lparr>dl_last_flush_compacted := x\<rparr>) = delta_inv path fp s" "chain_inv (s\<lparr>dl_last_flush_compacted := x\<rparr>) = chain_inv s"
  "delta_state b h l n roots m (s\<lparr>dl_last_flush_compacted := x\<rparr>) = delta_state b h l n roots m s"
  "seal_records (s\<lparr>dl_last_flush_compacted := x\<rparr>) = seal_records s" "compacted_records (s\<lparr>dl_last_flush_compacted := x\<rparr>) = compacted_records s"
  "compaction_due (s\<lparr>dl_last_flush_compacted := x\<rparr>) = compaction_due s"
  by (simp_all add: delta_inv_def runs_inv_def files_inv_def tip_inv_def base_chain_def chain_inv_def delta_state_def seal_records_def
      compacted_records_def compaction_due_def)

lemma sealable_flag: "sealable path fp roots num_leaves (s\<lparr>dl_last_flush_compacted := x\<rparr>) = sealable path fp roots num_leaves s"
  by (simp add: sealable_def Let_def flag_frame sealed_flag)

lemma PruneWal_frame:
  "dl_arena (PruneWal s) = dl_arena s" "dl_runs (PruneWal s) = dl_runs s" "dl_base (PruneWal s) = dl_base s" "dl_files (PruneWal s) = dl_files s"
  "dl_generation (PruneWal s) = dl_generation s" "dl_durable_lsn (PruneWal s) = dl_durable_lsn s"
  "os_chain_hashes (dl_log (PruneWal s)) = os_chain_hashes (dl_log s)" "os_point (dl_log (PruneWal s)) = os_point (dl_log s)"
  by (simp_all add: PruneWal_def Let_def)

lemma PruneWal_inv: "base_chain (PruneWal s) = base_chain s" "delta_inv path fp (PruneWal s) = delta_inv path fp s"
  by (simp_all add: delta_inv_def runs_inv_def files_inv_def tip_inv_def base_chain_def PruneWal_frame)

lemma seal_result_prune: "seal_result path fp roots num_leaves s s' \<Longrightarrow> seal_result path fp roots num_leaves s (PruneWal s')"
  unfolding seal_result_def PruneWal_inv PruneWal_frame .

lemma seal_result_flag: "seal_result path fp roots num_leaves (s\<lparr>dl_last_flush_compacted := x\<rparr>) s' = seal_result path fp roots num_leaves s s'"
proof -
  have "base_chain (s\<lparr>dl_last_flush_compacted := x\<rparr>) = base_chain s" by (simp add: base_chain_def)
  then show ?thesis by (simp add: seal_result_def)
qed

lemma SealDelta_result:
  assumes inv: "delta_inv path fp s" and ch: "chain_inv s" and g: "unat (dl_generation s) + 2 < 2 ^ 64" and ok: "sealable path fp roots num_leaves s"
  shows "\<exists>s'. SealDelta path roots num_leaves s = (Ok (), s') \<and> seal_result path fp roots num_leaves s s'"
proof -
  let ?s = "s\<lparr>dl_last_flush_compacted := False\<rparr>"
  have s: "delta_inv path fp ?s" "chain_inv ?s" "unat (dl_generation ?s) + 1 < 2 ^ 64" "sealable path fp roots num_leaves ?s"
    using assms by (simp_all only: flag_frame sealable_flag) simp
  note ri = s(1) [unfolded delta_inv_def runs_inv_def]
  have fp: "OnlineBaseFingerprint (dl_base ?s) (dl_arena ?s) = Ok fp" using ri by blast
  have ng: "dl_files ?s (dl_generation ?s + 1) = None" using new_generation(2) [OF _ _ s(3)] ri by blast
  obtain bytes run where w: "WriteDeltaRun (path (dl_generation ?s + 1)) False (delta_state False fp (os_current_lsn (dl_log ?s)) (length (seal_records ?s)) roots num_leaves ?s)
      (os_chain_hashes (dl_log ?s)) (seal_records ?s) = Ok (bytes, run)" and res: "seal_result path fp roots num_leaves ?s (sealed bytes run ?s)"
    using sealed_result [OF s] by blast
  let ?s1 = "sealed bytes run ?s"
  have "\<exists>s2. (if compaction_due ?s1 then CompactDeltas path roots num_leaves ?s1 else (Ok (), ?s1)) = (Ok (), s2) \<and> seal_result path fp roots num_leaves ?s s2"
  proof (cases "compaction_due ?s1")
    case True
    have u: "unat (dl_generation s + 1) = unat (dl_generation s) + 1" using g by (intro unat_Suc_word) simp
    have c1: "delta_inv path fp ?s1" "chain_inv ?s1" "unat (dl_generation ?s1) + 1 < 2 ^ 64" "m_dirty (dl_arena ?s1) = (\<lambda>_. None)"
      using res s(2) g u by (simp_all add: seal_result_def chain_inv_def)
    have "delta_input_ok (delta_state True fp (dl_durable_lsn ?s1) (length (compacted_records ?s1)) roots num_leaves ?s1) (os_chain_hashes (dl_log ?s1)) (compacted_records ?s1)"
      using s(4) w True unfolding sealable_def Let_def by (simp only: sealed_simps) simp
    from CompactDeltas_Ok [OF c1 this] obtain bytes1 run1 where
      c: "CompactDeltas path roots num_leaves ?s1 = (Ok (), compacted bytes1 run1 ?s1)" "delta_inv path fp (compacted bytes1 run1 ?s1)"
        "\<forall>nid < m_next (dl_arena ?s1). same_node (Read (dl_arena (compacted bytes1 run1 ?s1)) nid) (Read (dl_arena ?s1) nid)"
        "run_state run1 = delta_state True fp (dl_durable_lsn ?s1) (length (compacted_records ?s1)) roots num_leaves ?s1"
        "run_chain_suffix run1 = drop (unat (sb_chain_hash_count (dl_base ?s1))) (os_chain_hashes (dl_log ?s1))"
      by blast
    have r: "same_node (Read (dl_arena (compacted bytes1 run1 ?s1)) nid) (Read (dl_arena ?s) nid)" if "nid < m_next (dl_arena ?s)" for nid
      using c(3) res that same_node_trans by (simp add: seal_result_def) blast
    have tip: "\<exists>snapshot n s1. run_state (last (dl_runs (compacted bytes1 run1 ?s1))) = delta_state snapshot fp (os_current_lsn (dl_log ?s)) n roots num_leaves s1 \<and>
        os_point (dl_log s1) = os_point (dl_log ?s) \<and> m_next (dl_arena s1) = m_next (dl_arena ?s) \<and> m_live (dl_arena s1) = m_live (dl_arena ?s)"
      by (rule exI [of _ True], rule exI [of _ "length (compacted_records ?s1)"], rule exI [of _ ?s1]) (use c(4) in simp)
    have "seal_result path fp roots num_leaves ?s (compacted bytes1 run1 ?s1)"
      unfolding seal_result_def by (intro conjI tip allI impI r c(2)) (use c(5) in \<open>auto simp: base_chain_def\<close>)
    then show ?thesis using True c(1) by simp
  qed (use res in simp)
  then obtain s2 where s2: "(if compaction_due ?s1 then CompactDeltas path roots num_leaves ?s1 else (Ok (), ?s1)) = (Ok (), s2)"
      "seal_result path fp roots num_leaves ?s s2" by blast
  have "SealDelta path roots num_leaves s = (Ok (), PruneWal s2)"
    unfolding SealDelta_def Let_def fp Result.case using ng w s2(1) by simp
  moreover have "seal_result path fp roots num_leaves s (PruneWal s2)" using seal_result_prune [OF s2(2)] by (simp only: seal_result_flag)
  ultimately show ?thesis by blast
qed

text \<open>What a store that is opened again from the base and the delta files has of the state that was sealed.\<close>

definition restored :: "NodeId list \<Rightarrow> u64 \<Rightarrow> DeltaStore \<Rightarrow> DeltaStore \<Rightarrow> DeltaStore \<times> NodeId list \<times> u64 \<Rightarrow> bool" where
  "restored roots num_leaves s s' x \<longleftrightarrow>
     (case x of (r, roots1, num_leaves1) \<Rightarrow>
        roots1 = roots \<and> num_leaves1 = num_leaves \<and> Read (dl_arena r) = Read (dl_arena s') \<and> m_next (dl_arena r) = m_next (dl_arena s) \<and>
        os_point (dl_log r) = os_point (dl_log s) \<and> os_chain_hashes (dl_log r) = os_chain_hashes (dl_log s) \<and>
        os_current_lsn (dl_log r) = os_current_lsn (dl_log s) \<and> dl_durable_lsn r = os_current_lsn (dl_log s) \<and>
        dl_durable_live_nodes r = m_live (dl_arena s) \<and> dl_generation r = dl_generation s')"

text \<open>The files on disk: those of the store, and possibly some that its snapshot replaced.\<close>

definition disk_files :: "(u64 \<Rightarrow> string) \<Rightarrow> DeltaStore \<Rightarrow> (u64 \<rightharpoonup> byte list) \<Rightarrow> bool" where
  "disk_files path s files \<longleftrightarrow>
     (\<exists>old. (old = [] \<or> ds_snapshot (run_state (hd (dl_runs s)))) \<and> sorted_wrt (<) (map generation_of (old @ dl_runs s)) \<and>
        (\<forall>run \<in> set old. 0 < generation_of run) \<and> dom files = generation_of ` set (old @ dl_runs s) \<and>
        (\<forall>run \<in> set (old @ dl_runs s). \<exists>bytes. files (generation_of run) = Some bytes \<and> Open_delta (path (generation_of run)) bytes = Ok run))"

lemma disk_files_own: "delta_inv path fp s \<Longrightarrow> disk_files path s (dl_files s)"
  unfolding disk_files_def delta_inv_def files_inv_def by (intro exI [of _ "[]"]) simp

lemma seal_result_restored:
  assumes res: "seal_result path fp roots num_leaves s s'" and files: "disk_files path s' files"
  shows "\<exists>x. RecoverDeltas path ((reopened s')\<lparr>dl_files := files\<rparr>) roots0 num_leaves0 = Ok x \<and> restored roots num_leaves s s' x"
proof -
  let ?last = "last (dl_runs s')" and ?r = "adopt_all (base_chain s') (dl_runs s') ((reopened s')\<lparr>dl_files := files\<rparr>)"
  have inv: "delta_inv path fp s'" and ne: "dl_runs s' \<noteq> []" using res by (simp_all add: seal_result_def)
  obtain snapshot n s1 where st: "run_state ?last = delta_state snapshot fp (os_current_lsn (dl_log s)) n roots num_leaves s1"
      "os_point (dl_log s1) = os_point (dl_log s)" "m_next (dl_arena s1) = m_next (dl_arena s)" "m_live (dl_arena s1) = m_live (dl_arena s)"
    using res unfolding seal_result_def by blast
  note ri = inv [unfolded delta_inv_def runs_inv_def tip_inv_def]
  note f = fold_adopt [OF ne, of "base_chain s'" "(reopened s')\<lparr>dl_files := files\<rparr>"]
  have "Read (dl_arena ?r) = Read (dl_arena s')"
    unfolding f(2) by (rule Read_cong) (use ri res in \<open>simp_all add: reopened_def seal_result_def\<close>)
  moreover have "base_chain s' @ run_chain_suffix ?last = os_chain_hashes (dl_log s)" using res by (simp add: seal_result_def)
  moreover have "dl_generation s' = generation_of ?last" using ri ne by simp
  ultimately have "restored roots num_leaves s s' (RefreshDeltaStats ?r, ds_roots (run_state ?last), ds_num_leaves (run_state ?last))"
    by (simp add: restored_def f st delta_state_def)
  moreover obtain old where "old = [] \<or> ds_snapshot (run_state (hd (dl_runs s')))" "sorted_wrt (<) (map generation_of (old @ dl_runs s'))"
      "\<forall>run \<in> set old. 0 < generation_of run" "dom files = generation_of ` set (old @ dl_runs s')"
      "\<forall>run \<in> set (old @ dl_runs s'). \<exists>bytes. files (generation_of run) = Some bytes \<and> Open_delta (path (generation_of run)) bytes = Ok run"
    using files unfolding disk_files_def by blast
  ultimately show ?thesis using RecoverDeltas_files [OF inv ne] by blast
qed

lemma disk_files_compacted:
  assumes inv: "delta_inv path fp s" and g: "unat (dl_generation s) + 1 < 2 ^ 64"
    and run: "generation_of run = dl_generation s + 1" "ds_snapshot (run_state run)" "Open_delta (path (dl_generation s + 1)) bytes = Ok run"
  shows "disk_files path (compacted bytes run s) ((dl_files s |` kept)(dl_generation s + 1 \<mapsto> bytes))"
proof -
  have fi: "files_inv path s" and ti: "tip_inv s" using inv by (simp_all add: delta_inv_def)
  note ng = new_generation [OF fi ti g]
  let ?old = "filter (\<lambda>run. generation_of run \<in> kept) (dl_runs s)"
  have "sorted_wrt (<) (map generation_of ?old)" using fi sorted_wrt_filter by (auto simp: files_inv_def sorted_wrt_map)
  moreover have "dom (dl_files s |` kept) = generation_of ` set ?old" using fi by (auto simp: files_inv_def)
  moreover have "\<forall>r \<in> set ?old. generation_of r < dl_generation s + 1 \<and> 0 < generation_of r" using ng fi by (auto simp: files_inv_def)
  moreover have "\<forall>r \<in> set ?old. \<exists>bytes. (dl_files s |` kept) (generation_of r) = Some bytes \<and> Open_delta (path (generation_of r)) bytes = Ok r"
    using fi by (auto simp: files_inv_def restrict_map_def)
  ultimately show ?thesis
    unfolding disk_files_def by (intro exI [of _ ?old]) (use run in \<open>auto simp: sorted_wrt_append\<close>)
qed

text \<open>A store over an empty base, with one leaf in memory.\<close>

definition example_superblock :: OnlineSuperblock where
  "example_superblock = \<lparr>sb_format_version = ONLINE_FORMAT_VERSION, sb_generation = 1, sb_base_lsn = 7, sb_point = \<lparr>height = 0, point_hash = null_hash\<rparr>,
     sb_num_leaves = 0, sb_next = 0, sb_live_nodes = 0, sb_capacity_slots = 16, sb_chain_hash_count = 1, sb_roots = replicate 64 NO_NODE\<rparr>"

definition example_delta_store :: DeltaStore where
  "example_delta_store = \<lparr>dl_log = example_store\<lparr>os_point := \<lparr>height = 1, point_hash = null_hash\<rparr>, os_chain_hashes := [null_hash, null_hash], os_current_lsn := 8\<rparr>,
     dl_config = \<lparr>max_dirty_bytes = 1024, undo_depth = 6, delta_compaction_min_runs = 4, max_delta_runs = 128, delta_compaction_garbage_percent = 50\<rparr>,
     dl_base = example_superblock,
     dl_arena = empty_arena\<lparr>m_mapped := True, m_next := 1, m_live := 1, m_dirty := [0 \<mapsto> empty_record\<lparr>rec_type := LEAF\<rparr>]\<rparr>,
     dl_runs = [], dl_files = (\<lambda>_. None), dl_durable_lsn = 7, dl_durable_live_nodes = 0, dl_generation = 0, dl_bytes = 0, dl_run_count = 0,
     dl_records = 0, dl_unique_records = 0, dl_last_flush_compacted = False\<rparr>"

lemma LatestDeltaRecords_member:
  assumes wf: "\<forall>run \<in> set runs. run_wf run" and mem: "(k, v) \<in> set (LatestDeltaRecords next runs)"
  shows "k < next \<and> find_delta (rev (map lookup runs)) k = Some v"
proof -
  have "distinct (map fst (LatestDeltaRecords next runs))" using LatestDeltaRecords_correct(1) [OF wf] strict_sorted_iff by blast
  then have "map_of (LatestDeltaRecords next runs) k = Some v" using mem by (rule map_of_is_SomeI)
  then show ?thesis unfolding LatestDeltaRecords_correct(2) [OF wf] by (simp split: if_split_asm)
qed

lemma one_record: "sorted_wrt (<) (map fst xs) \<Longrightarrow> set xs \<subseteq> {x :: NodeId \<times> NodeRecord} \<Longrightarrow> xs = [] \<or> xs = [x]"
  by (cases xs; cases "tl xs") auto

lemma root_bytes_none: "root_bytes a (replicate n NO_NODE) = Ok (concat (replicate n (replicate 32 0)))"
  by (induction n) simp_all

lemma example_inv: "\<exists>fp. delta_inv path fp example_delta_store" "chain_inv example_delta_store"
proof -
  have "\<exists>fp. OnlineBaseFingerprint example_superblock (dl_arena example_delta_store) = Ok fp"
    by (simp add: OnlineBaseFingerprint_def example_superblock_def root_bytes_none)
  then show "\<exists>fp. delta_inv path fp example_delta_store"
    by (simp add: delta_inv_def runs_inv_def files_inv_def tip_inv_def example_delta_store_def) (simp add: example_superblock_def empty_arena_def)
  show "chain_inv example_delta_store" by (simp add: chain_inv_def example_delta_store_def example_superblock_def)
qed

lemma example_records: "seal_records example_delta_store = [(0, empty_record\<lparr>rec_type := LEAF\<rparr>)]"
  by (simp add: seal_records_def SortedVisibleDirtyIds_def SortedDirtyIds_def example_delta_store_def)

lemma example_sealable: "sealable path fp (0 # replicate 63 NO_NODE) 1 example_delta_store"
proof -
  let ?s = example_delta_store
  have ok: "delta_input_ok (delta_state False fp 8 1 (0 # replicate 63 NO_NODE) 1 ?s) [null_hash, null_hash] [(0, empty_record\<lparr>rec_type := LEAF\<rparr>)]"
    by (simp add: delta_input_ok_def delta_state_def publication_valid_def fields_consistent_def valid_link_def empty_record_def list_all_iff
        example_delta_store_def example_superblock_def empty_arena_def word_le_nat_alt word_less_nat_alt unat_NO_NODE)
  have "\<not> compaction_due (sealed bytes run ?s)" for bytes run
    by (simp add: compaction_due_def sealed_def Let_def RefreshDeltaStats_def AppendDeltaRun_def example_delta_store_def word_le_nat_alt)
  then show ?thesis using ok by (simp add: sealable_def Let_def example_records) (simp add: example_delta_store_def)
qed

text \<open>C39: A flush (\<open>SealDelta\<close>) of a store whose runs are consistent succeeds, whether or not it compacts, keeps the invariant of the runs and
  leaves no record only in memory; every node of the arena still reads as before (a free slot possibly as another free record, after a compaction),
  and a store that is opened again from the base and the delta files on disk (\<open>RecoverDeltas\<close>) has the sealed arena, roots, leaf count, chain,
  chain point and log position.\<close>

theorem SealDelta_durable:
  assumes "delta_inv path fp s" "chain_inv s" "unat (dl_generation s) + 2 < 2 ^ 64" "sealable path fp roots num_leaves s"
  shows "\<exists>s' x. SealDelta path roots num_leaves s = (Ok (), s') \<and> delta_inv path fp s' \<and> m_dirty (dl_arena s') = (\<lambda>_. None) \<and>
     (\<forall>nid < m_next (dl_arena s). same_node (Read (dl_arena s') nid) (Read (dl_arena s) nid)) \<and>
     RecoverDeltas path (reopened s') roots0 num_leaves0 = Ok x \<and> restored roots num_leaves s s' x"
proof -
  obtain s' where s': "SealDelta path roots num_leaves s = (Ok (), s')" "seal_result path fp roots num_leaves s s'"
    using SealDelta_result [OF assms] by blast
  then obtain x where "RecoverDeltas path (reopened s') roots0 num_leaves0 = Ok x" "restored roots num_leaves s s' x"
    using seal_result_restored [OF s'(2), of "dl_files s'" roots0 num_leaves0] disk_files_own [of path fp s'] by (auto simp: seal_result_def reopened_def)
  then show ?thesis using s' unfolding seal_result_def by blast
qed

theorem SealDelta_durable_witness:
  "\<exists>s' r. SealDelta (\<lambda>_. ''run'') (0 # replicate 63 NO_NODE) 1 example_delta_store = (Ok (), s') \<and>
     RecoverDeltas (\<lambda>_. ''run'') (reopened s') (replicate 64 NO_NODE) 0 = Ok (r, 0 # replicate 63 NO_NODE, 1) \<and>
     Read (dl_arena r) 0 = empty_record\<lparr>rec_type := LEAF\<rparr> \<and> dl_durable_lsn r = 8"
proof -
  let ?s = example_delta_store
  have n: "m_next (dl_arena ?s) = 1" "Read (dl_arena ?s) 0 = empty_record\<lparr>rec_type := LEAF\<rparr>" "os_current_lsn (dl_log ?s) = 8" "unat (dl_generation ?s) + 2 < 2 ^ 64"
    by (simp_all add: example_delta_store_def Read_def)
  obtain fp where "delta_inv (\<lambda>_. ''run'') fp ?s" using example_inv(1) by blast
  from SealDelta_durable [OF this example_inv(2) n(4) example_sealable, of "replicate 64 NO_NODE" 0]
  obtain s' x where "SealDelta (\<lambda>_. ''run'') (0 # replicate 63 NO_NODE) 1 ?s = (Ok (), s')" "\<forall>nid < m_next (dl_arena ?s). same_node (Read (dl_arena s') nid) (Read (dl_arena ?s) nid)"
      "RecoverDeltas (\<lambda>_. ''run'') (reopened s') (replicate 64 NO_NODE) 0 = Ok x" "restored (0 # replicate 63 NO_NODE) 1 ?s s' x" by blast
  moreover obtain r roots m where "x = (r, roots, m)" by (rule prod_cases3)
  ultimately have s': "SealDelta (\<lambda>_. ''run'') (0 # replicate 63 NO_NODE) 1 ?s = (Ok (), s')" "same_node (Read (dl_arena s') 0) (Read (dl_arena ?s) 0)"
      "RecoverDeltas (\<lambda>_. ''run'') (reopened s') (replicate 64 NO_NODE) 0 = Ok (r, roots, m)" "restored (0 # replicate 63 NO_NODE) 1 ?s s' (r, roots, m)"
    using n(1) by simp_all
  have "roots = 0 # replicate 63 NO_NODE" "m = 1" "Read (dl_arena r) = Read (dl_arena s')" "dl_durable_lsn r = 8" using s'(4) n(3) by (simp_all add: restored_def)
  moreover have "Read (dl_arena s') 0 = empty_record\<lparr>rec_type := LEAF\<rparr>" using s'(2) n(2) by (simp add: same_node_def)
  ultimately show ?thesis using s'(1,3) by auto
qed



end
