(* ===== verification/Spec2Isabelle.thy ===== *)
theory Spec2Isabelle
  imports Relay BridgeWire DeltaStore
begin

text \<open>
  A verification of the Utreexo bridge node (\<^verbatim>\<open>utreexo-core-rpc\<close>): a program that follows Bitcoin Core over
  JSON-RPC, keeps the Utreexo accumulator (a forest of hash trees over all unspent outputs), and proves
  the inclusion of the outputs that blocks and transactions spend. All paths are below \<^verbatim>\<open>src/\<close>.

  \<^bold>\<open>How the parts fit.\<close> \<open>SequentialSync\<close> (\<^verbatim>\<open>src/sync.cpp\<close>) asks a block source for the next block, reads the
  accumulator transition from its JSON text (\<^verbatim>\<open>src/json_stream.cpp\<close>, \<^verbatim>\<open>src/core_rpc.cpp\<close>), lets the forest
  (\<^verbatim>\<open>src/forest.cpp\<close>) prove the deletions, and applies the transition. The block source is the RPC client
  over HTTP (\<^verbatim>\<open>src/core_rpc.cpp\<close>). \<open>TransactionRelay\<close> (\<^verbatim>\<open>src/transaction_relay.cpp\<close>) prepares proofs of mempool
  transactions with the same forest and publishes them in a cache (\<^verbatim>\<open>src/transaction_cache.cpp\<close>), from which
  peers are served in the wire formats of \<^verbatim>\<open>src/transaction_wire.cpp\<close> and \<^verbatim>\<open>src/bridge_wire.cpp\<close>.

  \<^bold>\<open>Conventions.\<close> A C++ function is a function of the same name; where a name is taken (\<open>Find\<close>, \<open>Call\<close>) it has a
  prefix or is qualified by its theory. A class is a record, a method takes and returns the record. \<open>Result<T>\<close>
  is the datatype \<open>Result\<close> with a third constructor \<open>Throw\<close> for an exception that leaves the function. Integers
  are words of their width where they can wrap; sizes and counters that are bounded by memory are numbers.
  Locks and threads are step relations whose steps are the critical sections. Log lines, timings (apart
  from the counters of the RPC client) and failing allocations are left out throughout.

  \<^bold>\<open>The theories.\<close>

  \<^item> \<open>Prelude\<close>, \<open>Bytes\<close>: results, hashes, little- and big-endian words, shared lemmas on words and lists.
  \<^item> \<open>Position\<close> (\<^verbatim>\<open>src/position.cpp\<close>): rows, parents, children, root positions, the positions a proof needs. A node
    of row \<open>r\<close> and offset \<open>i\<close> has a word as its position; the lemmas show that every function computes on
    these words what the coordinates say, for forests of at most 62 rows, and that the work list of
    \<open>ProofPositions\<close> ends with exactly the siblings of the paths to the roots.
  \<^item> \<open>Hash\<close> (\<^verbatim>\<open>src/hash.cpp\<close>): SHA-512/256, SHA-256, RIPEMD-160, hexadecimal text; the streaming digests equal the
    standard's definition on padded blocks.
  \<^item> \<open>Arena\<close>, \<open>LeafIndex\<close> (\<^verbatim>\<open>src/forest.cpp\<close>): the slots of the nodes with free list, overlay and transactions, and the
    hash table from leaf hashes to slots, which stores no keys. Locales state what the forest relies on (a
    fresh slot, an unchanged rest; lookup after insertion and removal) and are interpreted on the code's
    definitions. Probing loops have as fuel the number of slots, which the invariant (an empty slot exists)
    shows to be enough.
  \<^item> \<open>Forest\<close>, \<open>ForestTree\<close>, \<open>ForestDelete\<close>, \<open>ForestProof\<close>, \<open>ForestModify\<close>, \<open>Verify\<close>: the in-memory forest. \<open>forest_inv\<close> relates
    the pointer structure to a list of trees; adding, deleting and modifying refine operations on trees;
    every generated proof is accepted by \<open>VerifyProof\<close>; an accepted proof is right unless it exhibits a hash
    collision. Walks through parent and child links return \<open>None\<close> when they exceed the number of slots, which the
    invariant excludes.
  \<^item> \<open>Wire\<close>, \<open>Inventory\<close>, \<open>TransactionScan\<close>, \<open>WirePositions\<close>, \<open>TransactionProof\<close> (\<^verbatim>\<open>src/transaction_wire.cpp\<close>): readers and writers,
    related by the locale \<open>codec\<close> (the reader accepts exactly what the writer writes); the transaction parser
    against a grammar; the row-wise computation of the needed positions against the abstract one; the round
    trip of a transaction with its proof.
  \<^item> \<open>Leaf\<close> (\<^verbatim>\<open>src/leaf.cpp\<close>) and \<open>BridgeWire\<close> (\<^verbatim>\<open>src/bridge_wire.cpp\<close>): leaf commitments, compact leaves, the proof data of a block.
  \<^item> \<open>TransactionCache\<close> (\<^verbatim>\<open>src/transaction_cache.cpp\<close>): every method as a step of \<open>cache_run\<close>, with \<open>WaitFor\<close> as two steps
    around the wait; invariants of the entries, the expiry and the regeneration jobs by rule induction.
  \<^item> \<open>JsonStream\<close>, \<open>JsonProject\<close> (\<^verbatim>\<open>src/json_stream.cpp\<close>): the streaming cursor as a recogniser of a JSON grammar given by
    inductive relations, the projection of a block text and the RPC envelope as functions on JSON trees.
    The nesting is limited to 65 levels by the code; loops have the length of the input as fuel, and the
    theorems show that it is never exhausted.
  \<^item> \<open>BlockParse\<close> (\<^verbatim>\<open>src/core_rpc.cpp\<close>, \<open>ParseVerboseBlock\<close>): the transition of a block as the net effect of its transactions.
  \<^item> \<open>Sync\<close> (\<^verbatim>\<open>src/sync.cpp\<close>): connecting, reconciling and rolling back, and the prefetch worker as a step relation. The
    locale \<open>block_forest\<close> is the contract of the forest, interpreted on the in-memory forest.
  \<^item> \<open>Http\<close>, \<open>RpcClient\<close> (\<^verbatim>\<open>src/core_rpc.cpp\<close>): response framing and chunked bodies, the read and send loops over an
    interface to the operating system (partial functions, as a call can be interrupted for ever), calls with
    retries, the block source.
  \<^item> \<open>Relay\<close> (\<^verbatim>\<open>src/transaction_relay.cpp\<close>): one poll of the mempool as actions on the state of the relay.

  \<^item> \<open>Wal\<close> (\<^verbatim>\<open>src/forest.cpp\<close>, \<open>WalTransaction\<close> and \<open>OnlineStore::Append\<close>, \<open>Recover\<close>): the write-ahead log of an online forest; the bytes of a
    transaction, appending with every outcome of the write and the sync, and recovery, which replays all of the
    last transaction or nothing of it.
  \<^item> \<open>DeltaRun\<close>, \<open>DeltaMerge\<close> (\<^verbatim>\<open>src/forest.cpp\<close>, \<open>MappedDeltaRun\<close>, \<open>WriteDeltaRun\<close>, \<open>ForEachLatestDeltaRecord\<close>): the immutable files of changed nodes with
    their Bloom filter and fences, and the merge of all runs with a priority queue, which yields for every node its newest record.
  \<^item> \<open>DeltaStore\<close> (\<^verbatim>\<open>src/forest.cpp\<close>, \<open>OnlineStore::SealDelta\<close>, \<open>CompactDeltas\<close>, \<open>PruneWal\<close>, \<open>RecoverDeltas\<close>): \<open>delta_inv\<close> relates the open runs, the files and the
    superblock; sealing and compacting keep it and every node, and recovery from the files restores the sealed state, also when
    a compaction stopped before all replaced files were gone.

  \<^bold>\<open>Parameters.\<close> The reader and writer of the vendored UniValue library, the sockets, the clock, the memory cost of a
  cache entry and the block source, RPC and forest interfaces of \<open>Sync\<close> and \<open>Relay\<close> are arguments.

  \<^bold>\<open>Not modelled.\<close> Of the online storage of the forest: creating and mapping a generation, opening an online forest
  (\<open>EnableOnline\<close>, \<open>OpenOnline\<close>), the validated startup cache, and errors of the file system while a delta run is written.
  The checkpoint files, the proof store, the peer-to-peer server, memory availability, logging and the command line:
  mostly files, sockets and process control around the parts above.
\<close>

end
